(* ===== verification/Prelude.thy ===== *)
theory Prelude
  imports Main "HOL-Library.Word"
begin

text \<open>
  Shared vocabulary of the development: the machine integers of the C code, reads from a byte
  buffer that keep the "past the end" case as \<open>None\<close>, and the generic facts on words and
  lists that the component theories use.

  The target of the build is \<^verbatim>\<open>armeabi\<close> (\<^verbatim>\<open>android/build-tcpdump.sh\<close>,
  \<^verbatim>\<open>android/libs/armeabi\<close>): \<open>int\<close>, \<open>long\<close>, \<open>size_t\<close> and pointers are
  32 bits wide, bytes are little-endian, and plain \<open>char\<close> is unsigned.
\<close>

unbundle bit_operations_syntax

type_synonym u8 = "8 word"
type_synonym u16 = "16 word"
type_synonym u32 = "32 word"

named_theorems bpf_exec \<open>equations that evaluate the filter machine\<close>

section \<open>Words\<close>

lemma unat_u32_of_nat [simp]: "n < 4294967296 \<Longrightarrow> unat (of_nat n :: u32) = n"
  by (simp add: unat_of_nat take_bit_eq_mod)

lemma unat_u32_Suc_of_nat [simp]:
  "n + 1 < 4294967296 \<Longrightarrow> unat (1 + of_nat n :: u32) = Suc n"
  using unat_u32_of_nat [of "n + 1"] by (simp add: add.commute)

lemma unat_u32_lt [simp]: "unat (x :: u32) < 4294967296"
  using unsigned_less [of x] by simp

lemma unat_u8_lt [simp]: "unat (x :: u8) < 256"
  using unsigned_less [of x] by simp

lemma unat_u16_lt [simp]: "unat (x :: u16) < 65536"
  using unsigned_less [of x] by simp

lemma unat_ucast_u8_u32 [simp]: "unat (ucast (x :: u8) :: u32) = unat x"
proof -
  have "unat x < 4294967296" by (rule less_trans [OF unat_u8_lt]) simp
  then show ?thesis by (simp add: unsigned_ucast_eq take_bit_eq_mod)
qed

lemma unat_u32_plus: "unat (x + y :: u32) = (unat x + unat y) mod 4294967296"
  by (simp add: unat_word_ariths)

lemma unat_u32_plus_small:
  "unat x + unat y < 4294967296 \<Longrightarrow> unat (x + y :: u32) = unat x + unat y"
  by (simp add: unat_u32_plus)

lemma u32_le_iff: "(x :: u32) \<le> y \<longleftrightarrow> unat x \<le> unat y"
  by (rule word_le_nat_alt)

lemma u32_less_iff: "(x :: u32) < y \<longleftrightarrow> unat x < unat y"
  by (rule word_less_nat_alt)

text \<open>Two's complement: what the signed type reads in a 32-bit word.\<close>

lemma uint_u32_lt [simp]: "uint (x :: u32) < 4294967296"
  using uint_lt2p [of x] by simp

lemma unat_less_uint: "unat (x :: u32) < n \<longleftrightarrow> uint x < int n"
  using of_nat_less_iff [of "unat x" n, where 'a = int] by simp

lemma sint_u32:
  "sint (x :: u32) = (if unat x < 2147483648 then uint x else uint x - 4294967296)"
proof -
  have s: "sint x = (uint x + 2147483648) mod 4294967296 - 2147483648"
    using int_word_sint [of "uint x", where 'a = 32] by simp
  have nn: "0 \<le> uint x" by simp
  show ?thesis
  proof (cases "uint x < 2147483648")
    case True
    then show ?thesis using s nn by (simp add: unat_less_uint)
  next
    case False
    then have "(uint x - 2147483648) mod 4294967296 = uint x - 2147483648"
      using uint_u32_lt [of x] by (intro mod_pos_pos_trivial) linarith+
    moreover have "(uint x - 2147483648 + 4294967296) mod 4294967296 =
        (uint x - 2147483648) mod 4294967296"
      by (rule mod_add_self2)
    ultimately show ?thesis using False s by (simp add: unat_less_uint add.commute)
  qed
qed

section \<open>Lists\<close>

lemma find_SomeD: "find P xs = Some x \<Longrightarrow> x \<in> set xs \<and> P x"
  by (auto simp: find_Some_iff)

section \<open>Results\<close>

text \<open>A result is an error or a value; \<open>rbind\<close> goes on with the value.\<close>

fun rbind :: "'e + 'a \<Rightarrow> ('a \<Rightarrow> 'e + 'b) \<Rightarrow> 'e + 'b" where
  "rbind (Inl e) f = Inl e"
| "rbind (Inr x) f = f x"

lemma rbind_Inr: "rbind m f = Inr y \<longleftrightarrow> (\<exists>x. m = Inr x \<and> f x = Inr y)"
  by (cases m) auto

lemma rbind_Inl: "rbind m f = Inl e \<longleftrightarrow> m = Inl e \<or> (\<exists>x. m = Inr x \<and> f x = Inl e)"
  by (cases m) auto

section \<open>Reading big-endian values out of a buffer\<close>

text \<open>
  \<open>get_u8\<close> is \<open>p[i]\<close> for an in-range \<open>i\<close>; the wider reads combine consecutive bytes
  with the most significant one first, as the \<open>EXTRACT\<close> macros of the sources do.
\<close>

definition get_u8 :: "u8 list \<Rightarrow> nat \<Rightarrow> u8 option" where
  "get_u8 p i = (if i < length p then Some (p ! i) else None)"

definition be16 :: "u8 \<Rightarrow> u8 \<Rightarrow> u32" where
  "be16 b0 b1 = push_bit 8 (ucast b0) OR ucast b1"

definition be32 :: "u8 \<Rightarrow> u8 \<Rightarrow> u8 \<Rightarrow> u8 \<Rightarrow> u32" where
  "be32 b0 b1 b2 b3 =
     push_bit 24 (ucast b0) OR push_bit 16 (ucast b1) OR push_bit 8 (ucast b2) OR ucast b3"

definition get_be16 :: "u8 list \<Rightarrow> nat \<Rightarrow> u32 option" where
  "get_be16 p i = (if i + 2 \<le> length p then Some (be16 (p ! i) (p ! (i + 1))) else None)"

definition get_be32 :: "u8 list \<Rightarrow> nat \<Rightarrow> u32 option" where
  "get_be32 p i =
     (if i + 4 \<le> length p
      then Some (be32 (p ! i) (p ! (i + 1)) (p ! (i + 2)) (p ! (i + 3))) else None)"

end
