(* ===== verification/Bpf_Machine.thy ===== *)
theory Bpf_Machine
  imports Prelude
begin

text \<open>
  The BPF filter machine: the instruction encoding of \<^verbatim>\<open>pcap/bpf.h\<close> and the user-land
  interpreter \<open>bpf_filter\<close> of \<^verbatim>\<open>bpf/net/bpf_filter.c\<close> (the \<open>#if KERNEL\<close> branches, which
  the build does not compile, are left out). Everything the C code leaves undefined, or that
  leaves the objects it was given, is an outcome of its own (\<open>Fault\<close>), so that
  "the interpreter never does that" is a provable statement.
\<close>

section \<open>Instruction encoding\<close>

text \<open>The field values of an instruction code, as \<^verbatim>\<open>pcap/bpf.h\<close> defines them.\<close>

abbreviation (input) BPF_LD :: int where "BPF_LD \<equiv> 0x00"
abbreviation (input) BPF_LDX :: int where "BPF_LDX \<equiv> 0x01"
abbreviation (input) BPF_ST :: int where "BPF_ST \<equiv> 0x02"
abbreviation (input) BPF_STX :: int where "BPF_STX \<equiv> 0x03"
abbreviation (input) BPF_ALU :: int where "BPF_ALU \<equiv> 0x04"
abbreviation (input) BPF_JMP :: int where "BPF_JMP \<equiv> 0x05"
abbreviation (input) BPF_RET :: int where "BPF_RET \<equiv> 0x06"
abbreviation (input) BPF_MISC :: int where "BPF_MISC \<equiv> 0x07"
abbreviation (input) BPF_W :: int where "BPF_W \<equiv> 0x00"
abbreviation (input) BPF_H :: int where "BPF_H \<equiv> 0x08"
abbreviation (input) BPF_B :: int where "BPF_B \<equiv> 0x10"
abbreviation (input) BPF_IMM :: int where "BPF_IMM \<equiv> 0x00"
abbreviation (input) BPF_ABS :: int where "BPF_ABS \<equiv> 0x20"
abbreviation (input) BPF_IND :: int where "BPF_IND \<equiv> 0x40"
abbreviation (input) BPF_MEM :: int where "BPF_MEM \<equiv> 0x60"
abbreviation (input) BPF_LEN :: int where "BPF_LEN \<equiv> 0x80"
abbreviation (input) BPF_MSH :: int where "BPF_MSH \<equiv> 0xa0"
abbreviation (input) BPF_ADD :: int where "BPF_ADD \<equiv> 0x00"
abbreviation (input) BPF_SUB :: int where "BPF_SUB \<equiv> 0x10"
abbreviation (input) BPF_MUL :: int where "BPF_MUL \<equiv> 0x20"
abbreviation (input) BPF_DIV :: int where "BPF_DIV \<equiv> 0x30"
abbreviation (input) BPF_OR :: int where "BPF_OR \<equiv> 0x40"
abbreviation (input) BPF_AND :: int where "BPF_AND \<equiv> 0x50"
abbreviation (input) BPF_LSH :: int where "BPF_LSH \<equiv> 0x60"
abbreviation (input) BPF_RSH :: int where "BPF_RSH \<equiv> 0x70"
abbreviation (input) BPF_NEG :: int where "BPF_NEG \<equiv> 0x80"
abbreviation (input) BPF_JA :: int where "BPF_JA \<equiv> 0x00"
abbreviation (input) BPF_JEQ :: int where "BPF_JEQ \<equiv> 0x10"
abbreviation (input) BPF_JGT :: int where "BPF_JGT \<equiv> 0x20"
abbreviation (input) BPF_JGE :: int where "BPF_JGE \<equiv> 0x30"
abbreviation (input) BPF_JSET :: int where "BPF_JSET \<equiv> 0x40"
abbreviation (input) BPF_K :: int where "BPF_K \<equiv> 0x00"
abbreviation (input) BPF_X :: int where "BPF_X \<equiv> 0x08"
abbreviation (input) BPF_A :: int where "BPF_A \<equiv> 0x10"
abbreviation (input) BPF_TAX :: int where "BPF_TAX \<equiv> 0x00"
abbreviation (input) BPF_TXA :: int where "BPF_TXA \<equiv> 0x80"
abbreviation (input) BPF_MEMWORDS :: nat where "BPF_MEMWORDS \<equiv> 16"

definition BPF_CLASS :: "int \<Rightarrow> int" where "BPF_CLASS code = code AND 0x07"
definition BPF_SIZE :: "int \<Rightarrow> int" where "BPF_SIZE code = code AND 0x18"
definition BPF_MODE :: "int \<Rightarrow> int" where "BPF_MODE code = code AND 0xe0"
definition BPF_OP :: "int \<Rightarrow> int" where "BPF_OP code = code AND 0xf0"
definition BPF_SRC :: "int \<Rightarrow> int" where "BPF_SRC code = code AND 0x08"
definition BPF_RVAL :: "int \<Rightarrow> int" where "BPF_RVAL code = code AND 0x18"
definition BPF_MISCOP :: "int \<Rightarrow> int" where "BPF_MISCOP code = code AND 0xf8"

lemmas bpf_fields = BPF_CLASS_def BPF_SIZE_def BPF_MODE_def BPF_OP_def BPF_SRC_def
  BPF_RVAL_def BPF_MISCOP_def

text \<open>\<open>struct bpf_insn\<close>.\<close>

record bpf_insn =
  i_code :: u16
  i_jt :: u8
  i_jf :: u8
  i_k :: u32

text \<open>
  The \<open>switch (pc->code)\<close> of the interpreter has one label per instruction form. A form is
  a value of \<open>bpf_op\<close>; \<open>opcode\<close> is its label, written with the same bit-ors as in the
  source, and \<open>decode\<close> finds the form of a code, \<open>None\<close> being the \<open>default\<close> label.
\<close>

datatype bsize = SzW | SzH | SzB
datatype src = SrcK | SrcX
datatype alu_op = AAdd | ASub | AMul | ADiv | AAnd | AOr | ALsh | ARsh
datatype jmp_op = JGT | JGE | JEQ | JSET

datatype bpf_op =
  RetK | RetA
| LdAbs bsize | LdLen | LdxLen | LdInd bsize | LdxMsh
| LdImm | LdxImm | LdMem | LdxMem | St | Stx
| Ja | Jmp jmp_op src
| Alu alu_op src | AluNeg | Tax | Txa

fun size_bits :: "bsize \<Rightarrow> int" where
  "size_bits SzW = BPF_W" | "size_bits SzH = BPF_H" | "size_bits SzB = BPF_B"

fun src_bits :: "src \<Rightarrow> int" where
  "src_bits SrcK = BPF_K" | "src_bits SrcX = BPF_X"

fun alu_bits :: "alu_op \<Rightarrow> int" where
  "alu_bits AAdd = BPF_ADD" | "alu_bits ASub = BPF_SUB" | "alu_bits AMul = BPF_MUL"
| "alu_bits ADiv = BPF_DIV" | "alu_bits AAnd = BPF_AND" | "alu_bits AOr = BPF_OR"
| "alu_bits ALsh = BPF_LSH" | "alu_bits ARsh = BPF_RSH"

fun jmp_bits :: "jmp_op \<Rightarrow> int" where
  "jmp_bits JGT = BPF_JGT" | "jmp_bits JGE = BPF_JGE" | "jmp_bits JEQ = BPF_JEQ"
| "jmp_bits JSET = BPF_JSET"

fun opcode :: "bpf_op \<Rightarrow> int" where
  "opcode RetK = BPF_RET OR BPF_K"
| "opcode RetA = BPF_RET OR BPF_A"
| "opcode (LdAbs s) = BPF_LD OR size_bits s OR BPF_ABS"
| "opcode LdLen = BPF_LD OR BPF_W OR BPF_LEN"
| "opcode LdxLen = BPF_LDX OR BPF_W OR BPF_LEN"
| "opcode (LdInd s) = BPF_LD OR size_bits s OR BPF_IND"
| "opcode LdxMsh = BPF_LDX OR BPF_MSH OR BPF_B"
| "opcode LdImm = BPF_LD OR BPF_IMM"
| "opcode LdxImm = BPF_LDX OR BPF_IMM"
| "opcode LdMem = BPF_LD OR BPF_MEM"
| "opcode LdxMem = BPF_LDX OR BPF_MEM"
| "opcode St = BPF_ST"
| "opcode Stx = BPF_STX"
| "opcode Ja = BPF_JMP OR BPF_JA"
| "opcode (Jmp j s) = BPF_JMP OR jmp_bits j OR src_bits s"
| "opcode (Alu a s) = BPF_ALU OR alu_bits a OR src_bits s"
| "opcode AluNeg = BPF_ALU OR BPF_NEG"
| "opcode Tax = BPF_MISC OR BPF_TAX"
| "opcode Txa = BPF_MISC OR BPF_TXA"

definition all_ops :: "bpf_op list" where
  "all_ops =
     [RetK, RetA, LdAbs SzW, LdAbs SzH, LdAbs SzB, LdLen, LdxLen, LdInd SzW, LdInd SzH, LdInd SzB, LdxMsh,
      LdImm, LdxImm, LdMem, LdxMem, St, Stx, Ja,
      Jmp JGT SrcK, Jmp JGE SrcK, Jmp JEQ SrcK, Jmp JSET SrcK, Jmp JGT SrcX, Jmp JGE SrcX, Jmp JEQ SrcX, Jmp JSET SrcX,
      Alu AAdd SrcX, Alu ASub SrcX, Alu AMul SrcX, Alu ADiv SrcX, Alu AAnd SrcX, Alu AOr SrcX, Alu ALsh SrcX, Alu ARsh SrcX,
      Alu AAdd SrcK, Alu ASub SrcK, Alu AMul SrcK, Alu ADiv SrcK, Alu AAnd SrcK, Alu AOr SrcK, Alu ALsh SrcK, Alu ARsh SrcK,
      AluNeg, Tax, Txa]"

definition decode :: "int \<Rightarrow> bpf_op option" where
  "decode c = find (\<lambda>i. opcode i = c) all_ops"


section \<open>Machine state and outcomes\<close>

text \<open>
  \<open>A\<close>, \<open>X\<close> and the scratch memory \<open>mem\<close>. The C array \<open>mem\<close> is not initialised, so its
  contents on entry are an argument of the interpreter.
\<close>

record regs =
  rA :: u32
  rX :: u32
  rM :: "u32 list"

text \<open>The other arguments of \<open>bpf_filter\<close>: the packet buffer, its length and the wire length.\<close>

record packet =
  pk_data :: "u8 list"
  pk_wirelen :: u32
  pk_buflen :: u32

datatype fault =
  BadPc          \<comment> \<open>an instruction fetched outside the program\<close>
| BadPacketRead  \<comment> \<open>\<open>p[k]\<close> outside the packet buffer\<close>
| BadMem         \<comment> \<open>\<open>mem[k]\<close> outside the scratch memory\<close>
| DivZero        \<comment> \<open>division by zero\<close>
| ShiftWidth     \<comment> \<open>a shift by 32 or more, undefined in C\<close>

datatype 'a outcome =
  Next 'a        \<comment> \<open>\<open>continue\<close>\<close>
| Ret u32        \<comment> \<open>\<open>return\<close>\<close>
| Abort          \<comment> \<open>\<open>abort()\<close>\<close>
| Fault fault

primrec and_then :: "'a outcome \<Rightarrow> ('a \<Rightarrow> 'b outcome) \<Rightarrow> 'b outcome" where
  "and_then (Next x) f = f x"
| "and_then (Ret r) f = Ret r"
| "and_then Abort f = Abort"
| "and_then (Fault e) f = Fault e"

section \<open>Packet loads\<close>

text \<open>
  The bounds test of a load is \<open>k + sizeof(int32) > buflen\<close> with an \<open>int\<close> \<open>k\<close>: the sum is
  computed in the unsigned type \<open>size_t\<close>, so it wraps, while \<open>p[k]\<close> uses \<open>k\<close> as a signed
  index. A byte load tests \<open>k >= buflen\<close>, again unsigned.
\<close>

fun out_of_buffer :: "bsize \<Rightarrow> u32 \<Rightarrow> u32 \<Rightarrow> bool" where
  "out_of_buffer SzW kk buflen \<longleftrightarrow> kk + 4 > buflen"
| "out_of_buffer SzH kk buflen \<longleftrightarrow> kk + 2 > buflen"
| "out_of_buffer SzB kk buflen \<longleftrightarrow> kk \<ge> buflen"

fun extract_sz :: "bsize \<Rightarrow> u8 list \<Rightarrow> nat \<Rightarrow> u32 option" where
  "extract_sz SzW p i = get_be32 p i"
| "extract_sz SzH p i = get_be16 p i"
| "extract_sz SzB p i = map_option ucast (get_u8 p i)"

definition fetch :: "packet \<Rightarrow> bsize \<Rightarrow> u32 \<Rightarrow> u32 outcome" where
  "fetch pk sz kk =
     (if out_of_buffer sz kk (pk_buflen pk) then Ret 0
      else if sint kk < 0 then Fault BadPacketRead
      else case extract_sz sz (pk_data pk) (nat (sint kk)) of
             None \<Rightarrow> Fault BadPacketRead | Some v \<Rightarrow> Next v)"

definition mem_read :: "regs \<Rightarrow> u32 \<Rightarrow> u32 outcome" where
  "mem_read s kk = (if unat kk < length (rM s) then Next (rM s ! unat kk) else Fault BadMem)"

definition mem_write :: "regs \<Rightarrow> u32 \<Rightarrow> u32 \<Rightarrow> regs outcome" where
  "mem_write s kk v =
     (if unat kk < length (rM s) then Next (s\<lparr>rM := (rM s)[unat kk := v]\<rparr>) else Fault BadMem)"

section \<open>The interpreter's switch\<close>

text \<open>The loads of a packet word, halfword or byte, of the length, and of the header length.\<close>

fun exec_load :: "packet \<Rightarrow> bpf_op \<Rightarrow> u32 \<Rightarrow> regs \<Rightarrow> regs outcome" where
  "exec_load pk (LdAbs sz) kk s = and_then (fetch pk sz kk) (\<lambda>v. Next (s\<lparr>rA := v\<rparr>))"
| "exec_load pk (LdInd sz) kk s = and_then (fetch pk sz (rX s + kk)) (\<lambda>v. Next (s\<lparr>rA := v\<rparr>))"
| "exec_load pk LdLen kk s = Next (s\<lparr>rA := pk_wirelen pk\<rparr>)"
| "exec_load pk LdxLen kk s = Next (s\<lparr>rX := pk_wirelen pk\<rparr>)"
| "exec_load pk LdxMsh kk s =
     and_then (fetch pk SzB kk) (\<lambda>v. Next (s\<lparr>rX := push_bit 2 (v AND 0xf)\<rparr>))"
| "exec_load pk _ kk s = Abort"

text \<open>Immediate and scratch memory loads, stores, and the register moves.\<close>

fun exec_mem :: "bpf_op \<Rightarrow> u32 \<Rightarrow> regs \<Rightarrow> regs outcome" where
  "exec_mem LdImm kk s = Next (s\<lparr>rA := kk\<rparr>)"
| "exec_mem LdxImm kk s = Next (s\<lparr>rX := kk\<rparr>)"
| "exec_mem LdMem kk s = and_then (mem_read s kk) (\<lambda>v. Next (s\<lparr>rA := v\<rparr>))"
| "exec_mem LdxMem kk s = and_then (mem_read s kk) (\<lambda>v. Next (s\<lparr>rX := v\<rparr>))"
| "exec_mem St kk s = mem_write s kk (rA s)"
| "exec_mem Stx kk s = mem_write s kk (rX s)"
| "exec_mem Tax kk s = Next (s\<lparr>rX := rA s\<rparr>)"
| "exec_mem Txa kk s = Next (s\<lparr>rA := rX s\<rparr>)"
| "exec_mem _ kk s = Abort"

text \<open>Arithmetic: \<open>x\<close> is the operand, \<open>pc->k\<close> or \<open>X\<close>. Only the \<open>X\<close> form of the division tests it.\<close>

fun alu_val :: "alu_op \<Rightarrow> u32 \<Rightarrow> u32 \<Rightarrow> u32 outcome" where
  "alu_val AAdd a x = Next (a + x)"
| "alu_val ASub a x = Next (a - x)"
| "alu_val AMul a x = Next (a * x)"
| "alu_val ADiv a x = (if x = 0 then Fault DivZero else Next (a div x))"
| "alu_val AAnd a x = Next (a AND x)"
| "alu_val AOr a x = Next (a OR x)"
| "alu_val ALsh a x = (if x < 32 then Next (push_bit (unat x) a) else Fault ShiftWidth)"
| "alu_val ARsh a x = (if x < 32 then Next (drop_bit (unat x) a) else Fault ShiftWidth)"

fun exec_alu :: "bpf_op \<Rightarrow> u32 \<Rightarrow> regs \<Rightarrow> regs outcome" where
  "exec_alu (Alu a SrcX) kk s =
     (if a = ADiv \<and> rX s = 0 then Ret 0
      else and_then (alu_val a (rA s) (rX s)) (\<lambda>v. Next (s\<lparr>rA := v\<rparr>)))"
| "exec_alu (Alu a SrcK) kk s = and_then (alu_val a (rA s) kk) (\<lambda>v. Next (s\<lparr>rA := v\<rparr>))"
| "exec_alu AluNeg kk s = Next (s\<lparr>rA := - rA s\<rparr>)"
| "exec_alu _ kk s = Abort"

fun jump_taken :: "jmp_op \<Rightarrow> u32 \<Rightarrow> u32 \<Rightarrow> bool" where
  "jump_taken JGT a x \<longleftrightarrow> a > x"
| "jump_taken JGE a x \<longleftrightarrow> a \<ge> x"
| "jump_taken JEQ a x \<longleftrightarrow> a = x"
| "jump_taken JSET a x \<longleftrightarrow> a AND x \<noteq> 0"

fun src_val :: "src \<Rightarrow> u32 \<Rightarrow> regs \<Rightarrow> u32" where
  "src_val SrcK kk s = kk"
| "src_val SrcX kk s = rX s"

text \<open>
  A statement with no jump: what the machine does to the registers before the next
  instruction. The code generator's block statements are of this kind.
\<close>

fun exec_op :: "packet \<Rightarrow> bpf_op \<Rightarrow> u32 \<Rightarrow> regs \<Rightarrow> regs outcome" where
  "exec_op pk RetK kk s = Ret kk"
| "exec_op pk RetA kk s = Ret (rA s)"
| "exec_op pk (LdAbs sz) kk s = exec_load pk (LdAbs sz) kk s"
| "exec_op pk (LdInd sz) kk s = exec_load pk (LdInd sz) kk s"
| "exec_op pk LdLen kk s = exec_load pk LdLen kk s"
| "exec_op pk LdxLen kk s = exec_load pk LdxLen kk s"
| "exec_op pk LdxMsh kk s = exec_load pk LdxMsh kk s"
| "exec_op pk (Alu a x) kk s = exec_alu (Alu a x) kk s"
| "exec_op pk AluNeg kk s = exec_alu AluNeg kk s"
| "exec_op pk i kk s = exec_mem i kk s"

text \<open>
  \<open>pc\<close> is the index of the instruction in the program. A jump adds to the pointer; the
  32-bit offset of an unconditional jump wraps with the 32-bit address, which is how the
  code generator's backward jumps work.
\<close>

definition jump_to :: "nat \<Rightarrow> u32 \<Rightarrow> nat" where
  "jump_to pc d = unat (of_nat (pc + 1) + d :: u32)"

fun exec_ctl :: "packet \<Rightarrow> bpf_insn \<Rightarrow> bpf_op \<Rightarrow> nat \<Rightarrow> regs \<Rightarrow> (nat \<times> regs) outcome" where
  "exec_ctl pk p Ja pc s = Next (jump_to pc (i_k p), s)"
| "exec_ctl pk p (Jmp j x) pc s =
     Next (jump_to pc (if jump_taken j (rA s) (src_val x (i_k p) s)
                       then ucast (i_jt p) else ucast (i_jf p)), s)"
| "exec_ctl pk p i pc s = and_then (exec_op pk i (i_k p) s) (\<lambda>s'. Next (pc + 1, s'))"

text \<open>One round of \<open>while (1)\<close>: fetch the instruction, switch on its code.\<close>

definition bpf_step :: "bpf_insn list \<Rightarrow> packet \<Rightarrow> nat \<times> regs \<Rightarrow> (nat \<times> regs) outcome" where
  "bpf_step f pk = (\<lambda>(pc, s).
     if pc < length f then
       (case decode (uint (i_code (f ! pc))) of
          None \<Rightarrow> Abort
        | Some i \<Rightarrow> exec_ctl pk (f ! pc) i pc s)
     else Fault BadPc)"

text \<open>
  The loop. It need not end: a program may jump backwards, so the result is an option, and
  \<open>None\<close> is "does not return".
\<close>

partial_function (option) bpf_loop ::
    "bpf_insn list \<Rightarrow> packet \<Rightarrow> nat \<times> regs \<Rightarrow> unit outcome option" where
  "bpf_loop f pk st =
     (case bpf_step f pk st of
        Next st' \<Rightarrow> bpf_loop f pk st'
      | Ret r \<Rightarrow> Some (Ret r)
      | Abort \<Rightarrow> Some Abort
      | Fault e \<Rightarrow> Some (Fault e))"

text \<open>
  \<open>bpf_filter\<close>: no program accepts everything (\<open>(u_int)-1\<close>); otherwise both registers
  start at zero and the scratch memory holds whatever was there.
\<close>

definition bpf_filter ::
    "bpf_insn list option \<Rightarrow> u32 list \<Rightarrow> packet \<Rightarrow> unit outcome option" where
  "bpf_filter fo mem pk =
     (case fo of
        None \<Rightarrow> Some (Ret (- 1))
      | Some f \<Rightarrow> bpf_loop f pk (0, \<lparr>rA = 0, rX = 0, rM = mem\<rparr>))"

section \<open>Outcomes\<close>

lemma and_then_Next: "and_then r g = Next y \<longleftrightarrow> (\<exists>x. r = Next x \<and> g x = Next y)"
  by (cases r) auto

lemma and_then_Fault:
  "and_then r g = Fault e \<longleftrightarrow> r = Fault e \<or> (\<exists>x. r = Next x \<and> g x = Fault e)"
  by (cases r) auto

lemmas outcome_inv = and_then_Next and_then_Fault

lemma exec_op_mem_length: "exec_op pk i kk s = Next s' \<Longrightarrow> length (rM s') = length (rM s)"
proof (cases i)
  case (Alu a x)
  then show "exec_op pk i kk s = Next s' \<Longrightarrow> length (rM s') = length (rM s)"
    by (cases x) (auto simp: outcome_inv split: if_splits)
qed (auto simp: outcome_inv mem_write_def split: if_splits)

section \<open>Facts about the encoding\<close>

lemma all_ops_complete: "i \<in> set all_ops"
proof (cases i)
  case (LdAbs s)
  then show ?thesis by (cases s) (simp_all add: all_ops_def)
next
  case (LdInd s)
  then show ?thesis by (cases s) (simp_all add: all_ops_def)
next
  case (Jmp j s)
  then show ?thesis by (cases j; cases s) (simp_all add: all_ops_def)
next
  case (Alu a s)
  then show ?thesis by (cases a; cases s) (simp_all add: all_ops_def)
qed (simp_all add: all_ops_def)

lemma opcodes_distinct: "distinct (map opcode all_ops)"
  by (simp add: all_ops_def)

lemma opcode_inj: "opcode i = opcode j \<longleftrightarrow> i = j"
  using opcodes_distinct all_ops_complete by (auto simp: distinct_map inj_on_def)

lemma decode_Some_iff: "decode c = Some i \<longleftrightarrow> opcode i = c"
proof
  assume "decode c = Some i"
  then show "opcode i = c" by (auto simp: decode_def find_Some_iff)
next
  assume c: "opcode i = c"
  then have "decode c \<noteq> None"
    using all_ops_complete [of i] by (auto simp: decode_def find_None_iff)
  then obtain j where j: "decode c = Some j" by auto
  then have "opcode j = c" by (auto simp: decode_def find_Some_iff)
  with c have "opcode i = opcode j" by simp
  with j show "decode c = Some i" by (simp add: opcode_inj)
qed

lemma decode_opcode [simp]: "decode (opcode i) = Some i"
  by (simp add: decode_Some_iff)

text \<open>Concrete programs run by rewriting with these.\<close>

declare bpf_filter_def [bpf_exec] bpf_step_def [bpf_exec] decode_def [bpf_exec]
  all_ops_def [bpf_exec] fetch_def [bpf_exec] mem_read_def [bpf_exec] mem_write_def [bpf_exec]
  jump_to_def [bpf_exec] get_u8_def [bpf_exec] get_be16_def [bpf_exec] get_be32_def [bpf_exec]
  be16_def [bpf_exec] be32_def [bpf_exec] bpf_loop.simps [bpf_exec]

end
