(* ===== verification/Bpf_Validate.thy ===== *)
theory Bpf_Validate
  imports Bpf_Machine
begin

text \<open>
  \<open>bpf_validate\<close> of \<^verbatim>\<open>bpf/net/bpf_filter.c\<close>, the check \<open>install_bpf_program\<close> makes before a
  program is attached to a capture, and what it guarantees about a run of the interpreter:
  the program counter and the scratch memory stay in range, and a program without backward
  jumps returns. It also records what the check does not guarantee.
\<close>

section \<open>The validator\<close>

text \<open>
  One round of the \<open>for\<close> loop: \<open>n\<close> is \<open>len\<close>, \<open>i\<close> the instruction's index. The jump tests
  are on unsigned 32-bit values, as in the source.
\<close>

definition validate_load :: "bpf_insn \<Rightarrow> bool" where
  "validate_load p =
     (let mode = BPF_MODE (uint (i_code p)) in
      if mode = BPF_IMM then True
      else if mode = BPF_ABS \<or> mode = BPF_IND \<or> mode = BPF_MSH then True
      else if mode = BPF_MEM then unat (i_k p) < BPF_MEMWORDS
      else mode = BPF_LEN)"

definition validate_alu :: "bpf_insn \<Rightarrow> bool" where
  "validate_alu p =
     (let c = uint (i_code p); opr = BPF_OP c in
      if opr \<in> {BPF_ADD, BPF_SUB, BPF_MUL, BPF_OR, BPF_AND, BPF_LSH, BPF_RSH, BPF_NEG} then True
      else if opr = BPF_DIV then \<not> (BPF_RVAL c = BPF_K \<and> i_k p = 0)
      else False)"

definition validate_jump :: "nat \<Rightarrow> nat \<Rightarrow> bpf_insn \<Rightarrow> bool" where
  "validate_jump n i p =
     (let opr = BPF_OP (uint (i_code p)); fr = of_nat (i + 1) :: u32; ln = of_nat n :: u32 in
      if opr = BPF_JA then \<not> (fr + i_k p \<ge> ln)
      else if opr \<in> {BPF_JEQ, BPF_JGT, BPF_JGE, BPF_JSET}
           then \<not> (fr + ucast (i_jt p) \<ge> ln \<or> fr + ucast (i_jf p) \<ge> ln)
      else False)"

definition validate_insn :: "nat \<Rightarrow> nat \<Rightarrow> bpf_insn \<Rightarrow> bool" where
  "validate_insn n i p =
     (let cls = BPF_CLASS (uint (i_code p)) in
      if cls = BPF_LD \<or> cls = BPF_LDX then validate_load p
      else if cls = BPF_ST \<or> cls = BPF_STX then unat (i_k p) < BPF_MEMWORDS
      else if cls = BPF_ALU then validate_alu p
      else if cls = BPF_JMP then validate_jump n i p
      else cls = BPF_RET \<or> cls = BPF_MISC)"

definition bpf_validate :: "bpf_insn list \<Rightarrow> bool" where
  "bpf_validate f \<longleftrightarrow>
     f \<noteq> [] \<and> list_all (\<lambda>i. validate_insn (length f) i (f ! i)) [0..<length f] \<and>
     BPF_CLASS (uint (i_code (last f))) = BPF_RET"

lemma bpf_validateD:
  assumes "bpf_validate f" and "i < length f"
  shows "validate_insn (length f) i (f ! i)"
  using assms by (simp add: bpf_validate_def list_all_iff)

section \<open>What one valid instruction does\<close>

lemmas validate_defs = validate_insn_def validate_load_def validate_alu_def validate_jump_def
  bpf_fields Let_def

text \<open>The checks by instruction form; the code of a form is a numeral, so they evaluate.\<close>

lemma valid_mem_form:
  assumes "validate_insn n i p" and "decode (uint (i_code p)) = Some m"
    and "m = LdMem \<or> m = LdxMem \<or> m = St \<or> m = Stx"
  shows "unat (i_k p) < BPF_MEMWORDS"
proof -
  have c: "uint (i_code p) = opcode m" using assms(2) by (simp add: decode_Some_iff)
  show ?thesis using assms(1,3) by (auto simp: validate_defs c)
qed

lemma valid_ja_form:
  assumes "validate_insn n i p" and "decode (uint (i_code p)) = Some Ja"
  shows "of_nat (i + 1) + i_k p < (of_nat n :: u32)"
proof -
  have c: "uint (i_code p) = opcode Ja" using assms(2) by (simp add: decode_Some_iff)
  show ?thesis using assms(1) by (simp add: validate_defs c not_le)
qed

lemma valid_jmp_form:
  assumes "validate_insn n i p" and "decode (uint (i_code p)) = Some (Jmp j x)"
  shows "of_nat (i + 1) + ucast (i_jt p) < (of_nat n :: u32)"
    and "of_nat (i + 1) + ucast (i_jf p) < (of_nat n :: u32)"
proof -
  have c: "uint (i_code p) = opcode (Jmp j x)" using assms(2) by (simp add: decode_Some_iff)
  show "of_nat (i + 1) + ucast (i_jt p) < (of_nat n :: u32)"
    using assms(1) by (cases j; cases x) (simp_all add: validate_defs c not_le)
  show "of_nat (i + 1) + ucast (i_jf p) < (of_nat n :: u32)"
    using assms(1) by (cases j; cases x) (simp_all add: validate_defs c not_le)
qed

lemma fetch_fault: "fetch pk sz kk = Fault e \<Longrightarrow> e = BadPacketRead"
  by (auto simp: fetch_def split: if_splits option.splits)

lemma alu_val_fault: "alu_val a u v = Fault e \<Longrightarrow> e = DivZero \<or> e = ShiftWidth"
  by (cases a) (auto split: if_splits)

text \<open>Which faults a statement can raise: a scratch access is the only source of \<open>BadMem\<close>.\<close>

lemma exec_op_fault:
  assumes "exec_op pk i kk s = Fault e"
  shows "e = BadPacketRead \<or> e = DivZero \<or> e = ShiftWidth \<or>
         (e = BadMem \<and> (i = LdMem \<or> i = LdxMem \<or> i = St \<or> i = Stx) \<and> length (rM s) \<le> unat kk)"
proof (cases i)
  case (Alu a x)
  then show ?thesis using assms
    by (cases x) (auto simp: outcome_inv split: if_splits dest: alu_val_fault)
qed (use assms in \<open>auto simp: outcome_inv mem_read_def mem_write_def split: if_splits
       dest: fetch_fault\<close>)

section \<open>Runs\<close>

text \<open>The states \<open>bpf_filter\<close> passes through.\<close>

inductive bpf_reach :: "bpf_insn list \<Rightarrow> packet \<Rightarrow> u32 list \<Rightarrow> nat \<times> regs \<Rightarrow> bool"
  for f pk mem where
  start: "bpf_reach f pk mem (0, \<lparr>rA = 0, rX = 0, rM = mem\<rparr>)"
| step: "bpf_reach f pk mem st \<Longrightarrow> bpf_step f pk st = Next st' \<Longrightarrow> bpf_reach f pk mem st'"

definition machine_ok :: "bpf_insn list \<Rightarrow> nat \<times> regs \<Rightarrow> bool" where
  "machine_ok f st \<longleftrightarrow> fst st < length f \<and> length (rM (snd st)) = BPF_MEMWORDS"

lemma jump_to_lt:
  assumes "of_nat (pc + 1) + d < (of_nat n :: u32)" and "n < 2 ^ 31"
  shows "jump_to pc d < n"
  using assms by (simp add: jump_to_def u32_less_iff)

lemma decode_ret_class:
  assumes "decode c = Some i" and "BPF_CLASS c \<noteq> BPF_RET"
  shows "i \<noteq> RetK" and "i \<noteq> RetA"
  using assms by (auto simp: decode_Some_iff bpf_fields)

lemma ret_class_no_next:
  assumes "decode c = Some i" and "BPF_CLASS c = BPF_RET"
  shows "i = RetK \<or> i = RetA"
proof -
  have c: "c = opcode i" using assms(1) by (simp add: decode_Some_iff)
  show ?thesis
  proof (cases i)
    case (LdAbs s)
    then show ?thesis using assms(2) c by (cases s) (simp_all add: bpf_fields)
  next
    case (LdInd s)
    then show ?thesis using assms(2) c by (cases s) (simp_all add: bpf_fields)
  next
    case (Jmp j s)
    then show ?thesis using assms(2) c by (cases j; cases s) (simp_all add: bpf_fields)
  next
    case (Alu a s)
    then show ?thesis using assms(2) c by (cases a; cases s) (simp_all add: bpf_fields)
  qed (use assms(2) c in \<open>simp_all add: bpf_fields\<close>)
qed

text \<open>Only the last instruction has nothing after it, and it is a return.\<close>

lemma valid_fallthrough:
  assumes v: "bpf_validate f" and pc: "pc < length f"
    and d: "decode (uint (i_code (f ! pc))) = Some i" and "i \<noteq> RetK" and "i \<noteq> RetA"
  shows "pc + 1 < length f"
proof (rule ccontr)
  assume "\<not> pc + 1 < length f"
  with pc have "pc = length f - 1" by arith
  with v have "f ! pc = last f" by (simp add: last_conv_nth bpf_validate_def)
  with v have "BPF_CLASS (uint (i_code (f ! pc))) = BPF_RET" by (simp add: bpf_validate_def)
  with d assms(4,5) show False using ret_class_no_next by blast
qed

lemma exec_ctl_cases:
  assumes "i \<noteq> Ja" and "\<And>j x. i \<noteq> Jmp j x"
  shows "exec_ctl pk p i pc s = and_then (exec_op pk i (i_k p) s) (\<lambda>s'. Next (pc + 1, s'))"
  using assms by (cases i) auto

lemma step_machine_ok:
  assumes v: "bpf_validate f" and n: "length f < 2 ^ 31"
    and ok: "machine_ok f st" and st: "bpf_step f pk st = Next st'"
  shows "machine_ok f st'"
proof -
  obtain pc s where [simp]: "st = (pc, s)" by (cases st)
  from ok have pc: "pc < length f" and m: "length (rM s) = BPF_MEMWORDS"
    by (simp_all add: machine_ok_def)
  let ?p = "f ! pc"
  from st pc obtain i where d: "decode (uint (i_code ?p)) = Some i"
    and ex: "exec_ctl pk ?p i pc s = Next st'"
    by (auto simp: bpf_step_def split: option.splits)
  note vi = bpf_validateD [OF v pc]
  show ?thesis
  proof (cases "i = Ja \<or> (\<exists>j x. i = Jmp j x)")
    case True
    then show ?thesis using ex m valid_ja_form [OF vi] valid_jmp_form [OF vi] d n
      by (auto simp: machine_ok_def intro!: jump_to_lt)
  next
    case False
    then have ctl: "exec_ctl pk ?p i pc s =
        and_then (exec_op pk i (i_k ?p) s) (\<lambda>s'. Next (pc + 1, s'))"
      by (intro exec_ctl_cases) auto
    with ex obtain s' where op: "exec_op pk i (i_k ?p) s = Next s'" and [simp]: "st' = (pc + 1, s')"
      by (auto simp: and_then_Next)
    from op have "i \<noteq> RetK" and "i \<noteq> RetA" by auto
    then have "pc + 1 < length f" using valid_fallthrough [OF v pc d] by blast
    with op m show ?thesis by (simp add: machine_ok_def exec_op_mem_length)
  qed
qed

lemma reach_machine_ok:
  assumes "bpf_reach f pk mem st" and "bpf_validate f" and "length f < 2 ^ 31"
    and "length mem = BPF_MEMWORDS"
  shows "machine_ok f st"
  using assms(1)
proof (induction rule: bpf_reach.induct)
  case start
  then show ?case using assms(2,4) by (simp add: machine_ok_def bpf_validate_def)
next
  case (step st st')
  then show ?case using assms(2,3) step_machine_ok by blast
qed

text \<open>A valid instruction in a good state raises neither a program-counter nor a scratch fault.\<close>

lemma step_no_bad_fault:
  assumes v: "bpf_validate f" and ok: "machine_ok f st" and st: "bpf_step f pk st = Fault e"
  shows "e = BadPacketRead \<or> e = DivZero \<or> e = ShiftWidth"
proof -
  obtain pc s where [simp]: "st = (pc, s)" by (cases st)
  from ok have pc: "pc < length f" and m: "length (rM s) = BPF_MEMWORDS"
    by (simp_all add: machine_ok_def)
  let ?p = "f ! pc"
  from st pc obtain i where d: "decode (uint (i_code ?p)) = Some i"
    and ex: "exec_ctl pk ?p i pc s = Fault e"
    by (auto simp: bpf_step_def split: option.splits)
  have nj: "i \<noteq> Ja" "\<And>j x. i \<noteq> Jmp j x" using ex by auto
  then have "exec_op pk i (i_k ?p) s = Fault e"
    using ex by (simp add: exec_ctl_cases and_then_Fault)
  with exec_op_fault [OF this] m valid_mem_form [OF bpf_validateD [OF v pc] d]
  show ?thesis by fastforce
qed


section \<open>What validation guarantees\<close>

text \<open>C2: every state a validated program reaches has its program counter inside the program and
  all sixteen scratch words, and the next instruction is fetched and its scratch access made
  without leaving either: the interpreter of a validated program never runs off the program and
  never indexes \<open>mem\<close> out of range.\<close>

theorem validated_run_in_bounds:
  assumes "bpf_validate f" and "length f < 2 ^ 31" and "length mem = BPF_MEMWORDS"
    and "bpf_reach f pk mem st"
  shows "fst st < length f \<and> length (rM (snd st)) = BPF_MEMWORDS \<and>
         bpf_step f pk st \<noteq> Fault BadPc \<and> bpf_step f pk st \<noteq> Fault BadMem"
proof -
  have ok: "machine_ok f st" using assms reach_machine_ok by blast
  show ?thesis
    using ok step_no_bad_fault [OF assms(1) ok] by (auto simp: machine_ok_def)
qed

text \<open>The accept-everything program, \<open>ret #96\<close>, as the concrete input.\<close>

theorem validated_run_in_bounds_witness:
  "let f = [\<lparr>i_code = 0x06, i_jt = 0, i_jf = 0, i_k = 96\<rparr>];
       pk = \<lparr>pk_data = [], pk_wirelen = 0, pk_buflen = 0\<rparr>;
       st = (0, \<lparr>rA = 0, rX = 0, rM = replicate 16 0\<rparr>)
   in bpf_validate f \<and> bpf_step f pk st \<noteq> Fault BadPc \<and> bpf_step f pk st \<noteq> Fault BadMem"
proof -
  let ?f = "[\<lparr>i_code = 0x06, i_jt = 0, i_jf = 0, i_k = 96\<rparr>]"
  have v: "bpf_validate ?f" by (simp add: bpf_validate_def validate_defs)
  show ?thesis
    using v validated_run_in_bounds [OF v _ _ bpf_reach.start, of "replicate 16 0"] by simp
qed

text \<open>The bytes a load of a given size reads.\<close>

fun size_bytes :: "bsize \<Rightarrow> nat" where
  "size_bytes SzW = 4" | "size_bytes SzH = 2" | "size_bytes SzB = 1"

lemma get_some:
  "i + size_bytes sz \<le> length p \<Longrightarrow> \<exists>v. extract_sz sz p i = Some v"
  by (cases sz) (auto simp: get_be32_def get_be16_def get_u8_def)

lemma u32_add_small_le:
  assumes "(x :: u32) + of_nat c \<le> y" and "unat x + c < 4294967296"
  shows "unat x + c \<le> unat y"
proof -
  have "unat (x + of_nat c :: u32) = unat x + c" using assms(2) by (simp add: unat_u32_plus_small)
  then show ?thesis using assms(1) by (simp add: u32_le_iff)
qed

lemma in_buffer_index:
  assumes "\<not> out_of_buffer sz kk buflen" and "unat kk + size_bytes sz < 4294967296"
  shows "unat kk + size_bytes sz \<le> unat buflen"
proof (cases sz)
  case SzW
  then show ?thesis using assms u32_add_small_le [of kk 4 buflen] by (simp add: not_less)
next
  case SzH
  then show ?thesis using assms u32_add_small_le [of kk 2 buflen] by (simp add: not_less)
next
  case SzB
  then show ?thesis using assms by (simp add: not_le u32_less_iff)
qed

text \<open>A load that passes the run-time bounds test reads outside the packet exactly when its
  offset is one of the \<open>size\<close> largest 32-bit values, for which the sum in the test wraps to a
  small number. For every other offset the test does its job.\<close>

theorem fetch_out_of_packet_iff:
  assumes "pk_buflen pk = of_nat (length (pk_data pk))" and "length (pk_data pk) < 2 ^ 31"
  shows "fetch pk sz kk = Fault BadPacketRead \<longleftrightarrow>
         \<not> out_of_buffer sz kk (pk_buflen pk) \<and> 2 ^ 32 - size_bytes sz \<le> unat kk"
proof (cases "out_of_buffer sz kk (pk_buflen pk)")
  case True
  then show ?thesis by (simp add: fetch_def)
next
  case False
  have len: "unat (pk_buflen pk) = length (pk_data pk)" using assms by simp
  show ?thesis
  proof (cases "2 ^ 32 - size_bytes sz \<le> unat kk")
    case True
    then have "sint kk < 0" by (cases sz) (auto simp: sint_u32 not_less)
    with False True show ?thesis by (simp add: fetch_def)
  next
    case small: False
    then have sum: "unat kk + size_bytes sz < 4294967296" by (cases sz) auto
    then have le: "unat kk + size_bytes sz \<le> length (pk_data pk)"
      using in_buffer_index [OF False] len by simp
    with assms(2) have "sint kk = int (unat kk)" by (simp add: sint_u32)
    moreover obtain v where "extract_sz sz (pk_data pk) (unat kk) = Some v"
      using get_some [OF le] by blast
    ultimately have "fetch pk sz kk = Next v" using False by (simp add: fetch_def)
    with small show ?thesis by simp
  qed
qed

text \<open>A word load at offset \<open>-2\<close> of a four-byte packet.\<close>

theorem fetch_out_of_packet_iff_witness:
  "let pk = \<lparr>pk_data = [1, 2, 3, 4], pk_wirelen = 4, pk_buflen = 4\<rparr>
   in fetch pk SzW (- 2) = Fault BadPacketRead \<and> fetch pk SzW 0 \<noteq> Fault BadPacketRead"
  using fetch_out_of_packet_iff [of "\<lparr>pk_data = [1, 2, 3, 4], pk_wirelen = 4, pk_buflen = 4\<rparr>"]
  by simp

text \<open>The wrapped test is reachable from packet contents. The validated program
  \<open>ld [0]; tax; ld [x+0]; ret #1\<close> takes the offset of its second load from the packet; on a
  packet that starts with four \<open>0xff\<close> bytes it reads before the packet buffer.\<close>

theorem packet_driven_read_before_buffer:
  "let f = [\<lparr>i_code = 0x20, i_jt = 0, i_jf = 0, i_k = 0\<rparr>,
            \<lparr>i_code = 0x07, i_jt = 0, i_jf = 0, i_k = 0\<rparr>,
            \<lparr>i_code = 0x40, i_jt = 0, i_jf = 0, i_k = 0\<rparr>,
            \<lparr>i_code = 0x06, i_jt = 0, i_jf = 0, i_k = 1\<rparr>];
       pk = \<lparr>pk_data = [0xff, 0xff, 0xff, 0xff], pk_wirelen = 4, pk_buflen = 4\<rparr>
   in bpf_validate f \<and>
      bpf_filter (Some f) (replicate 16 0) pk = Some (Fault BadPacketRead)"
  by (simp add: bpf_exec bpf_validate_def validate_defs)

section \<open>Termination\<close>

text \<open>
  The kernel build rejects an unconditional jump that goes backwards
  (\<open>from + p->k < from\<close>); user land accepts it, for the protocol-chain loops the code
  generator emits. Without such jumps the loop of the interpreter ends.
\<close>

definition forward_jumps :: "bpf_insn list \<Rightarrow> bool" where
  "forward_jumps f \<longleftrightarrow>
     list_all (\<lambda>i. decode (uint (i_code (f ! i))) = Some Ja \<longrightarrow>
       unat (of_nat (i + 1) + i_k (f ! i) :: u32) \<ge> i + 1) [0..<length f]"

lemma jump_to_short: "pc < 2 ^ 31 \<Longrightarrow> jump_to pc (ucast (d :: u8)) = pc + 1 + unat d"
proof -
  assume "pc < 2 ^ 31"
  then have pc: "pc < 2147483648" by simp
  have "unat d < 256" by (rule unat_u8_lt)
  moreover have "unat (1 + of_nat pc :: u32) = pc + 1" using pc by simp
  moreover have "unat (ucast d :: u32) = unat d" by simp
  ultimately have "unat (1 + of_nat pc :: u32) + unat (ucast d :: u32) < 4294967296"
    using pc by linarith
  then have "unat (1 + of_nat pc + ucast d :: u32) =
      unat (1 + of_nat pc :: u32) + unat (ucast d :: u32)"
    by (rule unat_u32_plus_small)
  with pc show ?thesis by (simp add: jump_to_def)
qed

lemma step_forward:
  assumes f: "forward_jumps f" and n: "length f < 2 ^ 31" and ok: "machine_ok f (pc, s)"
    and st: "bpf_step f pk (pc, s) = Next (pc', s')"
  shows "pc < pc'"
proof -
  from ok have pc: "pc < length f" by (simp add: machine_ok_def)
  from st pc obtain i where d: "decode (uint (i_code (f ! pc))) = Some i"
    and ex: "exec_ctl pk (f ! pc) i pc s = Next (pc', s')"
    by (auto simp: bpf_step_def split: option.splits)
  show ?thesis
  proof (cases "i = Ja \<or> (\<exists>j x. i = Jmp j x)")
    case True
    then show ?thesis using ex d f pc n
      by (auto simp: forward_jumps_def list_all_iff jump_to_short)
        (force simp: jump_to_def)+
  next
    case False
    then show ?thesis using ex exec_ctl_cases [of i pk "f ! pc" pc s]
      by (auto simp: and_then_Next)
  qed
qed

definition run_result_ok :: "unit outcome \<Rightarrow> bool" where
  "run_result_ok r \<longleftrightarrow>
     (\<exists>v. r = Ret v) \<or> r = Abort \<or> r = Fault BadPacketRead \<or> r = Fault DivZero \<or>
     r = Fault ShiftWidth"

lemma loop_returns:
  assumes v: "bpf_validate f" and f: "forward_jumps f" and n: "length f < 2 ^ 31"
  shows "machine_ok f (pc, s) \<Longrightarrow> \<exists>r. bpf_loop f pk (pc, s) = Some r \<and> run_result_ok r"
proof (induction "length f - pc" arbitrary: pc s rule: less_induct)
  case less
  show ?case
  proof (cases "bpf_step f pk (pc, s)")
    case (Next st')
    obtain pc' s' where [simp]: "st' = (pc', s')" by (cases st')
    have ok': "machine_ok f (pc', s')" using step_machine_ok [OF v n less.prems] Next by simp
    have "pc < pc'" using step_forward [OF f n less.prems] Next by simp
    with ok' have "length f - pc' < length f - pc" by (auto simp: machine_ok_def)
    then obtain r where "bpf_loop f pk (pc', s') = Some r" and "run_result_ok r"
      using less.hyps ok' by blast
    with Next show ?thesis by (simp add: bpf_loop.simps)
  next
    case (Fault e)
    then show ?thesis using step_no_bad_fault [OF v less.prems]
      by (auto simp: bpf_loop.simps run_result_ok_def)
  qed (simp_all add: bpf_loop.simps run_result_ok_def)
qed

text \<open>C30: the interpreter returns on every validated program whose unconditional jumps go
  forward, on every packet and whatever the scratch memory holds; what it returns is a verdict,
  or one of the outcomes the validator does not exclude (an unimplemented instruction, the
  wrapped packet test, a zero divisor, an oversized shift).\<close>

theorem forward_program_returns:
  assumes "bpf_validate f" and "forward_jumps f" and "length f < 2 ^ 31"
    and "length mem = BPF_MEMWORDS"
  shows "\<exists>r. bpf_filter (Some f) mem pk = Some r \<and> run_result_ok r"
proof -
  have "machine_ok f (0, \<lparr>rA = 0, rX = 0, rM = mem\<rparr>)"
    using assms(1,4) by (simp add: machine_ok_def bpf_validate_def)
  then show ?thesis using loop_returns [OF assms(1-3)] by (simp add: bpf_filter_def)
qed

theorem forward_program_returns_witness:
  "let f = [\<lparr>i_code = 0x05, i_jt = 0, i_jf = 0, i_k = 1\<rparr>,
            \<lparr>i_code = 0x06, i_jt = 0, i_jf = 0, i_k = 0\<rparr>,
            \<lparr>i_code = 0x06, i_jt = 0, i_jf = 0, i_k = 96\<rparr>];
       pk = \<lparr>pk_data = [], pk_wirelen = 0, pk_buflen = 0\<rparr>
   in \<exists>r. bpf_filter (Some f) (replicate 16 0) pk = Some r \<and> run_result_ok r"
proof -
  let ?f = "[\<lparr>i_code = 0x05, i_jt = 0, i_jf = 0, i_k = 1\<rparr>,
            \<lparr>i_code = 0x06, i_jt = 0, i_jf = 0, i_k = 0\<rparr>,
            \<lparr>i_code = 0x06, i_jt = 0, i_jf = 0, i_k = 96\<rparr>] :: bpf_insn list"
  have "bpf_validate ?f" and "forward_jumps ?f"
    by (simp_all add: bpf_validate_def validate_defs forward_jumps_def bpf_exec)
  then show ?thesis using forward_program_returns [of ?f "replicate 16 0"] by simp
qed

section \<open>What validation does not check\<close>

text \<open>The check for a constant division by zero never fires. It compares \<open>BPF_RVAL\<close>, whose
  mask overlaps the bits of \<open>BPF_DIV\<close>, with \<open>BPF_K\<close>; so every constant division is accepted,
  whatever its constant, and a zero constant is divided by when the program runs.\<close>

theorem constant_division_unchecked:
  "validate_insn n i \<lparr>i_code = 0x34, i_jt = t, i_jf = e, i_k = c\<rparr> \<and>
   decode 0x34 = Some (Alu ADiv SrcK) \<and>
   exec_op pk (Alu ADiv SrcK) 0 s = Fault DivZero"
  by (simp add: validate_defs bpf_exec)

text \<open>The validator accepts instruction codes for which the interpreter's switch has no
  label, such as \<open>ret x\<close> (\<open>0x0e\<close>): running one aborts the process.\<close>

theorem validated_program_may_abort:
  "let f = [\<lparr>i_code = 0x0e, i_jt = 0, i_jf = 0, i_k = 0\<rparr>]
   in bpf_validate f \<and> bpf_filter (Some f) mem pk = Some Abort"
  by (simp add: validate_defs bpf_validate_def bpf_exec)

end
