(* ===== verification/Opt_Atoms.thy ===== *)
theory Opt_Atoms
  imports Bpf_Machine
begin

text \<open>
  The statements of the optimizer's flow graph (\<open>struct stmt\<close>, \<^verbatim>\<open>gencode.h\<close>) and the
  use/definition functions of \<^verbatim>\<open>optimize.c\<close>: \<open>atomuse\<close>, \<open>atomdef\<close>,
  \<open>compute_local_ud\<close>. The lemmas say that these functions are right about the machine of
  \<open>Bpf_Machine\<close>: a statement changes no register but the one \<open>atomdef\<close> names, and what it
  does depends on no register but those \<open>atomuse\<close> names. The interface the dead-store
  elimination needs is the locale \<open>liveness\<close>, interpreted here on the machine.
\<close>

section \<open>Statements\<close>

text \<open>
  \<open>struct stmt\<close>. The code is an \<open>int\<close>: \<open>NOP\<close> is \<open>-1\<close>. The jump fields of a statement
  inside a block point to another node of the same list, here its index.
\<close>

record stmt =
  s_code :: int
  s_jt :: "nat option"
  s_jf :: "nat option"
  s_k :: u32

abbreviation (input) NOP :: int where "NOP \<equiv> - 1"

abbreviation (input) A_ATOM :: int where "A_ATOM \<equiv> 16"
abbreviation (input) X_ATOM :: int where "X_ATOM \<equiv> 17"
abbreviation (input) N_ATOMS :: nat where "N_ATOMS \<equiv> 18"
abbreviation (input) AX_ATOM :: int where "AX_ATOM \<equiv> 18"

text \<open>The statement forms a block's list holds: anything but a jump or a return.\<close>

fun is_ctl :: "bpf_op \<Rightarrow> bool" where
  "is_ctl RetK = True"
| "is_ctl RetA = True"
| "is_ctl Ja = True"
| "is_ctl (Jmp _ _) = True"
| "is_ctl _ = False"

fun uses_mem :: "bpf_op \<Rightarrow> bool" where
  "uses_mem LdMem = True"
| "uses_mem LdxMem = True"
| "uses_mem St = True"
| "uses_mem Stx = True"
| "uses_mem _ = False"

definition wf_stmt :: "stmt \<Rightarrow> bool" where
  "wf_stmt s \<longleftrightarrow> s_code s = NOP \<or>
     (case decode (s_code s) of
        None \<Rightarrow> False
      | Some i \<Rightarrow> \<not> is_ctl i \<and> (uses_mem i \<longrightarrow> unat (s_k s) < BPF_MEMWORDS))"

definition exec_stmt :: "packet \<Rightarrow> stmt \<Rightarrow> regs \<Rightarrow> regs outcome" where
  "exec_stmt pk s r =
     (if s_code s = NOP then Next r
      else case decode (s_code s) of
             None \<Rightarrow> Abort
           | Some i \<Rightarrow> if is_ctl i then Abort else exec_op pk i (s_k s) r)"

fun exec_stmts :: "packet \<Rightarrow> stmt list \<Rightarrow> regs \<Rightarrow> regs outcome" where
  "exec_stmts pk [] r = Next r"
| "exec_stmts pk (s # ss) r = and_then (exec_stmt pk s r) (exec_stmts pk ss)"

lemma exec_stmts_append: "exec_stmts pk (ss @ ts) r = and_then (exec_stmts pk ss r) (exec_stmts pk ts)"
proof (induction ss arbitrary: r)
  case (Cons s ss)
  then show ?case by (cases "exec_stmt pk s r") simp_all
qed simp

text \<open>\<open>slength\<close>: a deleted statement, whose code is \<open>NOP\<close>, does not count and does nothing.\<close>

fun slength :: "stmt list \<Rightarrow> nat" where
  "slength [] = 0"
| "slength (s # ss) = (if s_code s \<noteq> NOP then 1 else 0) + slength ss"

definition live_stmts :: "stmt list \<Rightarrow> stmt list" where
  "live_stmts ss = filter (\<lambda>s. s_code s \<noteq> NOP) ss"

lemma slength_live: "slength ss = length (live_stmts ss)"
  by (induction ss) (auto simp: live_stmts_def)

lemma and_then_Next_right [simp]: "and_then r Next = r"
  by (cases r) auto

lemma exec_live_stmts: "exec_stmts pk (live_stmts ss) r = exec_stmts pk ss r"
proof (induction ss arbitrary: r)
  case (Cons s ss)
  have "exec_stmts pk (live_stmts ss) = exec_stmts pk ss" using Cons by blast
  then show ?case by (simp add: live_stmts_def exec_stmt_def)
qed (simp add: live_stmts_def)

section \<open>Use and definition\<close>

definition atomuse :: "stmt \<Rightarrow> int" where
  "atomuse s =
     (let c = s_code s in
      if c = NOP then - 1
      else if BPF_CLASS c = BPF_RET then
        (if BPF_RVAL c = BPF_A then A_ATOM else if BPF_RVAL c = BPF_X then X_ATOM else - 1)
      else if BPF_CLASS c = BPF_LD \<or> BPF_CLASS c = BPF_LDX then
        (if BPF_MODE c = BPF_IND then X_ATOM
         else if BPF_MODE c = BPF_MEM then sint (s_k s) else - 1)
      else if BPF_CLASS c = BPF_ST then A_ATOM
      else if BPF_CLASS c = BPF_STX then X_ATOM
      else if BPF_CLASS c = BPF_JMP \<or> BPF_CLASS c = BPF_ALU then
        (if BPF_SRC c = BPF_X then AX_ATOM else A_ATOM)
      else (if BPF_MISCOP c = BPF_TXA then X_ATOM else A_ATOM))"

definition atomdef :: "stmt \<Rightarrow> int" where
  "atomdef s =
     (let c = s_code s in
      if c = NOP then - 1
      else if BPF_CLASS c = BPF_LD \<or> BPF_CLASS c = BPF_ALU then A_ATOM
      else if BPF_CLASS c = BPF_LDX then X_ATOM
      else if BPF_CLASS c = BPF_ST \<or> BPF_CLASS c = BPF_STX then sint (s_k s)
      else if BPF_CLASS c = BPF_MISC then (if BPF_MISCOP c = BPF_TAX then X_ATOM else A_ATOM)
      else - 1)"

text \<open>The registers an atom number stands for; \<open>AX_ATOM\<close> is both \<open>A\<close> and \<open>X\<close>.\<close>

definition atom_set :: "int \<Rightarrow> nat set" where
  "atom_set a = (if a = AX_ATOM then {16, 17} else if 0 \<le> a then {nat a} else {})"

definition used :: "stmt \<Rightarrow> nat set" where "used s = atom_set (atomuse s)"
definition defd :: "stmt \<Rightarrow> nat set" where "defd s = atom_set (atomdef s)"

definition atom_val :: "regs \<Rightarrow> nat \<Rightarrow> u32" where
  "atom_val r a = (if a < BPF_MEMWORDS then rM r ! a else if a = 16 then rA r else rX r)"

definition agree :: "nat set \<Rightarrow> regs \<Rightarrow> regs \<Rightarrow> bool" where
  "agree S r r' \<longleftrightarrow> length (rM r) = BPF_MEMWORDS \<and> length (rM r') = BPF_MEMWORDS \<and>
     (\<forall>a \<in> S. a < N_ATOMS \<longrightarrow> atom_val r a = atom_val r' a)"

lemma atom_val_simps [simp]:
  "atom_val r 16 = rA r" "atom_val r 17 = rX r"
  "a < BPF_MEMWORDS \<Longrightarrow> atom_val r a = rM r ! a"
  by (simp_all add: atom_val_def)

lemma sint_small: "unat (x :: u32) < BPF_MEMWORDS \<Longrightarrow> sint x = uint x"
  by (simp add: sint_u32)

lemma wf_stmt_cases:
  assumes "wf_stmt s"
  obtains "s_code s = NOP"
  | i where "s_code s = opcode i" and "decode (s_code s) = Some i" and "\<not> is_ctl i"
      and "uses_mem i \<Longrightarrow> unat (s_k s) < BPF_MEMWORDS"
proof (cases "s_code s = NOP")
  case False
  then obtain i where "decode (s_code s) = Some i" and "\<not> is_ctl i"
    and "uses_mem i \<Longrightarrow> unat (s_k s) < BPF_MEMWORDS"
    using assms by (auto simp: wf_stmt_def split: option.splits)
  then show thesis using that(2) [of i] by (metis decode_Some_iff)
qed (rule that(1))

text \<open>What the two functions compute for each form.\<close>

fun op_used :: "bpf_op \<Rightarrow> u32 \<Rightarrow> nat set" where
  "op_used (LdInd _) kk = {17}"
| "op_used LdMem kk = {unat kk}"
| "op_used LdxMem kk = {unat kk}"
| "op_used St kk = {16}"
| "op_used Stx kk = {17}"
| "op_used (Alu _ SrcX) kk = {16, 17}"
| "op_used (Alu _ SrcK) kk = {16}"
| "op_used AluNeg kk = {16}"
| "op_used Tax kk = {16}"
| "op_used Txa kk = {17}"
| "op_used _ kk = {}"

fun op_defd :: "bpf_op \<Rightarrow> u32 \<Rightarrow> nat set" where
  "op_defd LdxLen kk = {17}"
| "op_defd LdxMsh kk = {17}"
| "op_defd LdxImm kk = {17}"
| "op_defd LdxMem kk = {17}"
| "op_defd St kk = {unat kk}"
| "op_defd Stx kk = {unat kk}"
| "op_defd Tax kk = {17}"
| "op_defd _ kk = {16}"

lemma nat_uint_u32: "nat (uint (x :: u32)) = unat x"
  by simp

lemma used_op:
  assumes "s_code s = opcode i" and "\<not> is_ctl i"
    and "uses_mem i \<Longrightarrow> unat (s_k s) < BPF_MEMWORDS"
  shows "used s = op_used i (s_k s)"
proof (cases i)
  case (LdAbs z)
  then show ?thesis using assms by (cases z) (simp_all add: used_def atomuse_def bpf_fields atom_set_def)
next
  case (LdInd z)
  then show ?thesis using assms by (cases z) (simp_all add: used_def atomuse_def bpf_fields atom_set_def)
next
  case (Alu a x)
  then show ?thesis using assms
    by (cases a; cases x) (simp_all add: used_def atomuse_def bpf_fields atom_set_def)
next
  case LdMem
  then show ?thesis using assms sint_small [of "s_k s"]
    by (auto simp: used_def atomuse_def bpf_fields atom_set_def unat_less_uint)
next
  case LdxMem
  then show ?thesis using assms sint_small [of "s_k s"]
    by (auto simp: used_def atomuse_def bpf_fields atom_set_def unat_less_uint)
qed (use assms in \<open>simp_all add: used_def atomuse_def bpf_fields atom_set_def\<close>)

lemma defd_op:
  assumes "s_code s = opcode i" and "\<not> is_ctl i"
    and "uses_mem i \<Longrightarrow> unat (s_k s) < BPF_MEMWORDS"
  shows "defd s = op_defd i (s_k s)"
proof (cases i)
  case (LdAbs z)
  then show ?thesis using assms by (cases z) (simp_all add: defd_def atomdef_def bpf_fields atom_set_def)
next
  case (LdInd z)
  then show ?thesis using assms by (cases z) (simp_all add: defd_def atomdef_def bpf_fields atom_set_def)
next
  case (Alu a x)
  then show ?thesis using assms
    by (cases a; cases x) (simp_all add: defd_def atomdef_def bpf_fields atom_set_def)
next
  case St
  then show ?thesis using assms sint_small [of "s_k s"]
    by (auto simp: defd_def atomdef_def bpf_fields atom_set_def unat_less_uint)
next
  case Stx
  then show ?thesis using assms sint_small [of "s_k s"]
    by (auto simp: defd_def atomdef_def bpf_fields atom_set_def unat_less_uint)
qed (use assms in \<open>simp_all add: defd_def atomdef_def bpf_fields atom_set_def\<close>)

lemma exec_stmt_op:
  assumes "s_code s = opcode i" and "\<not> is_ctl i"
  shows "exec_stmt pk s r = exec_op pk i (s_k s) r"
proof -
  have "opcode i \<noteq> NOP"
  proof
    assume "opcode i = NOP"
    moreover have "list_all (\<lambda>j. opcode j \<noteq> NOP) all_ops" by (simp add: all_ops_def)
    ultimately show False using all_ops_complete [of i] by (simp add: list_all_iff)
  qed
  then show ?thesis using assms by (simp add: exec_stmt_def)
qed

section \<open>Soundness of use and definition\<close>

lemma op_frame:
  assumes "exec_op pk i kk r = Next r'" and "a \<notin> op_defd i kk" and "\<not> is_ctl i"
    and "a < N_ATOMS"
  shows "atom_val r' a = atom_val r a"
proof (cases i)
  case (Alu b x)
  then show ?thesis using assms
    by (cases x) (auto simp: outcome_inv atom_val_def split: if_splits)
qed (use assms in \<open>auto simp: outcome_inv atom_val_def mem_write_def split: if_splits\<close>)

lemma agree_regs:
  assumes "agree S r q"
  shows "16 \<in> S \<Longrightarrow> rA r = rA q" and "17 \<in> S \<Longrightarrow> rX r = rX q"
    and "n \<in> S \<Longrightarrow> n < BPF_MEMWORDS \<Longrightarrow> rM r ! n = rM q ! n"
    and "length (rM q) = length (rM r)"
  using assms by (fastforce simp: agree_def)+

lemma op_use:
  assumes ag: "agree S r q" and u: "op_used i kk \<subseteq> S" and ex: "exec_op pk i kk r = Next r'"
    and c: "\<not> is_ctl i" and m: "uses_mem i \<Longrightarrow> unat kk < BPF_MEMWORDS"
  shows "\<exists>q'. exec_op pk i kk q = Next q' \<and>
              (\<forall>a \<in> op_defd i kk. a < N_ATOMS \<longrightarrow> atom_val r' a = atom_val q' a)"
proof -
  note regs = agree_regs [OF ag]
  have len: "length (rM r) = BPF_MEMWORDS" using ag by (simp add: agree_def)
  show ?thesis
  proof (cases i)
    case (Alu b x)
    then show ?thesis using ex u regs(1,2)
      by (cases x) (auto simp: outcome_inv atom_val_def split: if_splits)
  qed (use ex u c m regs len in
      \<open>auto simp: outcome_inv atom_val_def mem_read_def mem_write_def nth_list_update
        split: if_splits\<close>)
qed

lemma exec_stmt_mem_length:
  "exec_stmt pk s r = Next r' \<Longrightarrow> length (rM r') = length (rM r)"
  by (auto simp: exec_stmt_def exec_op_mem_length split: if_splits option.splits)

lemma exec_stmt_agree:
  assumes wf: "wf_stmt s" and ag: "agree S r q" and u: "used s \<subseteq> S"
    and ex: "exec_stmt pk s r = Next r'"
  shows "\<exists>q'. exec_stmt pk s q = Next q' \<and> agree (S \<union> defd s) r' q'"
  using wf
proof (cases rule: wf_stmt_cases)
  case 1
  then have "exec_stmt pk s q = Next q" and "r' = r" and "defd s = {}"
    using ex by (simp_all add: exec_stmt_def defd_def atomdef_def atom_set_def)
  then show ?thesis using ag by simp
next
  case (2 i)
  note ops = used_op [OF 2(1,3,4)] defd_op [OF 2(1,3,4)]
  have ex': "exec_op pk i (s_k s) r = Next r'" using ex exec_stmt_op [OF 2(1,3)] by simp
  obtain q' where q': "exec_op pk i (s_k s) q = Next q'"
    and d: "\<forall>a \<in> op_defd i (s_k s). a < N_ATOMS \<longrightarrow> atom_val r' a = atom_val q' a"
    using op_use [OF ag _ ex' 2(3,4)] u ops by auto
  have "agree (S \<union> defd s) r' q'"
    unfolding agree_def
  proof (intro conjI ballI impI)
    show "length (rM r') = BPF_MEMWORDS" and "length (rM q') = BPF_MEMWORDS"
      using exec_op_mem_length [OF ex'] exec_op_mem_length [OF q'] ag by (simp_all add: agree_def)
    fix a assume a: "a \<in> S \<union> defd s" "a < N_ATOMS"
    show "atom_val r' a = atom_val q' a"
    proof (cases "a \<in> defd s")
      case True
      then show ?thesis using d a ops by simp
    next
      case False
      then have "atom_val r' a = atom_val r a" and "atom_val q' a = atom_val q a"
        using op_frame [OF ex' _ 2(3) a(2)] op_frame [OF q' _ 2(3) a(2)] ops by simp_all
      then show ?thesis using a False ag by (auto simp: agree_def)
    qed
  qed
  then show ?thesis using q' exec_stmt_op [OF 2(1,3)] by simp
qed

lemma exec_stmt_skip:
  assumes wf: "wf_stmt s" and ag: "agree S r q" and ex: "exec_stmt pk s r = Next r'"
  shows "agree (S - defd s) r' q"
  using wf
proof (cases rule: wf_stmt_cases)
  case 1
  then show ?thesis using ag ex by (auto simp: exec_stmt_def agree_def)
next
  case (2 i)
  have ex': "exec_op pk i (s_k s) r = Next r'" using ex exec_stmt_op [OF 2(1,3)] by simp
  have "atom_val r' a = atom_val r a" if "a \<notin> defd s" and "a < N_ATOMS" for a
    using that op_frame [OF ex' _ 2(3)] defd_op [OF 2(1,3,4)] by simp
  then show ?thesis using ag exec_op_mem_length [OF ex'] by (auto simp: agree_def)
qed

section \<open>The interface of the liveness-based transformations\<close>

text \<open>
  What a client that removes statements needs from a language of statements: agreement on
  what a statement uses carries over what it defines, and a statement changes nothing but
  what it defines. \<open>agree S a b\<close> reads "\<open>a\<close> and \<open>b\<close> are the same on the registers
  of \<open>S\<close>".
\<close>

locale liveness =
  fixes exec :: "'s \<Rightarrow> 'st \<Rightarrow> 'st outcome"
    and agr :: "nat set \<Rightarrow> 'st \<Rightarrow> 'st \<Rightarrow> bool"
    and use :: "'s \<Rightarrow> nat set"
    and def :: "'s \<Rightarrow> nat set"
    and ok :: "'s \<Rightarrow> bool"
  assumes agr_mono: "agr S a b \<Longrightarrow> T \<subseteq> S \<Longrightarrow> agr T a b"
    and exec_agr: "ok s \<Longrightarrow> agr S a b \<Longrightarrow> use s \<subseteq> S \<Longrightarrow> exec s a = Next a' \<Longrightarrow>
      \<exists>b'. exec s b = Next b' \<and> agr (S \<union> def s) a' b'"
    and exec_skip: "ok s \<Longrightarrow> agr S a b \<Longrightarrow> exec s a = Next a' \<Longrightarrow> agr (S - def s) a' b"
begin

text \<open>A list of statements, each with a flag that says whether it was removed.\<close>

fun run :: "'s list \<Rightarrow> 'st \<Rightarrow> 'st outcome" where
  "run [] a = Next a"
| "run (s # ss) a = and_then (exec s a) (run ss)"

fun run_kept :: "('s \<times> bool) list \<Rightarrow> 'st \<Rightarrow> 'st outcome" where
  "run_kept [] a = Next a"
| "run_kept ((s, dead) # ss) a =
     (if dead then run_kept ss a else and_then (exec s a) (run_kept ss))"

text \<open>
  \<open>covers L sds L'\<close>: starting with the registers \<open>L\<close> in agreement, the kept statements
  only use registers that still agree, and \<open>L'\<close> agree at the end.
\<close>

fun covers :: "nat set \<Rightarrow> ('s \<times> bool) list \<Rightarrow> nat set \<Rightarrow> bool" where
  "covers L [] L' \<longleftrightarrow> L' \<subseteq> L"
| "covers L ((s, dead) # sds) L' \<longleftrightarrow>
     (if dead then covers (L - def s) sds L'
      else use s \<subseteq> L \<and> covers (L \<union> def s) sds L')"

lemma removal_sound:
  "covers L sds L' \<Longrightarrow> \<forall>(s, dead) \<in> set sds. ok s \<Longrightarrow> agr L a b \<Longrightarrow>
   run (map fst sds) a = Next a' \<Longrightarrow> \<exists>b'. run_kept sds b = Next b' \<and> agr L' a' b'"
proof (induction sds arbitrary: L a b)
  case Nil
  then show ?case using agr_mono by auto
next
  case (Cons sd sds)
  obtain s dead where sd: "sd = (s, dead)" by (cases sd)
  from Cons.prems(4) obtain a1 where a1: "exec s a = Next a1" and rest: "run (map fst sds) a1 = Next a'"
    by (auto simp: sd and_then_Next)
  have oks: "ok s" "\<forall>(s, dead) \<in> set sds. ok s" using Cons.prems(2) by (auto simp: sd)
  show ?case
  proof (cases dead)
    case True
    then show ?thesis
      using Cons.IH [OF _ oks(2) exec_skip [OF oks(1) Cons.prems(3) a1] rest] Cons.prems(1)
      by (simp add: sd)
  next
    case False
    then have u: "use s \<subseteq> L" and cv: "covers (L \<union> def s) sds L'"
      using Cons.prems(1) by (simp_all add: sd)
    obtain b1 where "exec s b = Next b1" and "agr (L \<union> def s) a1 b1"
      using exec_agr [OF oks(1) Cons.prems(3) u a1] by blast
    then show ?thesis using Cons.IH [OF cv oks(2) _ rest] False by (simp add: sd)
  qed
qed

end

text \<open>The machine's statements are such a language.\<close>

interpretation live: liveness "exec_stmt pk" agree used defd wf_stmt for pk
proof unfold_locales
  show "agree S a b \<Longrightarrow> T \<subseteq> S \<Longrightarrow> agree T a b" for S T a b
    by (auto simp: agree_def)
  show "wf_stmt s \<Longrightarrow> agree S a b \<Longrightarrow> used s \<subseteq> S \<Longrightarrow> exec_stmt pk s a = Next a' \<Longrightarrow>
      \<exists>b'. exec_stmt pk s b = Next b' \<and> agree (S \<union> defd s) a' b'" for s S a b a'
    by (rule exec_stmt_agree)
  show "wf_stmt s \<Longrightarrow> agree S a b \<Longrightarrow> exec_stmt pk s a = Next a' \<Longrightarrow> agree (S - defd s) a' b"
    for s S a b a'
    by (rule exec_stmt_skip)
qed

text \<open>The use/definition functions of the optimizer are right about the machine. If two
  register files agree on the registers \<open>S\<close> that include the ones \<open>atomuse\<close> names, a
  statement that completes on one completes on the other, and they then agree on \<open>S\<close> and on what
  \<open>atomdef\<close> names; and a completed statement leaves every other register as it was.\<close>

theorem use_def_sound:
  assumes "wf_stmt s" and "agree S r q" and "used s \<subseteq> S" and "exec_stmt pk s r = Next r'"
  shows "(\<exists>q'. exec_stmt pk s q = Next q' \<and> agree (S \<union> defd s) r' q') \<and>
         agree ({..<N_ATOMS} - defd s) r' r"
proof -
  have "agree {..<N_ATOMS} r r" using assms(2) by (simp add: agree_def)
  then show ?thesis
    using live.exec_agr [OF assms(1-4)] live.exec_skip [OF assms(1) _ assms(4)] by blast
qed

text \<open>\<open>tax\<close> on two register files that differ in \<open>X\<close> only.\<close>

theorem use_def_sound_witness:
  "let s = \<lparr>s_code = 0x07, s_jt = None, s_jf = None, s_k = 0\<rparr>;
       r = \<lparr>rA = 5, rX = 1, rM = replicate 16 0\<rparr>; q = r\<lparr>rX := 2\<rparr>;
       pk = \<lparr>pk_data = [], pk_wirelen = 0, pk_buflen = 0\<rparr>
   in wf_stmt s \<and> agree {16} r q \<and> exec_stmt pk s r = Next (r\<lparr>rX := 5\<rparr>) \<and>
      (\<exists>q'. exec_stmt pk s q = Next q' \<and> agree {16, 17} (r\<lparr>rX := 5\<rparr>) q')"
proof -
  let ?s = "\<lparr>s_code = 0x07, s_jt = None, s_jf = None, s_k = 0\<rparr> :: stmt"
  let ?r = "\<lparr>rA = 5, rX = 1, rM = replicate 16 0\<rparr>"
  let ?pk = "\<lparr>pk_data = [], pk_wirelen = 0, pk_buflen = 0\<rparr>"
  have u: "used ?s = {16}" and d: "defd ?s = {17}"
    by (simp_all add: used_def defd_def atomuse_def atomdef_def atom_set_def bpf_fields)
  have h: "wf_stmt ?s" "agree {16} ?r (?r\<lparr>rX := 2\<rparr>)" "exec_stmt ?pk ?s ?r = Next (?r\<lparr>rX := 5\<rparr>)"
    by (simp_all add: wf_stmt_def agree_def exec_stmt_def bpf_exec)
  have "(\<exists>q'. exec_stmt ?pk ?s (?r\<lparr>rX := 2\<rparr>) = Next q' \<and> agree ({16} \<union> defd ?s) (?r\<lparr>rX := 5\<rparr>) q')"
    using use_def_sound [OF h(1,2) _ h(3)] u by blast
  then show ?thesis using h d by (simp add: Let_def insert_commute)
qed

section \<open>The sets a block uses, defines and kills\<close>

text \<open>\<open>atomset\<close> is a 32-bit mask, with \<open>ATOMMASK\<close> and \<open>ATOMELEM\<close> of \<^verbatim>\<open>gencode.h\<close>.\<close>

definition ATOMMASK :: "int \<Rightarrow> u32" where "ATOMMASK n = push_bit (nat n) 1"
definition ATOMELEM :: "u32 \<Rightarrow> int \<Rightarrow> bool" where "ATOMELEM d n \<longleftrightarrow> d AND ATOMMASK n \<noteq> 0"

definition elems :: "u32 \<Rightarrow> nat set" where "elems d = {n. n < N_ATOMS \<and> bit d n}"

lemma elems_0 [simp]: "elems 0 = {}"
  by (simp add: elems_def)

text \<open>
  Recording a use: not if the block has already defined the register. An atom number beyond
  \<open>AX_ATOM\<close> ends in \<open>abort()\<close>, here \<open>None\<close>.
\<close>

definition add_use :: "int \<Rightarrow> u32 \<Rightarrow> u32 \<Rightarrow> u32 option" where
  "add_use atom def use =
     (if atom < 0 then Some use
      else if atom = AX_ATOM then
        Some (let use1 = (if \<not> ATOMELEM def X_ATOM then use OR ATOMMASK X_ATOM else use)
              in if \<not> ATOMELEM def A_ATOM then use1 OR ATOMMASK A_ATOM else use1)
      else if atom < int N_ATOMS then
        Some (if \<not> ATOMELEM def atom then use OR ATOMMASK atom else use)
      else None)"

fun local_ud_step :: "stmt \<Rightarrow> u32 \<times> u32 \<times> u32 \<Rightarrow> (u32 \<times> u32 \<times> u32) option" where
  "local_ud_step s (def, use, kill) =
     (if s_code s = NOP then Some (def, use, kill)
      else case add_use (atomuse s) def use of
             None \<Rightarrow> None
           | Some use' \<Rightarrow>
               (let atom = atomdef s in
                if 0 \<le> atom then
                  Some (def OR ATOMMASK atom, use',
                        if \<not> ATOMELEM use' atom then kill OR ATOMMASK atom else kill)
                else Some (def, use', kill)))"

fun local_ud_stmts :: "stmt list \<Rightarrow> u32 \<times> u32 \<times> u32 \<Rightarrow> (u32 \<times> u32 \<times> u32) option" where
  "local_ud_stmts [] st = Some st"
| "local_ud_stmts (s # ss) st =
     (case local_ud_step s st of None \<Rightarrow> None | Some st' \<Rightarrow> local_ud_stmts ss st')"

definition compute_local_ud :: "stmt list \<Rightarrow> stmt \<Rightarrow> (u32 \<times> u32 \<times> u32) option" where
  "compute_local_ud ss br =
     (case local_ud_stmts ss (0, 0, 0) of
        None \<Rightarrow> None
      | Some (def, use, kill) \<Rightarrow>
          if BPF_CLASS (s_code br) = BPF_JMP then
            map_option (\<lambda>use'. (def, use', kill)) (add_use (atomuse br) def use)
          else Some (def, use, kill))"

lemma bit_ATOMMASK: "0 \<le> n \<Longrightarrow> n < 32 \<Longrightarrow> bit (d OR ATOMMASK n) m \<longleftrightarrow> bit d m \<or> m = nat n"
  by (auto simp: ATOMMASK_def bit_simps)

lemma ATOMELEM_bit: "ATOMELEM d n \<longleftrightarrow> bit d (nat n)"
  by (simp add: ATOMELEM_def ATOMMASK_def push_bit_eq_mult and_exp_eq_0_iff_not_bit)

lemma add_use_elems:
  assumes "add_use a def use = Some use'" and "atom_set a \<subseteq> {..<N_ATOMS}"
  shows "elems use \<subseteq> elems use'" and "atom_set a \<subseteq> elems use' \<union> elems def"
  using assms
  by (auto simp: add_use_def elems_def atom_set_def ATOMELEM_bit bit_ATOMMASK Let_def
      split: if_splits)

lemma wf_defd: "wf_stmt s \<Longrightarrow> defd s \<subseteq> {..<N_ATOMS}" and wf_used: "wf_stmt s \<Longrightarrow> used s \<subseteq> {..<N_ATOMS}"
proof -
  show "defd s \<subseteq> {..<N_ATOMS}" if "wf_stmt s"
    using that
  proof (cases rule: wf_stmt_cases)
    case (2 i)
    then show ?thesis using defd_op [OF 2(1,3,4)] by (cases i) auto
  qed (simp add: defd_def atomdef_def atom_set_def)
  show "used s \<subseteq> {..<N_ATOMS}" if "wf_stmt s"
    using that
  proof (cases rule: wf_stmt_cases)
    case (2 i)
    show ?thesis
    proof (cases i)
      case (Alu a x)
      then show ?thesis using 2 used_op [OF 2(1,3,4)] by (cases x) auto
    qed (use 2 used_op [OF 2(1,3,4)] in auto)
  qed (simp add: used_def atomuse_def atom_set_def)
qed

lemma local_ud_step_shape:
  assumes "local_ud_step s (def, use, kill) = Some (def', use', kill')"
  shows "add_use (atomuse s) def use = Some use'"
    and "def' = (if 0 \<le> atomdef s then def OR ATOMMASK (atomdef s) else def)"
    and "kill' = kill \<or> 0 \<le> atomdef s \<and> kill' = kill OR ATOMMASK (atomdef s)"
proof -
  show "add_use (atomuse s) def use = Some use'"
  proof (cases "s_code s = NOP")
    case True
    then show ?thesis using assms by (simp add: atomuse_def add_use_def)
  next
    case False
    then show ?thesis using assms by (simp add: Let_def split: option.splits if_splits)
  qed
  show "def' = (if 0 \<le> atomdef s then def OR ATOMMASK (atomdef s) else def)"
  proof (cases "s_code s = NOP")
    case True
    then show ?thesis using assms by (simp add: atomdef_def)
  next
    case False
    then show ?thesis using assms by (auto simp: Let_def split: option.splits if_splits)
  qed
  show "kill' = kill \<or> 0 \<le> atomdef s \<and> kill' = kill OR ATOMMASK (atomdef s)"
    using assms by (auto simp: Let_def split: option.splits if_splits)
qed

lemma elems_mask:
  assumes "0 \<le> a" and "atom_set a \<subseteq> {..<N_ATOMS}" and "a \<noteq> AX_ATOM"
  shows "elems (d OR ATOMMASK a) = elems d \<union> atom_set a"
proof -
  have "nat a < N_ATOMS" using assms by (auto simp: atom_set_def)
  then show ?thesis using assms by (auto simp: elems_def bit_ATOMMASK atom_set_def)
qed

lemma atomdef_not_AX: "wf_stmt s \<Longrightarrow> atomdef s \<noteq> AX_ATOM"
proof -
  assume "wf_stmt s"
  then show ?thesis
  proof (cases rule: wf_stmt_cases)
    case (2 i)
    then show ?thesis
      using sint_small [of "s_k s"] defd_op [OF 2(1,3,4)] unat_less_uint [of "s_k s" BPF_MEMWORDS]
      by (cases i) (auto simp: defd_def atom_set_def split: if_splits)
  qed (simp add: atomdef_def)
qed

lemma local_ud_step_elems:
  assumes wf: "wf_stmt s" and st: "local_ud_step s (def, use, kill) = Some (def', use', kill')"
    and kd: "elems kill \<subseteq> elems def"
  shows "elems def' = elems def \<union> defd s" and "elems use \<subseteq> elems use'"
    and "used s \<subseteq> elems use' \<union> elems def" and "elems kill' \<subseteq> elems def'"
proof -
  note shape = local_ud_step_shape [OF st]
  note d = wf_defd [OF wf, unfolded defd_def] atomdef_not_AX [OF wf]
  show def': "elems def' = elems def \<union> defd s"
  proof (cases "0 \<le> atomdef s")
    case True
    then show ?thesis using shape(2) elems_mask [OF True d] by (simp add: defd_def)
  next
    case False
    then show ?thesis using shape(2) by (simp add: defd_def atom_set_def)
  qed
  show "elems use \<subseteq> elems use'" and "used s \<subseteq> elems use' \<union> elems def"
    using add_use_elems [OF shape(1)] wf_used [OF wf] by (simp_all add: used_def)
  show "elems kill' \<subseteq> elems def'"
    using shape(3)
  proof
    assume "kill' = kill"
    then show ?thesis using kd def' by auto
  next
    assume k: "0 \<le> atomdef s \<and> kill' = kill OR ATOMMASK (atomdef s)"
    then have "elems kill' = elems kill \<union> defd s" using elems_mask [of "atomdef s" kill] d
      by (simp add: defd_def)
    then show ?thesis using kd def' by auto
  qed
qed

lemma exec_stmts_run: "live.run pk ss r = exec_stmts pk ss r"
proof (induction ss arbitrary: r)
  case (Cons s ss)
  then show ?case by (cases "exec_stmt pk s r") auto
qed simp

lemma run_kept_all: "live.run_kept pk (map (\<lambda>s. (s, False)) ss) r = exec_stmts pk ss r"
proof (induction ss arbitrary: r)
  case (Cons s ss)
  then show ?case by (cases "exec_stmt pk s r") auto
qed simp

lemma covers_mono: "live.covers L sds M \<Longrightarrow> L \<subseteq> L' \<Longrightarrow> M' \<subseteq> M \<Longrightarrow> live.covers L' sds M'"
proof (induction sds arbitrary: L L')
  case (Cons sd sds)
  obtain s d where sd: "sd = (s, d)" by (cases sd)
  show ?case
  proof (cases d)
    case True
    then show ?thesis using Cons.prems Cons.IH [of "L - defd s" "L' - defd s"] by (auto simp: sd)
  next
    case False
    then show ?thesis using Cons.prems Cons.IH [of "L \<union> defd s" "L' \<union> defd s"] by (auto simp: sd)
  qed
qed auto

lemma local_ud_stmts_covers:
  "local_ud_stmts ss (def, use, kill) = Some (def', use', kill') \<Longrightarrow>
   \<forall>s \<in> set ss. wf_stmt s \<Longrightarrow> elems kill \<subseteq> elems def \<Longrightarrow>
   elems use \<subseteq> elems use' \<and> elems kill' \<subseteq> elems def' \<and>
   (\<forall>L. elems use' \<subseteq> L \<longrightarrow>
      live.covers (L \<union> elems def) (map (\<lambda>s. (s, False)) ss) (L \<union> elems def'))"
proof (induction ss arbitrary: def use kill)
  case Nil
  then show ?case by auto
next
  case (Cons s ss)
  obtain d1 u1 k1 where st: "local_ud_step s (def, use, kill) = Some (d1, u1, k1)"
    and rest: "local_ud_stmts ss (d1, u1, k1) = Some (def', use', kill')"
    using Cons.prems(1) by (auto simp del: local_ud_step.simps split: option.splits)
  have wf: "wf_stmt s" "\<forall>s \<in> set ss. wf_stmt s" using Cons.prems(2) by auto
  note e = local_ud_step_elems [OF wf(1) st Cons.prems(3)]
  note ih = Cons.IH [OF rest wf(2) e(4)]
  have "live.covers (L \<union> elems def) (map (\<lambda>s. (s, False)) (s # ss)) (L \<union> elems def')"
    if "elems use' \<subseteq> L" for L
  proof -
    have "used s \<subseteq> L \<union> elems def" using e(3) ih that by blast
    moreover have "L \<union> elems def \<union> defd s = L \<union> elems d1" using e(1) by blast
    ultimately show ?thesis using ih that by simp
  qed
  then show ?case using e(2) ih by blast
qed

definition branch_used :: "stmt \<Rightarrow> nat set" where
  "branch_used br = (if BPF_CLASS (s_code br) = BPF_JMP then used br else {})"

lemma branch_used_range: "branch_used br \<subseteq> {..<N_ATOMS}"
  by (auto simp: branch_used_def used_def atomuse_def atom_set_def Let_def)

lemma compute_local_ud_covers:
  assumes ud: "compute_local_ud ss br = Some (def, use, kill)" and wf: "\<forall>s \<in> set ss. wf_stmt s"
  shows "live.covers (elems use \<union> (Out - elems kill)) (map (\<lambda>s. (s, False)) ss)
           (Out \<union> branch_used br)"
proof -
  obtain u0 where loop: "local_ud_stmts ss (0, 0, 0) = Some (def, u0, kill)"
    and u: "(if BPF_CLASS (s_code br) = BPF_JMP then add_use (atomuse br) def u0 else Some u0)
            = Some use"
    using ud by (auto simp: compute_local_ud_def split: option.splits if_splits)
  have "atom_set (atomuse br) \<subseteq> {..<N_ATOMS}" if "BPF_CLASS (s_code br) = BPF_JMP"
    using branch_used_range [of br] that by (simp add: branch_used_def used_def)
  then have use: "elems u0 \<subseteq> elems use" and br: "branch_used br \<subseteq> elems use \<union> elems def"
    using u add_use_elems [of "atomuse br" def u0 use]
    by (auto simp: branch_used_def used_def split: if_splits)
  have kd: "elems kill \<subseteq> elems def"
    and cov: "\<And>L. elems u0 \<subseteq> L \<Longrightarrow>
      live.covers (L \<union> elems 0) (map (\<lambda>s. (s, False)) ss) (L \<union> elems def)"
    using local_ud_stmts_covers [OF loop wf] by simp_all
  have "elems u0 \<subseteq> elems use \<union> (Out - elems kill)" using use by blast
  from cov [OF this] show ?thesis using br kd by (auto elim!: covers_mono)
qed



end
