(* ===== verification/Opt_Dead.thy ===== *)
theory Opt_Dead
  imports Opt_Atoms
begin

text \<open>
  Dead-store elimination inside a block (\<open>deadstmt\<close>, \<open>opt_deadstores\<close> of
  \<^verbatim>\<open>optimize.c\<close>): a statement whose result is overwritten before it is read, or that is not
  needed after the block, becomes a no-op. The theorem is that a run of the original statements
  that completes is matched by a run of the remaining ones on every register that is live.
\<close>

section \<open>The pass\<close>

text \<open>
  The pass keeps, for each register, the last statement of the block that defined it and has
  not been read since (\<open>last[]\<close>, a pointer to the statement; here its index). The state is the
  statement list, \<open>last\<close> and the global flag \<open>done\<close>.
\<close>

type_synonym dead_state = "stmt list \<times> (nat \<Rightarrow> nat option) \<times> bool"

definition nop :: "stmt \<Rightarrow> stmt" where "nop s = s\<lparr>s_code := NOP\<rparr>"

definition kill :: "nat \<Rightarrow> stmt list \<Rightarrow> stmt list" where "kill j ss = ss[j := nop (ss ! j)]"

definition clear_used :: "stmt \<Rightarrow> (nat \<Rightarrow> nat option) \<Rightarrow> nat \<Rightarrow> nat option" where
  "clear_used s lst =
     (let atom = atomuse s in
      if 0 \<le> atom then
        if atom = AX_ATOM then lst(nat X_ATOM := None, nat A_ATOM := None)
        else lst(nat atom := None)
      else lst)"

fun deadstmt :: "stmt \<Rightarrow> nat \<Rightarrow> dead_state \<Rightarrow> dead_state" where
  "deadstmt s i (ss, lst, dn) =
     (let last1 = clear_used s lst; atom = atomdef s in
      if 0 \<le> atom then
        (case last1 (nat atom) of
           Some j \<Rightarrow> (kill j ss, last1(nat atom := Some i), False)
         | None \<Rightarrow> (ss, last1(nat atom := Some i), dn))
      else (ss, last1, dn))"

fun dead_on_exit :: "u32 \<Rightarrow> nat \<Rightarrow> dead_state \<Rightarrow> dead_state" where
  "dead_on_exit out_use atom (ss, lst, dn) =
     (case lst atom of
        Some j \<Rightarrow> if \<not> ATOMELEM out_use (int atom) then (kill j ss, lst, False)
                  else (ss, lst, dn)
      | None \<Rightarrow> (ss, lst, dn))"

definition opt_deadstores :: "stmt list \<Rightarrow> stmt \<Rightarrow> u32 \<Rightarrow> bool \<Rightarrow> stmt list \<times> bool" where
  "opt_deadstores stmts br out_use dn =
     (let st1 = fold (\<lambda>i st. deadstmt (fst st ! i) i st) [0..<length stmts]
                  (stmts, (\<lambda>_. None), dn);
          st2 = deadstmt br (length stmts) st1;
          (ss, lst, dn') = fold (dead_on_exit out_use) [0..<N_ATOMS] st2
      in (ss, dn'))"

section \<open>Which statements the pass removes\<close>

fun mask_from :: "nat set \<Rightarrow> nat \<Rightarrow> stmt list \<Rightarrow> stmt list" where
  "mask_from R i [] = []"
| "mask_from R i (s # ss) = (if i \<in> R then nop s else s) # mask_from R (Suc i) ss"

fun flags_from :: "nat set \<Rightarrow> nat \<Rightarrow> stmt list \<Rightarrow> (stmt \<times> bool) list" where
  "flags_from R i [] = []"
| "flags_from R i (s # ss) = (s, i \<in> R) # flags_from R (Suc i) ss"

lemma length_mask_from [simp]: "length (mask_from R i ss) = length ss"
  by (induction ss arbitrary: i) auto

lemma nth_mask_from:
  "j < length ss \<Longrightarrow> mask_from R i ss ! j = (if i + j \<in> R then nop (ss ! j) else ss ! j)"
proof (induction ss arbitrary: i j)
  case (Cons s ss)
  then show ?case by (cases j) auto
qed simp

lemma mask_from_empty [simp]: "mask_from {} i ss = ss"
  by (induction ss arbitrary: i) auto

lemma nop_nop [simp]: "nop (nop s) = nop s"
  by (simp add: nop_def)

lemma kill_mask: "j < length ss \<Longrightarrow> kill j (mask_from R 0 ss) = mask_from (insert j R) 0 ss"
  by (rule nth_equalityI) (auto simp: kill_def nth_list_update nth_mask_from)

lemma map_fst_flags [simp]: "map fst (flags_from R i ss) = ss"
  by (induction ss arbitrary: i) auto

lemma set_flags: "(s, d) \<in> set (flags_from R i ss) \<Longrightarrow> s \<in> set ss"
  by (induction ss arbitrary: i) auto

lemma exec_nop [simp]: "exec_stmt pk (nop s) r = Next r"
  by (simp add: exec_stmt_def nop_def)

lemma run_kept_flags: "live.run_kept pk (flags_from R i ss) r = exec_stmts pk (mask_from R i ss) r"
proof (induction ss arbitrary: i r)
  case (Cons s ss)
  then show ?case by (cases "exec_stmt pk s r") auto
qed simp

text \<open>The removals as sets of indices: those made at or after index \<open>i\<close>, and the final \<open>last\<close>.\<close>

definition last_after :: "stmt \<Rightarrow> nat \<Rightarrow> (nat \<Rightarrow> nat option) \<Rightarrow> nat \<Rightarrow> nat option" where
  "last_after s i lst =
     (if 0 \<le> atomdef s then (clear_used s lst)(nat (atomdef s) := Some i) else clear_used s lst)"

definition killed_at :: "stmt \<Rightarrow> (nat \<Rightarrow> nat option) \<Rightarrow> nat set" where
  "killed_at s lst =
     (if 0 \<le> atomdef s then set_option (clear_used s lst (nat (atomdef s))) else {})"

fun kills :: "stmt list \<Rightarrow> nat \<Rightarrow> (nat \<Rightarrow> nat option) \<Rightarrow> nat set" where
  "kills [] i lst = {}"
| "kills (s # ss) i lst = killed_at s lst \<union> kills ss (Suc i) (last_after s i lst)"

fun last_end :: "stmt list \<Rightarrow> nat \<Rightarrow> (nat \<Rightarrow> nat option) \<Rightarrow> nat \<Rightarrow> nat option" where
  "last_end [] i lst = lst"
| "last_end (s # ss) i lst = last_end ss (Suc i) (last_after s i lst)"

lemma deadstmt_eq:
  "fst (deadstmt s i (ss, lst, dn)) = (if killed_at s lst = {} then ss else kill (the_elem (killed_at s lst)) ss)"
  "fst (snd (deadstmt s i (ss, lst, dn))) = last_after s i lst"
  by (auto simp: killed_at_def last_after_def Let_def split: option.splits)

lemma killed_at_ran: "killed_at s lst \<subseteq> ran lst"
  by (auto simp: killed_at_def clear_used_def Let_def ran_def split: if_splits)

lemma killed_at_single: "j \<in> killed_at s lst \<Longrightarrow> killed_at s lst = {j}"
  by (auto simp: killed_at_def split: if_splits)

lemma ran_last_after: "ran (last_after s i lst) \<subseteq> insert i (ran lst)"
  by (auto simp: last_after_def clear_used_def Let_def ran_def split: if_splits)

lemma kills_bound: "kills ss i lst \<subseteq> ran lst \<union> {i..}"
proof (induction ss arbitrary: i lst)
  case (Cons s ss)
  have "kills ss (Suc i) (last_after s i lst) \<subseteq> ran lst \<union> {i..}"
    using Cons.IH [of "Suc i" "last_after s i lst"] ran_last_after [of s i lst] by fastforce
  then show ?case using killed_at_ran [of s lst] by auto
qed simp

lemma last_end_bound: "ran (last_end ss i lst) \<subseteq> ran lst \<union> {i..}"
proof (induction ss arbitrary: i lst)
  case (Cons s ss)
  show ?case
    using Cons.IH [of "Suc i" "last_after s i lst"] ran_last_after [of s i lst] by fastforce
qed simp

definition last_ok :: "nat \<Rightarrow> (nat \<Rightarrow> nat option) \<Rightarrow> bool" where
  "last_ok i lst \<longleftrightarrow> ran lst \<subseteq> {..<i} \<and>
     (\<forall>a b j. lst a = Some j \<longrightarrow> lst b = Some j \<longrightarrow> a = b)"

lemma last_ok_after: "last_ok i lst \<Longrightarrow> last_ok (Suc i) (last_after s i lst)"
  by (auto simp: last_ok_def last_after_def clear_used_def Let_def ran_def less_Suc_eq
      split: if_splits)

lemma last_ok_end: "last_ok i lst \<Longrightarrow> last_ok (i + length ss) (last_end ss i lst)"
proof (induction ss arbitrary: i lst)
  case (Cons s ss)
  then show ?case using Cons.IH [OF last_ok_after [OF Cons.prems]] by simp
qed simp

lemma used_cleared: "a \<in> used s \<Longrightarrow> clear_used s lst a = None"
  by (auto simp: used_def atom_set_def clear_used_def Let_def split: if_splits)

lemma clear_used_sub: "clear_used s lst a = Some j \<Longrightarrow> lst a = Some j"
  by (auto simp: clear_used_def Let_def split: if_splits)

lemma killed_disjoint:
  assumes ok: "last_ok i lst"
  shows "killed_at s lst \<inter> (ran (last_after s i lst) \<union> {Suc i..}) = {}"
proof -
  have "j \<notin> ran (last_after s i lst)" if "j \<in> killed_at s lst" for j
  proof -
    have d: "0 \<le> atomdef s" and cj: "clear_used s lst (nat (atomdef s)) = Some j"
      using that by (auto simp: killed_at_def split: if_splits)
    have "lst b = Some j \<Longrightarrow> b = nat (atomdef s)" for b
      using ok clear_used_sub [OF cj] by (auto simp: last_ok_def)
    moreover have "j < i" using killed_at_ran [of s lst] that ok by (auto simp: last_ok_def)
    ultimately show ?thesis
      using d clear_used_sub [of s lst] by (auto simp: last_after_def ran_def split: if_splits)
  qed
  moreover have "killed_at s lst \<subseteq> {..<i}"
    using killed_at_ran [of s lst] ok by (auto simp: last_ok_def)
  ultimately show ?thesis by auto
qed

lemma kills_disjoint: "last_ok i lst \<Longrightarrow> kills ss i lst \<inter> ran (last_end ss i lst) = {}"
proof (induction ss arbitrary: i lst)
  case (Cons s ss)
  then show ?case
    using Cons.IH [OF last_ok_after [OF Cons.prems]] killed_disjoint [OF Cons.prems, of s]
      last_end_bound [of ss "Suc i" "last_after s i lst"]
    by auto
qed simp

text \<open>The registers whose latest definition survives: those the two runs agree on.\<close>

definition kept :: "nat set \<Rightarrow> (nat \<Rightarrow> nat option) \<Rightarrow> nat set" where
  "kept R lst = {a. a < N_ATOMS \<and> (\<forall>j. lst a = Some j \<longrightarrow> j \<notin> R)}"

lemma not_in_ran_after:
  assumes ok: "last_ok i lst" and a: "a \<in> used s" and j: "lst a = Some j"
  shows "j \<notin> ran (last_after s i lst)" and "j \<notin> killed_at s lst"
proof -
  have ji: "j < i" using ok j by (auto simp: last_ok_def ran_def)
  have no: "clear_used s lst b \<noteq> Some j" for b
    using ok j used_cleared [OF a, of lst] clear_used_sub [of s lst b j]
    by (cases "b = a") (auto simp: last_ok_def)
  show "j \<notin> ran (last_after s i lst)"
    using no ji by (auto simp: last_after_def ran_def split: if_splits)
  show "j \<notin> killed_at s lst"
    using no by (auto simp: killed_at_def split: if_splits)
qed

text \<open>
  \<open>R\<close>, restricted to the statements that are still candidates, is what the rest of the pass
  removes: now, later, or on exit (\<open>E\<close>).
\<close>

lemma kills_cover:
  "\<forall>s \<in> set ss. wf_stmt s \<Longrightarrow> last_ok i lst \<Longrightarrow>
   R \<inter> (ran lst \<union> {i..}) = kills ss i lst \<union> E \<Longrightarrow> E \<subseteq> ran (last_end ss i lst) \<Longrightarrow>
   live.covers (kept R lst) (flags_from R i ss) (kept R (last_end ss i lst))"
proof (induction ss arbitrary: i lst)
  case Nil
  then show ?case by simp
next
  case (Cons s ss)
  let ?lst = "last_after s i lst"
  have wf: "wf_stmt s" using Cons.prems(1) by simp
  note ok = Cons.prems(2)
  note ok' = last_ok_after [OF ok, of s]
  have sub: "kills ss (Suc i) ?lst \<union> E \<subseteq> ran ?lst \<union> {Suc i..}"
    using kills_bound [of ss "Suc i" ?lst] last_end_bound [of ss "Suc i" ?lst] Cons.prems(4) by auto
  have out: "ran ?lst \<union> {Suc i..} \<subseteq> ran lst \<union> {i..}"
    using ran_last_after [of s i lst] by auto
  note disj = killed_disjoint [OF ok, of s]
  have R: "R \<inter> (ran lst \<union> {i..}) = killed_at s lst \<union> kills ss (Suc i) ?lst \<union> E"
    using Cons.prems(3) by auto
  have R': "R \<inter> (ran ?lst \<union> {Suc i..}) = kills ss (Suc i) ?lst \<union> E"
    using R sub out disj by blast
  have ih: "live.covers (kept R ?lst) (flags_from R (Suc i) ss) (kept R (last_end ss (Suc i) ?lst))"
    using Cons.IH [OF _ ok' R'] Cons.prems(1,4) by simp
  have uk: "used s \<subseteq> kept R lst"
  proof
    fix a assume a: "a \<in> used s"
    have "j \<notin> R" if j: "lst a = Some j" for j
    proof
      assume "j \<in> R"
      moreover have "j \<in> ran lst" using j by (auto simp: ran_def)
      ultimately have "j \<in> killed_at s lst \<union> (kills ss (Suc i) ?lst \<union> E)" using R by blast
      then have "j \<in> ran ?lst \<union> {Suc i..}" using not_in_ran_after(2) [OF ok a j] sub by blast
      moreover have "j < i" using ok j by (auto simp: last_ok_def ran_def)
      ultimately show False using not_in_ran_after(1) [OF ok a j] by auto
    qed
    then show "a \<in> kept R lst" using wf_used [OF wf] a by (auto simp: kept_def)
  qed
  have d: "defd s = (if 0 \<le> atomdef s then {nat (atomdef s)} else {})"
    using atomdef_not_AX [OF wf] by (simp add: defd_def atom_set_def)
  have step': "i \<in> R \<Longrightarrow> kept R ?lst \<inter> defd s = {}"
    by (auto simp: d kept_def last_after_def)
  have step: "kept R ?lst \<subseteq> kept R lst \<union> (if i \<in> R then {} else defd s)"
  proof
    fix a assume a: "a \<in> kept R ?lst"
    show "a \<in> kept R lst \<union> (if i \<in> R then {} else defd s)"
    proof (cases "a \<in> used s \<or> a \<in> defd s")
      case True
      then show ?thesis using uk step' a by auto
    next
      case False
      then have "?lst a = lst a"
        by (auto simp: last_after_def d clear_used_def Let_def used_def atom_set_def split: if_splits)
      then show ?thesis using a by (auto simp: kept_def)
    qed
  qed
  show ?case
  proof (cases "i \<in> R")
    case True
    then show ?thesis using ih step step' by (auto intro: covers_mono)
  next
    case False
    then show ?thesis using ih step uk by (auto intro: covers_mono)
  qed
qed

section \<open>The pass removes these and nothing else\<close>

lemma deadstmt_mask:
  assumes i: "i < length stmts" and R: "R \<subseteq> {..<i}" and l: "ran lst \<subseteq> {..<i}"
  shows "\<exists>dn'. deadstmt (mask_from R 0 stmts ! i) i (mask_from R 0 stmts, lst, dn) =
           (mask_from (R \<union> killed_at (stmts ! i) lst) 0 stmts, last_after (stmts ! i) i lst, dn')"
proof -
  let ?s = "stmts ! i"
  have s: "mask_from R 0 stmts ! i = ?s" using i R by (auto simp: nth_mask_from)
  have "kill j (mask_from R 0 stmts) = mask_from (R \<union> {j}) 0 stmts" if "j < i" for j
    using kill_mask [of j stmts R] that i by simp
  moreover have "j < i" if "clear_used ?s lst a = Some j" for a j
    using that l clear_used_sub [of ?s lst a j] by (auto simp: ran_def)
  ultimately show ?thesis
    by (auto simp: s killed_at_def last_after_def Let_def split: option.splits)
qed

lemma fold_deadstmt:
  "i \<le> length stmts \<Longrightarrow> R \<subseteq> {..<i} \<Longrightarrow> last_ok i lst \<Longrightarrow>
   \<exists>dn'. fold (\<lambda>i st. deadstmt (fst st ! i) i st) [i..<length stmts] (mask_from R 0 stmts, lst, dn) =
     (mask_from (R \<union> kills (drop i stmts) i lst) 0 stmts, last_end (drop i stmts) i lst, dn')"
proof (induction "length stmts - i" arbitrary: i R lst dn)
  case 0
  then show ?case by simp
next
  case (Suc n)
  then have i: "i < length stmts" by simp
  let ?s = "stmts ! i"
  have l: "ran lst \<subseteq> {..<i}" using Suc.prems(3) by (simp add: last_ok_def)
  obtain dn1 where st: "deadstmt (mask_from R 0 stmts ! i) i (mask_from R 0 stmts, lst, dn) =
      (mask_from (R \<union> killed_at ?s lst) 0 stmts, last_after ?s i lst, dn1)"
    using deadstmt_mask [OF i Suc.prems(2) l] by blast
  have "R \<union> killed_at ?s lst \<subseteq> {..<Suc i}"
    using Suc.prems(2) killed_at_ran [of ?s lst] l by auto
  from Suc.hyps(1) [OF _ _ this last_ok_after [OF Suc.prems(3), of ?s]] Suc.hyps(2) i
  obtain dn2 where "fold (\<lambda>i st. deadstmt (fst st ! i) i st) [Suc i..<length stmts]
        (mask_from (R \<union> killed_at ?s lst) 0 stmts, last_after ?s i lst, dn1) =
      (mask_from (R \<union> killed_at ?s lst \<union> kills (drop (Suc i) stmts) (Suc i) (last_after ?s i lst)) 0 stmts,
       last_end (drop (Suc i) stmts) (Suc i) (last_after ?s i lst), dn2)"
    by fastforce
  then show ?case
    using st i by (simp add: upt_conv_Cons Cons_nth_drop_Suc [symmetric] Un_assoc)
qed

lemma fold_dead_on_exit:
  "ran lst \<subseteq> {..<length stmts} \<Longrightarrow>
   \<exists>dn'. fold (dead_on_exit out_use) as (mask_from R 0 stmts, lst, dn) =
     (mask_from (R \<union> {j. \<exists>a \<in> set as. lst a = Some j \<and> \<not> ATOMELEM out_use (int a)}) 0 stmts, lst, dn')"
proof (induction as arbitrary: R dn)
  case Nil
  then show ?case by simp
next
  case (Cons a as)
  show ?case
  proof (cases "\<exists>j. lst a = Some j \<and> \<not> ATOMELEM out_use (int a)")
    case True
    then obtain j where j: "lst a = Some j" "\<not> ATOMELEM out_use (int a)" by blast
    then have "j < length stmts" using Cons.prems by (auto simp: ran_def)
    then have "dead_on_exit out_use a (mask_from R 0 stmts, lst, dn) =
        (mask_from (insert j R) 0 stmts, lst, False)"
      using j by (simp add: kill_mask)
    moreover have "insert j R \<union> {j. \<exists>a \<in> set as. lst a = Some j \<and> \<not> ATOMELEM out_use (int a)} =
        R \<union> {j. \<exists>a \<in> set (a # as). lst a = Some j \<and> \<not> ATOMELEM out_use (int a)}"
      using j by auto
    ultimately show ?thesis using Cons.IH [OF Cons.prems, of "insert j R" False] by simp
  next
    case False
    then have "dead_on_exit out_use a (mask_from R 0 stmts, lst, dn) = (mask_from R 0 stmts, lst, dn)"
      by (auto split: option.splits)
    moreover have "{j. \<exists>a \<in> set as. lst a = Some j \<and> \<not> ATOMELEM out_use (int a)} =
        {j. \<exists>a \<in> set (a # as). lst a = Some j \<and> \<not> ATOMELEM out_use (int a)}"
      using False by auto
    ultimately show ?thesis using Cons.IH [OF Cons.prems, of R dn] by simp
  qed
qed

lemma opt_deadstores_mask:
  assumes br: "atomdef br < 0"
  shows "fst (opt_deadstores stmts br out_use dn) =
    (let l = last_end stmts 0 (\<lambda>_. None);
         E = {j. \<exists>a < N_ATOMS. clear_used br l a = Some j \<and> \<not> ATOMELEM out_use (int a)}
     in mask_from (kills stmts 0 (\<lambda>_. None) \<union> E) 0 stmts)"
proof -
  let ?none = "\<lambda>_ :: nat. None :: nat option"
  let ?l = "last_end stmts 0 ?none"
  have ok0: "last_ok 0 ?none" by (simp add: last_ok_def)
  obtain dn1 where f1: "fold (\<lambda>i st. deadstmt (fst st ! i) i st) [0..<length stmts] (stmts, ?none, dn) =
      (mask_from (kills stmts 0 ?none) 0 stmts, ?l, dn1)"
    using fold_deadstmt [of 0 stmts "{}" ?none dn] ok0 by auto
  have "ran ?l \<subseteq> {..<length stmts}" using last_ok_end [OF ok0, of stmts] by (simp add: last_ok_def)
  then have ran: "ran (clear_used br ?l) \<subseteq> {..<length stmts}"
    using clear_used_sub [of br ?l] by (force simp: ran_def)
  have f2: "deadstmt br (length stmts) (mask_from (kills stmts 0 ?none) 0 stmts, ?l, dn1) =
      (mask_from (kills stmts 0 ?none) 0 stmts, clear_used br ?l, dn1)"
    using br by (simp add: Let_def)
  have set: "{j. \<exists>a \<in> set [0..<N_ATOMS]. clear_used br ?l a = Some j \<and> \<not> ATOMELEM out_use (int a)} =
      {j. \<exists>a < N_ATOMS. clear_used br ?l a = Some j \<and> \<not> ATOMELEM out_use (int a)}"
    by auto
  show ?thesis
    using fold_dead_on_exit [OF ran, of out_use "[0..<N_ATOMS]" "kills stmts 0 ?none" dn1]
    unfolding opt_deadstores_def f1 Let_def f2 set by (auto simp del: upt.simps)
qed

lemma elems_ATOMELEM: "a \<in> elems d \<longleftrightarrow> a < N_ATOMS \<and> ATOMELEM d (int a)"
  by (simp add: elems_def ATOMELEM_bit)

text \<open>C28: dead-store elimination preserves what the rest of the filter can see. If the
  statements of a block complete on some registers, the statements the pass leaves complete too,
  and the two results agree on every register in \<open>out_use\<close> and on the registers the block's own
  branch reads. (A removed load can no longer reject a short packet, so nothing is claimed for a
  run the original statements do not complete.)\<close>

theorem deadstores_sound:
  assumes "\<forall>s \<in> set stmts. wf_stmt s" and "atomdef br < 0" and "atom_set (atomuse br) \<subseteq> {..<N_ATOMS}"
    and "length (rM r) = BPF_MEMWORDS" and "exec_stmts pk stmts r = Next r'"
  shows "\<exists>q'. exec_stmts pk (fst (opt_deadstores stmts br out_use dn)) r = Next q' \<and>
              agree (elems out_use \<union> used br) r' q'"
proof -
  let ?none = "\<lambda>_ :: nat. None :: nat option"
  let ?l = "last_end stmts 0 ?none" and ?K = "kills stmts 0 ?none"
  let ?E = "{j. \<exists>a < N_ATOMS. clear_used br ?l a = Some j \<and> \<not> ATOMELEM out_use (int a)}"
  have ok0: "last_ok 0 ?none" by (simp add: last_ok_def)
  have okl: "last_ok (length stmts) ?l" using last_ok_end [OF ok0, of stmts] by simp
  have dis: "?K \<inter> ran ?l = {}" by (rule kills_disjoint [OF ok0])
  have "?E \<subseteq> ran ?l" using clear_used_sub [of br ?l] by (auto simp: ran_def)
  then have cov: "live.covers (kept (?K \<union> ?E) ?none) (flags_from (?K \<union> ?E) 0 stmts) (kept (?K \<union> ?E) ?l)"
    using kills_cover [OF assms(1) ok0, of "?K \<union> ?E" ?E] by auto
  have live: "elems out_use \<union> used br \<subseteq> kept (?K \<union> ?E) ?l"
  proof
    fix a assume a: "a \<in> elems out_use \<union> used br"
    have "j \<notin> ?K \<union> ?E" if j: "?l a = Some j" for j
    proof -
      have "j \<notin> ?K" using dis j by (auto simp: ran_def)
      moreover have "clear_used br ?l b = Some j \<Longrightarrow> b = a" for b
        using okl j clear_used_sub [of br ?l b j] by (auto simp: last_ok_def)
      then have "j \<notin> ?E" using a used_cleared [of a br ?l] by (auto simp: elems_ATOMELEM)
      ultimately show ?thesis by simp
    qed
    then show "a \<in> kept (?K \<union> ?E) ?l"
      using a assms(3) by (auto simp: kept_def used_def elems_def)
  qed
  have run: "live.run pk (map fst (flags_from (?K \<union> ?E) 0 stmts)) r = Next r'"
    using assms(5) by (simp add: exec_stmts_run)
  have ag: "agree (kept (?K \<union> ?E) ?none) r r" using assms(4) by (simp add: agree_def)
  have "\<forall>(s, d) \<in> set (flags_from (?K \<union> ?E) 0 stmts). wf_stmt s"
    using assms(1) set_flags by fastforce
  from live.removal_sound [OF covers_mono [OF cov _ live] this _ run] ag
  show ?thesis by (auto simp: run_kept_flags opt_deadstores_mask [OF assms(2)] Let_def)
qed

text \<open>\<open>ld #1; ld #2; tax; jeq #7\<close> with nothing live afterwards: the first load and the \<open>tax\<close> go.\<close>

theorem deadstores_sound_witness:
  "let mk = (\<lambda>c v. \<lparr>s_code = c, s_jt = None, s_jf = None, s_k = v\<rparr>);
       ss = [mk 0 1, mk 0 2, mk 7 0]; br = mk 0x15 7;
       r = \<lparr>rA = 0, rX = 0, rM = replicate 16 0\<rparr>;
       pk = \<lparr>pk_data = [], pk_wirelen = 0, pk_buflen = 0\<rparr>
   in map s_code (fst (opt_deadstores ss br 0 True)) = [NOP, 0, NOP] \<and>
      (\<exists>q'. exec_stmts pk (fst (opt_deadstores ss br 0 True)) r = Next q' \<and>
            agree {16} \<lparr>rA = 2, rX = 2, rM = replicate 16 0\<rparr> q')"
proof -
  let ?mk = "\<lambda>c v. \<lparr>s_code = c, s_jt = None, s_jf = None, s_k = v\<rparr> :: stmt"
  let ?ss = "[?mk 0 1, ?mk 0 2, ?mk 7 0]" and ?br = "?mk 0x15 7"
  let ?r = "\<lparr>rA = 0, rX = 0, rM = replicate 16 0\<rparr>"
  let ?pk = "\<lparr>pk_data = [], pk_wirelen = 0, pk_buflen = 0\<rparr>"
  have wf: "\<forall>s \<in> set ?ss. wf_stmt s" by (simp add: wf_stmt_def bpf_exec)
  have br: "atomdef ?br < 0" "atomuse ?br = 16" by (simp_all add: atomdef_def atomuse_def bpf_fields)
  then have u: "used ?br = {16}" by (simp add: used_def atom_set_def)
  have ex: "exec_stmts ?pk ?ss ?r = Next \<lparr>rA = 2, rX = 2, rM = replicate 16 0\<rparr>"
    by (simp add: exec_stmt_def bpf_exec)
  have "map s_code (fst (opt_deadstores ?ss ?br 0 True)) = [NOP, 0, NOP]"
    by (simp add: opt_deadstores_def atomdef_def atomuse_def bpf_fields clear_used_def kill_def
        nop_def upt_rec ATOMELEM_def)
  then show ?thesis
    using deadstores_sound [OF wf br(1) _ _ ex, of 0 True] br(2) u
    by (simp add: Let_def atom_set_def)
qed

end
