(* ===== verification/Opt_Value.thy ===== *)
theory Opt_Value
  imports Opt_Atoms
begin

text \<open>
  Value numbering and the statement optimizer of \<^verbatim>\<open>optimize.c\<close>: \<open>init_val\<close>, \<open>F\<close>,
  \<open>vstore\<close>, \<open>fold_op\<close>, \<open>opt_stmt\<close>. Each register is given a value number; equal numbers
  are meant to stand for equal values, and statements that recompute a known value are folded or
  removed. The theorem is a simulation against the machine of \<open>Bpf_Machine\<close>: as long as the
  numbers are honest, the rewritten statement does what the original did.
\<close>

section \<open>Value numbers\<close>

text \<open>
  A node of the hash table (\<open>struct valnode\<close>). The operands are C \<open>int\<close>s: value numbers, or
  the instruction's constant.
\<close>

record valnode =
  v_code :: int
  v_v0 :: int
  v_v1 :: int
  v_val :: nat

text \<open>
  The file-scope state: the hash table, the last number given out, the constants known
  (\<open>vmap\<close>; \<open>None\<close> is \<open>is_const = 0\<close>) and \<open>done\<close>. The arrays are sized by \<open>opt_init\<close> for
  three numbers per statement; two are used, as is shown below.
\<close>

record vals =
  hashtbl :: "nat \<Rightarrow> valnode list"
  curval :: nat
  vmap :: "nat \<Rightarrow> u32 option"
  o_done :: bool

abbreviation (input) MODULUS :: nat where "MODULUS \<equiv> 213"

definition init_val :: "vals \<Rightarrow> vals" where
  "init_val st = st\<lparr>curval := 0, vmap := (\<lambda>_. None), hashtbl := (\<lambda>_. [])\<rparr>"

definition vhash :: "int \<Rightarrow> int \<Rightarrow> int \<Rightarrow> nat" where
  "vhash code v0 v1 =
     unat ((of_int code XOR push_bit 4 (of_int v0) XOR push_bit 8 (of_int v1)) :: u32) mod MODULUS"

definition is_imm :: "int \<Rightarrow> bool" where
  "is_imm code \<longleftrightarrow> BPF_MODE code = BPF_IMM \<and> (BPF_CLASS code = BPF_LD \<or> BPF_CLASS code = BPF_LDX)"

definition F :: "int \<Rightarrow> int \<Rightarrow> int \<Rightarrow> vals \<Rightarrow> nat \<times> vals" where
  "F code v0 v1 st =
     (let hash = vhash code v0 v1 in
      case find (\<lambda>p. v_code p = code \<and> v_v0 p = v0 \<and> v_v1 p = v1) (hashtbl st hash) of
        Some p \<Rightarrow> (v_val p, st)
      | None \<Rightarrow>
          (let val = curval st + 1;
               p = \<lparr>v_code = code, v_v0 = v0, v_v1 = v1, v_val = val\<rparr>
           in (val, st\<lparr>curval := val,
                       vmap := (if is_imm code then (vmap st)(val := Some (of_int v0)) else vmap st),
                       hashtbl := (hashtbl st)(hash := p # hashtbl st hash)\<rparr>)))"

text \<open>The macro \<open>K(i)\<close>: the number of an integer constant.\<close>

definition K_val :: "u32 \<Rightarrow> vals \<Rightarrow> nat \<times> vals" where
  "K_val i = F (BPF_LD OR BPF_IMM OR BPF_W) (sint i) 0"

definition const_val :: "vals \<Rightarrow> nat \<Rightarrow> u32" where
  "const_val st v = (case vmap st v of Some c \<Rightarrow> c | None \<Rightarrow> 0)"

definition is_const :: "vals \<Rightarrow> nat \<Rightarrow> bool" where
  "is_const st v \<longleftrightarrow> vmap st v \<noteq> None"

definition vstore :: "stmt \<Rightarrow> nat \<Rightarrow> nat \<Rightarrow> bool \<Rightarrow> nat list \<Rightarrow> stmt \<times> nat list" where
  "vstore s a newval alter val =
     (if alter \<and> val ! a = newval then (s\<lparr>s_code := NOP\<rparr>, val) else (s, val[a := newval]))"

section \<open>The statement optimizer\<close>

datatype opt_error =
  DivisionByZero   \<comment> \<open>\<open>bpf_error("division by zero")\<close>\<close>
| UndefinedShift   \<comment> \<open>a constant shift by 32 or more: undefined in C\<close>
| OptAbort         \<comment> \<open>\<open>abort()\<close>\<close>

type_synonym opt_result = "opt_error + stmt \<times> nat list \<times> vals"

definition fold_op :: "stmt \<Rightarrow> nat \<Rightarrow> nat \<Rightarrow> vals \<Rightarrow> opt_error + stmt \<times> vals" where
  "fold_op s v0 v1 st =
     (let a = const_val st v0; b = const_val st v1; opr = BPF_OP (s_code s);
          fin = (\<lambda>c. Inr (s\<lparr>s_k := c, s_code := BPF_LD OR BPF_IMM\<rparr>, st\<lparr>o_done := False\<rparr>))
      in if opr = BPF_ADD then fin (a + b)
         else if opr = BPF_SUB then fin (a - b)
         else if opr = BPF_MUL then fin (a * b)
         else if opr = BPF_DIV then (if b = 0 then Inl DivisionByZero else fin (a div b))
         else if opr = BPF_AND then fin (a AND b)
         else if opr = BPF_OR then fin (a OR b)
         else if opr = BPF_LSH then
           (if b < 32 then fin (push_bit (unat b) a) else Inl UndefinedShift)
         else if opr = BPF_RSH then
           (if b < 32 then fin (drop_bit (unat b) a) else Inl UndefinedShift)
         else if opr = BPF_NEG then fin (- a)
         else Inl OptAbort)"

text \<open>The \<open>BPF_K\<close> arithmetic cases of the switch.\<close>

definition opt_alu_k :: "alu_op \<Rightarrow> stmt \<Rightarrow> nat list \<Rightarrow> bool \<Rightarrow> vals \<Rightarrow> opt_result" where
  "opt_alu_k opr s val alter st =
     (if alter \<and> s_k s = 0 \<and> opr \<in> {AAdd, ALsh, ARsh, AOr} then
        Inr (s\<lparr>s_code := NOP\<rparr>, val, st)
      else if alter \<and> s_k s = 0 \<and> opr \<in> {AMul, AAnd} then
        (let (v, st1) = K_val (s_k s) st
         in Inr (s\<lparr>s_code := BPF_LD OR BPF_IMM\<rparr>, val[16 := v], st1))
      else if alter \<and> is_const st (val ! 16) then
        (let (vk, st1) = K_val (s_k s) st in
         case fold_op s (val ! 16) vk st1 of
           Inl e \<Rightarrow> Inl e
         | Inr (s', st2) \<Rightarrow>
             (let (v, st3) = K_val (s_k s') st2 in Inr (s', val[16 := v], st3)))
      else
        (let (vk, st1) = K_val (s_k s) st;
             (v, st2) = F (s_code s) (int (val ! 16)) (int vk) st1
         in Inr (s, val[16 := v], st2)))"

text \<open>The \<open>BPF_X\<close> arithmetic cases.\<close>

definition opt_alu_x :: "alu_op \<Rightarrow> stmt \<Rightarrow> nat list \<Rightarrow> bool \<Rightarrow> vals \<Rightarrow> opt_result" where
  "opt_alu_x opr s val alter st =
     (if alter \<and> is_const st (val ! 17) then
        (if is_const st (val ! 16) then
           (case fold_op s (val ! 16) (val ! 17) st of
              Inl e \<Rightarrow> Inl e
            | Inr (s', st1) \<Rightarrow>
                (let (v, st2) = K_val (s_k s') st1 in Inr (s', val[16 := v], st2)))
         else
           (let s' = s\<lparr>s_code := BPF_ALU OR BPF_K OR alu_bits opr, s_k := const_val st (val ! 17)\<rparr>;
                (vk, st1) = K_val (s_k s') (st\<lparr>o_done := False\<rparr>);
                (v, st2) = F (s_code s') (int (val ! 16)) (int vk) st1
            in Inr (s', val[16 := v], st2)))
      else if alter \<and> is_const st (val ! 16) \<and> const_val st (val ! 16) = 0 \<and>
              opr \<in> {AAdd, AOr} then
        (let (s', val') = vstore (s\<lparr>s_code := BPF_MISC OR BPF_TXA\<rparr>) 16 (val ! 17) alter val
         in Inr (s', val', st))
      else if alter \<and> is_const st (val ! 16) \<and> const_val st (val ! 16) = 0 \<and>
              opr \<in> {AMul, ADiv, AAnd, ALsh, ARsh} then
        (let s1 = s\<lparr>s_code := BPF_LD OR BPF_IMM, s_k := 0\<rparr>;
             (vk, st1) = K_val (s_k s1) st;
             (s', val') = vstore s1 16 vk alter val
         in Inr (s', val', st1))
      else
        (let (v, st1) = F (s_code s) (int (val ! 16)) (int (val ! 17)) st
         in Inr (s, val[16 := v], st1)))"

text \<open>The loads, moves and stores.\<close>

fun opt_data :: "bpf_op \<Rightarrow> stmt \<Rightarrow> nat list \<Rightarrow> bool \<Rightarrow> vals \<Rightarrow> opt_result" where
  "opt_data (LdAbs sz) s val alter st =
     (let (v, st1) = F (s_code s) (sint (s_k s)) 0 st; (s', val') = vstore s 16 v alter val
      in Inr (s', val', st1))"
| "opt_data (LdInd sz) s val alter st =
     (let v = val ! 17 in
      if alter \<and> is_const st v then
        (let s1 = s\<lparr>s_code := BPF_LD OR BPF_ABS OR BPF_SIZE (s_code s),
                    s_k := s_k s + const_val st v\<rparr>;
             (v', st1) = F (s_code s1) (sint (s_k s1)) 0 st;
             (s', val') = vstore s1 16 v' alter val
         in Inr (s', val', st1\<lparr>o_done := False\<rparr>))
      else
        (let (v', st1) = F (s_code s) (sint (s_k s)) (int v) st;
             (s', val') = vstore s 16 v' alter val
         in Inr (s', val', st1)))"
| "opt_data LdLen s val alter st =
     (let (v, st1) = F (s_code s) 0 0 st; (s', val') = vstore s 16 v alter val
      in Inr (s', val', st1))"
| "opt_data LdImm s val alter st =
     (let (v, st1) = K_val (s_k s) st; (s', val') = vstore s 16 v alter val
      in Inr (s', val', st1))"
| "opt_data LdxImm s val alter st =
     (let (v, st1) = K_val (s_k s) st; (s', val') = vstore s 17 v alter val
      in Inr (s', val', st1))"
| "opt_data LdxMsh s val alter st =
     (let (v, st1) = F (s_code s) (sint (s_k s)) 0 st; (s', val') = vstore s 17 v alter val
      in Inr (s', val', st1))"
| "opt_data AluNeg s val alter st =
     (if alter \<and> is_const st (val ! 16) then
        (let s' = s\<lparr>s_code := BPF_LD OR BPF_IMM, s_k := - const_val st (val ! 16)\<rparr>;
             (v, st1) = K_val (s_k s') st
         in Inr (s', val[16 := v], st1))
      else
        (let (v, st1) = F (s_code s) (int (val ! 16)) 0 st in Inr (s, val[16 := v], st1)))"
| "opt_data Txa s val alter st =
     (let (s', val') = vstore s 16 (val ! 17) alter val in Inr (s', val', st))"
| "opt_data LdMem s val alter st =
     (let v = val ! unat (s_k s);
          (s1, st1) = (if alter \<and> is_const st v
                       then (s\<lparr>s_code := BPF_LD OR BPF_IMM, s_k := const_val st v\<rparr>,
                             st\<lparr>o_done := False\<rparr>)
                       else (s, st));
          (s', val') = vstore s1 16 v alter val
      in Inr (s', val', st1))"
| "opt_data Tax s val alter st =
     (let (s', val') = vstore s 17 (val ! 16) alter val in Inr (s', val', st))"
| "opt_data LdxMem s val alter st =
     (let v = val ! unat (s_k s);
          (s1, st1) = (if alter \<and> is_const st v
                       then (s\<lparr>s_code := BPF_LDX OR BPF_IMM, s_k := const_val st v\<rparr>,
                             st\<lparr>o_done := False\<rparr>)
                       else (s, st));
          (s', val') = vstore s1 17 v alter val
      in Inr (s', val', st1))"
| "opt_data St s val alter st =
     (let (s', val') = vstore s (unat (s_k s)) (val ! 16) alter val in Inr (s', val', st))"
| "opt_data Stx s val alter st =
     (let (s', val') = vstore s (unat (s_k s)) (val ! 17) alter val in Inr (s', val', st))"
| "opt_data _ s val alter st = Inr (s, val, st)"

text \<open>\<open>switch (s->code)\<close>; a code without a case (a no-op, a jump, \<open>ldx len\<close>) is left alone.\<close>

definition opt_stmt :: "stmt \<Rightarrow> nat list \<Rightarrow> bool \<Rightarrow> vals \<Rightarrow> opt_result" where
  "opt_stmt s val alter st =
     (case decode (s_code s) of
        None \<Rightarrow> Inr (s, val, st)
      | Some (Alu opr SrcK) \<Rightarrow> opt_alu_k opr s val alter st
      | Some (Alu opr SrcX) \<Rightarrow> opt_alu_x opr s val alter st
      | Some i \<Rightarrow> opt_data i s val alter st)"

text \<open>The loop of \<open>opt_blk\<close> over the statements of a block.\<close>

fun opt_stmts :: "stmt list \<Rightarrow> nat list \<Rightarrow> bool \<Rightarrow> vals \<Rightarrow> opt_error + stmt list \<times> nat list \<times> vals" where
  "opt_stmts [] val alter st = Inr ([], val, st)"
| "opt_stmts (s # ss) val alter st =
     (case opt_stmt s val alter st of
        Inl e \<Rightarrow> Inl e
      | Inr (s', val1, st1) \<Rightarrow>
          (case opt_stmts ss val1 alter st1 of
             Inl e \<Rightarrow> Inl e
           | Inr (ss', val2, st2) \<Rightarrow> Inr (s' # ss', val2, st2)))"

section \<open>What a value number means\<close>

text \<open>
  An interpretation \<open>\<rho>\<close> gives every number a value. A node is right about \<open>\<rho>\<close> if its own
  number has the value its code and operands compute, whenever they compute one.
\<close>

fun op_meaning :: "packet \<Rightarrow> (nat \<Rightarrow> u32) \<Rightarrow> bpf_op \<Rightarrow> int \<Rightarrow> int \<Rightarrow> u32 outcome" where
  "op_meaning pk \<rho> LdImm v0 v1 = Next (of_int v0)"
| "op_meaning pk \<rho> (LdAbs sz) v0 v1 = fetch pk sz (of_int v0)"
| "op_meaning pk \<rho> (LdInd sz) v0 v1 = fetch pk sz (\<rho> (nat v1) + of_int v0)"
| "op_meaning pk \<rho> LdLen v0 v1 = Next (pk_wirelen pk)"
| "op_meaning pk \<rho> LdxMsh v0 v1 =
     and_then (fetch pk SzB (of_int v0)) (\<lambda>x. Next (push_bit 2 (x AND 0xf)))"
| "op_meaning pk \<rho> (Alu a _) v0 v1 = alu_val a (\<rho> (nat v0)) (\<rho> (nat v1))"
| "op_meaning pk \<rho> AluNeg v0 v1 = Next (- \<rho> (nat v0))"
| "op_meaning pk \<rho> _ v0 v1 = Abort"

text \<open>The operands that are value numbers have been given out already.\<close>

fun op_refs :: "bpf_op \<Rightarrow> int \<Rightarrow> int \<Rightarrow> nat \<Rightarrow> bool" where
  "op_refs (LdInd sz) v0 v1 n \<longleftrightarrow> nat v1 \<le> n"
| "op_refs (Alu a x) v0 v1 n \<longleftrightarrow> nat v0 \<le> n \<and> nat v1 \<le> n"
| "op_refs AluNeg v0 v1 n \<longleftrightarrow> nat v0 \<le> n"
| "op_refs _ v0 v1 n \<longleftrightarrow> True"

definition node_ok :: "packet \<Rightarrow> (nat \<Rightarrow> u32) \<Rightarrow> nat \<Rightarrow> valnode \<Rightarrow> bool" where
  "node_ok pk \<rho> n p \<longleftrightarrow> v_val p \<le> n \<and>
     (\<forall>i. decode (v_code p) = Some i \<longrightarrow>
        op_refs i (v_v0 p) (v_v1 p) n \<and>
        (\<forall>x. op_meaning pk \<rho> i (v_v0 p) (v_v1 p) = Next x \<longrightarrow> \<rho> (v_val p) = x))"

definition table_ok :: "packet \<Rightarrow> (nat \<Rightarrow> u32) \<Rightarrow> vals \<Rightarrow> bool" where
  "table_ok pk \<rho> st \<longleftrightarrow>
     (\<forall>h. \<forall>p \<in> set (hashtbl st h). node_ok pk \<rho> (curval st) p) \<and>
     (\<forall>h. \<forall>p \<in> set (hashtbl st h). is_imm (v_code p) \<longrightarrow> vmap st (v_val p) = Some (of_int (v_v0 p))) \<and>
     (\<forall>v c. vmap st v = Some c \<longrightarrow> v \<le> curval st \<and> \<rho> v = c)"

text \<open>The numbers of the registers are honest: each register holds the value of its number.\<close>

definition regs_ok :: "(nat \<Rightarrow> u32) \<Rightarrow> nat \<Rightarrow> nat list \<Rightarrow> regs \<Rightarrow> bool" where
  "regs_ok \<rho> n val r \<longleftrightarrow>
     length (rM r) = BPF_MEMWORDS \<and> length val = N_ATOMS \<and>
     (\<forall>a < N_ATOMS. val ! a \<le> n \<and> atom_val r a = \<rho> (val ! a))"

lemma op_meaning_cong:
  "op_refs i v0 v1 n \<Longrightarrow> \<forall>v \<le> n. \<rho>' v = \<rho> v \<Longrightarrow> op_meaning pk \<rho>' i v0 v1 = op_meaning pk \<rho> i v0 v1"
  by (cases i) auto

lemma op_refs_mono: "op_refs i v0 v1 n \<Longrightarrow> n \<le> m \<Longrightarrow> op_refs i v0 v1 m"
  by (cases i) auto

lemma node_ok_cong:
  assumes "node_ok pk \<rho> n p" and "\<forall>v \<le> n. \<rho>' v = \<rho> v" and "n \<le> m"
  shows "node_ok pk \<rho>' m p"
  using assms op_meaning_cong [of _ "v_v0 p" "v_v1 p" n \<rho>' \<rho> pk] op_refs_mono [of _ "v_v0 p" "v_v1 p" n m]
  by (auto simp: node_ok_def)

section \<open>The value table\<close>

abbreviation (input) ext :: "(nat \<Rightarrow> u32) \<Rightarrow> nat \<Rightarrow> (nat \<Rightarrow> u32) \<Rightarrow> bool" where
  "ext \<rho> n \<rho>' \<equiv> \<forall>u \<le> n. \<rho>' u = \<rho> u"

lemma table_ok_done [simp]: "table_ok pk \<rho> (st\<lparr>o_done := b\<rparr>) = table_ok pk \<rho> st"
  by (simp add: table_ok_def)

lemma is_const_done [simp]:
  "is_const (st\<lparr>o_done := b\<rparr>) v = is_const st v" "const_val (st\<lparr>o_done := b\<rparr>) v = const_val st v"
  by (simp_all add: is_const_def const_val_def)

lemma const_val_sound: "table_ok pk \<rho> st \<Longrightarrow> is_const st v \<Longrightarrow> const_val st v = \<rho> v"
  by (auto simp: table_ok_def is_const_def const_val_def)

lemma is_imm_opcode: "decode c = Some i \<Longrightarrow> is_imm c \<longleftrightarrow> i = LdImm \<or> i = LdxImm"
proof -
  assume "decode c = Some i"
  then have c: "c = opcode i" by (simp add: decode_Some_iff)
  have "list_all (\<lambda>j. is_imm (opcode j) \<longleftrightarrow> j = LdImm \<or> j = LdxImm) all_ops"
    by (simp add: all_ops_def is_imm_def bpf_fields)
  then show ?thesis using all_ops_complete [of i] c by (simp add: list_all_iff)
qed

lemma F_sound:
  assumes t: "table_ok pk \<rho> st" and d: "decode code = Some i" and i: "i \<noteq> LdxImm"
    and refs: "op_refs i v0 v1 (curval st)" and m: "op_meaning pk \<rho> i v0 v1 = Next x"
    and F: "F code v0 v1 st = (v, st')"
  shows "\<exists>\<rho>'. ext \<rho> (curval st) \<rho>' \<and> table_ok pk \<rho>' st' \<and> \<rho>' v = x \<and> v \<le> curval st' \<and>
              curval st \<le> curval st' \<and> curval st' \<le> curval st + 1"
proof (cases "find (\<lambda>p. v_code p = code \<and> v_v0 p = v0 \<and> v_v1 p = v1) (hashtbl st (vhash code v0 v1))")
  case (Some p)
  then have p: "p \<in> set (hashtbl st (vhash code v0 v1))" "v_code p = code" "v_v0 p = v0" "v_v1 p = v1"
    by (auto simp: find_Some_iff)
  have r: "v = v_val p" "st' = st" using F Some by (simp_all add: F_def Let_def)
  have "node_ok pk \<rho> (curval st) p" using t p(1) by (auto simp: table_ok_def)
  then have "v \<le> curval st" and "\<rho> v = x" using p d m r by (auto simp: node_ok_def)
  then show ?thesis using t r by auto
next
  case None
  let ?n = "curval st + 1"
  let ?p = "\<lparr>v_code = code, v_v0 = v0, v_v1 = v1, v_val = ?n\<rparr>"
  let ?\<rho> = "\<rho>(?n := x)"
  have v: "v = ?n" and st': "curval st' = ?n"
    "vmap st' = (if is_imm code then (vmap st)(?n := Some (of_int v0)) else vmap st)"
    "hashtbl st' = (hashtbl st)(vhash code v0 v1 := ?p # hashtbl st (vhash code v0 v1))"
    using F None by (auto simp: F_def Let_def)
  have e: "ext \<rho> (curval st) ?\<rho>" by simp
  have "op_meaning pk ?\<rho> i v0 v1 = Next x" by (rule trans [OF op_meaning_cong [OF refs e] m])
  moreover have "?\<rho> ?n = x" by simp
  ultimately have "node_ok pk ?\<rho> ?n ?p"
    using d op_refs_mono [OF refs, of ?n] by (simp add: node_ok_def del: fun_upd_apply)
  moreover have "node_ok pk ?\<rho> ?n q" if "q \<in> set (hashtbl st h)" for q h
    by (rule node_ok_cong [OF _ e]) (use that t in \<open>auto simp: table_ok_def\<close>)
  moreover have "?\<rho> u = c \<and> u \<le> ?n" if "vmap st' u = Some c" for u c
  proof (cases "u = ?n \<and> is_imm code")
    case True
    then have "i = LdImm" using is_imm_opcode [OF d] i by auto
    then show ?thesis using True that st'(2) m by auto
  next
    case False
    then have "vmap st u = Some c" using that st'(2) by (auto split: if_splits)
    then have "u \<le> curval st" "\<rho> u = c" using t by (auto simp: table_ok_def)
    then show ?thesis by auto
  qed
  moreover have "vmap st' (v_val q) = Some (of_int (v_v0 q))"
    if "q \<in> set (hashtbl st' h)" and "is_imm (v_code q)" for q h
  proof (cases "q = ?p")
    case True
    then show ?thesis using that(2) st'(2) by simp
  next
    case False
    then have q: "q \<in> set (hashtbl st h)" using that(1) st'(3) by (auto split: if_splits)
    then have "v_val q \<noteq> ?n" using t by (force simp: table_ok_def node_ok_def)
    then show ?thesis using q t that(2) st'(2) by (auto simp: table_ok_def)
  qed
  ultimately have "table_ok pk ?\<rho> st'"
    unfolding table_ok_def st'(1) by (auto simp del: fun_upd_apply simp: st'(3) fun_upd_def [of "hashtbl st"] split: if_splits)
  then show ?thesis using v st'(1) e by (intro exI [of _ ?\<rho>]) auto
qed

lemma F_vmap:
  assumes "F code v0 v1 st = (v, st')" and "u \<le> curval st"
  shows "vmap st' u = vmap st u"
  using assms by (auto simp: F_def Let_def split: option.splits)

lemma F_imm:
  assumes "table_ok pk \<rho> st" and "F code v0 v1 st = (v, st')" and "is_imm code"
  shows "vmap st' v = Some (of_int v0)"
proof (cases "find (\<lambda>p. v_code p = code \<and> v_v0 p = v0 \<and> v_v1 p = v1) (hashtbl st (vhash code v0 v1))")
  case None
  then show ?thesis using assms(2,3) by (auto simp: F_def Let_def)
next
  case (Some p)
  then show ?thesis using assms find_SomeD [OF Some] by (auto simp: F_def Let_def table_ok_def)
qed

lemma K_val_sound:
  assumes "table_ok pk \<rho> st" and "K_val c st = (v, st')"
  shows "\<exists>\<rho>'. ext \<rho> (curval st) \<rho>' \<and> table_ok pk \<rho>' st' \<and> \<rho>' v = c \<and> v \<le> curval st' \<and>
              curval st \<le> curval st' \<and> curval st' \<le> curval st + 1"
    and "is_const st' v" and "const_val st' v = c"
proof -
  have d: "decode (BPF_LD OR BPF_IMM OR BPF_W) = Some LdImm" by (simp add: bpf_exec)
  from F_sound [OF assms(1) d, of "sint c" 0 c v st'] assms(2)
  show "\<exists>\<rho>'. ext \<rho> (curval st) \<rho>' \<and> table_ok pk \<rho>' st' \<and> \<rho>' v = c \<and> v \<le> curval st' \<and>
              curval st \<le> curval st' \<and> curval st' \<le> curval st + 1"
    by (simp add: K_val_def)
  have "vmap st' v = Some (of_int (sint c))"
    by (rule F_imm [OF assms(1) assms(2) [unfolded K_val_def]]) (simp add: is_imm_def bpf_fields)
  then show "is_const st' v" and "const_val st' v = c" by (simp_all add: is_const_def const_val_def)
qed

section \<open>Registers\<close>

definition set_atom :: "regs \<Rightarrow> nat \<Rightarrow> u32 \<Rightarrow> regs" where
  "set_atom r a x =
     (if a < BPF_MEMWORDS then r\<lparr>rM := (rM r)[a := x]\<rparr>
      else if a = 16 then r\<lparr>rA := x\<rparr> else r\<lparr>rX := x\<rparr>)"

lemma set_atom_simps [simp]:
  "set_atom r 16 x = r\<lparr>rA := x\<rparr>" "set_atom r 17 x = r\<lparr>rX := x\<rparr>"
  "a < BPF_MEMWORDS \<Longrightarrow> set_atom r a x = r\<lparr>rM := (rM r)[a := x]\<rparr>"
  by (simp_all add: set_atom_def)

lemma atom_val_set:
  "length (rM r) = BPF_MEMWORDS \<Longrightarrow> a < N_ATOMS \<Longrightarrow> b < N_ATOMS \<Longrightarrow>
   atom_val (set_atom r a x) b = (if b = a then x else atom_val r b)"
  by (auto simp: set_atom_def atom_val_def)

lemma regs_ok_ext: "regs_ok \<rho> n val r \<Longrightarrow> ext \<rho> n \<rho>' \<Longrightarrow> n \<le> m \<Longrightarrow> regs_ok \<rho>' m val r"
  by (auto simp: regs_ok_def intro: order_trans)

lemma regs_ok_set:
  assumes "regs_ok \<rho> n val r" and "a < N_ATOMS" and "\<rho> v = x" and "v \<le> n"
  shows "regs_ok \<rho> n (val[a := v]) (set_atom r a x)"
proof -
  have "length (rM (set_atom r a x)) = BPF_MEMWORDS" using assms(1) by (simp add: regs_ok_def set_atom_def)
  then show ?thesis using assms by (auto simp: regs_ok_def atom_val_set nth_list_update)
qed

lemma set_atom_same:
  assumes "length (rM r) = BPF_MEMWORDS" and "a < N_ATOMS" and "atom_val r a = x"
  shows "set_atom r a x = r"
proof (cases "a < BPF_MEMWORDS")
  case True
  then show ?thesis using assms by (auto simp: list_update_id)
next
  case False
  then have "a = 16 \<or> a = 17" using assms(2) by auto
  then show ?thesis using assms(3) by auto
qed

lemma regs_ok_get: "regs_ok \<rho> n val r \<Longrightarrow> a < N_ATOMS \<Longrightarrow> atom_val r a = \<rho> (val ! a) \<and> val ! a \<le> n"
  by (simp add: regs_ok_def)

lemma vstore_sound:
  assumes "regs_ok \<rho> n val r" and "a < N_ATOMS" and "\<rho> v = x" and "v \<le> n"
    and "vstore s a v alter val = (s', val')"
  shows "regs_ok \<rho> n val' (set_atom r a x)"
    and "s' = s \<or> s_code s' = NOP \<and> set_atom r a x = r"
proof -
  show "regs_ok \<rho> n val' (set_atom r a x)"
    using regs_ok_set [OF assms(1-4)] assms(1,2,5)
    by (auto simp: vstore_def regs_ok_def split: if_splits)
  show "s' = s \<or> s_code s' = NOP \<and> set_atom r a x = r"
    using assms set_atom_same [of r a x] regs_ok_get [OF assms(1,2)]
    by (auto simp: vstore_def regs_ok_def split: if_splits)
qed

section \<open>One statement\<close>

text \<open>The simulation: the rewritten statement does the same, and the numbers stay honest.\<close>

definition sim :: "packet \<Rightarrow> (nat \<Rightarrow> u32) \<Rightarrow> vals \<Rightarrow> regs \<Rightarrow> regs \<Rightarrow> stmt \<times> nat list \<times> vals \<Rightarrow> bool" where
  "sim pk \<rho> st r r' = (\<lambda>(s', val', st').
     exec_stmt pk s' r = Next r' \<and> wf_stmt s' \<and> curval st' \<le> curval st + 2 \<and>
     (\<exists>\<rho>'. ext \<rho> (curval st) \<rho>' \<and> table_ok pk \<rho>' st' \<and> regs_ok \<rho>' (curval st') val' r' \<and>
            curval st \<le> curval st'))"

lemma wf_stmtI:
  "s_code s = opcode i \<Longrightarrow> \<not> is_ctl i \<Longrightarrow> (uses_mem i \<Longrightarrow> unat (s_k s) < BPF_MEMWORDS) \<Longrightarrow> wf_stmt s"
  by (simp add: wf_stmt_def)

lemma wf_nop: "s_code s = NOP \<Longrightarrow> wf_stmt s"
  by (simp add: wf_stmt_def)

text \<open>Every case ends by storing a number \<open>v\<close> for the value \<open>x\<close> of the register \<open>a\<close>.\<close>

lemma sim_store:
  assumes e: "ext \<rho> (curval st) \<rho>'" and t: "table_ok pk \<rho>' st'" and v: "\<rho>' v = x" "v \<le> curval st'"
    and n: "curval st \<le> curval st'" "curval st' \<le> curval st + 2"
    and r: "regs_ok \<rho> (curval st) val r" and a: "a < N_ATOMS"
    and ex: "exec_stmt pk s r = Next (set_atom r a x)" and wf: "wf_stmt s"
    and vs: "vstore s a v alter val = (s', val')"
  shows "sim pk \<rho> st r (set_atom r a x) (s', val', st')"
proof -
  have r': "regs_ok \<rho>' (curval st') val r" by (rule regs_ok_ext [OF r e n(1)])
  note vs' = vstore_sound [OF r' a v vs]
  from vs'(2) have "exec_stmt pk s' r = Next (set_atom r a x) \<and> wf_stmt s'"
    using ex wf by (auto simp: exec_stmt_def wf_nop)
  then show ?thesis using e t n vs'(1) by (auto simp: sim_def)
qed

lemma vstore_noalter: "vstore s a v False val = (s, val[a := v])"
  by (simp add: vstore_def)

lemmas sim_put = sim_store [OF _ _ _ _ _ _ _ _ _ _ vstore_noalter]

text \<open>The result is one fresh or found number, stored by \<open>vstore\<close>.\<close>

lemma sim_F:
  assumes t: "table_ok pk \<rho> st" and r: "regs_ok \<rho> (curval st) val r"
    and d: "decode code = Some i" "i \<noteq> LdxImm" and refs: "op_refs i v0 v1 (curval st)"
    and m: "op_meaning pk \<rho> i v0 v1 = Next x" and F: "F code v0 v1 st = (v, st')"
    and a: "a < N_ATOMS" and ex: "exec_stmt pk s r = Next (set_atom r a x)" and wf: "wf_stmt s"
    and vs: "vstore s a v alter val = (s', val')"
  shows "sim pk \<rho> st r (set_atom r a x) (s', val', st'\<lparr>o_done := b\<rparr>)"
    and "sim pk \<rho> st r (set_atom r a x) (s', val', st')"
proof -
  obtain \<rho>' where "ext \<rho> (curval st) \<rho>'" "table_ok pk \<rho>' st'" "\<rho>' v = x" "v \<le> curval st'"
    "curval st \<le> curval st'" "curval st' \<le> curval st + 1"
    using F_sound [OF t d refs m F] by blast
  note h = this
  show "sim pk \<rho> st r (set_atom r a x) (s', val', st'\<lparr>o_done := b\<rparr>)"
    using sim_store [OF h(1) _ h(3) _ _ _ r a ex wf vs, of "st'\<lparr>o_done := b\<rparr>"] h by simp
  show "sim pk \<rho> st r (set_atom r a x) (s', val', st')"
    using sim_store [OF h(1) _ h(3) _ _ _ r a ex wf vs, of st'] h by simp
qed

lemma sim_K:
  assumes t: "table_ok pk \<rho> st" and r: "regs_ok \<rho> (curval st) val r"
    and F: "K_val c st = (v, st')" and a: "a < N_ATOMS"
    and ex: "exec_stmt pk s r = Next (set_atom r a c)" and wf: "wf_stmt s"
    and vs: "vstore s a v alter val = (s', val')"
  shows "sim pk \<rho> st r (set_atom r a c) (s', val', st')"
proof -
  have "decode (BPF_LD OR BPF_IMM OR BPF_W) = Some LdImm" by (simp add: bpf_exec)
  from sim_F(2) [OF t r this _ _ _ F [unfolded K_val_def] a ex wf vs] show ?thesis by simp
qed

text \<open>The result is the number another register already has.\<close>

lemma sim_copy:
  assumes t: "table_ok pk \<rho> st" and r: "regs_ok \<rho> (curval st) val r" and a: "a < N_ATOMS"
    and b: "b < N_ATOMS" "atom_val r b = x"
    and ex: "exec_stmt pk s r = Next (set_atom r a x)" and wf: "wf_stmt s"
    and vs: "vstore s a (val ! b) alter val = (s', val')"
  shows "sim pk \<rho> st r (set_atom r a x) (s', val', st\<lparr>o_done := dn\<rparr>)"
    and "sim pk \<rho> st r (set_atom r a x) (s', val', st)"
  using sim_store [OF _ _ _ _ _ _ r a ex wf vs, of \<rho> "st\<lparr>o_done := dn\<rparr>"]
    sim_store [OF _ _ _ _ _ _ r a ex wf vs, of \<rho> st] regs_ok_get [OF r b(1)] b(2) t
  by auto

lemma exec_imm:
  "exec_stmt pk (s\<lparr>s_code := 0, s_k := c\<rparr>) r = Next (set_atom r 16 c)"
  "exec_stmt pk (s\<lparr>s_code := 1, s_k := c\<rparr>) r = Next (set_atom r 17 c)"
  "exec_stmt pk (s\<lparr>s_k := c, s_code := 0\<rparr>) r = Next (set_atom r 16 c)"
  by (simp_all add: exec_stmt_def decode_def all_ops_def)

lemma wf_imm:
  "wf_stmt (s\<lparr>s_code := 0, s_k := c\<rparr>)" "wf_stmt (s\<lparr>s_code := 1, s_k := c\<rparr>)"
  "wf_stmt (s\<lparr>s_k := c, s_code := 0\<rparr>)"
  by (simp_all add: wf_stmt_def decode_def all_ops_def)

lemma opt_load_sound:
  assumes t: "table_ok pk \<rho> st" and r: "regs_ok \<rho> (curval st) val r"
    and c: "s_code s = opcode i" and i: "i = LdAbs sz \<or> i = LdLen \<or> i = LdxMsh \<or> i = LdImm \<or> i = LdxImm"
    and ex: "exec_stmt pk s r = Next r'" and o: "opt_data i s val alter st = Inr out"
  shows "sim pk \<rho> st r r' out"
proof -
  have ctl: "\<not> is_ctl i" "\<not> uses_mem i" using i by auto
  have wf: "wf_stmt s" using wf_stmtI [OF c ctl(1)] ctl(2) by simp
  have d: "decode (s_code s) = Some i" unfolding c by (rule decode_opcode)
  have ex': "exec_op pk i (s_k s) r = Next r'" using ex exec_stmt_op [OF c ctl(1)] by simp
  from i consider "i = LdAbs sz" | "i = LdLen" | "i = LdxMsh" | "i = LdImm" | "i = LdxImm" by blast
  then show ?thesis
  proof cases
    case 1
    then obtain x where f: "fetch pk sz (s_k s) = Next x" and r': "r' = set_atom r 16 x"
      using ex' by (auto simp: and_then_Next)
    then show ?thesis using sim_F(2) [OF t r d, of "sint (s_k s)" 0 x _ _ 16 s] 1 o ex wf
      by (auto simp: Let_def split: prod.splits)
  next
    case 2
    then show ?thesis using sim_F(2) [OF t r d, of 0 0 "pk_wirelen pk" _ _ 16 s] o ex wf ex'
      by (auto simp: Let_def split: prod.splits)
  next
    case 3
    then obtain x where f: "fetch pk SzB (s_k s) = Next x"
      and r': "r' = set_atom r 17 (push_bit 2 (x AND 0xf))"
      using ex' by (auto simp: and_then_Next)
    then show ?thesis
      using sim_F(2) [OF t r d, of "sint (s_k s)" 0 "push_bit 2 (x AND 0xf)" _ _ 17 s] 3 o ex wf
      by (auto simp: Let_def split: prod.splits)
  next
    case 4
    then show ?thesis using sim_K [OF t r, of "s_k s" _ _ 16 s] o ex wf ex'
      by (auto simp: Let_def split: prod.splits)
  next
    case 5
    then show ?thesis using sim_K [OF t r, of "s_k s" _ _ 17 s] o ex wf ex'
      by (auto simp: Let_def split: prod.splits)
  qed
qed

lemma size_of_ind: "s_code s = opcode (LdInd sz) \<Longrightarrow>
    BPF_LD OR BPF_ABS OR BPF_SIZE (s_code s) = opcode (LdAbs sz)"
  by (cases sz) (simp_all add: bpf_fields)

lemma opt_ind_sound:
  assumes t: "table_ok pk \<rho> st" and r: "regs_ok \<rho> (curval st) val r"
    and c: "s_code s = opcode (LdInd sz)"
    and ex: "exec_stmt pk s r = Next r'" and o: "opt_data (LdInd sz) s val alter st = Inr out"
  shows "sim pk \<rho> st r r' out"
proof -
  have wf: "wf_stmt s" by (rule wf_stmtI [OF c]) simp_all
  have d: "decode (s_code s) = Some (LdInd sz)" unfolding c by (rule decode_opcode)
  have X: "rX r = \<rho> (val ! 17)" "val ! 17 \<le> curval st" using regs_ok_get [OF r, of 17] by simp_all
  have "exec_op pk (LdInd sz) (s_k s) r = Next r'" using ex exec_stmt_op [OF c] by simp
  then obtain x where f: "fetch pk sz (rX r + s_k s) = Next x" and r': "r' = set_atom r 16 x"
    by (auto simp: and_then_Next)
  show ?thesis
  proof (cases "alter \<and> is_const st (val ! 17)")
    case True
    let ?s = "s\<lparr>s_code := BPF_LD OR BPF_ABS OR BPF_SIZE (s_code s), s_k := s_k s + const_val st (val ! 17)\<rparr>"
    have c1: "s_code ?s = opcode (LdAbs sz)" using size_of_ind [OF c] by simp
    have k1: "s_k ?s = rX r + s_k s" using True const_val_sound [OF t] X by simp
    have d1: "decode (s_code ?s) = Some (LdAbs sz)" unfolding c1 by (rule decode_opcode)
    have ex1: "exec_stmt pk ?s r = Next (set_atom r 16 x)"
      using exec_stmt_op [OF c1] f unfolding k1 by simp
    have wf1: "wf_stmt ?s" by (rule wf_stmtI [OF c1]) simp_all
    obtain v st1 where F: "F (s_code ?s) (sint (s_k ?s)) 0 st = (v, st1)" by fastforce
    obtain s' val' where vs: "vstore ?s 16 v alter val = (s', val')" by fastforce
    have out: "out = (s', val', st1\<lparr>o_done := False\<rparr>)" using o True F vs by (simp add: Let_def)
    have m: "op_meaning pk \<rho> (LdAbs sz) (sint (s_k ?s)) 0 = Next x"
      using f unfolding k1 by simp
    show ?thesis unfolding out r'
      by (rule sim_F(1) [OF t r d1 _ _ m F _ ex1 wf1 vs]) simp_all
  next
    case False
    obtain v st1 where F: "F (s_code s) (sint (s_k s)) (int (val ! 17)) st = (v, st1)" by fastforce
    obtain s' val' where vs: "vstore s 16 v alter val = (s', val')" by fastforce
    have out: "out = (s', val', st1)" using o False F vs by (auto simp: Let_def)
    have m: "op_meaning pk \<rho> (LdInd sz) (sint (s_k s)) (int (val ! 17)) = Next x"
      using f X by simp
    show ?thesis unfolding out r'
      by (rule sim_F(2) [OF t r d _ _ m F _ _ wf vs]) (use ex r' X in simp_all)
  qed
qed

lemma opt_neg_sound:
  assumes t: "table_ok pk \<rho> st" and r: "regs_ok \<rho> (curval st) val r"
    and c: "s_code s = opcode AluNeg"
    and ex: "exec_stmt pk s r = Next r'" and o: "opt_data AluNeg s val alter st = Inr out"
  shows "sim pk \<rho> st r r' out"
proof -
  have wf: "wf_stmt s" by (rule wf_stmtI [OF c]) simp_all
  have d: "decode (s_code s) = Some AluNeg" unfolding c by (rule decode_opcode)
  have A: "rA r = \<rho> (val ! 16)" "val ! 16 \<le> curval st" using regs_ok_get [OF r, of 16] by simp_all
  have r': "r' = set_atom r 16 (- rA r)" using ex exec_stmt_op [OF c] by simp
  show ?thesis
  proof (cases "alter \<and> is_const st (val ! 16)")
    case True
    let ?c = "- const_val st (val ! 16)"
    have k: "?c = - rA r" using True const_val_sound [OF t] A by simp
    obtain v st1 where F: "K_val ?c st = (v, st1)" by fastforce
    have out: "out = (s\<lparr>s_code := BPF_LD OR BPF_IMM, s_k := ?c\<rparr>, val[16 := v], st1)"
      using o True F by (simp add: Let_def)
    show ?thesis unfolding out r' k [symmetric]
      by (rule sim_K [OF t r F _ _ _ vstore_noalter]) (simp_all add: exec_imm wf_imm)
  next
    case False
    obtain v st1 where F: "F (s_code s) (int (val ! 16)) 0 st = (v, st1)" by fastforce
    have out: "out = (s, val[16 := v], st1)" using o False F by (auto simp: Let_def)
    show ?thesis unfolding out r'
      by (rule sim_F(2) [OF t r d _ _ _ F _ _ wf vstore_noalter]) (use ex r' A in simp_all)
  qed
qed

lemma opt_move_sound:
  assumes t: "table_ok pk \<rho> st" and r: "regs_ok \<rho> (curval st) val r"
    and c: "s_code s = opcode i" and i: "i = Txa \<or> i = Tax \<or> i = St \<or> i = Stx \<or> i = LdMem \<or> i = LdxMem"
    and m: "uses_mem i \<Longrightarrow> unat (s_k s) < BPF_MEMWORDS"
    and ex: "exec_stmt pk s r = Next r'" and o: "opt_data i s val alter st = Inr out"
  shows "sim pk \<rho> st r r' out"
proof -
  have wf: "wf_stmt s" by (rule wf_stmtI [OF c _ m]) (use i in auto)
  have ex': "exec_op pk i (s_k s) r = Next r'" using ex exec_stmt_op [OF c] i by auto
  have get: "rA r = \<rho> (val ! 16)" "rX r = \<rho> (val ! 17)"
    "a < BPF_MEMWORDS \<Longrightarrow> rM r ! a = \<rho> (val ! a)" for a
    using regs_ok_get [OF r, of 16] regs_ok_get [OF r, of 17] regs_ok_get [OF r, of a] by simp_all
  from i consider "i = Txa" | "i = Tax" | "i = St" | "i = Stx" | "i = LdMem" | "i = LdxMem" by blast
  then show ?thesis
  proof cases
    case 1
    then show ?thesis using sim_copy(2) [OF t r, of 16 17 "rX r" s] o ex wf ex'
      by (auto simp: Let_def split: prod.splits)
  next
    case 2
    then show ?thesis using sim_copy(2) [OF t r, of 17 16 "rA r" s] o ex wf ex'
      by (auto simp: Let_def split: prod.splits)
  next
    case 3
    then show ?thesis using sim_copy(2) [OF t r, of "unat (s_k s)" 16 "rA r" s] o ex wf ex' m
      by (auto simp: Let_def mem_write_def split: prod.splits if_splits)
  next
    case 4
    then show ?thesis using sim_copy(2) [OF t r, of "unat (s_k s)" 17 "rX r" s] o ex wf ex' m
      by (auto simp: Let_def mem_write_def split: prod.splits if_splits)
  next
    case 5
    let ?n = "unat (s_k s)" let ?v = "val ! ?n"
    have n: "?n < N_ATOMS" and r': "r' = set_atom r 16 (rM r ! ?n)" and av: "atom_val r ?n = rM r ! ?n"
      using 5 ex' m by (auto simp: and_then_Next mem_read_def split: if_splits)
    show ?thesis
    proof (cases "alter \<and> is_const st ?v")
      case True
      have k: "const_val st ?v = rM r ! ?n" using True const_val_sound [OF t] get(3) m 5 by simp
      show ?thesis using sim_copy(1) [OF t r _ n av exec_imm(1) wf_imm(1)] o 5 True r' k
        by (auto simp: Let_def split: prod.splits)
    next
      case False
      then show ?thesis using sim_copy(2) [OF t r, of 16 ?n "rM r ! ?n" s] o 5 r' ex wf n av
        by (auto simp: Let_def split: prod.splits)
    qed
  next
    case 6
    let ?n = "unat (s_k s)" let ?v = "val ! ?n"
    have n: "?n < N_ATOMS" and r': "r' = set_atom r 17 (rM r ! ?n)" and av: "atom_val r ?n = rM r ! ?n"
      using 6 ex' m by (auto simp: and_then_Next mem_read_def split: if_splits)
    show ?thesis
    proof (cases "alter \<and> is_const st ?v")
      case True
      have k: "const_val st ?v = rM r ! ?n" using True const_val_sound [OF t] get(3) m 6 by simp
      show ?thesis using sim_copy(1) [OF t r _ n av exec_imm(2) wf_imm(2)] o 6 True r' k
        by (auto simp: Let_def split: prod.splits)
    next
      case False
      then show ?thesis using sim_copy(2) [OF t r, of 17 ?n "rM r ! ?n" s] o 6 r' ex wf n av
        by (auto simp: Let_def split: prod.splits)
    qed
  qed
qed

lemma fold_op_sound:
  assumes "s_code s = opcode (Alu a y)" and "alu_val a (const_val st v0) (const_val st v1) = Next x"
  shows "fold_op s v0 v1 st = Inr (s\<lparr>s_k := x, s_code := BPF_LD OR BPF_IMM\<rparr>, st\<lparr>o_done := False\<rparr>)"
  using assms by (cases a; cases y) (auto simp: fold_op_def bpf_fields Let_def split: if_splits)

lemma sim_done [simp]: "sim pk \<rho> (st\<lparr>o_done := b\<rparr>) r r' out = sim pk \<rho> st r r' out"
  by (simp add: sim_def)

lemma ext_trans: "ext \<rho> n \<rho>1 \<Longrightarrow> ext \<rho>1 m \<rho>2 \<Longrightarrow> n \<le> m \<Longrightarrow> ext \<rho> n \<rho>2"
  by auto

text \<open>Two numbers: a constant's, then one for the result.\<close>

lemma sim_KF:
  assumes t: "table_ok pk \<rho> st" and r: "regs_ok \<rho> (curval st) val r"
    and K: "K_val c st = (vk, st1)" and code: "code = opcode (Alu opr y)"
    and x: "alu_val opr (rA r) c = Next x"
    and F: "F code (int (val ! 16)) (int vk) st1 = (v, st2)"
    and ex: "exec_stmt pk s r = Next (set_atom r 16 x)" and wf: "wf_stmt s"
  shows "sim pk \<rho> st r (set_atom r 16 x) (s, val[16 := v], st2)"
proof -
  obtain \<rho>1 where 1: "ext \<rho> (curval st) \<rho>1" "table_ok pk \<rho>1 st1" "\<rho>1 vk = c" "vk \<le> curval st1"
    "curval st \<le> curval st1" "curval st1 \<le> curval st + 1"
    using K_val_sound(1) [OF t K] by blast
  have A: "rA r = \<rho>1 (val ! 16)" "val ! 16 \<le> curval st1"
    using regs_ok_get [OF regs_ok_ext [OF r 1(1,5)], of 16] by simp_all
  have d: "decode code = Some (Alu opr y)" unfolding code by (rule decode_opcode)
  have "op_meaning pk \<rho>1 (Alu opr y) (int (val ! 16)) (int vk) = Next x" using x A 1(3) by simp
  then obtain \<rho>2 where 2: "ext \<rho>1 (curval st1) \<rho>2" "table_ok pk \<rho>2 st2" "\<rho>2 v = x" "v \<le> curval st2"
    "curval st1 \<le> curval st2" "curval st2 \<le> curval st1 + 1"
    using F_sound [OF 1(2) d _ _ _ F, of x] A(2) 1(4) by auto
  show ?thesis
    by (rule sim_store [OF ext_trans [OF 1(1) 2(1) 1(5)] 2(2,3,4) _ _ r _ ex wf vstore_noalter])
      (use 1 2 in simp_all)
qed

lemma opt_alu_k_sound:
  assumes t: "table_ok pk \<rho> st" and r: "regs_ok \<rho> (curval st) val r"
    and c: "s_code s = opcode (Alu opr SrcK)"
    and ex: "exec_stmt pk s r = Next r'" and o: "opt_alu_k opr s val alter st = Inr out"
  shows "sim pk \<rho> st r r' out"
proof -
  have wf: "wf_stmt s" by (rule wf_stmtI [OF c]) simp_all
  have A: "rA r = \<rho> (val ! 16)" "val ! 16 \<le> curval st" using regs_ok_get [OF r, of 16] by simp_all
  have "exec_op pk (Alu opr SrcK) (s_k s) r = Next r'" using ex exec_stmt_op [OF c] by simp
  then obtain x where x: "alu_val opr (rA r) (s_k s) = Next x" and r': "r' = set_atom r 16 x"
    by (auto simp: and_then_Next)
  have len: "length (rM r) = BPF_MEMWORDS" using r by (simp add: regs_ok_def)
  consider (nop) "alter \<and> s_k s = 0 \<and> opr \<in> {AAdd, ALsh, ARsh, AOr}"
    | (zero) "alter \<and> s_k s = 0 \<and> opr \<in> {AMul, AAnd}"
    | (fold) "\<not> (alter \<and> s_k s = 0 \<and> opr \<in> {AAdd, ALsh, ARsh, AOr})"
        "\<not> (alter \<and> s_k s = 0 \<and> opr \<in> {AMul, AAnd})" "alter \<and> is_const st (val ! 16)"
    | (other) "\<not> (alter \<and> s_k s = 0 \<and> opr \<in> {AAdd, ALsh, ARsh, AOr})"
        "\<not> (alter \<and> s_k s = 0 \<and> opr \<in> {AMul, AAnd})" "\<not> (alter \<and> is_const st (val ! 16))"
    by blast
  then show ?thesis
  proof cases
    case nop
    then have out: "out = (s\<lparr>s_code := NOP\<rparr>, val, st)" using o by (simp add: opt_alu_k_def)
    have "r' = r" using nop x r' by auto
    then show ?thesis using t r by (auto simp: out sim_def exec_stmt_def wf_stmt_def)
  next
    case zero
    obtain v st1 where K: "K_val (s_k s) st = (v, st1)" by fastforce
    have out: "out = (s\<lparr>s_code := BPF_LD OR BPF_IMM\<rparr>, val[16 := v], st1)"
      using o zero K by (auto simp: opt_alu_k_def Let_def)
    have x0: "x = s_k s" using zero x by auto
    show ?thesis unfolding out r' x0
      by (rule sim_K [OF t r K _ _ _ vstore_noalter])
        (simp_all add: exec_stmt_def wf_stmt_def decode_def all_ops_def)
  next
    case fold
    obtain vk st1 where K: "K_val (s_k s) st = (vk, st1)" by fastforce
    obtain \<rho>1 where 1: "ext \<rho> (curval st) \<rho>1" "table_ok pk \<rho>1 st1" "\<rho>1 vk = s_k s"
      "vk \<le> curval st1" "curval st \<le> curval st1" "curval st1 \<le> curval st + 1"
      using K_val_sound(1) [OF t K] by blast
    have "vmap st1 (val ! 16) = vmap st (val ! 16)"
      by (rule F_vmap [OF K [unfolded K_val_def] A(2)])
    then have a: "const_val st1 (val ! 16) = rA r"
      using fold(3) const_val_sound [OF t] A by (simp add: const_val_def is_const_def)
    have f: "fold_op s (val ! 16) vk st1 =
        Inr (s\<lparr>s_k := x, s_code := BPF_LD OR BPF_IMM\<rparr>, st1\<lparr>o_done := False\<rparr>)"
      by (rule fold_op_sound [OF c]) (simp add: a K_val_sound(3) [OF t K] x)
    obtain v st3 where K2: "K_val x (st1\<lparr>o_done := False\<rparr>) = (v, st3)" by fastforce
    have out: "out = (s\<lparr>s_k := x, s_code := BPF_LD OR BPF_IMM\<rparr>, val[16 := v], st3)"
      using o fold K f K2 by (auto simp: opt_alu_k_def Let_def)
    obtain \<rho>2 where 2: "ext \<rho>1 (curval st1) \<rho>2" "table_ok pk \<rho>2 st3" "\<rho>2 v = x" "v \<le> curval st3"
      "curval st1 \<le> curval st3" "curval st3 \<le> curval st1 + 1"
      using K_val_sound(1) [OF _ K2, of pk \<rho>1] 1(2) by auto
    show ?thesis unfolding out r'
      by (rule sim_store [OF ext_trans [OF 1(1) 2(1) 1(5)] 2(2,3,4) _ _ r _ _ _ vstore_noalter])
        (use 1 2 in \<open>simp_all add: exec_imm wf_imm\<close>)
  next
    case other
    obtain vk st1 where K: "K_val (s_k s) st = (vk, st1)" by fastforce
    obtain v st2 where F: "F (s_code s) (int (val ! 16)) (int vk) st1 = (v, st2)" by fastforce
    have out: "out = (s, val[16 := v], st2)" using o other K F by (auto simp: opt_alu_k_def Let_def)
    show ?thesis unfolding out r'
      by (rule sim_KF [OF t r K c x F _ wf]) (use ex r' in simp)
  qed
qed

lemma alu_x_code: "BPF_ALU OR BPF_K OR alu_bits opr = opcode (Alu opr SrcK)"
  by (cases opr) simp_all

lemma alu_zero:
  "alu_val opr 0 b = Next x \<Longrightarrow> opr \<in> {AMul, ADiv, AAnd, ALsh, ARsh} \<Longrightarrow> x = 0"
  "alu_val opr 0 b = Next x \<Longrightarrow> opr \<in> {AAdd, AOr} \<Longrightarrow> x = b"
  by (cases opr; auto split: if_splits)+

lemma opt_alu_x_sound:
  assumes t: "table_ok pk \<rho> st" and r: "regs_ok \<rho> (curval st) val r"
    and c: "s_code s = opcode (Alu opr SrcX)"
    and ex: "exec_stmt pk s r = Next r'" and o: "opt_alu_x opr s val alter st = Inr out"
  shows "sim pk \<rho> st r r' out"
proof -
  have wf: "wf_stmt s" by (rule wf_stmtI [OF c]) simp_all
  have A: "rA r = \<rho> (val ! 16)" "val ! 16 \<le> curval st" using regs_ok_get [OF r, of 16] by simp_all
  have X: "rX r = \<rho> (val ! 17)" "val ! 17 \<le> curval st" using regs_ok_get [OF r, of 17] by simp_all
  have "exec_op pk (Alu opr SrcX) (s_k s) r = Next r'" using ex exec_stmt_op [OF c] by simp
  then obtain x where x: "alu_val opr (rA r) (rX r) = Next x" and r': "r' = set_atom r 16 x"
    by (auto simp: and_then_Next split: if_splits)
  have cA: "is_const st (val ! 16) \<Longrightarrow> const_val st (val ! 16) = rA r"
    and cX: "is_const st (val ! 17) \<Longrightarrow> const_val st (val ! 17) = rX r"
    using const_val_sound [OF t] A X by simp_all
  show ?thesis
  proof (cases "alter \<and> is_const st (val ! 17)")
    case Xc: True
    show ?thesis
    proof (cases "is_const st (val ! 16)")
      case True
      have f: "fold_op s (val ! 16) (val ! 17) st =
          Inr (s\<lparr>s_k := x, s_code := BPF_LD OR BPF_IMM\<rparr>, st\<lparr>o_done := False\<rparr>)"
        by (rule fold_op_sound [OF c]) (use x cA [OF True] cX Xc in simp)
      obtain v st2 where K: "K_val x (st\<lparr>o_done := False\<rparr>) = (v, st2)" by fastforce
      have out: "out = (s\<lparr>s_k := x, s_code := BPF_LD OR BPF_IMM\<rparr>, val[16 := v], st2)"
        using o Xc True f K by (simp add: opt_alu_x_def Let_def)
      have "sim pk \<rho> (st\<lparr>o_done := False\<rparr>) r (set_atom r 16 x) out"
        unfolding out by (rule sim_K [OF _ _ K _ _ _ vstore_noalter])
          (use t r in \<open>simp_all add: exec_imm wf_imm\<close>)
      then show ?thesis by (simp add: r')
    next
      case False
      let ?s = "s\<lparr>s_code := BPF_ALU OR BPF_K OR alu_bits opr, s_k := const_val st (val ! 17)\<rparr>"
      have c1: "s_code ?s = opcode (Alu opr SrcK)" using alu_x_code by simp
      have k1: "s_k ?s = rX r" using cX Xc by simp
      obtain vk st1 where K: "K_val (s_k ?s) (st\<lparr>o_done := False\<rparr>) = (vk, st1)" by fastforce
      obtain v st2 where F: "F (s_code ?s) (int (val ! 16)) (int vk) st1 = (v, st2)" by fastforce
      have out: "out = (?s, val[16 := v], st2)"
        using o Xc False K F by (simp add: opt_alu_x_def Let_def)
      have "exec_stmt pk ?s r = Next (set_atom r 16 x)"
        using exec_stmt_op [OF c1, of pk r] x k1 by simp
      then have "sim pk \<rho> (st\<lparr>o_done := False\<rparr>) r (set_atom r 16 x) out"
        unfolding out by (intro sim_KF [OF _ _ K c1 _ F _ wf_stmtI [OF c1]])
          (use t r x k1 in simp_all)
      then show ?thesis by (simp add: r')
    qed
  next
    case Xn: False
    let ?z = "alter \<and> is_const st (val ! 16) \<and> const_val st (val ! 16) = 0"
    consider (add) "?z" "opr \<in> {AAdd, AOr}" | (zero) "?z" "opr \<in> {AMul, ADiv, AAnd, ALsh, ARsh}"
      | (other) "\<not> (?z \<and> opr \<in> {AAdd, AOr})" "\<not> (?z \<and> opr \<in> {AMul, ADiv, AAnd, ALsh, ARsh})"
      by blast
    then show ?thesis
    proof cases
      case add
      let ?s = "s\<lparr>s_code := BPF_MISC OR BPF_TXA\<rparr>"
      obtain s' val' where vs: "vstore ?s 16 (val ! 17) alter val = (s', val')" by fastforce
      have out: "out = (s', val', st)" using o Xn add vs by (auto simp: opt_alu_x_def Let_def)
      have "x = rX r" using alu_zero(2) [of opr "rX r" x] x add cA by auto
      then show ?thesis unfolding out r'
        by (intro sim_copy(2) [OF t r _ _ _ _ _ vs])
          (simp_all add: exec_stmt_def wf_stmt_def decode_def all_ops_def)
    next
      case zero
      let ?s = "s\<lparr>s_code := BPF_LD OR BPF_IMM, s_k := 0\<rparr>"
      obtain vk st1 where K: "K_val 0 st = (vk, st1)" by fastforce
      obtain s' val' where vs: "vstore ?s 16 vk alter val = (s', val')" by fastforce
      have out: "out = (s', val', st1)"
        using o Xn zero K vs by (auto simp: opt_alu_x_def Let_def)
      have x0: "x = 0" using alu_zero(1) [of opr "rX r" x] x zero cA by auto
      show ?thesis unfolding out r' x0
        by (intro sim_K [OF t r K _ _ _ vs]) (simp_all add: exec_imm wf_imm)
    next
      case other
      have d: "decode (s_code s) = Some (Alu opr SrcX)" unfolding c by (rule decode_opcode)
      obtain v st1 where F: "F (s_code s) (int (val ! 16)) (int (val ! 17)) st = (v, st1)" by fastforce
      have out: "out = (s, val[16 := v], st1)" using o Xn other F by (auto simp: opt_alu_x_def Let_def)
      show ?thesis unfolding out r'
        by (rule sim_F(2) [OF t r d _ _ _ F _ _ wf vstore_noalter]) (use ex r' A X x in simp_all)
    qed
  qed
qed

lemma opt_stmt_sound:
  assumes wf: "wf_stmt s" and nl: "s_code s \<noteq> opcode LdxLen"
    and t: "table_ok pk \<rho> st" and r: "regs_ok \<rho> (curval st) val r"
    and ex: "exec_stmt pk s r = Next r'" and o: "opt_stmt s val alter st = Inr out"
  shows "sim pk \<rho> st r r' out"
  using wf
proof (cases rule: wf_stmt_cases)
  case 1
  then have "decode (s_code s) = None" by (simp add: decode_def all_ops_def)
  then have "out = (s, val, st)" using o by (simp add: opt_stmt_def)
  then show ?thesis using 1 ex t r wf by (auto simp: sim_def exec_stmt_def)
next
  case (2 i)
  note c = 2(1) and d = 2(2)
  show ?thesis
  proof (cases "\<exists>opr x. i = Alu opr x")
    case True
    then obtain opr x where i: "i = Alu opr x" by blast
    then show ?thesis using o d opt_alu_k_sound [OF t r _ ex] opt_alu_x_sound [OF t r _ ex] c
      by (cases x) (simp_all add: opt_stmt_def del: opcode.simps)
  next
    case False
    then have o': "opt_data i s val alter st = Inr out"
      using o d by (auto simp: opt_stmt_def split: bpf_op.splits)
    show ?thesis
      using c o' 2(3,4) nl False opt_ind_sound [OF t r _ ex] opt_neg_sound [OF t r _ ex]
        opt_load_sound [OF t r c _ ex] opt_move_sound [OF t r c _ 2(4) ex]
      by (cases i) (simp_all del: opcode.simps opt_data.simps)
  qed
qed

lemma and_then_assoc_Next: "exec_stmts pk (s # ss) r = Next r' \<longleftrightarrow>
    (\<exists>r1. exec_stmt pk s r = Next r1 \<and> exec_stmts pk ss r1 = Next r')"
  by (simp add: and_then_Next)

lemma opt_stmts_sound:
  "\<forall>s \<in> set ss. wf_stmt s \<and> s_code s \<noteq> opcode LdxLen \<Longrightarrow>
   table_ok pk \<rho> st \<Longrightarrow> regs_ok \<rho> (curval st) val r \<Longrightarrow>
   opt_stmts ss val alter st = Inr (ss', val', st') \<Longrightarrow> exec_stmts pk ss r = Next r' \<Longrightarrow>
   exec_stmts pk ss' r = Next r' \<and> (\<forall>s \<in> set ss'. wf_stmt s) \<and>
   (\<exists>\<rho>'. ext \<rho> (curval st) \<rho>' \<and> table_ok pk \<rho>' st' \<and> regs_ok \<rho>' (curval st') val' r' \<and>
          curval st \<le> curval st')"
proof (induction ss arbitrary: val st r \<rho> ss')
  case Nil
  then show ?case by auto
next
  case (Cons s ss)
  obtain r1 where e1: "exec_stmt pk s r = Next r1" and e2: "exec_stmts pk ss r1 = Next r'"
    using Cons.prems(5) by (auto simp: and_then_Next)
  obtain s1 val1 st1 ss1 where o1: "opt_stmt s val alter st = Inr (s1, val1, st1)"
    and o2: "opt_stmts ss val1 alter st1 = Inr (ss1, val', st')" and ss': "ss' = s1 # ss1"
    using Cons.prems(4) by (auto split: sum.splits)
  have "sim pk \<rho> st r r1 (s1, val1, st1)"
    using opt_stmt_sound [OF _ _ Cons.prems(2,3) e1 o1] Cons.prems(1) by simp
  then obtain \<rho>1 where 1: "exec_stmt pk s1 r = Next r1" "wf_stmt s1" "ext \<rho> (curval st) \<rho>1"
    "table_ok pk \<rho>1 st1" "regs_ok \<rho>1 (curval st1) val1 r1" "curval st \<le> curval st1"
    by (auto simp: sim_def)
  have ih: "exec_stmts pk ss1 r1 = Next r' \<and> (\<forall>s \<in> set ss1. wf_stmt s) \<and>
     (\<exists>\<rho>'. ext \<rho>1 (curval st1) \<rho>' \<and> table_ok pk \<rho>' st' \<and> regs_ok \<rho>' (curval st') val' r' \<and>
            curval st1 \<le> curval st')"
    by (rule Cons.IH [OF _ 1(4,5) o2 e2]) (use Cons.prems(1) in simp)
  then obtain \<rho>2 where 2: "ext \<rho>1 (curval st1) \<rho>2" "table_ok pk \<rho>2 st'"
    "regs_ok \<rho>2 (curval st') val' r'" "curval st1 \<le> curval st'" by blast
  have "ext \<rho> (curval st) \<rho>2" using 1(3,6) 2(1) by simp
  moreover have "curval st \<le> curval st'" using 1(6) 2(4) by simp
  ultimately have "\<exists>\<rho>'. ext \<rho> (curval st) \<rho>' \<and> table_ok pk \<rho>' st' \<and>
      regs_ok \<rho>' (curval st') val' r' \<and> curval st \<le> curval st'"
    using 2(2,3) by blast
  then show ?case using 1(1,2) ih by (simp add: ss')
qed

lemma init_table_ok: "table_ok pk (\<lambda>_. 0) (init_val st)"
  by (simp add: table_ok_def init_val_def)

section \<open>Properties\<close>

text \<open>C27: the statement optimizer preserves the block, if it has no \<open>ldx len\<close> and its value numbers are honest on entry: every
  register holds the value its number stands for - so that registers with the number 0 of unknown contents must all hold the same
  value, which is where \<open>unknown_load_deleted\<close> goes wrong - and every entry of the table denotes what it says. A run of the
  block's statements that completes is then reproduced exactly by the rewritten statements, and the
  numbers are honest about the registers at the end of the block.\<close>

theorem opt_block_sound:
  assumes "\<forall>s \<in> set ss. wf_stmt s \<and> s_code s \<noteq> opcode LdxLen"
    and "table_ok pk \<rho> st" and "regs_ok \<rho> (curval st) val r"
    and "opt_stmts ss val alter st = Inr (ss', val', st')" and "exec_stmts pk ss r = Next r'"
  shows "exec_stmts pk ss' r = Next r' \<and>
         (\<exists>\<rho>'. table_ok pk \<rho>' st' \<and> regs_ok \<rho>' (curval st') val' r')"
  using opt_stmts_sound [OF assms] by blast

text \<open>The root block of a filter, entered with all registers zero: \<open>ld #5; tax; ld [x+2]\<close> on a
  seven-byte packet becomes \<open>ld #5; tax; ld [7]\<close>'s shape with an absolute load.\<close>

theorem opt_block_sound_witness:
  "let mk = (\<lambda>c v. \<lparr>s_code = c, s_jt = None, s_jf = None, s_k = v\<rparr>);
       ss = [mk 0 5, mk 7 0, mk 0x50 1];
       st = init_val \<lparr>hashtbl = (\<lambda>_. []), curval = 0, vmap = (\<lambda>_. None), o_done = True\<rparr>;
       r = \<lparr>rA = 0, rX = 0, rM = replicate 16 0\<rparr>;
       pk = \<lparr>pk_data = [1, 2, 3, 4, 5, 6, 7], pk_wirelen = 7, pk_buflen = 7\<rparr>
   in \<exists>ss' val' st'. opt_stmts ss (replicate 18 0) True st = Inr (ss', val', st') \<and>
        map s_code ss' = [0, 7, 0x30] \<and>
        exec_stmts pk ss' r = Next \<lparr>rA = 7, rX = 5, rM = replicate 16 0\<rparr>"
proof -
  let ?mk = "\<lambda>c v. \<lparr>s_code = c, s_jt = None, s_jf = None, s_k = v\<rparr> :: stmt"
  let ?ss = "[?mk 0 5, ?mk 7 0, ?mk 0x50 1]"
  let ?st = "init_val \<lparr>hashtbl = (\<lambda>_. []), curval = 0, vmap = (\<lambda>_. None), o_done = True\<rparr>"
  let ?r = "\<lparr>rA = 0, rX = 0, rM = replicate 16 0\<rparr>"
  let ?pk = "\<lparr>pk_data = [1, 2, 3, 4, 5, 6, 7], pk_wirelen = 7, pk_buflen = 7\<rparr>"
  have wf: "\<forall>s \<in> set ?ss. wf_stmt s \<and> s_code s \<noteq> opcode LdxLen"
    by (simp add: wf_stmt_def bpf_exec)
  have ro: "regs_ok (\<lambda>_. 0) (curval ?st) (replicate 18 0) ?r"
    by (auto simp: regs_ok_def init_val_def atom_val_def)
  have ex: "exec_stmts ?pk ?ss ?r = Next \<lparr>rA = 7, rX = 5, rM = replicate 16 0\<rparr>"
    by (simp add: exec_stmt_def bpf_exec sint_u32)
  have "\<exists>ss' val' st'. opt_stmts ?ss (replicate 18 0) True ?st = Inr (ss', val', st') \<and>
        map s_code ss' = [0, 7, 0x30]"
    by (simp add: opt_stmt_def bpf_exec init_val_def F_def K_val_def is_imm_def bpf_fields
        is_const_def const_val_def vstore_def vhash_def Let_def sint_u32)
  then obtain ss' val' st' where o: "opt_stmts ?ss (replicate 18 0) True ?st = Inr (ss', val', st')"
    and c: "map s_code ss' = [0, 7, 0x30]" by (elim exE conjE) (rule that)
  show ?thesis using opt_block_sound [OF wf init_table_ok ro o ex] o c by (simp add: Let_def)
qed

text \<open>Only fresh numbers count against the arrays \<open>opt_init\<close> sizes.\<close>

lemma F_curval: "F c v0 v1 st = (v, st') \<Longrightarrow> curval st' \<le> curval st + 1"
  by (auto simp: F_def Let_def split: option.splits)

lemma K_curval: "K_val c st = (v, st') \<Longrightarrow> curval st' \<le> curval st + 1"
  by (auto simp: K_val_def dest: F_curval)

lemma fold_op_curval: "fold_op s v0 v1 st = Inr (s', st') \<Longrightarrow> curval st' = curval st"
  by (auto simp: fold_op_def Let_def split: if_splits)

lemma opt_alu_curval:
  "opt_alu_k opr s val alter st = Inr (s', val', st') \<Longrightarrow> curval st' \<le> curval st + 2"
  "opt_alu_x opr s val alter st = Inr (s', val', st') \<Longrightarrow> curval st' \<le> curval st + 2"
  by (auto simp: opt_alu_k_def opt_alu_x_def Let_def split: if_splits prod.splits sum.splits
      dest!: F_curval K_curval fold_op_curval)

lemma opt_data_curval:
  "opt_data i s val alter st = Inr (s', val', st') \<Longrightarrow> curval st' \<le> curval st + 1"
  by (cases i) (auto simp: Let_def split: if_splits prod.splits dest!: F_curval K_curval)

lemma opt_stmt_curval:
  assumes "opt_stmt s val alter st = Inr (s', val', st')"
  shows "curval st' \<le> curval st + 2 * slength [s]"
proof (cases "decode (s_code s)")
  case None
  then show ?thesis using assms by (simp add: opt_stmt_def)
next
  case (Some i)
  then have "s_code s \<noteq> NOP" by (auto simp: decode_def all_ops_def)
  moreover have "curval st' \<le> curval st + 2"
  proof (cases "\<exists>a x. i = Alu a x")
    case True
    then show ?thesis using assms Some opt_alu_curval
      by (auto simp: opt_stmt_def split: src.splits)
  next
    case False
    then have "opt_data i s val alter st = Inr (s', val', st')"
      using assms Some by (auto simp: opt_stmt_def split: bpf_op.splits)
    then show ?thesis by (drule_tac opt_data_curval) simp
  qed
  ultimately show ?thesis by simp
qed

text \<open>Value numbers never outgrow the arrays. A block's statements are given at most two
  numbers per live statement, so a pass that starts at zero stays within the three numbers per
  statement for which \<open>opt_init\<close> allocates \<open>vmap\<close> and the hash nodes.\<close>

theorem opt_stmt_numbers:
  "opt_stmts ss val alter st = Inr (ss', val', st') \<Longrightarrow> curval st' \<le> curval st + 2 * slength ss"
proof (induction ss arbitrary: val st ss')
  case Nil
  then show ?case by simp
next
  case (Cons s ss)
  then obtain s1 val1 st1 ss1 where o1: "opt_stmt s val alter st = Inr (s1, val1, st1)"
    and o2: "opt_stmts ss val1 alter st1 = Inr (ss1, val', st')"
    by (auto split: sum.splits)
  show ?case using Cons.IH [OF o2] opt_stmt_curval [OF o1] by simp
qed

theorem opt_stmt_numbers_witness:
  "let mk = (\<lambda>c v. \<lparr>s_code = c, s_jt = None, s_jf = None, s_k = v\<rparr>);
       st = init_val \<lparr>hashtbl = (\<lambda>_. []), curval = 0, vmap = (\<lambda>_. None), o_done = True\<rparr>
   in \<exists>ss' val' st'. opt_stmts [mk 0x20 0, mk 4 1] (replicate 18 0) False st = Inr (ss', val', st') \<and>
        curval st' = 3 \<and> curval st' \<le> 4"
proof -
  let ?mk = "\<lambda>c v. \<lparr>s_code = c, s_jt = None, s_jf = None, s_k = v\<rparr> :: stmt"
  let ?st = "init_val \<lparr>hashtbl = (\<lambda>_. []), curval = 0, vmap = (\<lambda>_. None), o_done = True\<rparr>"
  have "\<exists>ss' val' st'. opt_stmts [?mk 0x20 0, ?mk 4 1] (replicate 18 0) False ?st =
      Inr (ss', val', st') \<and> curval st' = 3"
    by (simp add: opt_stmt_def bpf_exec init_val_def F_def K_val_def is_imm_def bpf_fields
        opt_alu_k_def is_const_def const_val_def vstore_def vhash_def Let_def sint_u32)
  then obtain ss' val' st' where
    o: "opt_stmts [?mk 0x20 0, ?mk 4 1] (replicate 18 0) False ?st = Inr (ss', val', st')"
    and c: "curval st' = 3" by (elim exE conjE) (rule that)
  have "curval st' \<le> 4" using opt_stmt_numbers [OF o] by (simp add: init_val_def)
  then show ?thesis using o c by (auto simp: Let_def)
qed

text \<open>The optimizer loses the machine's guard against division by zero. When \<open>X\<close> is known
  to be 0 and the accumulator is not known, \<open>div x\<close>, which rejects the packet, becomes
  \<open>div #0\<close>, which divides by zero (and which the validator lets through, see \<open>Bpf_Validate\<close>).\<close>

theorem division_guard_lost:
  assumes "s_code s = opcode (Alu ADiv SrcX)" and "vmap st (val ! 17) = Some 0"
    and "vmap st (val ! 16) = None" and "rX r = 0"
  shows "\<exists>s' val' st'. opt_stmt s val True st = Inr (s', val', st') \<and>
           exec_stmt pk s r = Ret 0 \<and> exec_stmt pk s' r = Fault DivZero"
proof -
  have d: "decode (s_code s) = Some (Alu ADiv SrcX)" unfolding assms(1) by (rule decode_opcode)
  have c: "is_const st (val ! 17)" "\<not> is_const st (val ! 16)" "const_val st (val ! 17) = 0"
    using assms(2,3) by (simp_all add: is_const_def const_val_def)
  let ?s = "s\<lparr>s_code := BPF_ALU OR BPF_K OR alu_bits ADiv, s_k := 0\<rparr>"
  have "\<exists>val' st'. opt_stmt s val True st = Inr (?s, val', st')"
    using c d by (simp add: opt_stmt_def opt_alu_x_def Let_def split: prod.splits)
  moreover have "exec_stmt pk s r = Ret 0"
    using exec_stmt_op [OF assms(1), of pk r] assms(4) by simp
  moreover have "exec_stmt pk ?s r = Fault DivZero"
    using exec_stmt_op [of ?s "Alu ADiv SrcK" pk r] by simp
  ultimately show ?thesis by blast
qed

theorem division_guard_lost_witness:
  "let s = \<lparr>s_code = 0x3c, s_jt = None, s_jf = None, s_k = 0\<rparr>;
       st = \<lparr>hashtbl = (\<lambda>_. []), curval = 1, vmap = [1 \<mapsto> 0], o_done = True\<rparr>;
       val = (replicate 18 0)[17 := 1]; r = \<lparr>rA = 9, rX = 0, rM = replicate 16 0\<rparr>;
       pk = \<lparr>pk_data = [], pk_wirelen = 0, pk_buflen = 0\<rparr>
   in \<exists>s' val' st'. opt_stmt s val True st = Inr (s', val', st') \<and>
        exec_stmt pk s r = Ret 0 \<and> exec_stmt pk s' r = Fault DivZero"
  unfolding Let_def by (rule division_guard_lost) simp_all

text \<open>The hypothesis of the previous soundness theorem on unknown registers is needed. The
  number 0 means "unknown", but \<open>vstore\<close> compares it like any other: a load into the
  accumulator of a scratch word is deleted when both are unknown, whatever they hold.\<close>

theorem unknown_load_deleted:
  assumes "unat n < BPF_MEMWORDS" and "length (rM r) = BPF_MEMWORDS" and "rM r ! unat n \<noteq> rA r"
    and "vmap st 0 = None"
  shows "let s = \<lparr>s_code = opcode LdMem, s_jt = None, s_jf = None, s_k = n\<rparr>;
             s' = s\<lparr>s_code := NOP\<rparr>
         in opt_stmt s (replicate N_ATOMS 0) True st = Inr (s', replicate N_ATOMS 0, st) \<and>
            exec_stmt pk s r = Next (r\<lparr>rA := rM r ! unat n\<rparr>) \<and> exec_stmt pk s' r = Next r \<and>
            r\<lparr>rA := rM r ! unat n\<rparr> \<noteq> r"
proof -
  let ?s = "\<lparr>s_code = opcode LdMem, s_jt = None, s_jf = None, s_k = n\<rparr>"
  have d: "decode (opcode LdMem) = Some LdMem" by (rule decode_opcode)
  have n: "unat n < N_ATOMS" using assms(1) by simp
  have "opt_stmt ?s (replicate N_ATOMS 0) True st = Inr (?s\<lparr>s_code := NOP\<rparr>, replicate N_ATOMS 0, st)"
    using assms(4) n nth_replicate [OF n, of "0 :: nat"]
    by (simp add: opt_stmt_def d is_const_def vstore_def Let_def del: opcode.simps)
  moreover have "exec_stmt pk ?s r = Next (r\<lparr>rA := rM r ! unat n\<rparr>)"
    using exec_stmt_op [of ?s LdMem pk r] assms(1,2) by (simp add: mem_read_def)
  moreover have "r\<lparr>rA := rM r ! unat n\<rparr> \<noteq> r"
    using assms(3) by (metis regs.select_convs(1) regs.simps(4) regs.surjective regs.update_convs(1))
  ultimately show ?thesis by (simp add: exec_stmt_def)
qed

theorem unknown_load_deleted_witness:
  "let s = \<lparr>s_code = 0x60, s_jt = None, s_jf = None, s_k = 2\<rparr>;
       st = \<lparr>hashtbl = (\<lambda>_. []), curval = 0, vmap = (\<lambda>_. None), o_done = True\<rparr>
   in opt_stmt s (replicate 18 0) True st = Inr (s\<lparr>s_code := NOP\<rparr>, replicate 18 0, st)"
  using unknown_load_deleted [of 2 "\<lparr>rA = 1, rX = 0, rM = replicate 16 0\<rparr>"
      "\<lparr>hashtbl = (\<lambda>_. []), curval = 0, vmap = (\<lambda>_. None), o_done = True\<rparr>"]
  by (simp add: Let_def)

end
