(* ===== verification/Flow_Graph.thy ===== *)
theory Flow_Graph
  imports Opt_Atoms
begin

text \<open>
  The flow graph of a filter (\<open>struct block\<close>, \<open>struct edge\<close>, \<^verbatim>\<open>gencode.h\<close>) and the
  depth-first traversals of \<^verbatim>\<open>optimize.c\<close> that mark blocks. A pointer to a block is its index
  in the list of all blocks. The fields a pass computes (\<open>mark\<close>, \<open>level\<close>, \<open>offset\<close>, ...) are
  kept by that pass as maps from blocks; the record holds what the passes only read. A block
  is marked when it is in the set of marked blocks, so \<open>unMarkAll\<close> is the empty set.

  All traversals have one shape, the locale \<open>dfs\<close>: what it marks, that enough fuel is the number
  of blocks, and its invariant rule are proved once and interpreted for each of them.
\<close>

section \<open>Blocks\<close>

record block =
  b_stmts :: "stmt list"
  b_s :: stmt
  b_jt :: "nat option"
  b_jf :: "nat option"

type_synonym graph = "block list"

definition JT :: "graph \<Rightarrow> nat \<Rightarrow> nat option" where "JT g b = b_jt (g ! b)"
definition JF :: "graph \<Rightarrow> nat \<Rightarrow> nat option" where "JF g b = b_jf (g ! b)"

text \<open>The successors that are not null, in the order \<open>JT\<close>, \<open>JF\<close>.\<close>

definition opt_list :: "'a option \<Rightarrow> 'a list" where
  "opt_list x = (case x of None \<Rightarrow> [] | Some y \<Rightarrow> [y])"

definition kids :: "graph \<Rightarrow> nat \<Rightarrow> nat list" where
  "kids g b = opt_list (JT g b) @ opt_list (JF g b)"

definition kids_rev :: "graph \<Rightarrow> nat \<Rightarrow> nat list" where
  "kids_rev g b = opt_list (JF g b) @ opt_list (JT g b)"

lemma set_kids_rev [simp]: "set (kids_rev g b) = set (kids g b)"
  by (auto simp: kids_def kids_rev_def)

text \<open>A block has both successors or neither, and they are blocks of the graph.\<close>

definition graph_ok :: "graph \<Rightarrow> bool" where
  "graph_ok g \<longleftrightarrow>
     list_all (\<lambda>b. case (b_jt b, b_jf b) of
                    (None, None) \<Rightarrow> True
                  | (Some t, Some f) \<Rightarrow> t < length g \<and> f < length g
                  | _ \<Rightarrow> False) g"

text \<open>The graph is acyclic: \<open>rk\<close> falls along every edge.\<close>

definition ranked :: "(nat \<Rightarrow> nat) \<Rightarrow> graph \<Rightarrow> bool" where
  "ranked rk g \<longleftrightarrow> list_all (\<lambda>b. list_all (\<lambda>k. rk k < rk b) (kids g b)) [0..<length g]"

lemma graph_ok_cases:
  assumes "graph_ok g" and "b < length g"
  obtains "JT g b = None" "JF g b = None" "kids g b = []"
  | t f where "JT g b = Some t" "JF g b = Some f" "kids g b = [t, f]" "t < length g" "f < length g"
proof (cases "b_jt (g ! b)")
  case None
  then show thesis using assms that(1)
    by (auto simp: graph_ok_def list_all_length JT_def JF_def kids_def opt_list_def split: option.splits)
next
  case (Some t)
  have "case (b_jt (g ! b), b_jf (g ! b)) of
      (None, None) \<Rightarrow> True | (Some t, Some f) \<Rightarrow> t < length g \<and> f < length g | _ \<Rightarrow> False"
    using assms by (simp add: graph_ok_def list_all_length)
  with Some obtain f where "b_jf (g ! b) = Some f" "t < length g" "f < length g"
    by (cases "b_jf (g ! b)") auto
  then show thesis using Some that(2) [of t f] by (simp add: JT_def JF_def kids_def opt_list_def)
qed

lemma kids_in: "\<lbrakk>graph_ok g; b < length g; k \<in> set (kids g b)\<rbrakk> \<Longrightarrow> k < length g"
  by (erule (1) graph_ok_cases) auto

lemma rankedD: "\<lbrakk>ranked rk g; b < length g; k \<in> set (kids g b)\<rbrakk> \<Longrightarrow> rk k < rk b"
  by (auto simp: ranked_def list_all_iff)

section \<open>Reachable blocks\<close>

inductive reach :: "(nat \<Rightarrow> nat list) \<Rightarrow> nat \<Rightarrow> nat \<Rightarrow> bool"
  for ks :: "nat \<Rightarrow> nat list" and b :: nat where
  reach_refl [simp, intro]: "reach ks b b"
| reach_step: "reach ks b c \<Longrightarrow> d \<in> set (ks c) \<Longrightarrow> reach ks b d"

lemma reach_kid: "k \<in> set (ks b) \<Longrightarrow> reach ks k d \<Longrightarrow> reach ks b d"
  by (rotate_tac, induction rule: reach.induct) (auto intro: reach.intros)

lemma reach_trans: "reach ks a b \<Longrightarrow> reach ks b c \<Longrightarrow> reach ks a c"
  by (rotate_tac, induction rule: reach.induct) (auto intro: reach.intros)

lemma reach_closed:
  "reach ks b d \<Longrightarrow> b \<in> S \<Longrightarrow> (\<And>x k. x \<in> S \<Longrightarrow> k \<in> set (ks x) \<Longrightarrow> k \<in> S) \<Longrightarrow> d \<in> S"
  by (induction rule: reach.induct) auto

lemma reach_in: "reach (kids g) b d \<Longrightarrow> graph_ok g \<Longrightarrow> b < length g \<Longrightarrow> d < length g"
  by (induction rule: reach.induct) (auto dest: kids_in)

lemma reach_cong: "(\<And>b. set (ks b) = set (ks' b)) \<Longrightarrow> reach ks b d \<longleftrightarrow> reach ks' b d"
proof -
  assume e: "\<And>b. set (ks b) = set (ks' b)"
  have "reach k1 b d \<Longrightarrow> (\<And>b. set (k1 b) = set (k2 b)) \<Longrightarrow> reach k2 b d" for k1 k2
    by (induction rule: reach.induct) (auto intro: reach.intros)
  then show ?thesis using e by blast
qed

lemma reach_kids_rev [simp]: "reach (kids_rev g) = reach (kids g)"
  by (intro ext reach_cong) simp

definition reach_set :: "graph \<Rightarrow> nat \<Rightarrow> nat set" where
  "reach_set g b = {d. reach (kids g) b d}"

lemma finite_reach_set: "graph_ok g \<Longrightarrow> b < length g \<Longrightarrow> finite (reach_set g b)"
  by (rule finite_subset [of _ "{..<length g}"]) (auto simp: reach_set_def dest: reach_in)

section \<open>Depth-first traversal\<close>

fun visit_all :: "('a \<Rightarrow> 's \<Rightarrow> 'e + 's) \<Rightarrow> 'a list \<Rightarrow> 's \<Rightarrow> 'e + 's" where
  "visit_all f [] s = Inr s"
| "visit_all f (x # xs) s = (case f x s of Inl e \<Rightarrow> Inl e | Inr s' \<Rightarrow> visit_all f xs s')"

locale dfs =
  fixes ks :: "nat \<Rightarrow> nat list"
    and marks :: "'s \<Rightarrow> nat set"
    and enter :: "nat \<Rightarrow> 's \<Rightarrow> 's"
    and leave :: "nat \<Rightarrow> 's \<Rightarrow> 'e + 's"
    and visit :: "nat \<Rightarrow> nat \<Rightarrow> 's \<Rightarrow> 'e + 's"
    and no_fuel :: 'e
  assumes visit_0: "visit 0 b s = Inl no_fuel"
    and visit_Suc: "visit (Suc n) b s =
      (if b \<in> marks s then Inr s
       else case visit_all (visit n) (ks b) (enter b s) of Inl e \<Rightarrow> Inl e | Inr s' \<Rightarrow> leave b s')"
    and marks_enter: "marks (enter b s) = insert b (marks s)"
    and marks_leave: "leave b s = Inr s' \<Longrightarrow> marks s' = marks s"
    and leave_fuel: "leave b s \<noteq> Inl no_fuel"
begin

definition grows :: "nat set \<Rightarrow> nat set \<Rightarrow> nat set \<Rightarrow> bool" where
  "grows roots M M' \<longleftrightarrow> M \<subseteq> M' \<and> roots \<subseteq> M' \<and>
     (\<forall>x \<in> M' - M. set (ks x) \<subseteq> M' \<and> (\<exists>r \<in> roots. reach ks r x))"

lemma grows_trans:
  "grows R M M' \<Longrightarrow> grows R' M' M'' \<Longrightarrow> grows (R \<union> R') M M''"
  unfolding grows_def by blast

lemma visit_all_grows:
  assumes "\<And>b s s'. visit n b s = Inr s' \<Longrightarrow> grows {b} (marks s) (marks s')"
  shows "visit_all (visit n) bs s = Inr s' \<Longrightarrow> grows (set bs) (marks s) (marks s')"
proof (induction bs arbitrary: s)
  case (Cons b bs)
  then obtain s1 where s1: "visit n b s = Inr s1" and "visit_all (visit n) bs s1 = Inr s'"
    by (auto split: sum.splits)
  from grows_trans [OF assms [OF s1] Cons.IH [OF this(2)]] show ?case by simp
qed (simp add: grows_def)

lemma visit_grows: "visit n b s = Inr s' \<Longrightarrow> grows {b} (marks s) (marks s')"
proof (induction n arbitrary: b s s')
  case (Suc n)
  show ?case
  proof (cases "b \<in> marks s")
    case True
    then show ?thesis using Suc.prems by (simp add: visit_Suc grows_def)
  next
    case False
    then obtain s1 where s1: "visit_all (visit n) (ks b) (enter b s) = Inr s1" "leave b s1 = Inr s'"
      using Suc.prems by (auto simp: visit_Suc split: sum.splits)
    have g: "grows (set (ks b)) (insert b (marks s)) (marks s1)"
      using visit_all_grows [OF Suc.IH s1(1)] by (simp add: marks_enter)
    moreover have "marks s' = marks s1" using s1(2) by (rule marks_leave)
    ultimately show ?thesis unfolding grows_def by (auto intro: reach_kid)
  qed
qed (simp add: visit_0)

lemma marked_all:
  assumes "visit n b s = Inr s'" and "marks s = {}"
  shows "marks s' = {d. reach ks b d}"
proof -
  have g: "grows {b} {} (marks s')" using visit_grows [OF assms(1)] assms(2) by simp
  show ?thesis
  proof (intro equalityI subsetI)
    fix d assume "d \<in> {d. reach ks b d}"
    then have "reach ks b d" by simp
    then show "d \<in> marks s'" by (rule reach_closed) (use g in \<open>auto simp: grows_def\<close>)
  qed (use g in \<open>auto simp: grows_def\<close>)
qed

text \<open>One level of fuel for each block still unmarked, and one more, is enough.\<close>

lemma visit_all_fuel:
  assumes v: "\<And>b s. b \<in> V \<Longrightarrow> card (V - marks s) < n \<Longrightarrow> visit n b s \<noteq> Inl no_fuel"
    and fin: "finite V"
  shows "set bs \<subseteq> V \<Longrightarrow> card (V - marks s) < n \<Longrightarrow> visit_all (visit n) bs s \<noteq> Inl no_fuel"
proof (induction bs arbitrary: s)
  case (Cons b bs)
  show ?case
  proof (cases "visit n b s")
    case (Inl e)
    then show ?thesis using v [of b s] Cons.prems by auto
  next
    case (Inr s1)
    then have "marks s \<subseteq> marks s1" using visit_grows by (auto simp: grows_def)
    then have "card (V - marks s1) \<le> card (V - marks s)" by (intro card_mono) (use fin in auto)
    then show ?thesis using Inr Cons by simp
  qed
qed simp

lemma visit_fuel:
  assumes fin: "finite V" and closed: "\<And>x. x \<in> V \<Longrightarrow> set (ks x) \<subseteq> V"
  shows "b \<in> V \<Longrightarrow> card (V - marks s) < n \<Longrightarrow> visit n b s \<noteq> Inl no_fuel"
proof (induction n arbitrary: b s)
  case (Suc n)
  show ?case
  proof (cases "b \<in> marks s")
    case False
    have "V - marks (enter b s) = (V - marks s) - {b}" by (auto simp: marks_enter)
    moreover have "card ((V - marks s) - {b}) < card (V - marks s)"
      by (rule card_Diff1_less) (use fin Suc.prems(1) False in auto)
    ultimately have "card (V - marks (enter b s)) < n"
      using Suc.prems(2) by simp
    from visit_all_fuel [OF Suc.IH fin closed [OF Suc.prems(1)] this]
    show ?thesis using False leave_fuel by (auto simp: visit_Suc split: sum.splits)
  qed (simp add: visit_Suc)
qed simp

text \<open>
  The invariant rule for an acyclic graph: when a block is left, its successors have been left.
  \<open>I s D\<close> speaks of a state and the set \<open>D\<close> of the blocks left so far; \<open>A\<close> holds the blocks
  entered and not yet left, all of a higher rank.
\<close>

definition split_marks :: "'s \<Rightarrow> nat set \<Rightarrow> nat set \<Rightarrow> bool" where
  "split_marks s D A \<longleftrightarrow> marks s = D \<union> A \<and> D \<inter> A = {}"

lemma visit_all_inv:
  assumes v: "\<And>b s D. I s D \<Longrightarrow> split_marks s D A \<Longrightarrow> b \<in> V \<Longrightarrow> (\<forall>a \<in> A. rk b < rk a) \<Longrightarrow>
        (case visit n b s of Inl e \<Rightarrow> e = no_fuel \<or> Q e
         | Inr s' \<Rightarrow> \<exists>D'. I s' D' \<and> split_marks s' D' A \<and> D \<subseteq> D' \<and> b \<in> D')"
  shows "I s D \<Longrightarrow> split_marks s D A \<Longrightarrow> set bs \<subseteq> V \<Longrightarrow> (\<forall>b \<in> set bs. \<forall>a \<in> A. rk b < rk a) \<Longrightarrow>
     (case visit_all (visit n) bs s of Inl e \<Rightarrow> e = no_fuel \<or> Q e
      | Inr s' \<Rightarrow> \<exists>D'. I s' D' \<and> split_marks s' D' A \<and> D \<subseteq> D' \<and> set bs \<subseteq> D')"
proof (induction bs arbitrary: s D)
  case (Cons b bs)
  note vb = v [OF Cons.prems(1,2), of b]
  show ?case
  proof (cases "visit n b s")
    case (Inl e)
    then show ?thesis using vb Cons.prems by simp
  next
    case (Inr s1)
    then obtain D1 where D1: "I s1 D1" "split_marks s1 D1 A" "D \<subseteq> D1" "b \<in> D1"
      using vb Cons.prems by auto
    note ih = Cons.IH [OF D1(1,2)]
    show ?thesis
    proof (cases "visit_all (visit n) bs s1")
      case (Inl e)
      then show ?thesis using Inr ih Cons.prems by simp
    next
      case (Inr s2)
      then obtain D2 where "I s2 D2" "split_marks s2 D2 A" "D1 \<subseteq> D2" "set bs \<subseteq> D2"
        using ih Cons.prems by auto
      then show ?thesis using \<open>visit n b s = Inr s1\<close> Inr D1 by (auto intro!: exI [of _ D2])
    qed
  qed
qed auto

lemma visit_inv:
  assumes closed: "\<And>x k. x \<in> V \<Longrightarrow> k \<in> set (ks x) \<Longrightarrow> k \<in> V \<and> rk k < (rk x :: nat)"
    and enter: "\<And>b s D. I s D \<Longrightarrow> b \<in> V \<Longrightarrow> b \<notin> marks s \<Longrightarrow> I (enter b s) D"
    and leave: "\<And>b s D. I s D \<Longrightarrow> b \<in> V \<Longrightarrow> b \<notin> D \<Longrightarrow> set (ks b) \<subseteq> D \<Longrightarrow>
        (case leave b s of Inl e \<Rightarrow> Q e | Inr s' \<Rightarrow> I s' (insert b D))"
  shows "I s D \<Longrightarrow> split_marks s D A \<Longrightarrow> b \<in> V \<Longrightarrow> (\<forall>a \<in> A. rk b < rk a) \<Longrightarrow>
     (case visit n b s of Inl e \<Rightarrow> e = no_fuel \<or> Q e
      | Inr s' \<Rightarrow> \<exists>D'. I s' D' \<and> split_marks s' D' A \<and> D \<subseteq> D' \<and> b \<in> D')"
proof (induction n arbitrary: b s D A)
  case (Suc n)
  show ?case
  proof (cases "b \<in> marks s")
    case True
    then have "b \<in> D" using Suc.prems by (auto simp: split_marks_def)
    then show ?thesis using Suc.prems True by (auto simp: visit_Suc)
  next
    case False
    let ?r = "visit_all (visit n) (ks b) (enter b s)"
    have i: "I (enter b s) D" using enter Suc.prems(1,3) False by blast
    have m: "split_marks (enter b s) D (insert b A)"
      using Suc.prems(2) False by (auto simp: split_marks_def marks_enter)
    have k: "set (ks b) \<subseteq> V" using closed Suc.prems(3) by blast
    have r: "\<forall>k \<in> set (ks b). \<forall>a \<in> insert b A. rk k < rk a"
      using closed [OF Suc.prems(3)] Suc.prems(4) by (metis insertE order.strict_trans)
    have c: "case ?r of Inl e \<Rightarrow> e = no_fuel \<or> Q e
      | Inr s' \<Rightarrow> \<exists>D'. I s' D' \<and> split_marks s' D' (insert b A) \<and> D \<subseteq> D' \<and> set (ks b) \<subseteq> D'"
      by (rule visit_all_inv [where I = I and V = V and rk = rk and n = n, OF _ i m k r]) (rule Suc.IH)
    show ?thesis
    proof (cases ?r)
      case (Inl e)
      then show ?thesis using c False by (simp add: visit_Suc)
    next
      case (Inr s1)
      then obtain D1 where D1: "I s1 D1" "split_marks s1 D1 (insert b A)" "D \<subseteq> D1" "set (ks b) \<subseteq> D1"
        using c by auto
      then have b: "b \<notin> D1" "b \<notin> A" using False Suc.prems(2) by (auto simp: split_marks_def)
      have l: "case leave b s1 of Inl e \<Rightarrow> Q e | Inr s' \<Rightarrow> I s' (insert b D1)"
        by (rule leave [OF D1(1) Suc.prems(3) b(1) D1(4)])
      have v: "visit (Suc n) b s = leave b s1" using False Inr by (simp add: visit_Suc)
      show ?thesis
      proof (cases "leave b s1")
        case (Inl e)
        then show ?thesis using l v by simp
      next
        case (Inr s2)
        then have "split_marks s2 (insert b D1) A"
          using marks_leave [OF Inr] D1(2) b by (auto simp: split_marks_def)
        then show ?thesis using l v Inr D1(3) by (auto intro!: exI [of _ "insert b D1"])
      qed
    qed
  qed
qed (simp add: visit_0)

lemma visit_root_inv:
  assumes "finite V"
    and closed: "\<And>x k. x \<in> V \<Longrightarrow> k \<in> set (ks x) \<Longrightarrow> k \<in> V \<and> rk k < (rk x :: nat)"
    and "\<And>b s D. I s D \<Longrightarrow> b \<in> V \<Longrightarrow> b \<notin> marks s \<Longrightarrow> I (enter b s) D"
    and "\<And>b s D. I s D \<Longrightarrow> b \<in> V \<Longrightarrow> b \<notin> D \<Longrightarrow> set (ks b) \<subseteq> D \<Longrightarrow>
        (case leave b s of Inl e \<Rightarrow> Q e | Inr s' \<Rightarrow> I s' (insert b D))"
    and "I s {}" and m: "marks s = {}" and "b \<in> V" and n: "card V < n"
  shows "case visit n b s of Inl e \<Rightarrow> Q e
         | Inr s' \<Rightarrow> I s' {d. reach ks b d} \<and> marks s' = {d. reach ks b d}"
proof -
  have sp: "split_marks s {} {}" using m by (simp add: split_marks_def)
  have nf: "visit n b s \<noteq> Inl no_fuel"
    by (rule visit_fuel [where V = V]) (use assms(1,7) closed m n in auto)
  have "case visit n b s of Inl e \<Rightarrow> e = no_fuel \<or> Q e
    | Inr s' \<Rightarrow> \<exists>D'. I s' D' \<and> split_marks s' D' {} \<and> {} \<subseteq> D' \<and> b \<in> D'"
    by (rule visit_inv [where I = I and V = V and rk = rk, OF closed assms(3) assms(4) assms(5) sp assms(7)])
      simp_all
  then show ?thesis using nf marked_all [OF _ m]
    by (cases "visit n b s") (auto simp: split_marks_def)
qed

text \<open>When leaving a block cannot fail, the traversal succeeds.\<close>

lemma visit_root_total:
  assumes "finite V"
    and "\<And>x k. x \<in> V \<Longrightarrow> k \<in> set (ks x) \<Longrightarrow> k \<in> V \<and> rk k < (rk x :: nat)"
    and "\<And>b s D. I s D \<Longrightarrow> b \<in> V \<Longrightarrow> b \<notin> marks s \<Longrightarrow> I (enter b s) D"
    and "\<And>b s D. I s D \<Longrightarrow> b \<in> V \<Longrightarrow> b \<notin> D \<Longrightarrow> set (ks b) \<subseteq> D \<Longrightarrow>
        \<exists>s'. leave b s = Inr s' \<and> I s' (insert b D)"
    and "I s {}" and "marks s = {}" and "b \<in> V" and "card V < n"
  shows "\<exists>s'. visit n b s = Inr s' \<and> I s' {d. reach ks b d} \<and> marks s' = {d. reach ks b d}"
proof -
  have "case visit n b s of Inl e \<Rightarrow> False
    | Inr s' \<Rightarrow> I s' {d. reach ks b d} \<and> marks s' = {d. reach ks b d}"
    by (rule visit_root_inv [where I = I and V = V and rk = rk, OF assms(1-3) _ assms(5-8)])
      (use assms(4) in fastforce)+
  then show ?thesis by (auto split: sum.splits)
qed

end

section \<open>The traversals that only mark and count\<close>

datatype flow_error =
  OutOfFuel      \<comment> \<open>the fuel of the model, not an error of the program\<close>
| NullPointer    \<comment> \<open>a null successor is dereferenced\<close>
| BadLevel       \<comment> \<open>an index past the array \<open>levels\<close>\<close>

text \<open>\<open>make_marks\<close>, \<open>mark_code\<close>.\<close>

fun make_marks :: "nat \<Rightarrow> graph \<Rightarrow> nat \<Rightarrow> nat set \<Rightarrow> flow_error + nat set" where
  "make_marks 0 g p M = Inl OutOfFuel"
| "make_marks (Suc n) g p M =
     (if p \<notin> M then
        (if BPF_CLASS (s_code (b_s (g ! p))) \<noteq> BPF_RET then
           (case JT g p of
              None \<Rightarrow> Inl NullPointer
            | Some t \<Rightarrow>
                (case make_marks n g t (insert p M) of
                   Inl e \<Rightarrow> Inl e
                 | Inr M1 \<Rightarrow>
                     (case JF g p of
                        None \<Rightarrow> Inl NullPointer
                      | Some f \<Rightarrow> make_marks n g f M1)))
         else Inr (insert p M))
      else Inr M)"

definition mark_code :: "graph \<Rightarrow> nat \<Rightarrow> flow_error + nat set" where
  "mark_code g p = make_marks (Suc (length g)) g p {}"

text \<open>\<open>count_blocks\<close>, \<open>count_stmts\<close>: the count and the marks.\<close>

fun count_blocks :: "nat \<Rightarrow> graph \<Rightarrow> nat option \<Rightarrow> nat set \<Rightarrow> flow_error + nat \<times> nat set" where
  "count_blocks n g None M = Inr (0, M)"
| "count_blocks 0 g (Some p) M = Inl OutOfFuel"
| "count_blocks (Suc n) g (Some p) M =
     (if p \<in> M then Inr (0, M)
      else case count_blocks n g (JT g p) (insert p M) of
             Inl e \<Rightarrow> Inl e
           | Inr (c1, M1) \<Rightarrow>
               (case count_blocks n g (JF g p) M1 of
                  Inl e \<Rightarrow> Inl e
                | Inr (c2, M2) \<Rightarrow> Inr (c1 + c2 + 1, M2)))"

text \<open>The flags \<open>longjt\<close>, \<open>longjf\<close>: the extra jumps a block needs.\<close>

record longs =
  l_jt :: "nat set"
  l_jf :: "nat set"

definition longjt :: "longs \<Rightarrow> nat \<Rightarrow> nat" where "longjt l p = (if p \<in> l_jt l then 1 else 0)"
definition longjf :: "longs \<Rightarrow> nat \<Rightarrow> nat" where "longjf l p = (if p \<in> l_jf l then 1 else 0)"

fun count_stmts ::
    "nat \<Rightarrow> graph \<Rightarrow> longs \<Rightarrow> nat option \<Rightarrow> nat set \<Rightarrow> flow_error + nat \<times> nat set" where
  "count_stmts n g l None M = Inr (0, M)"
| "count_stmts 0 g l (Some p) M = Inl OutOfFuel"
| "count_stmts (Suc n) g l (Some p) M =
     (if p \<in> M then Inr (0, M)
      else case count_stmts n g l (JT g p) (insert p M) of
             Inl e \<Rightarrow> Inl e
           | Inr (c1, M1) \<Rightarrow>
               (case count_stmts n g l (JF g p) M1 of
                  Inl e \<Rightarrow> Inl e
                | Inr (c2, M2) \<Rightarrow>
                    Inr (slength (b_stmts (g ! p)) + (c1 + c2) + 1 + longjt l p + longjf l p, M2)))"

text \<open>\<open>number_blks_r\<close>: the array \<open>blocks\<close>, whose length is \<open>n_blocks\<close>, and the field \<open>id\<close>.\<close>

record numbering =
  nm_marked :: "nat set"
  nm_blocks :: "nat list"
  nm_id :: "nat \<Rightarrow> nat"

definition number_block :: "nat \<Rightarrow> numbering \<Rightarrow> numbering" where
  "number_block p s =
     s\<lparr>nm_marked := insert p (nm_marked s),
       nm_id := (nm_id s)(p := length (nm_blocks s)), nm_blocks := nm_blocks s @ [p]\<rparr>"

fun number_blks_r :: "nat \<Rightarrow> graph \<Rightarrow> nat option \<Rightarrow> numbering \<Rightarrow> flow_error + numbering" where
  "number_blks_r n g None s = Inr s"
| "number_blks_r 0 g (Some p) s = Inl OutOfFuel"
| "number_blks_r (Suc n) g (Some p) s =
     (if p \<in> nm_marked s then Inr s
      else case number_blks_r n g (JT g p) (number_block p s) of
             Inl e \<Rightarrow> Inl e
           | Inr s1 \<Rightarrow> number_blks_r n g (JF g p) s1)"

section \<open>They are depth-first traversals\<close>

definition live_kids :: "graph \<Rightarrow> nat \<Rightarrow> nat list" where
  "live_kids g p =
     (if BPF_CLASS (s_code (b_s (g ! p))) \<noteq> BPF_RET then
        (case JT g p of None \<Rightarrow> [] | Some t \<Rightarrow> t # opt_list (JF g p))
      else [])"

definition live_leave :: "graph \<Rightarrow> nat \<Rightarrow> nat set \<Rightarrow> flow_error + nat set" where
  "live_leave g p M =
     (if BPF_CLASS (s_code (b_s (g ! p))) \<noteq> BPF_RET \<and> (JT g p = None \<or> JF g p = None)
      then Inl NullPointer else Inr M)"

interpretation mm: dfs "live_kids g" "\<lambda>M. M" insert "live_leave g" "\<lambda>n. make_marks n g" OutOfFuel for g
  by unfold_locales
    (auto simp: live_kids_def live_leave_def opt_list_def split: option.splits sum.splits if_splits)

text \<open>A count is threaded through the traversal as what was counted before it.\<close>

definition cb_visit :: "graph \<Rightarrow> nat \<Rightarrow> nat \<Rightarrow> nat \<times> nat set \<Rightarrow> flow_error + nat \<times> nat set" where
  "cb_visit g n p s =
     (case count_blocks n g (Some p) (snd s) of Inl e \<Rightarrow> Inl e | Inr (c, M) \<Rightarrow> Inr (fst s + c, M))"

definition cs_visit :: "graph \<Rightarrow> longs \<Rightarrow> nat \<Rightarrow> nat \<Rightarrow> nat \<times> nat set \<Rightarrow> flow_error + nat \<times> nat set" where
  "cs_visit g l n p s =
     (case count_stmts n g l (Some p) (snd s) of Inl e \<Rightarrow> Inl e | Inr (c, M) \<Rightarrow> Inr (fst s + c, M))"

definition block_size :: "graph \<Rightarrow> longs \<Rightarrow> nat \<Rightarrow> nat" where
  "block_size g l p = slength (b_stmts (g ! p)) + 1 + longjt l p + longjf l p"

interpretation cb: dfs "kids g" snd "\<lambda>p s. (fst s, insert p (snd s))"
  "\<lambda>p s. Inr (fst s + 1, snd s)" "cb_visit g" OutOfFuel for g
  by unfold_locales
    (auto simp: cb_visit_def kids_def opt_list_def split: option.splits sum.splits)

interpretation cs: dfs "kids g" snd "\<lambda>p s. (fst s, insert p (snd s))"
  "\<lambda>p s. Inr (fst s + block_size g l p, snd s)" "cs_visit g l" OutOfFuel for g l
  by unfold_locales
    (auto simp: cs_visit_def block_size_def kids_def opt_list_def split: option.splits sum.splits)

interpretation nb: dfs "kids g" nm_marked number_block "\<lambda>p s. Inr s"
  "\<lambda>n p. number_blks_r n g (Some p)" OutOfFuel for g
  by unfold_locales
    (auto simp: number_block_def kids_def opt_list_def split: option.splits sum.splits)

section \<open>What they count\<close>

lemma graph_closed: "graph_ok g \<Longrightarrow> x \<in> {..<length g} \<Longrightarrow> set (kids g x) \<subseteq> {..<length g}"
  by (auto dest: kids_in)

lemma graph_ranked:
  "\<lbrakk>graph_ok g; ranked rk g; x \<in> {..<length g}; k \<in> set (kids g x)\<rbrakk> \<Longrightarrow>
   k \<in> {..<length g} \<and> rk k < rk x"
  by (auto dest: kids_in rankedD)

lemma count_stmts_total:
  assumes ok: "graph_ok g" "ranked rk g" "root < length g"
  shows "count_stmts (Suc (length g)) g l (Some root) {} =
     Inr (\<Sum>b \<in> reach_set g root. block_size g l b, reach_set g root)"
proof -
  let ?I = "\<lambda>(s :: nat \<times> nat set) D. finite D \<and> fst s = (\<Sum>b \<in> D. block_size g l b)"
  have "\<exists>s'. cs_visit g l (Suc (length g)) root (0, {}) = Inr s' \<and> ?I s' {d. reach (kids g) root d} \<and>
      snd s' = {d. reach (kids g) root d}"
    by (rule cs.visit_root_total [where I = ?I, OF finite_lessThan graph_ranked [OF ok(1,2)]])
      (simp_all add: ok(3))
  then show ?thesis by (auto simp: cs_visit_def reach_set_def split: sum.splits)
qed

lemma count_blocks_total:
  assumes ok: "graph_ok g" "ranked rk g" "root < length g"
  shows "count_blocks (Suc (length g)) g (Some root) {} = Inr (card (reach_set g root), reach_set g root)"
proof -
  let ?I = "\<lambda>(s :: nat \<times> nat set) D. finite D \<and> fst s = card D"
  have "\<exists>s'. cb_visit g (Suc (length g)) root (0, {}) = Inr s' \<and> ?I s' {d. reach (kids g) root d} \<and>
      snd s' = {d. reach (kids g) root d}"
    by (rule cb.visit_root_total [where I = ?I, OF finite_lessThan graph_ranked [OF ok(1,2)]])
      (simp_all add: ok(3))
  then show ?thesis by (auto simp: cb_visit_def reach_set_def split: sum.splits)
qed

text \<open>The numbers are positions, whatever the order of the traversal.\<close>

definition numbered :: "numbering \<Rightarrow> bool" where
  "numbered s \<longleftrightarrow> distinct (nm_blocks s) \<and> set (nm_blocks s) = nm_marked s \<and>
     (\<forall>i < length (nm_blocks s). nm_id s (nm_blocks s ! i) = i)"

lemma number_block_numbered:
  assumes "numbered s" and "p \<notin> nm_marked s"
  shows "numbered (number_block p s)"
proof -
  have "nm_id (number_block p s) (nm_blocks (number_block p s) ! i) = i"
    if "i < length (nm_blocks s) + 1" for i
  proof (cases "i = length (nm_blocks s)")
    case False
    then have i: "i < length (nm_blocks s)" using that by simp
    then have "nm_blocks s ! i \<noteq> p" using assms by (metis numbered_def nth_mem)
    then show ?thesis using assms i by (simp add: numbered_def number_block_def nth_append)
  qed (simp add: number_block_def)
  then show ?thesis using assms by (simp add: numbered_def number_block_def)
qed

lemma number_blocks_total:
  assumes ok: "graph_ok g" "ranked rk g" "root < length g"
  obtains s where
    "number_blks_r (Suc (length g)) g (Some root) \<lparr>nm_marked = {}, nm_blocks = [], nm_id = ids\<rparr> = Inr s"
    and "numbered s" and "nm_marked s = reach_set g root"
proof -
  let ?s = "\<lparr>nm_marked = {}, nm_blocks = [], nm_id = ids\<rparr>"
  have "\<exists>s'. number_blks_r (Suc (length g)) g (Some root) ?s = Inr s' \<and> numbered s' \<and>
      nm_marked s' = {d. reach (kids g) root d}"
    by (rule nb.visit_root_total [where I = "\<lambda>s D. numbered s", OF finite_lessThan graph_ranked [OF ok(1,2)]])
      (simp_all add: ok(3) number_block_numbered, simp add: numbered_def)
  then show thesis using that by (auto simp: reach_set_def)
qed

end
