(* ===== verification/Icode.thy ===== *)
theory Icode
  imports Flow_Graph Bpf_Validate
begin

text \<open>
  The back end of the filter compiler, \<open>convert_code_r\<close> and \<open>icode_to_fcode\<close> of
  \<^verbatim>\<open>optimize.c\<close>: a depth-first traversal lays the blocks of the flow graph out from the end of
  the instruction array, and is repeated with one more long jump whenever a branch offset does
  not fit in eight bits. The theorems: the loop ends for every acyclic graph, and the array it
  returns does exactly what the flow graph does.
\<close>

section \<open>Laying out a block\<close>

abbreviation (input) zero_insn :: bpf_insn where
  "zero_insn \<equiv> \<lparr>i_code = 0, i_jt = 0, i_jf = 0, i_k = 0\<rparr>"

text \<open>\<open>(u_short)s.code\<close> and \<open>s.k\<close>, in an entry that \<open>memset\<close> has cleared.\<close>

definition insn_of :: "stmt \<Rightarrow> bpf_insn" where
  "insn_of s = \<lparr>i_code = of_int (s_code s), i_jt = 0, i_jf = 0, i_k = s_k s\<rparr>"

definition ja_insn :: "u32 \<Rightarrow> bpf_insn" where
  "ja_insn d = \<lparr>i_code = of_int (BPF_JMP OR BPF_JA), i_jt = 0, i_jf = 0, i_k = d\<rparr>"

datatype conv_error =
  ConvFuel                        \<comment> \<open>the fuel of the model\<close>
| Retry longs "nat \<Rightarrow> nat"         \<comment> \<open>\<open>return (0)\<close>: a flag was set, with the offsets so far\<close>
| NoRoom                          \<comment> \<open>\<open>ftail\<close> before \<open>fstart\<close>\<close>
| BadJump                         \<comment> \<open>the \<open>bpf_error\<close>s about block-local jumps\<close>
| NullSucc                        \<comment> \<open>\<open>JF(p)\<close> null where \<open>JT(p)\<close> is not\<close>

text \<open>
  One statement. A conditional jump inside a block (they are generated for \<open>protochain\<close> only) is
  resolved against \<open>offset[]\<close>, whose \<open>i\<close>-th entry is the \<open>i\<close>-th node of the list for
  \<open>i < slen\<close>: a target is found when its index is below \<open>slen\<close>, and only once. The statement
  at \<open>slen - 2\<close> is left with zero offsets (\<open>/*???*/\<close> in the source).
\<close>

definition emit_stmt :: "nat \<Rightarrow> nat \<Rightarrow> stmt \<Rightarrow> conv_error + bpf_insn" where
  "emit_stmt slen off s =
     (if BPF_CLASS (s_code s) \<noteq> BPF_JMP \<or> s_code s = BPF_JMP OR BPF_JA then Inr (insn_of s)
      else if of_nat off = (of_nat slen - 2 :: u32) then Inr (insn_of s)
      else case (s_jt s, s_jf s) of
             (Some t, Some f) \<Rightarrow>
               (if t < slen \<and> f < slen
                then Inr ((insn_of s)\<lparr>i_jt := of_nat t - of_nat off - 1, i_jf := of_nat f - of_nat off - 1\<rparr>)
                else Inl BadJump)
           | _ \<Rightarrow> Inl BadJump)"

fun emit_stmts :: "nat \<Rightarrow> stmt list \<Rightarrow> nat \<Rightarrow> conv_error + bpf_insn list" where
  "emit_stmts slen [] off = Inr []"
| "emit_stmts slen (s # ss) off =
     (if s_code s = NOP then emit_stmts slen ss off
      else case emit_stmt slen off s of
             Inl e \<Rightarrow> Inl e
           | Inr i \<Rightarrow>
               (case emit_stmts slen ss (off + 1) of Inl e \<Rightarrow> Inl e | Inr is \<Rightarrow> Inr (i # is)))"

text \<open>
  The branch at the end of the block and its extra jumps: the entries from \<open>offset + slen\<close> on,
  \<open>1 + longjt + longjf\<close> of them, those not written being zero.
\<close>

definition branch_off :: "(nat \<Rightarrow> nat) \<Rightarrow> nat \<Rightarrow> nat \<Rightarrow> u32" where
  "branch_off offs q t = of_nat (offs t) - of_nat q - 1"

definition pad_to :: "nat \<Rightarrow> bpf_insn list \<Rightarrow> bpf_insn list" where
  "pad_to n is = is @ replicate (n - length is) zero_insn"

definition emit_branch ::
    "graph \<Rightarrow> longs \<Rightarrow> (nat \<Rightarrow> nat) \<Rightarrow> nat \<Rightarrow> nat \<Rightarrow> conv_error + bpf_insn list" where
  "emit_branch g l offs p slen =
     (let br = insn_of (b_s (g ! p)); size = 1 + longjt l p + longjf l p; q = offs p + slen in
      case JT g p of
        None \<Rightarrow> Inr (pad_to size [br])
      | Some t \<Rightarrow>
          (let off1 = branch_off offs q t in
           if off1 \<ge> 256 \<and> longjt l p = 0 then Inl (Retry (l\<lparr>l_jt := insert p (l_jt l)\<rparr>) offs)
           else
             (let (jt, ex1) = (if off1 \<ge> 256 then (0, [ja_insn (off1 - 1)]) else (ucast off1, [])) in
              case JF g p of
                None \<Rightarrow> Inl NullSucc
              | Some f \<Rightarrow>
                  (let off2 = branch_off offs q f in
                   if off2 \<ge> 256 \<and> longjf l p = 0
                   then Inl (Retry (l\<lparr>l_jf := insert p (l_jf l)\<rparr>) offs)
                   else
                     (let (jf, ex2) =
                        (if off2 \<ge> 256
                         then (of_nat (length ex1), [ja_insn (off2 - of_nat (length ex1 + 1))])
                         else (ucast off2, []))
                      in Inr (pad_to size (br\<lparr>i_jt := jt, i_jf := jf\<rparr> # ex1 @ ex2)))))))"

section \<open>The traversal\<close>

record conv =
  cv_marked :: "nat set"
  cv_tail :: nat
  cv_off :: "nat \<Rightarrow> nat"
  cv_code :: "bpf_insn list"

definition blit :: "'a list \<Rightarrow> nat \<Rightarrow> 'a list \<Rightarrow> 'a list" where
  "blit xs i ys = take i xs @ ys @ drop (i + length ys) xs"

text \<open>What \<open>convert_code_r\<close> does to a block once its successors are laid out.\<close>

definition place_block :: "graph \<Rightarrow> longs \<Rightarrow> nat \<Rightarrow> conv \<Rightarrow> conv_error + conv" where
  "place_block g l p st =
     (let slen = slength (b_stmts (g ! p)); size = slen + 1 + longjt l p + longjf l p in
      if cv_tail st < size then Inl NoRoom
      else
        (let dst = cv_tail st - size; offs = (cv_off st)(p := dst) in
         case emit_stmts slen (b_stmts (g ! p)) 0 of
           Inl e \<Rightarrow> Inl e
         | Inr is \<Rightarrow>
             (case emit_branch g l offs p slen of
                Inl e \<Rightarrow> Inl e
              | Inr bs \<Rightarrow>
                  Inr (st\<lparr>cv_tail := dst, cv_off := offs, cv_code := blit (cv_code st) dst (is @ bs)\<rparr>))))"

fun convert_code_r :: "nat \<Rightarrow> graph \<Rightarrow> longs \<Rightarrow> nat option \<Rightarrow> conv \<Rightarrow> conv_error + conv" where
  "convert_code_r n g l None st = Inr st"
| "convert_code_r 0 g l (Some p) st = Inl ConvFuel"
| "convert_code_r (Suc n) g l (Some p) st =
     (if p \<in> cv_marked st then Inr st
      else case convert_code_r n g l (JF g p) (st\<lparr>cv_marked := insert p (cv_marked st)\<rparr>) of
             Inl e \<Rightarrow> Inl e
           | Inr st1 \<Rightarrow>
               (case convert_code_r n g l (JT g p) st1 of
                  Inl e \<Rightarrow> Inl e
                | Inr st2 \<Rightarrow> place_block g l p st2))"

text \<open>\<open>icode_to_fcode\<close>: the loop, with fuel for its rounds.\<close>

fun icode_loop ::
    "nat \<Rightarrow> graph \<Rightarrow> nat \<Rightarrow> longs \<Rightarrow> (nat \<Rightarrow> nat) \<Rightarrow> conv_error + bpf_insn list" where
  "icode_loop 0 g root l offs = Inl ConvFuel"
| "icode_loop (Suc m) g root l offs =
     (case count_stmts (Suc (length g)) g l (Some root) {} of
        Inl _ \<Rightarrow> Inl ConvFuel
      | Inr (n, _) \<Rightarrow>
          (case convert_code_r (Suc (length g)) g l (Some root)
                  \<lparr>cv_marked = {}, cv_tail = n, cv_off = offs, cv_code = replicate n zero_insn\<rparr> of
             Inr st \<Rightarrow> Inr (cv_code st)
           | Inl (Retry l' offs') \<Rightarrow> icode_loop m g root l' offs'
           | Inl e \<Rightarrow> Inl e))"

definition icode_to_fcode :: "graph \<Rightarrow> nat \<Rightarrow> conv_error + bpf_insn list" where
  "icode_to_fcode g root =
     icode_loop (2 * length g + 1) g root \<lparr>l_jt = {}, l_jf = {}\<rparr> (\<lambda>_. 0)"

lemma emit_stmt_ConvFuel: "emit_stmts slen ss k \<noteq> Inl ConvFuel"
  by (induction ss arbitrary: k)
    (auto simp: emit_stmt_def split: sum.splits option.splits if_splits)

lemma place_block_ConvFuel: "place_block g l p st \<noteq> Inl ConvFuel"
  using emit_stmt_ConvFuel
  by (auto simp: place_block_def emit_branch_def Let_def split: sum.splits option.splits if_splits)

interpretation cv: dfs "kids_rev g" cv_marked "\<lambda>p st. st\<lparr>cv_marked := insert p (cv_marked st)\<rparr>"
  "place_block g l" "\<lambda>n p. convert_code_r n g l (Some p)" ConvFuel for g l
proof
  show "cv_marked s' = cv_marked s" if "place_block g l b s = Inr s'" for b s s'
    using that by (auto simp: place_block_def Let_def split: sum.splits if_splits)
qed (auto simp: kids_rev_def opt_list_def place_block_ConvFuel split: option.splits sum.splits)

section \<open>What a flow graph does\<close>

definition block_ok :: "block \<Rightarrow> bool" where
  "block_ok b \<longleftrightarrow> list_all wf_stmt (b_stmts b) \<and>
     (case decode (s_code (b_s b)) of
        Some RetK \<Rightarrow> b_jt b = None
      | Some RetA \<Rightarrow> b_jt b = None
      | Some (Jmp j x) \<Rightarrow> b_jt b \<noteq> None
      | _ \<Rightarrow> False)"

definition graph_wf :: "graph \<Rightarrow> bool" where
  "graph_wf g \<longleftrightarrow> graph_ok g \<and> list_all block_ok g"

text \<open>The statements of a block, then its branch: a verdict or the next block.\<close>

definition exec_branch :: "graph \<Rightarrow> nat \<Rightarrow> regs \<Rightarrow> nat outcome" where
  "exec_branch g b r =
     (let s = b_s (g ! b) in
      case decode (s_code s) of
        Some RetK \<Rightarrow> Ret (s_k s)
      | Some RetA \<Rightarrow> Ret (rA r)
      | Some (Jmp j x) \<Rightarrow>
          (case (if jump_taken j (rA r) (src_val x (s_k s) r) then JT g b else JF g b) of
             Some t \<Rightarrow> Next t
           | None \<Rightarrow> Abort)
      | _ \<Rightarrow> Abort)"

definition exec_block :: "graph \<Rightarrow> packet \<Rightarrow> nat \<times> regs \<Rightarrow> (nat \<times> regs) outcome" where
  "exec_block g pk = (\<lambda>(b, r).
     and_then (exec_stmts pk (b_stmts (g ! b)) r)
       (\<lambda>r'. and_then (exec_branch g b r') (\<lambda>t. Next (t, r'))))"

partial_function (option) graph_loop ::
    "graph \<Rightarrow> packet \<Rightarrow> nat \<times> regs \<Rightarrow> unit outcome option" where
  "graph_loop g pk st =
     (case exec_block g pk st of
        Next st' \<Rightarrow> graph_loop g pk st'
      | Ret r \<Rightarrow> Some (Ret r)
      | Abort \<Rightarrow> Some Abort
      | Fault e \<Rightarrow> Some (Fault e))"

text \<open>Both loops continue only after \<open>Next\<close>.\<close>

primrec cont :: "'a outcome \<Rightarrow> ('a \<Rightarrow> unit outcome option) \<Rightarrow> unit outcome option" where
  "cont (Next x) k = k x"
| "cont (Ret r) k = Some (Ret r)"
| "cont Abort k = Some Abort"
| "cont (Fault e) k = Some (Fault e)"

lemma cont_and_then [simp]: "cont (and_then r f) k = cont r (\<lambda>x. cont (f x) k)"
  by (cases r) auto

lemma bpf_loop_cont: "bpf_loop f pk st = cont (bpf_step f pk st) (bpf_loop f pk)"
  by (subst bpf_loop.simps) (simp split: outcome.splits)

lemma graph_loop_cont: "graph_loop g pk st = cont (exec_block g pk st) (graph_loop g pk)"
  by (subst graph_loop.simps) (simp split: outcome.splits)

section \<open>The layout of a block in the array\<close>

lemma decode_class:
  assumes "decode c = Some i"
  shows "uint (of_int c :: u16) = c" and "\<not> is_ctl i \<Longrightarrow> BPF_CLASS c \<noteq> BPF_JMP"
proof -
  have c: "c = opcode i" using assms by (simp add: decode_Some_iff)
  have "i \<in> set all_ops" by (rule all_ops_complete)
  then show "uint (of_int c :: u16) = c" and "\<not> is_ctl i \<Longrightarrow> BPF_CLASS c \<noteq> BPF_JMP"
    unfolding c by (auto simp: all_ops_def BPF_CLASS_def)
qed

lemma wf_live_stmt:
  assumes "wf_stmt s" and "s_code s \<noteq> NOP"
  obtains i where "decode (s_code s) = Some i" and "\<not> is_ctl i"
  using assms by (auto simp: wf_stmt_def split: option.splits)

lemma emit_stmts_wf:
  "list_all wf_stmt ss \<Longrightarrow> emit_stmts slen ss k = Inr (map insn_of (live_stmts ss))"
proof (induction ss arbitrary: k)
  case (Cons s ss)
  have "emit_stmt slen k s = Inr (insn_of s)" if nn: "s_code s \<noteq> NOP"
  proof -
    have "wf_stmt s" using Cons.prems by simp
    then obtain i where "decode (s_code s) = Some i" and "\<not> is_ctl i"
      using nn by (elim wf_live_stmt)
    then show ?thesis using decode_class(2) by (simp add: emit_stmt_def)
  qed
  then show ?case using Cons by (simp add: live_stmts_def)
qed (simp add: live_stmts_def)

text \<open>The part \<open>is\<close> of a program that starts at \<open>pc\<close>.\<close>

definition code_at :: "bpf_insn list \<Rightarrow> nat \<Rightarrow> bpf_insn list \<Rightarrow> bool" where
  "code_at f pc is \<longleftrightarrow> pc + length is \<le> length f \<and> (\<forall>i < length is. f ! (pc + i) = is ! i)"

lemma code_at_Cons: "code_at f pc (i # is) \<longleftrightarrow> pc < length f \<and> f ! pc = i \<and> code_at f (Suc pc) is"
  by (auto simp: code_at_def All_less_Suc2)

lemma code_at_append:
  "code_at f pc (is @ js) \<longleftrightarrow> pc + length is \<le> length f \<and> code_at f pc is \<and> code_at f (pc + length is) js"
proof (induction "is" arbitrary: pc)
  case Nil
  then show ?case by (auto simp: code_at_def)
qed (auto simp: code_at_Cons)

lemma code_at_nth: "code_at f pc is \<Longrightarrow> i < length is \<Longrightarrow> pc + i < length f \<and> f ! (pc + i) = is ! i"
  by (auto simp: code_at_def)

lemma stmts_at:
  assumes "list_all wf_stmt ss" and "\<forall>s \<in> set ss. s_code s \<noteq> NOP"
  shows "code_at f pc (map insn_of ss) \<Longrightarrow>
    bpf_loop f pk (pc, r) = cont (exec_stmts pk ss r) (\<lambda>r'. bpf_loop f pk (pc + length ss, r'))"
  using assms
proof (induction ss arbitrary: pc r)
  case (Cons s ss)
  then have "wf_stmt s" "s_code s \<noteq> NOP" by simp_all
  then obtain i where i: "decode (s_code s) = Some i" "\<not> is_ctl i"
    by (elim wf_live_stmt)
  have f: "pc < length f" "f ! pc = insn_of s" "code_at f (Suc pc) (map insn_of ss)"
    using Cons.prems(1) by (auto simp: code_at_Cons)
  have "exec_ctl pk p i pc r = and_then (exec_op pk i (i_k p) r) (\<lambda>s'. Next (pc + 1, s'))" for p
    using i(2) by (cases i) auto
  then have "bpf_step f pk (pc, r) = and_then (exec_stmt pk s r) (\<lambda>s'. Next (pc + 1, s'))"
    using f i Cons.prems(3) decode_class(1) [OF i(1)]
    by (simp add: bpf_step_def insn_of_def exec_stmt_def)
  then have "bpf_loop f pk (pc, r) =
      cont (exec_stmt pk s r) (\<lambda>s'. bpf_loop f pk (Suc pc, s'))"
    by (subst bpf_loop_cont) simp
  also have "\<dots> = cont (exec_stmt pk s r)
      (\<lambda>s'. cont (exec_stmts pk ss s') (\<lambda>r'. bpf_loop f pk (Suc pc + length ss, r')))"
    using Cons.IH [OF f(3)] Cons.prems by simp
  finally show ?case by simp
qed simp


section \<open>The branch and its extra jumps\<close>

lemma jump_to_off: "T < 4294967296 \<Longrightarrow> jump_to q (of_nat T - of_nat q - 1) = T"
  by (simp add: jump_to_def)

lemma jump_to_near:
  "d < 256 \<Longrightarrow> jump_to q (ucast (ucast (d :: u32) :: u8)) = jump_to q d"
proof -
  assume "d < 256"
  then have "unat d < 256" by (simp add: u32_less_iff)
  then have "ucast (ucast d :: u8) = d"
    by (simp add: word_unat_eq_iff unsigned_ucast_eq take_bit_eq_mod unat_mod)
  then show ?thesis by simp
qed

lemma ja_step:
  assumes "pc < length f" and "f ! pc = ja_insn d"
  shows "bpf_loop f pk (pc, r) = bpf_loop f pk (jump_to pc d, r)"
proof -
  have "decode (uint (i_code (ja_insn d))) = Some Ja"
    using decode_class(1) [of "BPF_JMP OR BPF_JA" Ja] decode_opcode [of Ja]
    by (simp add: ja_insn_def)
  then have "bpf_step f pk (pc, r) = Next (jump_to pc d, r)"
    using assms by (simp add: bpf_step_def) (simp add: ja_insn_def)
  then show ?thesis by (subst bpf_loop_cont) simp
qed

lemma jump_to_ex:
  assumes "T < 4294967296" and "q + n + 1 < 4294967296"
  shows "jump_to (q + n) (of_nat T - of_nat q - 1 - of_nat n) = T"
  using assms by (simp add: jump_to_def)

text \<open>Where one direction of a branch goes: straight to the target, or through the jump inserted
  \<open>n\<close> entries after the branch.\<close>

lemma branch_dir:
  assumes T: "T < 4294967296" and off: "off = of_nat T - of_nat q - 1"
    and near: "off < 256 \<Longrightarrow> j = ucast off"
    and far: "256 \<le> off \<Longrightarrow> j = of_nat n \<and> n < 2 \<and> q + n + 1 < length f \<and>
        f ! (q + n + 1) = ja_insn (off - of_nat (n + 1))"
    and len: "length f < 4294967296"
  shows "bpf_loop f pk (jump_to q (ucast (j :: u8)), r) = bpf_loop f pk (T, r)"
proof (cases "off < 256")
  case True
  then show ?thesis using near off jump_to_off [OF T] jump_to_near by simp
next
  case False
  then have j: "j = of_nat n" "n < 2" "q + n + 1 < length f"
    and ja: "f ! (q + n + 1) = ja_insn (off - of_nat (n + 1))" using far by auto
  have "unat (of_nat (q + 1) + ucast (of_nat n :: u8) :: u32) = q + n + 1"
  proof -
    have "ucast (of_nat n :: u8) = (of_nat n :: u32)"
      using j(2) by (cases n) auto
    then have "of_nat (q + 1) + ucast (of_nat n :: u8) = (of_nat (q + n + 1) :: u32)" by simp
    then show ?thesis using j(3) len by (simp del: of_nat_add of_nat_Suc)
  qed
  then have "jump_to q (ucast j) = q + n + 1" using j(1) by (simp add: jump_to_def)
  then have "bpf_loop f pk (jump_to q (ucast j), r) =
      bpf_loop f pk (jump_to (q + (n + 1)) (off - of_nat (n + 1)), r)"
    using ja_step [OF j(3) ja] by simp
  also have "jump_to (q + (n + 1)) (off - of_nat (n + 1)) = T"
    using off T by (simp add: jump_to_def)
  finally show ?thesis .
qed


definition dir_ok :: "bpf_insn list \<Rightarrow> u32 \<Rightarrow> u8 \<Rightarrow> bool" where
  "dir_ok bs off j \<longleftrightarrow> (off < 256 \<longrightarrow> j = ucast off) \<and>
     (256 \<le> off \<longrightarrow> (\<exists>n < 2. j = of_nat n \<and> n + 1 < length bs \<and>
        bs ! (n + 1) = ja_insn (off - of_nat (n + 1))))"

lemma emit_branch_shape:
  assumes e: "emit_branch g l offs p slen = Inr bs"
    and jt: "JT g p = Some t" and jf: "JF g p = Some fl"
  obtains a c es where "bs = (insn_of (b_s (g ! p)))\<lparr>i_jt := a, i_jf := c\<rparr> # es"
    and "dir_ok bs (branch_off offs (offs p + slen) t) a"
    and "dir_ok bs (branch_off offs (offs p + slen) fl) c"
proof -
  let ?o1 = "branch_off offs (offs p + slen) t" and ?o2 = "branch_off offs (offs p + slen) fl"
  have c: "u < 256 \<longleftrightarrow> \<not> 256 \<le> u" for u :: u32 by auto
  have "\<exists>a c es. bs = (insn_of (b_s (g ! p)))\<lparr>i_jt := a, i_jf := c\<rparr> # es \<and>
      dir_ok bs ?o1 a \<and> dir_ok bs ?o2 c"
  proof (cases "256 \<le> ?o1"; cases "256 \<le> ?o2")
    assume o: "256 \<le> ?o1" "256 \<le> ?o2"
    then have bs: "bs = (insn_of (b_s (g ! p)))\<lparr>i_jt := 0, i_jf := 1\<rparr> #
        ja_insn (?o1 - 1) # ja_insn (?o2 - 2) # replicate (longjt l p + longjf l p - 2) zero_insn"
      using e jt jf by (auto simp: emit_branch_def pad_to_def Let_def split: if_splits)
    have "dir_ok bs ?o1 0" using o unfolding dir_ok_def c bs
      by (intro conjI impI) (auto intro!: exI [of _ 0])
    moreover have "dir_ok bs ?o2 1" using o unfolding dir_ok_def c bs
      by (intro conjI impI) (auto intro!: exI [of _ 1])
    ultimately show ?thesis using bs by blast
  next
    assume o: "256 \<le> ?o1" "\<not> 256 \<le> ?o2"
    then have bs: "bs = (insn_of (b_s (g ! p)))\<lparr>i_jt := 0, i_jf := ucast ?o2\<rparr> #
        ja_insn (?o1 - 1) # replicate (longjt l p + longjf l p - 1) zero_insn"
      using e jt jf by (auto simp: emit_branch_def pad_to_def Let_def split: if_splits)
    have "dir_ok bs ?o1 0" using o unfolding dir_ok_def c bs
      by (intro conjI impI) (auto intro!: exI [of _ 0])
    moreover have "dir_ok bs ?o2 (ucast ?o2)" using o unfolding dir_ok_def c bs by simp
    ultimately show ?thesis using bs by blast
  next
    assume o: "\<not> 256 \<le> ?o1" "256 \<le> ?o2"
    then have bs: "bs = (insn_of (b_s (g ! p)))\<lparr>i_jt := ucast ?o1, i_jf := 0\<rparr> #
        ja_insn (?o2 - 1) # replicate (longjt l p + longjf l p - 1) zero_insn"
      using e jt jf by (auto simp: emit_branch_def pad_to_def Let_def split: if_splits)
    have "dir_ok bs ?o2 0" using o unfolding dir_ok_def c bs
      by (intro conjI impI) (auto intro!: exI [of _ 0])
    moreover have "dir_ok bs ?o1 (ucast ?o1)" using o unfolding dir_ok_def c bs by simp
    ultimately show ?thesis using bs by blast
  next
    assume o: "\<not> 256 \<le> ?o1" "\<not> 256 \<le> ?o2"
    then have bs: "bs = (insn_of (b_s (g ! p)))\<lparr>i_jt := ucast ?o1, i_jf := ucast ?o2\<rparr> #
        replicate (longjt l p + longjf l p) zero_insn"
      using e jt jf by (auto simp: emit_branch_def pad_to_def Let_def split: if_splits)
    have "dir_ok bs ?o2 (ucast ?o2)" "dir_ok bs ?o1 (ucast ?o1)"
      using o unfolding dir_ok_def c bs by simp_all
    then show ?thesis using bs by blast
  qed
  then show thesis using that by blast
qed

lemma dir_ok_goes:
  assumes d: "dir_ok bs (branch_off offs q t) j" and c: "code_at f q bs"
    and t: "offs t < length f" and len: "length f < 4294967296"
  shows "bpf_loop f pk (jump_to q (ucast j), r) = bpf_loop f pk (offs t, r)"
proof -
  obtain n where n: "256 \<le> branch_off offs q t \<Longrightarrow> j = of_nat n \<and> n < 2 \<and> n + 1 < length bs \<and>
      bs ! (n + 1) = ja_insn (branch_off offs q t - of_nat (n + 1))"
    using d by (auto simp: dir_ok_def)
  show ?thesis
    by (rule branch_dir [where n = n and off = "branch_off offs q t"])
      (use d n code_at_nth [OF c, of "n + 1"] t len in \<open>auto simp: branch_off_def dir_ok_def\<close>)
qed

lemma branch_at:
  assumes e: "emit_branch g l offs p slen = Inr bs" and c: "code_at f (offs p + slen) bs"
    and g: "graph_ok g" "p < length g" "block_ok (g ! p)"
    and t: "\<And>k. k \<in> set (kids g p) \<Longrightarrow> offs k < length f" and len: "length f < 4294967296"
  shows "bpf_loop f pk (offs p + slen, r) = cont (exec_branch g p r) (\<lambda>t. bpf_loop f pk (offs t, r))"
proof (rule graph_ok_cases [OF g(1,2)])
  assume jt: "JT g p = None"
  then obtain es where "bs = insn_of (b_s (g ! p)) # es"
    using e by (auto simp: emit_branch_def Let_def pad_to_def)
  then have f: "offs p + slen < length f" "f ! (offs p + slen) = insn_of (b_s (g ! p))"
    using c by (simp_all add: code_at_Cons)
  have "decode (s_code (b_s (g ! p))) \<in> {Some RetK, Some RetA}"
    using g(3) jt by (auto simp: block_ok_def JT_def split: option.splits bpf_op.splits)
  then show ?thesis using f decode_class(1)
    by (subst bpf_loop_cont) (auto simp: bpf_step_def insn_of_def exec_branch_def)
next
  fix t fl assume jt: "JT g p = Some t" and jf: "JF g p = Some fl" and k: "kids g p = [t, fl]"
  obtain a b es where bs: "bs = (insn_of (b_s (g ! p)))\<lparr>i_jt := a, i_jf := b\<rparr> # es"
    and d: "dir_ok bs (branch_off offs (offs p + slen) t) a"
      "dir_ok bs (branch_off offs (offs p + slen) fl) b"
    by (rule emit_branch_shape [OF e jt jf])
  then have f: "offs p + slen < length f"
      "f ! (offs p + slen) = (insn_of (b_s (g ! p)))\<lparr>i_jt := a, i_jf := b\<rparr>"
    using c by (simp_all add: code_at_Cons)
  obtain j x where dec: "decode (s_code (b_s (g ! p))) = Some (Jmp j x)"
    using g(3) jt by (auto simp: block_ok_def JT_def split: option.splits bpf_op.splits)
  have "offs t < length f" "offs fl < length f" using t k by simp_all
  then have go: "bpf_loop f pk (jump_to (offs p + slen) (ucast a), r) = bpf_loop f pk (offs t, r)"
      "bpf_loop f pk (jump_to (offs p + slen) (ucast b), r) = bpf_loop f pk (offs fl, r)"
    using dir_ok_goes [OF d(1) c _ len] dir_ok_goes [OF d(2) c _ len] by simp_all
  have "bpf_step f pk (offs p + slen, r) =
      Next (jump_to (offs p + slen) (if jump_taken j (rA r) (src_val x (s_k (b_s (g ! p))) r)
        then ucast a else ucast b), r)"
    using f dec decode_class(1) [OF dec] by (simp add: bpf_step_def insn_of_def)
  then show ?thesis using go dec jt jf
    by (subst bpf_loop_cont) (simp add: exec_branch_def Let_def)
qed


section \<open>A placed block does what the graph says\<close>

definition placed :: "graph \<Rightarrow> longs \<Rightarrow> bpf_insn list \<Rightarrow> (nat \<Rightarrow> nat) \<Rightarrow> nat \<Rightarrow> bool" where
  "placed g l f offs b \<longleftrightarrow> (\<exists>bs. emit_branch g l offs b (slength (b_stmts (g ! b))) = Inr bs \<and>
     code_at f (offs b) (map insn_of (live_stmts (b_stmts (g ! b))) @ bs))"

lemma emit_branch_nonempty: "emit_branch g l offs p slen = Inr bs \<Longrightarrow> bs \<noteq> []"
  by (auto simp: emit_branch_def Let_def pad_to_def split: option.splits if_splits)

lemma placed_in: "placed g l f offs b \<Longrightarrow> offs b < length f"
proof -
  assume "placed g l f offs b"
  then obtain bs where "bs \<noteq> []" "code_at f (offs b) (map insn_of (live_stmts (b_stmts (g ! b))) @ bs)"
    unfolding placed_def using emit_branch_nonempty by metis
  then show ?thesis by (cases bs) (auto simp: code_at_def)
qed

lemma list_all_nth: "list_all P xs \<Longrightarrow> i < length xs \<Longrightarrow> P (xs ! i)"
  by (simp add: list_all_length)

lemma placed_runs:
  assumes g: "graph_wf g" "b < length g" and p: "placed g l f offs b"
    and t: "\<And>k. k \<in> set (kids g b) \<Longrightarrow> offs k < length f" and len: "length f < 4294967296"
  shows "bpf_loop f pk (offs b, r) = cont (exec_block g pk (b, r)) (\<lambda>(t, r'). bpf_loop f pk (offs t, r'))"
proof -
  let ?ss = "live_stmts (b_stmts (g ! b))" and ?slen = "slength (b_stmts (g ! b))"
  have ok: "graph_ok g" "block_ok (g ! b)" using g by (auto simp: graph_wf_def list_all_nth)
  obtain bs where e: "emit_branch g l offs b ?slen = Inr bs"
    and c: "code_at f (offs b) (map insn_of ?ss)" "code_at f (offs b + ?slen) bs"
    using p by (auto simp: placed_def code_at_append slength_live)
  have wf: "list_all wf_stmt ?ss" "\<forall>s \<in> set ?ss. s_code s \<noteq> NOP"
    using ok(2) by (auto simp: block_ok_def live_stmts_def list_all_iff)
  have "bpf_loop f pk (offs b, r) =
      cont (exec_stmts pk ?ss r) (\<lambda>r'. bpf_loop f pk (offs b + length ?ss, r'))"
    by (rule stmts_at [OF wf c(1)])
  also have "\<dots> = cont (exec_stmts pk ?ss r)
      (\<lambda>r'. cont (exec_branch g b r') (\<lambda>t. bpf_loop f pk (offs t, r')))"
    using branch_at [OF e c(2) ok(1) g(2) ok(2) t len] by (simp add: slength_live)
  also have "\<dots> = cont (exec_block g pk (b, r)) (\<lambda>(t, r'). bpf_loop f pk (offs t, r'))"
    by (simp add: exec_block_def exec_live_stmts)
  finally show ?thesis .
qed

lemma cont_cong: "(\<And>x. r = Next x \<Longrightarrow> k x = k' x) \<Longrightarrow> cont r k = cont r k'"
  by (cases r) auto

lemma exec_block_kid: "exec_block g pk (b, r) = Next (t, r') \<Longrightarrow> t \<in> set (kids g b)"
  by (auto simp: exec_block_def exec_branch_def and_then_Next kids_def opt_list_def Let_def
      split: option.splits bpf_op.splits if_splits)

lemma placed_all_runs:
  assumes g: "graph_wf g" "ranked rk g" and V: "V \<subseteq> {..<length g}"
    and closed: "\<And>b k. b \<in> V \<Longrightarrow> k \<in> set (kids g b) \<Longrightarrow> k \<in> V"
    and p: "\<And>b. b \<in> V \<Longrightarrow> placed g l f offs b" and len: "length f < 4294967296"
  shows "b \<in> V \<Longrightarrow> bpf_loop f pk (offs b, r) = graph_loop g pk (b, r)"
proof (induction "rk b" arbitrary: b r rule: less_induct)
  case less
  have b: "b < length g" using V less.prems by auto
  have "offs k < length f" if "k \<in> set (kids g b)" for k
    using placed_in [OF p [OF closed [OF less.prems that]]] .
  then have "bpf_loop f pk (offs b, r) =
      cont (exec_block g pk (b, r)) (\<lambda>(t, r'). bpf_loop f pk (offs t, r'))"
    using placed_runs [OF g(1) b p [OF less.prems] _ len] by blast
  also have "\<dots> = cont (exec_block g pk (b, r)) (graph_loop g pk)"
  proof (rule cont_cong)
    fix x assume x: "exec_block g pk (b, r) = Next x"
    obtain t r' where tr: "x = (t, r')" by (cases x)
    have k: "t \<in> set (kids g b)" using x tr exec_block_kid by blast
    from less.hyps [OF rankedD [OF g(2) b k] closed [OF less.prems k]] tr
    show "(case x of (t, r') \<Rightarrow> bpf_loop f pk (offs t, r')) = graph_loop g pk x" by simp
  qed
  finally show ?case using graph_loop_cont [of g pk "(b, r)"] by simp
qed

section \<open>The traversal places every block\<close>

definition flags :: "longs \<Rightarrow> nat" where "flags l = card (l_jt l) + card (l_jf l)"

definition flags_in :: "graph \<Rightarrow> longs \<Rightarrow> bool" where
  "flags_in g l \<longleftrightarrow> l_jt l \<subseteq> {..<length g} \<and> l_jf l \<subseteq> {..<length g}"

definition retried :: "graph \<Rightarrow> longs \<Rightarrow> conv_error \<Rightarrow> bool" where
  "retried g l e \<longleftrightarrow> (\<exists>l' offs. e = Retry l' offs \<and> flags_in g l' \<and> flags l' = flags l + 1)"

lemma flags_insert:
  assumes "flags_in g l" and "p < length g"
  shows "longjt l p = 0 \<Longrightarrow> retried g l (Retry (l\<lparr>l_jt := insert p (l_jt l)\<rparr>) offs)"
    and "longjf l p = 0 \<Longrightarrow> retried g l (Retry (l\<lparr>l_jf := insert p (l_jf l)\<rparr>) offs)"
proof -
  have "finite (l_jt l)" "finite (l_jf l)"
    using assms by (auto simp: flags_in_def intro: finite_subset [of _ "{..<length g}"])
  then show "longjt l p = 0 \<Longrightarrow> retried g l (Retry (l\<lparr>l_jt := insert p (l_jt l)\<rparr>) offs)"
    and "longjf l p = 0 \<Longrightarrow> retried g l (Retry (l\<lparr>l_jf := insert p (l_jf l)\<rparr>) offs)"
    using assms by (auto simp: retried_def flags_in_def flags_def longjt_def longjf_def split: if_splits)
qed

lemma flags_bound: "flags_in g l \<Longrightarrow> flags l \<le> 2 * length g"
proof -
  assume "flags_in g l"
  then have "card (l_jt l) \<le> card {..<length g}" "card (l_jf l) \<le> card {..<length g}"
    unfolding flags_in_def by (intro card_mono; simp)+
  then show ?thesis by (simp add: flags_def)
qed

lemma emit_branch_cases:
  assumes g: "graph_ok g" "p < length g" and l: "flags_in g l"
  shows "case emit_branch g l offs p slen of Inl e \<Rightarrow> retried g l e
         | Inr bs \<Rightarrow> length bs = 1 + longjt l p + longjf l p"
proof (rule graph_ok_cases [OF g])
  fix t f assume k: "JT g p = Some t" "JF g p = Some f"
  have lj: "longjt l p = 0 \<or> longjt l p = 1" "longjf l p = 0 \<or> longjf l p = 1"
    by (auto simp: longjt_def longjf_def)
  show ?thesis using k flags_insert [OF l g(2)] lj
    by (auto simp: emit_branch_def Let_def pad_to_def)
qed (simp add: emit_branch_def Let_def pad_to_def)

lemma emit_branch_cong:
  assumes "offs p = offs' p" and "\<And>k. k \<in> set (kids g p) \<Longrightarrow> offs k = offs' k"
    and "emit_branch g l offs p slen = Inr bs"
  shows "emit_branch g l offs' p slen = Inr bs"
proof -
  have "branch_off offs (offs p + slen) k = branch_off offs' (offs' p + slen) k" if "k \<in> set (kids g p)" for k
    using assms(1,2) that by (simp add: branch_off_def)
  moreover have "t \<in> set (kids g p)" if "JT g p = Some t" for t
    using that by (simp add: kids_def opt_list_def)
  moreover have "t \<in> set (kids g p)" if "JF g p = Some t" for t
    using that by (simp add: kids_def opt_list_def)
  ultimately show ?thesis using assms(3)
    by (auto simp: emit_branch_def Let_def split: option.splits if_splits)
qed

lemma code_at_blit_new: "i + length ys \<le> length xs \<Longrightarrow> code_at (blit xs i ys) i ys"
  by (simp add: code_at_def blit_def nth_append)

lemma code_at_blit_old:
  assumes "code_at xs j zs" and "i + length ys \<le> j" and "j \<le> length xs"
  shows "code_at (blit xs i ys) j zs"
  using assms by (auto simp: code_at_def blit_def nth_append min_def)

lemma length_blit: "i + length ys \<le> length xs \<Longrightarrow> length (blit xs i ys) = length xs"
  by (simp add: blit_def)

definition conv_inv :: "graph \<Rightarrow> longs \<Rightarrow> nat \<Rightarrow> nat set \<Rightarrow> conv \<Rightarrow> nat set \<Rightarrow> bool" where
  "conv_inv g l n V st D \<longleftrightarrow> D \<subseteq> V \<and> length (cv_code st) = n \<and>
     cv_tail st + (\<Sum>b \<in> D. block_size g l b) = n \<and>
     (\<forall>b \<in> D. set (kids g b) \<subseteq> D \<and> cv_tail st \<le> cv_off st b \<and> placed g l (cv_code st) (cv_off st) b)"

lemma placed_mono:
  assumes p: "placed g l xs offs b" and i: "i + length ys \<le> offs b" and b: "b \<noteq> p"
    and k: "p \<notin> set (kids g b)"
  shows "placed g l (blit xs i ys) (offs(p := i)) b"
proof -
  let ?slen = "slength (b_stmts (g ! b))"
  obtain bs where e: "emit_branch g l offs b ?slen = Inr bs"
    and c: "code_at xs (offs b) (map insn_of (live_stmts (b_stmts (g ! b))) @ bs)"
    using p by (auto simp: placed_def)
  have "emit_branch g l (offs(p := i)) b ?slen = Inr bs"
    by (rule emit_branch_cong [OF _ _ e]) (use b k in auto)
  moreover have "offs b \<le> length xs" using placed_in [OF p] by simp
  ultimately show ?thesis using code_at_blit_old [OF c i] b by (auto simp: placed_def)
qed

lemma place_block_inv:
  assumes g: "graph_wf g" "V \<subseteq> {..<length g}" "finite V" and l: "flags_in g l"
    and n: "n = (\<Sum>b \<in> V. block_size g l b)"
    and i: "conv_inv g l n V st D" and p: "p \<in> V" "p \<notin> D" "set (kids g p) \<subseteq> D"
  shows "case place_block g l p st of Inl e \<Rightarrow> retried g l e | Inr st' \<Rightarrow> conv_inv g l n V st' (insert p D)"
proof -
  let ?ss = "live_stmts (b_stmts (g ! p))" and ?slen = "slength (b_stmts (g ! p))"
  let ?dst = "cv_tail st - block_size g l p"
  let ?offs = "(cv_off st)(p := ?dst)"
  have pl: "p < length g" using g(2) p(1) by auto
  have ok: "graph_ok g" "block_ok (g ! p)" using g(1) pl by (auto simp: graph_wf_def list_all_nth)
  have fin: "finite D" using i g(3) by (auto simp: conv_inv_def intro: finite_subset)
  have "(\<Sum>b \<in> insert p D. block_size g l b) \<le> n"
    unfolding n by (rule sum_mono2) (use i p(1) g(3) in \<open>auto simp: conv_inv_def\<close>)
  then have room: "block_size g l p \<le> cv_tail st" "cv_tail st \<le> n"
    using i p(2) fin by (auto simp: conv_inv_def)
  have es: "emit_stmts ?slen (b_stmts (g ! p)) 0 = Inr (map insn_of ?ss)"
    using ok(2) by (simp add: block_ok_def emit_stmts_wf)
  note eb = emit_branch_cases [OF ok(1) pl l, of ?offs ?slen]
  show ?thesis
  proof (cases "emit_branch g l ?offs p ?slen")
    case (Inl e)
    then have "place_block g l p st = Inl e"
      using room es by (simp add: place_block_def block_size_def Let_def)
    then show ?thesis using eb Inl by simp
  next
    case (Inr bs)
    let ?is = "map insn_of ?ss @ bs"
    have lb: "length ?is = block_size g l p"
      using eb Inr by (simp add: block_size_def slength_live)
    define st' where "st' = st\<lparr>cv_tail := ?dst, cv_off := ?offs, cv_code := blit (cv_code st) ?dst ?is\<rparr>"
    have r: "place_block g l p st = Inr st'"
      using room es Inr by (simp add: place_block_def block_size_def Let_def st'_def)
    have len: "?dst + length ?is \<le> length (cv_code st)" using room lb i by (auto simp: conv_inv_def)
    have new: "placed g l (cv_code st') (cv_off st') p"
      using Inr code_at_blit_new [OF len] by (auto simp: placed_def st'_def)
    have old: "placed g l (cv_code st') (cv_off st') b" and off: "?dst \<le> cv_off st' b" if b: "b \<in> D" for b
    proof -
      have b': "set (kids g b) \<subseteq> D" "cv_tail st \<le> cv_off st b" "placed g l (cv_code st) (cv_off st) b"
        using i b by (auto simp: conv_inv_def)
      have "?dst + length ?is \<le> cv_off st b" using b'(2) room lb by simp
      then show "placed g l (cv_code st') (cv_off st') b"
        using placed_mono [OF b'(3), of ?dst ?is p] b b'(1) p(2) unfolding st'_def by fastforce
      show "?dst \<le> cv_off st' b" using b'(2) b p(2) by (auto simp: st'_def)
    qed
    have "conv_inv g l n V st' (insert p D)"
      unfolding conv_inv_def
    proof (intro conjI ballI)
      show "insert p D \<subseteq> V" using i p(1) by (auto simp: conv_inv_def)
      show "length (cv_code st') = n" using i length_blit [OF len] by (simp add: conv_inv_def st'_def)
      show "cv_tail st' + (\<Sum>b \<in> insert p D. block_size g l b) = n"
        using i room p(2) fin by (simp add: conv_inv_def st'_def)
      fix b assume "b \<in> insert p D"
      then show "set (kids g b) \<subseteq> insert p D" "cv_tail st' \<le> cv_off st' b"
        "placed g l (cv_code st') (cv_off st') b"
        using new old off i p(3) by (auto simp: conv_inv_def) (auto simp: st'_def)
    qed
    then show ?thesis using r by simp
  qed
qed

text \<open>What every step of the layout keeps, the traversal keeps.\<close>

lemma convert_root_inv:
  assumes g: "graph_ok g" "ranked rk g" "root < length g"
    and step: "\<And>b s D. I s D \<Longrightarrow> b \<in> reach_set g root \<Longrightarrow> b \<notin> D \<Longrightarrow> set (kids g b) \<subseteq> D \<Longrightarrow>
        case place_block g l b s of Inl e \<Rightarrow> Q e | Inr s' \<Rightarrow> I s' (insert b D)"
    and enter: "\<And>b s D. I s D \<Longrightarrow> I (s\<lparr>cv_marked := insert b (cv_marked s)\<rparr>) D"
    and st: "I st {}" "cv_marked st = {}"
  shows "case convert_code_r (Suc (length g)) g l (Some root) st of
           Inl e \<Rightarrow> Q e | Inr st' \<Rightarrow> I st' (reach_set g root)"
proof -
  let ?V = "reach_set g root"
  have V: "finite ?V" "?V \<subseteq> {..<length g}"
    using finite_reach_set [OF g(1,3)] reach_in [OF _ g(1,3)] by (auto simp: reach_set_def)
  have closed: "k \<in> ?V \<and> rk k < rk x" if "x \<in> ?V" "k \<in> set (kids_rev g x)" for x k
    using that rankedD [OF g(2)] V(2) by (auto simp: reach_set_def intro: reach_step)
  have card: "card ?V < Suc (length g)" using card_mono [OF finite_lessThan V(2)] by simp
  have "case convert_code_r (Suc (length g)) g l (Some root) st of
           Inl e \<Rightarrow> Q e
         | Inr st' \<Rightarrow> I st' {d. reach (kids_rev g) root d} \<and>
             cv_marked st' = {d. reach (kids_rev g) root d}"
  proof (rule cv.visit_root_inv [where I = I, OF V(1) closed])
    show "case place_block g l b s of Inl e \<Rightarrow> Q e | Inr s' \<Rightarrow> I s' (insert b D)"
      if "I s D" "b \<in> ?V" "b \<notin> D" "set (kids_rev g b) \<subseteq> D" for b s D
      using step [OF that(1-3)] that(4) by simp
    show "root \<in> ?V" by (simp add: reach_set_def)
  qed (use card st enter in auto)
  then show ?thesis by (auto simp: reach_set_def split: sum.splits)
qed

lemma convert_root:
  assumes g: "graph_wf g" "ranked rk g" "root < length g" and l: "flags_in g l"
    and n: "n = (\<Sum>b \<in> reach_set g root. block_size g l b)"
    and st: "st = \<lparr>cv_marked = {}, cv_tail = n, cv_off = offs, cv_code = replicate n zero_insn\<rparr>"
  shows "case convert_code_r (Suc (length g)) g l (Some root) st of
           Inl e \<Rightarrow> retried g l e
         | Inr st' \<Rightarrow> conv_inv g l n (reach_set g root) st' (reach_set g root)"
proof -
  let ?V = "reach_set g root"
  have ok: "graph_ok g" using g(1) by (simp add: graph_wf_def)
  have V: "finite ?V" "?V \<subseteq> {..<length g}"
    using finite_reach_set [OF ok g(3)] reach_in [OF _ ok g(3)] by (auto simp: reach_set_def)
  show ?thesis
  proof (rule convert_root_inv [where I = "conv_inv g l n ?V" and Q = "retried g l", OF ok g(2,3)])
    show "case place_block g l b s of Inl e \<Rightarrow> retried g l e | Inr s' \<Rightarrow> conv_inv g l n ?V s' (insert b D)"
      if "conv_inv g l n ?V s D" "b \<in> ?V" "b \<notin> D" "set (kids g b) \<subseteq> D" for b s D
      using place_block_inv [OF g(1) V(2,1) l n that] .
  qed (use st in \<open>auto simp: conv_inv_def\<close>)
qed

text \<open>The root is laid out last, at the start of the array.\<close>

lemma convert_root_off:
  assumes "convert_code_r (Suc m) g l (Some root) st = Inr st'" and "root \<notin> cv_marked st"
  shows "cv_off st' root = cv_tail st'"
  using assms by (auto simp: place_block_def Let_def split: sum.splits if_splits)

section \<open>The loop and the theorem\<close>

definition code_of :: "graph \<Rightarrow> nat \<Rightarrow> bpf_insn list \<Rightarrow> bool" where
  "code_of g root f \<longleftrightarrow> length f \<le> (\<Sum>b \<in> reach_set g root. slength (b_stmts (g ! b)) + 3) \<and>
     (length f < 4294967296 \<longrightarrow>
        (\<forall>pk r. bpf_loop f pk (0, r) = graph_loop g pk (root, r)))"

lemma conv_inv_code_of:
  assumes g: "graph_wf g" "ranked rk g" "root < length g"
    and n: "n = (\<Sum>b \<in> reach_set g root. block_size g l b)"
    and i: "conv_inv g l n (reach_set g root) st (reach_set g root)"
    and off: "cv_off st root = cv_tail st"
  shows "code_of g root (cv_code st)"
proof -
  let ?V = "reach_set g root" and ?f = "cv_code st"
  have ok: "graph_ok g" using g(1) by (simp add: graph_wf_def)
  have V: "?V \<subseteq> {..<length g}" "root \<in> ?V"
    using reach_in [OF _ ok g(3)] by (auto simp: reach_set_def)
  have len: "length ?f = n" and tail: "cv_tail st = 0"
    and p: "\<And>b. b \<in> ?V \<Longrightarrow> set (kids g b) \<subseteq> ?V \<and> placed g l ?f (cv_off st) b"
    using i n by (auto simp: conv_inv_def)
  have "n \<le> (\<Sum>b \<in> ?V. slength (b_stmts (g ! b)) + 3)"
    unfolding n by (rule sum_mono) (simp add: block_size_def longjt_def longjf_def)
  moreover have "bpf_loop ?f pk (cv_off st root, r) = graph_loop g pk (root, r)"
    if "length ?f < 4294967296" for pk r
    by (rule placed_all_runs [OF g(1,2) V(1) _ _ that V(2)]) (use p in auto)
  ultimately show ?thesis using len tail off by (simp add: code_of_def)
qed

lemma icode_loop_total:
  assumes g: "graph_wf g" "ranked rk g" "root < length g"
  shows "flags_in g l \<Longrightarrow> 2 * length g < m + flags l \<Longrightarrow>
    \<exists>f. icode_loop m g root l offs = Inr f \<and> code_of g root f"
proof (induction m arbitrary: l offs)
  case 0
  then show ?case using flags_bound [of g l] by simp
next
  case (Suc m)
  let ?n = "\<Sum>b \<in> reach_set g root. block_size g l b"
  let ?st = "\<lparr>cv_marked = {}, cv_tail = ?n, cv_off = offs, cv_code = replicate ?n zero_insn\<rparr>"
  let ?r = "convert_code_r (Suc (length g)) g l (Some root) ?st"
  have ok: "graph_ok g" using g(1) by (simp add: graph_wf_def)
  have step: "icode_loop (Suc m) g root l offs =
      (case ?r of Inr st \<Rightarrow> Inr (cv_code st) | Inl (Retry l' offs') \<Rightarrow> icode_loop m g root l' offs'
       | Inl e \<Rightarrow> Inl e)"
    using count_stmts_total [OF ok g(2,3)] by simp
  note c = convert_root [OF g Suc.prems(1) refl refl, of offs]
  show ?case
  proof (cases ?r)
    case (Inl e)
    then obtain l' offs' where e: "e = Retry l' offs'" "flags_in g l'" "flags l' = flags l + 1"
      using c by (auto simp: retried_def)
    have "2 * length g < m + flags l'" using Suc.prems(2) e(3) by simp
    from Suc.IH [OF e(2) this, of offs'] show ?thesis using step Inl e(1) by simp
  next
    case (Inr st)
    have "code_of g root (cv_code st)"
    proof (rule conv_inv_code_of [OF g refl])
      show "conv_inv g l ?n (reach_set g root) st (reach_set g root)" using c Inr by simp
      show "cv_off st root = cv_tail st" using convert_root_off [OF Inr] by simp
    qed
    then show ?thesis using step Inr by simp
  qed
qed

lemma icode_graph:
  assumes "graph_wf g" and "ranked rk g" and "root < length g"
    and "(\<Sum>b \<in> reach_set g root. slength (b_stmts (g ! b)) + 3) < 4294967296"
  shows "\<exists>f. icode_to_fcode g root = Inr f \<and>
     length f \<le> (\<Sum>b \<in> reach_set g root. slength (b_stmts (g ! b)) + 3) \<and>
     (\<forall>pk mem. bpf_filter (Some f) mem pk = graph_loop g pk (root, \<lparr>rA = 0, rX = 0, rM = mem\<rparr>))"
proof -
  have "\<exists>f. icode_to_fcode g root = Inr f \<and> code_of g root f"
    unfolding icode_to_fcode_def
    by (rule icode_loop_total [OF assms(1-3)]) (simp_all add: flags_in_def flags_def)
  then show ?thesis using assms(4) by (auto simp: code_of_def bpf_filter_def)
qed

text \<open>C33: the back end of the filter compiler is correct. For every well-formed acyclic flow graph
  the conversion loop ends without an error, the array has at most two extra jumps per block, and
  running the filter from it gives on every packet the result of walking the graph.\<close>

theorem icode_correct:
  assumes "graph_wf g" and "ranked rk g" and "root < length g"
    and "(\<Sum>b \<in> reach_set g root. slength (b_stmts (g ! b)) + 3) < 4294967296"
  shows "\<exists>f. icode_to_fcode g root = Inr f \<and>
     length f \<le> (\<Sum>b \<in> reach_set g root. slength (b_stmts (g ! b)) + 3) \<and>
     (\<forall>pk mem. bpf_filter (Some f) mem pk = graph_loop g pk (root, \<lparr>rA = 0, rX = 0, rM = mem\<rparr>))"
  using icode_graph [OF assms] .

text \<open>\<open>ether proto \ip\<close>: load the type, compare, accept or reject; both returns follow the test.\<close>

theorem icode_correct_witness:
  "let st = (\<lambda>c k. \<lparr>s_code = c, s_jt = None, s_jf = None, s_k = k\<rparr>);
       g = [\<lparr>b_stmts = [st 0x28 12], b_s = st 0x15 0x800, b_jt = Some 1, b_jf = Some 2\<rparr>,
            \<lparr>b_stmts = [], b_s = st 0x06 96, b_jt = None, b_jf = None\<rparr>,
            \<lparr>b_stmts = [], b_s = st 0x06 0, b_jt = None, b_jf = None\<rparr>]
   in \<exists>f. icode_to_fcode g 0 = Inr f \<and> length f \<le> 10 \<and>
      (\<forall>pk mem. bpf_filter (Some f) mem pk = graph_loop g pk (0, \<lparr>rA = 0, rX = 0, rM = mem\<rparr>))"
proof -
  let ?st = "\<lambda>c k. \<lparr>s_code = c, s_jt = None, s_jf = None, s_k = k\<rparr> :: stmt"
  let ?g = "[\<lparr>b_stmts = [?st 0x28 12], b_s = ?st 0x15 0x800, b_jt = Some 1, b_jf = Some 2\<rparr>,
            \<lparr>b_stmts = [], b_s = ?st 0x06 96, b_jt = None, b_jf = None\<rparr>,
            \<lparr>b_stmts = [], b_s = ?st 0x06 0, b_jt = None, b_jf = None\<rparr>] :: graph"
  have wf: "graph_wf ?g"
    by (simp add: graph_wf_def graph_ok_def block_ok_def wf_stmt_def bpf_exec)
  have rk: "ranked (\<lambda>b. if b = 0 then 1 else 0) ?g"
    by (simp add: ranked_def kids_def JT_def JF_def opt_list_def upt_rec)
  have "reach_set ?g 0 \<subseteq> {..<length ?g}"
    using reach_in [of ?g 0] wf by (auto simp: reach_set_def graph_wf_def)
  then have "(\<Sum>b \<in> reach_set ?g 0. slength (b_stmts (?g ! b)) + 3) \<le>
      (\<Sum>b \<in> {..<length ?g}. slength (b_stmts (?g ! b)) + 3)"
    by (rule sum_mono2 [OF finite_lessThan]) simp
  also have "\<dots> = 10" by (simp add: lessThan_Suc numeral_3_eq_3)
  finally have s: "(\<Sum>b \<in> reach_set ?g 0. slength (b_stmts (?g ! b)) + 3) \<le> 10" .
  have small: "(\<Sum>b \<in> reach_set ?g 0. slength (b_stmts (?g ! b)) + 3) < 4294967296"
    using s by linarith
  have "0 < length ?g" by simp
  from icode_correct [OF wf rk this small] obtain f where f: "icode_to_fcode ?g 0 = Inr f"
    "length f \<le> (\<Sum>b \<in> reach_set ?g 0. slength (b_stmts (?g ! b)) + 3)"
    "\<forall>pk mem. bpf_filter (Some f) mem pk = graph_loop ?g pk (0, \<lparr>rA = 0, rX = 0, rM = mem\<rparr>)"
    by (elim exE conjE) (rule that)
  have "length f \<le> 10" using f(2) s by linarith
  then show ?thesis unfolding Let_def using f(1,3) by (intro exI [of _ f] conjI)
qed

end
