(* ===== verification/Opt_Merge.thy ===== *)
theory Opt_Merge
  imports Icode
begin

text \<open>
  The last two passes of \<open>bpf_optimize\<close> (\<^verbatim>\<open>optimize.c\<close>): \<open>intern_blocks\<close> makes of the blocks that are equal one, and
  \<open>opt_root\<close> skips blocks at the root that decide nothing. The field \<open>link\<close> is a map from blocks; \<open>blocks\<close> is the array
  \<open>number_blks_r\<close> fills, which keeps the blocks of the graph as it was first.
\<close>

section \<open>Merging equal blocks\<close>

fun skip_nops :: "stmt list \<Rightarrow> stmt list" where
  "skip_nops [] = []"
| "skip_nops (s # ss) = (if s_code s = NOP then skip_nops ss else s # ss)"

lemma skip_nops_length: "length (skip_nops ss) \<le> length ss"
  by (induction ss) auto

function eq_slist :: "stmt list \<Rightarrow> stmt list \<Rightarrow> bool" where
  "eq_slist x y =
     (case skip_nops x of
        [] \<Rightarrow> skip_nops y = []
      | a # x' \<Rightarrow>
          (case skip_nops y of
             [] \<Rightarrow> False
           | b # y' \<Rightarrow> if s_code a \<noteq> s_code b \<or> s_k a \<noteq> s_k b then False else eq_slist x' y'))"
  by auto
termination
proof (relation "measure (\<lambda>(x, y). length x)")
  fix x y a x' b y'
  assume "skip_nops x = a # x'"
  then show "((x', y'), (x, y)) \<in> measure (\<lambda>(x, y). length x)" using skip_nops_length [of x] by simp
qed simp

declare eq_slist.simps [simp del]

definition eq_blk :: "graph \<Rightarrow> nat \<Rightarrow> nat \<Rightarrow> bool" where
  "eq_blk g b0 b1 \<longleftrightarrow>
     (if s_code (b_s (g ! b0)) = s_code (b_s (g ! b1)) \<and> s_k (b_s (g ! b0)) = s_k (b_s (g ! b1)) \<and>
         JT g b0 = JT g b1 \<and> JF g b0 = JF g b1
      then eq_slist (b_stmts (g ! b0)) (b_stmts (g ! b1)) else False)"

type_synonym links = "nat \<Rightarrow> nat option"

definition intern_link :: "graph \<Rightarrow> nat set \<Rightarrow> nat list \<Rightarrow> nat \<Rightarrow> links \<Rightarrow> links" where
  "intern_link g M blocks i link =
     (if blocks ! i \<notin> M then link
      else case find (\<lambda>j. blocks ! j \<in> M \<and> eq_blk g (blocks ! i) (blocks ! j)) [i + 1..<length blocks] of
             None \<Rightarrow> link
           | Some j \<Rightarrow>
               link(blocks ! i := Some (case link (blocks ! j) of Some t \<Rightarrow> t | None \<Rightarrow> blocks ! j)))"

definition intern_links :: "graph \<Rightarrow> nat set \<Rightarrow> nat list \<Rightarrow> links" where
  "intern_links g M blocks = fold (intern_link g M blocks) (rev [0..<length blocks - 1]) (\<lambda>_. None)"

text \<open>The edges of one block; the flag is \<open>done1\<close>.\<close>

definition relink :: "links \<Rightarrow> nat \<Rightarrow> graph \<times> bool \<Rightarrow> flow_error + graph \<times> bool" where
  "relink link p = (\<lambda>(g, done1).
     (case JT g p of
        None \<Rightarrow> Inr (g, done1)
      | Some t \<Rightarrow>
          (let (g1, done2) = (case link t of None \<Rightarrow> (g, done1)
                 | Some u \<Rightarrow> (g[p := (g ! p)\<lparr>b_jt := Some u\<rparr>], False)) in
           case JF g1 p of
             None \<Rightarrow> Inl NullPointer
           | Some f \<Rightarrow>
               Inr (case link f of None \<Rightarrow> (g1, done2)
                 | Some u \<Rightarrow> (g1[p := (g1 ! p)\<lparr>b_jf := Some u\<rparr>], False)))))"

definition intern_round :: "nat list \<Rightarrow> nat \<Rightarrow> graph \<Rightarrow> flow_error + graph \<times> bool" where
  "intern_round blocks root g =
     (case mark_code g root of
        Inl e \<Rightarrow> Inl e
      | Inr M \<Rightarrow> visit_all (relink (intern_links g M blocks)) blocks (g, True))"

fun intern_rounds :: "nat \<Rightarrow> nat list \<Rightarrow> nat \<Rightarrow> graph \<Rightarrow> flow_error + graph" where
  "intern_rounds 0 blocks root g = Inl OutOfFuel"
| "intern_rounds (Suc n) blocks root g =
     (case intern_round blocks root g of
        Inl e \<Rightarrow> Inl e
      | Inr (g', done1) \<Rightarrow> if done1 then Inr g' else intern_rounds n blocks root g')"

definition intern_blocks :: "nat list \<Rightarrow> nat \<Rightarrow> graph \<Rightarrow> flow_error + graph" where
  "intern_blocks blocks root g = intern_rounds (2 * length blocks * length blocks + 1) blocks root g"

section \<open>The root\<close>

fun skip_same :: "nat \<Rightarrow> graph \<Rightarrow> nat \<Rightarrow> flow_error + nat" where
  "skip_same 0 g b = Inl OutOfFuel"
| "skip_same (Suc n) g b =
     (if BPF_CLASS (s_code (b_s (g ! b))) = BPF_JMP \<and> JT g b = JF g b
      then (case JT g b of None \<Rightarrow> Inl NullPointer | Some t \<Rightarrow> skip_same n g t)
      else Inr b)"

text \<open>\<open>sappend\<close> follows its first argument to the end: it may not be empty.\<close>

definition opt_root :: "nat \<Rightarrow> graph \<Rightarrow> flow_error + nat \<times> graph" where
  "opt_root root g =
     (let s = b_stmts (g ! root); g1 = g[root := (g ! root)\<lparr>b_stmts := []\<rparr>] in
      case skip_same (Suc (length g)) g1 root of
        Inl e \<Rightarrow> Inl e
      | Inr b \<Rightarrow>
          (let tmp = b_stmts (g1 ! b) in
           if tmp \<noteq> [] \<and> s = [] then Inl NullPointer
           else Inr (b, g1[b := (g1 ! b)\<lparr>b_stmts :=
                  (if BPF_CLASS (s_code (b_s (g ! b))) = BPF_RET then [] else s @ tmp)\<rparr>])))"

section \<open>Equal blocks\<close>

abbreviation code_k :: "stmt \<Rightarrow> int \<times> u32" where
  "code_k s \<equiv> (s_code s, s_k s)"

definition same_block :: "graph \<Rightarrow> nat \<Rightarrow> nat \<Rightarrow> bool" where
  "same_block g a b \<longleftrightarrow> code_k (b_s (g ! a)) = code_k (b_s (g ! b)) \<and> JT g a = JT g b \<and> JF g a = JF g b \<and>
     map code_k (live_stmts (b_stmts (g ! a))) = map code_k (live_stmts (b_stmts (g ! b)))"

lemma skip_nops_Cons: "skip_nops x = a # x' \<Longrightarrow> live_stmts x = a # live_stmts x'"
  by (induction x) (auto simp: live_stmts_def split: if_splits)

lemma skip_nops_Nil: "skip_nops x = [] \<longleftrightarrow> live_stmts x = []"
  by (induction x) (auto simp: live_stmts_def)

lemma eq_slist_live: "eq_slist x y \<longleftrightarrow> map code_k (live_stmts x) = map code_k (live_stmts y)"
proof (induction x y rule: eq_slist.induct)
  case (1 x y)
  show ?case
  proof (cases "skip_nops x")
    case Nil
    then show ?thesis using skip_nops_Nil [of x] skip_nops_Nil [of y] by (auto simp: eq_slist.simps [of x y])
  next
    case (Cons a x')
    note x = skip_nops_Cons [OF Cons]
    show ?thesis
    proof (cases "skip_nops y")
      case Nil
      then show ?thesis using Cons x skip_nops_Nil [of y] by (simp add: eq_slist.simps [of x y])
    next
      case (Cons b y')
      then show ?thesis using "1.IH" [OF \<open>skip_nops x = a # x'\<close> Cons] x skip_nops_Cons [OF Cons] \<open>skip_nops x = a # x'\<close>
        by (auto simp: eq_slist.simps [of x y])
    qed
  qed
qed

lemma eq_blk_same: "eq_blk g a b \<longleftrightarrow> same_block g a b"
  by (auto simp: eq_blk_def same_block_def eq_slist_live)

lemma same_block_refl [simp]: "same_block g a a"
  by (simp add: same_block_def)

lemma same_block_trans: "same_block g a b \<Longrightarrow> same_block g b c \<Longrightarrow> same_block g a c"
  by (simp add: same_block_def)

lemma same_block_sym: "same_block g a b \<Longrightarrow> same_block g b a"
  by (simp add: same_block_def)

lemma same_block_kids: "same_block g a b \<Longrightarrow> kids g a = kids g b"
  by (simp add: same_block_def kids_def)

lemma exec_code_k: "map code_k x = map code_k y \<Longrightarrow> exec_stmts pk x r = exec_stmts pk y r"
proof (induction x arbitrary: y r)
  case (Cons s x)
  then obtain t y' where y: "y = t # y'" "s_code s = s_code t" "s_k s = s_k t" "map code_k x = map code_k y'" by auto
  have "exec_stmts pk x = exec_stmts pk y'" by (rule ext) (rule Cons.IH [OF y(4)])
  moreover have "exec_stmt pk s r = exec_stmt pk t r" by (simp only: exec_stmt_def y(2,3))
  ultimately show ?case by (simp add: y(1))
qed simp

lemma same_block_exec: "same_block g a b \<Longrightarrow> exec_block g pk (a, r) = exec_block g pk (b, r)"
proof -
  assume s: "same_block g a b"
  have "exec_stmts pk (b_stmts (g ! a)) r = exec_stmts pk (b_stmts (g ! b)) r"
    using exec_code_k [of "live_stmts (b_stmts (g ! a))" "live_stmts (b_stmts (g ! b))" pk r] s
    by (simp add: same_block_def exec_live_stmts)
  moreover have e: "s_code (b_s (g ! a)) = s_code (b_s (g ! b))" "s_k (b_s (g ! a)) = s_k (b_s (g ! b))"
    "JT g a = JT g b" "JF g a = JF g b" using s by (simp_all add: same_block_def)
  have "exec_branch g a r' = exec_branch g b r'" for r' by (simp only: exec_branch_def Let_def e)
  ultimately show ?thesis by (simp add: exec_block_def)
qed

section \<open>A round\<close>

text \<open>What holds of the graph when \<open>intern_blocks\<close> is called, and after every round.\<close>

definition interning :: "nat list \<Rightarrow> nat \<Rightarrow> graph \<Rightarrow> bool" where
  "interning blocks root g \<longleftrightarrow> graph_wf g \<and> root \<in> set blocks \<and> distinct blocks \<and> set blocks \<subseteq> {..<length g} \<and>
     (\<forall>b \<in> set blocks. set (kids g b) \<subseteq> set blocks)"

lemma fold_inv: "I s \<Longrightarrow> (\<And>x s. x \<in> set xs \<Longrightarrow> I s \<Longrightarrow> I (f x s)) \<Longrightarrow> I (fold f xs s)"
  by (induction xs arbitrary: s) auto

definition link_ok :: "graph \<Rightarrow> nat set \<Rightarrow> nat list \<Rightarrow> links \<Rightarrow> bool" where
  "link_ok g M blocks link \<longleftrightarrow> (\<forall>b t. link b = Some t \<longrightarrow> same_block g b t \<and> b \<in> M \<and> t \<in> M \<and>
     (\<exists>i j. i < j \<and> j < length blocks \<and> blocks ! i = b \<and> blocks ! j = t))"

lemma link_okD:
  assumes "link_ok g M blocks link" and "link b = Some t"
  shows "same_block g b t" "b \<in> M" "t \<in> M" "\<exists>i j. i < j \<and> j < length blocks \<and> blocks ! i = b \<and> blocks ! j = t"
  using assms by (auto simp: link_ok_def)

lemma find_from:
  assumes "find P [i + 1..<n] = Some j"
  shows "i < j" "j < n" "P j"
  using find_SomeD [OF assms] by auto

lemma intern_link_ok:
  assumes d: "distinct blocks" and l: "link_ok g M blocks link"
  shows "link_ok g M blocks (intern_link g M blocks i link)"
proof (cases "find (\<lambda>j. blocks ! j \<in> M \<and> eq_blk g (blocks ! i) (blocks ! j)) [i + 1..<length blocks]")
  case None
  then show ?thesis using l by (simp add: intern_link_def)
next
  case (Some j)
  note j = find_from [OF Some]
  let ?t = "case link (blocks ! j) of Some t \<Rightarrow> t | None \<Rightarrow> blocks ! j"
  have t: "same_block g (blocks ! i) ?t \<and> ?t \<in> M \<and> (\<exists>k. i < k \<and> k < length blocks \<and> blocks ! k = ?t)"
  proof (cases "link (blocks ! j)")
    case None
    then show ?thesis using j by (auto simp: eq_blk_same)
  next
    case (Some t)
    note t = link_okD [OF l Some]
    obtain i' k where k: "i' < k" "k < length blocks" "blocks ! i' = blocks ! j" "blocks ! k = t" using t(4) by blast
    have "i' = j" using d k j(2) by (metis nth_eq_iff_index_eq order.strict_trans)
    then have k': "i < k" using j k by simp
    have "same_block g (blocks ! i) t" using j(3) t(1) same_block_trans by (auto simp: eq_blk_same)
    then show ?thesis using Some t(3) k k' by auto
  qed
  show ?thesis
  proof (cases "blocks ! i \<in> M")
    case False
    then show ?thesis using l by (simp add: intern_link_def)
  next
    case True
    then have e: "intern_link g M blocks i link = link(blocks ! i := Some ?t)" using Some by (simp add: intern_link_def)
    show ?thesis unfolding e link_ok_def
      using t True link_okD [OF l] by (auto simp del: split_paired_Ex split: option.splits if_splits)
  qed
qed

lemma intern_links_ok: "distinct blocks \<Longrightarrow> link_ok g M blocks (intern_links g M blocks)"
  unfolding intern_links_def by (rule fold_inv [where I = "link_ok g M blocks"]) (simp add: link_ok_def, rule intern_link_ok)

lemma intern_link_grows: "link b \<noteq> None \<Longrightarrow> intern_link g M blocks i link b \<noteq> None"
  by (auto simp: intern_link_def split: option.splits)

lemma intern_links_complete:
  assumes "i < j" and "j < length blocks" and "blocks ! i \<in> M" and "blocks ! j \<in> M"
    and "same_block g (blocks ! i) (blocks ! j)"
  shows "intern_links g M blocks (blocks ! i) \<noteq> None"
proof -
  have "i \<in> set (rev [0..<length blocks - 1])" using assms(1,2) by auto
  then obtain pre post where p: "rev [0..<length blocks - 1] = pre @ i # post" by (meson split_list)
  have "find (\<lambda>j. blocks ! j \<in> M \<and> eq_blk g (blocks ! i) (blocks ! j)) [i + 1..<length blocks] \<noteq> None"
    using assms by (auto simp: find_None_iff eq_blk_same)
  then have s: "intern_link g M blocks i link (blocks ! i) \<noteq> None" for link
    using assms(3) by (auto simp: intern_link_def)
  show ?thesis unfolding intern_links_def p fold_append fold.simps comp_apply
    by (rule fold_inv [where I = "\<lambda>l. l (blocks ! i) \<noteq> None"]) (rule s, rule intern_link_grows)
qed

text \<open>The edges a round changes.\<close>

definition linked :: "links \<Rightarrow> nat \<Rightarrow> nat" where
  "linked link d = (case link d of Some t \<Rightarrow> t | None \<Rightarrow> d)"

definition redirect :: "links \<Rightarrow> block \<Rightarrow> block" where
  "redirect link b = b\<lparr>b_jt := map_option (linked link) (b_jt b), b_jf := map_option (linked link) (b_jf b)\<rparr>"

lemma relink_block:
  assumes "p < length g" and "JT g p = None \<longleftrightarrow> JF g p = None"
  shows "relink link p (g, d) = Inr (g[p := redirect link (g ! p)], d \<and> (\<forall>k \<in> set (kids g p). link k = None))"
proof (cases "JT g p")
  case None
  then have "redirect link (g ! p) = g ! p" using assms(2) by (simp add: redirect_def JT_def JF_def)
  then show ?thesis using None assms by (simp add: relink_def kids_def opt_list_def)
next
  case (Some t)
  then obtain f where f: "JF g p = Some f" using assms(2) by auto
  have j: "b_jt (g ! p) = Some t" "b_jf (g ! p) = Some f" using Some f by (simp_all add: JT_def JF_def)
  have k: "kids g p = [t, f]" using Some f by (simp add: kids_def opt_list_def)
  have e: "(g ! p)\<lparr>b_jt := Some t, b_jf := Some f\<rparr> = g ! p" "(g ! p)\<lparr>b_jt := Some u, b_jf := Some f\<rparr> = (g ! p)\<lparr>b_jt := Some u\<rparr>"
    "(g ! p)\<lparr>b_jt := Some t, b_jf := Some u\<rparr> = (g ! p)\<lparr>b_jf := Some u\<rparr>" for u
    using j by (cases "g ! p"; simp)+
  show ?thesis
    using Some j k assms(1) by (cases "link t"; cases "link f")
      (simp_all add: relink_def JF_def redirect_def linked_def Let_def e)
qed

lemma visit_relink:
  "distinct ps \<Longrightarrow> set ps \<subseteq> {..<length g} \<Longrightarrow> (\<forall>p \<in> set ps. JT g p = None \<longleftrightarrow> JF g p = None) \<Longrightarrow>
   \<exists>g'. visit_all (relink link) ps (g, d) = Inr (g', d \<and> (\<forall>p \<in> set ps. \<forall>k \<in> set (kids g p). link k = None)) \<and>
     length g' = length g \<and> (\<forall>b. g' ! b = (if b \<in> set ps then redirect link (g ! b) else g ! b))"
proof (induction ps arbitrary: g d)
  case (Cons p ps)
  let ?g = "g[p := redirect link (g ! p)]" and ?d = "d \<and> (\<forall>k \<in> set (kids g p). link k = None)"
  have p: "p < length g" "p \<notin> set ps" using Cons.prems by auto
  have same: "?g ! b = g ! b" "kids ?g b = kids g b" "JT ?g b = JT g b" "JF ?g b = JF g b" if "b \<in> set ps" for b
  proof -
    have n: "b \<noteq> p" using that p(2) by blast
    then show "?g ! b = g ! b" by simp
    then show "kids ?g b = kids g b" "JT ?g b = JT g b" "JF ?g b = JF g b" by (simp_all only: kids_def JT_def JF_def)
  qed
  have "\<exists>g'. visit_all (relink link) ps (?g, ?d) = Inr (g', ?d \<and> (\<forall>p \<in> set ps. \<forall>k \<in> set (kids ?g p). link k = None)) \<and>
     length g' = length ?g \<and> (\<forall>b. g' ! b = (if b \<in> set ps then redirect link (?g ! b) else ?g ! b))"
    by (rule Cons.IH) (use Cons.prems same in auto)
  then obtain g' where g': "visit_all (relink link) ps (?g, ?d) = Inr (g', ?d \<and> (\<forall>p \<in> set ps. \<forall>k \<in> set (kids ?g p). link k = None))"
    "length g' = length g" "\<And>b. g' ! b = (if b \<in> set ps then redirect link (?g ! b) else ?g ! b)" by auto
  have "visit_all (relink link) (p # ps) (g, d) = visit_all (relink link) ps (?g, ?d)"
    using relink_block [OF p(1), of link d] Cons.prems by simp
  moreover have "g' ! b = (if b \<in> set (p # ps) then redirect link (g ! b) else g ! b)" for b
    using g'(3) [of b] same(1) [of b] p by (cases "b = p") auto
  ultimately show ?case using g'(1,2) same(2) by auto
qed simp

lemma block_ok_ret:
  assumes "graph_wf g" and "b < length g"
  shows "BPF_CLASS (s_code (b_s (g ! b))) = BPF_RET \<longleftrightarrow> JT g b = None"
    and "JT g b = None \<longleftrightarrow> JF g b = None"
proof -
  have b: "block_ok (g ! b)" and ok: "graph_ok g" using assms by (auto simp: graph_wf_def list_all_length)
  show "BPF_CLASS (s_code (b_s (g ! b))) = BPF_RET \<longleftrightarrow> JT g b = None"
  proof (cases "decode (s_code (b_s (g ! b)))")
    case (Some i)
    then show ?thesis using b ret_class_no_next [OF Some] decode_ret_class [OF Some]
      by (cases i) (auto simp: block_ok_def JT_def)
  qed (use b in \<open>simp add: block_ok_def\<close>)
  show "JT g b = None \<longleftrightarrow> JF g b = None" by (rule graph_ok_cases [OF ok assms(2)]) simp_all
qed

lemma mark_code_total:
  assumes g: "graph_wf g" "ranked rk g" "root < length g"
  shows "mark_code g root = Inr (reach_set g root)"
proof -
  have ok: "graph_ok g" using g(1) by (simp add: graph_wf_def)
  have k: "live_kids g b = kids g b" if "b < length g" for b
    using block_ok_ret [OF g(1) that] by (auto simp: live_kids_def kids_def opt_list_def split: option.splits)
  have "\<exists>s. make_marks (Suc (length g)) g root {} = Inr s \<and> True \<and> s = {d. reach (live_kids g) root d}"
  proof (rule mm.visit_root_total [where I = "\<lambda>_ _. True" and V = "{..<length g}" and rk = rk])
    show "x \<in> {..<length g} \<Longrightarrow> c \<in> set (live_kids g x) \<Longrightarrow> c \<in> {..<length g} \<and> rk c < rk x" for x c
      using graph_ranked [OF ok g(2)] k by simp
    show "b \<in> {..<length g} \<Longrightarrow> \<exists>s'. live_leave g b s = Inr s' \<and> True" for b s
      using block_ok_ret [OF g(1), of b] by (auto simp: live_leave_def)
  qed (use g(3) in simp_all)
  moreover have "reach (live_kids g) root d \<longleftrightarrow> reach (kids g) root d" for d
  proof
    have c: "reach (live_kids g) root d \<Longrightarrow> d < length g" for d
      by (induction rule: reach.induct) (use g(3) kids_in [OF ok] k in auto)
    show "reach (kids g) root d" if "reach (live_kids g) root d" using that
    proof (induction rule: reach.induct)
      case (reach_step c d)
      then show ?case using k c reach.reach_step by metis
    qed simp
    show "reach (live_kids g) root d" if "reach (kids g) root d" using that
    proof (induction rule: reach.induct)
      case (reach_step c d)
      then show ?case using k c reach.reach_step by metis
    qed simp
  qed
  ultimately show ?thesis by (auto simp: mark_code_def reach_set_def)
qed

text \<open>What is below a block; equal blocks have the same below them.\<close>

definition below :: "graph \<Rightarrow> nat \<Rightarrow> nat set" where
  "below g b = (\<Union>k \<in> set (kids g b). reach_set g k)"

lemma below_falls:
  assumes ok: "graph_ok g" "ranked rk g" and b: "b < length g" and k: "k \<in> set (kids g b)"
  shows "card (below g k) < card (below g b)"
proof (rule psubset_card_mono)
  have kl: "k < length g" by (rule kids_in [OF ok(1) b k])
  show "finite (below g b)" unfolding below_def using finite_reach_set [OF ok(1)] kids_in [OF ok(1) b] by auto
  have r: "reach (kids g) a d \<Longrightarrow> a < length g \<Longrightarrow> rk d \<le> rk a" for a d
  proof (induction rule: reach.induct)
    case (reach_step c d)
    then show ?case using rankedD [OF ok(2) reach_in [OF reach_step.hyps(1) ok(1)]] by fastforce
  qed simp
  have "k \<notin> below g k"
    using r kids_in [OF ok(1) kl] rankedD [OF ok(2) kl] by (fastforce simp: below_def reach_set_def)
  moreover have "k \<in> below g b" using k by (auto simp: below_def reach_set_def)
  moreover have "below g k \<subseteq> below g b" using k by (auto simp: below_def reach_set_def intro: reach_kid)
  ultimately show "below g k \<subset> below g b" by blast
qed

lemma card_below:
  assumes "graph_ok g" and "b < length g"
  shows "card (below g b) \<le> length g"
proof -
  have "below g b \<subseteq> {..<length g}"
  proof
    fix d assume "d \<in> below g b"
    then obtain k where "k \<in> set (kids g b)" "reach (kids g) k d" by (auto simp: below_def reach_set_def)
    then show "d \<in> {..<length g}" using reach_in [OF _ assms(1) kids_in [OF assms]] by simp
  qed
  from card_mono [OF finite_lessThan this] show ?thesis by simp
qed

lemma linked_same: "link_ok g M blocks link \<Longrightarrow> same_block g d (linked link d)"
  using link_okD(1) by (auto simp: linked_def split: option.splits)

lemma linked_in:
  assumes l: "link_ok g M blocks link" and d: "d \<in> set blocks"
  shows "linked link d \<in> set blocks"
proof (cases "link d")
  case (Some t)
  then show ?thesis using link_okD(4) [OF l Some] by (auto simp: linked_def)
qed (simp add: linked_def d)

text \<open>The graph a round makes.\<close>

definition round_of :: "nat list \<Rightarrow> links \<Rightarrow> graph \<Rightarrow> graph \<Rightarrow> bool" where
  "round_of blocks link g g' \<longleftrightarrow> length g' = length g \<and>
     (\<forall>b. g' ! b = (if b \<in> set blocks then redirect link (g ! b) else g ! b))"

lemma round_kids:
  assumes "round_of blocks link g g'" and "b \<in> set blocks"
  shows "JT g' b = map_option (linked link) (JT g b)" "JF g' b = map_option (linked link) (JF g b)"
    "kids g' b = map (linked link) (kids g b)"
  using assms by (auto simp: round_of_def JT_def JF_def redirect_def kids_def opt_list_def split: option.splits)

lemma round_exec:
  assumes "round_of blocks link g g'" and "b \<in> set blocks"
  shows "exec_block g' pk (b, r) = and_then (exec_block g pk (b, r)) (\<lambda>(t, r'). Next (linked link t, r'))"
proof -
  have s: "b_stmts (g' ! b) = b_stmts (g ! b)" "b_s (g' ! b) = b_s (g ! b)" using assms by (simp_all add: round_of_def redirect_def)
  have br: "exec_branch g' b r' = and_then (exec_branch g b r') (\<lambda>t. Next (linked link t))" for r'
    using round_kids [OF assms] by (auto simp: exec_branch_def s Let_def split: option.splits bpf_op.splits)
  show ?thesis
  proof (cases "exec_stmts pk (b_stmts (g ! b)) r")
    case (Next r')
    then show ?thesis by (cases "exec_branch g b r'") (simp_all add: exec_block_def s br)
  qed (simp_all add: exec_block_def s)
qed

lemma round_sound:
  assumes i: "interning blocks root g" and r: "ranked rk g" and l: "link_ok g M blocks link" and g': "round_of blocks link g g'"
  shows "c \<in> set blocks \<Longrightarrow> c' \<in> set blocks \<Longrightarrow> same_block g c c' \<Longrightarrow> graph_loop g' pk (c', r) = graph_loop g pk (c, r)"
proof (induction "rk c" arbitrary: c c' r rule: less_induct)
  case less
  have "graph_loop g' pk (c', r) = cont (exec_block g' pk (c', r)) (graph_loop g' pk)" by (rule graph_loop_cont)
  also have "\<dots> = cont (exec_block g pk (c, r)) (\<lambda>(t, r'). graph_loop g' pk (linked link t, r'))"
    unfolding round_exec [OF g' less.prems(2)] same_block_exec [OF less.prems(3), symmetric] cont_and_then
    by (rule cont_cong) auto
  also have "\<dots> = cont (exec_block g pk (c, r)) (graph_loop g pk)"
  proof (rule cont_cong)
    fix x assume x: "exec_block g pk (c, r) = Next x"
    obtain t r' where tr: "x = (t, r')" by (cases x)
    have k: "t \<in> set (kids g c)" using x tr exec_block_kid by blast
    have c: "c < length g" "t \<in> set blocks" using i less.prems(1) k by (auto simp: interning_def)
    have "linked link t \<in> set blocks" by (rule linked_in [OF l c(2)])
    then have "graph_loop g' pk (linked link t, r') = graph_loop g pk (t, r')"
      using less.hyps [OF rankedD [OF r c(1) k] c(2)] linked_same [OF l] by blast
    then show "(case x of (t, r') \<Rightarrow> graph_loop g' pk (linked link t, r')) = graph_loop g pk x" by (simp add: tr)
  qed
  finally show ?case using graph_loop_cont [of g pk "(c, r)"] by simp
qed

lemma redirect_ok: "b_jt (redirect link b) = None \<longleftrightarrow> b_jt b = None" "b_stmts (redirect link b) = b_stmts b"
    "b_s (redirect link b) = b_s b"
  by (simp_all add: redirect_def)

lemma redirect_block_ok: "block_ok (redirect link b) = block_ok b"
  unfolding block_ok_def redirect_ok ..

lemma round_wf:
  assumes i: "interning blocks root g" and l: "link_ok g M blocks link" and g': "round_of blocks link g g'"
  shows "graph_wf g'"
proof -
  have len: "length g' = length g" and nth: "g' ! b = (if b \<in> set blocks then redirect link (g ! b) else g ! b)" for b
    using g' by (simp_all add: round_of_def)
  have wf: "graph_ok g" "list_all block_ok g" and sub: "set blocks \<subseteq> {..<length g}" using i by (simp_all add: interning_def graph_wf_def)
  have "block_ok (g' ! b)" if "b < length g" for b
    using wf(2) that by (simp add: nth list_all_length redirect_block_ok)
  moreover have "case (b_jt (g' ! b), b_jf (g' ! b)) of (None, None) \<Rightarrow> True
      | (Some t, Some f) \<Rightarrow> t < length g \<and> f < length g | _ \<Rightarrow> False" if b: "b < length g" for b
  proof (cases rule: graph_ok_cases [OF wf(1) b])
    case (2 t f)
    have "linked link d < length g" if "b \<in> set blocks" "d \<in> {t, f}" for d
    proof -
      have "d \<in> set blocks" using i that 2(3) by (auto simp: interning_def)
      then show ?thesis using linked_in [OF l] sub by blast
    qed
    then show ?thesis using 2 by (auto simp: nth redirect_def JT_def JF_def)
  qed (auto simp: nth redirect_def JT_def JF_def)
  ultimately show ?thesis unfolding graph_wf_def graph_ok_def list_all_length len by blast
qed

lemma round_interning:
  assumes i: "interning blocks root g" and l: "link_ok g M blocks link" and g': "round_of blocks link g g'"
  shows "interning blocks root g'"
proof -
  have "set (kids g' b) \<subseteq> set blocks" if b: "b \<in> set blocks" for b
  proof -
    have "set (kids g b) \<subseteq> set blocks" using i b by (simp add: interning_def)
    then show ?thesis using linked_in [OF l] by (auto simp: round_kids(3) [OF g' b])
  qed
  then show ?thesis using i g' round_wf [OF i l g'] by (simp add: interning_def round_of_def)
qed

lemma below_linked: "link_ok g M blocks link \<Longrightarrow> below g (linked link k) = below g k"
  using same_block_kids [OF linked_same, symmetric] by (simp add: below_def)

lemma round_ranked:
  assumes i: "interning blocks root g" and r: "ranked rk g" and l: "link_ok g M blocks link" and g': "round_of blocks link g g'"
  shows "ranked (\<lambda>b. card (below g b)) g'"
proof -
  have ok: "graph_ok g" and len: "length g' = length g" using i g' by (simp_all add: interning_def graph_wf_def round_of_def)
  have "card (below g k) < card (below g b)" if b: "b < length g" and k: "k \<in> set (kids g' b)" for b k
  proof (cases "b \<in> set blocks")
    case True
    then obtain d where d: "d \<in> set (kids g b)" "k = linked link d" using k by (auto simp: round_kids(3) [OF g'])
    then show ?thesis using below_falls [OF ok r b d(1)] by (simp only: below_linked [OF l])
  next
    case False
    then have "g' ! b = g ! b" using g' by (simp add: round_of_def)
    then have "kids g' b = kids g b" by (simp only: kids_def JT_def JF_def)
    then show ?thesis using below_falls [OF ok r b] k by simp
  qed
  then show ?thesis by (auto simp: ranked_def list_all_iff len)
qed

lemma intern_round_total:
  assumes i: "interning blocks root g" and r: "ranked rk g"
  shows "\<exists>g'. intern_round blocks root g = Inr (g', \<forall>p \<in> set blocks. \<forall>k \<in> set (kids g p).
           intern_links g (reach_set g root) blocks k = None) \<and>
         round_of blocks (intern_links g (reach_set g root) blocks) g g'"
proof -
  have wf: "graph_wf g" "distinct blocks" and sub: "set blocks \<subseteq> {..<length g}" and root: "root < length g"
    using i by (auto simp: interning_def)
  have "\<forall>p \<in> set blocks. JT g p = None \<longleftrightarrow> JF g p = None" using block_ok_ret(2) [OF wf(1)] sub by blast
  from visit_relink [OF wf(2) sub this, of "intern_links g (reach_set g root) blocks" True] show ?thesis
    by (simp add: intern_round_def mark_code_total [OF wf(1) r root] round_of_def)
qed

section \<open>The rounds end\<close>

text \<open>The number of blocks from \<open>b\<close> on: a link leads further to the end of \<open>blocks\<close>.\<close>

definition rest_at :: "nat list \<Rightarrow> nat \<Rightarrow> nat" where
  "rest_at blocks b = length (dropWhile (\<lambda>x. x \<noteq> b) blocks)"

lemma rest_at_nth: "distinct blocks \<Longrightarrow> i < length blocks \<Longrightarrow> rest_at blocks (blocks ! i) = length blocks - i"
proof (induction blocks arbitrary: i)
  case (Cons x xs)
  then show ?case by (cases i) (auto simp: rest_at_def)
qed simp

lemma rest_at_le: "rest_at blocks b \<le> length blocks"
  by (simp add: rest_at_def length_dropWhile_le)

lemma rest_linked:
  assumes d: "distinct blocks" and l: "link_ok g M blocks link"
  shows "rest_at blocks (linked link k) \<le> rest_at blocks k" and "link k \<noteq> None \<Longrightarrow> rest_at blocks (linked link k) < rest_at blocks k"
proof -
  have lt: "rest_at blocks t < rest_at blocks k" if "link k = Some t" for t
  proof -
    obtain i j where ij: "i < j" "j < length blocks" "blocks ! i = k" "blocks ! j = t" using link_okD(4) [OF l \<open>link k = Some t\<close>] by blast
    then show ?thesis using rest_at_nth [OF d, of i] rest_at_nth [OF d, of j] by simp
  qed
  show "rest_at blocks (linked link k) \<le> rest_at blocks k"
    using lt by (fastforce simp: linked_def split: option.splits)
  show "link k \<noteq> None \<Longrightarrow> rest_at blocks (linked link k) < rest_at blocks k"
    using lt by (auto simp: linked_def)
qed

definition edge_sum :: "nat list \<Rightarrow> graph \<Rightarrow> nat" where
  "edge_sum blocks g = (\<Sum>p \<in> set blocks. \<Sum>k \<leftarrow> kids g p. rest_at blocks k)"

lemma edge_sum_le:
  assumes "interning blocks root g"
  shows "edge_sum blocks g \<le> 2 * length blocks * length blocks"
proof -
  have "(\<Sum>k \<leftarrow> kids g p. rest_at blocks k) \<le> 2 * length blocks" for p
  proof -
    have "length (kids g p) \<le> 2" by (simp add: kids_def opt_list_def split: option.splits)
    moreover have "(\<Sum>k \<leftarrow> xs. rest_at blocks k) \<le> length xs * length blocks" for xs
      by (induction xs) (auto intro: add_mono rest_at_le)
    ultimately show ?thesis by (meson le_trans mult_le_mono1)
  qed
  then have "edge_sum blocks g \<le> (\<Sum>p \<in> set blocks. 2 * length blocks)" unfolding edge_sum_def by (intro sum_mono)
  also have "\<dots> \<le> 2 * length blocks * length blocks"
    using card_length [of blocks] by (simp add: mult.commute)
  finally show ?thesis .
qed

lemma sum_list_linked:
  assumes "\<And>k. rest_at blocks (f k) \<le> rest_at blocks k"
  shows "(\<Sum>k \<leftarrow> map f xs. rest_at blocks k) \<le> (\<Sum>k \<leftarrow> xs. rest_at blocks k)"
    and "k \<in> set xs \<Longrightarrow> rest_at blocks (f k) < rest_at blocks k \<Longrightarrow>
      (\<Sum>k \<leftarrow> map f xs. rest_at blocks k) < (\<Sum>k \<leftarrow> xs. rest_at blocks k)"
proof -
  show le: "(\<Sum>k \<leftarrow> map f xs. rest_at blocks k) \<le> (\<Sum>k \<leftarrow> xs. rest_at blocks k)" for xs
    by (induction xs) (auto intro: add_mono assms)
  show "(\<Sum>k \<leftarrow> map f xs. rest_at blocks k) < (\<Sum>k \<leftarrow> xs. rest_at blocks k)"
    if "k \<in> set xs" "rest_at blocks (f k) < rest_at blocks k"
    using that(1)
  proof (induction xs)
    case (Cons x xs)
    then show ?case using that(2) le [of xs] assms [of x] by (auto intro: add_less_le_mono add_le_less_mono)
  qed simp
qed

lemma round_edge_sum:
  assumes i: "interning blocks root g" and l: "link_ok g M blocks link" and g': "round_of blocks link g g'"
    and p: "p \<in> set blocks" "k \<in> set (kids g p)" "link k \<noteq> None"
  shows "edge_sum blocks g' < edge_sum blocks g"
proof -
  have d: "distinct blocks" using i by (simp add: interning_def)
  note r = rest_linked [OF d l]
  show ?thesis unfolding edge_sum_def
  proof (rule sum_strict_mono_ex1)
    show "\<forall>x \<in> set blocks. (\<Sum>k \<leftarrow> kids g' x. rest_at blocks k) \<le> (\<Sum>k \<leftarrow> kids g x. rest_at blocks k)"
      by (intro ballI) (simp only: round_kids(3) [OF g'] sum_list_linked(1) [OF r(1)])
    show "\<exists>x \<in> set blocks. (\<Sum>k \<leftarrow> kids g' x. rest_at blocks k) < (\<Sum>k \<leftarrow> kids g x. rest_at blocks k)"
    proof (rule bexI [OF _ p(1)])
      show "(\<Sum>k \<leftarrow> kids g' p. rest_at blocks k) < (\<Sum>k \<leftarrow> kids g p. rest_at blocks k)"
        unfolding round_kids(3) [OF g' p(1)] by (rule sum_list_linked(2) [OF r(1) p(2) r(2) [OF p(3)]])
    qed
  qed simp
qed

text \<open>When no edge changed the graph is as it was, and equal blocks are one.\<close>

definition merged :: "graph \<Rightarrow> nat \<Rightarrow> bool" where
  "merged g root \<longleftrightarrow> (\<forall>a \<in> reach_set g root. \<forall>b \<in> reach_set g root. eq_blk g a b \<longrightarrow> a = b)"

lemma reach_blocks:
  assumes "interning blocks root g" shows "reach_set g root \<subseteq> set blocks"
proof
  fix d assume "d \<in> reach_set g root"
  then have "reach (kids g) root d" by (simp add: reach_set_def)
  then show "d \<in> set blocks" by (rule reach_closed) (use assms in \<open>auto simp: interning_def\<close>)
qed

lemma reach_first: "reach ks a d \<Longrightarrow> d = a \<or> (\<exists>k \<in> set (ks a). reach ks k d)"
  by (induction rule: reach.induct) (auto intro: reach.intros)

lemma root_alone:
  assumes g: "interning blocks root g" "ranked rk g" and b: "b \<in> reach_set g root" and s: "same_block g root b"
  shows "b = root"
proof (rule ccontr)
  assume n: "b \<noteq> root"
  have ok: "graph_ok g" "root < length g" using g(1) by (auto simp: interning_def graph_wf_def)
  from b n obtain k where k: "k \<in> set (kids g root)" "reach (kids g) k b"
    using reach_first [of "kids g" root b] by (auto simp: reach_set_def)
  have "b < length g" using reach_in [OF _ ok] b by (simp add: reach_set_def)
  moreover have "k \<in> set (kids g b)" using k(1) same_block_kids [OF s] by simp
  ultimately have "card (below g k) < card (below g b)" by (intro below_falls [OF ok(1) g(2)])
  moreover have "card (below g b) \<le> card (below g k)"
  proof (cases "b = k")
    case False
    then obtain c where c: "c \<in> set (kids g k)" "reach (kids g) c b" using reach_first [OF k(2)] by auto
    have kl: "k < length g" by (rule kids_in [OF ok k(1)])
    have "below g b \<subseteq> below g k"
      using c by (auto simp: below_def reach_set_def intro: reach_trans reach_kid)
    then show ?thesis
      using finite_reach_set [OF ok(1)] kids_in [OF ok(1) kl] by (intro card_mono) (auto simp: below_def)
  qed simp
  ultimately show False by simp
qed

lemma no_link_merged:
  assumes g: "interning blocks root g" "ranked rk g"
    and l: "\<forall>p \<in> set blocks. \<forall>k \<in> set (kids g p). intern_links g (reach_set g root) blocks k = None"
  shows "merged g root"
proof -
  have len: "set blocks \<subseteq> {..<length g}" using g(1) by (simp add: interning_def)
  note sub = reach_blocks [OF g(1)]
  have less: False if a: "i < j" "j < length blocks" "blocks ! i \<in> reach_set g root" "blocks ! j \<in> reach_set g root"
    "same_block g (blocks ! i) (blocks ! j)" for i j
  proof -
    have n: "intern_links g (reach_set g root) blocks (blocks ! i) \<noteq> None" by (rule intern_links_complete [OF a])
    have d: "blocks ! i \<noteq> blocks ! j" using g(1) a(1,2) by (auto simp: interning_def distinct_conv_nth)
    have "reach (kids g) root (blocks ! i)" using a(3) by (simp add: reach_set_def)
    then show False
    proof cases
      case reach_refl
      then show False using root_alone [OF g a(4)] a(5) d by simp
    next
      case (reach_step c)
      then have "c \<in> set blocks" using sub by (auto simp: reach_set_def)
      then show False using bspec [OF bspec [OF l] reach_step(2)] n by simp
    qed
  qed
  show ?thesis unfolding merged_def
  proof (intro ballI impI)
    fix a b assume ab: "a \<in> reach_set g root" "b \<in> reach_set g root" "eq_blk g a b"
    then obtain i j where ij: "i < length blocks" "j < length blocks" "a = blocks ! i" "b = blocks ! j"
      using sub by (metis in_set_conv_nth subsetD)
    have s: "same_block g a b" "same_block g b a" using ab(3) by (simp_all add: eq_blk_same same_block_sym)
    show "a = b"
      using less [of i j] less [of j i] ab(1,2) s ij by (cases i j rule: linorder_cases) auto
  qed
qed

lemma no_link_same:
  assumes g': "round_of blocks link g g'" and n: "\<forall>p \<in> set blocks. \<forall>k \<in> set (kids g p). link k = None"
  shows "g' = g"
proof (rule nth_equalityI)
  show "length g' = length g" using g' by (simp add: round_of_def)
  show "g' ! b = g ! b" if "b < length g'" for b
  proof (cases "b \<in> set blocks")
    case True
    then have k: "link k = None" if "k \<in> set (kids g b)" for k using n that by blast
    have "map_option (linked link) (b_jt (g ! b)) = b_jt (g ! b)" "map_option (linked link) (b_jf (g ! b)) = b_jf (g ! b)"
      using k by (cases "b_jt (g ! b)"; cases "b_jf (g ! b)"; simp add: kids_def opt_list_def JT_def JF_def linked_def)+
    then have "redirect link (g ! b) = g ! b" by (simp add: redirect_def)
    then show ?thesis using g' True by (simp add: round_of_def)
  qed (use g' in \<open>simp add: round_of_def\<close>)
qed

lemma intern_rounds_total:
  "interning blocks root g \<Longrightarrow> ranked rk g \<Longrightarrow> edge_sum blocks g < n \<Longrightarrow>
   \<exists>g' rk'. intern_rounds n blocks root g = Inr g' \<and> interning blocks root g' \<and> ranked rk' g' \<and> length g' = length g \<and>
     merged g' root \<and> (\<forall>pk r. graph_loop g' pk (root, r) = graph_loop g pk (root, r))"
proof (induction n arbitrary: g rk)
  case (Suc n)
  note i = Suc.prems(1) and r = Suc.prems(2)
  let ?link = "intern_links g (reach_set g root) blocks"
  let ?none = "\<forall>p \<in> set blocks. \<forall>k \<in> set (kids g p). ?link k = None"
  obtain g' where g': "intern_round blocks root g = Inr (g', ?none)" "round_of blocks ?link g g'"
    using intern_round_total [OF i r] by blast
  have root: "root \<in> set blocks" and d: "distinct blocks" using i by (simp_all add: interning_def)
  note l = intern_links_ok [OF d, of g "reach_set g root"]
  show ?case
  proof (cases ?none)
    case True
    then have e: "intern_rounds (Suc n) blocks root g = Inr g" using g' no_link_same [OF g'(2) True] by simp
    show ?thesis by (rule exI [of _ g], rule exI [of _ rk]) (use e i r no_link_merged [OF i r True] in simp)
  next
    case False
    then obtain p k where p: "p \<in> set blocks" "k \<in> set (kids g p)" "?link k \<noteq> None" by blast
    have "edge_sum blocks g' < n" using round_edge_sum [OF i l g'(2) p] Suc.prems(3) by simp
    then obtain h rk' where h: "intern_rounds n blocks root g' = Inr h" "interning blocks root h" "ranked rk' h"
      "length h = length g'" "merged h root" "\<forall>pk r. graph_loop h pk (root, r) = graph_loop g' pk (root, r)"
      using Suc.IH [OF round_interning [OF i l g'(2)] round_ranked [OF i r l g'(2)]] by blast
    have e: "intern_rounds (Suc n) blocks root g = Inr h" using g'(1) False h(1) by (simp del: ball_simps)
    have len: "length g' = length g" using g'(2) by (simp add: round_of_def)
    have s: "graph_loop g' pk (root, x) = graph_loop g pk (root, x)" for pk x
      using round_sound [OF i r l g'(2) root root] by simp
    show ?thesis by (rule exI [of _ h], rule exI [of _ rk']) (use e h len s in simp)
  qed
qed simp

section \<open>The new root\<close>

lemma block_ok_class: "graph_wf g \<Longrightarrow> b < length g \<Longrightarrow> JT g b \<noteq> None \<Longrightarrow> BPF_CLASS (s_code (b_s (g ! b))) = BPF_JMP"
proof -
  assume g: "graph_wf g" "b < length g" "JT g b \<noteq> None"
  then have "block_ok (g ! b)" by (simp add: graph_wf_def list_all_length)
  then obtain j x where "decode (s_code (b_s (g ! b))) = Some (Jmp j x)" using g(3)
    by (cases "decode (s_code (b_s (g ! b)))") (auto simp: block_ok_def JT_def split: bpf_op.splits)
  then have c: "s_code (b_s (g ! b)) = opcode (Jmp j x)" by (simp only: decode_Some_iff)
  show ?thesis unfolding c by (cases j; cases x) (simp_all add: bpf_fields)
qed

lemma skip_same_step:
  assumes "graph_wf g" and "b < length g"
  shows "skip_same (Suc n) g b = (case JT g b of None \<Rightarrow> Inr b | Some t \<Rightarrow> if JF g b = Some t then skip_same n g t else Inr b)"
proof (cases "JT g b")
  case None
  then have "BPF_CLASS (s_code (b_s (g ! b))) = BPF_RET" using block_ok_ret(1) [OF assms] by simp
  then have "BPF_CLASS (s_code (b_s (g ! b))) \<noteq> BPF_JMP" by simp
  then show ?thesis using None by (simp only: skip_same.simps simp_thms if_False option.case)
next
  case (Some t)
  then have "BPF_CLASS (s_code (b_s (g ! b))) = BPF_JMP" by (intro block_ok_class [OF assms]) simp
  then show ?thesis using Some by (auto simp only: skip_same.simps simp_thms option.case if_True if_False option.inject split: if_split)
qed

definition idle :: "graph \<Rightarrow> nat \<Rightarrow> bool" where
  "idle g b \<longleftrightarrow> (\<forall>t. JT g b = Some t \<longrightarrow> JF g b = Some t \<longrightarrow> live_stmts (b_stmts (g ! b)) = [])"

lemma exec_branch_same:
  assumes "graph_wf g" and "b < length g" and "JT g b = Some t" and "JF g b = Some t"
  shows "exec_branch g b r = Next t"
proof -
  have "block_ok (g ! b)" using assms(1,2) by (simp add: graph_wf_def list_all_length)
  then show ?thesis using assms(3,4)
    by (cases "decode (s_code (b_s (g ! b)))")
      (auto simp: block_ok_def JT_def exec_branch_def Let_def split: bpf_op.splits)
qed

lemma idle_loop:
  assumes "graph_wf g" and "b < length g" and "JT g b = Some t" and "JF g b = Some t" and "idle g b"
  shows "graph_loop g pk (b, r) = graph_loop g pk (t, r)"
proof -
  have "live_stmts (b_stmts (g ! b)) = []" using assms(3-5) by (simp add: idle_def)
  then have "exec_stmts pk (b_stmts (g ! b)) r = Next r" using exec_live_stmts [of pk "b_stmts (g ! b)" r] by simp
  then show ?thesis by (subst graph_loop_cont) (simp add: exec_block_def exec_branch_same [OF assms(1-4)])
qed

lemma skip_same_total:
  "graph_wf g \<Longrightarrow> ranked rk g \<Longrightarrow> b < length g \<Longrightarrow> card (below g b) < n \<Longrightarrow>
   \<exists>c. skip_same n g b = Inr c \<and> c \<in> reach_set g b \<and> (JT g c = None \<or> JT g c \<noteq> JF g c) \<and>
     (JT g b = None \<or> JT g b \<noteq> JF g b \<longrightarrow> c = b) \<and>
     (\<forall>pk r. (\<forall>d \<in> reach_set g b. idle g d) \<longrightarrow> graph_loop g pk (b, r) = graph_loop g pk (c, r))"
proof (induction n arbitrary: b)
  case (Suc n)
  note g = Suc.prems(1-3)
  note step = skip_same_step [OF g(1,3), of n]
  show ?case
  proof (cases "\<exists>t. JT g b = Some t \<and> JF g b = Some t")
    case True
    then obtain t where t: "JT g b = Some t" "JF g b = Some t" by blast
    have ok: "graph_ok g" using g(1) by (simp add: graph_wf_def)
    have k: "t \<in> set (kids g b)" using t by (simp add: kids_def opt_list_def)
    have "card (below g t) < n" using below_falls [OF ok g(2,3) k] Suc.prems(4) by simp
    then obtain c where c: "skip_same n g t = Inr c" "c \<in> reach_set g t" "JT g c = None \<or> JT g c \<noteq> JF g c"
      "\<forall>pk r. (\<forall>d \<in> reach_set g t. idle g d) \<longrightarrow> graph_loop g pk (t, r) = graph_loop g pk (c, r)"
      using Suc.IH [OF g(1,2) kids_in [OF ok g(3) k]] by blast
    have sub: "reach_set g t \<subseteq> reach_set g b" using k by (auto simp: reach_set_def intro: reach_kid)
    have "b \<in> reach_set g b" by (simp add: reach_set_def)
    then show ?thesis using c sub step t idle_loop [OF g(1,3) t] by (intro exI [of _ c]) auto
  next
    case False
    then have "skip_same (Suc n) g b = Inr b" using step by (auto split: option.splits)
    then show ?thesis using False by (intro exI [of _ b]) (auto simp: reach_set_def)
  qed
qed simp

text \<open>A block with other statements: what comes after it is as before.\<close>

definition with_stmts :: "graph \<Rightarrow> nat \<Rightarrow> stmt list \<Rightarrow> graph" where
  "with_stmts g b ss = g[b := (g ! b)\<lparr>b_stmts := ss\<rparr>]"

lemma with_stmts_edges:
  "b_jt (with_stmts g b ss ! c) = b_jt (g ! c)" "b_jf (with_stmts g b ss ! c) = b_jf (g ! c)"
  by (cases "b < length g"; cases "c = b"; simp add: with_stmts_def list_update_beyond)+

lemma with_stmts_fields [simp]:
  "length (with_stmts g b ss) = length g" "JT (with_stmts g b ss) c = JT g c" "JF (with_stmts g b ss) c = JF g c"
  "kids (with_stmts g b ss) c = kids g c" "b_s (with_stmts g b ss ! c) = b_s (g ! c)"
  "c \<noteq> b \<Longrightarrow> with_stmts g b ss ! c = g ! c"
proof -
  show "JT (with_stmts g b ss) c = JT g c" "JF (with_stmts g b ss) c = JF g c" "kids (with_stmts g b ss) c = kids g c"
    by (simp_all add: JT_def JF_def kids_def with_stmts_edges)
  show "b_s (with_stmts g b ss ! c) = b_s (g ! c)"
    by (cases "b < length g"; cases "c = b"; simp add: with_stmts_def list_update_beyond)
qed (simp_all add: with_stmts_def)

lemma with_stmts_stmts: "b < length g \<Longrightarrow> b_stmts (with_stmts g b ss ! b) = ss"
  by (simp add: with_stmts_def)

lemma with_stmts_reach [simp]: "reach_set (with_stmts g b ss) c = reach_set g c"
proof -
  have "kids (with_stmts g b ss) = kids g" by (rule ext) simp
  then show ?thesis by (simp add: reach_set_def)
qed

lemma with_stmts_ranked [simp]: "ranked rk (with_stmts g b ss) = ranked rk g"
  by (simp add: ranked_def)

lemma with_stmts_wf:
  assumes "graph_wf g" and "b < length g" and "list_all wf_stmt ss"
  shows "graph_wf (with_stmts g b ss)"
proof -
  have "block_ok (g ! b)" using assms(1,2) by (simp add: graph_wf_def list_all_length)
  then have "block_ok ((g ! b)\<lparr>b_stmts := ss\<rparr>)" using assms(3)
    by (cases "decode (s_code (b_s (g ! b)))") (auto simp: block_ok_def split: bpf_op.splits)
  then have "list_all block_ok (with_stmts g b ss)" using assms(1,2)
    by (simp add: graph_wf_def with_stmts_def list_all_length nth_list_update)
  moreover have "graph_ok (with_stmts g b ss) = graph_ok g"
    unfolding graph_ok_def list_all_length with_stmts_fields(1) with_stmts_edges ..
  ultimately show ?thesis using assms(1) by (simp add: graph_wf_def)
qed

lemma exec_branch_with [simp]: "exec_branch (with_stmts g b ss) c r = exec_branch g c r"
  unfolding exec_branch_def with_stmts_fields ..

lemma graph_loop_other:
  assumes g: "graph_ok g" "ranked rk g"
  shows "c < length g \<Longrightarrow> b \<notin> reach_set g c \<Longrightarrow> graph_loop (with_stmts g b ss) pk (c, r) = graph_loop g pk (c, r)"
proof (induction "rk c" arbitrary: c r rule: less_induct)
  case less
  have "c \<noteq> b" using less.prems(2) by (auto simp: reach_set_def)
  then have e: "exec_block (with_stmts g b ss) pk (c, r) = exec_block g pk (c, r)" by (simp add: exec_block_def)
  have "cont (exec_block g pk (c, r)) (graph_loop (with_stmts g b ss) pk) = cont (exec_block g pk (c, r)) (graph_loop g pk)"
  proof (rule cont_cong)
    fix x assume x: "exec_block g pk (c, r) = Next x"
    obtain t r' where tr: "x = (t, r')" by (cases x)
    have k: "t \<in> set (kids g c)" using x tr exec_block_kid by blast
    then have "b \<notin> reach_set g t" using less.prems(2) by (auto simp: reach_set_def intro: reach_kid)
    then show "graph_loop (with_stmts g b ss) pk x = graph_loop g pk x"
      using less.hyps [OF rankedD [OF g(2) less.prems(1) k] kids_in [OF g(1) less.prems(1) k]] by (simp add: tr)
  qed
  then show ?case using graph_loop_cont [of "with_stmts g b ss" pk "(c, r)"] graph_loop_cont [of g pk "(c, r)"] e by simp
qed

lemma not_below_self:
  assumes "graph_ok g" and "ranked rk g" and "b < length g" and "t \<in> set (kids g b)"
  shows "b \<notin> reach_set g t"
proof
  assume "b \<in> reach_set g t"
  then have "below g b \<subseteq> below g t" if "b \<noteq> t"
    using that reach_first [of "kids g" t b] by (auto simp: below_def reach_set_def intro: reach_trans reach_kid)
  moreover have "finite (below g t)"
    using finite_reach_set [OF assms(1)] kids_in [OF assms(1) kids_in [OF assms(1,3,4)]] by (simp add: below_def)
  ultimately show False using below_falls [OF assms] card_mono by (metis less_irrefl not_less)
qed

text \<open>What the block does after its statements.\<close>

definition after :: "graph \<Rightarrow> packet \<Rightarrow> nat \<Rightarrow> regs \<Rightarrow> unit outcome option" where
  "after g pk b r = cont (exec_branch g b r) (\<lambda>t. graph_loop g pk (t, r))"

lemma loop_after: "graph_loop g pk (b, r) = cont (exec_stmts pk (b_stmts (g ! b)) r) (after g pk b)"
  by (subst graph_loop_cont) (simp add: exec_block_def after_def [abs_def])

lemma exec_branch_kid:
  assumes "exec_branch g b r = Next t" shows "t \<in> set (kids g b)"
  using assms by (auto simp: exec_branch_def Let_def kids_def opt_list_def split: option.splits bpf_op.splits if_splits)

lemma loop_with_stmts:
  assumes "graph_ok g" and "ranked rk g" and "b < length g"
  shows "graph_loop (with_stmts g b ss) pk (b, r) = cont (exec_stmts pk ss r) (after g pk b)"
proof -
  have "after (with_stmts g b ss) pk b r' = after g pk b r'" for r'
    unfolding after_def exec_branch_with
  proof (rule cont_cong)
    fix t assume "exec_branch g b r' = Next t"
    then have k: "t \<in> set (kids g b)" by (rule exec_branch_kid)
    show "graph_loop (with_stmts g b ss) pk (t, r') = graph_loop g pk (t, r')"
      by (rule graph_loop_other [OF assms(1,2) kids_in [OF assms(1,3) k] not_below_self [OF assms k]])
  qed
  then have "after (with_stmts g b ss) pk b = after g pk b" by (rule ext)
  then show ?thesis by (simp only: loop_after with_stmts_stmts [OF assms(3)])
qed

lemma opt_root_eq:
  assumes "root < length g" and "skip_same (Suc (length g)) (with_stmts g root []) root = Inr b"
    and "b_stmts (g ! root) \<noteq> [] \<or> b = root"
  shows "opt_root root g = Inr (b, with_stmts (with_stmts g root []) b
    (if BPF_CLASS (s_code (b_s (g ! b))) = BPF_RET then [] else b_stmts (g ! root) @ b_stmts (with_stmts g root [] ! b)))"
proof -
  have "b_stmts (with_stmts g root [] ! root) = []" by (rule with_stmts_stmts [OF assms(1)])
  then show ?thesis using assms(2,3)
    by (auto simp: opt_root_def Let_def with_stmts_def [symmetric])
qed

text \<open>The statements the new root gets: those of the old root, and its own.\<close>

definition root_stmts :: "graph \<Rightarrow> nat \<Rightarrow> nat \<Rightarrow> stmt list" where
  "root_stmts g root b = b_stmts (g ! root) @ (if b = root then [] else b_stmts (g ! b))"

lemma opt_root_total:
  assumes g: "graph_wf g" "ranked rk g" "root < length g"
    and idle: "\<forall>d \<in> reach_set g root. d \<noteq> root \<longrightarrow> idle g d"
    and s: "b_stmts (g ! root) \<noteq> [] \<or> JT g root = None \<or> JT g root \<noteq> JF g root"
  shows "\<exists>b g'. opt_root root g = Inr (b, g') \<and> b \<in> reach_set g root \<and> graph_wf g' \<and> ranked rk g' \<and>
    (JT g' b = None \<or> JT g' b \<noteq> JF g' b) \<and>
    (JT g' b \<noteq> None \<longrightarrow> (\<forall>pk r. graph_loop g' pk (b, r) = graph_loop g pk (root, r))) \<and>
    (decode (s_code (b_s (g' ! b))) = Some RetK \<longrightarrow> (\<forall>pk r. graph_loop g' pk (b, r) = Some (Ret (s_k (b_s (g' ! b)))) \<and>
       graph_loop g pk (root, r) = cont (exec_stmts pk (root_stmts g root b) r) (\<lambda>_. graph_loop g' pk (b, r))))"
proof -
  let ?h = "with_stmts g root []"
  have ok: "graph_ok g" and blocks: "\<And>b. b < length g \<Longrightarrow> list_all wf_stmt (b_stmts (g ! b))"
    using g(1) by (auto simp: graph_wf_def list_all_length block_ok_def)
  have h: "graph_wf ?h" "ranked rk ?h" "root < length ?h" using with_stmts_wf [OF g(1,3)] g(2,3) by simp_all
  have hok: "graph_ok ?h" using h(1) by (simp add: graph_wf_def)
  have "card (below ?h root) < Suc (length g)" using card_below [OF hok h(3)] by simp
  note skip = skip_same_total [OF h this]
  then obtain b where b: "skip_same (Suc (length g)) ?h root = Inr b" "b \<in> reach_set g root" "JT g b = None \<or> JT g b \<noteq> JF g b"
    "JT g root = None \<or> JT g root \<noteq> JF g root \<longrightarrow> b = root"
    "\<forall>pk r. (\<forall>d \<in> reach_set g root. idle ?h d) \<longrightarrow> graph_loop ?h pk (root, r) = graph_loop ?h pk (b, r)"
    unfolding with_stmts_fields(1-4) with_stmts_reach by blast
  have bl: "b < length g" using reach_in [OF _ ok g(3)] b(2) by (simp add: reach_set_def)
  have "idle ?h d" if "d \<in> reach_set g root" for d
    using idle that with_stmts_stmts [OF g(3)] by (cases "d = root") (simp_all add: idle_def live_stmts_def)
  then have skip: "graph_loop ?h pk (root, r) = graph_loop ?h pk (b, r)" for pk r using b(5) by blast
  let ?own = "b_stmts (?h ! b)"
  have own: "root_stmts g root b = b_stmts (g ! root) @ ?own" using with_stmts_stmts [OF g(3)] by (simp add: root_stmts_def)
  have go: "graph_loop g pk (root, r) = cont (exec_stmts pk (root_stmts g root b) r) (after ?h pk b)" for pk r
  proof -
    have "graph_loop ?h pk (root, x) = after g pk root x" for x using loop_with_stmts [OF ok g(2,3), of "[]" pk x] by simp
    then have "after g pk root x = cont (exec_stmts pk ?own x) (after ?h pk b)" for x
      using skip [of pk x] loop_after [of ?h pk b x] by simp
    then have "after g pk root = (\<lambda>x. cont (exec_stmts pk ?own x) (after ?h pk b))" by (rule ext)
    then show ?thesis by (simp add: loop_after [of g] own exec_stmts_append)
  qed
  have hb: "graph_loop (with_stmts ?h b ss) pk (b, r) = cont (exec_stmts pk ss r) (after ?h pk b)" for ss pk r
    using loop_with_stmts [OF hok h(2)] bl by simp
  have ow: "list_all wf_stmt ?own" using h(1) bl by (auto simp: graph_wf_def list_all_length block_ok_def)
  have ret: "BPF_CLASS (s_code (b_s (g ! b))) = BPF_RET \<longleftrightarrow> JT g b = None" by (rule block_ok_ret(1) [OF g(1) bl])
  let ?ss = "if BPF_CLASS (s_code (b_s (g ! b))) = BPF_RET then [] else b_stmts (g ! root) @ ?own"
  have run: "opt_root root g = Inr (b, with_stmts ?h b ?ss)" by (rule opt_root_eq [OF g(3) b(1)]) (use s b(4) in blast)
  have wf: "graph_wf (with_stmts ?h b ?ss)" using with_stmts_wf [OF h(1)] bl ow blocks [OF g(3)] by simp
  show ?thesis
  proof (cases "JT g b")
    case None
    then have e: "?ss = []" using ret by simp
    have k: "after ?h pk b = (\<lambda>_. Some (Ret (s_k (b_s (g ! b)))))" if "decode (s_code (b_s (g ! b))) = Some RetK" for pk
      by (rule ext) (simp add: after_def exec_branch_def that)
    have l: "graph_loop (with_stmts ?h b []) pk (b, r) = after ?h pk b r" for pk r by (simp add: hb)
    show ?thesis
    proof (intro exI [of _ b] exI [of _ "with_stmts ?h b []"] conjI impI allI)
      show "opt_root root g = Inr (b, with_stmts ?h b [])" using run e by simp
      show "graph_wf (with_stmts ?h b [])" using wf e by simp
    next
      fix pk r assume d: "decode (s_code (b_s (with_stmts ?h b [] ! b))) = Some RetK"
      then have d': "decode (s_code (b_s (g ! b))) = Some RetK" by simp
      show "graph_loop (with_stmts ?h b []) pk (b, r) = Some (Ret (s_k (b_s (with_stmts ?h b [] ! b))))"
        using k [OF d'] by (simp add: l)
      show "graph_loop g pk (root, r) = cont (exec_stmts pk (root_stmts g root b) r) (\<lambda>_. graph_loop (with_stmts ?h b []) pk (b, r))"
        using k [OF d'] by (simp add: l go)
    qed (use None b(2) g(2) in simp_all)
  next
    case (Some t)
    then have e: "?ss = b_stmts (g ! root) @ ?own" using ret by simp
    have "decode (s_code (b_s (g ! b))) \<noteq> Some RetK" using Some g(1) bl by (auto simp: graph_wf_def list_all_length block_ok_def JT_def)
    then show ?thesis using run wf b(2,3) g(2) go hb unfolding e own
      by (intro exI [of _ b] exI [of _ "with_stmts ?h b (b_stmts (g ! root) @ ?own)"]) simp
  qed
qed

section \<open>What the two passes promise\<close>

text \<open>C31: \<open>intern_blocks\<close> ends within the fuel, for every acyclic well-formed graph whose blocks are in \<open>blocks\<close>. The graph it
  leaves is acyclic and well-formed, keeps to the blocks it had, gives every packet the verdict the graph had from the root,
  and two different blocks that can be reached in it are never equal in the sense of \<open>eq_blk\<close>: all merging there was to do
  is done.\<close>

theorem intern_blocks_sound:
  assumes "interning blocks root g" and "ranked rk g"
  shows "\<exists>g' rk'. intern_blocks blocks root g = Inr g' \<and> graph_wf g' \<and> ranked rk' g' \<and> reach_set g' root \<subseteq> set blocks \<and>
    (\<forall>a \<in> reach_set g' root. \<forall>b \<in> reach_set g' root. eq_blk g' a b \<longrightarrow> a = b) \<and>
    (\<forall>pk r. graph_loop g' pk (root, r) = graph_loop g pk (root, r))"
proof -
  have "edge_sum blocks g < 2 * length blocks * length blocks + 1" using edge_sum_le [OF assms(1)] by simp
  from intern_rounds_total [OF assms this] obtain g' rk' where g': "intern_blocks blocks root g = Inr g'"
    "interning blocks root g'" "ranked rk' g'" "merged g' root" "\<forall>pk r. graph_loop g' pk (root, r) = graph_loop g pk (root, r)"
    unfolding intern_blocks_def by blast
  have "graph_wf g'" using g'(2) by (simp add: interning_def)
  then show ?thesis using g'(1,3-5) reach_blocks [OF g'(2)] unfolding merged_def by blast
qed

text \<open>Two tests that differ in the rejecting return they lead to: the returns are merged in the first round, the tests in the
  second.\<close>

theorem intern_blocks_sound_witness:
  "let st = (\<lambda>c k. \<lparr>s_code = c, s_jt = None, s_jf = None, s_k = k\<rparr>);
       g = [\<lparr>b_stmts = [st 0x28 12], b_s = st 0x15 0x800, b_jt = Some 1, b_jf = Some 2\<rparr>,
            \<lparr>b_stmts = [st 0x30 23], b_s = st 0x15 6, b_jt = Some 3, b_jf = Some 4\<rparr>,
            \<lparr>b_stmts = [st 0x30 23], b_s = st 0x15 6, b_jt = Some 3, b_jf = Some 5\<rparr>,
            \<lparr>b_stmts = [], b_s = st 0x06 96, b_jt = None, b_jf = None\<rparr>,
            \<lparr>b_stmts = [], b_s = st 0x06 0, b_jt = None, b_jf = None\<rparr>,
            \<lparr>b_stmts = [], b_s = st 0x06 0, b_jt = None, b_jf = None\<rparr>]
   in \<exists>g'. intern_blocks [0, 1, 2, 3, 4, 5] 0 g = Inr g' \<and> graph_wf g' \<and>
      (\<forall>a \<in> reach_set g' 0. \<forall>b \<in> reach_set g' 0. eq_blk g' a b \<longrightarrow> a = b) \<and>
      (\<forall>pk r. graph_loop g' pk (0, r) = graph_loop g pk (0, r))"
proof -
  let ?st = "\<lambda>c k. \<lparr>s_code = c, s_jt = None, s_jf = None, s_k = k\<rparr> :: stmt"
  let ?g = "[\<lparr>b_stmts = [?st 0x28 12], b_s = ?st 0x15 0x800, b_jt = Some 1, b_jf = Some 2\<rparr>,
            \<lparr>b_stmts = [?st 0x30 23], b_s = ?st 0x15 6, b_jt = Some 3, b_jf = Some 4\<rparr>,
            \<lparr>b_stmts = [?st 0x30 23], b_s = ?st 0x15 6, b_jt = Some 3, b_jf = Some 5\<rparr>,
            \<lparr>b_stmts = [], b_s = ?st 0x06 96, b_jt = None, b_jf = None\<rparr>,
            \<lparr>b_stmts = [], b_s = ?st 0x06 0, b_jt = None, b_jf = None\<rparr>,
            \<lparr>b_stmts = [], b_s = ?st 0x06 0, b_jt = None, b_jf = None\<rparr>] :: graph"
  have wf: "graph_wf ?g" by (simp add: graph_wf_def graph_ok_def block_ok_def wf_stmt_def bpf_exec)
  have rk: "ranked (\<lambda>b. 6 - b) ?g" by (simp add: ranked_def kids_def JT_def JF_def opt_list_def upt_rec)
  have i: "interning [0, 1, 2, 3, 4, 5] 0 ?g"
    using wf by (simp add: interning_def kids_def JT_def JF_def opt_list_def)
  show ?thesis using intern_blocks_sound [OF i rk] unfolding Let_def by blast
qed

text \<open>C32: \<open>opt_root\<close>. The root it leaves is a block that decides something or a return; the statements of the old root are put
  before its own. Where it is a test, every packet gets the verdict it had, provided the other blocks that are skipped have no
  statements left; where it is a return of a constant, the verdict is that constant, which is the old one for every packet on which the
  statements, now dropped, run to their end.\<close>

theorem opt_root_sound:
  assumes "graph_wf g" and "ranked rk g" and "root < length g"
    and "\<forall>d \<in> reach_set g root. d \<noteq> root \<longrightarrow> idle g d"
    and "b_stmts (g ! root) \<noteq> [] \<or> JT g root = None \<or> JT g root \<noteq> JF g root"
  shows "\<exists>b g'. opt_root root g = Inr (b, g') \<and> b \<in> reach_set g root \<and> graph_wf g' \<and> ranked rk g' \<and>
    (JT g' b = None \<or> JT g' b \<noteq> JF g' b) \<and>
    (JT g' b \<noteq> None \<longrightarrow> (\<forall>pk r. graph_loop g' pk (b, r) = graph_loop g pk (root, r))) \<and>
    (decode (s_code (b_s (g' ! b))) = Some RetK \<longrightarrow> (\<forall>pk r. graph_loop g' pk (b, r) = Some (Ret (s_k (b_s (g' ! b)))) \<and>
       graph_loop g pk (root, r) = cont (exec_stmts pk (root_stmts g root b) r) (\<lambda>_. graph_loop g' pk (b, r))))"
  by (rule opt_root_total [OF assms])

text \<open>The root's branches agree; the block below tests the accumulator the root has loaded.\<close>

theorem opt_root_sound_witness:
  "let st = (\<lambda>c k. \<lparr>s_code = c, s_jt = None, s_jf = None, s_k = k\<rparr>);
       g = [\<lparr>b_stmts = [st 0x28 12], b_s = st 0x15 0x800, b_jt = Some 1, b_jf = Some 1\<rparr>,
            \<lparr>b_stmts = [], b_s = st 0x15 0x806, b_jt = Some 2, b_jf = Some 3\<rparr>,
            \<lparr>b_stmts = [], b_s = st 0x06 96, b_jt = None, b_jf = None\<rparr>,
            \<lparr>b_stmts = [], b_s = st 0x06 0, b_jt = None, b_jf = None\<rparr>]
   in \<exists>b g'. opt_root 0 g = Inr (b, g') \<and> graph_wf g' \<and> (JT g' b = None \<or> JT g' b \<noteq> JF g' b) \<and>
      (JT g' b \<noteq> None \<longrightarrow> (\<forall>pk r. graph_loop g' pk (b, r) = graph_loop g pk (0, r)))"
proof -
  let ?st = "\<lambda>c k. \<lparr>s_code = c, s_jt = None, s_jf = None, s_k = k\<rparr> :: stmt"
  let ?g = "[\<lparr>b_stmts = [?st 0x28 12], b_s = ?st 0x15 0x800, b_jt = Some 1, b_jf = Some 1\<rparr>,
            \<lparr>b_stmts = [], b_s = ?st 0x15 0x806, b_jt = Some 2, b_jf = Some 3\<rparr>,
            \<lparr>b_stmts = [], b_s = ?st 0x06 96, b_jt = None, b_jf = None\<rparr>,
            \<lparr>b_stmts = [], b_s = ?st 0x06 0, b_jt = None, b_jf = None\<rparr>] :: graph"
  have wf: "graph_wf ?g" by (simp add: graph_wf_def graph_ok_def block_ok_def wf_stmt_def bpf_exec)
  have rk: "ranked (\<lambda>b. 4 - b) ?g" by (simp add: ranked_def kids_def JT_def JF_def opt_list_def upt_rec)
  have "idle ?g d" if "d < 4" "d \<noteq> 0" for d
  proof -
    have "d \<in> {1, 2, 3}" using that by auto
    then show ?thesis by (auto simp: idle_def JT_def JF_def live_stmts_def)
  qed
  moreover have "d < 4" if "d \<in> reach_set ?g 0" for d
    using reach_in [of ?g 0 d] wf that by (simp add: reach_set_def graph_wf_def)
  ultimately have idle: "\<forall>d \<in> reach_set ?g 0. d \<noteq> 0 \<longrightarrow> idle ?g d" by blast
  have root: "0 < length ?g" and s: "b_stmts (?g ! 0) \<noteq> [] \<or> JT ?g 0 = None \<or> JT ?g 0 \<noteq> JF ?g 0" by simp_all
  show ?thesis using opt_root_sound [OF wf rk root idle s] unfolding Let_def by blast
qed

text \<open>What the conditions are for. A load that fails rejects the packet, so dropping it before a return accepts the packets that
  were too short; and the statements of a skipped block other than the root are dropped.\<close>

lemma opt_root_short_packet:
  fixes st :: "int \<Rightarrow> u32 \<Rightarrow> stmt" and pk :: packet
  defines "st \<equiv> \<lambda>c k. \<lparr>s_code = c, s_jt = None, s_jf = None, s_k = k\<rparr>"
  defines "g \<equiv> [\<lparr>b_stmts = [st 0x28 12], b_s = st 0x06 96, b_jt = None, b_jf = None\<rparr>]"
  defines "pk \<equiv> \<lparr>pk_data = [], pk_wirelen = 0, pk_buflen = 0\<rparr>"
  shows "\<exists>g'. opt_root 0 g = Inr (0, g') \<and> graph_loop g' pk (0, r) = Some (Ret 96) \<and> graph_loop g pk (0, r) = Some (Ret 0)"
  by (simp add: g_def st_def pk_def opt_root_def Let_def bpf_fields graph_loop.simps exec_block_def exec_branch_def bpf_exec
      exec_stmt_def fetch_def)

end
