(* ===== verification/Flow_Levels.thy ===== *)
theory Flow_Levels
  imports Flow_Graph
begin

text \<open>
  \<open>find_levels\<close> of \<^verbatim>\<open>optimize.c\<close> and the order in which the analyses visit the blocks,
  \<open>for (i = root->level; i >= 0; --i) for (b = levels[i]; b; b = b->link)\<close>. The list that
  \<open>levels[i]\<close> heads through the \<open>link\<close> fields is a list here. The order is a topological one,
  which is what makes one sweep enough for the data-flow analyses.
\<close>

section \<open>Levels\<close>

record leveling =
  lv_marked :: "nat set"
  lv_level :: "nat \<Rightarrow> nat"
  lv_levels :: "nat list list"

definition put_level :: "nat \<Rightarrow> nat \<Rightarrow> leveling \<Rightarrow> flow_error + leveling" where
  "put_level b k s =
     (if k < length (lv_levels s)
      then Inr (s\<lparr>lv_level := (lv_level s)(b := k), lv_levels := (lv_levels s)[k := b # lv_levels s ! k]\<rparr>)
      else Inl BadLevel)"

fun find_levels_r :: "nat \<Rightarrow> graph \<Rightarrow> nat \<Rightarrow> leveling \<Rightarrow> flow_error + leveling" where
  "find_levels_r 0 g b s = Inl OutOfFuel"
| "find_levels_r (Suc n) g b s =
     (if b \<in> lv_marked s then Inr s
      else let s0 = s\<lparr>lv_marked := insert b (lv_marked s)\<rparr> in
        case JT g b of
          None \<Rightarrow> put_level b 0 s0
        | Some t \<Rightarrow>
            (case find_levels_r n g t s0 of
               Inl e \<Rightarrow> Inl e
             | Inr s1 \<Rightarrow>
                 (case JF g b of
                    None \<Rightarrow> Inl NullPointer
                  | Some f \<Rightarrow>
                      (case find_levels_r n g f s1 of
                         Inl e \<Rightarrow> Inl e
                       | Inr s2 \<Rightarrow> put_level b (max (lv_level s2 t) (lv_level s2 f) + 1) s2))))"

text \<open>\<open>memset(levels, 0, ...)\<close>, \<open>unMarkAll\<close>, and the traversal; \<open>lv\<close> is what \<open>level\<close> held before.\<close>

definition find_levels :: "graph \<Rightarrow> nat \<Rightarrow> (nat \<Rightarrow> nat) \<Rightarrow> nat \<Rightarrow> flow_error + leveling" where
  "find_levels g n_blocks lv root =
     find_levels_r (Suc (length g)) g root
       \<lparr>lv_marked = {}, lv_level = lv, lv_levels = replicate n_blocks []\<rparr>"

definition level_kids :: "graph \<Rightarrow> nat \<Rightarrow> nat list" where
  "level_kids g b = (case JT g b of None \<Rightarrow> [] | Some t \<Rightarrow> t # opt_list (JF g b))"

definition set_level :: "graph \<Rightarrow> nat \<Rightarrow> leveling \<Rightarrow> flow_error + leveling" where
  "set_level g b s =
     (case JT g b of
        None \<Rightarrow> put_level b 0 s
      | Some t \<Rightarrow>
          (case JF g b of
             None \<Rightarrow> Inl NullPointer
           | Some f \<Rightarrow> put_level b (max (lv_level s t) (lv_level s f) + 1) s))"

interpretation lv: dfs "level_kids g" lv_marked "\<lambda>b s. s\<lparr>lv_marked := insert b (lv_marked s)\<rparr>"
  "set_level g" "\<lambda>n. find_levels_r n g" OutOfFuel for g
proof
  show "lv_marked s' = lv_marked s" if "set_level g b s = Inr s'" for b s s'
    using that by (auto simp: set_level_def put_level_def split: option.splits if_splits)
  show "set_level g b s \<noteq> Inl OutOfFuel" for b s
    by (auto simp: set_level_def put_level_def split: option.splits)
qed (auto simp: level_kids_def set_level_def opt_list_def Let_def split: option.splits sum.splits)

lemma level_kids_ok: "graph_ok g \<Longrightarrow> b < length g \<Longrightarrow> level_kids g b = kids g b"
  by (erule (1) graph_ok_cases) (simp_all add: level_kids_def opt_list_def)

text \<open>What the levels are for the blocks \<open>V\<close>.\<close>

definition leveled :: "graph \<Rightarrow> nat set \<Rightarrow> (nat \<Rightarrow> nat) \<Rightarrow> nat list list \<Rightarrow> bool" where
  "leveled g V lv lvs \<longleftrightarrow>
     (\<forall>b \<in> V. lv b = (if kids g b = [] then 0 else Max (lv ` set (kids g b)) + 1) \<and> lv b < length lvs) \<and>
     (\<forall>i < length lvs. distinct (lvs ! i) \<and> set (lvs ! i) = {b \<in> V. lv b = i})"

lemma leveled_kid: "leveled g V lv lvs \<Longrightarrow> b \<in> V \<Longrightarrow> k \<in> set (kids g b) \<Longrightarrow> lv k < lv b"
proof -
  assume a: "leveled g V lv lvs" "b \<in> V" "k \<in> set (kids g b)"
  then have "lv b = Max (lv ` set (kids g b)) + 1" by (auto simp: leveled_def)
  moreover have "lv k \<le> Max (lv ` set (kids g b))" using a(3) by (intro Max_ge) auto
  ultimately show ?thesis by simp
qed

lemma put_leveled:
  assumes l: "leveled g D (lv_level s) (lv_levels s)" and b: "b \<notin> D" "set (kids g b) \<subseteq> D"
    and closed: "\<And>x. x \<in> D \<Longrightarrow> set (kids g x) \<subseteq> D"
    and k: "k = (if kids g b = [] then 0 else Max (lv_level s ` set (kids g b)) + 1)"
    and p: "put_level b k s = Inr s'"
  shows "leveled g (insert b D) (lv_level s') (lv_levels s')"
proof -
  have kl: "k < length (lv_levels s)"
    and s': "lv_level s' = (lv_level s)(b := k)" "lv_levels s' = (lv_levels s)[k := b # lv_levels s ! k]"
    using p by (auto simp: put_level_def split: if_splits)
  have same: "lv_level s' ` set (kids g x) = lv_level s ` set (kids g x)" if "x \<in> insert b D" for x
    using that b closed s' by (intro image_cong) auto
  show ?thesis
    unfolding leveled_def
  proof (intro conjI ballI allI impI)
    fix x assume x: "x \<in> insert b D"
    show "lv_level s' x = (if kids g x = [] then 0 else Max (lv_level s' ` set (kids g x)) + 1)"
      unfolding same [OF x] using l k s' x b(1) by (auto simp: leveled_def)
    show "lv_level s' x < length (lv_levels s')" using l kl s' x b(1) by (auto simp: leveled_def)
  next
    fix i assume i: "i < length (lv_levels s')"
    have d: "distinct (lv_levels s ! i)" "set (lv_levels s ! i) = {x \<in> D. lv_level s x = i}"
      using l i s' by (auto simp: leveled_def)
    then show "distinct (lv_levels s' ! i)" using i s' b(1) by (cases "i = k") auto
    show "set (lv_levels s' ! i) = {x \<in> insert b D. lv_level s' x = i}"
    proof (cases "i = k")
      case True
      then show ?thesis using d i s' b(1) by auto
    next
      case False
      then have "lv_levels s' ! i = lv_levels s ! i" using s' by simp
      then show ?thesis using d False s' b(1) by auto
    qed
  qed
qed

lemma kids_reach: "b \<in> reach_set g root \<Longrightarrow> set (kids g b) \<subseteq> reach_set g root"
  by (auto simp: reach_set_def intro: reach_step)

lemma reach_set_sub: "graph_ok g \<Longrightarrow> root < length g \<Longrightarrow> reach_set g root \<subseteq> {..<length g}"
  by (auto simp: reach_set_def dest: reach_in)

lemma reach_set_root [simp]: "root \<in> reach_set g root"
  by (simp add: reach_set_def)

definition level_inv :: "graph \<Rightarrow> nat set \<Rightarrow> nat \<Rightarrow> leveling \<Rightarrow> nat set \<Rightarrow> bool" where
  "level_inv g V n s D \<longleftrightarrow> D \<subseteq> V \<and> (\<forall>x \<in> D. set (kids g x) \<subseteq> D) \<and> length (lv_levels s) = n \<and>
     leveled g D (lv_level s) (lv_levels s) \<and> (\<forall>x \<in> D. lv_level s x < card D)"

lemma set_level_inv:
  assumes ok: "graph_ok g" "b < length g" and V: "finite V" "card V = n"
    and i: "level_inv g V n s D" and b: "b \<in> V" "b \<notin> D" "set (kids g b) \<subseteq> D"
  shows "\<exists>s'. set_level g b s = Inr s' \<and> level_inv g V n s' (insert b D)"
proof -
  define k where "k = (if kids g b = [] then 0 else Max (lv_level s ` set (kids g b)) + 1)"
  have set: "set_level g b s = put_level b k s"
    using ok by (rule graph_ok_cases) (simp_all add: set_level_def k_def)
  have i': "D \<subseteq> V" "\<And>x. x \<in> D \<Longrightarrow> set (kids g x) \<subseteq> D" "length (lv_levels s) = n"
    "leveled g D (lv_level s) (lv_levels s)" "\<And>x. x \<in> D \<Longrightarrow> lv_level s x < card D"
    using i by (auto simp: level_inv_def)
  have fin: "finite D" using i'(1) V(1) by (rule finite_subset)
  have "k \<le> card D"
  proof (cases "kids g b = []")
    case False
    then have "Max (lv_level s ` set (kids g b)) < card D" using b(3) i'(5) by auto
    then show ?thesis using False by (simp add: k_def Suc_le_eq del: Max_less_iff)
  qed (simp add: k_def)
  moreover have cd: "card (insert b D) = Suc (card D)" using fin b(2) by simp
  moreover have "card (insert b D) \<le> n"
    using card_mono [OF V(1), of "insert b D"] i'(1) b(1) V(2) by simp
  ultimately have k: "k < length (lv_levels s)" "k < card (insert b D)" using i'(3) by simp_all
  then obtain s' where s': "put_level b k s = Inr s'" by (simp add: put_level_def)
  then have eq: "lv_level s' = (lv_level s)(b := k)" "length (lv_levels s') = n"
    using i'(3) by (auto simp: put_level_def split: if_splits)
  have "leveled g (insert b D) (lv_level s') (lv_levels s')"
    by (rule put_leveled [OF i'(4) b(2,3) i'(2) k_def s'])
  then have "level_inv g V n s' (insert b D)"
    using i'(1,2,5) b k eq cd unfolding level_inv_def by (auto simp: less_Suc_eq)
  then show ?thesis using set s' by simp
qed

lemma find_levels_total:
  assumes ok: "graph_ok g" "ranked rk g" "root < length g" and n: "n = card (reach_set g root)"
  shows "\<exists>s. find_levels g n lv root = Inr s \<and>
      leveled g (reach_set g root) (lv_level s) (lv_levels s) \<and> length (lv_levels s) = n"
proof -
  let ?V = "reach_set g root"
  let ?s = "\<lparr>lv_marked = {}, lv_level = lv, lv_levels = replicate n []\<rparr>"
  have V: "finite ?V" "?V \<subseteq> {..<length g}"
    using finite_reach_set ok reach_set_sub by blast+
  have k: "level_kids g b = kids g b" if "b \<in> ?V" for b using V(2) that ok(1) level_kids_ok by auto
  have cl: "k \<in> ?V \<and> rk k < rk x" if "x \<in> ?V" "k \<in> set (level_kids g x)" for x k
  proof -
    have "k \<in> set (kids g x)" using that k by simp
    moreover have "x < length g" using V(2) that(1) by auto
    ultimately show ?thesis using kids_reach [OF that(1)] rankedD [OF ok(2)] by blast
  qed
  have "\<exists>s'. find_levels_r (Suc (length g)) g root ?s = Inr s' \<and>
      level_inv g ?V n s' {d. reach (level_kids g) root d} \<and>
      lv_marked s' = {d. reach (level_kids g) root d}"
  proof (rule lv.visit_root_total [where I = "level_inv g ?V n", OF V(1) cl])
    show "level_inv g ?V n ?s {}" by (simp add: level_inv_def leveled_def)
    show "\<exists>s'. set_level g b s = Inr s' \<and> level_inv g ?V n s' (insert b D)"
      if "level_inv g ?V n s D" "b \<in> ?V" "b \<notin> D" "set (level_kids g b) \<subseteq> D" for b s D
      using set_level_inv [OF ok(1) _ V(1) n [symmetric] that(1-3)] that(2,4) k V(2) by auto
    show "card ?V < Suc (length g)" using card_mono [OF finite_lessThan V(2)] by simp
  qed (auto simp: level_inv_def)
  moreover have "{d. reach (level_kids g) root d} = ?V"
  proof -
    have "d \<in> ?V" if "reach (level_kids g) root d" for d
      using that by (induction rule: reach.induct) (use k kids_reach [of _ g root] in auto)
    moreover have "d \<in> ?V \<and> reach (level_kids g) root d" if "reach (kids g) root d" for d
      using that
    proof (induction rule: reach.induct)
      case (reach_step c d)
      then show ?case using k [of c] kids_reach [of c g root] reach.reach_step [of "level_kids g" root c d]
        by auto
    qed simp
    ultimately show ?thesis by (auto simp: reach_set_def)
  qed
  ultimately show ?thesis by (auto simp: find_levels_def level_inv_def)
qed

section \<open>The order of the sweeps\<close>

definition down_order :: "nat list list \<Rightarrow> nat \<Rightarrow> nat list" where
  "down_order lvs m = concat (map (\<lambda>i. lvs ! i) (rev [0..<Suc m]))"

definition up_order :: "nat list list \<Rightarrow> nat \<Rightarrow> nat \<Rightarrow> nat list" where
  "up_order lvs a m = concat (map (\<lambda>i. lvs ! i) [a..<Suc m])"

text \<open>A list of nodes in which every edge between them goes forward.\<close>

definition topo :: "('a \<Rightarrow> 'a list) \<Rightarrow> 'a list \<Rightarrow> bool" where
  "topo ks xs \<longleftrightarrow> distinct xs \<and> (\<forall>pre b post. xs = pre @ b # post \<longrightarrow>
     (\<forall>p \<in> set xs. b \<in> set (ks p) \<longrightarrow> p \<in> set pre))"

lemma topo_fold:
  assumes "I {} s" and "\<And>pre b post s. xs = pre @ b # post \<Longrightarrow> I (set pre) s \<Longrightarrow> I (insert b (set pre)) (f b s)"
  shows "I (set xs) (fold f xs s)"
proof -
  have "xs = pre @ post \<Longrightarrow> I (set pre) s \<Longrightarrow> I (set xs) (fold f post s)" for pre post s
  proof (induction post arbitrary: pre s)
    case (Cons b post)
    then show ?case using Cons.IH [of "pre @ [b]"] assms(2) [of pre b post] by simp
  qed simp
  from this [of "[]" xs] assms(1) show ?thesis by simp
qed

lemma concat_levels:
  "distinct is \<Longrightarrow> (\<And>i. i \<in> set is \<Longrightarrow> distinct (lvs ! i) \<and> set (lvs ! i) = {b \<in> V. lv b = i}) \<Longrightarrow>
   distinct (concat (map (\<lambda>i. lvs ! i) is)) \<and> set (concat (map (\<lambda>i. lvs ! i) is)) = {b \<in> V. lv b \<in> set is}"
  by (induction "is") auto

lemma concat_sorted:
  assumes "\<And>i. R i i"
  shows "sorted_wrt R is \<Longrightarrow> (\<And>i. i \<in> set is \<Longrightarrow> set (lvs ! i) = {b \<in> V. lv b = i}) \<Longrightarrow>
     sorted_wrt (\<lambda>x y. R (lv x) (lv y)) (concat (map (\<lambda>i. lvs ! i) is))"
proof (induction "is")
  case (Cons i "is")
  have i: "set (lvs ! i) = {b \<in> V. lv b = i}" using Cons.prems(2) by simp
  have "sorted_wrt (\<lambda>x y. R (lv x) (lv y)) (lvs ! i)"
    by (rule sorted_wrt_mono_rel [of _ "\<lambda>_ _. True"])
      (use i assms in \<open>auto simp: sorted_wrt_iff_nth_less\<close>)
  moreover have "R i (lv y)" if "y \<in> set (concat (map ((!) lvs) is))" for y
    using that Cons.prems by auto
  ultimately show ?case using Cons i by (auto simp: sorted_wrt_append)
qed simp

lemma root_level:
  assumes l: "leveled g (reach_set g root) lv lvs" and b: "b \<in> reach_set g root"
  shows "lv b \<le> lv root"
proof -
  have "reach (kids g) root b" using b by (simp add: reach_set_def)
  then show ?thesis
  proof (induction rule: reach.induct)
    case (reach_step c d)
    then show ?case using leveled_kid [OF l, of c d] by (simp add: reach_set_def)
  qed simp
qed

lemma down_order_topo:
  assumes l: "leveled g (reach_set g root) lv lvs"
  shows "topo (kids g) (down_order lvs (lv root))" and "set (down_order lvs (lv root)) = reach_set g root"
proof -
  let ?is = "rev [0..<Suc (lv root)]" and ?V = "reach_set g root"
  have r: "lv root < length lvs" using l reach_set_root [of root g] unfolding leveled_def by blast
  have lv: "distinct (lvs ! i) \<and> set (lvs ! i) = {b \<in> ?V. lv b = i}" if "i \<in> set ?is" for i
  proof -
    have "i < length lvs" using that r by auto
    then show ?thesis using l unfolding leveled_def by blast
  qed
  have ds: "distinct (down_order lvs (lv root))"
    "set (down_order lvs (lv root)) = {b \<in> ?V. lv b \<in> set ?is}"
    unfolding down_order_def by (rule concat_levels [OF _ lv, THEN conjunct1], simp, assumption)
      (rule concat_levels [OF _ lv, THEN conjunct2], simp, assumption)
  then show s: "set (down_order lvs (lv root)) = ?V"
    using root_level [OF l] by (auto simp: less_Suc_eq_le order_le_less)
  have "sorted_wrt (\<ge>) ?is" by (subst sorted_wrt_rev) (simp del: upt_Suc)
  then have o: "sorted_wrt (\<lambda>x y. lv x \<ge> lv y) (down_order lvs (lv root))"
    unfolding down_order_def using lv by (intro concat_sorted) auto
  show "topo (kids g) (down_order lvs (lv root))"
    unfolding topo_def
  proof (intro conjI allI impI ballI ds(1))
    fix pre b post p
    assume x: "down_order lvs (lv root) = pre @ b # post" and p: "p \<in> set (down_order lvs (lv root))"
      and k: "b \<in> set (kids g p)"
    have "lv b < lv p" using leveled_kid [OF l _ k] p s by simp
    moreover have "lv y \<le> lv b" if "y \<in> set post" for y
      using o that unfolding x by (simp add: sorted_wrt_append)
    ultimately show "p \<in> set pre" using p unfolding x by fastforce
  qed
qed

end
