(* ===== verification/Flow_Dom.thy ===== *)
theory Flow_Dom
  imports Flow_Levels
begin

text \<open>
  The set-valued analyses of \<^verbatim>\<open>optimize.c\<close>: \<open>find_dom\<close>, \<open>find_edom\<close> and
  \<open>find_closure\<close>, with the bit vectors and the \<open>SET_\<close> macros they are written in. Each is one
  sweep in the order of \<open>Flow_Levels\<close>. Dominators of blocks and of edges are one computation on
  two graphs, proved right once for any graph that is \<open>sweepable\<close>. The passes run on graphs whose blocks have both
  successors or neither (\<open>graph_ok\<close>); a missing \<open>JF\<close> is not dereferenced in the model.
\<close>

section \<open>Bit vectors\<close>

type_synonym uset = "u32 list"

definition SET_MEMBER :: "uset \<Rightarrow> nat \<Rightarrow> bool" where
  "SET_MEMBER p a \<longleftrightarrow> p ! (a div 32) AND push_bit (a mod 32) 1 \<noteq> 0"

definition SET_INSERT :: "uset \<Rightarrow> nat \<Rightarrow> uset" where
  "SET_INSERT p a = p[a div 32 := p ! (a div 32) OR push_bit (a mod 32) 1]"

definition SET_DELETE :: "uset \<Rightarrow> nat \<Rightarrow> uset" where
  "SET_DELETE p a = p[a div 32 := p ! (a div 32) AND NOT (push_bit (a mod 32) 1)]"

definition SET_INTERSECT :: "uset \<Rightarrow> uset \<Rightarrow> uset" where
  "SET_INTERSECT a b = map2 (AND) a b"

definition SET_SUBTRACT :: "uset \<Rightarrow> uset \<Rightarrow> uset" where
  "SET_SUBTRACT a b = map2 (\<lambda>x y. x AND NOT y) a b"

definition SET_UNION :: "uset \<Rightarrow> uset \<Rightarrow> uset" where
  "SET_UNION a b = map2 (OR) a b"

lemma SET_MEMBER_bit: "SET_MEMBER p a \<longleftrightarrow> bit (p ! (a div 32)) (a mod 32)"
  by (simp add: SET_MEMBER_def push_bit_of_1 and_exp_eq_0_iff_not_bit)

lemma div32_less: "(a :: nat) < 32 * n \<Longrightarrow> a div 32 < n"
  by (simp add: less_mult_imp_div_less mult.commute)

lemma set_lengths [simp]:
  "length (SET_INSERT p a) = length p" "length (SET_DELETE p a) = length p"
  "length (SET_INTERSECT p q) = min (length p) (length q)"
  "length (SET_SUBTRACT p q) = min (length p) (length q)"
  "length (SET_UNION p q) = min (length p) (length q)"
  by (simp_all add: SET_INSERT_def SET_DELETE_def SET_INTERSECT_def SET_SUBTRACT_def SET_UNION_def)

lemma same_bit: "a div 32 = c div 32 \<Longrightarrow> a mod 32 = c mod 32 \<Longrightarrow> a = (c :: nat)"
  by (metis div_mult_mod_eq)

lemma member_insert:
  assumes "a < 32 * length p" and "c < 32 * length p"
  shows "SET_MEMBER (SET_INSERT p a) c \<longleftrightarrow> c = a \<or> SET_MEMBER p c"
proof (cases "c div 32 = a div 32")
  case True
  then have "SET_MEMBER (SET_INSERT p a) c \<longleftrightarrow> bit (p ! (a div 32)) (c mod 32) \<or> c mod 32 = a mod 32"
    using div32_less [OF assms(1)]
    by (simp add: SET_MEMBER_bit SET_INSERT_def bit_or_iff push_bit_of_1 bit_exp_iff)
  moreover have "c mod 32 = a mod 32 \<longleftrightarrow> c = a" using same_bit [OF True] by blast
  ultimately show ?thesis using True by (auto simp: SET_MEMBER_bit)
next
  case False
  then have "c \<noteq> a" by auto
  then show ?thesis using False by (simp add: SET_MEMBER_bit SET_INSERT_def)
qed

lemma member_delete:
  assumes "a < 32 * length p" and "c < 32 * length p"
  shows "SET_MEMBER (SET_DELETE p a) c \<longleftrightarrow> c \<noteq> a \<and> SET_MEMBER p c"
proof (cases "c div 32 = a div 32")
  case True
  then have "SET_MEMBER (SET_DELETE p a) c \<longleftrightarrow> bit (p ! (a div 32)) (c mod 32) \<and> c mod 32 \<noteq> a mod 32"
    using div32_less [OF assms(1)]
    by (simp add: SET_MEMBER_bit SET_DELETE_def bit_and_iff bit_not_iff push_bit_of_1 bit_exp_iff)
  moreover have "c mod 32 = a mod 32 \<longleftrightarrow> c = a" using same_bit [OF True] by blast
  ultimately show ?thesis using True by (auto simp: SET_MEMBER_bit)
next
  case False
  then have "c \<noteq> a" by auto
  then show ?thesis using False by (simp add: SET_MEMBER_bit SET_DELETE_def)
qed

lemma member_binary:
  assumes "length q = length p" and "c < 32 * length p"
  shows "SET_MEMBER (SET_INTERSECT p q) c \<longleftrightarrow> SET_MEMBER p c \<and> SET_MEMBER q c"
    and "SET_MEMBER (SET_UNION p q) c \<longleftrightarrow> SET_MEMBER p c \<or> SET_MEMBER q c"
    and "SET_MEMBER (SET_SUBTRACT p q) c \<longleftrightarrow> SET_MEMBER p c \<and> \<not> SET_MEMBER q c"
  using div32_less [OF assms(2)] assms(1)
  by (auto simp: SET_MEMBER_bit SET_INTERSECT_def SET_UNION_def SET_SUBTRACT_def bit_and_iff
      bit_or_iff bit_not_iff)

lemma member_replicate:
  assumes "c < 32 * n"
  shows "SET_MEMBER (replicate n (- 1)) c" and "\<not> SET_MEMBER (replicate n 0) c"
  using div32_less [OF assms] by (simp_all add: SET_MEMBER_bit bit_minus_1_iff)

section \<open>One sweep computes dominators\<close>

text \<open>
  \<open>R\<close> are the starting nodes, \<open>xs\<close> the nodes in topological order, \<open>ident\<close> the number of a node
  in the vectors of \<open>words\<close> words. \<open>sweep_visit\<close> is the body of the loop.
\<close>

definition sweepable ::
    "('n \<Rightarrow> 'n list) \<Rightarrow> ('n \<Rightarrow> nat) \<Rightarrow> nat \<Rightarrow> 'n set \<Rightarrow> 'n list \<Rightarrow> bool" where
  "sweepable succs ident words R xs \<longleftrightarrow> topo succs xs \<and>
     (\<forall>n \<in> set xs. set (succs n) \<subseteq> set xs) \<and> R \<subseteq> set xs \<and>
     (\<forall>r \<in> R. \<forall>n \<in> set xs. r \<notin> set (succs n)) \<and>
     (\<forall>n \<in> set xs - R. \<exists>p \<in> set xs. n \<in> set (succs p)) \<and>
     inj_on ident (set xs) \<and> (\<forall>n \<in> set xs. ident n < 32 * words)"

inductive path :: "('n \<Rightarrow> 'n list) \<Rightarrow> 'n set \<Rightarrow> 'n list \<Rightarrow> 'n \<Rightarrow> bool" for succs R where
  path_root: "r \<in> R \<Longrightarrow> path succs R [r] r"
| path_step: "path succs R ps p \<Longrightarrow> n \<in> set (succs p) \<Longrightarrow> path succs R (ps @ [n]) n"

text \<open>\<open>d\<close> is on every path from a starting node to \<open>n\<close>.\<close>

definition dom_by :: "('n \<Rightarrow> 'n list) \<Rightarrow> 'n set \<Rightarrow> 'n \<Rightarrow> 'n \<Rightarrow> bool" where
  "dom_by succs R n d \<longleftrightarrow> (\<forall>ps. path succs R ps n \<longrightarrow> d \<in> set ps)"

definition sweep_visit ::
    "('n \<Rightarrow> 'n list) \<Rightarrow> ('n \<Rightarrow> nat) \<Rightarrow> 'n \<Rightarrow> ('n \<Rightarrow> uset) \<Rightarrow> 'n \<Rightarrow> uset" where
  "sweep_visit succs ident n s = fold (\<lambda>k s. s(k := SET_INTERSECT (s k) (s n))) (succs n)
     (s(n := SET_INSERT (s n) (ident n)))"

definition sweep_start :: "nat \<Rightarrow> 'n set \<Rightarrow> 'n \<Rightarrow> uset" where
  "sweep_start words R n = (if n \<in> R then replicate words 0 else replicate words (- 1))"

lemma path_in: "sweepable succs ident words R xs \<Longrightarrow> path succs R ps n \<Longrightarrow> n \<in> set xs"
  by (rotate_tac, induction rule: path.induct) (auto simp: sweepable_def)

lemma dom_by_root:
  assumes sw: "sweepable succs ident words R xs" and r: "r \<in> R"
  shows "dom_by succs R r d \<longleftrightarrow> d = r"
proof
  show "dom_by succs R r d \<Longrightarrow> d = r" using path_root [of r R succs, OF r] by (auto simp: dom_by_def)
  have "ps = [r]" if "path succs R ps r" for ps
    using that by cases (use r sw path_in [OF sw] in \<open>auto simp: sweepable_def\<close>)
  then show "d = r \<Longrightarrow> dom_by succs R r d" by (fastforce simp: dom_by_def)
qed

lemma dom_by_step:
  assumes sw: "sweepable succs ident words R xs" and n: "n \<in> set xs" "n \<notin> R"
  shows "dom_by succs R n d \<longleftrightarrow> d = n \<or> (\<forall>p \<in> set xs. n \<in> set (succs p) \<longrightarrow> dom_by succs R p d)"
proof
  assume d: "dom_by succs R n d"
  have "dom_by succs R p d" if p: "d \<noteq> n" "p \<in> set xs" "n \<in> set (succs p)" for p
    unfolding dom_by_def
  proof (intro allI impI)
    fix ps assume "path succs R ps p"
    then have "path succs R (ps @ [n]) n" using p(3) by (rule path_step)
    then show "d \<in> set ps" using d p(1) by (auto simp: dom_by_def)
  qed
  then show "d = n \<or> (\<forall>p \<in> set xs. n \<in> set (succs p) \<longrightarrow> dom_by succs R p d)" by blast
next
  assume d: "d = n \<or> (\<forall>p \<in> set xs. n \<in> set (succs p) \<longrightarrow> dom_by succs R p d)"
  show "dom_by succs R n d"
    unfolding dom_by_def
  proof (intro allI impI)
    fix ps assume "path succs R ps n"
    then show "d \<in> set ps"
    proof cases
      case (path_step qs p)
      then show ?thesis using d path_in [OF sw path_step(2)] by (auto simp: dom_by_def)
    qed (use n in simp)
  qed
qed

lemma meet_fold:
  assumes "n \<notin> set ks" and "\<And>k. length (s k) = words" and "c < 32 * words"
  shows "(SET_MEMBER (fold (\<lambda>k s. s(k := SET_INTERSECT (s k) (s n))) ks s k) c \<longleftrightarrow>
      SET_MEMBER (s k) c \<and> (k \<in> set ks \<longrightarrow> SET_MEMBER (s n) c)) \<and>
    length (fold (\<lambda>k s. s(k := SET_INTERSECT (s k) (s n))) ks s k) = words"
  using assms
proof (induction ks arbitrary: s)
  case (Cons j ks)
  let ?s = "s(j := SET_INTERSECT (s j) (s n))"
  have l: "length (?s i) = words" for i using Cons.prems(2) by simp
  have m: "SET_MEMBER (SET_INTERSECT (s j) (s n)) c \<longleftrightarrow> SET_MEMBER (s j) c \<and> SET_MEMBER (s n) c"
    using member_binary(1) [of "s n" "s j" c] Cons.prems(2,3) by simp
  have "n \<notin> set ks" using Cons.prems(1) by simp
  from Cons.IH [OF this l Cons.prems(3)] show ?case using m Cons.prems(1) by auto
qed simp

definition swept ::
    "('n \<Rightarrow> 'n list) \<Rightarrow> ('n \<Rightarrow> nat) \<Rightarrow> nat \<Rightarrow> 'n set \<Rightarrow> 'n list \<Rightarrow> 'n set \<Rightarrow> ('n \<Rightarrow> uset) \<Rightarrow> bool" where
  "swept succs ident words R xs P s \<longleftrightarrow> (\<forall>k. length (s k) = words) \<and>
     (\<forall>n \<in> set xs. \<forall>d \<in> set xs. SET_MEMBER (s n) (ident d) \<longleftrightarrow>
        (if n \<in> P then dom_by succs R n d
         else n \<notin> R \<and> (\<forall>p \<in> P. n \<in> set (succs p) \<longrightarrow> dom_by succs R p d)))"

lemma later:
  assumes order: "topo succs xs" and "xs = pre @ b # post" and "k \<in> set (succs b)"
  shows "k \<notin> set pre" and "k \<noteq> b"
proof -
  have b: "b \<in> set xs" "b \<notin> set pre" using assms(2) order by (auto simp: topo_def)
  show "k \<notin> set pre"
  proof
    assume "k \<in> set pre"
    then obtain p1 p2 where "pre = p1 @ k # p2" by (auto simp: in_set_conv_decomp)
    then have "b \<in> set p1" using order assms b(1) unfolding topo_def by (metis append.assoc append_Cons)
    then show False using b(2) \<open>pre = p1 @ k # p2\<close> by simp
  qed
  show "k \<noteq> b" using order assms b unfolding topo_def by blast
qed

lemma visit_swept:
  assumes sw: "sweepable succs ident words R xs" and x: "xs = pre @ b # post" and s: "swept succs ident words R xs (set pre) s"
  shows "swept succs ident words R xs (insert b (set pre)) (sweep_visit succs ident b s)"
proof -
  let ?s = "s(b := SET_INSERT (s b) (ident b))"
  have order: "topo succs xs" and inj: "inj_on ident (set xs)"
    and small: "\<And>n. n \<in> set xs \<Longrightarrow> ident n < 32 * words"
    using sw by (auto simp: sweepable_def)
  have b: "b \<in> set xs" "b \<notin> set pre" using x order by (auto simp: topo_def)
  have len: "length (s k) = words" for k using s by (simp add: swept_def)
  then have l: "length (?s k) = words" for k by simp
  have sb: "b \<notin> set (succs b)" using later [OF order x] by blast
  have mem: "SET_MEMBER (s n) (ident d) \<longleftrightarrow> (if n \<in> set pre then dom_by succs R n d
      else n \<notin> R \<and> (\<forall>p \<in> set pre. n \<in> set (succs p) \<longrightarrow> dom_by succs R p d))"
    if "n \<in> set xs" "d \<in> set xs" for n d using s that by (simp add: swept_def)
  have id: "ident d = ident b \<longleftrightarrow> d = b" if "d \<in> set xs" for d
    using inj b(1) that by (auto dest: inj_onD)
  have at_b: "SET_MEMBER (?s b) (ident d) \<longleftrightarrow> dom_by succs R b d" if d: "d \<in> set xs" for d
  proof -
    have "SET_MEMBER (?s b) (ident d) \<longleftrightarrow> d = b \<or> SET_MEMBER (s b) (ident d)"
      using member_insert [of "ident b" "s b" "ident d"] small [OF b(1)] small [OF d] len id [OF d]
      by simp
    moreover have "p \<in> set pre" if "p \<in> set xs" "b \<in> set (succs p)" for p
      using order x that by (auto simp: topo_def)
    ultimately show ?thesis
      using mem [OF b(1) d] b dom_by_root [OF sw, of b d] dom_by_step [OF sw b(1), of d] x by auto
  qed
  have v: "SET_MEMBER (sweep_visit succs ident b s n) (ident d) \<longleftrightarrow>
      SET_MEMBER (?s n) (ident d) \<and> (n \<in> set (succs b) \<longrightarrow> dom_by succs R b d)" if d: "d \<in> set xs" for n d
    unfolding sweep_visit_def using meet_fold [where s = ?s and k = n, OF sb l small [OF d]] at_b [OF d] by simp
  show ?thesis
    unfolding swept_def
  proof (intro conjI allI ballI)
    show "length (sweep_visit succs ident b s k) = words" for k
      unfolding sweep_visit_def using meet_fold [where s = ?s and k = k, OF sb l small [OF b(1)]] by simp
  next
    fix n d assume n: "n \<in> set xs" and d: "d \<in> set xs"
    consider "n = b" | "n \<noteq> b" "n \<in> set pre" | "n \<noteq> b" "n \<notin> set pre" by blast
    then show "SET_MEMBER (sweep_visit succs ident b s n) (ident d) \<longleftrightarrow>
        (if n \<in> insert b (set pre) then dom_by succs R n d
         else n \<notin> R \<and> (\<forall>p \<in> insert b (set pre). n \<in> set (succs p) \<longrightarrow> dom_by succs R p d))"
    proof cases
      case 1
      then show ?thesis using v [OF d] at_b [OF d] sb by simp
    next
      case 2
      then show ?thesis using v [OF d] mem [OF n d] later(1) [OF order x, of n] by auto
    next
      case 3
      then show ?thesis using v [OF d] mem [OF n d] by auto
    qed
  qed
qed

lemma sweep_dominators:
  assumes sw: "sweepable succs ident words R xs" and "n \<in> set xs" and "d \<in> set xs"
  shows "SET_MEMBER (fold (sweep_visit succs ident) xs (sweep_start words R) n) (ident d) \<longleftrightarrow> dom_by succs R n d"
proof -
  have "swept succs ident words R xs {} (sweep_start words R)"
    using member_replicate sw by (auto simp: sweepable_def swept_def sweep_start_def)
  then have "swept succs ident words R xs (set xs) (fold (sweep_visit succs ident) xs (sweep_start words R))"
    by (rule topo_fold [where I = "swept succs ident words R xs"]) (rule visit_swept [OF sw])
  then show ?thesis using assms(2,3) by (simp add: swept_def)
qed

section \<open>The three analyses\<close>

text \<open>The body of \<open>find_dom\<close>'s loop, and the function. \<open>ids\<close> is the field \<open>id\<close>.\<close>

definition dom_step :: "graph \<Rightarrow> (nat \<Rightarrow> nat) \<Rightarrow> nat \<Rightarrow> (nat \<Rightarrow> uset) \<Rightarrow> nat \<Rightarrow> uset" where
  "dom_step g ids b dm =
     (let dom1 = dm(b := SET_INSERT (dm b) (ids b)) in
      case JT g b of
        None \<Rightarrow> dom1
      | Some t \<Rightarrow>
          (let dom2 = dom1(t := SET_INTERSECT (dom1 t) (dom1 b)) in
           case JF g b of
             None \<Rightarrow> dom2
           | Some f \<Rightarrow> dom2(f := SET_INTERSECT (dom2 f) (dom2 b))))"

definition find_dom ::
    "graph \<Rightarrow> (nat \<Rightarrow> nat) \<Rightarrow> nat \<Rightarrow> leveling \<Rightarrow> nat \<Rightarrow> nat \<Rightarrow> uset" where
  "find_dom g ids nodewords lvs root =
     fold (dom_step g ids) (down_order (lv_levels lvs) (lv_level lvs root))
       ((\<lambda>_. replicate nodewords (- 1))(root := replicate nodewords 0))"

text \<open>An edge is a block with \<open>True\<close> for \<open>et\<close> and \<open>False\<close> for \<open>ef\<close>; \<open>edge_id\<close> is as \<open>opt_init\<close>
  sets it.\<close>

definition edge_succ :: "graph \<Rightarrow> nat \<times> bool \<Rightarrow> nat option" where
  "edge_succ g e = (if snd e then JT g (fst e) else JF g (fst e))"

definition edge_id :: "(nat \<Rightarrow> nat) \<Rightarrow> nat \<Rightarrow> nat \<times> bool \<Rightarrow> nat" where
  "edge_id ids n_blocks e = (if snd e then ids (fst e) else n_blocks + ids (fst e))"

definition propedom ::
    "graph \<Rightarrow> (nat \<Rightarrow> nat) \<Rightarrow> nat \<Rightarrow> nat \<times> bool \<Rightarrow> (nat \<times> bool \<Rightarrow> uset) \<Rightarrow> nat \<times> bool \<Rightarrow> uset" where
  "propedom g ids n_blocks ep edom =
     (let edom1 = edom(ep := SET_INSERT (edom ep) (edge_id ids n_blocks ep)) in
      case edge_succ g ep of
        None \<Rightarrow> edom1
      | Some c \<Rightarrow>
          (let edom2 = edom1((c, True) := SET_INTERSECT (edom1 (c, True)) (edom1 ep))
           in edom2((c, False) := SET_INTERSECT (edom2 (c, False)) (edom2 ep))))"

definition find_edom ::
    "graph \<Rightarrow> (nat \<Rightarrow> nat) \<Rightarrow> nat \<Rightarrow> nat \<Rightarrow> leveling \<Rightarrow> nat \<Rightarrow> nat \<times> bool \<Rightarrow> uset" where
  "find_edom g ids n_blocks edgewords lvs root =
     fold (\<lambda>b s. propedom g ids n_blocks (b, False) (propedom g ids n_blocks (b, True) s))
       (down_order (lv_levels lvs) (lv_level lvs root))
       ((\<lambda>_. replicate edgewords (- 1))
         ((root, True) := replicate edgewords 0, (root, False) := replicate edgewords 0))"

definition closure_step :: "graph \<Rightarrow> (nat \<Rightarrow> nat) \<Rightarrow> nat \<Rightarrow> (nat \<Rightarrow> uset) \<Rightarrow> nat \<Rightarrow> uset" where
  "closure_step g ids b cl =
     (let cl1 = cl(b := SET_INSERT (cl b) (ids b)) in
      case JT g b of
        None \<Rightarrow> cl1
      | Some t \<Rightarrow>
          (let cl2 = cl1(t := SET_UNION (cl1 t) (cl1 b)) in
           case JF g b of
             None \<Rightarrow> cl2
           | Some f \<Rightarrow> cl2(f := SET_UNION (cl2 f) (cl2 b))))"

definition find_closure ::
    "graph \<Rightarrow> (nat \<Rightarrow> nat) \<Rightarrow> nat \<Rightarrow> leveling \<Rightarrow> nat \<Rightarrow> nat \<Rightarrow> uset" where
  "find_closure g ids nodewords lvs root =
     fold (closure_step g ids) (down_order (lv_levels lvs) (lv_level lvs root))
       (\<lambda>_. replicate nodewords 0)"

section \<open>They are right\<close>

text \<open>What the passes before have set up: the numbers of \<open>number_blks_r\<close>, the levels.\<close>

definition analysed :: "graph \<Rightarrow> nat \<Rightarrow> numbering \<Rightarrow> leveling \<Rightarrow> bool" where
  "analysed g root nm lvs \<longleftrightarrow> graph_ok g \<and> root < length g \<and>
     numbered nm \<and> nm_marked nm = reach_set g root \<and>
     leveled g (reach_set g root) (lv_level lvs) (lv_levels lvs)"

lemma analysed_ids:
  assumes "analysed g root nm lvs"
  shows "inj_on (nm_id nm) (reach_set g root)"
    and "b \<in> reach_set g root \<Longrightarrow> nm_id nm b < length (nm_blocks nm)"
proof -
  have n: "numbered nm" and m: "set (nm_blocks nm) = reach_set g root"
    using assms unfolding analysed_def numbered_def by blast+
  have i: "nm_id nm b < length (nm_blocks nm) \<and> nm_blocks nm ! nm_id nm b = b"
    if b: "b \<in> reach_set g root" for b
  proof -
    obtain i where "i < length (nm_blocks nm)" "nm_blocks nm ! i = b"
      using b unfolding m [symmetric] in_set_conv_nth by blast
    moreover have "nm_id nm (nm_blocks nm ! i) = i"
      using n \<open>i < length (nm_blocks nm)\<close> unfolding numbered_def by blast
    ultimately show ?thesis by metis
  qed
  then show "b \<in> reach_set g root \<Longrightarrow> nm_id nm b < length (nm_blocks nm)" by blast
  show "inj_on (nm_id nm) (reach_set g root)"
    by (rule inj_on_inverseI [where g = "(!) (nm_blocks nm)"]) (use i in blast)
qed

lemma words_enough: "n < m \<Longrightarrow> n < 32 * (m div 32 + 1)" for n m :: nat
  by (simp add: algebra_simps)

lemma fold_cong_in: "(\<And>x s. x \<in> set xs \<Longrightarrow> f x s = h x s) \<Longrightarrow> fold f xs s = fold h xs s"
  by (rule fold_cong) auto

lemma reach_pred:
  assumes "b \<in> reach_set g root" and "b \<noteq> root"
  shows "\<exists>p \<in> reach_set g root. b \<in> set (kids g p)"
  using assms unfolding reach_set_def by (auto elim: reach.cases)

lemma root_no_pred:
  assumes "leveled g (reach_set g root) lv lvs" and "p \<in> reach_set g root"
  shows "root \<notin> set (kids g p)"
  using leveled_kid [OF assms] root_level [OF assms] by fastforce

lemma blocks_sweepable:
  assumes a: "analysed g root nm lvs"
  shows "sweepable (kids g) (nm_id nm) (length (nm_blocks nm) div 32 + 1) {root}
      (down_order (lv_levels lvs) (lv_level lvs root))"
proof -
  have l: "leveled g (reach_set g root) (lv_level lvs) (lv_levels lvs)" using a by (simp add: analysed_def)
  show ?thesis
    unfolding sweepable_def down_order_topo(2) [OF l]
    using down_order_topo(1) [OF l] kids_reach root_no_pred [OF l] reach_pred
      analysed_ids [OF a] words_enough by (auto simp del: mult_Suc_right)
qed

text \<open>C37: \<open>find_dom\<close> computes the dominators. After the numbering and the leveling of an acyclic
  flow graph, bit \<open>id(d)\<close> of \<open>dom(b)\<close> is set exactly when every path from the root to \<open>b\<close> goes
  through \<open>d\<close>.\<close>

theorem find_dom_correct:
  assumes "analysed g root nm lvs" and "b \<in> reach_set g root" and "d \<in> reach_set g root"
  shows "SET_MEMBER (find_dom g (nm_id nm) (length (nm_blocks nm) div 32 + 1) lvs root b) (nm_id nm d)
     \<longleftrightarrow> (\<forall>ps. path (kids g) {root} ps b \<longrightarrow> d \<in> set ps)"
proof -
  let ?w = "length (nm_blocks nm) div 32 + 1" and ?xs = "down_order (lv_levels lvs) (lv_level lvs root)"
  have l: "leveled g (reach_set g root) (lv_level lvs) (lv_levels lvs)" and ok: "graph_ok g" "root < length g"
    using assms(1) by (auto simp: analysed_def)
  have step: "dom_step g ids x s = sweep_visit (kids g) ids x s" if "x \<in> set ?xs" for ids x s
  proof -
    have "x < length g" using that reach_set_sub [OF ok] down_order_topo(2) [OF l] by auto
    with ok(1) show ?thesis by (rule graph_ok_cases) (simp_all add: dom_step_def sweep_visit_def Let_def)
  qed
  have start: "(\<lambda>_. replicate ?w (- 1))(root := replicate ?w 0) = sweep_start ?w {root}"
    by (auto simp: sweep_start_def)
  have "find_dom g (nm_id nm) ?w lvs root = fold (sweep_visit (kids g) (nm_id nm)) ?xs (sweep_start ?w {root})"
    unfolding find_dom_def start by (rule fold_cong_in) (rule step)
  moreover have "b \<in> set ?xs" "d \<in> set ?xs" using assms(2,3) down_order_topo(2) [OF l] by simp_all
  ultimately show ?thesis
    using sweep_dominators [OF blocks_sweepable [OF assms(1)]] by (simp add: dom_by_def)
qed

section \<open>Edge dominators\<close>

definition edge_succs :: "graph \<Rightarrow> nat \<times> bool \<Rightarrow> (nat \<times> bool) list" where
  "edge_succs g e = (case edge_succ g e of None \<Rightarrow> [] | Some c \<Rightarrow> [(c, True), (c, False)])"

definition edges_of :: "nat list \<Rightarrow> (nat \<times> bool) list" where
  "edges_of bs = concat (map (\<lambda>b. [(b, True), (b, False)]) bs)"

lemma set_edges_of: "e \<in> set (edges_of bs) \<longleftrightarrow> fst e \<in> set bs"
  by (cases e) (auto simp: edges_of_def)

lemma edges_of_append: "edges_of (xs @ ys) = edges_of xs @ edges_of ys"
  by (simp add: edges_of_def)

lemma edge_succs_kid: "k \<in> set (edge_succs g e) \<Longrightarrow> fst k \<in> set (kids g (fst e))"
  by (auto simp: edge_succs_def edge_succ_def kids_def opt_list_def split: option.splits if_splits)

lemma kid_edge: "k \<in> set (kids g b) \<Longrightarrow> \<exists>d. \<forall>c. (k, c) \<in> set (edge_succs g (b, d))"
  by (auto simp: edge_succs_def edge_succ_def kids_def opt_list_def split: option.splits
      intro: exI [of _ True] exI [of _ False])

lemma edges_of_split:
  "edges_of xs = pre @ e # post \<Longrightarrow> \<exists>p1 p2. xs = p1 @ fst e # p2 \<and> set (edges_of p1) \<subseteq> set pre"
proof (induction xs arbitrary: pre)
  case (Cons x xs)
  have c: "edges_of (x # xs) = (x, True) # (x, False) # edges_of xs" by (simp add: edges_of_def)
  consider "pre = []" | "pre = [(x, True)]" | q where "pre = (x, True) # (x, False) # q"
    using Cons.prems c by (cases pre rule: remdups_adj.cases) auto
  then show ?case
  proof cases
    case 3
    then obtain p1 p2 where "xs = p1 @ fst e # p2" "set (edges_of p1) \<subseteq> set q"
      using Cons c by fastforce
    then show ?thesis using 3
      by (intro exI [of _ "x # p1"] exI [of _ p2]) (auto simp: edges_of_def)
  next
    case 1
    then have "fst e = x" using Cons.prems c by auto
    then show ?thesis by (intro exI [of _ "[]"] exI [of _ xs]) (simp add: edges_of_def)
  next
    case 2
    then have "fst e = x" using Cons.prems c by auto
    then show ?thesis by (intro exI [of _ "[]"] exI [of _ xs]) (simp add: edges_of_def)
  qed
qed (simp add: edges_of_def)

lemma edges_topo:
  assumes t: "topo (kids g) xs"
  shows "topo (edge_succs g) (edges_of xs)"
  unfolding topo_def
proof (intro conjI allI impI ballI)
  have "distinct xs" using t by (simp add: topo_def)
  then show "distinct (edges_of xs)"
    by (induction xs) (auto simp: edges_of_def)
  fix pre e post p
  assume x: "edges_of xs = pre @ e # post" and p: "p \<in> set (edges_of xs)"
    and k: "e \<in> set (edge_succs g p)"
  obtain p1 p2 where "xs = p1 @ fst e # p2" "set (edges_of p1) \<subseteq> set pre"
    using edges_of_split [OF x] by blast
  moreover have "fst p \<in> set xs" "fst e \<in> set (kids g (fst p))"
    using p edge_succs_kid [OF k] by (simp_all add: set_edges_of)
  ultimately have "fst p \<in> set p1" using t unfolding topo_def by blast
  then show "p \<in> set pre" using \<open>set (edges_of p1) \<subseteq> set pre\<close> set_edges_of by blast
qed

lemma edge_id_inj:
  assumes "inj_on ids V" and "\<And>b. b \<in> V \<Longrightarrow> ids b < n"
  shows "inj_on (edge_id ids n) {e. fst e \<in> V}"
proof (rule inj_onI)
  fix e e' assume "e \<in> {e. fst e \<in> V}" "e' \<in> {e. fst e \<in> V}" and eq: "edge_id ids n e = edge_id ids n e'"
  then have v: "fst e \<in> V" "fst e' \<in> V" by simp_all
  then have "ids (fst e) < n" "ids (fst e') < n" using assms(2) by blast+
  then have "snd e = snd e' \<and> ids (fst e) = ids (fst e')"
    using eq by (auto simp: edge_id_def split: if_splits)
  then show "e = e'" using v assms(1) by (auto simp: prod_eq_iff dest: inj_onD)
qed

lemma edges_sweepable:
  assumes a: "analysed g root nm lvs"
  defines "n \<equiv> length (nm_blocks nm)"
  shows "sweepable (edge_succs g) (edge_id (nm_id nm) n) (2 * n div 32 + 1) {(root, True), (root, False)}
      (edges_of (down_order (lv_levels lvs) (lv_level lvs root)))"
proof -
  let ?V = "reach_set g root" and ?xs = "down_order (lv_levels lvs) (lv_level lvs root)"
  have l: "leveled g ?V (lv_level lvs) (lv_levels lvs)" using a by (simp add: analysed_def)
  have V: "set ?xs = ?V" and t: "topo (kids g) ?xs" using down_order_topo [OF l] by simp_all
  have E: "set (edges_of ?xs) = {e :: nat \<times> bool. fst e \<in> ?V}" using set_edges_of V by blast
  have id: "nm_id nm b < n" if "b \<in> ?V" for b using analysed_ids(2) [OF a that] by (simp add: n_def)
  show ?thesis
    unfolding sweepable_def E
  proof (intro conjI ballI)
    show "topo (edge_succs g) (edges_of ?xs)" using t by (rule edges_topo)
    show "inj_on (edge_id (nm_id nm) n) {e :: nat \<times> bool. fst e \<in> ?V}"
      using edge_id_inj [OF analysed_ids(1) [OF a] id] .
    show "{(root, True), (root, False)} \<subseteq> {e :: nat \<times> bool. fst e \<in> ?V}" by simp
  next
    fix e assume e: "e \<in> {e :: nat \<times> bool. fst e \<in> ?V}"
    then show "set (edge_succs g e) \<subseteq> {e :: nat \<times> bool. fst e \<in> ?V}" using edge_succs_kid kids_reach by blast
    have "edge_id (nm_id nm) n e < 2 * n" using e id [of "fst e"] by (auto simp: edge_id_def)
    then show "edge_id (nm_id nm) n e < 32 * (2 * n div 32 + 1)" by (rule words_enough)
  next
    fix r e assume "r \<in> {(root, True), (root, False)}" "e \<in> {e :: nat \<times> bool. fst e \<in> ?V}"
    then show "r \<notin> set (edge_succs g e)" using root_no_pred [OF l] edge_succs_kid [of r g e] by auto
  next
    fix e assume e: "e \<in> {e :: nat \<times> bool. fst e \<in> ?V} - {(root, True), (root, False)}"
    then have "fst e \<noteq> root" "fst e \<in> ?V" by (cases e; auto)+
    then obtain p where p: "p \<in> ?V" "fst e \<in> set (kids g p)" using reach_pred by blast
    then obtain d where "e \<in> set (edge_succs g (p, d))" using kid_edge [OF p(2)] by (cases e) auto
    then show "\<exists>p \<in> {e :: nat \<times> bool. fst e \<in> ?V}. e \<in> set (edge_succs g p)" using p(1) by (intro bexI [of _ "(p, d)"]) auto
  qed
qed

text \<open>C38: \<open>find_edom\<close> computes the edge dominators: bit \<open>id(d)\<close> of \<open>edom(e)\<close> is set exactly when
  every chain of edges from an edge out of the root to \<open>e\<close> contains \<open>d\<close>.\<close>

theorem find_edom_correct:
  assumes "analysed g root nm lvs" and "fst e \<in> reach_set g root" and "fst d \<in> reach_set g root"
  defines "n \<equiv> length (nm_blocks nm)"
  shows "SET_MEMBER (find_edom g (nm_id nm) n (2 * n div 32 + 1) lvs root e) (edge_id (nm_id nm) n d)
     \<longleftrightarrow> (\<forall>ps. path (edge_succs g) {(root, True), (root, False)} ps e \<longrightarrow> d \<in> set ps)"
proof -
  let ?w = "2 * n div 32 + 1" and ?xs = "down_order (lv_levels lvs) (lv_level lvs root)"
  let ?R = "{(root, True), (root, False)}" and ?visit = "sweep_visit (edge_succs g) (edge_id (nm_id nm) n)"
  have l: "leveled g (reach_set g root) (lv_level lvs) (lv_levels lvs)" and ok: "graph_ok g" "root < length g"
    using assms(1) by (auto simp: analysed_def)
  have step: "propedom g ids m e s = sweep_visit (edge_succs g) (edge_id ids m) e s" for ids m e s
    by (cases "edge_succ g e") (simp_all add: propedom_def sweep_visit_def edge_succs_def Let_def)
  have start: "(\<lambda>_. replicate ?w (- 1))((root, True) := replicate ?w 0, (root, False) := replicate ?w 0) =
      sweep_start ?w ?R"
    by (auto simp: sweep_start_def)
  have f: "fold (\<lambda>b s. ?visit (b, False) (?visit (b, True) s)) bs s = fold ?visit (edges_of bs) s" for bs s
    by (induction bs arbitrary: s) (simp_all add: edges_of_def)
  have "find_edom g (nm_id nm) n ?w lvs root = fold ?visit (edges_of ?xs) (sweep_start ?w ?R)"
    unfolding find_edom_def start step f ..
  moreover have "e \<in> set (edges_of ?xs)" "d \<in> set (edges_of ?xs)"
    using assms(2,3) down_order_topo(2) [OF l] by (simp_all add: set_edges_of)
  ultimately show ?thesis
    using sweep_dominators [OF edges_sweepable [OF assms(1)]] by (simp add: dom_by_def n_def)
qed

section \<open>Backward closure\<close>

lemma closure_member:
  assumes b: "b \<notin> set ks" and len: "\<And>k. length (s k) = words" and c: "c < 32 * words"
  shows "(SET_MEMBER (fold (\<lambda>k s. s(k := SET_UNION (s k) (s b))) ks s k) c \<longleftrightarrow>
      SET_MEMBER (s k) c \<or> (k \<in> set ks \<and> SET_MEMBER (s b) c)) \<and>
    length (fold (\<lambda>k s. s(k := SET_UNION (s k) (s b))) ks s k) = words"
  using b len
proof (induction ks arbitrary: s)
  case (Cons j ks)
  let ?s = "s(j := SET_UNION (s j) (s b))"
  have l: "length (?s i) = words" for i using Cons.prems(2) by simp
  have m: "SET_MEMBER (SET_UNION (s j) (s b)) c \<longleftrightarrow> SET_MEMBER (s j) c \<or> SET_MEMBER (s b) c"
    using member_binary(2) [of "s b" "s j" c] Cons.prems(2) c by simp
  have "b \<notin> set ks" using Cons.prems(1) by simp
  from Cons.IH [OF this l] show ?case using m Cons.prems(1) by auto
qed simp

lemma closure_step_fold:
  assumes "graph_ok g" and "b < length g"
  shows "closure_step g ids b s =
    fold (\<lambda>k s. s(k := SET_UNION (s k) (s b))) (kids g b) (s(b := SET_INSERT (s b) (ids b)))"
  using assms by (rule graph_ok_cases) (simp_all add: closure_step_def Let_def)

lemma reach_back:
  assumes "a \<in> reach_set g root"
  shows "reach (kids g) a b \<longleftrightarrow>
    a = b \<or> (\<exists>p \<in> reach_set g root. reach (kids g) a p \<and> b \<in> set (kids g p))"
proof
  assume "reach (kids g) a b"
  then show "a = b \<or> (\<exists>p \<in> reach_set g root. reach (kids g) a p \<and> b \<in> set (kids g p))"
    by cases (use assms reach_trans in \<open>auto simp: reach_set_def\<close>)
qed (auto intro: reach_step)

definition closed_upto ::
    "graph \<Rightarrow> (nat \<Rightarrow> nat) \<Rightarrow> nat \<Rightarrow> nat set \<Rightarrow> nat set \<Rightarrow> (nat \<Rightarrow> uset) \<Rightarrow> bool" where
  "closed_upto g ids words V P s \<longleftrightarrow> (\<forall>k. length (s k) = words) \<and>
     (\<forall>n \<in> V. \<forall>a \<in> V. SET_MEMBER (s n) (ids a) \<longleftrightarrow>
        (n \<in> P \<and> a = n) \<or> (\<exists>p \<in> P. n \<in> set (kids g p) \<and> reach (kids g) a p))"

lemma closure_step_upto:
  assumes ok: "graph_ok g" and V: "V = reach_set g root" "V \<subseteq> {..<length g}"
    and t: "topo (kids g) xs" "set xs = V" and x: "xs = pre @ b # post"
    and ids: "inj_on ids V" "\<And>n. n \<in> V \<Longrightarrow> ids n < 32 * words"
    and s: "closed_upto g ids words V (set pre) s"
  shows "closed_upto g ids words V (insert b (set pre)) (closure_step g ids b s)"
proof -
  let ?s = "s(b := SET_INSERT (s b) (ids b))"
  have b: "b \<in> V" "b < length g" "b \<notin> set pre" using x t V by (auto simp: topo_def)
  have len: "length (s k) = words" for k using s by (simp add: closed_upto_def)
  then have l: "length (?s k) = words" for k by simp
  have sb: "b \<notin> set (kids g b)" using later [OF t(1) x] by blast
  have mem: "SET_MEMBER (s n) (ids a) \<longleftrightarrow>
      (n \<in> set pre \<and> a = n) \<or> (\<exists>p \<in> set pre. n \<in> set (kids g p) \<and> reach (kids g) a p)"
    if "n \<in> V" "a \<in> V" for n a using s that by (simp add: closed_upto_def)
  have at_b: "SET_MEMBER (?s b) (ids a) \<longleftrightarrow> reach (kids g) a b" if a: "a \<in> V" for a
  proof -
    have "ids a = ids b \<longleftrightarrow> a = b" using ids(1) a b(1) by (auto dest: inj_onD)
    then have "SET_MEMBER (?s b) (ids a) \<longleftrightarrow> a = b \<or> SET_MEMBER (s b) (ids a)"
      using member_insert [of "ids b" "s b" "ids a"] ids(2) [OF b(1)] ids(2) [OF a] len by simp
    moreover have "p \<in> set pre" if "p \<in> V" "b \<in> set (kids g p)" for p
      using t x that unfolding topo_def by blast
    moreover have "set pre \<subseteq> V" using t(2) x by auto
    ultimately show ?thesis
      using mem [OF b(1) a] b(3) reach_back [of a g root b] a V(1) by auto
  qed
  have v: "SET_MEMBER (closure_step g ids b s n) (ids a) \<longleftrightarrow>
      SET_MEMBER (?s n) (ids a) \<or> (n \<in> set (kids g b) \<and> reach (kids g) a b)" if a: "a \<in> V" for n a
    unfolding closure_step_fold [OF ok b(2)]
    using closure_member [where s = ?s and k = n, OF sb l ids(2) [OF a]] at_b [OF a] by simp
  show ?thesis
    unfolding closed_upto_def
  proof (intro conjI allI ballI)
    show "length (closure_step g ids b s k) = words" for k
      unfolding closure_step_fold [OF ok b(2)]
      using closure_member [where s = ?s and k = k, OF sb l ids(2) [OF b(1)]] by simp
  next
    fix n a assume n: "n \<in> V" and a: "a \<in> V"
    show "SET_MEMBER (closure_step g ids b s n) (ids a) \<longleftrightarrow>
        (n \<in> insert b (set pre) \<and> a = n) \<or>
        (\<exists>p \<in> insert b (set pre). n \<in> set (kids g p) \<and> reach (kids g) a p)"
    proof (cases "n = b")
      case True
      have "p \<in> set pre" if "p \<in> V" "b \<in> set (kids g p)" for p
        using t x that unfolding topo_def by blast
      then show ?thesis
        using True v [OF a] at_b [OF a] sb reach_back [of a g root b] a V(1) t(2) x by auto
    next
      case False
      then show ?thesis using v [OF a] mem [OF n a] by auto
    qed
  qed
qed

text \<open>\<open>find_closure\<close> computes the backward closure: bit \<open>id(a)\<close> of \<open>closure(b)\<close> is set exactly
  when \<open>b\<close> can be reached from \<open>a\<close>.\<close>

theorem find_closure_correct:
  assumes "analysed g root nm lvs" and "b \<in> reach_set g root" and "a \<in> reach_set g root"
  shows "SET_MEMBER (find_closure g (nm_id nm) (length (nm_blocks nm) div 32 + 1) lvs root b) (nm_id nm a)
     \<longleftrightarrow> reach (kids g) a b"
proof -
  let ?w = "length (nm_blocks nm) div 32 + 1" and ?V = "reach_set g root"
  let ?xs = "down_order (lv_levels lvs) (lv_level lvs root)"
  have l: "leveled g ?V (lv_level lvs) (lv_levels lvs)" and ok: "graph_ok g" "root < length g"
    using assms(1) by (auto simp: analysed_def)
  have id: "nm_id nm n < 32 * ?w" if "n \<in> ?V" for n
    using words_enough [OF analysed_ids(2) [OF assms(1) that]] .
  have "closed_upto g (nm_id nm) ?w ?V {} (\<lambda>_. replicate ?w 0)"
    unfolding closed_upto_def using member_replicate(2) [OF id] by (simp del: replicate_Suc)
  then have "closed_upto g (nm_id nm) ?w ?V (set ?xs) (fold (closure_step g (nm_id nm)) ?xs (\<lambda>_. replicate ?w 0))"
    by (rule topo_fold [where I = "closed_upto g (nm_id nm) ?w ?V"])
      (rule closure_step_upto [OF ok(1) refl reach_set_sub [OF ok] down_order_topo [OF l] _
        analysed_ids(1) [OF assms(1)] id])
  then have "SET_MEMBER (find_closure g (nm_id nm) ?w lvs root b) (nm_id nm a) \<longleftrightarrow>
      a = b \<or> (\<exists>p \<in> ?V. b \<in> set (kids g p) \<and> reach (kids g) a p)"
    unfolding find_closure_def closed_upto_def down_order_topo(2) [OF l] using assms(2,3) by simp
  then show ?thesis using reach_back [OF assms(3), of b] by auto
qed

section \<open>The passes that come before\<close>

text \<open>C39: \<open>opt_init\<close>'s numbering and \<open>find_levels\<close> succeed on every acyclic graph, within the
  arrays \<open>blocks\<close> and \<open>levels\<close> of \<open>count_blocks\<close> entries: the numbers are the positions in
  \<open>blocks\<close> of exactly the reachable blocks, a block's level is one more than the highest of its
  successors, and \<open>levels\<close> lists each block once, under its level.\<close>

theorem numbering_and_levels:
  assumes "graph_ok g" and "ranked rk g" and "root < length g"
  shows "\<exists>nm lvs. count_blocks (Suc (length g)) g (Some root) {} =
        Inr (length (nm_blocks nm), reach_set g root) \<and>
      number_blks_r (Suc (length g)) g (Some root) \<lparr>nm_marked = {}, nm_blocks = [], nm_id = ids\<rparr> = Inr nm \<and>
      find_levels g (length (nm_blocks nm)) lv root = Inr lvs \<and> analysed g root nm lvs"
proof -
  obtain nm where nm: "number_blks_r (Suc (length g)) g (Some root)
      \<lparr>nm_marked = {}, nm_blocks = [], nm_id = ids\<rparr> = Inr nm" "numbered nm"
      "nm_marked nm = reach_set g root"
    by (rule number_blocks_total [OF assms])
  then have "distinct (nm_blocks nm)" "set (nm_blocks nm) = reach_set g root"
    by (simp_all add: numbered_def)
  then have n: "length (nm_blocks nm) = card (reach_set g root)" using distinct_card by fastforce
  obtain lvs where "find_levels g (length (nm_blocks nm)) lv root = Inr lvs"
    "leveled g (reach_set g root) (lv_level lvs) (lv_levels lvs)"
    using find_levels_total [OF assms n] by auto
  then show ?thesis using nm n assms count_blocks_total [OF assms] by (auto simp: analysed_def)
qed

text \<open>A test, two returns, and the test before it that both its successors share.\<close>

definition diamond :: graph where
  "diamond =
     (let st = (\<lambda>c k. \<lparr>s_code = c, s_jt = None, s_jf = None, s_k = k\<rparr>) in
      [\<lparr>b_stmts = [st 0x28 12], b_s = st 0x15 0x800, b_jt = Some 1, b_jf = Some 2\<rparr>,
       \<lparr>b_stmts = [st 0x30 23], b_s = st 0x15 6, b_jt = Some 3, b_jf = Some 4\<rparr>,
       \<lparr>b_stmts = [st 0x30 20], b_s = st 0x15 6, b_jt = Some 3, b_jf = Some 4\<rparr>,
       \<lparr>b_stmts = [], b_s = st 0x06 96, b_jt = None, b_jf = None\<rparr>,
       \<lparr>b_stmts = [], b_s = st 0x06 0, b_jt = None, b_jf = None\<rparr>])"

lemma diamond_kids: "kids diamond 0 = [1, 2]" "kids diamond 1 = [3, 4]" "kids diamond (Suc 0) = [3, 4]"
  "kids diamond 2 = [3, 4]" "kids diamond 3 = []" "kids diamond 4 = []"
  by (simp_all add: diamond_def kids_def JT_def JF_def opt_list_def Let_def)

lemma diamond_ok: "graph_ok diamond" "length diamond = 5"
  "ranked (\<lambda>b. if b = 0 then 2 else if b < 3 then 1 else 0) diamond"
  by (simp add: diamond_def graph_ok_def Let_def)
    (simp_all add: diamond_def ranked_def kids_def JT_def JF_def opt_list_def upt_rec Let_def)

lemma diamond_reach: "3 \<in> reach_set diamond 0" "reach (kids diamond) 2 3" "2 \<in> reach_set diamond 0"
  unfolding reach_set_def
  by (auto simp: diamond_kids intro: reach_step [OF reach_refl] reach_step [OF reach_step [OF reach_refl]])

theorem numbering_and_levels_witness:
  "\<exists>nm lvs. count_blocks 6 diamond (Some 0) {} = Inr (length (nm_blocks nm), reach_set diamond 0) \<and>
     number_blks_r 6 diamond (Some 0) \<lparr>nm_marked = {}, nm_blocks = [], nm_id = (\<lambda>_. 0)\<rparr> = Inr nm \<and>
     find_levels diamond (length (nm_blocks nm)) (\<lambda>_. 0) 0 = Inr lvs \<and> analysed diamond 0 nm lvs"
  using numbering_and_levels [OF diamond_ok(1,3), of 0 "\<lambda>_. 0" "\<lambda>_. 0"] diamond_ok(2) by simp

lemma diamond_analysed: "\<exists>nm lvs. analysed diamond 0 nm lvs"
proof -
  obtain nm where nm: "numbered nm" "nm_marked nm = reach_set diamond 0"
    by (rule number_blocks_total [OF diamond_ok(1,3), of 0]) (auto simp: diamond_ok(2))
  obtain lvs :: leveling where "leveled diamond (reach_set diamond 0) (lv_level lvs) (lv_levels lvs)"
    using find_levels_total [OF diamond_ok(1,3) _ refl, of 0 "\<lambda>_. 0"] diamond_ok(2) by auto
  then show ?thesis using nm diamond_ok(1,2) by (auto simp: analysed_def)
qed

lemma path_root_mem: "path succs {r} ps n \<Longrightarrow> r \<in> set ps"
  by (induction rule: path.induct) auto

theorem find_dom_correct_witness:
  "\<exists>nm lvs. analysed diamond 0 nm lvs \<and>
     SET_MEMBER (find_dom diamond (nm_id nm) (length (nm_blocks nm) div 32 + 1) lvs 0 3) (nm_id nm 0)"
proof -
  obtain nm lvs where a: "analysed diamond 0 nm lvs" using diamond_analysed by blast
  have "SET_MEMBER (find_dom diamond (nm_id nm) (length (nm_blocks nm) div 32 + 1) lvs 0 3) (nm_id nm 0)"
    unfolding find_dom_correct [OF a diamond_reach(1) reach_set_root] by (intro allI impI) (rule path_root_mem)
  with a show ?thesis by (intro exI conjI)
qed

theorem find_edom_correct_witness:
  "\<exists>nm lvs. analysed diamond 0 nm lvs \<and>
     SET_MEMBER (find_edom diamond (nm_id nm) (length (nm_blocks nm)) (2 * length (nm_blocks nm) div 32 + 1)
       lvs 0 (0, True)) (edge_id (nm_id nm) (length (nm_blocks nm)) (0, True))"
proof -
  obtain nm lvs where a: "analysed diamond 0 nm lvs" using diamond_analysed by blast
  have "e \<in> set ps" if "path (edge_succs diamond) {(0, True), (0, False)} ps e" for ps e
    using that by cases auto
  then have "SET_MEMBER (find_edom diamond (nm_id nm) (length (nm_blocks nm)) (2 * length (nm_blocks nm) div 32 + 1)
       lvs 0 (0, True)) (edge_id (nm_id nm) (length (nm_blocks nm)) (0, True))"
    by (subst find_edom_correct [OF a]) simp_all
  with a show ?thesis by (intro exI conjI)
qed

theorem find_closure_correct_witness:
  "\<exists>nm lvs. analysed diamond 0 nm lvs \<and>
     SET_MEMBER (find_closure diamond (nm_id nm) (length (nm_blocks nm) div 32 + 1) lvs 0 3) (nm_id nm 2)"
proof -
  obtain nm lvs where a: "analysed diamond 0 nm lvs" using diamond_analysed by blast
  have "SET_MEMBER (find_closure diamond (nm_id nm) (length (nm_blocks nm) div 32 + 1) lvs 0 3) (nm_id nm 2)"
    unfolding find_closure_correct [OF a diamond_reach(1,3)] by (rule diamond_reach(2))
  with a show ?thesis by (intro exI conjI)
qed

end
