(* ===== verification/Sock_Text.thy ===== *)
theory Sock_Text
  imports Prelude
begin

text \<open>
  The text side of \<^verbatim>\<open>socket_proc.c\<close>: the parsers of the lines of \<open>/proc/net/tcp\<close> and its
  relatives, of process directories, and of socket links. Strings are lists of \<open>char\<close> without the
  terminating zero; \<open>char\<close> is unsigned on the target.
\<close>

definition cval :: "char \<Rightarrow> int" where "cval c = int (of_char c)"

lemma cval_ge0 [simp]: "0 \<le> cval c"
  by (simp add: cval_def)

text \<open>\<open>GetStringHash\<close>.\<close>

fun GetStringHash :: "string \<Rightarrow> int" where
  "GetStringHash [] = 0"
| "GetStringHash (c # cs) = cval c + GetStringHash cs"

lemma GetStringHash_ge0 [simp]: "0 \<le> GetStringHash s"
  by (induction s) simp_all

text \<open>\<open>Hex2Dec\<close>: at most \<open>n\<close> digits, stopping at the end of the string; a character that is no
  upper-case digit still shifts (and is reported on \<open>stderr\<close>).\<close>

definition hex_digit :: "char \<Rightarrow> u32" where
  "hex_digit c =
     (if cval (CHR ''0'') \<le> cval c \<and> cval c \<le> cval (CHR ''9'') then of_int (cval c - cval (CHR ''0''))
      else if cval (CHR ''A'') \<le> cval c \<and> cval c \<le> cval (CHR ''F'')
           then of_int (cval c - cval (CHR ''A'') + 10)
      else 0)"

fun Hex2Dec_from :: "u32 \<Rightarrow> string \<Rightarrow> nat \<Rightarrow> u32" where
  "Hex2Dec_from r cs 0 = r"
| "Hex2Dec_from r [] (Suc n) = r"
| "Hex2Dec_from r (c # cs) (Suc n) = Hex2Dec_from (push_bit 4 r + hex_digit c) cs n"

definition Hex2Dec :: "string \<Rightarrow> nat \<Rightarrow> u32" where
  "Hex2Dec cs n = Hex2Dec_from 0 cs n"

text \<open>
  \<open>GetSocketInfo\<close>: \<open>str\<close> is the field. The colon is looked for in the field; what is after it is
  the port, the eight digits before it the address. A port out of range ends the process.
\<close>

datatype 'a exits =
  Exit            \<comment> \<open>\<open>exit(0)\<close>\<close>
| Value 'a

fun index_of :: "char \<Rightarrow> string \<Rightarrow> nat" where
  "index_of c [] = 0"
| "index_of c (x # xs) = (if x = c then 0 else Suc (index_of c xs))"

definition GetSocketInfo :: "string \<Rightarrow> (u32 \<times> int) exits" where
  "GetSocketInfo str =
     (let i = index_of CHR '':'' str in
      if i = length str \<or> (i \<noteq> 8 \<and> i \<noteq> 32) then Value (0, 0)
      else
        (let s = take i str;
             port = sint (Hex2Dec (drop (i + 1) str) 32);
             ip = Hex2Dec (drop (i - 2) s) 2 OR
                  push_bit 8 (Hex2Dec (drop (i - 4) s) 2) OR
                  push_bit 16 (Hex2Dec (drop (i - 6) s) 2) OR
                  push_bit 24 (Hex2Dec (drop (i - 8) s) 2)
         in if port < 0 \<or> port > 65535 then Exit else Value (ip, port)))"

text \<open>The fields of a line: maximal runs of bytes above 32.\<close>

fun line_fields :: "string \<Rightarrow> string \<Rightarrow> string list" where
  "line_fields cur [] = (if cur = [] then [] else [rev cur])"
| "line_fields cur (c # cs) =
     (if cval c \<le> 32 then (if cur = [] then line_fields [] cs else rev cur # line_fields [] cs)
      else line_fields (c # cur) cs)"

text \<open>\<open>atoi\<close>: an optional sign, digits, the value clamped to the range of \<open>int\<close>, as the C library's
  \<open>strtol\<close> does for the 32-bit \<open>long\<close>.\<close>

definition is_digit :: "char \<Rightarrow> bool" where
  "is_digit c \<longleftrightarrow> cval (CHR ''0'') \<le> cval c \<and> cval c \<le> cval (CHR ''9'')"

fun digits_val :: "int \<Rightarrow> string \<Rightarrow> int" where
  "digits_val r [] = r"
| "digits_val r (c # cs) =
     (if is_digit c then digits_val (10 * r + (cval c - cval (CHR ''0''))) cs else r)"

definition clamp_int :: "int \<Rightarrow> int" where
  "clamp_int v = max (- 2147483648) (min 2147483647 v)"

definition atoi :: "string \<Rightarrow> int" where
  "atoi s =
     (let t = dropWhile (\<lambda>c. c \<in> {CHR '' '', CHR 0x09, CHR 0x0A, CHR 0x0B, CHR 0x0C, CHR 0x0D}) s in
      case t of
        [] \<Rightarrow> 0
      | c # cs \<Rightarrow>
          (if c = CHR ''-'' then clamp_int (- digits_val 0 cs)
           else if c = CHR ''+'' then clamp_int (digits_val 0 cs)
           else clamp_int (digits_val 0 t)))"

text \<open>
  The parser of one line in \<open>ReadConnections\<close>: fields 1 and 2 are addresses, field 9 the inode.
  A line that ends before field 9 is broken, but the addresses seen are parsed (and may exit).
\<close>

record sock_line =
  sl_local :: "u32 \<times> int"
  sl_remote :: "u32 \<times> int"
  sl_inode :: u32

datatype line_result = LineExit | LineBroken | LineOk sock_line

definition parse_line :: "string \<Rightarrow> line_result" where
  "parse_line line =
     (let fs = line_fields [] line;
          addr = (\<lambda>j. if j < length fs then GetSocketInfo (fs ! j) else Value (0, 0))
      in case addr 1 of
           Exit \<Rightarrow> LineExit
         | Value l \<Rightarrow>
             (case addr 2 of
                Exit \<Rightarrow> LineExit
              | Value r \<Rightarrow>
                  (if length fs \<le> 9 then LineBroken
                   else LineOk \<lparr>sl_local = l, sl_remote = r, sl_inode = of_int (atoi (fs ! 9))\<rparr>)))"

text \<open>\<open>GetProcessID\<close>: the number a directory name spells, \<open>-1\<close> if a character is no digit.\<close>

fun GetProcessID_from :: "int \<Rightarrow> string \<Rightarrow> int" where
  "GetProcessID_from r [] = r"
| "GetProcessID_from r (c # cs) =
     (if cval c < cval (CHR ''0'') \<or> cval c > cval (CHR ''9'') then - 1
      else GetProcessID_from (r * 10 + (cval c - cval (CHR ''0''))) cs)"

definition GetProcessID :: "string \<Rightarrow> int" where
  "GetProcessID str = GetProcessID_from 0 str"

text \<open>The inode of a link \<open>socket:[n]\<close>, as \<open>ReadProcFD\<close> recognises it.\<close>

definition socket_link :: "string \<Rightarrow> u32 option" where
  "socket_link lnk =
     (if length lnk > 9 \<and> take 8 lnk = ''socket:['' \<and> last lnk = CHR '']''
      then Some (of_int (atoi (drop 8 (butlast lnk)))) else None)"

section \<open>The address parser reads what the kernel prints\<close>

text \<open>\<open>%0nX\<close> for a word.\<close>

definition hex_char :: "nat \<Rightarrow> char" where
  "hex_char d = (if d < 10 then char_of (48 + d) else char_of (55 + d))"

fun hex_out :: "nat \<Rightarrow> nat \<Rightarrow> string" where
  "hex_out 0 v = []"
| "hex_out (Suc n) v = hex_out n (v div 16) @ [hex_char (v mod 16)]"

lemma hex_out_numeral:
  "hex_out (numeral k) v = hex_out (pred_numeral k) (v div 16) @ [hex_char (v mod 16)]"
  using hex_out.simps(2) [of "pred_numeral k" v] by (simp only: numeral_eq_Suc [symmetric])

lemma length_hex_out [simp]: "length (hex_out n v) = n"
  by (induction n v rule: hex_out.induct) simp_all

lemma cval_consts [simp]:
  "cval CHR ''0'' = 48" "cval CHR ''9'' = 57" "cval CHR ''A'' = 65" "cval CHR ''F'' = 70"
  "cval CHR '':'' = 58"
  by (simp_all add: cval_def)

lemma cval_hex_char: "d < 16 \<Longrightarrow> cval (hex_char d) = (if d < 10 then 48 + int d else 55 + int d)"
  by (simp add: cval_def hex_char_def of_char_of)

lemma hex_digit_char: "d < 16 \<Longrightarrow> hex_digit (hex_char d) = of_nat d"
  by (simp add: hex_digit_def cval_hex_char)

lemma hex_char_not_colon: "d < 16 \<Longrightarrow> hex_char d \<noteq> CHR '':''"
  using cval_hex_char [of d] by (auto split: if_splits)

lemma hex_out_digit: "c \<in> set (hex_out n v) \<Longrightarrow> \<exists>d < 16. c = hex_char d"
proof (induction n v rule: hex_out.induct)
  case (2 n v)
  then show ?case by (auto intro: exI [of _ "v mod 16"])
qed simp

lemma index_of_append: "c \<notin> set xs \<Longrightarrow> index_of c (xs @ c # ys) = length xs"
  by (induction xs) auto

lemma Hex2Dec_from_append:
  "Hex2Dec_from r (xs @ ys) (length xs + n) = Hex2Dec_from (Hex2Dec_from r xs (length xs)) ys n"
  by (induction xs arbitrary: r) auto

lemma Hex2Dec_from_Nil [simp]: "Hex2Dec_from r [] n = r"
  by (cases n) simp_all

text \<open>Eight digits hold a word.\<close>

lemma Hex2Dec_from_hex_out:
  "Hex2Dec_from r (hex_out n v) n = push_bit (4 * n) r + of_nat (v mod 16 ^ n)"
proof (induction n arbitrary: r v)
  case (Suc n)
  have "Hex2Dec_from r (hex_out (Suc n) v) (n + 1) =
      Hex2Dec_from (Hex2Dec_from r (hex_out n (v div 16)) n) [hex_char (v mod 16)] 1"
    using Hex2Dec_from_append [of r "hex_out n (v div 16)" "[hex_char (v mod 16)]" 1] by simp
  also have "\<dots> = push_bit 4 (push_bit (4 * n) r + of_nat (v div 16 mod 16 ^ n)) + of_nat (v mod 16)"
    by (simp add: Suc.IH hex_digit_char)
  also have "\<dots> = push_bit (4 * Suc n) r + of_nat (16 * (v div 16 mod 16 ^ n) + v mod 16)"
    by (simp add: push_bit_eq_mult power_add distrib_right algebra_simps)
  also have "16 * (v div 16 mod 16 ^ n) + v mod 16 = v mod 16 ^ Suc n"
    by (simp add: mod_mult2_eq)
  finally show ?case by simp
qed simp

lemma Hex2Dec_ge: "length cs \<le> n \<Longrightarrow> Hex2Dec_from r cs n = Hex2Dec_from r cs (length cs)"
  using Hex2Dec_from_append [of r cs "[]" "n - length cs"] by simp

text \<open>The two digits that \<open>GetSocketInfo\<close> reads at a time are a byte of the word.\<close>

lemma hex_out_split: "hex_out (m + n) v = hex_out m (v div 16 ^ n) @ hex_out n v"
proof (induction n arbitrary: v)
  case (Suc n)
  have "v div 16 div 16 ^ n = v div 16 ^ Suc n" by (simp add: div_mult2_eq)
  then show ?case using Suc.IH [of "v div 16"] by simp
qed simp

lemma hex_out_byte:
  assumes "k \<le> 3"
  shows "Hex2Dec (drop (6 - 2 * k) (hex_out 8 v)) 2 = of_nat (v div 256 ^ k mod 256)"
proof -
  have e: "8 = (6 - 2 * k) + (2 + 2 * k)" using assms by simp
  have "hex_out 8 v = hex_out (6 - 2 * k) (v div 16 ^ (2 + 2 * k)) @ hex_out (2 + 2 * k) v"
    by (subst e) (rule hex_out_split)
  moreover have "hex_out (2 + 2 * k) v = hex_out 2 (v div 16 ^ (2 * k)) @ hex_out (2 * k) v"
    by (rule hex_out_split)
  ultimately have "drop (6 - 2 * k) (hex_out 8 v) = hex_out 2 (v div 16 ^ (2 * k)) @ hex_out (2 * k) v"
    by simp
  moreover have "16 ^ (2 * k) = (256 :: nat) ^ k" by (simp add: power_mult)
  ultimately show ?thesis
    using Hex2Dec_from_append [of 0 "hex_out 2 (v div 256 ^ k)" "hex_out (2 * k) v" 0]
      Hex2Dec_from_hex_out [of 0 2 "v div 256 ^ k"]
    by (simp add: Hex2Dec_def)
qed

lemma byte_word: "of_nat (unat ip div 256 ^ k mod 256) = take_bit 8 (drop_bit (8 * k) (ip :: u32))"
proof -
  have "unat (take_bit 8 (drop_bit (8 * k) ip)) = unat ip div 256 ^ k mod 256"
    by (simp only: unsigned_take_bit_eq unsigned_drop_bit_eq)
      (simp add: take_bit_eq_mod drop_bit_eq_div power_mult)
  moreover have "unat ip div 256 ^ k mod 256 < 4294967296"
    using mod_less_divisor [of 256 "unat ip div 256 ^ k"] by linarith
  ultimately show ?thesis by (simp only: word_unat_eq_iff unat_u32_of_nat)
qed

lemma four_bytes:
  "take_bit 8 ip OR push_bit 8 (take_bit 8 (drop_bit 8 ip)) OR push_bit 16 (take_bit 8 (drop_bit 16 ip)) OR
   push_bit 24 (take_bit 8 (drop_bit 24 ip)) = (ip :: u32)"
proof (rule bit_word_eqI)
  fix n assume "n < LENGTH(32)"
  then consider "n < 8" | "8 \<le> n" "n < 16" | "16 \<le> n" "n < 24" | "24 \<le> n" "n < 32" by fastforce
  then show "bit (take_bit 8 ip OR push_bit 8 (take_bit 8 (drop_bit 8 ip)) OR
      push_bit 16 (take_bit 8 (drop_bit 16 ip)) OR push_bit 24 (take_bit 8 (drop_bit 24 ip))) n = bit ip n"
    by cases (auto simp: bit_or_iff bit_push_bit_iff bit_take_bit_iff bit_drop_bit_eq)
qed

text \<open>C40: the address parser inverts the kernel's \<open>%08X:%04X\<close> on every address and port, and reads
  the last word of the 32-digit form of the IPv6 tables: the address comes out as the word the
  packet header holds, and the port as printed.\<close>

theorem socket_info_roundtrip:
  assumes "port < 65536" and "CHR '':'' \<notin> set pre" and "length pre = 0 \<or> length pre = 24"
  shows "GetSocketInfo (pre @ hex_out 8 (unat ip) @ CHR '':'' # hex_out 4 port) = Value (ip, int port)"
proof -
  let ?s = "pre @ hex_out 8 (unat ip)"
  have "CHR '':'' \<notin> set (hex_out 8 (unat ip))" using hex_out_digit hex_char_not_colon by metis
  then have i: "index_of CHR '':'' (?s @ CHR '':'' # hex_out 4 port) = length ?s"
    using assms(2) by (intro index_of_append) auto
  have p: "Hex2Dec (hex_out 4 port) 32 = of_nat port"
    using Hex2Dec_from_hex_out [of 0 4 port] Hex2Dec_ge [of "hex_out 4 port" 32 0] assms(1)
    by (simp add: Hex2Dec_def)
  have "unat (of_nat port :: u32) = port" using assms(1) by simp
  then have sp: "sint (of_nat port :: u32) = int port"
    using assms(1) by (simp add: sint_u32 uint_nat)
  have b: "Hex2Dec (drop (length ?s - (2 + 2 * k)) ?s) 2 = take_bit 8 (drop_bit (8 * k) ip)" if "k \<le> 3" for k
  proof -
    have "drop (length ?s - (2 + 2 * k)) ?s = drop (6 - 2 * k) (hex_out 8 (unat ip))"
      using that by (simp add: drop_append)
    then show ?thesis using hex_out_byte [OF that, of "unat ip"] byte_word by simp
  qed
  have len: "length ?s = 8 \<or> length ?s = 32" using assms(3) by auto
  have "Hex2Dec (drop (length ?s - 2) ?s) 2 OR push_bit 8 (Hex2Dec (drop (length ?s - 4) ?s) 2) OR
      push_bit 16 (Hex2Dec (drop (length ?s - 6) ?s) 2) OR
      push_bit 24 (Hex2Dec (drop (length ?s - 8) ?s) 2) = ip"
    using b [of 0] b [of 1] b [of 2] b [of 3] four_bytes [of ip] by simp
  moreover have "drop (length ?s + 1) (?s @ CHR '':'' # hex_out 4 port) = hex_out 4 port" by simp
  moreover have "take (length ?s) (?s @ CHR '':'' # hex_out 4 port) = ?s" by simp
  ultimately show ?thesis
    unfolding GetSocketInfo_def append.assoc [symmetric] i Let_def
    using len p sp assms(1) by auto
qed

theorem socket_info_roundtrip_witness:
  "GetSocketInfo ''0100007F:1F90'' = Value (0x0100007F, 8080)"
proof -
  have "[] @ hex_out 8 (unat (0x0100007F :: u32)) @ CHR '':'' # hex_out 4 8080 = ''0100007F:1F90''"
    by (simp add: hex_out_numeral hex_char_def char_of_def bit_Suc_0_iff)
  then show ?thesis using socket_info_roundtrip [of 8080 "[]" "0x0100007F"] by simp
qed

text \<open>The port the parser hands on is a port, whatever the text: it ends the process otherwise.\<close>

lemma GetSocketInfo_port: "GetSocketInfo s = Value (ip, port) \<Longrightarrow> 0 \<le> port \<and> port \<le> 65535"
  by (auto simp: GetSocketInfo_def Let_def split: if_splits)

lemma parse_line_ports:
  assumes "parse_line line = LineOk sl"
  shows "0 \<le> snd (sl_local sl) \<and> snd (sl_local sl) \<le> 65535 \<and>
    0 \<le> snd (sl_remote sl) \<and> snd (sl_remote sl) \<le> 65535"
proof -
  obtain l r where lr: "GetSocketInfo (line_fields [] line ! 1) = Value l"
    "GetSocketInfo (line_fields [] line ! 2) = Value r" "sl_local sl = l" "sl_remote sl = r"
    using assms by (auto simp: parse_line_def Let_def split: exits.splits if_splits)
  then show ?thesis using GetSocketInfo_port [of _ "fst l" "snd l"] GetSocketInfo_port [of _ "fst r" "snd r"]
    by simp
qed

end
