(* ===== verification/Sock_Table.thy ===== *)
theory Sock_Table
  imports Sock_Text
begin

text \<open>
  The connection table of \<^verbatim>\<open>socket_proc.c\<close>: which application a captured packet belongs to.
  \<open>/proc/net/*\<close> is read into \<open>conns\<close>, sockets are matched with processes by inode, processes with
  application names and ids; two direct-mapped tables, by local port and by hashed remote address,
  index the connections.

  The global arrays are lists of their declared length with the counters beside them; a use of an
  index outside its array is the error \<open>OutOfBounds\<close>, \<open>exit(0)\<close> is \<open>SockExit\<close>. What the
  operating system answers (the files under \<open>/proc\<close>) is the argument \<open>env\<close>. Times are
  unbounded integers, so the overflow of \<open>time_t\<close> in 2038 is not modelled.
\<close>

section \<open>State\<close>

abbreviation (input) MAX_PIDS :: nat where "MAX_PIDS \<equiv> 8192"
abbreviation (input) MAX_CONNS :: nat where "MAX_CONNS \<equiv> 512"
abbreviation (input) MAX_PROCS :: nat where "MAX_PROCS \<equiv> 512"
abbreviation (input) APP_BINS :: int where "APP_BINS \<equiv> 256"
abbreviation (input) PROT_TCP :: int where "PROT_TCP \<equiv> 6"
abbreviation (input) PROT_UDP :: int where "PROT_UDP \<equiv> 17"
abbreviation (input) TIMEOUT :: int where "TIMEOUT \<equiv> 30"

datatype sock_error = SockExit | OutOfBounds

record conn =
  c_localIP :: u32
  c_remoteIP :: u32
  c_localPort :: int
  c_remotePort :: int
  c_protocol :: int
  c_iNode :: u32
  c_pid :: int
  c_appid :: int
  c_tv_sec :: int

text \<open>\<open>APP_INFO\<close>; the chain of a bin is a list with the newest entry first.\<close>

record app =
  a_name :: string
  a_hash :: int
  a_appid :: int

record sock =
  s_conns :: "conn list"
  s_nConns :: nat
  s_nConnsWithPID :: nat
  s_nNewConns :: nat
  s_procs :: "(int \<times> string) list"
  s_nProcs :: nat
  s_ino :: "nat \<Rightarrow> nat \<Rightarrow> u8"
  s_port :: "nat \<Rightarrow> int"
  s_portset :: "nat list"
  s_ip :: "nat \<Rightarrow> int"
  s_ipset :: "nat list"
  s_apps :: "nat \<Rightarrow> app list"
  s_nApps :: int
  s_names :: "string list"   \<comment> \<open>the lines written to \<open>ofsAppName\<close>\<close>

text \<open>
  The file system: the lines \<open>fgets\<close> returns for each table, the names \<open>readdir("/proc")\<close>
  returns, the links of the entries of \<open>/proc/pid/fd\<close> (\<open>None\<close> where \<open>readlink\<close> fails), and what
  \<open>fgets\<close> reads from \<open>/proc/pid/cmdline\<close>. The outer \<open>None\<close> is a failed open.
\<close>

record proc_env =
  pe_tcp :: "string list option"
  pe_tcp6 :: "string list option"
  pe_udp :: "string list option"
  pe_udp6 :: "string list option"
  pe_dirs :: "string list option"
  pe_fds :: "int \<Rightarrow> string option list option"
  pe_cmdline :: "int \<Rightarrow> string option option"

definition INOHASH :: "u32 \<Rightarrow> nat" where
  "INOHASH inode = unat (drop_bit 3 (inode * 31415) AND 127)"

text \<open>In the macro \<open>+\<close> binds tighter than \<open>>>\<close>, so the whole sum is shifted.\<close>

definition IPHASH :: "u32 \<Rightarrow> nat" where
  "IPHASH ip = unat (ucast (drop_bit 16 ((ip AND 0xFFFF) + (ip AND 0xFFFF0000))) :: u16)"

section \<open>Reading the kernel's tables\<close>

definition Init :: "sock \<Rightarrow> sock" where
  "Init st = st\<lparr>s_nNewConns := 0, s_nProcs := 0, s_nConnsWithPID := 0,
     s_ino := (\<lambda>h. (s_ino st h)(0 := 0)),
     s_port := fold (\<lambda>p t. t(p := - 1)) (s_portset st) (s_port st), s_portset := [],
     s_ip := fold (\<lambda>p t. t(p := - 1)) (s_ipset st) (s_ip st), s_ipset := []\<rparr>"

text \<open>What \<open>StartCapture\<close> does to the table: on a change of the bearer the connections are forgotten, but the indexes stay.\<close>

definition StartCapture :: "nat \<Rightarrow> sock \<Rightarrow> sock" where
  "StartCapture bearerChangedvalue st =
     (if bearerChangedvalue = 0
      then st\<lparr>s_nConns := 0, s_port := (\<lambda>_. - 1), s_portset := [], s_ip := (\<lambda>_. - 1), s_ipset := [],
        s_nApps := 0, s_apps := (\<lambda>_. [])\<rparr>
      else st\<lparr>s_nConns := 0\<rparr>)"

text \<open>One line of a table. The new entry's index is stored in a \<open>BYTE\<close>, and so is the bin's count.\<close>

definition read_line :: "int \<Rightarrow> int \<Rightarrow> string \<Rightarrow> sock \<Rightarrow> sock_error + sock" where
  "read_line protocol curSec line st =
     (if s_nConns st \<ge> MAX_CONNS then Inl OutOfBounds
      else case parse_line line of
        LineExit \<Rightarrow> Inl SockExit
      | LineBroken \<Rightarrow> Inr st
      | LineOk sl \<Rightarrow>
          (let c = \<lparr>c_localIP = fst (sl_local sl), c_remoteIP = fst (sl_remote sl),
                    c_localPort = snd (sl_local sl), c_remotePort = snd (sl_remote sl),
                    c_protocol = protocol, c_iNode = sl_inode sl, c_pid = - 1, c_appid = - 1,
                    c_tv_sec = curSec\<rparr>;
               h = INOHASH (sl_inode sl); cnt = s_ino st h 0 + 1
           in Inr (st\<lparr>s_conns := (s_conns st)[s_nConns st := c], s_nConns := s_nConns st + 1,
                      s_ino := (s_ino st)(h := (s_ino st h)(0 := cnt, unat cnt := of_nat (s_nConns st))),
                      s_nNewConns := s_nNewConns st + 1\<rparr>)))"

fun read_lines :: "int \<Rightarrow> int \<Rightarrow> string list \<Rightarrow> sock \<Rightarrow> sock_error + sock" where
  "read_lines protocol curSec [] st = Inr st"
| "read_lines protocol curSec (l # ls) st =
     rbind (read_line protocol curSec l st) (read_lines protocol curSec ls)"

text \<open>The first line is a header.\<close>

definition ReadConnections :: "string list option \<Rightarrow> int \<Rightarrow> int \<Rightarrow> sock \<Rightarrow> sock_error + sock" where
  "ReadConnections file protocol curSec st =
     (case file of None \<Rightarrow> Inr st | Some ls \<Rightarrow> read_lines protocol curSec (drop 1 ls) st)"

section \<open>Processes\<close>

definition upd_conn :: "nat \<Rightarrow> (conn \<Rightarrow> conn) \<Rightarrow> sock \<Rightarrow> sock" where
  "upd_conn k f st = st\<lparr>s_conns := (s_conns st)[k := f (s_conns st ! k)]\<rparr>"

definition bin_ids :: "sock \<Rightarrow> nat \<Rightarrow> nat list" where
  "bin_ids st h = map (\<lambda>i. unat (s_ino st h i)) [1..<unat (s_ino st h 0) + 1]"

definition proc_link :: "int \<Rightarrow> string option \<Rightarrow> sock \<Rightarrow> sock" where
  "proc_link pid lnk st =
     (case Option.bind lnk socket_link of
        None \<Rightarrow> st
      | Some inode \<Rightarrow>
          (case find (\<lambda>k. c_iNode (s_conns st ! k) = inode) (bin_ids st (INOHASH inode)) of
             None \<Rightarrow> st
           | Some k \<Rightarrow>
               (if c_pid (s_conns st ! k) = - 1
                then upd_conn k (\<lambda>c. c\<lparr>c_pid := pid\<rparr>) st\<lparr>s_nConnsWithPID := s_nConnsWithPID st + 1\<rparr>
                else st)))"

definition ReadProcFD :: "proc_env \<Rightarrow> int \<Rightarrow> sock \<Rightarrow> sock" where
  "ReadProcFD env pid st =
     (case pe_fds env pid of None \<Rightarrow> st | Some ls \<Rightarrow> fold (proc_link pid) ls st)"

fun attach_loop :: "proc_env \<Rightarrow> int list \<Rightarrow> sock \<Rightarrow> sock" where
  "attach_loop env [] st = st"
| "attach_loop env (pid # pids) st =
     (let st' = ReadProcFD env pid st in
      if s_nConnsWithPID st' = s_nNewConns st' then st' else attach_loop env pids st')"

definition AttachProcessInfo :: "proc_env \<Rightarrow> sock \<Rightarrow> sock_error + sock" where
  "AttachProcessInfo env st =
     (let pids = (case pe_dirs env of None \<Rightarrow> [] | Some ds \<Rightarrow> filter (\<lambda>p. p \<noteq> - 1) (map GetProcessID ds))
      in if length pids > MAX_PIDS then Inl OutOfBounds else Inr (attach_loop env (rev pids) st))"

section \<open>Names and application ids\<close>

text \<open>
  \<open>GetProcName\<close>. When \<open>cmdline\<close> is empty \<open>fgets\<close> leaves the name of the array's slot as it was.
\<close>

definition GetProcName :: "proc_env \<Rightarrow> int \<Rightarrow> sock \<Rightarrow> sock_error + string option \<times> sock" where
  "GetProcName env pid st =
     (case find (\<lambda>p. fst p = pid) (take (s_nProcs st) (s_procs st)) of
        Some p \<Rightarrow> Inr (Some (snd p), st)
      | None \<Rightarrow>
          (case pe_cmdline env pid of
             None \<Rightarrow> Inr (None, st)
           | Some content \<Rightarrow>
               (if s_nProcs st \<ge> MAX_PROCS then Inl OutOfBounds
                else
                  (let n = s_nProcs st;
                       name = (case content of None \<Rightarrow> snd (s_procs st ! n) | Some s \<Rightarrow> take 255 s);
                       st' = st\<lparr>s_procs := (s_procs st)[n := (pid, name)]\<rparr>
                   in if name = [] \<or> cval (hd name) < 32 then Inr (None, st')
                      else Inr (Some name, st'\<lparr>s_nProcs := n + 1\<rparr>)))))"

definition GetAppID :: "string \<Rightarrow> sock \<Rightarrow> int \<times> sock" where
  "GetAppID procName st =
     (let h = GetStringHash procName; bn = nat (h mod APP_BINS) in
      case find (\<lambda>a. h = a_hash a \<and> a_name a = procName) (s_apps st bn) of
        Some a \<Rightarrow> (a_appid a, st)
      | None \<Rightarrow>
          (let i = s_nApps st in
           (i, st\<lparr>s_apps := (s_apps st)(bn := \<lparr>a_name = procName, a_hash = h, a_appid = i\<rparr> # s_apps st bn),
                  s_nApps := i + 1, s_names := s_names st @ [procName]\<rparr>)))"

definition name_conn :: "proc_env \<Rightarrow> nat \<Rightarrow> sock \<Rightarrow> sock_error + sock" where
  "name_conn env k st =
     (if c_appid (s_conns st ! k) \<noteq> - 1 then Inr st
      else rbind (GetProcName env (c_pid (s_conns st ! k)) st) (\<lambda>(name, st1).
        case name of
          None \<Rightarrow> Inr st1
        | Some nm \<Rightarrow>
            (let (i, st2) = GetAppID nm st1 in Inr (upd_conn k (\<lambda>c. c\<lparr>c_appid := i\<rparr>) st2))))"

fun each :: "('a \<Rightarrow> 's \<Rightarrow> 'e + 's) \<Rightarrow> 'a list \<Rightarrow> 's \<Rightarrow> 'e + 's" where
  "each f [] s = Inr s"
| "each f (x # xs) s = rbind (f x s) (each f xs)"

definition UpdateNames :: "proc_env \<Rightarrow> sock \<Rightarrow> sock_error + sock" where
  "UpdateNames env st = each (name_conn env) [0..<s_nConns st] st"

section \<open>Cleaning the table\<close>

definition same_conn :: "conn \<Rightarrow> conn \<Rightarrow> bool" where
  "same_conn c d \<longleftrightarrow> c_localIP c = c_localIP d \<and> c_remoteIP c = c_remoteIP d \<and>
     c_localPort c = c_localPort d \<and> c_remotePort c = c_remotePort d \<and> c_protocol c = c_protocol d"

definition drop_conn :: "nat \<Rightarrow> conn list \<Rightarrow> conn list" where
  "drop_conn k cs = cs[k := (cs ! k)\<lparr>c_appid := - 1\<rparr>]"

definition clean_at :: "int \<Rightarrow> nat \<Rightarrow> conn list \<Rightarrow> conn list" where
  "clean_at curSec i cs =
     (if c_appid (cs ! i) = - 1 then cs
      else if curSec \<ge> c_tv_sec (cs ! i) + TIMEOUT then drop_conn i cs
      else case find (\<lambda>j. c_appid (cs ! j) \<noteq> - 1 \<and> same_conn (cs ! j) (cs ! i)) [0..<i] of
             None \<Rightarrow> cs
           | Some j \<Rightarrow>
               (if c_tv_sec (cs ! i) > c_tv_sec (cs ! j) then drop_conn j cs else drop_conn i cs))"

text \<open>The compaction copies the entries that are left to the front; behind them the array keeps
  what it held.\<close>

definition CleanConnectionInfo :: "int \<Rightarrow> sock \<Rightarrow> sock" where
  "CleanConnectionInfo curSec st =
     (let cs = fold (clean_at curSec) [0..<s_nConns st] (s_conns st);
          kept = filter (\<lambda>c. c_appid c \<noteq> - 1) (take (s_nConns st) cs)
      in st\<lparr>s_conns := kept @ drop (length kept) cs, s_nConns := length kept\<rparr>)"

section \<open>The two indexes\<close>

text \<open>\<open>-1\<close>: no entry; \<open>-2\<close>: more than one, look in \<open>conns\<close>; otherwise the entry.\<close>

definition port_entry :: "nat \<Rightarrow> sock \<Rightarrow> sock_error + sock" where
  "port_entry i st =
     (let c = s_conns st ! i; p = nat (c_localPort c) in
      if c_appid c = - 1 then Inl SockExit
      else if c_localPort c < 0 \<or> c_localPort c > 65535 then Inl OutOfBounds
      else if s_port st p = - 1 then
        (if length (s_portset st) \<ge> MAX_CONNS then Inl OutOfBounds
         else Inr (st\<lparr>s_port := (s_port st)(p := int i), s_portset := s_portset st @ [p]\<rparr>))
      else Inr (st\<lparr>s_port := (s_port st)(p := - 2)\<rparr>))"

definition UpdatePort2Connid :: "sock \<Rightarrow> sock_error + sock" where
  "UpdatePort2Connid st =
     (if s_portset st \<noteq> [] then Inl SockExit else each port_entry [0..<s_nConns st] st)"

definition ip_entry :: "nat \<Rightarrow> sock \<Rightarrow> sock_error + sock" where
  "ip_entry i st =
     (let c = s_conns st ! i; h = IPHASH (c_remoteIP c) in
      if c_appid c = - 1 then Inl SockExit
      else if s_ip st h = - 1 then
        (if length (s_ipset st) \<ge> MAX_CONNS then Inl OutOfBounds
         else Inr (st\<lparr>s_ip := (s_ip st)(h := int i), s_ipset := s_ipset st @ [h]\<rparr>))
      else Inr (st\<lparr>s_ip := (s_ip st)(h := - 2)\<rparr>))"

definition UpdateIP2Connid :: "sock \<Rightarrow> sock_error + sock" where
  "UpdateIP2Connid st =
     (if s_ipset st \<noteq> [] then Inl SockExit else each ip_entry [0..<s_nConns st] st)"

definition UpdateProcessSocketInfo :: "proc_env \<Rightarrow> int \<Rightarrow> sock \<Rightarrow> sock_error + sock" where
  "UpdateProcessSocketInfo env curSec st =
     rbind (ReadConnections (pe_tcp env) PROT_TCP curSec (Init st)) (\<lambda>s1.
     rbind (ReadConnections (pe_tcp6 env) PROT_TCP curSec s1) (\<lambda>s2.
     rbind (ReadConnections (pe_udp env) PROT_UDP curSec s2) (\<lambda>s3.
     rbind (ReadConnections (pe_udp6 env) PROT_UDP curSec s3) (\<lambda>s4.
     rbind (AttachProcessInfo env s4) (\<lambda>s5.
     rbind (UpdateNames env s5) (\<lambda>s6.
     rbind (UpdatePort2Connid (CleanConnectionInfo curSec s6)) UpdateIP2Connid))))))"

section \<open>Attributing a packet\<close>

text \<open>The first connection that matches exactly, else the last one with the address and protocol.\<close>

fun search_from :: "conn list \<Rightarrow> nat list \<Rightarrow> int \<Rightarrow> u32 \<Rightarrow> int \<Rightarrow> nat option \<Rightarrow> sock_error + nat option" where
  "search_from cs [] remotePort remoteIP protocol best = Inr best"
| "search_from cs (i # is) remotePort remoteIP protocol best =
     (let c = cs ! i in
      if c_appid c = - 1 then Inl SockExit
      else if c_remotePort c = remotePort \<and> c_remoteIP c = remoteIP \<and> c_protocol c = protocol
           then Inr (Some i)
      else search_from cs is remotePort remoteIP protocol
             (if c_remoteIP c = remoteIP \<and> c_protocol c = protocol then Some i else best))"

definition SearchForConn :: "sock \<Rightarrow> int \<Rightarrow> u32 \<Rightarrow> int \<Rightarrow> sock_error + nat option" where
  "SearchForConn st remotePort remoteIP protocol =
     search_from (s_conns st) [0..<s_nConns st] remotePort remoteIP protocol None"

definition hit :: "nat \<Rightarrow> int \<Rightarrow> sock \<Rightarrow> int \<times> sock" where
  "hit k curSec st = (c_appid (s_conns st ! k), upd_conn k (\<lambda>c. c\<lparr>c_tv_sec := curSec\<rparr>) st)"

text \<open>One look at the table: \<open>fresh\<close> says whether an entry's age counts (the first look) or not
  (after the table was read again).\<close>

definition usable :: "bool \<Rightarrow> int \<Rightarrow> sock \<Rightarrow> nat \<Rightarrow> bool" where
  "usable fresh curSec st k \<longleftrightarrow> fresh \<or> curSec < c_tv_sec (s_conns st ! k) + TIMEOUT"

definition lookup_conn ::
    "bool \<Rightarrow> int \<Rightarrow> int \<Rightarrow> u32 \<Rightarrow> int \<Rightarrow> int \<Rightarrow> sock \<Rightarrow> sock_error + (int \<times> sock) option" where
  "lookup_conn fresh localPort remotePort remoteIP protocol curSec st =
     (let cid1 = s_port st (nat localPort); cid2 = s_ip st (IPHASH remoteIP) in
      if cid1 \<ge> 0 \<and> usable fresh curSec st (nat cid1) then Inr (Some (hit (nat cid1) curSec st))
      else if cid2 \<ge> 0 \<and> usable fresh curSec st (nat cid2) then Inr (Some (hit (nat cid2) curSec st))
      else if cid1 = - 2 \<or> cid2 = - 2 then
        rbind (SearchForConn st remotePort remoteIP protocol) (\<lambda>r.
          case r of
            Some k \<Rightarrow> Inr (if usable fresh curSec st k then Some (hit k curSec st) else None)
          | None \<Rightarrow> Inr None)
      else Inr None)"

definition UpdatePacket_Core ::
    "proc_env \<Rightarrow> int \<Rightarrow> u32 \<Rightarrow> int \<Rightarrow> u32 \<Rightarrow> int \<Rightarrow> int \<Rightarrow> sock \<Rightarrow> sock_error + int \<times> sock" where
  "UpdatePacket_Core env localPort localIP remotePort remoteIP protocol curSec st =
     rbind (lookup_conn False localPort remotePort remoteIP protocol curSec st) (\<lambda>r.
       case r of
         Some x \<Rightarrow> Inr x
       | None \<Rightarrow>
           rbind (UpdateProcessSocketInfo env curSec st) (\<lambda>st1.
           rbind (lookup_conn True localPort remotePort remoteIP protocol curSec st1) (\<lambda>r1.
             case r1 of Some x \<Rightarrow> Inr x | None \<Rightarrow> Inr (- 1, st1))))"

section \<open>What the cleaning leaves\<close>

abbreviation live :: "conn \<Rightarrow> bool" where "live c \<equiv> c_appid c \<noteq> - 1"

definition unexpired :: "int \<Rightarrow> conn \<Rightarrow> bool" where
  "unexpired curSec c \<longleftrightarrow> curSec < c_tv_sec c + TIMEOUT"

definition active :: "sock \<Rightarrow> conn list" where
  "active st = take (s_nConns st) (s_conns st)"

lemma drop_conn_nth:
  "j < length cs \<Longrightarrow> drop_conn k cs ! j = (if j = k then (cs ! k)\<lparr>c_appid := - 1\<rparr> else cs ! j)"
  by (auto simp: drop_conn_def nth_list_update)

lemma length_drop_conn [simp]: "length (drop_conn k cs) = length cs"
  by (simp add: drop_conn_def)

lemma same_conn_sym: "same_conn c d \<Longrightarrow> same_conn d c"
  and same_conn_trans: "same_conn c d \<Longrightarrow> same_conn d e \<Longrightarrow> same_conn c e"
  by (auto simp: same_conn_def)

lemma same_conn_appid [simp]:
  "same_conn (c\<lparr>c_appid := a\<rparr>) d = same_conn c d" "same_conn c (d\<lparr>c_appid := a\<rparr>) = same_conn c d"
  by (simp_all add: same_conn_def)

text \<open>What holds after the rounds below \<open>i\<close>: the entries from \<open>i\<close> on are as they were, and every
  entry is as it was or dropped.\<close>

definition cleaned :: "int \<Rightarrow> conn list \<Rightarrow> nat \<Rightarrow> conn list \<Rightarrow> bool" where
  "cleaned curSec cs0 i cs \<longleftrightarrow> length cs = length cs0 \<and>
     (\<forall>j < length cs0. cs ! j = cs0 ! j \<or> (j < i \<and> cs ! j = (cs0 ! j)\<lparr>c_appid := - 1\<rparr>)) \<and>
     (\<forall>j < i. live (cs ! j) \<longrightarrow> unexpired curSec (cs ! j)) \<and>
     (\<forall>j < i. \<forall>k < i. j \<noteq> k \<longrightarrow> live (cs ! j) \<longrightarrow> live (cs ! k) \<longrightarrow> \<not> same_conn (cs ! j) (cs ! k)) \<and>
     (\<forall>j < i. live (cs0 ! j) \<longrightarrow> unexpired curSec (cs0 ! j) \<longrightarrow>
        (\<exists>k < i. live (cs ! k) \<and> same_conn (cs ! k) (cs0 ! j) \<and> c_tv_sec (cs ! k) \<ge> c_tv_sec (cs0 ! j)))"

lemma cleanedD:
  assumes "cleaned curSec cs0 i cs"
  shows "length cs = length cs0"
    and "j < length cs0 \<Longrightarrow> cs ! j = cs0 ! j \<or> (j < i \<and> cs ! j = (cs0 ! j)\<lparr>c_appid := - 1\<rparr>)"
    and "j < i \<Longrightarrow> live (cs ! j) \<Longrightarrow> unexpired curSec (cs ! j)"
    and "j < i \<Longrightarrow> k < i \<Longrightarrow> j \<noteq> k \<Longrightarrow> live (cs ! j) \<Longrightarrow> live (cs ! k) \<Longrightarrow> \<not> same_conn (cs ! j) (cs ! k)"
    and "j < i \<Longrightarrow> live (cs0 ! j) \<Longrightarrow> unexpired curSec (cs0 ! j) \<Longrightarrow>
        \<exists>k < i. live (cs ! k) \<and> same_conn (cs ! k) (cs0 ! j) \<and> c_tv_sec (cs ! k) \<ge> c_tv_sec (cs0 ! j)"
  using assms unfolding cleaned_def by blast+

lemma cleaned_drop_new:
  assumes c: "cleaned curSec cs0 i cs" and i: "i < length cs0"
    and w: "unexpired curSec (cs0 ! i) \<Longrightarrow>
      \<exists>k < i. live (cs ! k) \<and> same_conn (cs ! k) (cs0 ! i) \<and> c_tv_sec (cs ! k) \<ge> c_tv_sec (cs0 ! i)"
  shows "cleaned curSec cs0 (Suc i) (drop_conn i cs)"
proof -
  have at: "cs ! i = cs0 ! i" and len: "length cs = length cs0" using c i by (auto simp: cleaned_def)
  have n: "drop_conn i cs ! j = (if j = i then (cs0 ! i)\<lparr>c_appid := - 1\<rparr> else cs ! j)"
    if "j < length cs0" for j using that at len by (simp add: drop_conn_nth)
  have w': "\<exists>k < Suc i. live (drop_conn i cs ! k) \<and> same_conn (drop_conn i cs ! k) (cs0 ! j) \<and>
      c_tv_sec (drop_conn i cs ! k) \<ge> c_tv_sec (cs0 ! j)"
    if j: "j < Suc i" "live (cs0 ! j)" "unexpired curSec (cs0 ! j)" for j
  proof -
    obtain k where "k < i" "live (cs ! k)" "same_conn (cs ! k) (cs0 ! j)" "c_tv_sec (cs ! k) \<ge> c_tv_sec (cs0 ! j)"
      using c w j unfolding cleaned_def less_Suc_eq by blast
    then show ?thesis using n [of k] i by (intro exI [of _ k]) simp
  qed
  show ?thesis
    unfolding cleaned_def
  proof (intro conjI allI impI)
    fix j assume "j < Suc i" "live (cs0 ! j)" "unexpired curSec (cs0 ! j)"
    then show "\<exists>k < Suc i. live (drop_conn i cs ! k) \<and> same_conn (drop_conn i cs ! k) (cs0 ! j) \<and>
        c_tv_sec (drop_conn i cs ! k) \<ge> c_tv_sec (cs0 ! j)" by (rule w')
  next
    fix j assume j: "j < length cs0"
    show "drop_conn i cs ! j = cs0 ! j \<or> (j < Suc i \<and> drop_conn i cs ! j = (cs0 ! j)\<lparr>c_appid := - 1\<rparr>)"
      using n [OF j] c j unfolding cleaned_def by (auto simp: less_Suc_eq)
  next
    fix j assume j: "j < Suc i" "live (drop_conn i cs ! j)"
    then show "unexpired curSec (drop_conn i cs ! j)" using n [of j] i c
      unfolding cleaned_def by (auto simp: less_Suc_eq split: if_splits)
  next
    fix j k assume j: "j < Suc i" "k < Suc i" "j \<noteq> k" "live (drop_conn i cs ! j)" "live (drop_conn i cs ! k)"
    then show "\<not> same_conn (drop_conn i cs ! j) (drop_conn i cs ! k)" using n [of j] n [of k] i c
      unfolding cleaned_def by (auto simp: less_Suc_eq split: if_splits)
  qed (simp add: len)
qed

lemma cleaned_keep:
  assumes c: "cleaned curSec cs0 i cs" and i: "i < length cs0"
    and l: "live (cs0 ! i) \<Longrightarrow> unexpired curSec (cs0 ! i)"
    and nd: "\<And>j. j < i \<Longrightarrow> live (cs0 ! i) \<Longrightarrow> live (cs ! j) \<Longrightarrow> \<not> same_conn (cs ! j) (cs0 ! i)"
  shows "cleaned curSec cs0 (Suc i) cs"
proof -
  have at: "cs ! i = cs0 ! i" and len: "length cs = length cs0" using c i by (auto simp: cleaned_def)
  show ?thesis
    unfolding cleaned_def
  proof (intro conjI allI impI)
    fix j assume j: "j < length cs0"
    then have "cs ! j = cs0 ! j \<or> (j < i \<and> cs ! j = (cs0 ! j)\<lparr>c_appid := - 1\<rparr>)"
      using c by (simp add: cleaned_def)
    then show "cs ! j = cs0 ! j \<or> (j < Suc i \<and> cs ! j = (cs0 ! j)\<lparr>c_appid := - 1\<rparr>)" by auto
  next
    fix j assume "j < Suc i" "live (cs ! j)"
    then show "unexpired curSec (cs ! j)" using c at l by (cases "j = i") (auto simp: cleaned_def)
  next
    fix j k assume j: "j < Suc i" "k < Suc i" "j \<noteq> k" "live (cs ! j)" "live (cs ! k)"
    consider "j = i" "k < i" | "k = i" "j < i" | "j < i" "k < i" using j(1-3) by linarith
    then show "\<not> same_conn (cs ! j) (cs ! k)"
    proof cases
      case 1
      then show ?thesis using nd [of k] j at same_conn_sym by auto
    next
      case 2
      then show ?thesis using nd [of j] j at by auto
    next
      case 3
      then show ?thesis using c j(3-5) unfolding cleaned_def by blast
    qed
  next
    fix j assume j: "j < Suc i" "live (cs0 ! j)" "unexpired curSec (cs0 ! j)"
    show "\<exists>k < Suc i. live (cs ! k) \<and> same_conn (cs ! k) (cs0 ! j) \<and> c_tv_sec (cs ! k) \<ge> c_tv_sec (cs0 ! j)"
    proof (cases "j = i")
      case True
      then show ?thesis using at j by (intro exI [of _ i]) (simp add: same_conn_def)
    next
      case False
      then have "j < i" using j(1) by simp
      then obtain k where "k < i" "live (cs ! k)" "same_conn (cs ! k) (cs0 ! j)"
        "c_tv_sec (cs ! k) \<ge> c_tv_sec (cs0 ! j)" using c j(2,3) unfolding cleaned_def by blast
      then show ?thesis by (intro exI [of _ k]) simp
    qed
  qed (simp add: len)
qed

lemma cleaned_step:
  assumes c: "cleaned curSec cs0 i cs" and i: "i < length cs0"
  shows "cleaned curSec cs0 (Suc i) (clean_at curSec i cs)"
proof -
  have at: "cs ! i = cs0 ! i" and len: "length cs = length cs0" using c i by (auto simp: cleaned_def)
  let ?dup = "\<lambda>j. live (cs ! j) \<and> same_conn (cs ! j) (cs ! i)"
  show ?thesis
  proof (cases "live (cs ! i) \<and> curSec < c_tv_sec (cs ! i) + TIMEOUT")
    case False
    show ?thesis
    proof (cases "live (cs ! i)")
      case True
      then have e: "clean_at curSec i cs = drop_conn i cs" using False by (simp add: clean_at_def)
      show ?thesis unfolding e
        by (rule cleaned_drop_new [OF c i]) (use False True at in \<open>auto simp: unexpired_def\<close>)
    next
      case False
      then have "clean_at curSec i cs = cs" by (simp add: clean_at_def)
      then show ?thesis using cleaned_keep [OF c i] False at by simp
    qed
  next
    case True
    then have e: "clean_at curSec i cs = (case find ?dup [0..<i] of None \<Rightarrow> cs
        | Some j \<Rightarrow> (if c_tv_sec (cs ! i) > c_tv_sec (cs ! j) then drop_conn j cs else drop_conn i cs))"
      by (simp add: clean_at_def)
    show ?thesis
    proof (cases "find ?dup [0..<i]")
      case None
      then have nd: "\<not> ?dup j" if "j < i" for j using that by (auto simp: find_None_iff)
      have "clean_at curSec i cs = cs" using e None by simp
      moreover have "cleaned curSec cs0 (Suc i) cs"
        by (rule cleaned_keep [OF c i]) (use nd True at in \<open>auto simp: unexpired_def\<close>)
      ultimately show ?thesis by simp
    next
      case (Some j)
      then have j: "j < i" "live (cs ! j)" "same_conn (cs ! j) (cs ! i)"
        by (auto simp: find_Some_iff)
      show ?thesis
      proof (cases "c_tv_sec (cs ! i) > c_tv_sec (cs ! j)")
        case False
        then have e': "clean_at curSec i cs = drop_conn i cs" using e Some by simp
        show ?thesis unfolding e'
          by (rule cleaned_drop_new [OF c i]) (use j at False in \<open>auto intro!: exI [of _ j]\<close>)
      next
        case newer: True
        then have e': "clean_at curSec i cs = drop_conn j cs" using e Some by simp
        have n: "drop_conn j cs ! k = (if k = j then (cs ! j)\<lparr>c_appid := - 1\<rparr> else cs ! k)"
          if "k < length cs0" for k using that len by (simp add: drop_conn_nth)
        have other: "\<not> same_conn (cs ! k) (cs ! i)" if "k < i" "k \<noteq> j" "live (cs ! k)" for k
        proof
          assume "same_conn (cs ! k) (cs ! i)"
          then have "same_conn (cs ! k) (cs ! j)" using j(3) same_conn_sym same_conn_trans by blast
          then show False using c that j(1,2) unfolding cleaned_def by blast
        qed
        have w: "\<exists>k < Suc i. live (drop_conn j cs ! k) \<and> same_conn (drop_conn j cs ! k) (cs0 ! m) \<and>
            c_tv_sec (drop_conn j cs ! k) \<ge> c_tv_sec (cs0 ! m)"
          if m: "m < Suc i" "live (cs0 ! m)" "unexpired curSec (cs0 ! m)" for m
        proof (cases "m = i")
          case True
          then show ?thesis using n [OF i] at j(1) m(2) \<open>live (cs ! i) \<and> _\<close>
            by (intro exI [of _ i]) (simp add: same_conn_def)
        next
          case False
          then obtain k where k: "k < i" "live (cs ! k)" "same_conn (cs ! k) (cs0 ! m)"
            "c_tv_sec (cs ! k) \<ge> c_tv_sec (cs0 ! m)"
            using c m unfolding cleaned_def less_Suc_eq by blast
          show ?thesis
          proof (cases "k = j")
            case True
            then have "same_conn (cs ! i) (cs0 ! m)" using j(3) k(3) same_conn_sym same_conn_trans by blast
            then show ?thesis using n [OF i] at j(1) k(4) newer True \<open>live (cs ! i) \<and> _\<close>
              by (intro exI [of _ i]) simp
          next
            case False
            then show ?thesis using n [of k] k i by (intro exI [of _ k]) simp
          qed
        qed
        show ?thesis
          unfolding e' cleaned_def
        proof (intro conjI allI impI)
          fix m assume "m < Suc i" "live (cs0 ! m)" "unexpired curSec (cs0 ! m)"
          then show "\<exists>k < Suc i. live (drop_conn j cs ! k) \<and> same_conn (drop_conn j cs ! k) (cs0 ! m) \<and>
              c_tv_sec (drop_conn j cs ! k) \<ge> c_tv_sec (cs0 ! m)" by (rule w)
        next
          fix m assume m: "m < length cs0"
          then show "drop_conn j cs ! m = cs0 ! m \<or>
              (m < Suc i \<and> drop_conn j cs ! m = (cs0 ! m)\<lparr>c_appid := - 1\<rparr>)"
            using n [OF m] c j(1) unfolding cleaned_def by (auto simp: less_Suc_eq)
        next
          fix m assume m: "m < Suc i" "live (drop_conn j cs ! m)"
          then show "unexpired curSec (drop_conn j cs ! m)"
            using n [of m] i c True unfolding cleaned_def unexpired_def
            by (auto simp: less_Suc_eq split: if_splits)
        next
          fix m k assume m: "m < Suc i" "k < Suc i" "m \<noteq> k" "live (drop_conn j cs ! m)"
            "live (drop_conn j cs ! k)"
          then have mk: "m \<noteq> j" "k \<noteq> j" "live (cs ! m)" "live (cs ! k)"
            "drop_conn j cs ! m = cs ! m" "drop_conn j cs ! k = cs ! k"
            using n [of m] n [of k] i by (auto split: if_splits)
          show "\<not> same_conn (drop_conn j cs ! m) (drop_conn j cs ! k)"
            using other [of m] other [of k] mk m(1-3) c same_conn_sym
            unfolding cleaned_def less_Suc_eq by metis
        qed (simp add: len)
      qed
    qed
  qed
qed

lemma cleaned_fold:
  "n \<le> length cs0 \<Longrightarrow> cleaned curSec cs0 n (fold (clean_at curSec) [0..<n] cs0)"
proof (induction n)
  case 0
  then show ?case by (simp add: cleaned_def)
next
  case (Suc n)
  then show ?case using cleaned_step [of curSec cs0 n] by simp
qed

text \<open>The entries left, as those positions of the cleaned array that are live.\<close>

lemma active_clean:
  assumes "s_nConns st \<le> length (s_conns st)"
  obtains cs where "cleaned curSec (s_conns st) (s_nConns st) cs"
    and "active (CleanConnectionInfo curSec st) = filter live (take (s_nConns st) cs)"
    and "\<And>x. x \<in> set (active (CleanConnectionInfo curSec st)) \<Longrightarrow>
      live x \<and> unexpired curSec x \<and> x \<in> set (active st)"
proof -
  let ?n = "s_nConns st" and ?cs = "fold (clean_at curSec) [0..<s_nConns st] (s_conns st)"
  have c: "cleaned curSec (s_conns st) ?n ?cs" using assms by (rule cleaned_fold)
  have A: "active (CleanConnectionInfo curSec st) = filter live (take ?n ?cs)"
    unfolding active_def CleanConnectionInfo_def Let_def by simp
  have "live x \<and> unexpired curSec x \<and> x \<in> set (active st)"
    if "x \<in> set (active (CleanConnectionInfo curSec st))" for x
  proof -
    have "x \<in> set (take ?n ?cs)" "live x" using that unfolding A by auto
    then obtain j where j: "j < ?n" "x = ?cs ! j" "live (?cs ! j)"
      unfolding in_set_conv_nth by auto
    then have "?cs ! j = s_conns st ! j" using cleanedD(2) [OF c, of j] assms by auto
    then have "x \<in> set (active st)"
      unfolding active_def using j assms by (auto simp: in_set_conv_nth)
    then show ?thesis using cleanedD(3) [OF c, of j] j by auto
  qed
  with c A show thesis by (rule that)
qed

text \<open>C36: after the cleaning the table is a set of connections. Every entry left has an
  application and is younger than the timeout, no two entries are the same connection, all were
  in the table before, and for every live unexpired entry before there is one left for the same
  connection that is at least as recent.\<close>

theorem clean_connections:
  assumes "s_nConns st \<le> length (s_conns st)"
  shows "(\<forall>c \<in> set (active (CleanConnectionInfo curSec st)). live c \<and> unexpired curSec c \<and> c \<in> set (active st)) \<and>
     sorted_wrt (\<lambda>c d. \<not> same_conn c d) (active (CleanConnectionInfo curSec st)) \<and>
     (\<forall>c \<in> set (active st). live c \<and> unexpired curSec c \<longrightarrow>
        (\<exists>d \<in> set (active (CleanConnectionInfo curSec st)). same_conn d c \<and> c_tv_sec d \<ge> c_tv_sec c))"
proof -
  define A A' where A_def: "A = active st" and A'_def: "A' = active (CleanConnectionInfo curSec st)"
  define n where "n = s_nConns st"
  define old where "old = s_conns st"
  have n: "n \<le> length old" using assms(1) by (simp add: n_def old_def)
  obtain cs where c: "cleaned curSec old n cs" and A': "A' = filter live (take n cs)"
    and 1: "\<And>x. x \<in> set A' \<Longrightarrow> live x \<and> unexpired curSec x \<and> x \<in> set A"
    using active_clean [OF assms(1), of curSec] unfolding A_def A'_def n_def old_def by blast
  have len: "length cs = length old" using c by (rule cleanedD(1))
  have mem: "x \<in> set A' \<longleftrightarrow> (\<exists>j < n. x = cs ! j \<and> live (cs ! j))" for x
    unfolding A' using len n by (auto simp: in_set_conv_nth)
  have memA: "x \<in> set A \<longleftrightarrow> (\<exists>j < n. x = old ! j)" for x
    unfolding A_def active_def using n by (auto simp: in_set_conv_nth n_def old_def)
  have "sorted_wrt (\<lambda>c d. live c \<longrightarrow> live d \<longrightarrow> \<not> same_conn c d) (take n cs)"
    unfolding sorted_wrt_iff_nth_less using cleanedD(4) [OF c] by simp
  then have "sorted_wrt (\<lambda>c d. live c \<longrightarrow> live d \<longrightarrow> \<not> same_conn c d) A'"
    unfolding A' by (rule sorted_wrt_filter)
  then have 2: "sorted_wrt (\<lambda>c d. \<not> same_conn c d) A'"
    by (rule sorted_wrt_mono_rel [rotated]) (auto simp: A')
  have 3: "\<exists>d \<in> set A'. same_conn d x \<and> c_tv_sec d \<ge> c_tv_sec x"
    if x: "x \<in> set A" "live x" "unexpired curSec x" for x
  proof -
    obtain j where "j < n" "x = old ! j" using x(1) memA by blast
    then show ?thesis using cleanedD(5) [OF c, of j] x mem by blast
  qed
  show ?thesis unfolding A_def [symmetric] A'_def [symmetric] using 1 2 3 by blast
qed

theorem clean_connections_witness:
  "let c = \<lparr>c_localIP = 1, c_remoteIP = 2, c_localPort = 3, c_remotePort = 4, c_protocol = 6,
            c_iNode = 5, c_pid = 7, c_appid = 0, c_tv_sec = 100\<rparr>;
       st = \<lparr>s_conns = [c, c\<lparr>c_tv_sec := 110\<rparr>], s_nConns = 2, s_nConnsWithPID = 0, s_nNewConns = 0,
             s_procs = [], s_nProcs = 0, s_ino = (\<lambda>_ _. 0), s_port = (\<lambda>_. - 1), s_portset = [],
             s_ip = (\<lambda>_. - 1), s_ipset = [], s_apps = (\<lambda>_. []), s_nApps = 1, s_names = []\<rparr>
   in active (CleanConnectionInfo 120 st) = [c\<lparr>c_tv_sec := 110\<rparr>] \<and>
      (\<exists>d \<in> set (active (CleanConnectionInfo 120 st)). same_conn d c \<and> c_tv_sec d \<ge> c_tv_sec c)"
proof -
  let ?c = "\<lparr>c_localIP = 1, c_remoteIP = 2, c_localPort = 3, c_remotePort = 4, c_protocol = 6,
            c_iNode = 5, c_pid = 7, c_appid = 0, c_tv_sec = 100\<rparr> :: conn"
  let ?st = "\<lparr>s_conns = [?c, ?c\<lparr>c_tv_sec := 110\<rparr>], s_nConns = 2, s_nConnsWithPID = 0, s_nNewConns = 0,
             s_procs = [], s_nProcs = 0, s_ino = (\<lambda>_ _. 0), s_port = (\<lambda>_. - 1), s_portset = [],
             s_ip = (\<lambda>_. - 1), s_ipset = [], s_apps = (\<lambda>_. []), s_nApps = 1, s_names = []\<rparr> :: sock"
  have "active (CleanConnectionInfo 120 ?st) = [?c\<lparr>c_tv_sec := 110\<rparr>]"
    by (simp add: active_def CleanConnectionInfo_def clean_at_def drop_conn_def same_conn_def
        upt_rec Let_def)
  moreover have "?c \<in> set (active ?st)" "live ?c" "unexpired 120 ?c"
    by (simp_all add: active_def unexpired_def)
  ultimately show ?thesis using clean_connections [of ?st 120] by (simp add: Let_def)
qed

section \<open>Application ids\<close>

definition app_bin :: "string \<Rightarrow> nat" where
  "app_bin nm = nat (GetStringHash nm mod APP_BINS)"

definition apps_ok :: "sock \<Rightarrow> bool" where
  "apps_ok st \<longleftrightarrow> s_nApps st = int (length (s_names st)) \<and> distinct (s_names st) \<and>
     (\<forall>b. \<forall>a \<in> set (s_apps st b). a_hash a = GetStringHash (a_name a) \<and>
        0 \<le> a_appid a \<and> a_appid a < s_nApps st \<and> s_names st ! nat (a_appid a) = a_name a) \<and>
     (\<forall>nm \<in> set (s_names st). \<exists>a \<in> set (s_apps st (app_bin nm)). a_name a = nm)"

text \<open>Application ids identify application names. \<open>GetAppID\<close> keeps the bins consistent with
  the lines written to the \<open>appname\<close> file; the id it returns is the number of the line that holds
  the name, ids given out before keep their line, a name seen before changes nothing, and, the lines
  being distinct, two names get the same id only when they are equal.\<close>

theorem app_ids:
  assumes "apps_ok st" and "GetAppID nm st = (i, st')"
  shows "apps_ok st' \<and> 0 \<le> i \<and> nat i < length (s_names st') \<and> s_names st' ! nat i = nm \<and>
     (if nm \<in> set (s_names st) then st' = st else s_names st' = s_names st @ [nm])"
proof (cases "find (\<lambda>a. GetStringHash nm = a_hash a \<and> a_name a = nm) (s_apps st (app_bin nm))")
  case (Some a)
  then have a: "a \<in> set (s_apps st (app_bin nm))" "a_name a = nm" by (auto dest: find_SomeD)
  have e: "i = a_appid a" "st' = st" using assms(2) Some by (simp_all add: GetAppID_def app_bin_def Let_def)
  have r: "0 \<le> a_appid a" "a_appid a < s_nApps st" "s_names st ! nat (a_appid a) = nm"
    "s_nApps st = int (length (s_names st))"
    using assms(1) a unfolding apps_ok_def by blast+
  then have "nat (a_appid a) < length (s_names st)" by simp
  then have "nm \<in> set (s_names st)" using r(3) nth_mem by metis
  then show ?thesis using e r assms(1) \<open>nat (a_appid a) < _\<close> by simp
next
  case None
  let ?a = "\<lparr>a_name = nm, a_hash = GetStringHash nm, a_appid = s_nApps st\<rparr>"
  have ok: "s_nApps st = int (length (s_names st))" "distinct (s_names st)"
    "\<And>b a. a \<in> set (s_apps st b) \<Longrightarrow> a_hash a = GetStringHash (a_name a) \<and>
        0 \<le> a_appid a \<and> a_appid a < s_nApps st \<and> s_names st ! nat (a_appid a) = a_name a"
    "\<And>nm. nm \<in> set (s_names st) \<Longrightarrow> \<exists>a \<in> set (s_apps st (app_bin nm)). a_name a = nm"
    using assms(1) unfolding apps_ok_def by blast+
  have new: "nm \<notin> set (s_names st)"
  proof
    assume "nm \<in> set (s_names st)"
    then obtain a where a: "a \<in> set (s_apps st (app_bin nm))" "a_name a = nm" using ok(4) by blast
    then show False using None ok(3) [OF a(1)] by (auto simp: find_None_iff)
  qed
  have e: "i = s_nApps st" "s_apps st' = (s_apps st)(app_bin nm := ?a # s_apps st (app_bin nm))"
    "s_nApps st' = s_nApps st + 1" "s_names st' = s_names st @ [nm]"
    using assms(2) None by (auto simp: GetAppID_def app_bin_def Let_def)
  have "apps_ok st'"
    unfolding apps_ok_def
  proof (intro conjI allI ballI)
    show "s_nApps st' = int (length (s_names st'))" using ok(1) e by simp
    show "distinct (s_names st')" using ok(2) new e by simp
  next
    fix b a assume "a \<in> set (s_apps st' b)"
    then consider "a = ?a" | "a \<in> set (s_apps st b)" unfolding e(2) by (auto split: if_splits)
    then have "a_hash a = GetStringHash (a_name a) \<and> 0 \<le> a_appid a \<and> a_appid a < s_nApps st' \<and>
      s_names st' ! nat (a_appid a) = a_name a"
    proof cases
      case 1
      then show ?thesis using ok(1) e(3,4) by simp
    next
      case 2
      then have "nat (a_appid a) < length (s_names st)" using ok(1,3) by fastforce
      then show ?thesis using ok(3) [OF 2] e(3,4) by (simp add: nth_append)
    qed
    then show "a_hash a = GetStringHash (a_name a)" "0 \<le> a_appid a" "a_appid a < s_nApps st'"
      "s_names st' ! nat (a_appid a) = a_name a" by blast+
  next
    fix n assume "n \<in> set (s_names st')"
    then consider "n = nm" | "n \<in> set (s_names st)" unfolding e(4) by auto
    then show "\<exists>a \<in> set (s_apps st' (app_bin n)). a_name a = n"
      using ok(4) [of n] unfolding e(2) by cases auto
  qed
  then show ?thesis using new e ok(1) by simp
qed

theorem app_ids_witness:
  "let st = \<lparr>s_conns = [], s_nConns = 0, s_nConnsWithPID = 0, s_nNewConns = 0,
             s_procs = [], s_nProcs = 0, s_ino = (\<lambda>_ _. 0), s_port = (\<lambda>_. - 1), s_portset = [],
             s_ip = (\<lambda>_. - 1), s_ipset = [], s_apps = (\<lambda>_. []), s_nApps = 0, s_names = []\<rparr>
   in fst (GetAppID ''ab'' st) = 0 \<and> s_names (snd (GetAppID ''ab'' st)) ! 0 = ''ab''"
proof -
  let ?st = "\<lparr>s_conns = [], s_nConns = 0, s_nConnsWithPID = 0, s_nNewConns = 0,
             s_procs = [], s_nProcs = 0, s_ino = (\<lambda>_ _. 0), s_port = (\<lambda>_. - 1), s_portset = [],
             s_ip = (\<lambda>_. - 1), s_ipset = [], s_apps = (\<lambda>_. []), s_nApps = 0, s_names = []\<rparr> :: sock"
  have "apps_ok ?st" by (simp add: apps_ok_def)
  moreover obtain st' where "GetAppID ''ab'' ?st = (0, st')" by (simp add: GetAppID_def Let_def)
  ultimately show ?thesis using app_ids [of ?st "''ab''" 0 st'] by (simp add: Let_def)
qed

end
