(* ===== verification/Sock_Packet.thy ===== *)
theory Sock_Packet
  imports Sock_Table
begin

text \<open>
  The indexes of the connection table and the attribution of packets in \<^verbatim>\<open>socket_proc.c\<close>:
  what the two direct-mapped tables hold after a refresh, that a packet is attributed to a
  connection they lead to, and the packet parser \<open>UpdatePacket\<close> with its treatment of ports.
\<close>

section \<open>What an index holds\<close>

text \<open>The entry of slot \<open>p\<close> for the connections \<open>cs\<close> under the key \<open>f\<close>.\<close>

definition slot_of :: "(conn \<Rightarrow> nat) \<Rightarrow> conn list \<Rightarrow> nat \<Rightarrow> int" where
  "slot_of f cs p =
     (case filter (\<lambda>i. f (cs ! i) = p) [0..<length cs] of [] \<Rightarrow> - 1 | [i] \<Rightarrow> int i | _ \<Rightarrow> - 2)"

definition port_key :: "conn \<Rightarrow> nat" where "port_key c = nat (c_localPort c)"
definition ip_key :: "conn \<Rightarrow> nat" where "ip_key c = IPHASH (c_remoteIP c)"

lemma slot_of_Nil [simp]: "slot_of f [] p = - 1"
  by (simp add: slot_of_def)

lemma slot_of_snoc:
  "slot_of f (cs @ [c]) p =
     (if f c = p then (if slot_of f cs p = - 1 then int (length cs) else - 2) else slot_of f cs p)"
proof -
  have "filter (\<lambda>i. f ((cs @ [c]) ! i) = p) [0..<length cs] = filter (\<lambda>i. f (cs ! i) = p) [0..<length cs]"
    by (rule filter_cong) (auto simp: nth_append)
  then show ?thesis by (auto simp: slot_of_def split: list.splits)
qed

lemma slot_of_hit:
  assumes "slot_of f cs p = int k"
  shows "k < length cs" and "f (cs ! k) = p" and "\<forall>j < length cs. f (cs ! j) = p \<longrightarrow> j = k"
proof -
  have e: "filter (\<lambda>i. f (cs ! i) = p) [0..<length cs] = [k]"
    using assms by (auto simp: slot_of_def split: list.splits)
  have "set (filter (\<lambda>i. f (cs ! i) = p) [0..<length cs]) = {k}" unfolding e by simp
  then show "k < length cs" "f (cs ! k) = p" "\<forall>j < length cs. f (cs ! j) = p \<longrightarrow> j = k" by auto
qed

lemma slot_of_cong:
  assumes "length cs = length ds" and "\<And>i. i < length cs \<Longrightarrow> f (cs ! i) = f (ds ! i)"
  shows "slot_of f cs p = slot_of f ds p"
proof -
  have "filter (\<lambda>i. f (cs ! i) = p) [0..<length cs] = filter (\<lambda>i. f (ds ! i) = p) [0..<length ds]"
    using assms by (intro filter_cong) auto
  then show ?thesis by (simp add: slot_of_def)
qed

text \<open>The shape of the table the indexes are built from.\<close>

definition table_ok :: "sock \<Rightarrow> bool" where
  "table_ok st \<longleftrightarrow> length (s_conns st) = MAX_CONNS \<and> s_nConns st \<le> MAX_CONNS \<and>
     (\<forall>c \<in> set (active st). 0 \<le> c_localPort c \<and> c_localPort c \<le> 65535)"

text \<open>Every slot in use is in the list that \<open>Init\<close> walks.\<close>

definition listed :: "sock \<Rightarrow> bool" where
  "listed st \<longleftrightarrow> (\<forall>p. s_port st p \<noteq> - 1 \<longrightarrow> p \<in> set (s_portset st)) \<and>
     (\<forall>h. s_ip st h \<noteq> - 1 \<longrightarrow> h \<in> set (s_ipset st))"

definition indexed :: "sock \<Rightarrow> bool" where
  "indexed st \<longleftrightarrow> table_ok st \<and> listed st \<and> (\<forall>c \<in> set (active st). live c) \<and>
     (\<forall>p. s_port st p = slot_of port_key (active st) p) \<and>
     (\<forall>h. s_ip st h = slot_of ip_key (active st) h)"

text \<open>The parts of the state the operations before the indexing leave alone.\<close>

definition unindexed :: "sock \<Rightarrow> bool" where
  "unindexed st \<longleftrightarrow> table_ok st \<and> s_port st = (\<lambda>_. - 1) \<and> s_portset st = [] \<and>
     s_ip st = (\<lambda>_. - 1) \<and> s_ipset st = []"

lemma fold_clear: "fold (\<lambda>p t. t(p := - 1)) ps t q = (if q \<in> set ps then (- 1 :: int) else t q)"
  by (induction ps arbitrary: t) auto

lemma fold_clear_all:
  "\<forall>p. t p \<noteq> - 1 \<longrightarrow> p \<in> set ps \<Longrightarrow> fold (\<lambda>p t. t(p := (- 1 :: int))) ps t = (\<lambda>_. - 1)"
  by (rule ext) (auto simp: fold_clear)

lemma Init_unindexed: "table_ok st \<Longrightarrow> listed st \<Longrightarrow> unindexed (Init st)"
  unfolding unindexed_def listed_def
  by (auto simp: Init_def table_ok_def active_def fold_clear_all)

lemma active_nth: "table_ok st \<Longrightarrow> i < s_nConns st \<Longrightarrow> active st ! i = s_conns st ! i"
  by (simp add: active_def)

lemma length_active: "table_ok st \<Longrightarrow> length (active st) = s_nConns st"
  by (simp add: active_def table_ok_def)

lemma active_mem: "table_ok st \<Longrightarrow> i < s_nConns st \<Longrightarrow> s_conns st ! i \<in> set (active st)"
  using active_nth length_active by (metis nth_mem)

lemma read_line_unindexed:
  assumes "unindexed st" and "read_line protocol curSec line st = Inr st'"
  shows "unindexed st'"
proof -
  have t: "table_ok st" using assms(1) by (simp add: unindexed_def)
  consider "st' = st" | sl where "parse_line line = LineOk sl" "s_nConns st < MAX_CONNS"
    using assms(2) by (auto simp: read_line_def split: if_splits line_result.splits)
  then show ?thesis
  proof cases
    case 2
    then obtain c where c: "s_conns st' = (s_conns st)[s_nConns st := c]" "s_nConns st' = s_nConns st + 1"
      "c_localPort c = snd (sl_local sl)" "s_port st' = s_port st" "s_portset st' = s_portset st"
      "s_ip st' = s_ip st" "s_ipset st' = s_ipset st"
      using assms(2) by (auto simp: read_line_def Let_def)
    have "active st' = active st @ [c]"
      using c(1,2) 2(2) t by (simp add: active_def table_ok_def take_Suc_conv_app_nth)
    then show ?thesis using t c 2 parse_line_ports [OF 2(1)] assms(1)
      by (auto simp: unindexed_def table_ok_def)
  qed (use assms(1) in simp)
qed

lemma ReadConnections_unindexed:
  assumes "unindexed st" and "ReadConnections file protocol curSec st = Inr st'"
  shows "unindexed st'"
proof -
  have "unindexed st \<Longrightarrow> read_lines protocol curSec ls st = Inr st' \<Longrightarrow> unindexed st'" for ls st
    by (induction ls arbitrary: st) (auto simp: rbind_Inr dest: read_line_unindexed)
  then show ?thesis using assms by (auto simp: ReadConnections_def split: option.splits)
qed

text \<open>An update of an entry that keeps its ports and addresses.\<close>

lemma active_upd: "table_ok st \<Longrightarrow> k < MAX_CONNS \<Longrightarrow>
    active (upd_conn k f st) = (if k < s_nConns st then (active st)[k := f (active st ! k)] else active st)"
  by (auto simp: active_def upd_conn_def table_ok_def take_update_swap list_update_beyond)

lemma upd_table_ok:
  assumes t: "table_ok st" and f: "\<And>c. c_localPort (f c) = c_localPort c"
  shows "table_ok (upd_conn k f st)"
proof -
  have "c_localPort c \<in> c_localPort ` set (active st)" if c: "c \<in> set (active (upd_conn k f st))" for c
  proof -
    obtain i where i: "i < s_nConns st" "c = s_conns (upd_conn k f st) ! i"
      using c t by (auto simp: in_set_conv_nth active_def upd_conn_def table_ok_def)
    then have "c_localPort c = c_localPort (s_conns st ! i)"
      using t f by (cases "i = k") (auto simp: upd_conn_def table_ok_def)
    then show ?thesis using active_mem [OF t i(1)] by simp
  qed
  then show ?thesis using t by (fastforce simp: table_ok_def upd_conn_def)
qed

lemma upd_unindexed:
  "unindexed st \<Longrightarrow> (\<And>c. c_localPort (f c) = c_localPort c) \<Longrightarrow> unindexed (upd_conn k f st)"
  using upd_table_ok [of st f k] by (auto simp: unindexed_def) (simp_all add: upd_conn_def)

lemma unindexed_frame [simp]:
  "unindexed (st\<lparr>s_nConnsWithPID := v\<rparr>) = unindexed st"
  "unindexed (st\<lparr>s_procs := w\<rparr>) = unindexed st" "unindexed (st\<lparr>s_nProcs := v\<rparr>) = unindexed st"
  "unindexed (st\<lparr>s_apps := x\<rparr>) = unindexed st" "unindexed (st\<lparr>s_nApps := y\<rparr>) = unindexed st"
  "unindexed (st\<lparr>s_names := z\<rparr>) = unindexed st"
  by (simp_all add: unindexed_def table_ok_def active_def)

lemma proc_link_unindexed: "unindexed st \<Longrightarrow> unindexed (proc_link pid lnk st)"
  by (auto simp: proc_link_def upd_unindexed split: option.splits)

lemma ReadProcFD_unindexed: "unindexed st \<Longrightarrow> unindexed (ReadProcFD env pid st)"
proof -
  have "unindexed st \<Longrightarrow> unindexed (fold (proc_link pid) ls st)" for ls st
    by (induction ls arbitrary: st) (auto intro: proc_link_unindexed)
  then show "unindexed st \<Longrightarrow> unindexed (ReadProcFD env pid st)"
    by (simp add: ReadProcFD_def split: option.splits)
qed

lemma AttachProcessInfo_unindexed:
  "unindexed st \<Longrightarrow> AttachProcessInfo env st = Inr st' \<Longrightarrow> unindexed st'"
proof -
  have "unindexed st \<Longrightarrow> unindexed (attach_loop env pids st)" for pids st
    by (induction pids arbitrary: st) (auto simp: Let_def intro: ReadProcFD_unindexed)
  then show "unindexed st \<Longrightarrow> AttachProcessInfo env st = Inr st' \<Longrightarrow> unindexed st'"
    by (auto simp: AttachProcessInfo_def Let_def split: if_splits)
qed

lemma each_inv:
  "each f xs s = Inr s' \<Longrightarrow> I s \<Longrightarrow> (\<And>x s s'. I s \<Longrightarrow> f x s = Inr s' \<Longrightarrow> I s') \<Longrightarrow> I s'"
  by (induction xs arbitrary: s) (auto simp: rbind_Inr)

lemma GetProcName_unindexed:
  "unindexed st \<Longrightarrow> GetProcName env pid st = Inr (nm, st') \<Longrightarrow> unindexed st'"
  by (auto simp: GetProcName_def Let_def split: option.splits if_splits)

lemma GetAppID_unindexed: "unindexed st \<Longrightarrow> GetAppID nm st = (i, st') \<Longrightarrow> unindexed st'"
  by (auto simp: GetAppID_def Let_def split: option.splits)

lemma name_conn_unindexed:
  assumes "unindexed st" and "name_conn env k st = Inr st'"
  shows "unindexed st'"
proof (cases "c_appid (s_conns st ! k) = - 1")
  case True
  then obtain nm st1 where n: "GetProcName env (c_pid (s_conns st ! k)) st = Inr (nm, st1)"
    and r: "(case nm of None \<Rightarrow> Inr st1 | Some nm \<Rightarrow>
      (let (i, st2) = GetAppID nm st1 in Inr (upd_conn k (\<lambda>c. c\<lparr>c_appid := i\<rparr>) st2))) = (Inr st' :: sock_error + sock)"
    using assms(2) by (auto simp: name_conn_def rbind_Inr)
  have u: "unindexed st1" by (rule GetProcName_unindexed [OF assms(1) n])
  show ?thesis
  proof (cases nm)
    case (Some m)
    obtain i st2 where a: "GetAppID m st1 = (i, st2)" by fastforce
    have "st' = upd_conn k (\<lambda>c. c\<lparr>c_appid := i\<rparr>) st2" using r Some a by simp
    then show ?thesis using GetAppID_unindexed [OF u a] by (simp add: upd_unindexed)
  qed (use r u in simp)
qed (use assms in \<open>simp add: name_conn_def\<close>)

lemma CleanConnectionInfo_unindexed:
  assumes "unindexed st"
  shows "unindexed (CleanConnectionInfo curSec st)"
    and "\<forall>c \<in> set (active (CleanConnectionInfo curSec st)). live c"
proof -
  have t: "s_nConns st \<le> length (s_conns st)" "length (s_conns st) = MAX_CONNS" "s_nConns st \<le> MAX_CONNS"
    and p: "\<forall>c \<in> set (active st). 0 \<le> c_localPort c \<and> c_localPort c \<le> 65535"
    using assms by (auto simp: unindexed_def table_ok_def)
  have c: "live x \<and> x \<in> set (active st)" if "x \<in> set (active (CleanConnectionInfo curSec st))" for x
    using active_clean [OF t(1), of curSec] that by blast
  then show "\<forall>c \<in> set (active (CleanConnectionInfo curSec st)). live c" by blast
  define cs where "cs = fold (clean_at curSec) [0..<s_nConns st] (s_conns st)"
  define kept where "kept = filter live (take (s_nConns st) cs)"
  have l: "length cs = MAX_CONNS"
    unfolding cs_def using cleanedD(1) [OF cleaned_fold [OF t(1)]] t(2) by simp
  have k: "length kept \<le> s_nConns st"
    unfolding kept_def by (rule le_trans [OF length_filter_le]) simp
  have e: "CleanConnectionInfo curSec st =
      st\<lparr>s_conns := kept @ drop (length kept) cs, s_nConns := length kept\<rparr>"
    by (simp add: CleanConnectionInfo_def cs_def kept_def Let_def)
  have "table_ok (CleanConnectionInfo curSec st)"
    unfolding table_ok_def using c p l k t(3) by (auto simp: e)
  then show "unindexed (CleanConnectionInfo curSec st)" using assms by (simp add: unindexed_def e)
qed

section \<open>Building the indexes\<close>

text \<open>What both indexes do with one connection, whose slot is \<open>p\<close>.\<close>

definition slot_step :: "nat \<Rightarrow> nat \<Rightarrow> (nat \<Rightarrow> int) \<times> nat list \<Rightarrow> (nat \<Rightarrow> int) \<times> nat list" where
  "slot_step i p = (\<lambda>(t, ps). if t p = - 1 then (t(p := int i), ps @ [p]) else (t(p := - 2), ps))"

definition slots_ok :: "(conn \<Rightarrow> nat) \<Rightarrow> conn list \<Rightarrow> (nat \<Rightarrow> int) \<times> nat list \<Rightarrow> bool" where
  "slots_ok f cs x \<longleftrightarrow> (\<forall>p. fst x p = slot_of f cs p) \<and>
     (\<forall>p. fst x p \<noteq> - 1 \<longrightarrow> p \<in> set (snd x)) \<and> length (snd x) \<le> length cs"

lemma slot_step_ok: "slots_ok f cs x \<Longrightarrow> slots_ok f (cs @ [c]) (slot_step (length cs) (f c) x)"
  by (cases x) (auto simp: slots_ok_def slot_step_def slot_of_snoc)

lemma port_entry_step:
  assumes t: "table_ok st" and i: "i < s_nConns st" and a: "live (s_conns st ! i)"
    and l: "length (s_portset st) \<le> i"
    and x: "x = slot_step i (port_key (s_conns st ! i)) (s_port st, s_portset st)"
  shows "port_entry i st = Inr (st\<lparr>s_port := fst x, s_portset := snd x\<rparr>)"
proof -
  have "0 \<le> c_localPort (s_conns st ! i)" "c_localPort (s_conns st ! i) \<le> 65535" "i < MAX_CONNS"
    using t active_mem [OF t i] i by (auto simp: table_ok_def)
  then show ?thesis using a l unfolding x
    by (cases "s_port st (nat (c_localPort (s_conns st ! i))) = - 1")
      (simp_all add: port_entry_def slot_step_def port_key_def Let_def)
qed

lemma ip_entry_step:
  assumes t: "table_ok st" and i: "i < s_nConns st" and a: "live (s_conns st ! i)"
    and l: "length (s_ipset st) \<le> i"
    and x: "x = slot_step i (ip_key (s_conns st ! i)) (s_ip st, s_ipset st)"
  shows "ip_entry i st = Inr (st\<lparr>s_ip := fst x, s_ipset := snd x\<rparr>)"
proof -
  have "i < MAX_CONNS" using t i by (auto simp: table_ok_def)
  then show ?thesis using a l unfolding x
    by (cases "s_ip st (IPHASH (c_remoteIP (s_conns st ! i))) = - 1")
      (simp_all add: ip_entry_def slot_step_def ip_key_def Let_def)
qed

lemma take_active: "table_ok st \<Longrightarrow> i < s_nConns st \<Longrightarrow>
    take (Suc i) (active st) = take i (active st) @ [s_conns st ! i] \<and> length (take i (active st)) = i"
  by (simp add: take_Suc_conv_app_nth length_active active_nth)

lemma each_upto:
  assumes "\<And>i s. i < n \<Longrightarrow> I i s \<Longrightarrow> \<exists>s'. f i s = Inr s' \<and> I (Suc i) s'"
  shows "m \<le> n \<Longrightarrow> I m s \<Longrightarrow> \<exists>s'. each f [m..<n] s = Inr s' \<and> I n s'"
proof (induction "n - m" arbitrary: m s)
  case (Suc d)
  then have m: "m < n" by simp
  obtain s1 where s1: "f m s = Inr s1" "I (Suc m) s1" using assms [OF m Suc.prems(2)] by blast
  have "d = n - Suc m" using Suc.hyps(2) by simp
  from Suc.hyps(1) [OF this _ s1(2)] m show ?case using s1(1) by (simp add: upt_conv_Cons)
qed simp

definition ports_upto :: "sock \<Rightarrow> nat \<Rightarrow> sock \<Rightarrow> bool" where
  "ports_upto st0 i st \<longleftrightarrow> (\<exists>x. st = st0\<lparr>s_port := fst x, s_portset := snd x\<rparr> \<and>
     slots_ok port_key (take i (active st0)) x)"

definition ips_upto :: "sock \<Rightarrow> nat \<Rightarrow> sock \<Rightarrow> bool" where
  "ips_upto st0 i st \<longleftrightarrow> (\<exists>x. st = st0\<lparr>s_ip := fst x, s_ipset := snd x\<rparr> \<and>
     slots_ok ip_key (take i (active st0)) x)"

lemma slots_ok_start: "slots_ok f [] (\<lambda>_. - 1, [])"
  by (simp add: slots_ok_def)

lemma port_index:
  assumes t: "table_ok st" and a: "\<forall>c \<in> set (active st). live c"
    and e: "s_port st = (\<lambda>_. - 1)" "s_portset st = []"
  shows "\<exists>st'. UpdatePort2Connid st = Inr st' \<and> ports_upto st (s_nConns st) st'"
proof -
  have s0: "ports_upto st 0 st"
    unfolding ports_upto_def using e slots_ok_start by (intro exI [of _ "(\<lambda>_. - 1, [])"]) simp
  have step: "\<exists>s'. port_entry i s = Inr s' \<and> ports_upto st (Suc i) s'"
    if i: "i < s_nConns st" and s: "ports_upto st i s" for i s
  proof -
    obtain x where x: "s = st\<lparr>s_port := fst x, s_portset := snd x\<rparr>" "slots_ok port_key (take i (active st)) x"
      using s by (auto simp: ports_upto_def)
    have A: "table_ok s" "i < s_nConns s" "live (s_conns s ! i)" "length (s_portset s) \<le> i"
      using t i a active_mem [OF t i] x(2) take_active [OF t i]
      by (auto simp: x(1) table_ok_def active_def slots_ok_def)
    let ?y = "slot_step i (port_key (s_conns st ! i)) x"
    have "port_entry i s = Inr (st\<lparr>s_port := fst ?y, s_portset := snd ?y\<rparr>)"
      using port_entry_step [OF A refl] by (simp add: x(1))
    moreover have "slots_ok port_key (take (Suc i) (active st)) ?y"
      using slot_step_ok [OF x(2), of "s_conns st ! i"] take_active [OF t i] by simp
    ultimately show ?thesis unfolding ports_upto_def by blast
  qed
  from each_upto [where I = "ports_upto st" and f = port_entry, OF step le0 s0]
  show ?thesis using e by (simp add: UpdatePort2Connid_def)
qed

lemma ip_index:
  assumes t: "table_ok st" and a: "\<forall>c \<in> set (active st). live c"
    and e: "s_ip st = (\<lambda>_. - 1)" "s_ipset st = []"
  shows "\<exists>st'. UpdateIP2Connid st = Inr st' \<and> ips_upto st (s_nConns st) st'"
proof -
  have s0: "ips_upto st 0 st"
    unfolding ips_upto_def using e slots_ok_start by (intro exI [of _ "(\<lambda>_. - 1, [])"]) simp
  have step: "\<exists>s'. ip_entry i s = Inr s' \<and> ips_upto st (Suc i) s'"
    if i: "i < s_nConns st" and s: "ips_upto st i s" for i s
  proof -
    obtain x where x: "s = st\<lparr>s_ip := fst x, s_ipset := snd x\<rparr>" "slots_ok ip_key (take i (active st)) x"
      using s by (auto simp: ips_upto_def)
    have A: "table_ok s" "i < s_nConns s" "live (s_conns s ! i)" "length (s_ipset s) \<le> i"
      using t i a active_mem [OF t i] x(2) take_active [OF t i]
      by (auto simp: x(1) table_ok_def active_def slots_ok_def)
    let ?y = "slot_step i (ip_key (s_conns st ! i)) x"
    have "ip_entry i s = Inr (st\<lparr>s_ip := fst ?y, s_ipset := snd ?y\<rparr>)"
      using ip_entry_step [OF A refl] by (simp add: x(1))
    moreover have "slots_ok ip_key (take (Suc i) (active st)) ?y"
      using slot_step_ok [OF x(2), of "s_conns st ! i"] take_active [OF t i] by simp
    ultimately show ?thesis unfolding ips_upto_def by blast
  qed
  from each_upto [where I = "ips_upto st" and f = ip_entry, OF step le0 s0]
  show ?thesis using e by (simp add: UpdateIP2Connid_def)
qed

lemma refresh_indexed:
  assumes "table_ok st" and "listed st" and "UpdateProcessSocketInfo env curSec st = Inr st'"
  shows "indexed st'"
proof -
  obtain s6 where u6: "unindexed s6"
    and r: "rbind (UpdatePort2Connid (CleanConnectionInfo curSec s6)) UpdateIP2Connid = Inr st'"
  proof -
    obtain s1 s2 s3 s4 s5 s6 where
      s1: "ReadConnections (pe_tcp env) PROT_TCP curSec (Init st) = Inr s1" and
      s2: "ReadConnections (pe_tcp6 env) PROT_TCP curSec s1 = Inr s2" and
      s3: "ReadConnections (pe_udp env) PROT_UDP curSec s2 = Inr s3" and
      s4: "ReadConnections (pe_udp6 env) PROT_UDP curSec s3 = Inr s4" and
      s5: "AttachProcessInfo env s4 = Inr s5" and s6: "UpdateNames env s5 = Inr s6" and
      rest: "rbind (UpdatePort2Connid (CleanConnectionInfo curSec s6)) UpdateIP2Connid = Inr st'"
      using assms(3) unfolding UpdateProcessSocketInfo_def by (auto simp: rbind_Inr)
    have "unindexed s5"
      using Init_unindexed [OF assms(1,2)] s1 s2 s3 s4 s5
      by (blast dest: ReadConnections_unindexed AttachProcessInfo_unindexed)
    then have "unindexed s6"
      using each_inv [of "name_conn env" _ s5 s6 unindexed] name_conn_unindexed s6
      unfolding UpdateNames_def by blast
    then show thesis using rest by (rule that)
  qed
  let ?s = "CleanConnectionInfo curSec s6"
  note c = CleanConnectionInfo_unindexed [OF u6, of curSec]
  have t: "table_ok ?s" using c(1) by (simp add: unindexed_def)
  obtain s7 x where s7: "UpdatePort2Connid ?s = Inr s7" "s7 = ?s\<lparr>s_port := fst x, s_portset := snd x\<rparr>"
    "slots_ok port_key (active ?s) x"
    using port_index [OF t c(2)] c(1) length_active [OF t] by (auto simp: unindexed_def ports_upto_def)
  have A: "active s7 = active ?s" "table_ok s7" "s_nConns s7 = s_nConns ?s" "s_ip s7 = s_ip ?s" "s_ipset s7 = s_ipset ?s"
    using t by (simp_all add: s7(2) active_def table_ok_def)
  obtain y where y: "st' = s7\<lparr>s_ip := fst y, s_ipset := snd y\<rparr>" "slots_ok ip_key (active ?s) y"
    using ip_index [OF A(2)] c r s7(1) length_active [OF t] unfolding A
    by (auto simp: unindexed_def ips_upto_def A)
  have "active st' = active ?s" "table_ok st'"
    using A(1,2) by (simp_all add: y(1) active_def table_ok_def)
  then show ?thesis using c(2) s7(3) y(2) unfolding indexed_def listed_def
    by (simp add: y(1) s7(2) slots_ok_def)
qed

lemma indexed_refresh:
  "indexed st \<Longrightarrow> UpdateProcessSocketInfo env curSec st = Inr st' \<Longrightarrow> indexed st'"
  by (rule refresh_indexed) (auto simp: indexed_def)

text \<open>C35: a refresh of the table leaves both indexes right. Whatever \<open>/proc\<close> contains, when
  \<open>UpdateProcessSocketInfo\<close> returns, the slot of every local port and of every address hash holds
  \<open>-1\<close> if no connection has it, the connection if exactly one has, and \<open>-2\<close> otherwise; every
  connection of the table has an application, every slot in use is listed for the next \<open>Init\<close>, and
  what was listed before has been cleared.\<close>

theorem refresh_indexes:
  assumes "table_ok st" and "listed st" and "UpdateProcessSocketInfo env curSec st = Inr st'"
  shows "indexed st'"
  using assms by (rule refresh_indexed)

text \<open>A refresh of the initial state on a file system with one connection.\<close>

definition start_state :: sock where
  "start_state = \<lparr>s_conns = replicate MAX_CONNS \<lparr>c_localIP = 0, c_remoteIP = 0, c_localPort = 0,
       c_remotePort = 0, c_protocol = 0, c_iNode = 0, c_pid = 0, c_appid = 0, c_tv_sec = 0\<rparr>,
     s_nConns = 0, s_nConnsWithPID = 0, s_nNewConns = 0, s_procs = replicate MAX_PROCS (0, []),
     s_nProcs = 0, s_ino = (\<lambda>_ _. 0), s_port = (\<lambda>_. - 1), s_portset = [], s_ip = (\<lambda>_. - 1),
     s_ipset = [], s_apps = (\<lambda>_. []), s_nApps = 0, s_names = []\<rparr>"

definition one_conn_env :: proc_env where
  "one_conn_env = \<lparr>pe_tcp = Some [''header'', ''0: 0100007F:1F90 0200007F:0050 01 0:0 00:0 00 0 0 77''],
     pe_tcp6 = None, pe_udp = None, pe_udp6 = None, pe_dirs = Some [''9''],
     pe_fds = (\<lambda>p. Some [Some ''socket:[77]'']), pe_cmdline = (\<lambda>p. Some (Some ''ab''))\<rparr>"

lemma start_state_ok: "table_ok start_state" "listed start_state"
  by (simp_all add: start_state_def table_ok_def listed_def active_def)

lemma one_conn_refresh:
  "case UpdateProcessSocketInfo one_conn_env 100 start_state of
     Inl _ \<Rightarrow> False | Inr st' \<Rightarrow>
       s_port st' 8080 = 0 \<and> c_appid (s_conns st' ! 0) = 0 \<and> s_names st' = [''ab'']"
  by code_simp

theorem refresh_indexes_witness:
  "\<exists>st'. UpdateProcessSocketInfo one_conn_env 100 start_state = Inr st' \<and> s_port st' 8080 = 0 \<and> indexed st'"
proof (cases "UpdateProcessSocketInfo one_conn_env 100 start_state")
  case (Inr st')
  then show ?thesis using one_conn_refresh refresh_indexes [OF start_state_ok Inr] by simp
qed (use one_conn_refresh in simp)

section \<open>Attribution\<close>

definition same_peer :: "u32 \<Rightarrow> int \<Rightarrow> conn \<Rightarrow> bool" where
  "same_peer rip pr c \<longleftrightarrow> c_remoteIP c = rip \<and> c_protocol c = pr"

text \<open>How a packet may lead to entry \<open>k\<close>: the only one with its local port, the only one with the
  hash of its remote address, or one with its remote address and protocol.\<close>

definition leads_to :: "conn list \<Rightarrow> int \<Rightarrow> u32 \<Rightarrow> int \<Rightarrow> nat \<Rightarrow> bool" where
  "leads_to cs localPort remoteIP protocol k \<longleftrightarrow> k < length cs \<and>
     (port_key (cs ! k) = nat localPort \<and> (\<forall>j < length cs. port_key (cs ! j) = nat localPort \<longrightarrow> j = k) \<or>
      ip_key (cs ! k) = IPHASH remoteIP \<and> (\<forall>j < length cs. ip_key (cs ! j) = IPHASH remoteIP \<longrightarrow> j = k) \<or>
      same_peer remoteIP protocol (cs ! k))"

lemma slot_of_none: "slot_of f cs p = - 1 \<Longrightarrow> c \<in> set cs \<Longrightarrow> f c \<noteq> p"
  by (auto simp: slot_of_def filter_empty_conv in_set_conv_nth split: list.splits)

lemma slot_of_cases: "slot_of f cs p = - 1 \<or> slot_of f cs p = - 2 \<or> (\<exists>k. slot_of f cs p = int k)"
  by (auto simp: slot_of_def split: list.splits)

lemma search_from_Cons:
  "search_from cs (i # is) rp rip pr best =
     (if c_appid (cs ! i) = - 1 then Inl SockExit
      else if c_remotePort (cs ! i) = rp \<and> same_peer rip pr (cs ! i) then Inr (Some i)
      else search_from cs is rp rip pr (if same_peer rip pr (cs ! i) then Some i else best))"
  by (simp add: same_peer_def Let_def)

lemma search_from_result:
  "search_from cs is rp rip pr best = Inr r \<Longrightarrow>
     (case r of
        None \<Rightarrow> best = None \<and> (\<forall>i \<in> set is. \<not> same_peer rip pr (cs ! i))
      | Some k \<Rightarrow> best = Some k \<or> k \<in> set is \<and> same_peer rip pr (cs ! k))"
proof (induction "is" arbitrary: best)
  case (Cons i "is")
  let ?best = "if same_peer rip pr (cs ! i) then Some i else best"
  consider "r = Some i" "same_peer rip pr (cs ! i)" | "search_from cs is rp rip pr ?best = Inr r"
    using Cons.prems unfolding search_from_Cons by (metis Inl_Inr_False Inr_inject)
  then show ?case
  proof cases
    case 2
    show ?thesis using Cons.IH [OF 2] by (cases "same_peer rip pr (cs ! i)") (auto split: option.splits)
  qed simp
qed (simp split: option.splits)

lemma SearchForConn_result:
  assumes t: "table_ok st" and r: "SearchForConn st rp rip pr = Inr r"
  shows "case r of
      None \<Rightarrow> \<forall>c \<in> set (active st). \<not> same_peer rip pr c
    | Some k \<Rightarrow> k < s_nConns st \<and> same_peer rip pr (s_conns st ! k)"
proof (cases r)
  case None
  then show ?thesis using search_from_result [OF r [unfolded SearchForConn_def]]
    by (auto simp: in_set_conv_nth active_nth [OF t] length_active [OF t] Ball_def)
next
  case (Some k)
  then show ?thesis using search_from_result [OF r [unfolded SearchForConn_def]] by simp
qed

lemma hit_indexed:
  assumes ix: "indexed st" and k: "k < s_nConns st"
  shows "indexed (snd (hit k curSec st))"
proof -
  let ?f = "\<lambda>c. c\<lparr>c_tv_sec := curSec\<rparr>" and ?st = "snd (hit k curSec st)"
  have t: "table_ok st" using ix by (simp add: indexed_def)
  then have k': "k < MAX_CONNS" "k < length (active st)" using k length_active [OF t] by (auto simp: table_ok_def)
  have A: "active ?st = (active st)[k := ?f (active st ! k)]"
    using active_upd [OF t k'(1)] k by (simp add: hit_def)
  have s: "slot_of f (active ?st) p = slot_of f (active st) p" if "\<And>c. f (?f c) = f c" for f p
    by (rule slot_of_cong) (use that k'(2) in \<open>simp_all add: A nth_list_update\<close>)
  have "table_ok ?st" using upd_table_ok [OF t, of ?f k] by (simp add: hit_def)
  moreover have "listed ?st" using ix by (simp add: indexed_def listed_def hit_def upd_conn_def)
  moreover have "live c" if "c \<in> set (active ?st)" for c
  proof -
    have "c \<in> set (active st) \<or> c = ?f (active st ! k)" using that set_update_subset_insert unfolding A by fast
    then show ?thesis using ix k'(2) by (auto simp: indexed_def)
  qed
  moreover have "s_port ?st = s_port st" "s_ip ?st = s_ip st" by (simp_all add: hit_def upd_conn_def)
  ultimately show ?thesis using ix s [of port_key] s [of ip_key]
    by (simp add: indexed_def port_key_def ip_key_def)
qed

text \<open>What one look at the table finds, and what it means that it finds nothing.\<close>

lemma lookup_conn_found:
  assumes ix: "indexed st" and l: "lookup_conn fresh lp rp rip pr curSec st = Inr (Some x)"
  shows "\<exists>k. leads_to (active st) lp rip pr k \<and> usable fresh curSec st k \<and> x = hit k curSec st"
proof -
  have t: "table_ok st" and p: "s_port st p = slot_of port_key (active st) p"
    and h: "s_ip st p = slot_of ip_key (active st) p" for p
    using ix by (auto simp: indexed_def)
  let ?u = "usable fresh curSec st"
  consider (port) "s_port st (nat lp) \<ge> 0" "?u (nat (s_port st (nat lp)))"
    | (ip) "s_ip st (IPHASH rip) \<ge> 0" "?u (nat (s_ip st (IPHASH rip)))"
    | (none) "\<not> (s_port st (nat lp) \<ge> 0 \<and> ?u (nat (s_port st (nat lp))))"
        "\<not> (s_ip st (IPHASH rip) \<ge> 0 \<and> ?u (nat (s_ip st (IPHASH rip))))"
    by blast
  then consider k where "s_port st (nat lp) = int k" "?u k" "x = hit k curSec st"
    | k where "s_ip st (IPHASH rip) = int k" "?u k" "x = hit k curSec st"
    | k where "SearchForConn st rp rip pr = Inr (Some k)" "?u k" "x = hit k curSec st"
  proof cases
    case port
    then show thesis using that(1) [of "nat (s_port st (nat lp))"] l by (simp add: lookup_conn_def Let_def)
  next
    case ip
    show thesis
    proof (cases "s_port st (nat lp) \<ge> 0 \<and> ?u (nat (s_port st (nat lp)))")
      case True
      then show thesis using that(1) [of "nat (s_port st (nat lp))"] l by (simp add: lookup_conn_def Let_def)
    next
      case False
      then have "x = hit (nat (s_ip st (IPHASH rip))) curSec st"
        using ip l unfolding lookup_conn_def Let_def if_not_P [OF False] by simp
      then show thesis using that(2) [of "nat (s_ip st (IPHASH rip))"] ip by simp
    qed
  next
    case none
    then obtain r where "SearchForConn st rp rip pr = Inr r"
      "(case r of Some k \<Rightarrow> Inr (if ?u k then Some (hit k curSec st) else None) | None \<Rightarrow> Inr None) =
        (Inr (Some x) :: sock_error + (int \<times> sock) option)"
      using l by (simp add: lookup_conn_def Let_def rbind_Inr split: if_splits) blast
    then show thesis using that(3) by (auto split: option.splits if_splits)
  qed
  then show ?thesis
  proof cases
    case (1 k)
    have "leads_to (active st) lp rip pr k"
      unfolding leads_to_def using slot_of_hit [OF 1(1) [unfolded p]] by blast
    then show ?thesis using 1 by blast
  next
    case (2 k)
    have "leads_to (active st) lp rip pr k"
      unfolding leads_to_def using slot_of_hit [OF 2(1) [unfolded h]] by blast
    then show ?thesis using 2 by blast
  next
    case (3 k)
    have "leads_to (active st) lp rip pr k"
      using SearchForConn_result [OF t 3(1)] by (simp add: leads_to_def active_nth [OF t] length_active [OF t])
    then show ?thesis using 3 by blast
  qed
qed

lemma slot_of_only:
  assumes "k < length cs" and "f (cs ! k) = p" and "\<forall>j < length cs. f (cs ! j) = p \<longrightarrow> j = k"
  shows "slot_of f cs p = int k"
proof -
  have one: "k < n \<Longrightarrow> filter (\<lambda>i. i = k) [0..<n] = [k]" for n
    by (induction n) (auto simp: less_Suc_eq)
  have "filter (\<lambda>i. f (cs ! i) = p) [0..<length cs] = filter (\<lambda>i. i = k) [0..<length cs]"
  proof (rule filter_cong [OF refl])
    show "(f (cs ! i) = p) = (i = k)" if "i \<in> set [0..<length cs]" for i using assms(2,3) that by auto
  qed
  then show ?thesis using one [OF assms(1)] by (simp add: slot_of_def)
qed

lemma lookup_conn_not_found:
  assumes ix: "indexed st" and l: "lookup_conn True lp rp rip pr curSec st = Inr None"
  shows "\<not> leads_to (active st) lp rip pr k"
proof
  assume k: "leads_to (active st) lp rip pr k"
  have t: "table_ok st" and p: "s_port st (nat lp) = slot_of port_key (active st) (nat lp)"
    and h: "s_ip st (IPHASH rip) = slot_of ip_key (active st) (IPHASH rip)"
    using ix by (auto simp: indexed_def)
  have kl: "k < length (active st)" using k by (simp add: leads_to_def)
  have np: "s_port st (nat lp) < 0" and nh: "s_ip st (IPHASH rip) < 0"
    using l by (simp_all add: lookup_conn_def usable_def Let_def not_le [symmetric] split: if_splits)
  have peer: "same_peer rip pr (active st ! k)"
  proof (rule ccontr)
    assume "\<not> same_peer rip pr (active st ! k)"
    then have "s_port st (nat lp) = int k \<or> s_ip st (IPHASH rip) = int k"
      using k slot_of_only [OF kl, of port_key "nat lp"] slot_of_only [OF kl, of ip_key "IPHASH rip"]
      by (auto simp: leads_to_def p h)
    then show False using np nh by auto
  qed
  have mem: "active st ! k \<in> set (active st)" using kl by simp
  have "ip_key (active st ! k) = IPHASH rip" using peer by (simp add: ip_key_def same_peer_def)
  then have "s_ip st (IPHASH rip) = - 2"
    using slot_of_none [of ip_key "active st" "IPHASH rip", OF _ mem] slot_of_cases [of ip_key "active st" "IPHASH rip"] nh h by auto
  then have "SearchForConn st rp rip pr = Inr None"
    using l np by (auto simp: lookup_conn_def usable_def Let_def rbind_Inr split: if_splits option.splits)
  from SearchForConn_result [OF t this] show False using peer mem by simp
qed

text \<open>The indexes are exact when a capture starts; a change of the bearer leaves them as they were and forgets the table.\<close>

lemma StartCapture_indexed: "length (s_conns st) = MAX_CONNS \<Longrightarrow> indexed (StartCapture 0 st)"
  by (simp add: indexed_def table_ok_def listed_def active_def StartCapture_def)

lemma StartCapture_refreshable:
  assumes "table_ok st" and "listed st"
  shows "table_ok (StartCapture b st) \<and> listed (StartCapture b st)"
  using assms by (auto simp: table_ok_def listed_def active_def StartCapture_def)

lemma bearer_change_stale:
  assumes "indexed st" and "s_port st (nat lp) = int k" and "curSec < c_tv_sec (s_conns st ! k) + TIMEOUT" and "b > 0"
  shows "\<exists>st'. UpdatePacket_Core env lp lip rp rip pr curSec (StartCapture b st) = Inr (c_appid (s_conns st ! k), st') \<and> active st' = []"
  using assms(2-4) by (simp add: UpdatePacket_Core_def lookup_conn_def usable_def Let_def hit_def upd_conn_def active_def StartCapture_def)

text \<open>C34: packets are attributed to connections of the table. As long as the indexes are exact - from the start of a capture or
  from a refresh of the table on, until the bearer changes - \<open>UpdatePacket_Core\<close> keeps them so; an application id it returns is that
  of an entry to which the packet leads and which it dates to the packet's second; and it returns \<open>-1\<close> only after reading the table
  again, when the packet leads to no entry of the new table: none is the only one with its local port, none the only one with the hash of
  its remote address, and none has its remote address and protocol.\<close>

theorem packet_attribution:
  assumes "indexed st" and "UpdatePacket_Core env lp lip rp rip pr curSec st = Inr (a, st')"
  shows "indexed st' \<and>
    (if a = - 1
     then UpdateProcessSocketInfo env curSec st = Inr st' \<and>
       (\<nexists>k. leads_to (active st') lp rip pr k)
     else \<exists>k. leads_to (active st') lp rip pr k \<and> c_appid (active st' ! k) = a \<and>
       c_tv_sec (active st' ! k) = curSec)"
proof -
  have found: ?thesis if ix: "indexed s" and l: "lookup_conn b lp rp rip pr curSec s = Inr (Some (a, st'))" for b s
  proof -
    obtain k where k: "leads_to (active s) lp rip pr k" "hit k curSec s = (a, st')"
      using lookup_conn_found [OF ix l] by metis
    have t: "table_ok s" using ix by (simp add: indexed_def)
    have kn: "k < s_nConns s" using k(1) length_active [OF t] by (simp add: leads_to_def)
    let ?c = "active s ! k"
    have st': "st' = upd_conn k (\<lambda>c. c\<lparr>c_tv_sec := curSec\<rparr>) s" and a: "a = c_appid ?c"
      using k(2) active_nth [OF t kn] by (simp_all add: hit_def)
    have "a \<noteq> - 1" using ix active_mem [OF t kn] unfolding a indexed_def active_nth [OF t kn] by blast
    moreover have A: "active st' = (active s)[k := ?c\<lparr>c_tv_sec := curSec\<rparr>]"
      using active_upd [OF t, of k] t kn unfolding st' by (simp add: table_ok_def)
    have "leads_to (active st') lp rip pr k"
      using k(1) unfolding A leads_to_def port_key_def ip_key_def same_peer_def
      by (auto simp: nth_list_update)
    moreover have "k < length (active s)" using k(1) by (simp add: leads_to_def)
    moreover have "indexed st'" using hit_indexed [OF ix kn, of curSec] k(2) by simp
    ultimately show ?thesis by (auto simp: A a)
  qed
  consider "lookup_conn False lp rp rip pr curSec st = Inr (Some (a, st'))"
    | s where "UpdateProcessSocketInfo env curSec st = Inr s"
        "lookup_conn True lp rp rip pr curSec s = Inr (Some (a, st'))"
    | "UpdateProcessSocketInfo env curSec st = Inr st'"
        "lookup_conn True lp rp rip pr curSec st' = Inr None" "a = - 1"
  proof (cases "lookup_conn False lp rp rip pr curSec st")
    case (Inr r)
    show thesis
    proof (cases r)
      case None
      then have "rbind (UpdateProcessSocketInfo env curSec st) (\<lambda>s.
          rbind (lookup_conn True lp rp rip pr curSec s) (\<lambda>r1.
            case r1 of Some x \<Rightarrow> Inr x | None \<Rightarrow> Inr (- 1, s))) = Inr (a, st')"
        using assms(2) Inr unfolding UpdatePacket_Core_def by simp
      then obtain s r1 where "UpdateProcessSocketInfo env curSec st = Inr s"
        "lookup_conn True lp rp rip pr curSec s = Inr r1"
        "(case r1 of Some x \<Rightarrow> Inr x | None \<Rightarrow> Inr (- 1, s)) = (Inr (a, st') :: sock_error + int \<times> sock)"
        unfolding rbind_Inr by blast
      then show thesis using that(2,3) by (cases r1) auto
    qed (use assms(2) Inr that(1) in \<open>simp add: UpdatePacket_Core_def\<close>)
  qed (use assms(2) in \<open>simp add: UpdatePacket_Core_def\<close>)
  then show ?thesis
  proof cases
    case 1
    then show ?thesis by (rule found [OF assms(1)])
  next
    case (2 s)
    show ?thesis by (rule found [OF indexed_refresh [OF assms(1) 2(1)] 2(2)])
  next
    case 3
    then have ix: "indexed st'" using indexed_refresh [OF assms(1)] by blast
    show ?thesis using ix lookup_conn_not_found [OF ix 3(2)] 3 by auto
  qed
qed

theorem packet_attribution_witness:
  "\<exists>st'. UpdatePacket_Core one_conn_env 8080 1 80 2 6 100 start_state = Inr (0, st') \<and> indexed st' \<and>
     (\<exists>k. leads_to (active st') 8080 2 6 k \<and> c_appid (active st' ! k) = 0 \<and>
       c_tv_sec (active st' ! k) = 100)"
proof -
  have ix: "indexed start_state"
    using start_state_ok by (simp add: indexed_def) (simp add: start_state_def active_def)
  obtain s where s: "UpdateProcessSocketInfo one_conn_env 100 start_state = Inr s" "s_port s 8080 = 0"
    "c_appid (s_conns s ! 0) = 0"
    using one_conn_refresh by (auto split: sum.splits)
  have "lookup_conn False 8080 80 2 6 100 start_state = Inr None"
    by (simp add: lookup_conn_def start_state_def)
  moreover have "lookup_conn True 8080 80 2 6 100 s = Inr (Some (hit 0 100 s))"
    using s(2) by (simp add: lookup_conn_def usable_def)
  ultimately have u: "UpdatePacket_Core one_conn_env 8080 1 80 2 6 100 start_state = Inr (0, snd (hit 0 100 s))"
    using s by (simp add: UpdatePacket_Core_def hit_def)
  show ?thesis using packet_attribution [OF ix u] u by auto
qed

section \<open>Inodes of late connections\<close>

text \<open>An entry of an inode bin is a byte, so the entries from 256 on are unknown to the bins.\<close>

lemma unat_u8_less: "unat (b :: u8) < 256"
  using unsigned_less [of b] by simp

lemma bin_ids_less: "k \<in> set (bin_ids st h) \<Longrightarrow> k < 256"
  by (auto simp: bin_ids_def unat_u8_less)

lemma proc_link_late:
  assumes "k \<ge> 256"
  shows "s_conns (proc_link pid lnk st) ! k = s_conns st ! k"
proof -
  have "s_conns (upd_conn j f st') ! k = s_conns st' ! k" if "j < 256" for j f st'
    using assms that by (simp add: upd_conn_def)
  moreover have "j < 256" if "find P (bin_ids st h) = Some j" for P h j
    using that bin_ids_less by (auto dest: find_SomeD)
  ultimately show ?thesis by (simp add: proc_link_def split: option.splits)
qed

text \<open>Connections from the 257th on never get a process. Whatever \<open>/proc\<close> answers,
  \<open>AttachProcessInfo\<close> leaves the entries whose index does not fit the \<open>BYTE\<close> of \<open>iNode2connid\<close> as
  they were read, with the process id \<open>-1\<close>, although the table has room for 512.\<close>

theorem late_connections_unattached:
  assumes "AttachProcessInfo env st = Inr st'" and "k \<ge> 256"
  shows "s_conns st' ! k = s_conns st ! k"
proof -
  have "s_conns (fold (proc_link pid) ls s) ! k = s_conns s ! k" for pid ls s
    by (induction ls arbitrary: s) (simp_all add: proc_link_late [OF assms(2)])
  then have "s_conns (ReadProcFD env pid s) ! k = s_conns s ! k" for pid s
    by (simp add: ReadProcFD_def split: option.splits)
  then have "s_conns (attach_loop env pids s) ! k = s_conns s ! k" for pids s
    by (induction pids arbitrary: s) (simp_all add: Let_def)
  then show ?thesis using assms(1) by (auto simp: AttachProcessInfo_def Let_def split: if_splits)
qed

theorem late_connections_unattached_witness:
  "\<exists>st'. AttachProcessInfo one_conn_env (start_state\<lparr>s_nConns := 300, s_nNewConns := 300\<rparr>) = Inr st' \<and>
     s_conns st' ! 299 = s_conns start_state ! 299"
proof -
  let ?s = "start_state\<lparr>s_nConns := 300, s_nNewConns := 300\<rparr>"
  have "filter (\<lambda>p. p \<noteq> - 1) (map GetProcessID [''9'']) = [9]"
    by (simp add: GetProcessID_def)
  then obtain st' where "AttachProcessInfo one_conn_env ?s = Inr st'"
    by (simp add: AttachProcessInfo_def one_conn_env_def)
  then show ?thesis using late_connections_unattached [of one_conn_env ?s st' 299] by simp
qed

section \<open>The packet parser\<close>

abbreviation (input) CAP_LINUX_STANDARD :: int where "CAP_LINUX_STANDARD \<equiv> 1"
abbreviation (input) CAP_LINUX_MMAP :: int where "CAP_LINUX_MMAP \<equiv> 2"
abbreviation (input) PACKET_UNKNOWN_DIR :: int where "PACKET_UNKNOWN_DIR \<equiv> - 2"
abbreviation (input) PACKET_ARP :: int where "PACKET_ARP \<equiv> - 3"
abbreviation (input) PACKET_UNKNOWN_IP_PROT :: int where "PACKET_UNKNOWN_IP_PROT \<equiv> - 4"
abbreviation (input) PACKET_UNKNOWN_ETHER_PROT :: int where "PACKET_UNKNOWN_ETHER_PROT \<equiv> - 5"

text \<open>Reads of the packet. The code tests no length, so a read past the captured bytes is
  \<open>OutOfBounds\<close>; words are little endian on the target.\<close>

definition byte_at :: "u8 list \<Rightarrow> nat \<Rightarrow> sock_error + nat" where
  "byte_at sp i = (case get_u8 sp i of None \<Rightarrow> Inl OutOfBounds | Some b \<Rightarrow> Inr (unat b))"

definition word_at :: "u8 list \<Rightarrow> nat \<Rightarrow> sock_error + int" where
  "word_at sp i = rbind (byte_at sp i) (\<lambda>b0. rbind (byte_at sp (i + 1)) (\<lambda>b1. Inr (int (b0 + 256 * b1))))"

definition dword_at :: "u8 list \<Rightarrow> nat \<Rightarrow> sock_error + u32" where
  "dword_at sp i =
     (if i + 4 \<le> length sp then Inr (be32 (sp ! (i + 3)) (sp ! (i + 2)) (sp ! (i + 1)) (sp ! i))
      else Inl OutOfBounds)"

definition swap16 :: "int \<Rightarrow> int" where
  "swap16 p = drop_bit 8 (p AND 0xFF00) OR push_bit 8 (p AND 0x00FF)"

text \<open>The link header: its length, or the code returned for a packet that is not IPv4.\<close>

definition link_header :: "u8 list \<Rightarrow> string \<Rightarrow> bool \<Rightarrow> sock_error + (int + nat)" where
  "link_header sp currentInterface bCooked =
     (if currentInterface = ''vsnet0''
      then rbind (byte_at sp 0) (\<lambda>b.
        Inr (if b \<noteq> 0x45 then Inl PACKET_UNKNOWN_ETHER_PROT else Inr 0))
      else
        (let base = (if bCooked then 2 else 0) in
         rbind (word_at sp (base + 12)) (\<lambda>etherProtocol.
           Inr (if etherProtocol \<noteq> 0x0008
                then Inl (if etherProtocol = 0x0608 then PACKET_ARP else PACKET_UNKNOWN_ETHER_PROT)
                else Inr (base + 14)))))"

text \<open>\<open>dstPort\<close> is computed from \<open>srcPort\<close> in the source; the word at the destination port is
  read and not used.\<close>

definition UpdatePacket ::
    "proc_env \<Rightarrow> int \<Rightarrow> int \<Rightarrow> u8 list \<Rightarrow> string \<Rightarrow> int \<Rightarrow> bool \<Rightarrow> sock \<Rightarrow> sock_error + int \<times> sock" where
  "UpdatePacket env captureMode tv_sec sp currentInterface dir bCooked st =
     (if captureMode \<noteq> CAP_LINUX_MMAP \<and> captureMode \<noteq> CAP_LINUX_STANDARD then Inl SockExit
      else rbind (link_header sp currentInterface bCooked) (\<lambda>lh.
        case lh of
          Inl code \<Rightarrow> Inr (code, st)
        | Inr ip \<Rightarrow>
            rbind (byte_at sp (ip + 9)) (\<lambda>protocol.
              if int protocol \<noteq> PROT_TCP \<and> int protocol \<noteq> PROT_UDP then Inr (PACKET_UNKNOWN_IP_PROT, st)
              else
                rbind (dword_at sp (ip + 12)) (\<lambda>srcIP.
                rbind (dword_at sp (ip + 16)) (\<lambda>dstIP.
                rbind (byte_at sp ip) (\<lambda>vhl.
                let offset = 4 * (vhl AND 0x0F) in
                rbind (word_at sp (ip + offset)) (\<lambda>sp0.
                rbind (word_at sp (ip + offset + 2)) (\<lambda>dp0.
                let srcPort = swap16 sp0; dstPort = swap16 srcPort in
                if dir = 1 then UpdatePacket_Core env srcPort srcIP dstPort dstIP (int protocol) tv_sec st
                else if dir = 2 then UpdatePacket_Core env dstPort dstIP srcPort srcIP (int protocol) tv_sec st
                else Inr (PACKET_UNKNOWN_DIR, st)))))))))"

lemma swap16_bytes:
  assumes "a < 256" and "b < 256"
  shows "swap16 (int (a + 256 * b)) = int (b + 256 * a)"
proof -
  have m: "(0xFF :: int) = mask 8" by (simp add: mask_eq_exp_minus_1)
  let ?x = "int (a + 256 * b)"
  have "drop_bit 8 (?x AND 0xFF00) = drop_bit 8 ?x AND mask 8"
    unfolding m [symmetric] drop_bit_and by simp
  also have "\<dots> = int b"
    using assms by (simp add: take_bit_eq_mask [symmetric] take_bit_eq_mod drop_bit_eq_div)
  finally have 1: "drop_bit 8 (?x AND 0xFF00) = int b" .
  have 2: "?x AND 0x00FF = int a"
    using assms unfolding m by (simp add: take_bit_eq_mask [symmetric] take_bit_eq_mod)
  have "int b OR push_bit 8 (int a) = int b + push_bit 8 (int a)"
  proof (rule disjunctive_add [symmetric])
    fix n
    have "int b = take_bit 8 (int b)" using assms(2) by (simp add: take_bit_eq_mod)
    then show "\<not> bit (int b) n \<or> \<not> bit (push_bit 8 (int a)) n"
      by (metis bit_push_bit_iff bit_take_bit_iff not_le)
  qed
  then show ?thesis unfolding swap16_def 1 2 by (simp add: push_bit_eq_mult)
qed

text \<open>The destination port never matters. For an Ethernet frame with a 20-byte IPv4 header the
  packet is looked up, whatever the two bytes of its destination port: an uplink packet with its own
  source port as the local port, a downlink packet with the byte-swapped source port - a remote
  port - in the place of the local one.\<close>

theorem destination_port_ignored:
  assumes "length eth = 14" "eth ! 12 = 8" "eth ! 13 = 0" and "length ip = 20" "ip ! 0 = 0x45"
    and "ip ! 9 = 6 \<or> ip ! 9 = 17" and "currentInterface \<noteq> ''vsnet0''"
    and "captureMode = 1 \<or> captureMode = 2"
  shows "let srcIP = be32 (ip ! 15) (ip ! 14) (ip ! 13) (ip ! 12);
      dstIP = be32 (ip ! 19) (ip ! 18) (ip ! 17) (ip ! 16);
      port = int (unat p1 + 256 * unat p0); swapped = int (unat p0 + 256 * unat p1);
      sp = eth @ ip @ [p0, p1, q0, q1] @ rest
    in UpdatePacket env captureMode sec sp currentInterface 1 False st =
         UpdatePacket_Core env port srcIP swapped dstIP (int (unat (ip ! 9))) sec st \<and>
       UpdatePacket env captureMode sec sp currentInterface 2 False st =
         UpdatePacket_Core env swapped dstIP port srcIP (int (unat (ip ! 9))) sec st"
proof -
  define srcIP where "srcIP = be32 (ip ! 15) (ip ! 14) (ip ! 13) (ip ! 12)"
  define dstIP where "dstIP = be32 (ip ! 19) (ip ! 18) (ip ! 17) (ip ! 16)"
  define port where "port = int (unat p1 + 256 * unat p0)"
  define swapped where "swapped = int (unat p0 + 256 * unat p1)"
  define sp where sp: "sp = eth @ ip @ [p0, p1, q0, q1] @ rest"
  have b: "sp ! 12 = 8" "sp ! 13 = 0" "sp ! (14 + k) = (ip @ [p0, p1, q0, q1] @ rest) ! k" for k
    using assms(1-3) by (simp_all add: sp nth_append)
  have i: "(ip @ [p0, p1, q0, q1] @ rest) ! k = ip ! k" if "k < 20" for k
    using that assms(4) by (simp add: nth_append)
  have len: "length sp = 38 + length rest" using assms(1,4) by (simp add: sp)
  have t: "(ip @ [p0, p1, q0, q1] @ rest) ! 20 = p0" "(ip @ [p0, p1, q0, q1] @ rest) ! 21 = p1"
    using assms(4) by (simp_all add: nth_append)
  have byte: "byte_at sp (14 + k) = Inr (unat (sp ! (14 + k)))" if "k < 24" for k
    using that len by (simp add: byte_at_def get_u8_def)
  have link: "link_header sp currentInterface False = Inr (Inr 14)"
    using assms(7) b(1,2) len by (simp add: link_header_def word_at_def byte_at_def get_u8_def)
  have prot: "byte_at sp 23 = Inr (unat (ip ! 9))" using byte [of 9] b(3) [of 9] i [of 9] by simp
  have src: "dword_at sp 26 = Inr srcIP"
    using len b(3) [of 12] b(3) [of 13] b(3) [of 14] b(3) [of 15] i [of 12] i [of 13] i [of 14] i [of 15]
    by (simp add: dword_at_def srcIP_def)
  have dst: "dword_at sp 30 = Inr dstIP"
    using len b(3) [of 16] b(3) [of 17] b(3) [of 18] b(3) [of 19] i [of 16] i [of 17] i [of 18] i [of 19]
    by (simp add: dword_at_def dstIP_def)
  have vhl: "byte_at sp 14 = Inr 0x45" using byte [of 0] b(3) [of 0] i [of 0] assms(5) by simp
  have sport: "word_at sp 34 = Inr swapped"
    using byte [of 20] byte [of 21] b(3) [of 20] b(3) [of 21] t by (simp add: word_at_def swapped_def)
  obtain d where dport: "word_at sp 36 = Inr d"
    using byte [of 22] byte [of 23] by (simp add: word_at_def)
  have off: "4 * ((0x45 :: nat) AND 0x0F) = 20" by simp
  have sw: "swap16 swapped = port" "swap16 port = swapped"
    using swap16_bytes [of "unat p0" "unat p1"] swap16_bytes [of "unat p1" "unat p0"]
      unat_u8_less [of p0] unat_u8_less [of p1] by (simp_all add: port_def swapped_def)
  have pr: "unat (ip ! 9) = 6 \<or> unat (ip ! 9) = 17" using assms(6) by auto
  show ?thesis
    using assms(8) pr
    unfolding Let_def sp [symmetric] srcIP_def [symmetric] dstIP_def [symmetric] port_def [symmetric] swapped_def [symmetric]
    by (auto simp: UpdatePacket_def link prot src dst vhl off sport dport sw Let_def)
qed

theorem destination_port_ignored_witness:
  "UpdatePacket one_conn_env 1 100
      ([0, 0, 0, 0, 0, 0, 0, 0, 0, 0, 0, 0, 8, 0] @
       [0x45, 0, 0, 0, 0, 0, 0, 0, 0, 6, 0, 0, 1, 2, 3, 4, 5, 6, 7, 8] @ [0x1F, 0x90, 0, 80] @ [])
      ''rmnet0'' 2 False start_state =
   UpdatePacket_Core one_conn_env 0x901F 0x08070605 0x1F90 0x04030201 6 100 start_state"
  using destination_port_ignored [where eth = "[0, 0, 0, 0, 0, 0, 0, 0, 0, 0, 0, 0, 8, 0]"
      and ip = "[0x45, 0, 0, 0, 0, 0, 0, 0, 0, 6, 0, 0, 1, 2, 3, 4, 5, 6, 7, 8]"
      and currentInterface = "''rmnet0''" and captureMode = 1 and ?p0.0 = "0x1F" and ?p1.0 = "0x90"
      and ?q0.0 = 0 and ?q1.0 = 80 and rest = "[]" and env = one_conn_env and sec = 100 and st = start_state]
  by (simp add: Let_def be32_def)

end
