(* ===== verification/Icode_Valid.thy ===== *)
theory Icode_Valid
  imports Icode
begin

text \<open>
  The programs \<open>icode_to_fcode\<close> returns are ones the validator accepts: every statement and branch
  is a legal instruction, every jump leads forward into the program, and its last instruction is a
  return. Hence a run of them returns.
\<close>

section \<open>Legal instructions\<close>

definition nonzero_div :: "stmt \<Rightarrow> bool" where
  "nonzero_div s \<longleftrightarrow> s_code s \<noteq> BPF_ALU OR BPF_DIV OR BPF_K \<or> s_k s \<noteq> 0"

definition divs_ok :: "graph \<Rightarrow> bool" where
  "divs_ok g \<longleftrightarrow> list_all (\<lambda>b. list_all nonzero_div (b_stmts b)) g"

definition forward_at :: "nat \<Rightarrow> bpf_insn \<Rightarrow> bool" where
  "forward_at i p \<longleftrightarrow> (decode (uint (i_code p)) = Some Ja \<longrightarrow> unat (of_nat (i + 1) + i_k p :: u32) \<ge> i + 1)"

definition insn_ok :: "nat \<Rightarrow> nat \<Rightarrow> bpf_insn \<Rightarrow> bool" where
  "insn_ok n i p \<longleftrightarrow> validate_insn n i p \<and> forward_at i p"

lemma forward_jumps_at: "forward_jumps f \<longleftrightarrow> (\<forall>i < length f. forward_at i (f ! i))"
  by (auto simp: forward_jumps_def forward_at_def list_all_iff)

lemma stmt_insn_ok:
  assumes "wf_stmt s" and "s_code s \<noteq> NOP" and "nonzero_div s"
  shows "insn_ok n i (insn_of s)"
proof -
  obtain m where m: "decode (s_code s) = Some m" "\<not> is_ctl m" using assms(1,2) by (elim wf_live_stmt)
  have k: "uses_mem m \<longrightarrow> unat (s_k s) < BPF_MEMWORDS" using assms(1,2) m(1) by (auto simp: wf_stmt_def)
  have c: "s_code s = opcode m" using m(1) by (simp add: decode_Some_iff)
  have u: "uint (i_code (insn_of s)) = opcode m" using decode_class(1) [OF m(1)] c by (simp add: insn_of_def)
  have "validate_insn n i (insn_of s)"
  proof (cases m)
    case (Alu a x)
    have "a = ADiv \<Longrightarrow> x = SrcK \<Longrightarrow> s_k s \<noteq> 0" using assms(3) c Alu by (simp add: nonzero_div_def)
    then show ?thesis unfolding validate_defs u Alu
      by (cases a; cases x) (simp_all add: insn_of_def)
  next
    case (LdAbs z)
    then show ?thesis unfolding validate_defs u by (cases z) simp_all
  next
    case (LdInd z)
    then show ?thesis unfolding validate_defs u by (cases z) simp_all
  qed (use m(2) k in \<open>simp_all add: validate_defs u, simp_all add: insn_of_def\<close>)
  moreover have "m \<noteq> Ja" using m(2) by auto
  ultimately show ?thesis using u m(1) c by (simp add: insn_ok_def forward_at_def)
qed

lemma zero_insn_ok: "insn_ok n i zero_insn"
  using decode_opcode [of "LdImm"] by (simp add: insn_ok_def forward_at_def validate_defs)

lemma ret_insn_ok:
  assumes "decode (s_code s) = Some m" and "m = RetK \<or> m = RetA"
  shows "insn_ok n i (insn_of s)" and "BPF_CLASS (uint (i_code (insn_of s))) = BPF_RET"
proof -
  have u: "uint (i_code (insn_of s)) = s_code s" using decode_class(1) [OF assms(1)] by (simp add: insn_of_def)
  have c: "s_code s = opcode m" using assms(1) by (simp add: decode_Some_iff)
  show r: "BPF_CLASS (uint (i_code (insn_of s))) = BPF_RET"
    unfolding u c using assms(2) by (elim disjE) (simp_all add: bpf_fields)
  have "decode (uint (i_code (insn_of s))) \<noteq> Some Ja" using assms u by auto
  then show "insn_ok n i (insn_of s)"
    unfolding insn_ok_def forward_at_def validate_insn_def Let_def r by simp
qed

text \<open>Branches and the jumps inserted after them.\<close>

lemma u32_to_target: "of_nat (i + 1) + (of_nat T - of_nat q - 1 - of_nat (i - q)) = (of_nat T :: u32)" if "q \<le> i"
proof -
  have "of_nat i = of_nat q + (of_nat (i - q) :: u32)" using that by (simp add: of_nat_diff)
  then show ?thesis by simp
qed

lemma ja_insn_ok:
  assumes "q \<le> i" and "i < T" and "T < n" and "n < 4294967296"
  shows "insn_ok n i (ja_insn (of_nat T - of_nat q - 1 - of_nat (i - q)))"
proof -
  have c: "uint (i_code (ja_insn d)) = opcode Ja" for d
    using decode_class(1) [of "BPF_JMP OR BPF_JA" Ja] decode_opcode [of Ja] by (simp add: ja_insn_def)
  have t: "of_nat (i + 1) + i_k (ja_insn (of_nat T - of_nat q - 1 - of_nat (i - q))) = (of_nat T :: u32)"
    using u32_to_target [OF assms(1), of T] by (simp only: ja_insn_def bpf_insn.simps)
  have "(of_nat T :: u32) < of_nat n" "unat (of_nat T :: u32) = T" using assms(3,4) by (simp_all add: u32_less_iff)
  then show ?thesis using assms(2)
    unfolding insn_ok_def forward_at_def validate_insn_def validate_jump_def Let_def c t by (simp add: bpf_fields not_le)
qed

text \<open>After the branch come its long jumps, then cleared entries.\<close>

lemma emit_branch_rest:
  assumes e: "emit_branch g l offs p slen = Inr bs"
    and jt: "JT g p = Some t" and jf: "JF g p = Some fl" and i: "0 < i" "i < length bs"
  shows "bs ! i = zero_insn \<or>
    (\<exists>k \<in> {t, fl}. bs ! i = ja_insn (branch_off offs (offs p + slen) k - of_nat i))"
proof -
  let ?o1 = "branch_off offs (offs p + slen) t" and ?o2 = "branch_off offs (offs p + slen) fl"
  obtain j where j: "i = Suc j" using i(1) by (cases i) auto
  have z: "(ex @ replicate n zero_insn) ! j = zero_insn \<or> (j < length ex \<and> (ex @ replicate n zero_insn) ! j = ex ! j)"
    if "j < length ex + n" for ex n using that by (auto simp: nth_append)
  have "\<exists>ex n. tl bs = ex @ replicate n zero_insn \<and>
      ex \<in> {[], [ja_insn (?o1 - 1)], [ja_insn (?o2 - 1)], [ja_insn (?o1 - 1), ja_insn (?o2 - 2)]}"
  proof (cases "256 \<le> ?o1"; cases "256 \<le> ?o2")
    assume o: "256 \<le> ?o1" "256 \<le> ?o2"
    then have "tl bs = [ja_insn (?o1 - 1), ja_insn (?o2 - 2)] @ replicate (longjt l p + longjf l p - 2) zero_insn"
      using e jt jf by (auto simp: emit_branch_def pad_to_def Let_def split: if_splits)
    then show ?thesis by (intro exI conjI) (assumption, simp)
  next
    assume o: "256 \<le> ?o1" "\<not> 256 \<le> ?o2"
    then have "tl bs = [ja_insn (?o1 - 1)] @ replicate (longjt l p + longjf l p - 1) zero_insn"
      using e jt jf by (auto simp: emit_branch_def pad_to_def Let_def split: if_splits)
    then show ?thesis by (intro exI conjI) (assumption, simp)
  next
    assume o: "\<not> 256 \<le> ?o1" "256 \<le> ?o2"
    then have "tl bs = [ja_insn (?o2 - 1)] @ replicate (longjt l p + longjf l p - 1) zero_insn"
      using e jt jf by (auto simp: emit_branch_def pad_to_def Let_def split: if_splits)
    then show ?thesis by (intro exI conjI) (assumption, simp)
  next
    assume o: "\<not> 256 \<le> ?o1" "\<not> 256 \<le> ?o2"
    then have "tl bs = [] @ replicate (longjt l p + longjf l p) zero_insn"
      using e jt jf by (auto simp: emit_branch_def pad_to_def Let_def split: if_splits)
    then show ?thesis by (intro exI conjI) (assumption, simp)
  qed
  then obtain ex n where b: "tl bs = ex @ replicate n zero_insn"
    and ex: "ex \<in> {[], [ja_insn (?o1 - 1)], [ja_insn (?o2 - 1)], [ja_insn (?o1 - 1), ja_insn (?o2 - 2)]}" by blast
  have "bs ! i = tl bs ! j" and l: "j < length (tl bs)" using i(2) j by (cases bs; simp)+
  then consider "bs ! i = zero_insn" | "j < length ex" "bs ! i = ex ! j" using z [of ex n] b by auto
  then show ?thesis
  proof cases
    case 2
    then show ?thesis using ex j by (auto simp: nth_Cons split: nat.splits)
  qed simp
qed

definition branch_flags :: "graph \<Rightarrow> longs \<Rightarrow> bool" where
  "branch_flags g l \<longleftrightarrow> (\<forall>p \<in> l_jt l \<union> l_jf l. JT g p \<noteq> None)"

lemma emit_branch_flags:
  assumes "emit_branch g l offs p slen = Inl (Retry l' offs')" and "branch_flags g l"
  shows "branch_flags g l'"
  using assms by (auto simp: emit_branch_def branch_flags_def Let_def split: option.splits if_splits)

lemma dir_valid:
  assumes d: "dir_ok bs (branch_off offs q t) j" and t: "offs t < n" and n: "n < 4294967296" and b: "q + length bs \<le> n"
  shows "of_nat (q + 1) + ucast j < (of_nat n :: u32)"
proof (cases "branch_off offs q t < 256")
  case True
  then have "unat (branch_off offs q t) < 256" by (simp add: u32_less_iff)
  then have "ucast (ucast (branch_off offs q t) :: u8) = branch_off offs q t"
    by (simp add: word_unat_eq_iff unsigned_ucast_eq take_bit_eq_mod unat_mod)
  then have "of_nat (q + 1) + ucast j = (of_nat (offs t) :: u32)"
    using d True by (simp add: dir_ok_def branch_off_def)
  then show ?thesis using t n by (simp add: u32_less_iff)
next
  case False
  then obtain m where m: "m < 2" "j = of_nat m" "m + 1 < length bs" using d by (auto simp: dir_ok_def)
  then have "ucast j = (of_nat m :: u32)" by (cases m) auto
  then have "of_nat (q + 1) + ucast j = (of_nat (q + 1 + m) :: u32)" by simp
  moreover have "(of_nat (q + 1 + m) :: u32) < of_nat n"
    using m(3) b n by (simp add: u32_less_iff del: of_nat_add of_nat_Suc)
  ultimately show ?thesis by (simp only:)
qed

lemma branch_insns_ok:
  assumes e: "emit_branch g l offs p slen = Inr bs" and g: "graph_ok g" "p < length g" "block_ok (g ! p)"
    and t: "\<And>k. k \<in> set (kids g p) \<Longrightarrow> offs p + slen + length bs \<le> offs k \<and> offs k < n"
    and n: "n < 4294967296" "offs p + slen + length bs \<le> n" and i: "i < length bs"
  shows "insn_ok n (offs p + slen + i) (bs ! i)"
proof (rule graph_ok_cases [OF g(1,2)])
  let ?q = "offs p + slen"
  assume jt: "JT g p = None"
  then obtain m where bs: "bs = insn_of (b_s (g ! p)) # replicate m zero_insn"
    using e by (auto simp: emit_branch_def Let_def pad_to_def)
  obtain r where "decode (s_code (b_s (g ! p))) = Some r" "r = RetK \<or> r = RetA"
    using g(3) jt by (auto simp: block_ok_def JT_def split: option.splits bpf_op.splits)
  then show ?thesis using ret_insn_ok(1) zero_insn_ok i bs by (cases i) auto
next
  fix t fl assume jt: "JT g p = Some t" and jf: "JF g p = Some fl" and k: "kids g p = [t, fl]"
  let ?q = "offs p + slen"
  obtain a b es where bs: "bs = (insn_of (b_s (g ! p)))\<lparr>i_jt := a, i_jf := b\<rparr> # es"
    and d: "dir_ok bs (branch_off offs ?q t) a" "dir_ok bs (branch_off offs ?q fl) b"
    by (rule emit_branch_shape [OF e jt jf])
  have tk: "?q + length bs \<le> offs k" "offs k < n" if "k \<in> {t, fl}" for k using t that k by auto
  show ?thesis
  proof (cases "i = 0")
    case True
    obtain j x where dec: "decode (s_code (b_s (g ! p))) = Some (Jmp j x)"
      using g(3) jt by (auto simp: block_ok_def JT_def split: option.splits bpf_op.splits)
    have c: "uint (i_code (bs ! 0)) = opcode (Jmp j x)"
      using decode_class(1) [OF dec] dec bs by (simp add: insn_of_def decode_Some_iff)
    have ab: "i_jt (bs ! 0) = a" "i_jf (bs ! 0) = b" using bs by simp_all
    have "of_nat (?q + 1) + ucast a < (of_nat n :: u32)" "of_nat (?q + 1) + ucast b < (of_nat n :: u32)"
      using dir_valid [OF d(1) _ n(1)] dir_valid [OF d(2) _ n(1)] tk n(2) by simp_all
    then have "validate_jump n ?q (bs ! 0)"
      unfolding validate_jump_def Let_def c ab by (cases j; cases x) (simp_all add: bpf_fields not_le)
    then have "validate_insn n ?q (bs ! 0)"
      unfolding validate_insn_def Let_def c by (cases j; cases x) (simp_all add: bpf_fields)
    then show ?thesis using True decode_opcode [of "Jmp j x"] by (simp add: insn_ok_def forward_at_def c)
  next
    case False
    then consider "bs ! i = zero_insn" | m where "m \<in> {t, fl}" "bs ! i = ja_insn (branch_off offs ?q m - of_nat i)"
      using emit_branch_rest [OF e jt jf _ i] by auto
    then show ?thesis
    proof cases
      case 1
      then show ?thesis using zero_insn_ok by simp
    next
      case (2 m)
      have "insn_ok n (?q + i) (ja_insn (of_nat (offs m) - of_nat ?q - 1 - of_nat (?q + i - ?q)))"
        by (rule ja_insn_ok) (use tk [OF 2(1)] i n in auto)
      then show ?thesis using 2(2) by (simp only: branch_off_def add_diff_cancel_left')
    qed
  qed
qed

section \<open>The layout\<close>

text \<open>The entries written so far, from \<open>cv_tail\<close> on.\<close>

definition valid_inv :: "nat \<Rightarrow> conv \<Rightarrow> bool" where
  "valid_inv n st \<longleftrightarrow> (\<forall>i. cv_tail st \<le> i \<longrightarrow> i < n \<longrightarrow> insn_ok n i (cv_code st ! i)) \<and>
     (cv_tail st < n \<longrightarrow> BPF_CLASS (uint (i_code (cv_code st ! (n - 1)))) = BPF_RET)"

lemma nth_blit:
  assumes "i + length ys \<le> length xs"
  shows "j < length ys \<Longrightarrow> blit xs i ys ! (i + j) = ys ! j"
    and "i + length ys \<le> k \<Longrightarrow> k < length xs \<Longrightarrow> blit xs i ys ! k = xs ! k"
  using assms by (auto simp: blit_def nth_append min_def)

text \<open>The entries of one block.\<close>

lemma block_insns_ok:
  assumes g: "graph_wf g" "p < length g" and d: "list_all nonzero_div (b_stmts (g ! p))"
    and e: "emit_branch g l offs p (slength (b_stmts (g ! p))) = Inr bs"
    and c: "is = map insn_of (live_stmts (b_stmts (g ! p))) @ bs"
    and t: "\<And>k. k \<in> set (kids g p) \<Longrightarrow> offs p + length is \<le> offs k \<and> offs k < n"
    and n: "n < 4294967296" "offs p + length is \<le> n" and i: "i < length is"
  shows "insn_ok n (offs p + i) (is ! i)"
proof -
  let ?ss = "live_stmts (b_stmts (g ! p))" and ?slen = "slength (b_stmts (g ! p))"
  have ok: "graph_ok g" "block_ok (g ! p)" using g by (auto simp: graph_wf_def list_all_nth)
  have sl: "length ?ss = ?slen" by (simp add: slength_live)
  show ?thesis
  proof (cases "i < ?slen")
    case True
    then have "is ! i = insn_of (?ss ! i)" and m: "?ss ! i \<in> set ?ss" using c sl by (simp_all add: nth_append)
    moreover have "wf_stmt (?ss ! i)" "s_code (?ss ! i) \<noteq> NOP" "nonzero_div (?ss ! i)"
      using m ok(2) d by (auto simp: block_ok_def live_stmts_def list_all_iff)
    ultimately show ?thesis using stmt_insn_ok by simp
  next
    case False
    then have "is ! i = bs ! (i - ?slen)" "i - ?slen < length bs" using c sl i by (simp_all add: nth_append)
    then show ?thesis
      using branch_insns_ok [OF e ok(1) g(2) ok(2), of n "i - ?slen"] t n c sl False by (auto simp: add.assoc)
  qed
qed

lemma leaf_branch:
  assumes g: "graph_wf g" "p < length g" and f: "branch_flags g l" and k: "kids g p = []"
    and e: "emit_branch g l offs p slen = Inr bs"
  shows "\<exists>b. bs = [b] \<and> BPF_CLASS (uint (i_code b)) = BPF_RET"
proof -
  have jt: "JT g p = None" using k by (auto simp: kids_def opt_list_def split: option.splits)
  have "block_ok (g ! p)" using g by (auto simp: graph_wf_def list_all_nth)
  then obtain r where r: "decode (s_code (b_s (g ! p))) = Some r" "r = RetK \<or> r = RetA"
    using jt by (auto simp: block_ok_def JT_def split: option.splits bpf_op.splits)
  have "p \<notin> l_jt l \<union> l_jf l" using f jt by (force simp: branch_flags_def)
  then have "longjt l p = 0" "longjf l p = 0" by (simp_all add: longjt_def longjf_def)
  then have "bs = [insn_of (b_s (g ! p))]" using e jt by (simp add: emit_branch_def Let_def pad_to_def)
  then show ?thesis using ret_insn_ok(2) [OF r] by simp
qed

lemma place_block_valid:
  assumes g: "graph_wf g" "V \<subseteq> {..<length g}" "finite V" and l: "flags_in g l" "branch_flags g l" and d: "divs_ok g"
    and n: "n = (\<Sum>b \<in> V. block_size g l b)" "n < 4294967296"
    and i: "conv_inv g l n V st D" "valid_inv n st" and p: "p \<in> V" "p \<notin> D" "set (kids g p) \<subseteq> D"
    and r: "place_block g l p st = Inr st'"
  shows "valid_inv n st'"
proof -
  let ?ss = "live_stmts (b_stmts (g ! p))" and ?slen = "slength (b_stmts (g ! p))"
  let ?dst = "cv_tail st - block_size g l p"
  let ?offs = "(cv_off st)(p := ?dst)"
  have pl: "p < length g" using g(2) p(1) by auto
  have ok: "graph_ok g" "block_ok (g ! p)" using g(1) pl by (auto simp: graph_wf_def list_all_nth)
  have fin: "finite D" "length (cv_code st) = n" "cv_tail st \<le> n"
    using i(1) g(3) by (auto simp: conv_inv_def intro: finite_subset)
  have es: "emit_stmts ?slen (b_stmts (g ! p)) 0 = Inr (map insn_of ?ss)"
    using ok(2) by (simp add: block_ok_def emit_stmts_wf)
  then obtain bs where eb: "emit_branch g l ?offs p ?slen = Inr bs" and room: "block_size g l p \<le> cv_tail st"
    and st': "st' = st\<lparr>cv_tail := ?dst, cv_off := ?offs, cv_code := blit (cv_code st) ?dst (map insn_of ?ss @ bs)\<rparr>"
    using r by (auto simp: place_block_def block_size_def Let_def split: sum.splits if_splits)
  let ?is = "map insn_of ?ss @ bs"
  have lb: "?dst + length ?is = cv_tail st"
    using emit_branch_cases [OF ok(1) pl l(1), of ?offs ?slen] eb room by (simp add: block_size_def slength_live)
  have len: "?dst + length ?is \<le> length (cv_code st)" using lb fin by simp
  have kids: "?offs p + length ?is \<le> ?offs k \<and> ?offs k < n" if "k \<in> set (kids g p)" for k
  proof -
    have k: "k \<in> D" "k \<noteq> p" using that p by auto
    then have "cv_tail st \<le> cv_off st k" "placed g l (cv_code st) (cv_off st) k"
      using i(1) by (auto simp: conv_inv_def)
    then show ?thesis using placed_in fin k lb by auto
  qed
  have new: "insn_ok n (?dst + j) (?is ! j)" if "j < length ?is" for j
  proof -
    have "list_all nonzero_div (b_stmts (g ! p))" using d pl by (auto simp: divs_ok_def dest: list_all_nth)
    moreover have "?offs p + length ?is \<le> n" using len fin by simp
    ultimately show ?thesis using block_insns_ok [OF g(1) pl _ eb refl kids n(2) _ that] by simp
  qed
  have "insn_ok n k (cv_code st' ! k)" if k: "?dst \<le> k" "k < n" for k
  proof (cases "k < cv_tail st")
    case True
    then obtain j where j: "k = ?dst + j" "j < length ?is" using k(1) lb by (metis add_less_cancel_left le_iff_add)
    then show ?thesis using new [OF j(2)] nth_blit(1) [OF len j(2)] st' by simp
  next
    case False
    then show ?thesis using nth_blit(2) [OF len, of k] i(2) k(2) lb fin st' by (simp add: valid_inv_def)
  qed
  moreover have "BPF_CLASS (uint (i_code (cv_code st' ! (n - 1)))) = BPF_RET"
  proof (cases "cv_tail st < n")
    case True
    then show ?thesis using nth_blit(2) [OF len, of "n - 1"] i(2) lb fin st' by (simp add: valid_inv_def)
  next
    case False
    then have "(\<Sum>b \<in> D. block_size g l b) = 0" using i(1) by (simp add: conv_inv_def)
    then have "D = {}" using fin(1) by (auto simp: block_size_def)
    then have "kids g p = []" using p(3) by simp
    then obtain b where b: "bs = [b]" "BPF_CLASS (uint (i_code b)) = BPF_RET" using leaf_branch [OF g(1) pl l(2) _ eb] by blast
    have "n - 1 = ?dst + length ?ss" using False lb fin b(1) by simp
    then show ?thesis using nth_blit(1) [OF len, of "length ?ss"] b st' by (simp add: nth_append)
  qed
  ultimately show ?thesis using st' by (simp add: valid_inv_def)
qed

section \<open>The program\<close>

lemma convert_root_valid:
  assumes g: "graph_wf g" "ranked rk g" "root < length g" and d: "divs_ok g" and l: "flags_in g l" "branch_flags g l"
    and n: "n = (\<Sum>b \<in> reach_set g root. block_size g l b)" "n < 4294967296"
    and st: "st = \<lparr>cv_marked = {}, cv_tail = n, cv_off = offs, cv_code = replicate n zero_insn\<rparr>"
  shows "case convert_code_r (Suc (length g)) g l (Some root) st of
           Inl e \<Rightarrow> retried g l e \<and> (\<forall>l' offs'. e = Retry l' offs' \<longrightarrow> branch_flags g l')
         | Inr st' \<Rightarrow> conv_inv g l n (reach_set g root) st' (reach_set g root) \<and> valid_inv n st'"
proof -
  let ?V = "reach_set g root" and ?Q = "\<lambda>e. retried g l e \<and> (\<forall>l' offs'. e = Retry l' offs' \<longrightarrow> branch_flags g l')"
  have ok: "graph_ok g" using g(1) by (simp add: graph_wf_def)
  have V: "finite ?V" "?V \<subseteq> {..<length g}"
    using finite_reach_set [OF ok g(3)] reach_in [OF _ ok g(3)] by (auto simp: reach_set_def)
  show ?thesis
  proof (rule convert_root_inv [where I = "\<lambda>s D. conv_inv g l n ?V s D \<and> valid_inv n s" and Q = ?Q, OF ok g(2,3)])
    fix b s D assume a: "conv_inv g l n ?V s D \<and> valid_inv n s" "b \<in> ?V" "b \<notin> D" "set (kids g b) \<subseteq> D"
    have i: "conv_inv g l n ?V s D" "valid_inv n s" using a(1) by simp_all
    note c = place_block_inv [OF g(1) V(2,1) l(1) n(1) i(1) a(2-4)]
    show "case place_block g l b s of Inl e \<Rightarrow> ?Q e
        | Inr s' \<Rightarrow> conv_inv g l n ?V s' (insert b D) \<and> valid_inv n s'"
    proof (cases "place_block g l b s")
      case (Inl e)
      have "block_ok (g ! b)" using a(2) V(2) g(1) by (auto simp: graph_wf_def list_all_nth)
      then have "emit_stmts (slength (b_stmts (g ! b))) (b_stmts (g ! b)) 0 = Inr (map insn_of (live_stmts (b_stmts (g ! b))))"
        by (simp add: block_ok_def emit_stmts_wf)
      then have "branch_flags g l'" if "e = Retry l' offs'" for l' offs'
        using Inl that emit_branch_flags [OF _ l(2)]
        by (auto simp: place_block_def Let_def split: if_splits sum.splits)
      then show ?thesis using c Inl by simp
    next
      case (Inr s')
      then show ?thesis using c place_block_valid [OF g(1) V(2,1) l d n i a(2-4) Inr] by simp
    qed
  qed (use st in \<open>auto simp: conv_inv_def valid_inv_def\<close>)
qed

lemma icode_loop_valid:
  assumes g: "graph_wf g" "ranked rk g" "root < length g" and d: "divs_ok g"
    and n: "(\<Sum>b \<in> reach_set g root. slength (b_stmts (g ! b)) + 3) < 4294967296"
  shows "flags_in g l \<Longrightarrow> branch_flags g l \<Longrightarrow> icode_loop m g root l offs = Inr f \<Longrightarrow>
    bpf_validate f \<and> forward_jumps f"
proof (induction m arbitrary: l offs)
  case (Suc m)
  let ?V = "reach_set g root" and ?n = "\<Sum>b \<in> reach_set g root. block_size g l b"
  let ?st = "\<lparr>cv_marked = {}, cv_tail = ?n, cv_off = offs, cv_code = replicate ?n zero_insn\<rparr>"
  let ?r = "convert_code_r (Suc (length g)) g l (Some root) ?st"
  have ok: "graph_ok g" using g(1) by (simp add: graph_wf_def)
  have "?n \<le> (\<Sum>b \<in> ?V. slength (b_stmts (g ! b)) + 3)"
    by (rule sum_mono) (simp add: block_size_def longjt_def longjf_def)
  then have n: "?n < 4294967296" using n by simp
  have step: "icode_loop (Suc m) g root l offs =
      (case ?r of Inr st \<Rightarrow> Inr (cv_code st) | Inl (Retry l' offs') \<Rightarrow> icode_loop m g root l' offs'
       | Inl e \<Rightarrow> Inl e)"
    using count_stmts_total [OF ok g(2,3)] by simp
  note c = convert_root_valid [OF g d Suc.prems(1,2) refl n refl, of offs]
  show ?case
  proof (cases ?r)
    case (Inl e)
    then obtain l' offs' where e: "e = Retry l' offs'" "flags_in g l'" "branch_flags g l'"
      using c by (auto simp: retried_def)
    then show ?thesis using Suc.IH [OF e(2,3)] Suc.prems(3) step Inl by simp
  next
    case (Inr st)
    have i: "conv_inv g l ?n ?V st ?V" "valid_inv ?n st" using c Inr by simp_all
    have f: "f = cv_code st" "length f = ?n" "cv_tail st = 0"
      using i(1) Suc.prems(3) step Inr by (auto simp: conv_inv_def)
    have "root \<in> ?V" "finite ?V" using finite_reach_set [OF ok g(3)] by (auto simp: reach_set_def)
    then have "block_size g l root \<le> ?n" by (intro member_le_sum) auto
    then have pos: "0 < ?n" by (simp add: block_size_def)
    have "insn_ok (length f) k (f ! k)" if "k < length f" for k using i(2) f that by (simp add: valid_inv_def)
    moreover have "f \<noteq> []" using pos f(2) by auto
    moreover from this have "last f = f ! (length f - 1)" by (rule last_conv_nth)
    moreover have "BPF_CLASS (uint (i_code (f ! (length f - 1)))) = BPF_RET" using i(2) f pos by (simp add: valid_inv_def)
    ultimately show ?thesis
      by (auto simp: bpf_validate_def forward_jumps_at insn_ok_def list_all_iff)
  qed
qed simp

lemma icode_valid:
  assumes "graph_wf g" and "ranked rk g" and "root < length g" and "divs_ok g"
    and "(\<Sum>b \<in> reach_set g root. slength (b_stmts (g ! b)) + 3) < 4294967296"
    and "icode_to_fcode g root = Inr f"
  shows "bpf_validate f \<and> forward_jumps f"
  by (rule icode_loop_valid [OF assms(1-5) _ _ assms(6) [unfolded icode_to_fcode_def]])
    (simp_all add: flags_in_def branch_flags_def)

end
