(* ===== verification/Gen_Block.thy ===== *)
theory Gen_Block
  imports Icode_Valid
begin

text \<open>
  The block combinators of the filter code generator (\<^verbatim>\<open>gencode.c\<close>): \<open>new_block\<close>,
  \<open>backpatch\<close>, \<open>merge\<close>, \<open>gen_and\<close>, \<open>gen_or\<close>, \<open>gen_not\<close>, \<open>finish_parse\<close>. The unresolved
  branches of an expression are threaded through the very fields that will hold the jumps; \<open>sense\<close>
  says which field of a block continues the list.

  A generator is a function on the heap of blocks, \<open>'a gm\<close>. What it generates is stated by a
  triple over the expressions that are pending in the heap (\<open>hoare\<close>): an expression is a root
  block, the blocks it owns, and the predicate on packets that decides by which of its two lists a
  run leaves it. Allocation failures (\<open>newchunk\<close>) are not modelled.
\<close>

section \<open>The heap of blocks\<close>

datatype gen_error =
  BpfError          \<comment> \<open>\<open>bpf_error(..)\<close>: the compilation fails\<close>
| GenAbort          \<comment> \<open>\<open>abort()\<close>\<close>
| GenOutside        \<comment> \<open>code outside the model: headers of variable length, protocol chains\<close>
| GenUndef          \<comment> \<open>a shift C leaves undefined\<close>
| GenFuel           \<comment> \<open>a list of blocks longer than the heap: a cycle\<close>

record gen =
  gn_blocks :: graph
  gn_sense :: "nat \<Rightarrow> bool"
  gn_head :: "nat \<Rightarrow> nat"

type_synonym 'a gm = "gen \<Rightarrow> gen_error + 'a \<times> gen"

definition gret :: "'a \<Rightarrow> 'a gm" where
  "gret x = (\<lambda>g. Inr (x, g))"

definition gfail :: "gen_error \<Rightarrow> 'a gm" where
  "gfail e = (\<lambda>g. Inl e)"

definition gbind :: "'a gm \<Rightarrow> ('a \<Rightarrow> 'b gm) \<Rightarrow> 'b gm" where
  "gbind m f = (\<lambda>g. rbind (m g) (\<lambda>(x, g'). f x g'))"

text \<open>\<open>new_stmt\<close> and the store of its operand; \<open>new_block\<close>.\<close>

definition new_stmt :: "int \<Rightarrow> u32 \<Rightarrow> stmt" where
  "new_stmt code k = \<lparr>s_code = code, s_jt = None, s_jf = None, s_k = k\<rparr>"

definition new_block :: "int \<Rightarrow> nat gm" where
  "new_block code = (\<lambda>g. let p = length (gn_blocks g) in
     Inr (p, \<lparr>gn_blocks = gn_blocks g @ [\<lparr>b_stmts = [], b_s = new_stmt code 0, b_jt = None, b_jf = None\<rparr>],
              gn_sense = (gn_sense g)(p := False), gn_head = (gn_head g)(p := p)\<rparr>))"

definition upd_block :: "nat \<Rightarrow> (block \<Rightarrow> block) \<Rightarrow> gen \<Rightarrow> gen" where
  "upd_block b f g = g\<lparr>gn_blocks := (gn_blocks g)[b := f (gn_blocks g ! b)]\<rparr>"

definition set_stmts :: "nat \<Rightarrow> stmt list \<Rightarrow> unit gm" where
  "set_stmts b s = (\<lambda>g. Inr ((), upd_block b (\<lambda>x. x\<lparr>b_stmts := s\<rparr>) g))"

definition set_k :: "nat \<Rightarrow> u32 \<Rightarrow> unit gm" where
  "set_k b v = (\<lambda>g. Inr ((), upd_block b (\<lambda>x. x\<lparr>b_s := (b_s x)\<lparr>s_k := v\<rparr>\<rparr>) g))"

definition gen_retblk :: "u32 \<Rightarrow> nat gm" where
  "gen_retblk v = gbind (new_block (BPF_RET OR BPF_K)) (\<lambda>b. gbind (set_k b v) (\<lambda>_. gret b))"

text \<open>The field that continues the list, \<open>JT\<close> when \<open>sense\<close> is 0.\<close>

definition hole :: "gen \<Rightarrow> nat \<Rightarrow> nat option" where
  "hole g b = (if \<not> gn_sense g b then JT (gn_blocks g) b else JF (gn_blocks g) b)"

definition set_hole :: "nat \<Rightarrow> nat \<Rightarrow> gen \<Rightarrow> gen" where
  "set_hole b t g = upd_block b
     (\<lambda>x. if \<not> gn_sense g b then x\<lparr>b_jt := Some t\<rparr> else x\<lparr>b_jf := Some t\<rparr>) g"

definition flip_sense :: "nat \<Rightarrow> unit gm" where
  "flip_sense b = (\<lambda>g. Inr ((), g\<lparr>gn_sense := (gn_sense g)(b := \<not> gn_sense g b)\<rparr>))"

definition set_head :: "nat \<Rightarrow> nat \<Rightarrow> unit gm" where
  "set_head b h = (\<lambda>g. Inr ((), g\<lparr>gn_head := (gn_head g)(b := h)\<rparr>))"

definition get_head :: "nat \<Rightarrow> nat gm" where
  "get_head b = (\<lambda>g. Inr (gn_head g b, g))"

text \<open>The loops run along a list of blocks; a list longer than the heap would be a cycle.\<close>

fun backpatch_list :: "nat \<Rightarrow> nat option \<Rightarrow> nat \<Rightarrow> unit gm" where
  "backpatch_list n None target g = Inr ((), g)"
| "backpatch_list 0 (Some b) target g = Inl GenFuel"
| "backpatch_list (Suc n) (Some b) target g =
     backpatch_list n (hole g b) target (set_hole b target g)"

definition backpatch :: "nat \<Rightarrow> nat \<Rightarrow> unit gm" where
  "backpatch b target = (\<lambda>g. backpatch_list (length (gn_blocks g)) (Some b) target g)"

fun list_end :: "nat \<Rightarrow> gen \<Rightarrow> nat \<Rightarrow> gen_error + nat" where
  "list_end 0 g b = Inl GenFuel"
| "list_end (Suc n) g b = (case hole g b of None \<Rightarrow> Inr b | Some c \<Rightarrow> list_end n g c)"

definition merge :: "nat \<Rightarrow> nat \<Rightarrow> unit gm" where
  "merge b0 b1 = (\<lambda>g.
     rbind (list_end (length (gn_blocks g)) g b0) (\<lambda>e. Inr ((), set_hole e b1 g)))"

section \<open>The combinators\<close>

definition gen_and :: "nat \<Rightarrow> nat \<Rightarrow> unit gm" where
  "gen_and b0 b1 =
     gbind (get_head b1) (\<lambda>h1.
     gbind (backpatch b0 h1) (\<lambda>_.
     gbind (flip_sense b0) (\<lambda>_.
     gbind (flip_sense b1) (\<lambda>_.
     gbind (merge b1 b0) (\<lambda>_.
     gbind (flip_sense b1) (\<lambda>_.
     gbind (get_head b0) (\<lambda>h0. set_head b1 h0)))))))"

definition gen_or :: "nat \<Rightarrow> nat \<Rightarrow> unit gm" where
  "gen_or b0 b1 =
     gbind (flip_sense b0) (\<lambda>_.
     gbind (get_head b1) (\<lambda>h1.
     gbind (backpatch b0 h1) (\<lambda>_.
     gbind (flip_sense b0) (\<lambda>_.
     gbind (merge b1 b0) (\<lambda>_.
     gbind (get_head b0) (\<lambda>h0. set_head b1 h0))))))"

definition gen_not :: "nat \<Rightarrow> unit gm" where
  "gen_not b = flip_sense b"

text \<open>\<open>finish_parse\<close>, for link layers whose headers have a fixed length; the result is the root.\<close>

definition finish_parse :: "u32 \<Rightarrow> nat \<Rightarrow> nat gm" where
  "finish_parse snaplen p =
     gbind (gen_retblk snaplen) (\<lambda>r1.
     gbind (backpatch p r1) (\<lambda>_.
     gbind (flip_sense p) (\<lambda>_.
     gbind (gen_retblk 0) (\<lambda>r0.
     gbind (backpatch p r0) (\<lambda>_.
     get_head p)))))"

section \<open>Lists of unresolved branches\<close>

lemma gbind_run [simp]: "gbind m f g = (case m g of Inl e \<Rightarrow> Inl e | Inr (x, g') \<Rightarrow> f x g')"
  by (cases "m g") (auto simp: gbind_def)

definition target :: "graph \<Rightarrow> nat \<Rightarrow> bool \<Rightarrow> nat option" where
  "target g c s = (if s then JT g c else JF g c)"

definition hside :: "gen \<Rightarrow> nat \<Rightarrow> bool" where "hside g c = (\<not> gn_sense g c)"

lemma hole_target: "hole g b = target (gn_blocks g) b (hside g b)"
  by (simp add: hole_def target_def hside_def)

lemma length_upd_block [simp]: "length (gn_blocks (upd_block b f g)) = length (gn_blocks g)"
  "gn_sense (upd_block b f g) = gn_sense g" "gn_head (upd_block b f g) = gn_head g"
  by (simp_all add: upd_block_def)

lemma set_hole_simps [simp]: "length (gn_blocks (set_hole b t g)) = length (gn_blocks g)"
  "gn_sense (set_hole b t g) = gn_sense g" "gn_head (set_hole b t g) = gn_head g"
  by (simp_all add: set_hole_def)

lemma hside_set_hole [simp]: "hside (set_hole b t g) = hside g"
  by (simp add: hside_def fun_eq_iff)

lemma set_hole_block:
  assumes "b < length (gn_blocks g)"
  shows "b_stmts (gn_blocks (set_hole b t g) ! c) = b_stmts (gn_blocks g ! c)"
    and "b_s (gn_blocks (set_hole b t g) ! c) = b_s (gn_blocks g ! c)"
    and "target (gn_blocks (set_hole b t g)) c s =
      (if c = b \<and> s = hside g b then Some t else target (gn_blocks g) c s)"
  using assms
  by (auto simp: set_hole_def upd_block_def nth_list_update target_def JT_def JF_def hside_def)

fun chain :: "gen \<Rightarrow> nat option \<Rightarrow> nat list \<Rightarrow> bool" where
  "chain g x [] \<longleftrightarrow> x = None"
| "chain g x (c # cs) \<longleftrightarrow> x = Some c \<and> chain g (hole g c) cs"

lemma chain_distinct_length:
  "distinct cs \<Longrightarrow> set cs \<subseteq> {..<length (gn_blocks g)} \<Longrightarrow> length cs \<le> length (gn_blocks g)"
  using card_mono [of "{..<length (gn_blocks g)}" "set cs"] by (simp add: distinct_card)

text \<open>The branches a list stands for, and a heap in which the branches \<open>P\<close> have been set.\<close>

definition holes :: "gen \<Rightarrow> nat list \<Rightarrow> (nat \<times> bool) set" where
  "holes g cs = (\<lambda>c. (c, hside g c)) ` set cs"

definition patched :: "gen \<Rightarrow> gen \<Rightarrow> (nat \<times> bool) set \<Rightarrow> nat \<Rightarrow> bool" where
  "patched g g' P t \<longleftrightarrow> gn_sense g' = gn_sense g \<and> gn_head g' = gn_head g \<and>
     length (gn_blocks g') = length (gn_blocks g) \<and>
     (\<forall>c. b_stmts (gn_blocks g' ! c) = b_stmts (gn_blocks g ! c) \<and> b_s (gn_blocks g' ! c) = b_s (gn_blocks g ! c)) \<and>
     (\<forall>c s. target (gn_blocks g') c s = (if (c, s) \<in> P then Some t else target (gn_blocks g) c s))"

lemma patchedD:
  assumes "patched g g' P t"
  shows "gn_sense g' = gn_sense g" "gn_head g' = gn_head g" "length (gn_blocks g') = length (gn_blocks g)"
    "b_stmts (gn_blocks g' ! c) = b_stmts (gn_blocks g ! c)" "b_s (gn_blocks g' ! c) = b_s (gn_blocks g ! c)"
    "target (gn_blocks g') c s = (if (c, s) \<in> P then Some t else target (gn_blocks g) c s)"
  using assms unfolding patched_def by blast+

lemma patched_empty: "patched g g {} t"
  by (simp add: patched_def)

lemma set_hole_patched:
  "b < length (gn_blocks g) \<Longrightarrow> patched g (set_hole b t g) {(b, hside g b)} t"
  by (simp add: patched_def set_hole_block)

lemma patched_trans:
  "patched g g1 P t \<Longrightarrow> patched g1 g2 Q t \<Longrightarrow> patched g g2 (P \<union> Q) t"
  by (auto simp: patched_def)

lemma patched_hole: "patched g g' P t \<Longrightarrow> (c, hside g c) \<notin> P \<Longrightarrow> hole g' c = hole g c"
  by (simp add: hole_target hside_def patchedD)

lemma chain_cong: "(\<And>c. c \<in> set cs \<Longrightarrow> hole g' c = hole g c) \<Longrightarrow> chain g' x cs = chain g x cs"
  by (induction cs arbitrary: x) auto

lemma backpatch_list_run:
  assumes "chain g x cs" and "distinct cs" and "set cs \<subseteq> {..<length (gn_blocks g)}" and "length cs \<le> n"
  shows "\<exists>g'. backpatch_list n x t g = Inr ((), g') \<and> patched g g' (holes g cs) t"
  using assms
proof (induction cs arbitrary: g x n)
  case Nil
  then show ?case by (auto simp: holes_def patched_empty)
next
  case (Cons c cs)
  then obtain m where n: "n = Suc m" by (cases n) auto
  let ?g = "set_hole c t g"
  have p: "patched g ?g {(c, hside g c)} t" using Cons.prems(3) by (intro set_hole_patched) simp
  have "hole ?g d = hole g d" if "d \<in> set cs" for d
    using that Cons.prems(2) patched_hole [OF p, of d] by auto
  then have "chain ?g (hole g c) cs" using chain_cong [of cs ?g g] Cons.prems(1) by simp
  then obtain g' where g': "backpatch_list m (hole g c) t ?g = Inr ((), g')" "patched ?g g' (holes ?g cs) t"
    using Cons.IH [of ?g "hole g c" m] Cons.prems n by auto
  have "holes g (c # cs) = {(c, hside g c)} \<union> holes ?g cs" by (auto simp: holes_def)
  then show ?case using g' patched_trans [OF p g'(2)] Cons.prems(1) n by auto
qed

lemma backpatch_run:
  assumes "chain g (hole g b) cs" and "distinct (b # cs)" and "set (b # cs) \<subseteq> {..<length (gn_blocks g)}"
  shows "\<exists>g'. backpatch b t g = Inr ((), g') \<and> patched g g' (holes g (b # cs)) t"
  using backpatch_list_run [of g "Some b" "b # cs" "length (gn_blocks g)" t]
    chain_distinct_length [of "b # cs" g] assms by (simp add: backpatch_def)

lemma list_end_run:
  "chain g (hole g b) cs \<Longrightarrow> length cs < n \<Longrightarrow> list_end n g b = Inr (last (b # cs))"
proof (induction cs arbitrary: b n)
  case Nil
  then show ?case by (cases n) auto
next
  case (Cons c cs)
  then show ?case by (cases n) auto
qed

lemma merge_run:
  assumes "chain g (hole g b) cs" and "distinct (b # cs)" and "set (b # cs) \<subseteq> {..<length (gn_blocks g)}"
  shows "\<exists>g'. merge b t g = Inr ((), g') \<and> patched g g' {(last (b # cs), hside g (last (b # cs)))} t"
proof -
  have "list_end (length (gn_blocks g)) g b = Inr (last (b # cs))"
    using list_end_run [OF assms(1)] chain_distinct_length [OF assms(2,3)] by simp
  moreover have "last (b # cs) < length (gn_blocks g)" using assms(3) last_in_set [of "b # cs"] by blast
  ultimately show ?thesis using set_hole_patched by (simp add: merge_def)
qed

text \<open>Appending a list to another.\<close>

lemma chain_append:
  "chain g x cs \<Longrightarrow> cs \<noteq> [] \<Longrightarrow> distinct cs \<Longrightarrow> chain g' (Some t) ds \<Longrightarrow>
   (\<And>c. c \<in> set cs \<Longrightarrow> hole g' c = (if c = last cs then Some t else hole g c)) \<Longrightarrow> chain g' x (cs @ ds)"
proof (induction cs arbitrary: x)
  case (Cons c cs)
  show ?case
  proof (cases "cs = []")
    case False
    have "c \<noteq> last cs" using Cons.prems(3) last_in_set [OF False] by auto
    then have "hole g' c = hole g c" using Cons.prems(5) [of c] False by simp
    moreover have "chain g' (hole g c) (cs @ ds)"
      using Cons False by (intro Cons.IH) auto
    ultimately show ?thesis using Cons.prems(1) by simp
  qed (use Cons.prems in simp)
qed simp

section \<open>Runs\<close>

text \<open>A block's statements and test; the branch taken.\<close>

definition test_block :: "graph \<Rightarrow> packet \<Rightarrow> nat \<Rightarrow> regs \<Rightarrow> (bool \<times> regs) outcome" where
  "test_block g pk c r =
     and_then (exec_stmts pk (b_stmts (g ! c)) r) (\<lambda>r'.
       case decode (s_code (b_s (g ! c))) of
         Some (Jmp j x) \<Rightarrow> Next (jump_taken j (rA r') (src_val x (s_k (b_s (g ! c))) r'), r')
       | _ \<Rightarrow> Abort)"

text \<open>A run through the blocks \<open>D\<close> that stops at a branch of \<open>H\<close>, or where the machine stops.\<close>

type_synonym exit = "(nat \<times> bool \<times> regs) outcome"

inductive runs :: "graph \<Rightarrow> (nat \<times> bool) set \<Rightarrow> nat set \<Rightarrow> packet \<Rightarrow> nat \<Rightarrow> regs \<Rightarrow> exit \<Rightarrow> bool"
  for g :: graph and H :: "(nat \<times> bool) set" and D :: "nat set" and pk :: packet where
  runs_leave: "c \<in> D \<Longrightarrow> test_block g pk c r = Next (s, r') \<Longrightarrow> (c, s) \<in> H \<Longrightarrow>
    runs g H D pk c r (Next (c, s, r'))"
| runs_go: "c \<in> D \<Longrightarrow> test_block g pk c r = Next (s, r') \<Longrightarrow> (c, s) \<notin> H \<Longrightarrow> target g c s = Some d \<Longrightarrow>
    runs g H D pk d r' z \<Longrightarrow> runs g H D pk c r z"
| runs_stop: "c \<in> D \<Longrightarrow> test_block g pk c r = z \<Longrightarrow> (\<And>x. z \<noteq> Next x) \<Longrightarrow>
    runs g H D pk c r (and_then z (\<lambda>_. Abort))"

lemma test_block_cong:
  assumes "b_stmts (g' ! c) = b_stmts (g ! c) \<and> b_s (g' ! c) = b_s (g ! c)"
  shows "test_block g' pk c r = test_block g pk c r"
  unfolding test_block_def conjunct1 [OF assms] conjunct2 [OF assms] ..

lemma exec_stmts_mem_length: "exec_stmts pk ss r = Next r' \<Longrightarrow> length (rM r') = length (rM r)"
proof (induction ss arbitrary: r)
  case (Cons s ss)
  then obtain r1 where r1: "exec_stmt pk s r = Next r1" "exec_stmts pk ss r1 = Next r'"
    by (auto simp: and_then_Next)
  then have "length (rM r1) = length (rM r)"
    by (auto simp: exec_stmt_def exec_op_mem_length split: if_splits option.splits)
  then show ?case using Cons.IH [OF r1(2)] by simp
qed simp

lemma test_block_mem_length:
  assumes "test_block g pk c r = Next (s, r')"
  shows "length (rM r') = length (rM r)"
proof -
  obtain r1 where e: "exec_stmts pk (b_stmts (g ! c)) r = Next r1"
    and f: "(case decode (s_code (b_s (g ! c))) of
         Some (Jmp j x) \<Rightarrow> Next (jump_taken j (rA r1) (src_val x (s_k (b_s (g ! c))) r1), r1)
       | _ \<Rightarrow> Abort) = Next (s, r')"
    using assms unfolding test_block_def and_then_Next by blast
  have "r1 = r'" using f by (auto split: option.splits bpf_op.splits)
  then show ?thesis using exec_stmts_mem_length [OF e] by simp
qed

lemma runs_mem_length: "runs g H D pk c r z \<Longrightarrow> z = Next (a, s, r') \<Longrightarrow> length (rM r') = length (rM r)"
proof (induction rule: runs.induct)
  case (runs_stop c r z)
  then show ?case by (cases z) auto
qed (auto dest: test_block_mem_length)

lemma runs_exit: "runs g H D pk c r z \<Longrightarrow> z = Next (a, s, r') \<Longrightarrow> (a, s) \<in> H \<and> a \<in> D"
proof (induction rule: runs.induct)
  case (runs_stop c r z)
  then show ?case by (cases z) auto
qed auto

text \<open>A run in another heap with the same blocks, other exits, and a continuation behind the
  branches \<open>P\<close> that are set to \<open>t\<close>.\<close>

lemma runs_join:
  assumes "runs g H D pk c r z"
    and "\<And>c. c \<in> D \<Longrightarrow> b_stmts (g' ! c) = b_stmts (g ! c) \<and> b_s (g' ! c) = b_s (g ! c)"
    and "\<And>c s. c \<in> D \<Longrightarrow> (c, s) \<notin> H \<Longrightarrow> target g' c s = target g c s"
    and "\<And>c s. c \<in> D \<Longrightarrow> (c, s) \<in> P \<Longrightarrow> target g' c s = Some t"
    and "\<And>c s. c \<in> D \<Longrightarrow> (c, s) \<in> H' \<longleftrightarrow> (c, s) \<in> H \<and> (c, s) \<notin> P"
    and "D \<subseteq> D'"
    and "case z of Next (a, s, r1) \<Rightarrow> if (a, s) \<in> P then runs g' H' D' pk t r1 z' else z' = z | _ \<Rightarrow> z' = z"
  shows "runs g' H' D' pk c r z'"
  using assms(1,7)
proof (induction rule: runs.induct)
  case (runs_leave c r s r')
  have t: "test_block g' pk c r = Next (s, r')"
    using runs_leave(2) test_block_cong [OF assms(2) [OF runs_leave(1)]] by simp
  show ?case
  proof (cases "(c, s) \<in> P")
    case True
    then have "runs g' H' D' pk t r' z'" using runs_leave by simp
    moreover have "target g' c s = Some t" by (rule assms(4) [OF runs_leave(1) True])
    ultimately show ?thesis using True t assms(5,6) runs_leave(1) by (intro runs.runs_go [of c]) blast+
  next
    case False
    then have "z' = Next (c, s, r')" using runs_leave(4) by simp
    then show ?thesis using False t assms(5,6) runs_leave(1,3) by (auto intro: runs.runs_leave)
  qed
next
  case (runs_go c r s r' d z)
  have "test_block g' pk c r = Next (s, r')"
    using runs_go(2) test_block_cong [OF assms(2) [OF runs_go(1)]] by simp
  moreover have "runs g' H' D' pk d r' z'" by (rule runs_go.IH [OF runs_go.prems])
  moreover have "target g' c s = Some d" using assms(3) [OF runs_go(1,3)] runs_go(4) by simp
  ultimately show ?case using assms(5,6) runs_go(1,3) by (intro runs.runs_go [of c]) blast+
next
  case (runs_stop c r z)
  have "test_block g' pk c r = z"
    using runs_stop(2) test_block_cong [OF assms(2) [OF runs_stop(1)]] by simp
  moreover have "z' = and_then z (\<lambda>_. Abort)" using runs_stop(3,4) by (cases z) auto
  ultimately show ?case using runs_stop(1,3) assms(6) by (auto intro!: runs.runs_stop)
qed

end
