(* ===== verification/Gen_Expr.thy ===== *)
theory Gen_Expr
  imports Gen_Block
begin

text \<open>
  Expressions under construction: a block of the generator's heap with its two lists of
  unresolved branches, the blocks it owns, and the predicate on packets that decides by which list a
  run leaves it. \<open>gen_not\<close>, \<open>gen_and\<close> and \<open>gen_or\<close> negate, conjoin and disjoin the
  predicates, and touch nothing outside their arguments.
\<close>

section \<open>Expressions\<close>

text \<open>What an expression decides about a packet: \<open>Next\<close> its truth, or how the machine stops.\<close>

type_synonym pred = "packet \<Rightarrow> bool outcome"

definition p_and :: "pred \<Rightarrow> pred \<Rightarrow> pred" where
  "p_and P Q = (\<lambda>pk. and_then (P pk) (\<lambda>v. if v then Q pk else Next False))"

definition p_or :: "pred \<Rightarrow> pred \<Rightarrow> pred" where
  "p_or P Q = (\<lambda>pk. and_then (P pk) (\<lambda>v. if v then Next True else Q pk))"

definition p_not :: "pred \<Rightarrow> pred" where
  "p_not P = (\<lambda>pk. and_then (P pk) (\<lambda>v. Next (\<not> v)))"

definition verdict :: "(nat \<times> bool) set \<Rightarrow> exit \<Rightarrow> bool outcome" where
  "verdict T z = and_then z (\<lambda>(c, s, _). Next ((c, s) \<in> T))"

text \<open>The statements the generator writes: loads, stores to scratch memory, and arithmetic but for a division by a
  constant.\<close>

fun simple_op :: "bpf_op \<Rightarrow> bool" where
  "simple_op (LdAbs z) = True" | "simple_op (LdInd z) = True" | "simple_op LdxMsh = True"
| "simple_op LdLen = True" | "simple_op LdImm = True" | "simple_op LdMem = True" | "simple_op LdxMem = True"
| "simple_op St = True" | "simple_op Tax = True" | "simple_op AluNeg = True"
| "simple_op (Alu a x) \<longleftrightarrow> x = SrcX \<or> a = AAnd \<or> a = AOr"
| "simple_op _ = False"

definition plain_stmt :: "stmt \<Rightarrow> bool" where
  "plain_stmt s \<longleftrightarrow> (case decode (s_code s) of None \<Rightarrow> False
     | Some i \<Rightarrow> simple_op i \<and> (uses_mem i \<longrightarrow> unat (s_k s) < BPF_MEMWORDS))"

lemma simple_op_form: "simple_op i \<Longrightarrow> \<not> is_ctl i \<and> i \<noteq> Alu ADiv SrcK"
  by (cases i) auto

lemma plain_stmtD:
  assumes "plain_stmt s"
  obtains i where "decode (s_code s) = Some i" "simple_op i" "uses_mem i \<Longrightarrow> unat (s_k s) < BPF_MEMWORDS"
  using assms by (auto simp: plain_stmt_def split: option.splits)

lemma plain_stmt_ok: "plain_stmt s \<Longrightarrow> wf_stmt s \<and> nonzero_div s"
proof (erule plain_stmtD)
  fix i assume i: "decode (s_code s) = Some i" "simple_op i" "uses_mem i \<Longrightarrow> unat (s_k s) < BPF_MEMWORDS"
  have "decode (BPF_ALU OR BPF_DIV OR BPF_K) = Some (Alu ADiv SrcK)" using decode_opcode [of "Alu ADiv SrcK"] by simp
  then show ?thesis using i simple_op_form [OF i(2)] by (auto simp: wf_stmt_def nonzero_div_def)
qed

text \<open>Such a statement goes on, rejects a packet that is too short (or divides by 0), reads outside the buffer, or
  shifts too far.\<close>

definition goes_on :: "'a outcome \<Rightarrow> bool" where
  "goes_on z \<longleftrightarrow> (\<exists>x. z = Next x) \<or> z = Ret 0 \<or> z = Fault BadPacketRead \<or> z = Fault ShiftWidth"

lemma goes_on_simps [simp]: "goes_on (Next x)" "goes_on (Ret 0)"
  by (simp_all add: goes_on_def)

lemma fetch_goes_on: "goes_on (fetch pk z k)"
  by (auto simp: goes_on_def fetch_def split: option.splits)

lemma and_then_goes_on: "goes_on z \<Longrightarrow> (\<And>x. z = Next x \<Longrightarrow> goes_on (f x)) \<Longrightarrow> goes_on (and_then z f)"
  by (cases z) (auto simp: goes_on_def)

lemma alu_goes_on: "\<not> (a = ADiv \<and> x = 0) \<Longrightarrow> goes_on (alu_val a y x)"
  by (cases a) (auto simp: goes_on_def)

lemma simple_op_goes_on:
  assumes "simple_op i" and "uses_mem i \<Longrightarrow> unat k < BPF_MEMWORDS" and "length (rM r) = BPF_MEMWORDS"
  shows "goes_on (exec_op pk i k r)"
proof (cases i)
  case (Alu a x)
  then show ?thesis using assms(1)
    by (cases x) (auto intro!: and_then_goes_on alu_goes_on)
qed (use assms in \<open>auto intro!: and_then_goes_on fetch_goes_on simp: mem_read_def mem_write_def\<close>)

lemma plain_stmts_go_on:
  "list_all plain_stmt ss \<Longrightarrow> length (rM r) = BPF_MEMWORDS \<Longrightarrow> goes_on (exec_stmts pk ss r)"
proof (induction ss arbitrary: r)
  case (Cons s ss)
  obtain i where i: "decode (s_code s) = Some i" "simple_op i" "uses_mem i \<Longrightarrow> unat (s_k s) < BPF_MEMWORDS"
    using Cons.prems(1) by (auto elim: plain_stmtD)
  have e: "exec_stmt pk s r = exec_op pk i (s_k s) r"
    using exec_stmt_op [of s i] i simple_op_form [OF i(2)] by (simp add: decode_Some_iff)
  have "length (rM x) = BPF_MEMWORDS" if "exec_stmt pk s r = Next x" for x
    using exec_stmts_mem_length [of pk "[s]" r x] that Cons.prems(2) by simp
  then show ?case using Cons e simple_op_goes_on [OF i(2,3) Cons.prems(2)] by (auto intro!: and_then_goes_on)
qed simp

definition gen_block_ok :: "block \<Rightarrow> bool" where
  "gen_block_ok b \<longleftrightarrow> list_all plain_stmt (b_stmts b) \<and> (\<exists>j x. decode (s_code (b_s b)) = Some (Jmp j x))"

text \<open>The other list of a block starts at the field \<open>sense\<close> does not select.\<close>

definition true_exits :: "gen \<Rightarrow> nat \<Rightarrow> nat list \<Rightarrow> (nat \<times> bool) set" where
  "true_exits g b ts = insert (b, hside g b) (holes g ts)"

definition false_exits :: "gen \<Rightarrow> nat \<Rightarrow> nat list \<Rightarrow> (nat \<times> bool) set" where
  "false_exits g b fs = insert (b, \<not> hside g b) (holes g fs)"

text \<open>Block \<open>b\<close> is an expression on the blocks \<open>D\<close>: its two lists are \<open>b # ts\<close> and \<open>b # fs\<close>, the
  branches not on them lead down in the ranking \<open>rk\<close> to blocks of \<open>D\<close>, and a run from the head
  leaves by the first list on the packets for which \<open>P\<close> holds, by the second otherwise.\<close>

definition expr_at :: "gen \<Rightarrow> nat \<Rightarrow> nat set \<Rightarrow> nat list \<Rightarrow> nat list \<Rightarrow> (nat \<Rightarrow> nat) \<Rightarrow> pred \<Rightarrow> bool" where
  "expr_at g b D ts fs rk P \<longleftrightarrow>
     D \<subseteq> {..<length (gn_blocks g)} \<and>
     chain g (hole g b) ts \<and> chain g (target (gn_blocks g) b (\<not> hside g b)) fs \<and>
     distinct (b # ts @ fs) \<and> set (b # ts @ fs) \<subseteq> D \<and> gn_head g b \<in> D \<and>
     (\<forall>c \<in> D. gen_block_ok (gn_blocks g ! c)) \<and>
     (\<forall>c \<in> D. \<forall>s. (c, s) \<in> true_exits g b ts \<union> false_exits g b fs \<or>
        (\<exists>d \<in> D. target (gn_blocks g) c s = Some d \<and> rk d < rk c)) \<and>
     (\<forall>pk r. length (rM r) = BPF_MEMWORDS \<longrightarrow>
        (\<exists>z. runs (gn_blocks g) (true_exits g b ts \<union> false_exits g b fs) D pk (gn_head g b) r z \<and>
             verdict (true_exits g b ts) z = P pk))"

lemma expr_atD:
  assumes "expr_at g b D ts fs rk P"
  shows "D \<subseteq> {..<length (gn_blocks g)}"
    and "chain g (hole g b) ts" and "chain g (target (gn_blocks g) b (\<not> hside g b)) fs"
    and "distinct (b # ts @ fs)" and "set (b # ts @ fs) \<subseteq> D" and "gn_head g b \<in> D"
    and "c \<in> D \<Longrightarrow> gen_block_ok (gn_blocks g ! c)"
    and "c \<in> D \<Longrightarrow> (c, s) \<notin> true_exits g b ts \<union> false_exits g b fs \<Longrightarrow>
      \<exists>d \<in> D. target (gn_blocks g) c s = Some d \<and> rk d < rk c"
    and "length (rM r) = BPF_MEMWORDS \<Longrightarrow>
      \<exists>z. runs (gn_blocks g) (true_exits g b ts \<union> false_exits g b fs) D pk (gn_head g b) r z \<and>
          verdict (true_exits g b ts) z = P pk"
  using assms unfolding expr_at_def by blast+

lemma holes_Cons: "holes g (c # cs) = insert (c, hside g c) (holes g cs)"
  and holes_append: "holes g (cs @ ds) = holes g cs \<union> holes g ds"
  by (auto simp: holes_def)

lemma exits_in: "set (b # ts @ fs) \<subseteq> D \<Longrightarrow> (c, s) \<in> true_exits g b ts \<union> false_exits g b fs \<Longrightarrow> c \<in> D"
  by (auto simp: true_exits_def false_exits_def holes_def)

lemma exits_disjoint: "distinct (b # ts @ fs) \<Longrightarrow> true_exits g b ts \<inter> false_exits g b fs = {}"
  by (auto simp: true_exits_def false_exits_def holes_def)

text \<open>Nothing outside its blocks matters to an expression.\<close>

definition same_on :: "nat set \<Rightarrow> gen \<Rightarrow> gen \<Rightarrow> bool" where
  "same_on D g g' \<longleftrightarrow> D \<subseteq> {..<length (gn_blocks g')} \<and>
     (\<forall>c \<in> D. gn_blocks g' ! c = gn_blocks g ! c \<and> gn_sense g' c = gn_sense g c \<and> gn_head g' c = gn_head g c)"

lemma same_onD:
  assumes "same_on D g g'" and "c \<in> D"
  shows "gn_blocks g' ! c = gn_blocks g ! c" "hside g' c = hside g c" "gn_head g' c = gn_head g c"
    "target (gn_blocks g') c s = target (gn_blocks g) c s" "hole g' c = hole g c"
  using assms by (auto simp: same_on_def hside_def target_def JT_def JF_def hole_def)

lemma same_on_mono: "same_on D g g' \<Longrightarrow> E \<subseteq> D \<Longrightarrow> same_on E g g'"
  by (auto simp: same_on_def)

lemma holes_same: "(\<And>c. c \<in> set cs \<Longrightarrow> hside g' c = hside g c) \<Longrightarrow> holes g' cs = holes g cs"
  by (auto simp: holes_def)

lemma expr_at_frame:
  assumes e: "expr_at g b D ts fs rk P" and s: "same_on D g g'"
  shows "expr_at g' b D ts fs rk P"
proof -
  note D = expr_atD [OF e]
  have b: "b \<in> D" "set ts \<subseteq> D" "set fs \<subseteq> D" using D(5) by auto
  have x: "true_exits g' b ts = true_exits g b ts" "false_exits g' b fs = false_exits g b fs"
    using holes_same [of ts g' g] holes_same [of fs g' g] same_onD(2) [OF s] b
    by (auto simp: true_exits_def false_exits_def)
  have "hole g' c = hole g c" if "c \<in> D" for c using same_onD(5) [OF s that] .
  then have ch: "chain g' y cs = chain g y cs" if "set cs \<subseteq> D" for y cs using that by (intro chain_cong) auto
  have r: "runs (gn_blocks g') H D pk c r z" if "runs (gn_blocks g) H D pk c r z" for H pk c r z
    by (rule runs_join [where P = "{}" and t = c, OF that])
      (use same_onD [OF s] in \<open>auto split: outcome.splits\<close>)
  show ?thesis
    unfolding expr_at_def x same_onD(5) [OF s b(1)] same_onD(4) [OF s b(1)] same_onD(2) [OF s b(1)]
      same_onD(3) [OF s b(1)] ch [OF b(2)] ch [OF b(3)]
  proof (intro conjI ballI allI impI)
    show "D \<subseteq> {..<length (gn_blocks g')}" using s by (simp add: same_on_def)
    show "gen_block_ok (gn_blocks g' ! c)" if "c \<in> D" for c
      using D(7) [OF that] same_onD(1) [OF s that] by simp
    show "(c, sd) \<in> true_exits g b ts \<union> false_exits g b fs \<or>
        (\<exists>d \<in> D. target (gn_blocks g') c sd = Some d \<and> rk d < rk c)" if "c \<in> D" for c sd
      using D(8) [OF that, of sd] same_onD(4) [OF s that] by auto
    show "\<exists>z. runs (gn_blocks g') (true_exits g b ts \<union> false_exits g b fs) D pk (gn_head g b) rr z \<and>
        verdict (true_exits g b ts) z = P pk" if "length (rM rr) = BPF_MEMWORDS" for pk rr
      using D(9) [OF that] r by blast
  qed (use D in simp_all)
qed

section \<open>Negation\<close>

definition flipped :: "nat \<Rightarrow> gen \<Rightarrow> gen" where
  "flipped b g = g\<lparr>gn_sense := (gn_sense g)(b := \<not> gn_sense g b)\<rparr>"

lemma flipped_simps [simp]: "gn_blocks (flipped b g) = gn_blocks g" "gn_head (flipped b g) = gn_head g"
  "hside (flipped b g) c = (if c = b then \<not> hside g b else hside g c)" "flipped b (flipped b g) = g"
  by (auto simp: flipped_def hside_def)

lemma hole_flipped: "hole (flipped b g) c = (if c = b then target (gn_blocks g) b (\<not> hside g b) else hole g c)"
  by (auto simp: hole_target)

lemma flip_sense_run: "flip_sense b g = Inr ((), flipped b g)"
  by (simp add: flip_sense_def flipped_def)

lemma holes_flipped: "b \<notin> set cs \<Longrightarrow> holes (flipped b g) cs = holes g cs"
  by (rule holes_same) auto

lemma expr_at_flip:
  assumes e: "expr_at g b D ts fs rk P"
  shows "expr_at (flipped b g) b D fs ts rk (p_not P)"
proof -
  note D = expr_atD [OF e]
  have nb: "b \<notin> set ts" "b \<notin> set fs" using D(4) by auto
  have x: "true_exits (flipped b g) b fs = false_exits g b fs" "false_exits (flipped b g) b ts = true_exits g b ts"
    using nb holes_flipped [OF nb(1)] holes_flipped [OF nb(2)]
    by (simp_all add: true_exits_def false_exits_def)
  have ch: "chain (flipped b g) y cs = chain g y cs" if "b \<notin> set cs" for y cs
    using that by (intro chain_cong) (auto simp: hole_flipped)
  have v: "verdict (false_exits g b fs) z = p_not P pk"
    if r: "runs (gn_blocks g) (true_exits g b ts \<union> false_exits g b fs) D pk (gn_head g b) r z"
      and p: "verdict (true_exits g b ts) z = P pk" for z pk r
  proof (cases z)
    case (Next y)
    obtain c s r' where y: "y = (c, s, r')" by (cases y)
    have "(c, s) \<in> true_exits g b ts \<union> false_exits g b fs" using runs_exit [OF r Next [unfolded y]] by simp
    then show ?thesis using exits_disjoint [OF D(4), of g] p Next y
      by (auto simp: verdict_def p_not_def p [symmetric])
  qed (use p in \<open>auto simp: verdict_def p_not_def p [symmetric]\<close>)
  show ?thesis
    unfolding expr_at_def x
  proof (intro conjI ballI allI impI)
    show "chain (flipped b g) (hole (flipped b g) b) fs" using D(3) ch [OF nb(2)] by (simp add: hole_flipped)
    show "chain (flipped b g) (target (gn_blocks (flipped b g)) b (\<not> hside (flipped b g) b)) ts"
      using D(2) ch [OF nb(1)] by (simp add: hole_target)
    show "(c, sd) \<in> false_exits g b fs \<union> true_exits g b ts \<or>
        (\<exists>d \<in> D. target (gn_blocks (flipped b g)) c sd = Some d \<and> rk d < rk c)" if "c \<in> D" for c sd
      using D(8) [OF that, of sd] by auto
    show "\<exists>z. runs (gn_blocks (flipped b g)) (false_exits g b fs \<union> true_exits g b ts) D pk
          (gn_head (flipped b g) b) rr z \<and> verdict (false_exits g b fs) z = p_not P pk"
      if "length (rM rr) = BPF_MEMWORDS" for pk rr
      using D(9) [OF that, of pk] v [of pk rr] by (auto simp: Un_commute)
  qed (use D in auto)
qed

section \<open>Conjunction\<close>

text \<open>The last branch of a false list, and the heap after \<open>b0\<close>'s true list has been sent to the head
  of \<open>b1\<close> and \<open>b0\<close> hung on the end of \<open>b1\<close>'s false list.\<close>

definition last_exit :: "gen \<Rightarrow> nat \<Rightarrow> nat list \<Rightarrow> nat \<times> bool" where
  "last_exit g b fs = (if fs = [] then (b, \<not> hside g b) else (last fs, hside g (last fs)))"

definition joined :: "gen \<Rightarrow> gen \<Rightarrow> nat \<Rightarrow> nat \<Rightarrow> nat list \<Rightarrow> nat list \<Rightarrow> bool" where
  "joined g g' b0 b1 ts0 fs1 \<longleftrightarrow> length (gn_blocks g') = length (gn_blocks g) \<and>
     (\<forall>c. b_stmts (gn_blocks g' ! c) = b_stmts (gn_blocks g ! c) \<and> b_s (gn_blocks g' ! c) = b_s (gn_blocks g ! c)) \<and>
     (\<forall>c. hside g' c = (if c = b0 then \<not> hside g b0 else hside g c)) \<and>
     (\<forall>c. gn_head g' c = (if c = b1 then gn_head g b0 else gn_head g c)) \<and>
     (\<forall>c s. target (gn_blocks g') c s =
        (if (c, s) \<in> true_exits g b0 ts0 then Some (gn_head g b1)
         else if (c, s) = last_exit g b1 fs1 then Some b0 else target (gn_blocks g) c s))"

lemma joinedD:
  assumes "joined g g' b0 b1 ts0 fs1"
  shows "length (gn_blocks g') = length (gn_blocks g)"
    and "b_stmts (gn_blocks g' ! c) = b_stmts (gn_blocks g ! c) \<and> b_s (gn_blocks g' ! c) = b_s (gn_blocks g ! c)"
    and "hside g' c = (if c = b0 then \<not> hside g b0 else hside g c)"
    and "gn_head g' c = (if c = b1 then gn_head g b0 else gn_head g c)"
    and "target (gn_blocks g') c s =
        (if (c, s) \<in> true_exits g b0 ts0 then Some (gn_head g b1)
         else if (c, s) = last_exit g b1 fs1 then Some b0 else target (gn_blocks g) c s)"
  using assms unfolding joined_def by blast+

lemma last_exit_in: "last_exit g b fs \<in> false_exits g b fs"
  by (auto simp: last_exit_def false_exits_def holes_def)

lemma true_exit_in: "set (b # ts @ fs) \<subseteq> D \<Longrightarrow> (c, s) \<in> true_exits g b ts \<Longrightarrow> c \<in> D"
  and false_exit_in: "set (b # ts @ fs) \<subseteq> D \<Longrightarrow> (c, s) \<in> false_exits g b fs \<Longrightarrow> c \<in> D"
  by (auto simp: true_exits_def false_exits_def holes_def)

lemma expr_at_joined:
  assumes e0: "expr_at g b0 D0 ts0 fs0 rk0 P0" and e1: "expr_at g b1 D1 ts1 fs1 rk1 P1"
    and dj: "D0 \<inter> D1 = {}" and j: "joined g g' b0 b1 ts0 fs1"
  shows "expr_at g' b1 (D0 \<union> D1) ts1 (fs1 @ b0 # fs0)
     (\<lambda>c. if c \<in> D1 then rk1 c else rk0 c + rk1 (gn_head g b1) + 1) (p_and P0 P1)"
proof -
  note X = expr_atD [OF e0] and Y = expr_atD [OF e1] and J = joinedD [OF j]
  let ?T0 = "true_exits g b0 ts0" and ?F0 = "false_exits g b0 fs0"
  let ?T1 = "true_exits g b1 ts1" and ?F1 = "false_exits g b1 fs1"
  have in0: "c \<in> D0" if "(c, s) \<in> ?T0 \<or> (c, s) \<in> ?F0" for c s
    using that true_exit_in [OF X(5)] false_exit_in [OF X(5)] by blast
  have in1: "c \<in> D1" if "(c, s) \<in> ?T1 \<or> (c, s) \<in> ?F1" for c s
    using that true_exit_in [OF Y(5)] false_exit_in [OF Y(5)] by blast
  have b: "b0 \<in> D0" "b1 \<in> D1" "b0 \<noteq> b1" using X(5) Y(5) dj by auto
  have sets: "set ts0 \<subseteq> D0" "set fs0 \<subseteq> D0" "set ts1 \<subseteq> D1" "set fs1 \<subseteq> D1" using X(5) Y(5) by auto
  have nb: "b0 \<notin> set ts0" "b0 \<notin> set fs0" "b0 \<notin> set ts1" "b0 \<notin> set fs1"
    using X(4) b sets(3,4) dj by auto
  have le: "last_exit g b1 fs1 = (c, s) \<Longrightarrow> (c, s) \<in> ?F1" for c s using last_exit_in [of g b1 fs1] by simp
  \<comment> \<open>exits\<close>
  have T: "true_exits g' b1 ts1 = ?T1"
    using holes_same [of ts1 g' g] J(3) nb(3) b(3) by (simp add: true_exits_def) metis
  have F: "false_exits g' b1 (fs1 @ b0 # fs0) = ?F1 \<union> ?F0"
  proof -
    have "holes g' fs1 = holes g fs1" "holes g' fs0 = holes g fs0"
      using holes_same [of fs1 g' g] holes_same [of fs0 g' g] J(3) nb(2,4) by metis+
    moreover have "hside g' b1 = hside g b1" "hside g' b0 = (\<not> hside g b0)" using J(3) b(3) by simp_all
    ultimately show ?thesis by (simp add: false_exits_def holes_append holes_Cons Un_ac)
  qed
  \<comment> \<open>targets\<close>
  have t0: "target (gn_blocks g') c s = (if (c, s) \<in> ?T0 then Some (gn_head g b1) else target (gn_blocks g) c s)"
    if "c \<in> D0" for c s
  proof -
    have "(c, s) \<noteq> last_exit g b1 fs1" using that le [of c s] in1 [of c s] dj by (metis IntI empty_iff)
    then show ?thesis using J(5) [of c s] by simp
  qed
  have t1: "target (gn_blocks g') c s = (if (c, s) = last_exit g b1 fs1 then Some b0 else target (gn_blocks g) c s)"
    if "c \<in> D1" for c s
  proof -
    have "(c, s) \<notin> ?T0" using that in0 [of c s] dj by blast
    then show ?thesis using J(5) [of c s] by simp
  qed
  have hs: "hside g' c = hside g c" if "c \<noteq> b0" for c
    using J(3) [of c] that by simp
  \<comment> \<open>the true list of \<open>b1\<close> is as it was\<close>
  have ct: "chain g' (hole g' b1) ts1"
  proof -
    have "hole g' c = hole g c" if "c \<in> set (b1 # ts1)" for c
    proof -
      have "(c, hside g c) \<in> ?T1" using that by (auto simp: true_exits_def holes_def)
      then have "(c, hside g c) \<noteq> last_exit g b1 fs1" using exits_disjoint [OF Y(4), of g] last_exit_in [of g b1 fs1] by auto
      moreover have "c \<in> D1" "c \<noteq> b0" using that Y(5) b dj by auto
      ultimately show ?thesis using t1 hs by (simp add: hole_target)
    qed
    then show ?thesis using Y(2) chain_cong [of ts1 g' g] by simp
  qed
  \<comment> \<open>the false list of \<open>b0\<close> follows that of \<open>b1\<close>\<close>
  have c0: "chain g' (Some b0) (b0 # fs0)"
  proof -
    have nT: "(c, s) \<notin> ?T0" if "(c, s) \<in> ?F0" for c s using that exits_disjoint [OF X(4), of g] by blast
    have "hole g' c = hole g c" if "c \<in> set fs0" for c
    proof -
      have "(c, hside g c) \<in> ?F0" using that by (auto simp: false_exits_def holes_def)
      moreover have "c \<in> D0" "c \<noteq> b0" using that sets nb by auto
      ultimately show ?thesis using t0 hs nT by (simp add: hole_target)
    qed
    moreover have "hole g' b0 = target (gn_blocks g) b0 (\<not> hside g b0)"
      using t0 [OF b(1), of "\<not> hside g b0"] nT J(3) [of b0] by (simp add: hole_target false_exits_def)
    ultimately show ?thesis using X(3) chain_cong [of fs0 g' g] by simp
  qed
  have cf: "chain g' (target (gn_blocks g') b1 (\<not> hside g' b1)) (fs1 @ b0 # fs0)"
  proof (cases "fs1 = []")
    case True
    then have "target (gn_blocks g') b1 (\<not> hside g' b1) = Some b0"
      using t1 [OF b(2)] J(3) [of b1] b(3) by (simp add: last_exit_def)
    then show ?thesis using c0 True by simp
  next
    case False
    have l: "last_exit g b1 fs1 = (last fs1, hside g (last fs1))" "last fs1 \<noteq> b1"
      using False Y(4) last_in_set [OF False] by (auto simp: last_exit_def)
    have "target (gn_blocks g') b1 (\<not> hside g' b1) = target (gn_blocks g) b1 (\<not> hside g b1)"
      using t1 [OF b(2)] J(3) [of b1] b(3) l by simp
    moreover have "hole g' c = (if c = last fs1 then Some b0 else hole g c)" if "c \<in> set fs1" for c
    proof -
      have "c \<in> D1" "c \<noteq> b0" using that sets nb by auto
      then show ?thesis using t1 hs l by (simp add: hole_target)
    qed
    ultimately show ?thesis using chain_append [OF Y(3) False _ c0] Y(4) by simp
  qed
  \<comment> \<open>runs\<close>
  have run: "\<exists>z. runs (gn_blocks g') (?T1 \<union> (?F1 \<union> ?F0)) (D0 \<union> D1) pk (gn_head g b0) r z \<and>
      verdict ?T1 z = p_and P0 P1 pk" if r: "length (rM r) = BPF_MEMWORDS" for pk r
  proof -
    obtain z0 where z0: "runs (gn_blocks g) (?T0 \<union> ?F0) D0 pk (gn_head g b0) r z0" "verdict ?T0 z0 = P0 pk"
      using X(9) [OF r] by blast
    have join: "runs (gn_blocks g') (?T1 \<union> (?F1 \<union> ?F0)) (D0 \<union> D1) pk (gn_head g b0) r z"
      if "case z0 of Next (a, s, r1) \<Rightarrow>
          if (a, s) \<in> ?T0 then runs (gn_blocks g') (?T1 \<union> (?F1 \<union> ?F0)) (D0 \<union> D1) pk (gn_head g b1) r1 z else z = z0
        | _ \<Rightarrow> z = z0" for z
    proof (rule runs_join [OF z0(1) _ _ _ _ _ that])
      show "(c, s) \<in> ?T1 \<union> (?F1 \<union> ?F0) \<longleftrightarrow> (c, s) \<in> ?T0 \<union> ?F0 \<and> (c, s) \<notin> ?T0" if "c \<in> D0" for c s
        using that in1 [of c s] dj exits_disjoint [OF X(4), of g] by blast
    qed (use J(2) t0 in auto)
    show ?thesis
    proof (cases z0)
      case (Next y)
      obtain a s r1 where y: "y = (a, s, r1)" by (cases y)
      note z = z0(1) [unfolded Next y]
      have x: "(a, s) \<in> ?T0 \<union> ?F0" using runs_exit [OF z refl] by simp
      show ?thesis
      proof (cases "(a, s) \<in> ?T0")
        case True
        have "length (rM r1) = BPF_MEMWORDS" using runs_mem_length [OF z refl] r by simp
        then obtain z1 where z1: "runs (gn_blocks g) (?T1 \<union> ?F1) D1 pk (gn_head g b1) r1 z1" "verdict ?T1 z1 = P1 pk"
          using Y(9) by blast
        have "runs (gn_blocks g') (?T1 \<union> (?F1 \<union> ?F0)) (D0 \<union> D1) pk (gn_head g b1) r1 z1"
        proof (rule runs_join [OF z1(1), where P = "{}" and t = b0])
          show "target (gn_blocks g') c s = target (gn_blocks g) c s"
            if "c \<in> D1" "(c, s) \<notin> ?T1 \<union> ?F1" for c s
            using that t1 last_exit_in [of g b1 fs1] by auto
          show "(c, s) \<in> ?T1 \<union> (?F1 \<union> ?F0) \<longleftrightarrow> (c, s) \<in> ?T1 \<union> ?F1 \<and> (c, s) \<notin> {}" if "c \<in> D1" for c s
            using that in0 [of c s] dj by blast
        qed (use J(2) in \<open>auto split: outcome.splits\<close>)
        then have "runs (gn_blocks g') (?T1 \<union> (?F1 \<union> ?F0)) (D0 \<union> D1) pk (gn_head g b0) r z1"
          using join [of z1] Next y True by simp
        moreover have "P0 pk = Next True" using z0(2) Next y True by (simp add: verdict_def)
        ultimately show ?thesis using z1(2) by (auto simp: p_and_def)
      next
        case False
        have "(a, s) \<notin> ?T1" using False x in0 [of a s] in1 [of a s] dj by blast
        then have "verdict ?T1 z0 = Next False" using Next y by (simp add: verdict_def)
        moreover have "P0 pk = Next False" using z0(2) Next y False by (simp add: verdict_def)
        moreover have "runs (gn_blocks g') (?T1 \<union> (?F1 \<union> ?F0)) (D0 \<union> D1) pk (gn_head g b0) r z0"
          using join [of z0] Next y False by simp
        ultimately show ?thesis by (auto simp: p_and_def)
      qed
    qed (use join [of z0] z0(2) in \<open>auto simp: p_and_def verdict_def z0(2) [symmetric]\<close>)
  qed
  show ?thesis
    unfolding expr_at_def T F J(4) if_P [OF refl]
  proof (intro conjI ballI allI impI)
    show "D0 \<union> D1 \<subseteq> {..<length (gn_blocks g')}" using X(1) Y(1) J(1) by simp
    show "distinct (b1 # ts1 @ fs1 @ b0 # fs0)" "set (b1 # ts1 @ fs1 @ b0 # fs0) \<subseteq> D0 \<union> D1"
      using X(4,5) Y(4,5) dj by auto
    show "gn_head g b0 \<in> D0 \<union> D1" using X(6) by simp
    show "gen_block_ok (gn_blocks g' ! c)" if "c \<in> D0 \<union> D1" for c
      using that X(7) Y(7) J(2) [of c] by (auto simp: gen_block_ok_def)
  next
    fix c s assume c: "c \<in> D0 \<union> D1"
    let ?rk = "\<lambda>c. if c \<in> D1 then rk1 c else rk0 c + rk1 (gn_head g b1) + 1"
    show "(c, s) \<in> ?T1 \<union> (?F1 \<union> ?F0) \<or> (\<exists>d \<in> D0 \<union> D1. target (gn_blocks g') c s = Some d \<and> ?rk d < ?rk c)"
    proof (cases "c \<in> D1")
      case True
      show ?thesis
      proof (cases "(c, s) \<in> ?T1 \<union> ?F1")
        case False
        then obtain d where d: "d \<in> D1" "target (gn_blocks g) c s = Some d" "rk1 d < rk1 c" using Y(8) [OF True] by blast
        moreover have "(c, s) \<noteq> last_exit g b1 fs1" using False le [of c s] by (metis UnI2)
        ultimately show ?thesis using t1 [OF True, of s] True by (intro disjI2 bexI [of _ d]) auto
      qed blast
    next
      case False
      then have c0: "c \<in> D0" using c by simp
      consider "(c, s) \<in> ?T0" | "(c, s) \<in> ?F0" | "(c, s) \<notin> ?T0 \<union> ?F0" by blast
      then show ?thesis
      proof cases
        case 1
        then show ?thesis using t0 [OF c0, of s] Y(6) False by (intro disjI2 bexI [of _ "gn_head g b1"]) auto
      next
        case 3
        then obtain d where d: "d \<in> D0" "target (gn_blocks g) c s = Some d" "rk0 d < rk0 c" using X(8) [OF c0] by blast
        moreover have "d \<notin> D1" using d(1) dj by blast
        ultimately show ?thesis using t0 [OF c0, of s] 3 False by (intro disjI2 bexI [of _ d]) auto
      qed blast
    qed
  qed (use ct cf run in simp_all)
qed

lemma joined_frame:
  assumes j: "joined g g' b0 b1 ts0 fs1"
    and e0: "set (b0 # ts0 @ fs0) \<subseteq> D" and e1: "set (b1 # ts1 @ fs1) \<subseteq> D"
    and E: "E \<subseteq> {..<length (gn_blocks g)}" "E \<inter> D = {}"
  shows "same_on E g g'"
proof -
  note J = joinedD [OF j]
  have "gn_blocks g' ! c = gn_blocks g ! c" if c: "c \<in> E" for c
  proof -
    have "(c, s) \<notin> true_exits g b0 ts0" "(c, s) \<noteq> last_exit g b1 fs1" for s
      using c E(2) true_exit_in [OF e0] false_exit_in [OF e1] last_exit_in [of g b1 fs1] by (blast, metis IntI empty_iff)
    then have "target (gn_blocks g') c s = target (gn_blocks g) c s" for s using J(5) [of c s] by simp
    from this [of True] this [of False] show ?thesis using J(2) [of c]
      by (simp add: target_def JT_def JF_def)
  qed
  moreover have "gn_sense g' c = gn_sense g c \<and> gn_head g' c = gn_head g c" if "c \<in> E" for c
  proof -
    have "c \<noteq> b0" "c \<noteq> b1" using e0 e1 E(2) that by auto
    then show ?thesis using J(3) [of c] J(4) [of c] by (simp add: hside_def)
  qed
  ultimately show ?thesis using J(1) E(1) unfolding same_on_def by auto
qed

lemma set_head_run: "set_head b h g = Inr ((), g\<lparr>gn_head := (gn_head g)(b := h)\<rparr>)"
  by (simp add: set_head_def)

lemma gen_and_run:
  assumes e0: "expr_at g b0 D0 ts0 fs0 rk0 P0" and e1: "expr_at g b1 D1 ts1 fs1 rk1 P1" and dj: "D0 \<inter> D1 = {}"
  shows "\<exists>g'. gen_and b0 b1 g = Inr ((), g') \<and> joined g g' b0 b1 ts0 fs1"
proof -
  note X = expr_atD [OF e0] and Y = expr_atD [OF e1]
  have b: "b0 \<noteq> b1" "b0 \<notin> set fs1" "b1 \<notin> set fs1" using X(5) Y(4,5) dj by auto
  have lt: "set (b0 # ts0) \<subseteq> {..<length (gn_blocks g)}" "set (b1 # fs1) \<subseteq> {..<length (gn_blocks g)}"
    using X(1,5) Y(1,5) by auto
  obtain g1 where g1: "backpatch b0 (gn_head g b1) g = Inr ((), g1)"
    "patched g g1 (true_exits g b0 ts0) (gn_head g b1)"
    using backpatch_run [OF X(2) _ lt(1)] X(4) by (auto simp: true_exits_def holes_Cons)
  note P = patchedD [OF g1(2)]
  let ?g2 = "flipped b1 (flipped b0 g1)"
  have nT: "(c, s) \<notin> true_exits g b0 ts0" if "c \<in> D1" for c s
    using that true_exit_in [OF X(5)] dj by blast
  have h1: "hside g1 c = hside g c" for c by (simp add: hside_def P(1))
  have t: "target (gn_blocks ?g2) c s = target (gn_blocks g) c s" if "c \<in> D1" for c s
    using nT [OF that] P(6) by simp
  have D1: "b1 \<in> D1" "set fs1 \<subseteq> D1" using Y(5) by auto
  have "hole ?g2 b1 = target (gn_blocks g) b1 (\<not> hside g b1)"
    using t [OF D1(1)] b(1) h1 by (simp add: hole_target)
  moreover have "hole ?g2 c = hole g c" if "c \<in> set fs1" for c
    using t [of c] that D1(2) b h1 by (auto simp: hole_target)
  ultimately have ch: "chain ?g2 (hole ?g2 b1) fs1" using Y(3) chain_cong [of fs1 ?g2 g] by simp
  have d: "distinct (b1 # fs1)" using Y(4) by simp
  have "set (b1 # fs1) \<subseteq> {..<length (gn_blocks ?g2)}" using lt(2) P(3) by simp
  then obtain g3 where g3: "merge b1 b0 ?g2 = Inr ((), g3)"
    "patched ?g2 g3 {(last (b1 # fs1), hside ?g2 (last (b1 # fs1)))} b0"
    using merge_run [OF ch d] by blast
  have le: "(last (b1 # fs1), hside ?g2 (last (b1 # fs1))) = last_exit g b1 fs1"
  proof (cases "fs1 = []")
    case False
    then have "last fs1 \<noteq> b0" "last fs1 \<noteq> b1" using b last_in_set [OF False] by metis+
    then show ?thesis using False h1 by (simp add: last_exit_def)
  qed (use b h1 in \<open>simp add: last_exit_def\<close>)
  note Q = patchedD [OF g3(2) [unfolded le]]
  let ?g4 = "(flipped b1 g3)\<lparr>gn_head := (gn_head g3)(b1 := gn_head g3 b0)\<rparr>"
  have r: "gen_and b0 b1 g = Inr ((), ?g4)"
    unfolding gen_and_def by (simp add: get_head_def g1(1) flip_sense_run g3(1) set_head_run)
  have "hside g3 c = hside ?g2 c" for c by (simp add: hside_def Q(1))
  then have "hside ?g4 c = (if c = b0 then \<not> hside g b0 else hside g c)" for c
    using h1 b(1) by (simp add: hside_def flipped_def)
  moreover have "target (gn_blocks ?g4) c s =
      (if (c, s) \<in> true_exits g b0 ts0 then Some (gn_head g b1)
       else if (c, s) = last_exit g b1 fs1 then Some b0 else target (gn_blocks g) c s)" for c s
  proof (cases "(c, s) = last_exit g b1 fs1")
    case True
    then have "c \<in> D1" using last_exit_in [of g b1 fs1] false_exit_in [OF Y(5), of c s g] by simp
    from nT [OF this, of s] show ?thesis using True Q(6) [of c s] by simp
  next
    case False
    then show ?thesis using Q(6) [of c s] P(6) [of c s] by simp
  qed
  ultimately have "joined g ?g4 b0 b1 ts0 fs1"
    using P(2-5) Q(2-5) unfolding joined_def by simp
  then show ?thesis using r by blast
qed

text \<open>\<open>gen_or\<close> is the conjunction of the negated expressions, negated.\<close>

lemma gen_or_run:
  assumes e0: "expr_at g b0 D0 ts0 fs0 rk0 P0" and e1: "expr_at g b1 D1 ts1 fs1 rk1 P1" and dj: "D0 \<inter> D1 = {}"
  shows "\<exists>g'. gen_or b0 b1 g = Inr ((), g') \<and>
    joined (flipped b1 (flipped b0 g)) (flipped b1 g') b0 b1 fs0 ts1"
proof -
  note X = expr_atD [OF e0] and Y = expr_atD [OF e1]
  note X' = expr_atD [OF expr_at_flip [OF e0]]
  have b: "b0 \<noteq> b1" "b0 \<notin> set fs0" "b0 \<notin> set ts1" "b1 \<notin> set ts1" "b1 \<notin> set fs0"
    using X(4,5) Y(4,5) dj by auto
  have lt: "set (b0 # fs0) \<subseteq> {..<length (gn_blocks (flipped b0 g))}" "set (b1 # ts1) \<subseteq> {..<length (gn_blocks g)}"
    using X(1,5) Y(1,5) by auto
  have d0: "distinct (b0 # fs0)" and d1: "distinct (b1 # ts1)" using X(4) Y(4) by auto
  let ?F = "true_exits (flipped b0 g) b0 fs0"
  obtain g1 where g1: "backpatch b0 (gn_head g b1) (flipped b0 g) = Inr ((), g1)"
    "patched (flipped b0 g) g1 ?F (gn_head g b1)"
    using backpatch_run [OF X'(2) d0 lt(1)] by (auto simp: true_exits_def holes_Cons)
  note P = patchedD [OF g1(2)]
  let ?g2 = "flipped b0 g1"
  have nT: "(c, s) \<notin> ?F" if "c \<in> D1" for c s
    using that true_exit_in [OF X'(5)] dj by blast
  have h1: "hside g1 c = hside (flipped b0 g) c" for c by (simp add: hside_def P(1))
  have t: "target (gn_blocks ?g2) c s = target (gn_blocks g) c s" if "c \<in> D1" for c s
    using nT [OF that] P(6) by simp
  have D1: "b1 \<in> D1" "set ts1 \<subseteq> D1" using Y(5) by auto
  have h: "hole ?g2 c = hole g c" if "c \<in> set (b1 # ts1)" for c
    using t [of c] that D1 b h1 by (auto simp: hole_target)
  then have ch: "chain ?g2 (hole ?g2 b1) ts1" using Y(2) chain_cong [of ts1 ?g2 g] by simp
  have "set (b1 # ts1) \<subseteq> {..<length (gn_blocks ?g2)}" using lt(2) P(3) by simp
  then obtain g3 where g3: "merge b1 b0 ?g2 = Inr ((), g3)"
    "patched ?g2 g3 {(last (b1 # ts1), hside ?g2 (last (b1 # ts1)))} b0"
    using merge_run [OF ch d1] by blast
  let ?g = "flipped b1 (flipped b0 g)"
  have le: "(last (b1 # ts1), hside ?g2 (last (b1 # ts1))) = last_exit ?g b1 ts1"
  proof (cases "ts1 = []")
    case False
    then have "last ts1 \<noteq> b0" "last ts1 \<noteq> b1" using b last_in_set [OF False] by metis+
    then show ?thesis using False h1 by (simp add: last_exit_def)
  qed (use b h1 in \<open>simp add: last_exit_def\<close>)
  note Q = patchedD [OF g3(2) [unfolded le]]
  let ?g4 = "g3\<lparr>gn_head := (gn_head g3)(b1 := gn_head g3 b0)\<rparr>"
  have r: "gen_or b0 b1 g = Inr ((), ?g4)"
    unfolding gen_or_def by (simp add: get_head_def g1(1) flip_sense_run g3(1) set_head_run)
  have F: "true_exits ?g b0 fs0 = ?F"
    using b holes_flipped [of b1 fs0 "flipped b0 g"] by (simp add: true_exits_def)
  have "hside g3 c = hside ?g2 c" for c by (simp add: hside_def Q(1))
  then have "hside (flipped b1 ?g4) c = (if c = b0 then \<not> hside ?g b0 else hside ?g c)" for c
    using h1 b(1) by (simp add: hside_def flipped_def)
  moreover have "target (gn_blocks (flipped b1 ?g4)) c s =
      (if (c, s) \<in> ?F then Some (gn_head g b1)
       else if (c, s) = last_exit ?g b1 ts1 then Some b0 else target (gn_blocks g) c s)" for c s
  proof (cases "(c, s) = last_exit ?g b1 ts1")
    case True
    have "c \<in> D1"
    proof (cases "ts1 = []")
      case False
      then show ?thesis using True D1(2) last_in_set [OF False] by (auto simp: last_exit_def)
    qed (use True D1(1) in \<open>simp add: last_exit_def\<close>)
    from nT [OF this, of s] show ?thesis using True Q(6) [of c s] by simp
  next
    case False
    then show ?thesis using Q(6) [of c s] P(6) [of c s] by simp
  qed
  ultimately have "joined ?g (flipped b1 ?g4) b0 b1 fs0 ts1"
    using P(2-5) Q(2-5) unfolding joined_def F by simp
  then show ?thesis using r by blast
qed

end
