(* ===== verification/Gen_Triple.thy ===== *)
theory Gen_Triple
  imports Gen_Expr
begin

text \<open>
  Triples for generators over the pending expressions of the heap, one rule per combinator of
  \<^verbatim>\<open>gencode.c\<close>; and the graph \<open>finish_parse\<close> makes of the last expression, on which a
  walk gives what the expression's predicate says.
\<close>

section \<open>Triples\<close>

text \<open>Among the blocks \<open>A\<close> of the heap are those of the pending expressions \<open>xs\<close>; the others are not used any more.\<close>

fun owns :: "gen \<Rightarrow> (nat \<times> pred) list \<Rightarrow> nat set \<Rightarrow> bool" where
  "owns g [] A \<longleftrightarrow> A \<subseteq> {..<length (gn_blocks g)}"
| "owns g ((b, P) # xs) A \<longleftrightarrow> (\<exists>D ts fs rk. D \<subseteq> A \<and> expr_at g b D ts fs rk P \<and> owns g xs (A - D))"

lemma owns_sub: "owns g xs A \<Longrightarrow> A \<subseteq> {..<length (gn_blocks g)}"
proof (induction xs arbitrary: A)
  case (Cons x xs)
  obtain b P where x: "x = (b, P)" by (cases x)
  then obtain D ts fs rk where "D \<subseteq> A" "expr_at g b D ts fs rk P" "owns g xs (A - D)" using Cons.prems by auto
  then show ?case using Cons.IH [of "A - D"] expr_atD(1) by blast
qed simp

lemma owns_frame: "owns g xs A \<Longrightarrow> same_on A g g' \<Longrightarrow> owns g' xs A"
proof (induction xs arbitrary: A)
  case (Cons x xs)
  obtain b P where x: "x = (b, P)" by (cases x)
  then obtain D ts fs rk where D: "D \<subseteq> A" "expr_at g b D ts fs rk P" "owns g xs (A - D)" using Cons.prems by auto
  then have "expr_at g' b D ts fs rk P" "owns g' xs (A - D)"
    using Cons.IH [of "A - D"] expr_at_frame [OF D(2)] same_on_mono [OF Cons.prems(2)] by blast+
  then show ?case using x D(1) by auto
qed (simp add: same_on_def)

lemma owns_mono: "owns g xs A \<Longrightarrow> A \<subseteq> B \<Longrightarrow> B \<subseteq> {..<length (gn_blocks g)} \<Longrightarrow> owns g xs B"
proof (induction xs arbitrary: A B)
  case (Cons x xs)
  obtain b P where x: "x = (b, P)" by (cases x)
  then obtain D ts fs rk where D: "D \<subseteq> A" "expr_at g b D ts fs rk P" "owns g xs (A - D)" using Cons.prems by auto
  then have "owns g xs (B - D)" using Cons.IH [of "A - D" "B - D"] Cons.prems by blast
  then show ?case using x D Cons.prems(2) by (auto intro!: exI [of _ D])
qed simp

lemma owns_ConsI:
  "expr_at g b D ts fs rk P \<Longrightarrow> D \<subseteq> A \<Longrightarrow> owns g xs (A - D) \<Longrightarrow> owns g ((b, P) # xs) A"
  unfolding owns.simps by blast

lemma owns_append: "owns g (xs @ ys) A \<longleftrightarrow> (\<exists>B \<subseteq> A. owns g xs B \<and> owns g ys (A - B))"
proof (induction xs arbitrary: A)
  case Nil
  show ?case
  proof
    show "\<exists>B \<subseteq> A. owns g [] B \<and> owns g ys (A - B)" if "owns g ([] @ ys) A"
      using that by (intro exI [of _ "{}"]) simp
    show "owns g ([] @ ys) A" if "\<exists>B \<subseteq> A. owns g [] B \<and> owns g ys (A - B)"
    proof -
      obtain B where B: "B \<subseteq> A" "B \<subseteq> {..<length (gn_blocks g)}" "owns g ys (A - B)" using \<open>\<exists>B \<subseteq> A. _\<close> by auto
      have "A \<subseteq> {..<length (gn_blocks g)}" using B owns_sub [OF B(3)] by blast
      then show ?thesis using owns_mono [OF B(3), of A] by simp
    qed
  qed
next
  case (Cons x xs)
  obtain b P where x: "x = (b, P)" by (cases x)
  show ?case
  proof
    assume "owns g ((x # xs) @ ys) A"
    then obtain D ts fs rk B where D: "D \<subseteq> A" "expr_at g b D ts fs rk P"
      and B: "B \<subseteq> A - D" "owns g xs B" "owns g ys (A - D - B)"
      using x Cons.IH by auto
    moreover have "D \<union> B - D = B" "A - (D \<union> B) = A - D - B" using B(1) by auto
    ultimately have "owns g (x # xs) (D \<union> B)" "owns g ys (A - (D \<union> B))" "D \<union> B \<subseteq> A"
      using x owns_ConsI [OF D(2), of "D \<union> B" xs] by auto
    then show "\<exists>B \<subseteq> A. owns g (x # xs) B \<and> owns g ys (A - B)" by blast
  next
    assume "\<exists>B \<subseteq> A. owns g (x # xs) B \<and> owns g ys (A - B)"
    then obtain B D ts fs rk where B: "B \<subseteq> A" "owns g ys (A - B)"
      and D: "D \<subseteq> B" "expr_at g b D ts fs rk P" "owns g xs (B - D)"
      using x by auto
    have "A - D - (B - D) = A - B" using D(1) by auto
    then have "owns g (xs @ ys) (A - D)" using Cons.IH [of "A - D"] B D by (metis Diff_mono subset_refl)
    then show "owns g ((x # xs) @ ys) A" using x B(1) D(1,2) by auto
  qed
qed

lemma owns_swap: "owns g (x # y # xs) A \<Longrightarrow> owns g (y # x # xs) A"
proof -
  assume "owns g (x # y # xs) A"
  moreover obtain b P c Q where xy: "x = (b, P)" "y = (c, Q)" by (cases x; cases y)
  ultimately obtain D E ts fs rk ts' fs' rk' where
    D: "D \<subseteq> A" "expr_at g b D ts fs rk P" and E: "E \<subseteq> A - D" "expr_at g c E ts' fs' rk' Q"
    and xs: "owns g xs (A - D - E)" by auto
  have "A - D - E = A - E - D" "D \<subseteq> A - E" "E \<subseteq> A" using D E by auto
  then have "owns g (x # xs) (A - E)" using owns_ConsI [OF D(2)] xs xy(1) by simp
  then show ?thesis using owns_ConsI [OF E(2) \<open>E \<subseteq> A\<close>] xy(2) by simp
qed

text \<open>A generator turns the pending expressions \<open>xs\<close> into \<open>Q v\<close>, leaves the rest of the heap as it
  is, and loses no block.\<close>

definition hoare :: "(nat \<times> pred) list \<Rightarrow> 'a gm \<Rightarrow> ('a \<Rightarrow> (nat \<times> pred) list) \<Rightarrow> bool" where
  "hoare xs m Q \<longleftrightarrow> (\<forall>g A. owns g xs A \<longrightarrow>
     (\<exists>v g'. m g = Inr (v, g') \<and> length (gn_blocks g) \<le> length (gn_blocks g') \<and>
        same_on ({..<length (gn_blocks g)} - A) g g' \<and>
        owns g' (Q v) (A \<union> {length (gn_blocks g)..<length (gn_blocks g')})))"

lemma hoareI:
  assumes "\<And>g A. owns g xs A \<Longrightarrow> \<exists>v g'. m g = Inr (v, g') \<and> length (gn_blocks g) \<le> length (gn_blocks g') \<and>
        same_on ({..<length (gn_blocks g)} - A) g g' \<and>
        owns g' (Q v) (A \<union> {length (gn_blocks g)..<length (gn_blocks g')})"
  shows "hoare xs m Q"
  using assms unfolding hoare_def by blast

lemma same_on_refl: "same_on ({..<length (gn_blocks g)} - A) g g"
  by (auto simp: same_on_def)

lemma same_on_trans: "same_on D g g1 \<Longrightarrow> same_on D g1 g2 \<Longrightarrow> same_on D g g2"
  by (auto simp: same_on_def)

lemma hoare_ret: "hoare (Q v) (gret v) Q"
  by (rule hoareI) (auto simp: gret_def same_on_refl)

lemma hoare_bind:
  assumes m: "hoare xs m Q" and f: "\<And>v. hoare (Q v) (f v) R"
  shows "hoare xs (gbind m f) R"
proof (rule hoareI)
  fix g A assume o: "owns g xs A"
  obtain v g1 where g1: "m g = Inr (v, g1)" "length (gn_blocks g) \<le> length (gn_blocks g1)"
    "same_on ({..<length (gn_blocks g)} - A) g g1"
    "owns g1 (Q v) (A \<union> {length (gn_blocks g)..<length (gn_blocks g1)})"
    using m o unfolding hoare_def by blast
  let ?A = "A \<union> {length (gn_blocks g)..<length (gn_blocks g1)}"
  obtain w g2 where g2: "f v g1 = Inr (w, g2)" "length (gn_blocks g1) \<le> length (gn_blocks g2)"
    "same_on ({..<length (gn_blocks g1)} - ?A) g1 g2"
    "owns g2 (R w) (?A \<union> {length (gn_blocks g1)..<length (gn_blocks g2)})"
    using f [of v] g1(4) unfolding hoare_def by blast
  have "{..<length (gn_blocks g1)} - ?A = {..<length (gn_blocks g)} - A" using g1(2) by auto
  then have "same_on ({..<length (gn_blocks g)} - A) g g2" using same_on_trans [OF g1(3)] g2(3) by simp
  moreover have "?A \<union> {length (gn_blocks g1)..<length (gn_blocks g2)} =
      A \<union> {length (gn_blocks g)..<length (gn_blocks g2)}" using g1(2) g2(2) by auto
  ultimately show "\<exists>w g'. gbind m f g = Inr (w, g') \<and> length (gn_blocks g) \<le> length (gn_blocks g') \<and>
        same_on ({..<length (gn_blocks g)} - A) g g' \<and>
        owns g' (R w) (A \<union> {length (gn_blocks g)..<length (gn_blocks g')})"
    using g1 g2 by auto
qed

lemma hoare_pre: "hoare ys m Q \<Longrightarrow> (\<And>g A. owns g xs A \<Longrightarrow> owns g ys A) \<Longrightarrow> hoare xs m Q"
  unfolding hoare_def by blast

lemma hoare_post: "hoare xs m Q \<Longrightarrow> (\<And>v g A. owns g (Q v) A \<Longrightarrow> owns g (R v) A) \<Longrightarrow> hoare xs m R"
  unfolding hoare_def by blast

lemma hoare_frame:
  assumes m: "hoare xs m Q"
  shows "hoare (xs @ ys) m (\<lambda>v. Q v @ ys)"
proof (rule hoareI)
  fix g A assume o: "owns g (xs @ ys) A"
  then obtain B where B: "B \<subseteq> A" "owns g xs B" "owns g ys (A - B)" by (auto simp: owns_append)
  obtain v g1 where g1: "m g = Inr (v, g1)" "length (gn_blocks g) \<le> length (gn_blocks g1)"
    "same_on ({..<length (gn_blocks g)} - B) g g1"
    "owns g1 (Q v) (B \<union> {length (gn_blocks g)..<length (gn_blocks g1)})"
    using m B(2) unfolding hoare_def by blast
  have A: "A \<subseteq> {..<length (gn_blocks g)}" using owns_sub [OF o] .
  have y: "owns g1 ys (A - B)"
    using owns_frame [OF B(3)] same_on_mono [OF g1(3), of "A - B"] A by blast
  let ?B = "B \<union> {length (gn_blocks g)..<length (gn_blocks g1)}" and ?A = "A \<union> {length (gn_blocks g)..<length (gn_blocks g1)}"
  have "?A - ?B = A - B" "?B \<subseteq> ?A" using A B(1) by auto
  then have "owns g1 (Q v @ ys) ?A" unfolding owns_append using g1(4) y by metis
  moreover have "same_on ({..<length (gn_blocks g)} - A) g g1"
    by (rule same_on_mono [OF g1(3)]) (use B(1) in blast)
  ultimately show "\<exists>v g'. m g = Inr (v, g') \<and> length (gn_blocks g) \<le> length (gn_blocks g') \<and>
        same_on ({..<length (gn_blocks g)} - A) g g' \<and>
        owns g' (Q v @ ys) (A \<union> {length (gn_blocks g)..<length (gn_blocks g')})"
    using g1(1,2) by blast
qed

text \<open>\<open>m\<close> generates an expression that decides \<open>P\<close>.\<close>

definition makes :: "nat gm \<Rightarrow> pred \<Rightarrow> bool" where
  "makes m P \<longleftrightarrow> hoare [] m (\<lambda>b. [(b, P)])"

lemma hoare_makes: "makes m P \<Longrightarrow> hoare xs m (\<lambda>b. (b, P) # xs)"
  using hoare_frame [of "[]" m "\<lambda>b. [(b, P)]" xs] by (simp add: makes_def)

lemma makesI: "hoare [] m (\<lambda>b. [(b, P)]) \<Longrightarrow> makes m P"
  by (simp add: makes_def)

lemma hoare_and: "hoare ((b0, P) # (b1, Q) # xs) (gen_and b0 b1) (\<lambda>_. (b1, p_and P Q) # xs)"
proof (rule hoareI)
  fix g A assume "owns g ((b0, P) # (b1, Q) # xs) A"
  then obtain D0 ts0 fs0 rk0 D1 ts1 fs1 rk1 where D0: "D0 \<subseteq> A" "expr_at g b0 D0 ts0 fs0 rk0 P"
    and D1: "D1 \<subseteq> A - D0" "expr_at g b1 D1 ts1 fs1 rk1 Q" and xs: "owns g xs (A - D0 - D1)" by auto
  have dj: "D0 \<inter> D1 = {}" using D1 by blast
  obtain g' where g': "gen_and b0 b1 g = Inr ((), g')" "joined g g' b0 b1 ts0 fs1"
    using gen_and_run [OF D0(2) D1(2) dj] by blast
  have f: "same_on E g g'" if "E \<subseteq> {..<length (gn_blocks g)}" "E \<inter> (D0 \<union> D1) = {}" for E
    by (rule joined_frame [OF g'(2) _ _ that])
      (use expr_atD(5) [OF D0(2)] expr_atD(5) [OF D1(2)] in auto)
  have "A \<subseteq> {..<length (gn_blocks g)}" using xs expr_atD(1) [OF D0(2)] expr_atD(1) [OF D1(2)] owns_sub [OF xs] by auto
  then have s: "same_on ({..<length (gn_blocks g)} - A) g g'" "same_on (A - D0 - D1) g g'"
    using D0(1) D1(1) by (auto intro: f)
  have A: "A - (D0 \<union> D1) = A - D0 - D1" "D0 \<union> D1 \<subseteq> A" using D0(1) D1(1) by auto
  have "owns g' xs (A - (D0 \<union> D1))" unfolding A(1) by (rule owns_frame [OF xs s(2)])
  then have "owns g' ((b1, p_and P Q) # xs) A"
    using expr_at_joined [OF D0(2) D1(2) dj g'(2)] A(2) by (blast intro: owns_ConsI)
  then show "\<exists>v g'. gen_and b0 b1 g = Inr (v, g') \<and> length (gn_blocks g) \<le> length (gn_blocks g') \<and>
        same_on ({..<length (gn_blocks g)} - A) g g' \<and>
        owns g' ((b1, p_and P Q) # xs) (A \<union> {length (gn_blocks g)..<length (gn_blocks g')})"
    using g'(1) s(1) joinedD(1) [OF g'(2)] by auto
qed

lemma same_on_flipped: "b \<notin> E \<Longrightarrow> E \<subseteq> {..<length (gn_blocks g)} \<Longrightarrow> same_on E g (flipped b g)"
  by (auto simp: same_on_def flipped_def)

lemma hoare_not: "hoare ((b, P) # xs) (gen_not b) (\<lambda>_. (b, p_not P) # xs)"
proof (rule hoareI)
  fix g A assume o: "owns g ((b, P) # xs) A"
  then obtain D ts fs rk where D: "D \<subseteq> A" "expr_at g b D ts fs rk P" and xs: "owns g xs (A - D)" by auto
  have b: "b \<in> D" using expr_atD(5) [OF D(2)] by simp
  have s: "same_on ({..<length (gn_blocks g)} - A) g (flipped b g)" "same_on (A - D) g (flipped b g)"
    using b D(1) owns_sub [OF o] by (auto intro!: same_on_flipped)
  show "\<exists>v g'. gen_not b g = Inr (v, g') \<and> length (gn_blocks g) \<le> length (gn_blocks g') \<and>
        same_on ({..<length (gn_blocks g)} - A) g g' \<and>
        owns g' ((b, p_not P) # xs) (A \<union> {length (gn_blocks g)..<length (gn_blocks g')})"
    using s expr_at_flip [OF D(2)] owns_frame [OF xs s(2)] D(1)
    by (auto simp: gen_not_def flip_sense_run)
qed

lemma p_or_not: "p_not (p_and (p_not P) (p_not Q)) = p_or P Q"
proof
  fix pk show "p_not (p_and (p_not P) (p_not Q)) pk = p_or P Q pk"
  proof (cases "P pk")
    case (Next v)
    then show ?thesis by (cases v; cases "Q pk") (simp_all add: p_not_def p_and_def p_or_def)
  qed (simp_all add: p_not_def p_and_def p_or_def)
qed

lemma hoare_or: "hoare ((b0, P) # (b1, Q) # xs) (gen_or b0 b1) (\<lambda>_. (b1, p_or P Q) # xs)"
proof (rule hoareI)
  fix g A assume "owns g ((b0, P) # (b1, Q) # xs) A"
  then obtain D0 ts0 fs0 rk0 D1 ts1 fs1 rk1 where D0: "D0 \<subseteq> A" "expr_at g b0 D0 ts0 fs0 rk0 P"
    and D1: "D1 \<subseteq> A - D0" "expr_at g b1 D1 ts1 fs1 rk1 Q" and xs: "owns g xs (A - D0 - D1)" by auto
  have dj: "D0 \<inter> D1 = {}" using D1 by blast
  let ?g = "flipped b1 (flipped b0 g)"
  obtain g' where g': "gen_or b0 b1 g = Inr ((), g')" "joined ?g (flipped b1 g') b0 b1 fs0 ts1"
    using gen_or_run [OF D0(2) D1(2) dj] by blast
  have b: "b0 \<in> D0" "b1 \<in> D1" using expr_atD(5) [OF D0(2)] expr_atD(5) [OF D1(2)] by auto
  have lt: "A \<subseteq> {..<length (gn_blocks g)}"
    using expr_atD(1) [OF D0(2)] expr_atD(1) [OF D1(2)] owns_sub [OF xs] by auto
  have fl: "same_on E g ?g" if "E \<subseteq> {..<length (gn_blocks g)}" "b0 \<notin> E" "b1 \<notin> E" for E
    using that by (auto simp: same_on_def flipped_def)
  have "expr_at (flipped b0 g) b1 D1 ts1 fs1 rk1 Q"
    by (rule expr_at_frame [OF D1(2) same_on_flipped]) (use b dj expr_atD(1) [OF D1(2)] in auto)
  then have e1: "expr_at ?g b1 D1 fs1 ts1 rk1 (p_not Q)" by (rule expr_at_flip)
  have e0: "expr_at ?g b0 D0 fs0 ts0 rk0 (p_not P)"
    by (rule expr_at_frame [OF expr_at_flip [OF D0(2)] same_on_flipped])
      (use b dj expr_atD(1) [OF D0(2)] in auto)
  have f: "same_on E g g'" if E: "E \<subseteq> {..<length (gn_blocks g)}" "E \<inter> (D0 \<union> D1) = {}" for E
  proof -
    have nb: "b0 \<notin> E" "b1 \<notin> E" using b E(2) by auto
    have "same_on E ?g (flipped b1 g')"
      by (rule joined_frame [OF g'(2), of ts0 "D0 \<union> D1" fs1])
        (use E expr_atD(5) [OF e0] expr_atD(5) [OF e1] in auto)
    moreover have "same_on E (flipped b1 g') (flipped b1 (flipped b1 g'))"
      using nb(2) joinedD(1) [OF g'(2)] E(1) by (intro same_on_flipped) simp_all
    ultimately have "same_on E ?g g'" using same_on_trans by fastforce
    then show ?thesis using same_on_trans [OF fl [OF E(1) nb]] by blast
  qed
  have s: "same_on ({..<length (gn_blocks g)} - A) g g'" "same_on (A - D0 - D1) g g'"
    using D0(1) D1(1) lt by (auto intro: f)
  have e: "\<exists>rk. expr_at g' b1 (D0 \<union> D1) (ts1 @ b0 # ts0) fs1 rk (p_or P Q)"
    using expr_at_flip [OF expr_at_joined [OF e0 e1 dj g'(2)]] by (auto simp: p_or_not)
  have A: "A - (D0 \<union> D1) = A - D0 - D1" "D0 \<union> D1 \<subseteq> A" using D0(1) D1(1) by auto
  have "owns g' xs (A - (D0 \<union> D1))" unfolding A(1) by (rule owns_frame [OF xs s(2)])
  then have "owns g' ((b1, p_or P Q) # xs) A" using e A(2) by (blast intro: owns_ConsI)
  then show "\<exists>v g'. gen_or b0 b1 g = Inr (v, g') \<and> length (gn_blocks g) \<le> length (gn_blocks g') \<and>
        same_on ({..<length (gn_blocks g)} - A) g g' \<and>
        owns g' ((b1, p_or P Q) # xs) (A \<union> {length (gn_blocks g)..<length (gn_blocks g')})"
    using g'(1) s(1) joinedD(1) [OF g'(2)] by auto
qed

text \<open>The order in which the two expressions were generated does not matter.\<close>

lemma hoare_and': "hoare ((b1, Q) # (b0, P) # xs) (gen_and b0 b1) (\<lambda>_. (b1, p_and P Q) # xs)"
  by (rule hoare_pre [OF hoare_and]) (rule owns_swap)

lemma hoare_or': "hoare ((b1, Q) # (b0, P) # xs) (gen_or b0 b1) (\<lambda>_. (b1, p_or P Q) # xs)"
  by (rule hoare_pre [OF hoare_or]) (rule owns_swap)

section \<open>The finished graph\<close>

definition empty_gen :: gen where
  "empty_gen = \<lparr>gn_blocks = [], gn_sense = (\<lambda>_. False), gn_head = (\<lambda>_. 0)\<rparr>"

definition ret_block :: "u32 \<Rightarrow> block" where
  "ret_block v = \<lparr>b_stmts = [], b_s = new_stmt (BPF_RET OR BPF_K) v, b_jt = None, b_jf = None\<rparr>"

lemma gen_retblk_run: "gen_retblk v g = Inr (length (gn_blocks g),
    \<lparr>gn_blocks = gn_blocks g @ [ret_block v], gn_sense = (gn_sense g)(length (gn_blocks g) := False),
     gn_head = (gn_head g)(length (gn_blocks g) := length (gn_blocks g))\<rparr>)"
  by (simp add: gen_retblk_def new_block_def set_k_def gret_def ret_block_def new_stmt_def upd_block_def Let_def)

lemma retblk_same_on:
  "same_on {..<length (gn_blocks g)} g \<lparr>gn_blocks = gn_blocks g @ [x], gn_sense = (gn_sense g)(length (gn_blocks g) := s),
     gn_head = (gn_head g)(length (gn_blocks g) := h)\<rparr>"
  by (auto simp: same_on_def nth_append)

text \<open>The graph \<open>finish_parse\<close> leaves: the exits lead to the two returns.\<close>

definition finished :: "nat set \<Rightarrow> gen \<Rightarrow> gen \<Rightarrow> u32 \<Rightarrow> (nat \<times> bool) set \<Rightarrow> (nat \<times> bool) set \<Rightarrow> bool" where
  "finished D g g' snaplen T F \<longleftrightarrow> (let n = length (gn_blocks g) in
     length (gn_blocks g') = n + 2 \<and> gn_blocks g' ! n = ret_block snaplen \<and> gn_blocks g' ! (n + 1) = ret_block 0 \<and>
     (\<forall>c \<in> D. b_stmts (gn_blocks g' ! c) = b_stmts (gn_blocks g ! c) \<and> b_s (gn_blocks g' ! c) = b_s (gn_blocks g ! c)) \<and>
     (\<forall>c \<in> D. \<forall>s. target (gn_blocks g') c s =
        (if (c, s) \<in> T then Some n else if (c, s) \<in> F then Some (n + 1) else target (gn_blocks g) c s)))"

lemma block_eqI:
  assumes "b_stmts (g' ! c) = b_stmts (g ! c)" and "b_s (g' ! c) = b_s (g ! c)"
    and "\<And>s. target g' c s = target g c s"
  shows "g' ! c = (g ! c :: block)"
  using assms(1,2) assms(3) [of True] assms(3) [of False] by (simp add: target_def JT_def JF_def)

lemma finish_parse_run:
  assumes e: "expr_at g p D ts fs rk P"
  shows "\<exists>g'. finish_parse snaplen p g = Inr (gn_head g p, g') \<and>
    finished D g g' snaplen (true_exits g p ts) (false_exits g p fs)"
proof -
  let ?n = "length (gn_blocks g)" and ?T = "true_exits g p ts" and ?F = "false_exits g p fs"
  note X = expr_atD [OF e]
  have D: "D \<subseteq> {..<?n}" by (rule X(1))
  obtain g1 where r1: "gen_retblk snaplen g = Inr (?n, g1)"
    and g1: "gn_blocks g1 = gn_blocks g @ [ret_block snaplen]" "same_on {..<?n} g g1"
    using gen_retblk_run [of snaplen g] retblk_same_on by fastforce
  note g1 = g1(1) same_on_mono [OF g1(2) D]
  note e1 = expr_at_frame [OF e g1(2)]
  note X1 = expr_atD [OF e1]
  have p: "p \<in> D" "p < ?n" "set ts \<subseteq> D" "set fs \<subseteq> D" using X(5) D by auto
  have ex: "true_exits g1 p ts = ?T" "false_exits g1 p fs = ?F"
    using same_onD(2) [OF g1(2)] p holes_same [of ts g1 g] holes_same [of fs g1 g]
    by (auto simp: true_exits_def false_exits_def)
  have d: "distinct (p # ts)" "distinct (p # fs)" "p \<notin> set ts" "p \<notin> set fs" using X(4) by auto
  have lt: "set (p # ts) \<subseteq> {..<length (gn_blocks g1)}" "set (p # fs) \<subseteq> {..<length (gn_blocks g1)}"
    using X1(1,5) by auto
  obtain g2 where g2: "backpatch p ?n g1 = Inr ((), g2)" "patched g1 g2 ?T ?n"
    using backpatch_run [OF X1(2) d(1) lt(1)] ex(1) by (auto simp: true_exits_def holes_Cons)
  note P2 = patchedD [OF g2(2)]
  let ?g3 = "flipped p g2"
  obtain g4 where r4: "gen_retblk 0 ?g3 = Inr (length (gn_blocks ?g3), g4)"
    and g4: "gn_blocks g4 = gn_blocks ?g3 @ [ret_block 0]" "same_on {..<length (gn_blocks ?g3)} ?g3 g4"
    using gen_retblk_run [of 0 ?g3] retblk_same_on [of ?g3] by fastforce
  have l3: "length (gn_blocks ?g3) = ?n + 1" using P2(3) g1(1) by simp
  have nT: "(c, s) \<notin> ?T" if "(c, s) \<in> ?F" for c s using that exits_disjoint [OF X(4), of g] by blast
  have h4: "hside g4 c = (if c = p then \<not> hside g p else hside g c)" if "c \<in> D" for c
  proof -
    have "hside g4 c = hside ?g3 c" by (rule same_onD(2) [OF g4(2)]) (use that l3 D in auto)
    moreover have "hside g2 c = hside g1 c" "hside g2 p = hside g1 p" by (simp_all add: hside_def P2(1))
    ultimately show ?thesis using same_onD(2) [OF g1(2) that] same_onD(2) [OF g1(2) p(1)] by simp
  qed
  have t4: "target (gn_blocks g4) c s = (if (c, s) \<in> ?T then Some ?n else target (gn_blocks g) c s)" if "c \<in> D" for c s
  proof -
    have "target (gn_blocks g4) c s = target (gn_blocks ?g3) c s"
      by (rule same_onD(4) [OF g4(2)]) (use that l3 D in auto)
    then show ?thesis using P2(6) [of c s] same_onD(4) [OF g1(2) that, of s] by simp
  qed
  have Fp: "(p, \<not> hside g p) \<in> ?F" by (simp add: false_exits_def)
  have "hole g4 p = target (gn_blocks g) p (\<not> hside g p)"
    using t4 [OF p(1)] h4 [OF p(1)] nT [OF Fp] by (simp add: hole_target)
  moreover have "hole g4 c = hole g c" if c: "c \<in> set fs" for c
  proof -
    have "(c, hside g c) \<in> ?F" using c by (auto simp: false_exits_def holes_def)
    then show ?thesis using t4 [of c] h4 [of c] c p(4) d(4) nT [of c "hside g c"] by (auto simp: hole_target)
  qed
  ultimately have ch: "chain g4 (hole g4 p) fs" using X(3) chain_cong [of fs g4 g] by simp
  have lt4: "set (p # fs) \<subseteq> {..<length (gn_blocks g4)}" using g4(1) l3 lt(2) g1(1) by auto
  have "hside g4 c = hside g c" if "c \<in> set fs" for c
  proof -
    have "c \<in> D" "c \<noteq> p" using that p(4) d(4) by auto
    then show ?thesis using h4 by simp
  qed
  then have "holes g4 fs = holes g fs" by (rule holes_same)
  then have "holes g4 (p # fs) = ?F" using h4 [OF p(1)] by (simp add: false_exits_def holes_Cons)
  then obtain g5 where g5: "backpatch p (?n + 1) g4 = Inr ((), g5)" "patched g4 g5 ?F (?n + 1)"
    using backpatch_run [OF ch d(2) lt4, of "?n + 1"] by auto
  note P5 = patchedD [OF g5(2)]
  have gh: "gn_head g5 p = gn_head g p"
  proof -
    have "gn_head g4 p = gn_head ?g3 p" by (rule same_onD(3) [OF g4(2)]) (use p l3 in auto)
    then show ?thesis using P5(2) P2(2) same_onD(3) [OF g1(2) p(1)] by simp
  qed
  have run: "finish_parse snaplen p g = Inr (gn_head g p, g5)"
    unfolding finish_parse_def using r1 g2(1) r4 l3 g5(1) gh by (simp add: flip_sense_run get_head_def)
  have n4: "length (gn_blocks g4) = ?n + 2" using g4(1) l3 by simp
  have big: "gn_blocks g5 ! c = gn_blocks g4 ! c" if "c \<ge> ?n" for c
  proof (rule block_eqI)
    have "(c, s) \<notin> ?F" for s using false_exit_in [OF X(5), of c s g] D that by auto
    then show "target (gn_blocks g5) c s = target (gn_blocks g4) c s" for s using P5(6) [of c s] by simp
  qed (use P5(4,5) in auto)
  have n2: "gn_blocks g2 ! ?n = gn_blocks g1 ! ?n"
  proof (rule block_eqI)
    have "(?n, s) \<notin> ?T" for s using true_exit_in [OF X(5), of ?n s g] D by auto
    then show "target (gn_blocks g2) ?n s = target (gn_blocks g1) ?n s" for s using P2(6) [of ?n s] by simp
  qed (use P2(4,5) in auto)
  have "gn_blocks g5 ! ?n = ret_block snaplen"
    using big [of ?n] n2 g4(1) l3 g1(1) by (simp add: nth_append)
  moreover have "gn_blocks g5 ! (?n + 1) = ret_block 0"
    using big [of "?n + 1"] g4(1) l3 by (simp add: nth_append)
  moreover have "b_stmts (gn_blocks g5 ! c) = b_stmts (gn_blocks g ! c)" "b_s (gn_blocks g5 ! c) = b_s (gn_blocks g ! c)"
    if "c \<in> D" for c
    using that D P5(4,5) P2(4,5) g4(1) l3 g1(1) by (auto simp add: nth_append)
  moreover have "target (gn_blocks g5) c s =
      (if (c, s) \<in> ?T then Some ?n else if (c, s) \<in> ?F then Some (?n + 1) else target (gn_blocks g) c s)"
    if "c \<in> D" for c s
    using P5(6) [of c s] t4 [of c s] that nT [of c s] by auto
  ultimately have "finished D g g5 snaplen ?T ?F"
    using P5(3) n4 unfolding finished_def by (simp add: Let_def)
  then show ?thesis using run by blast
qed

text \<open>A walk of the finished graph.\<close>

lemma exec_block_test:
  assumes "gen_block_ok (g ! c)"
  shows "exec_block g pk (c, r) =
    and_then (test_block g pk c r) (\<lambda>(s, r'). case target g c s of Some t \<Rightarrow> Next (t, r') | None \<Rightarrow> Abort)"
proof -
  obtain j x where "decode (s_code (b_s (g ! c))) = Some (Jmp j x)" using assms by (auto simp: gen_block_ok_def)
  then show ?thesis
    by (cases "exec_stmts pk (b_stmts (g ! c)) r")
      (auto simp: exec_block_def exec_branch_def test_block_def target_def Let_def split: option.splits)
qed

lemma graph_loop_ret: "g ! c = ret_block v \<Longrightarrow> graph_loop g pk (c, r) = Some (Ret v)"
  using decode_opcode [of RetK]
  by (subst graph_loop.simps) (simp add: exec_block_def exec_branch_def ret_block_def new_stmt_def)

definition filter_result :: "u32 \<Rightarrow> bool outcome \<Rightarrow> unit outcome" where
  "filter_result snaplen z = and_then z (\<lambda>v. Ret (if v then snaplen else 0))"

lemma runs_finished:
  assumes "runs (gn_blocks g) (T \<union> F) D pk c r z"
    and f: "finished D g g' snaplen T F" and ok: "\<forall>c \<in> D. gen_block_ok (gn_blocks g ! c)"
  shows "graph_loop (gn_blocks g') pk (c, r) = Some (filter_result snaplen (verdict T z))"
  using assms(1)
proof (induction rule: runs.induct)
  case (runs_leave c r s r')
  let ?n = "length (gn_blocks g)"
  note c = runs_leave(1)
  have b: "b_stmts (gn_blocks g' ! c) = b_stmts (gn_blocks g ! c) \<and> b_s (gn_blocks g' ! c) = b_s (gn_blocks g ! c)"
    "target (gn_blocks g') c s = (if (c, s) \<in> T then Some ?n else Some (?n + 1))"
    using f c runs_leave(3) unfolding finished_def Let_def by auto
  have "exec_block (gn_blocks g') pk (c, r) = Next (if (c, s) \<in> T then ?n else ?n + 1, r')"
    using exec_block_test [of "gn_blocks g'" c pk r] ok c b test_block_cong [OF b(1)] runs_leave(2)
    by (simp add: gen_block_ok_def)
  moreover have "graph_loop (gn_blocks g') pk (?n, r') = Some (Ret snaplen)"
    "graph_loop (gn_blocks g') pk (?n + 1, r') = Some (Ret 0)"
    using f unfolding finished_def Let_def by (auto intro: graph_loop_ret)
  ultimately show ?case by (subst graph_loop.simps) (simp add: verdict_def filter_result_def)
next
  case (runs_go c r s r' d z)
  note c = runs_go(1)
  have b: "b_stmts (gn_blocks g' ! c) = b_stmts (gn_blocks g ! c) \<and> b_s (gn_blocks g' ! c) = b_s (gn_blocks g ! c)"
    "target (gn_blocks g') c s = Some d"
    using f c runs_go(3,4) unfolding finished_def Let_def by auto
  have "exec_block (gn_blocks g') pk (c, r) = Next (d, r')"
    using exec_block_test [of "gn_blocks g'" c pk r] ok c b test_block_cong [OF b(1)] runs_go(2)
    by (simp add: gen_block_ok_def)
  then show ?case using runs_go.IH by (subst graph_loop.simps) simp
next
  case (runs_stop c r z)
  note c = runs_stop(1)
  have b: "b_stmts (gn_blocks g' ! c) = b_stmts (gn_blocks g ! c) \<and> b_s (gn_blocks g' ! c) = b_s (gn_blocks g ! c)"
    using f c unfolding finished_def Let_def by auto
  have "exec_block (gn_blocks g') pk (c, r) =
      and_then z (\<lambda>(s, r'). case target (gn_blocks g') c s of Some t \<Rightarrow> Next (t, r') | None \<Rightarrow> Abort)"
    using exec_block_test [of "gn_blocks g'" c pk r] ok c b test_block_cong [OF b] runs_stop(2)
    by (simp add: gen_block_ok_def)
  then show ?case
  proof (cases z)
    case (Next x)
    then show ?thesis using runs_stop(3) [of x] by simp
  qed (subst graph_loop.simps, simp add: verdict_def filter_result_def)+
qed

text \<open>The finished graph has the blocks of the generator and the two returns.\<close>

definition plain_graph :: "u32 \<Rightarrow> graph \<Rightarrow> bool" where
  "plain_graph snaplen g \<longleftrightarrow>
     list_all (\<lambda>b. gen_block_ok b \<or> b = ret_block snaplen \<or> b = ret_block 0) g"

lemma plain_graph_divs: "plain_graph snaplen g \<Longrightarrow> divs_ok g"
  using plain_stmt_ok by (auto simp: plain_graph_def divs_ok_def list_all_iff gen_block_ok_def ret_block_def)

lemma finished_wf:
  assumes e: "expr_at g p D ts fs rk P" and f: "finished D g g' snaplen (true_exits g p ts) (false_exits g p fs)"
    and dead: "\<forall>c < length (gn_blocks g). c \<notin> D \<longrightarrow> gn_blocks g' ! c = ret_block 0"
  shows "graph_wf (gn_blocks g')" and "plain_graph snaplen (gn_blocks g')"
    and "ranked (\<lambda>c. if c \<in> D then rk c + 1 else 0) (gn_blocks g')"
proof -
  let ?n = "length (gn_blocks g)" and ?g = "gn_blocks g'"
  let ?rk = "\<lambda>c. if c \<in> D then rk c + 1 else 0"
  note X = expr_atD [OF e]
  have n: "length ?g = ?n + 2" "?n \<notin> D" "Suc ?n \<notin> D" and r: "?g ! ?n = ret_block snaplen" "?g ! (?n + 1) = ret_block 0"
    using f X(1) unfolding finished_def Let_def by auto
  have ret: "\<exists>v. ?g ! c = ret_block v \<and> (v = snaplen \<or> v = 0)" if "c < length ?g" "c \<notin> D" for c
  proof -
    have "c < ?n \<or> c = ?n \<or> c = ?n + 1" using that(1) n(1) by linarith
    then consider "c < ?n" | "c = ?n" | "c = ?n + 1" by blast
    then show ?thesis using dead that(2) r by cases auto
  qed
  have t: "\<exists>d < length ?g. target ?g c s = Some d \<and> ?rk d < ?rk c" if c: "c \<in> D" for c s
  proof -
    have e: "target ?g c s = (if (c, s) \<in> true_exits g p ts then Some ?n
        else if (c, s) \<in> false_exits g p fs then Some (?n + 1) else target (gn_blocks g) c s)"
      using f c unfolding finished_def Let_def by blast
    show ?thesis
    proof (cases "(c, s) \<in> true_exits g p ts \<union> false_exits g p fs")
      case False
      then obtain d where "d \<in> D" "target (gn_blocks g) c s = Some d" "rk d < rk c"
        using X(8) [of c s] c by auto
      then show ?thesis using e False c n(1) X(1) by auto
    qed (use e c n in auto)
  qed
  have ok: "gen_block_ok (?g ! c)" if c: "c \<in> D" for c
    using X(7) [of c] f c unfolding finished_def Let_def gen_block_ok_def by auto
  have jt: "\<exists>t fl. b_jt (?g ! c) = Some t \<and> b_jf (?g ! c) = Some fl \<and> t < length ?g \<and> fl < length ?g \<and>
      ?rk t < ?rk c \<and> ?rk fl < ?rk c" if c: "c \<in> D" for c
  proof -
    obtain d e where d: "d < length ?g" "target ?g c True = Some d" "?rk d < ?rk c"
      and e: "e < length ?g" "target ?g c False = Some e" "?rk e < ?rk c"
      using t [OF c, of True] t [OF c, of False] by blast
    have "b_jt (?g ! c) = Some d" "b_jf (?g ! c) = Some e"
      using d(2) e(2) by (simp_all add: target_def JT_def JF_def)
    then show ?thesis using d e by (intro exI [of _ d] exI [of _ e]) simp
  qed
  have "graph_ok ?g"
    unfolding graph_ok_def list_all_length
  proof (intro allI impI)
    fix c assume "c < length ?g"
    then show "case (b_jt (?g ! c), b_jf (?g ! c)) of (None, None) \<Rightarrow> True
        | (Some t, Some f) \<Rightarrow> t < length ?g \<and> f < length ?g | _ \<Rightarrow> False"
      using jt [of c] ret [of c] by (cases "c \<in> D") (auto simp: ret_block_def)
  qed
  moreover have "list_all block_ok ?g"
    unfolding list_all_length
  proof (intro allI impI)
    fix c assume c: "c < length ?g"
    show "block_ok (?g ! c)"
    proof (cases "c \<in> D")
      case True
      then show ?thesis using ok [OF True] jt [OF True] plain_stmt_ok by (auto simp: gen_block_ok_def block_ok_def list_all_iff)
    qed (use ret [OF c] decode_opcode [of RetK] in \<open>auto simp: ret_block_def block_ok_def new_stmt_def\<close>)
  qed
  ultimately show "graph_wf ?g" by (simp add: graph_wf_def)
  show "plain_graph snaplen ?g"
    unfolding plain_graph_def list_all_length using ok ret by blast
  show "ranked ?rk ?g"
    unfolding ranked_def list_all_iff
  proof (intro ballI)
    fix c k assume c: "c \<in> set [0..<length ?g]" and k: "k \<in> set (kids ?g c)"
    show "?rk k < ?rk c"
    proof (cases "c \<in> D")
      case True
      then show ?thesis using jt [OF True] k by (auto simp: kids_def opt_list_def JT_def JF_def split: option.splits)
    qed (use ret [of c] c k in \<open>auto simp: ret_block_def kids_def opt_list_def JT_def JF_def\<close>)
  qed
qed

text \<open>The blocks that are not used any more do not matter to the back end: it only looks at the blocks it reaches.\<close>

definition same_reach :: "nat set \<Rightarrow> graph \<Rightarrow> graph \<Rightarrow> bool" where
  "same_reach S g h \<longleftrightarrow> length g = length h \<and> (\<forall>c \<in> S. h ! c = g ! c \<and> set (kids g c) \<subseteq> S)"

lemma same_reachD:
  assumes "same_reach S g h" and "c \<in> S"
  shows "h ! c = g ! c" "JT h c = JT g c" "JF h c = JF g c" "JT g c = Some d \<Longrightarrow> d \<in> S" "JF g c = Some d \<Longrightarrow> d \<in> S"
  using assms by (auto simp: same_reach_def JT_def JF_def kids_def opt_list_def)

lemma kid_in_reach:
  assumes "same_reach S g h" and "c \<in> S"
  shows "case JT g c of None \<Rightarrow> True | Some d \<Rightarrow> d \<in> S" and "case JF g c of None \<Rightarrow> True | Some d \<Rightarrow> d \<in> S"
  using same_reachD(4,5) [OF assms] by (auto split: option.split)

lemma count_stmts_reach:
  "(case p of None \<Rightarrow> True | Some c \<Rightarrow> c \<in> S) \<Longrightarrow> same_reach S g h \<Longrightarrow> count_stmts n h l p M = count_stmts n g l p M"
proof (induction n g l p M rule: count_stmts.induct)
  case (3 n g l p M)
  then have p: "p \<in> S" by simp
  note r = same_reachD(1-3) [OF "3.prems"(2) p] kid_in_reach [OF "3.prems"(2) p]
  show ?case
  proof (cases "p \<in> M")
    case False
    then show ?thesis using "3.IH" "3.prems"(2) r by (simp cong: sum.case_cong prod.case_cong)
  qed simp
qed simp_all

lemma emit_branch_reach:
  assumes "same_reach S g h" and "p \<in> S" shows "emit_branch h l offs p slen = emit_branch g l offs p slen"
  by (simp only: emit_branch_def same_reachD(1-3) [OF assms])

lemma place_block_reach:
  assumes "same_reach S g h" and "p \<in> S" shows "place_block h l p st = place_block g l p st"
  by (simp only: place_block_def same_reachD(1) [OF assms] emit_branch_reach [OF assms])

lemma convert_code_reach:
  "(case p of None \<Rightarrow> True | Some c \<Rightarrow> c \<in> S) \<Longrightarrow> same_reach S g h \<Longrightarrow> convert_code_r n h l p st = convert_code_r n g l p st"
proof (induction n g l p st rule: convert_code_r.induct)
  case (3 n g l p st)
  then have p: "p \<in> S" by simp
  note r = same_reachD(1-3) [OF "3.prems"(2) p] kid_in_reach [OF "3.prems"(2) p] place_block_reach [OF "3.prems"(2) p]
  show ?case
  proof (cases "p \<in> cv_marked st")
    case False
    then show ?thesis using "3.IH" "3.prems"(2) r by (simp cong: sum.case_cong)
  qed simp
qed simp_all

lemma icode_reach:
  assumes "same_reach S g h" and "root \<in> S"
  shows "icode_to_fcode h root = icode_to_fcode g root"
proof -
  have root: "case Some root of None \<Rightarrow> True | Some c \<Rightarrow> c \<in> S" using assms(2) by simp
  have len: "length h = length g" using assms(1) by (simp add: same_reach_def)
  have "icode_loop m h root l offs = icode_loop m g root l offs" for m l offs
  proof (induction m arbitrary: l offs)
    case (Suc m)
    show ?case
      unfolding icode_loop.simps count_stmts_reach [OF root assms(1)] convert_code_reach [OF root assms(1)] len Suc.IH ..
  qed simp
  then show ?thesis by (simp only: icode_to_fcode_def len)
qed

definition cleaned :: "nat set \<Rightarrow> nat \<Rightarrow> gen \<Rightarrow> gen" where
  "cleaned D n g = g\<lparr>gn_blocks := map (\<lambda>c. if c \<in> D \<or> n \<le> c then gn_blocks g ! c else ret_block 0) [0..<length (gn_blocks g)]\<rparr>"

lemma cleaned_nth:
  "c < length (gn_blocks g) \<Longrightarrow> gn_blocks (cleaned D n g) ! c = (if c \<in> D \<or> n \<le> c then gn_blocks g ! c else ret_block 0)"
  "length (gn_blocks (cleaned D n g)) = length (gn_blocks g)"
  by (simp_all add: cleaned_def)

lemma finished_cleaned:
  assumes "finished D g g' snaplen T F" and "D \<subseteq> {..<length (gn_blocks g)}"
  shows "finished D g (cleaned D (length (gn_blocks g)) g') snaplen T F"
proof -
  let ?n = "length (gn_blocks g)" and ?h = "cleaned D (length (gn_blocks g)) g'"
  have l: "length (gn_blocks g') = ?n + 2" using assms(1) by (simp add: finished_def Let_def)
  have "gn_blocks ?h ! c = gn_blocks g' ! c" if "c \<in> D \<or> c = ?n \<or> c = ?n + 1" for c
    using that assms(2) l by (auto simp: cleaned_nth)
  moreover from this have "target (gn_blocks ?h) c s = target (gn_blocks g') c s" if "c \<in> D" for c s
    using that by (simp add: target_def JT_def JF_def)
  ultimately show ?thesis using assms(1) l by (simp add: finished_def Let_def cleaned_nth(2))
qed

text \<open>Every run of it ends: it accepts, rejects, or reads outside the buffer.\<close>

definition verdict_of :: "u32 \<Rightarrow> unit outcome \<Rightarrow> bool" where
  "verdict_of snaplen z \<longleftrightarrow> z = Ret snaplen \<or> z = Ret 0 \<or> z = Fault BadPacketRead \<or> z = Fault ShiftWidth"

lemma plain_block_step:
  assumes "gen_block_ok (g ! b)" and "graph_ok g" and "b < length g" and jt: "JT g b \<noteq> None"
    and m: "length (rM r) = BPF_MEMWORDS"
  shows "(\<exists>t r'. exec_block g pk (b, r) = Next (t, r') \<and> t \<in> set (kids g b) \<and> length (rM r') = BPF_MEMWORDS) \<or>
    exec_block g pk (b, r) \<in> {Ret 0, Fault BadPacketRead, Fault ShiftWidth}"
proof -
  obtain j x where j: "decode (s_code (b_s (g ! b))) = Some (Jmp j x)" using assms(1) by (auto simp: gen_block_ok_def)
  obtain t f where tf: "JT g b = Some t" "JF g b = Some f"
    using graph_ok_cases [OF assms(2,3)] jt by (metis option.exhaust)
  have "goes_on (exec_stmts pk (b_stmts (g ! b)) r)" using assms(1) m by (simp add: gen_block_ok_def plain_stmts_go_on)
  moreover have "\<exists>t. exec_branch g b r' = Next t" for r'
    using j tf by (simp add: exec_branch_def Let_def)
  then have "goes_on (and_then (exec_branch g b r') (\<lambda>t. Next (t, r')))" for r'
    by (metis and_then.simps(1) goes_on_def)
  ultimately have "goes_on (exec_block g pk (b, r))"
    unfolding exec_block_def prod.case by (rule and_then_goes_on)
  then consider t r' where "exec_block g pk (b, r) = Next (t, r')"
    | "exec_block g pk (b, r) \<in> {Ret 0, Fault BadPacketRead, Fault ShiftWidth}"
    unfolding goes_on_def by auto
  then show ?thesis
  proof cases
    case (1 t r')
    then have "exec_stmts pk (b_stmts (g ! b)) r = Next r'"
      by (auto simp: exec_block_def and_then_Next)
    then show ?thesis using exec_block_kid [OF 1] exec_stmts_mem_length m 1 by fastforce
  qed simp
qed

lemma plain_graph_returns:
  assumes g: "plain_graph snaplen g" "graph_wf g" "ranked rk g"
  shows "b < length g \<Longrightarrow> length (rM r) = BPF_MEMWORDS \<Longrightarrow> \<exists>z. graph_loop g pk (b, r) = Some z \<and> verdict_of snaplen z"
proof (induction "rk b" arbitrary: b r rule: less_induct)
  case less
  have ok: "graph_ok g" "block_ok (g ! b)" using g(2) less.prems by (auto simp: graph_wf_def list_all_nth)
  consider "gen_block_ok (g ! b)" | v where "g ! b = ret_block v" "v = snaplen \<or> v = 0"
    using list_all_nth [OF g(1) [unfolded plain_graph_def] less.prems(1)] by auto
  then show ?case
  proof cases
    case 1
    then have "JT g b \<noteq> None" using ok(2) by (auto simp: gen_block_ok_def block_ok_def JT_def)
    then consider t r' where "exec_block g pk (b, r) = Next (t, r')" "t \<in> set (kids g b)" "length (rM r') = BPF_MEMWORDS"
      | "exec_block g pk (b, r) \<in> {Ret 0, Fault BadPacketRead, Fault ShiftWidth}"
      using plain_block_step [OF 1 ok(1) less.prems(1) _ less.prems(2)] by blast
    then show ?thesis
    proof cases
      case (1 t r')
      have "rk t < rk b" "t < length g" using rankedD [OF g(3) less.prems(1) 1(2)] kids_in [OF ok(1) less.prems(1) 1(2)] by auto
      from less.hyps [OF this 1(3)] show ?thesis using 1(1) by (subst graph_loop.simps) simp
    qed (subst graph_loop.simps, auto simp: verdict_of_def)
  next
    case (2 v)
    then show ?thesis using graph_loop_ret [OF 2(1)] by (auto simp: verdict_of_def)
  qed
qed

text \<open>What compiling an expression gives, from an empty heap: the blocks in use are a graph \<open>h\<close> that does what the
  predicate says.\<close>

definition compiled_graph :: "u32 \<Rightarrow> pred \<Rightarrow> graph \<Rightarrow> nat \<Rightarrow> graph \<Rightarrow> bool" where
  "compiled_graph snaplen P g root h \<longleftrightarrow>
     icode_to_fcode h root = icode_to_fcode g root \<and> length h = length g \<and>
     (\<forall>c < length g. slength (b_stmts (h ! c)) \<le> slength (b_stmts (g ! c))) \<and>
     graph_wf h \<and> plain_graph snaplen h \<and> (\<exists>rk. ranked rk h) \<and> root < length h \<and>
     (\<forall>pk r. length (rM r) = BPF_MEMWORDS \<longrightarrow> graph_loop h pk (root, r) = Some (filter_result snaplen (P pk)) \<and>
        graph_loop g pk (root, r) = Some (filter_result snaplen (P pk)))"

lemma compile_graph:
  assumes "makes m P"
  shows "\<exists>root g h. gbind m (finish_parse snaplen) empty_gen = Inr (root, g) \<and> compiled_graph snaplen P (gn_blocks g) root h"
proof -
  have "owns empty_gen [] {}" by simp
  then obtain b g where "m empty_gen = Inr (b, g)"
    "owns g [(b, P)] ({} \<union> {length (gn_blocks empty_gen)..<length (gn_blocks g)})"
    using assms unfolding makes_def hoare_def by blast
  then have g: "m empty_gen = Inr (b, g)" "owns g [(b, P)] {..<length (gn_blocks g)}"
    by (simp_all add: empty_gen_def atLeast0LessThan)
  then obtain D ts fs rk where D: "D \<subseteq> {..<length (gn_blocks g)}" and e: "expr_at g b D ts fs rk P" by auto
  let ?n = "length (gn_blocks g)"
  obtain g' where g': "finish_parse snaplen b g = Inr (gn_head g b, g')"
    "finished D g g' snaplen (true_exits g b ts) (false_exits g b fs)"
    using finish_parse_run [OF e] by blast
  let ?h = "cleaned D ?n g'"
  note f = finished_cleaned [OF g'(2) D]
  have n: "length (gn_blocks g') = ?n + 2" using g'(2) by (simp add: finished_def Let_def)
  have "\<forall>c < ?n. c \<notin> D \<longrightarrow> gn_blocks ?h ! c = ret_block 0" using n by (simp add: cleaned_nth)
  note wf = finished_wf [OF e f this]
  have root: "gn_head g b \<in> D" by (rule expr_atD(6) [OF e])
  have "\<forall>c \<in> D. gen_block_ok (gn_blocks g ! c)" using expr_atD(7) [OF e] by blast
  then have loop: "graph_loop (gn_blocks ?h) pk (gn_head g b, r) = Some (filter_result snaplen (P pk)) \<and>
      graph_loop (gn_blocks g') pk (gn_head g b, r) = Some (filter_result snaplen (P pk))"
    if "length (rM r) = BPF_MEMWORDS" for pk r
    using expr_atD(9) [OF e that, of pk] runs_finished [OF _ f] runs_finished [OF _ g'(2)] by metis
  have kid: "\<exists>d \<in> D \<union> {?n, ?n + 1}. target (gn_blocks g') c s = Some d" if "c \<in> D" for c s
  proof -
    have "target (gn_blocks g') c s = (if (c, s) \<in> true_exits g b ts then Some ?n
        else if (c, s) \<in> false_exits g b fs then Some (?n + 1) else target (gn_blocks g) c s)"
      using g'(2) that unfolding finished_def Let_def by blast
    then show ?thesis using expr_atD(8) [OF e that, of s] by auto
  qed
  have "set (kids (gn_blocks g') c) \<subseteq> D \<union> {?n, ?n + 1}" if "c \<in> D" for c
    using kid [OF that, of True] kid [OF that, of False] by (auto simp: kids_def opt_list_def target_def)
  moreover have "set (kids (gn_blocks g') c) = {}" if "c \<in> {?n, ?n + 1}" for c
    using that g'(2) by (auto simp: finished_def Let_def kids_def opt_list_def JT_def JF_def ret_block_def)
  moreover have "gn_blocks ?h ! c = gn_blocks g' ! c" if "c \<in> D \<union> {?n, ?n + 1}" for c
    using that D n by (auto simp: cleaned_nth)
  ultimately have "same_reach (D \<union> {?n, ?n + 1}) (gn_blocks g') (gn_blocks ?h)"
    unfolding same_reach_def by (auto simp: cleaned_nth(2))
  then have "icode_to_fcode (gn_blocks ?h) (gn_head g b) = icode_to_fcode (gn_blocks g') (gn_head g b)"
    by (rule icode_reach) (use root in simp)
  moreover have "slength (b_stmts (gn_blocks ?h ! c)) \<le> slength (b_stmts (gn_blocks g' ! c))" if "c < length (gn_blocks g')" for c
    using that by (simp add: cleaned_nth ret_block_def)
  moreover have "gn_head g b < length (gn_blocks ?h)" using root D n by (auto simp: cleaned_nth(2))
  ultimately have "compiled_graph snaplen P (gn_blocks g') (gn_head g b) (gn_blocks ?h)"
    using wf loop unfolding compiled_graph_def cleaned_nth(2) by blast
  then show ?thesis using g(1) g'(1) by (intro exI [of _ "gn_head g b"] exI [of _ g'] exI [of _ "gn_blocks ?h"]) simp
qed

end
