(* ===== verification/Gen_Layout.thy ===== *)
theory Gen_Layout
  imports Prelude
begin

text \<open>
  The header layout of the filter code generator (\<^verbatim>\<open>gencode.c\<close>): the file-scope
  variables that say where the link-layer, network-layer and pseudo-headers of a packet are, and
  \<open>init_linktype\<close>, which sets them from the link type at the start of a compilation. The variables
  survive a compilation, and some primitives of a filter (\<open>vlan\<close>, \<open>mpls\<close>, \<open>pppoes\<close>, \<open>lane\<close>)
  change them on the way; \<open>init_linktype_fresh\<close> says that none of it reaches the next one.

  The link types are the numbers of \<^verbatim>\<open>pcap/bpf.h\<close> on Linux, where \<open>DLT_PFLOG\<close> and
  \<open>DLT_PFSYNC\<close> have no case.
\<close>

section \<open>Link types\<close>

abbreviation (input) DLT_NULL :: int where "DLT_NULL \<equiv> 0"
abbreviation (input) DLT_EN10MB :: int where "DLT_EN10MB \<equiv> 1"
abbreviation (input) DLT_IEEE802 :: int where "DLT_IEEE802 \<equiv> 6"
abbreviation (input) DLT_ARCNET :: int where "DLT_ARCNET \<equiv> 7"
abbreviation (input) DLT_SLIP :: int where "DLT_SLIP \<equiv> 8"
abbreviation (input) DLT_PPP :: int where "DLT_PPP \<equiv> 9"
abbreviation (input) DLT_FDDI :: int where "DLT_FDDI \<equiv> 10"
abbreviation (input) DLT_ATM_RFC1483 :: int where "DLT_ATM_RFC1483 \<equiv> 11"
abbreviation (input) DLT_RAW :: int where "DLT_RAW \<equiv> 12"
abbreviation (input) DLT_SLIP_BSDOS :: int where "DLT_SLIP_BSDOS \<equiv> 15"
abbreviation (input) DLT_PPP_BSDOS :: int where "DLT_PPP_BSDOS \<equiv> 16"
abbreviation (input) DLT_ATM_CLIP :: int where "DLT_ATM_CLIP \<equiv> 19"
abbreviation (input) DLT_PPP_SERIAL :: int where "DLT_PPP_SERIAL \<equiv> 50"
abbreviation (input) DLT_PPP_ETHER :: int where "DLT_PPP_ETHER \<equiv> 51"
abbreviation (input) DLT_SYMANTEC_FIREWALL :: int where "DLT_SYMANTEC_FIREWALL \<equiv> 99"
abbreviation (input) DLT_C_HDLC :: int where "DLT_C_HDLC \<equiv> 104"
abbreviation (input) DLT_IEEE802_11 :: int where "DLT_IEEE802_11 \<equiv> 105"
abbreviation (input) DLT_FRELAY :: int where "DLT_FRELAY \<equiv> 107"
abbreviation (input) DLT_LOOP :: int where "DLT_LOOP \<equiv> 108"
abbreviation (input) DLT_ENC :: int where "DLT_ENC \<equiv> 109"
abbreviation (input) DLT_LINUX_SLL :: int where "DLT_LINUX_SLL \<equiv> 113"
abbreviation (input) DLT_LTALK :: int where "DLT_LTALK \<equiv> 114"
abbreviation (input) DLT_PRISM_HEADER :: int where "DLT_PRISM_HEADER \<equiv> 119"
abbreviation (input) DLT_IP_OVER_FC :: int where "DLT_IP_OVER_FC \<equiv> 122"
abbreviation (input) DLT_SUNATM :: int where "DLT_SUNATM \<equiv> 123"
abbreviation (input) DLT_IEEE802_11_RADIO :: int where "DLT_IEEE802_11_RADIO \<equiv> 127"
abbreviation (input) DLT_ARCNET_LINUX :: int where "DLT_ARCNET_LINUX \<equiv> 129"
abbreviation (input) DLT_JUNIPER_MLPPP :: int where "DLT_JUNIPER_MLPPP \<equiv> 130"
abbreviation (input) DLT_JUNIPER_MLFR :: int where "DLT_JUNIPER_MLFR \<equiv> 131"
abbreviation (input) DLT_JUNIPER_ES :: int where "DLT_JUNIPER_ES \<equiv> 132"
abbreviation (input) DLT_JUNIPER_GGSN :: int where "DLT_JUNIPER_GGSN \<equiv> 133"
abbreviation (input) DLT_JUNIPER_MFR :: int where "DLT_JUNIPER_MFR \<equiv> 134"
abbreviation (input) DLT_JUNIPER_ATM2 :: int where "DLT_JUNIPER_ATM2 \<equiv> 135"
abbreviation (input) DLT_JUNIPER_SERVICES :: int where "DLT_JUNIPER_SERVICES \<equiv> 136"
abbreviation (input) DLT_JUNIPER_ATM1 :: int where "DLT_JUNIPER_ATM1 \<equiv> 137"
abbreviation (input) DLT_APPLE_IP_OVER_IEEE1394 :: int where "DLT_APPLE_IP_OVER_IEEE1394 \<equiv> 138"
abbreviation (input) DLT_MTP2_WITH_PHDR :: int where "DLT_MTP2_WITH_PHDR \<equiv> 139"
abbreviation (input) DLT_MTP2 :: int where "DLT_MTP2 \<equiv> 140"
abbreviation (input) DLT_DOCSIS :: int where "DLT_DOCSIS \<equiv> 143"
abbreviation (input) DLT_LINUX_IRDA :: int where "DLT_LINUX_IRDA \<equiv> 144"
abbreviation (input) DLT_IEEE802_11_RADIO_AVS :: int where "DLT_IEEE802_11_RADIO_AVS \<equiv> 163"
abbreviation (input) DLT_JUNIPER_MONITOR :: int where "DLT_JUNIPER_MONITOR \<equiv> 164"
abbreviation (input) DLT_PPP_PPPD :: int where "DLT_PPP_PPPD \<equiv> 166"
abbreviation (input) DLT_JUNIPER_PPPOE :: int where "DLT_JUNIPER_PPPOE \<equiv> 167"
abbreviation (input) DLT_JUNIPER_PPPOE_ATM :: int where "DLT_JUNIPER_PPPOE_ATM \<equiv> 168"
abbreviation (input) DLT_LINUX_LAPD :: int where "DLT_LINUX_LAPD \<equiv> 177"
abbreviation (input) DLT_JUNIPER_ETHER :: int where "DLT_JUNIPER_ETHER \<equiv> 178"
abbreviation (input) DLT_JUNIPER_PPP :: int where "DLT_JUNIPER_PPP \<equiv> 179"
abbreviation (input) DLT_JUNIPER_FRELAY :: int where "DLT_JUNIPER_FRELAY \<equiv> 180"
abbreviation (input) DLT_JUNIPER_CHDLC :: int where "DLT_JUNIPER_CHDLC \<equiv> 181"
abbreviation (input) DLT_MFR :: int where "DLT_MFR \<equiv> 182"
abbreviation (input) DLT_JUNIPER_VP :: int where "DLT_JUNIPER_VP \<equiv> 183"
abbreviation (input) DLT_USB :: int where "DLT_USB \<equiv> 186"
abbreviation (input) DLT_BLUETOOTH_HCI_H4 :: int where "DLT_BLUETOOTH_HCI_H4 \<equiv> 187"
abbreviation (input) DLT_USB_LINUX :: int where "DLT_USB_LINUX \<equiv> 189"
abbreviation (input) DLT_CAN20B :: int where "DLT_CAN20B \<equiv> 190"
abbreviation (input) DLT_IEEE802_15_4_LINUX :: int where "DLT_IEEE802_15_4_LINUX \<equiv> 191"
abbreviation (input) DLT_PPI :: int where "DLT_PPI \<equiv> 192"
abbreviation (input) DLT_IEEE802_16_MAC_CPS_RADIO :: int where "DLT_IEEE802_16_MAC_CPS_RADIO \<equiv> 193"
abbreviation (input) DLT_JUNIPER_ISM :: int where "DLT_JUNIPER_ISM \<equiv> 194"
abbreviation (input) DLT_IEEE802_15_4 :: int where "DLT_IEEE802_15_4 \<equiv> 195"
abbreviation (input) DLT_SITA :: int where "DLT_SITA \<equiv> 196"
abbreviation (input) DLT_ERF :: int where "DLT_ERF \<equiv> 197"
abbreviation (input) DLT_RAIF1 :: int where "DLT_RAIF1 \<equiv> 198"
abbreviation (input) DLT_IPMB :: int where "DLT_IPMB \<equiv> 199"
abbreviation (input) DLT_JUNIPER_ST :: int where "DLT_JUNIPER_ST \<equiv> 200"
abbreviation (input) DLT_BLUETOOTH_HCI_H4_WITH_PHDR :: int where "DLT_BLUETOOTH_HCI_H4_WITH_PHDR \<equiv> 201"
abbreviation (input) DLT_AX25_KISS :: int where "DLT_AX25_KISS \<equiv> 202"
abbreviation (input) DLT_IEEE802_15_4_NONASK_PHY :: int where "DLT_IEEE802_15_4_NONASK_PHY \<equiv> 215"
abbreviation (input) DLT_MPLS :: int where "DLT_MPLS \<equiv> 219"
abbreviation (input) DLT_USB_LINUX_MMAPPED :: int where "DLT_USB_LINUX_MMAPPED \<equiv> 220"
abbreviation (input) DLT_IPNET :: int where "DLT_IPNET \<equiv> 226"
abbreviation (input) DLT_CAN_SOCKETCAN :: int where "DLT_CAN_SOCKETCAN \<equiv> 227"
abbreviation (input) DLT_IPV4 :: int where "DLT_IPV4 \<equiv> 228"
abbreviation (input) DLT_IPV6 :: int where "DLT_IPV6 \<equiv> 229"

section \<open>The layout variables\<close>

text \<open>\<open>file_swapped\<close> stands for \<open>bpf_pcap->sf.rfile != NULL && bpf_pcap->sf.swapped\<close>, the byte
  order of the capture the filter is for. \<open>regused\<close> and \<open>curreg\<close> are the scratch registers in use, as a set, and
  where the next one is looked for.\<close>

record regfile =
  regused :: "nat set"
  curreg :: nat

record layout =
  linktype :: int
  off_ll :: u32
  off_mac :: u32
  off_macpl :: u32
  off_macpl_is_variable :: bool
  off_linktype :: u32
  off_nl :: u32
  off_nl_nosnap :: u32
  is_pppoes :: bool
  is_atm :: bool
  is_lane :: bool
  off_vpi :: u32
  off_vci :: u32
  off_proto :: u32
  off_payload :: u32
  off_li :: u32
  off_sio :: u32
  off_opc :: u32
  off_dpc :: u32
  off_sls :: u32
  orig_linktype :: u32
  orig_nl :: u32
  label_stack_depth :: u32
  reg_off_ll :: int
  reg_off_macpl :: int
  file_swapped :: bool
  lay_regs :: regfile

text \<open>Neither \<open>gen_llprefixlen\<close> nor \<open>gen_off_macpl\<close> has code to generate: no header in front of the link-layer
  header, and none of the link layer, varies in length. For the other layouts these functions reserve registers
  (\<open>reg_off_ll\<close>, \<open>reg_off_macpl\<close>) and load from them.\<close>

definition fixed_headers :: "layout \<Rightarrow> bool" where
  "fixed_headers L \<longleftrightarrow> \<not> off_macpl_is_variable L \<and>
     linktype L \<notin> {DLT_PRISM_HEADER, DLT_IEEE802_11_RADIO_AVS, DLT_IEEE802_11_RADIO, DLT_PPI}"

text \<open>\<open>init_regs\<close> is called at the start of a compilation.\<close>

definition init_regs :: "layout \<Rightarrow> layout" where
  "init_regs L = L\<lparr>lay_regs := \<lparr>regused = {}, curreg = 0\<rparr>\<rparr>"

text \<open>The assignments before the switch.\<close>

definition init_base :: "int \<Rightarrow> bool \<Rightarrow> layout \<Rightarrow> layout" where
  "init_base dl swapped L = L\<lparr>linktype := dl, file_swapped := swapped,
     off_mac := 0, is_atm := False, is_lane := False,
     off_vpi := - 1, off_vci := - 1, off_proto := - 1, off_payload := - 1,
     is_pppoes := False,
     off_li := - 1, off_sio := - 1, off_opc := - 1, off_dpc := - 1, off_sls := - 1,
     off_ll := 0, off_macpl := 0, off_macpl_is_variable := False,
     orig_linktype := - 1, orig_nl := - 1, label_stack_depth := 0,
     reg_off_ll := - 1, reg_off_macpl := - 1\<rparr>"

text \<open>The four assignments every case makes.\<close>

definition offs :: "layout \<Rightarrow> u32 \<Rightarrow> u32 \<Rightarrow> u32 \<Rightarrow> u32 \<Rightarrow> layout" where
  "offs L t m n s = L\<lparr>off_linktype := t, off_macpl := m, off_nl := n, off_nl_nosnap := s\<rparr>"

text \<open>The cases of the switch, in the order of the code.\<close>

definition init_linktype_1 :: "layout \<Rightarrow> layout option" where
  "init_linktype_1 L =
    (if linktype L = DLT_ARCNET then Some (offs L 2 6 0 0)
     else if linktype L = DLT_ARCNET_LINUX then Some (offs L 4 8 0 0)
     else if linktype L = DLT_EN10MB then Some (offs L 12 14 0 3)
     else if linktype L = DLT_SLIP then Some (offs L (- 1) 16 0 0)
     else if linktype L = DLT_SLIP_BSDOS then Some (offs L (- 1) 24 0 0)
     else if linktype L \<in> {DLT_NULL, DLT_LOOP} then Some (offs L 0 4 0 0)
     else if linktype L = DLT_ENC then Some (offs L 0 12 0 0)
     else if linktype L \<in> {DLT_PPP, DLT_PPP_PPPD, DLT_C_HDLC, DLT_PPP_SERIAL} then Some (offs L 2 4 0 0)
     else if linktype L = DLT_PPP_ETHER then Some (offs L 6 8 0 0)
     else if linktype L = DLT_PPP_BSDOS then Some (offs L 5 24 0 0)
     else if linktype L = DLT_FDDI then Some (offs L 13 13 8 3)
     else if linktype L = DLT_IEEE802 then Some (offs L 14 14 8 3) else None)"

definition init_linktype_2 :: "layout \<Rightarrow> layout option" where
  "init_linktype_2 L =
    (if linktype L \<in> {DLT_IEEE802_11, DLT_PRISM_HEADER, DLT_IEEE802_11_RADIO_AVS, DLT_IEEE802_11_RADIO} then Some (offs (L\<lparr>off_macpl_is_variable := True\<rparr>) 24 0 8 3)
     else if linktype L = DLT_PPI then Some (offs (L\<lparr>off_macpl_is_variable := True\<rparr>) 24 0 8 3)
     else if linktype L \<in> {DLT_ATM_RFC1483, DLT_ATM_CLIP} then Some (offs L 0 0 8 3)
     else if linktype L = DLT_SUNATM then Some (offs (L\<lparr>is_atm := True, off_vpi := 1, off_vci := 2, off_proto := 0, off_mac := (- 1), off_payload := 4\<rparr>) 4 4 8 3)
     else if linktype L \<in> {DLT_RAW, DLT_IPV4, DLT_IPV6} then Some (offs L (- 1) 0 0 0)
     else if linktype L = DLT_LINUX_SLL then Some (offs L 14 16 0 0)
     else if linktype L = DLT_LTALK then Some (offs L (- 1) 0 0 0)
     else if linktype L = DLT_IP_OVER_FC then Some (offs L 16 16 8 3)
     else if linktype L = DLT_FRELAY then Some (offs L (- 1) 0 0 0)
     else if linktype L = DLT_MFR then Some (offs L (- 1) 0 4 0) else None)"

definition init_linktype_3 :: "layout \<Rightarrow> layout option" where
  "init_linktype_3 L =
    (if linktype L = DLT_APPLE_IP_OVER_IEEE1394 then Some (offs L 16 18 0 0)
     else if linktype L = DLT_LINUX_IRDA then Some (offs L (- 1) (- 1) (- 1) (- 1))
     else if linktype L = DLT_DOCSIS then Some (offs L (- 1) (- 1) (- 1) (- 1))
     else if linktype L = DLT_SYMANTEC_FIREWALL then Some (offs L 6 44 0 0)
     else if linktype L \<in> {DLT_JUNIPER_MFR, DLT_JUNIPER_MLFR, DLT_JUNIPER_MLPPP, DLT_JUNIPER_PPP, DLT_JUNIPER_CHDLC, DLT_JUNIPER_FRELAY} then Some (offs L 4 4 0 (- 1))
     else if linktype L = DLT_JUNIPER_ATM1 then Some (offs L 4 4 0 10)
     else if linktype L = DLT_JUNIPER_ATM2 then Some (offs L 8 8 0 10)
     else if linktype L \<in> {DLT_JUNIPER_PPPOE, DLT_JUNIPER_ETHER} then Some (offs L 16 14 18 21)
     else if linktype L = DLT_JUNIPER_PPPOE_ATM then Some (offs L 4 6 0 (- 1))
     else if linktype L = DLT_JUNIPER_GGSN then Some (offs L 6 12 0 (- 1))
     else if linktype L = DLT_JUNIPER_ES then Some (offs L 6 (- 1) (- 1) (- 1))
     else if linktype L = DLT_JUNIPER_MONITOR then Some (offs L 12 12 0 (- 1))
     else if linktype L = DLT_JUNIPER_SERVICES then Some (offs L 12 (- 1) (- 1) (- 1))
     else if linktype L = DLT_JUNIPER_VP then Some (offs L 18 (- 1) (- 1) (- 1))
     else if linktype L = DLT_JUNIPER_ST then Some (offs L 18 (- 1) (- 1) (- 1))
     else if linktype L = DLT_JUNIPER_ISM then Some (offs L 8 (- 1) (- 1) (- 1))
     else if linktype L = DLT_MTP2 then Some (offs (L\<lparr>off_li := 2, off_sio := 3, off_opc := 4, off_dpc := 4, off_sls := 7\<rparr>) (- 1) (- 1) (- 1) (- 1)) else None)"

definition init_linktype_4 :: "layout \<Rightarrow> layout option" where
  "init_linktype_4 L =
    (if linktype L = DLT_MTP2_WITH_PHDR then Some (offs (L\<lparr>off_li := 6, off_sio := 7, off_opc := 8, off_dpc := 8, off_sls := 11\<rparr>) (- 1) (- 1) (- 1) (- 1))
     else if linktype L = DLT_ERF then Some (offs (L\<lparr>off_li := 22, off_sio := 23, off_opc := 24, off_dpc := 24, off_sls := 27\<rparr>) (- 1) (- 1) (- 1) (- 1))
     else if linktype L = DLT_LINUX_LAPD then Some (offs L (- 1) (- 1) (- 1) (- 1))
     else if linktype L = DLT_USB then Some (offs L (- 1) (- 1) (- 1) (- 1))
     else if linktype L = DLT_BLUETOOTH_HCI_H4 then Some (offs L (- 1) (- 1) (- 1) (- 1))
     else if linktype L = DLT_USB_LINUX then Some (offs L (- 1) (- 1) (- 1) (- 1))
     else if linktype L = DLT_CAN20B then Some (offs L (- 1) (- 1) (- 1) (- 1))
     else if linktype L = DLT_IEEE802_15_4_LINUX then Some (offs L (- 1) (- 1) (- 1) (- 1))
     else if linktype L = DLT_IEEE802_16_MAC_CPS_RADIO then Some (offs L (- 1) (- 1) (- 1) (- 1))
     else if linktype L = DLT_IEEE802_15_4 then Some (offs L (- 1) (- 1) (- 1) (- 1))
     else if linktype L = DLT_SITA then Some (offs L (- 1) (- 1) (- 1) (- 1))
     else if linktype L = DLT_RAIF1 then Some (offs L (- 1) (- 1) (- 1) (- 1))
     else if linktype L = DLT_IPMB then Some (offs L (- 1) (- 1) (- 1) (- 1)) else None)"

definition init_linktype_5 :: "layout \<Rightarrow> layout option" where
  "init_linktype_5 L =
    (if linktype L = DLT_BLUETOOTH_HCI_H4_WITH_PHDR then Some (offs L (- 1) (- 1) (- 1) (- 1))
     else if linktype L = DLT_AX25_KISS then Some (offs (L\<lparr>off_mac := 1\<rparr>) (- 1) (- 1) (- 1) (- 1))
     else if linktype L = DLT_IEEE802_15_4_NONASK_PHY then Some (offs L (- 1) (- 1) (- 1) (- 1))
     else if linktype L = DLT_MPLS then Some (offs L (- 1) (- 1) (- 1) (- 1))
     else if linktype L = DLT_USB_LINUX_MMAPPED then Some (offs L (- 1) (- 1) (- 1) (- 1))
     else if linktype L = DLT_CAN_SOCKETCAN then Some (offs L (- 1) (- 1) (- 1) (- 1))
     else if linktype L = DLT_IPNET then Some (offs L 1 24 0 (- 1)) else None)"

text \<open>\<open>None\<close> is the error for an unknown link type.\<close>

definition init_linktype :: "int \<Rightarrow> bool \<Rightarrow> layout \<Rightarrow> layout option" where
  "init_linktype dl swapped L =
     (let L0 = init_base dl swapped L in
      case init_linktype_1 L0 of Some L' \<Rightarrow> Some L' | None \<Rightarrow>
      (case init_linktype_2 L0 of Some L' \<Rightarrow> Some L' | None \<Rightarrow>
      (case init_linktype_3 L0 of Some L' \<Rightarrow> Some L' | None \<Rightarrow>
      (case init_linktype_4 L0 of Some L' \<Rightarrow> Some L' | None \<Rightarrow> init_linktype_5 L0))))"

section \<open>What a compilation starts from\<close>

lemma offs_fresh:
  assumes "lay_regs L = lay_regs L'"
  shows "offs (init_base dl sw L) t m n s = offs (init_base dl sw L') t m n s"
  "offs (init_base dl sw L\<lparr>off_macpl_is_variable := True\<rparr>) t m n s =
   offs (init_base dl sw L'\<lparr>off_macpl_is_variable := True\<rparr>) t m n s"
  "offs (init_base dl sw L\<lparr>off_mac := k\<rparr>) t m n s = offs (init_base dl sw L'\<lparr>off_mac := k\<rparr>) t m n s"
  "offs (init_base dl sw L\<lparr>is_atm := True, off_vpi := a, off_vci := b, off_proto := c, off_mac := d, off_payload := e\<rparr>) t m n s =
   offs (init_base dl sw L'\<lparr>is_atm := True, off_vpi := a, off_vci := b, off_proto := c, off_mac := d, off_payload := e\<rparr>) t m n s"
  "offs (init_base dl sw L\<lparr>off_li := a, off_sio := b, off_opc := c, off_dpc := d, off_sls := e\<rparr>) t m n s =
   offs (init_base dl sw L'\<lparr>off_li := a, off_sio := b, off_opc := c, off_dpc := d, off_sls := e\<rparr>) t m n s"
  using assms by (cases L; cases L'; simp add: offs_def init_base_def)+

lemma linktype_base [simp]: "linktype (init_base dl sw L) = dl"
  by (simp add: init_base_def)

lemma init_linktype_stages:
  assumes "lay_regs L = lay_regs L'"
  shows "init_linktype_1 (init_base dl sw L) = init_linktype_1 (init_base dl sw L')"
  "init_linktype_2 (init_base dl sw L) = init_linktype_2 (init_base dl sw L')"
  "init_linktype_3 (init_base dl sw L) = init_linktype_3 (init_base dl sw L')"
  "init_linktype_4 (init_base dl sw L) = init_linktype_4 (init_base dl sw L')"
  "init_linktype_5 (init_base dl sw L) = init_linktype_5 (init_base dl sw L')"
  unfolding init_linktype_1_def init_linktype_2_def init_linktype_3_def init_linktype_4_def init_linktype_5_def
    linktype_base
  by (intro if_cong refl arg_cong [where f = Some] offs_fresh [OF assms])+

lemma init_linktype_fresh: "init_linktype dl sw (init_regs L) = init_linktype dl sw (init_regs L')"
proof -
  have r: "lay_regs (init_regs L) = lay_regs (init_regs L')"
    by (simp_all add: init_regs_def)
  show ?thesis
    unfolding init_linktype_def Let_def by (simp only: init_linktype_stages [OF r])
qed

text \<open>No register is in use when the parser starts.\<close>

definition regs_free :: "layout \<Rightarrow> bool" where
  "regs_free L \<longleftrightarrow> regused (lay_regs L) = {} \<and> curreg (lay_regs L) < 16"

lemma regs_free_offs [simp]: "regs_free (offs L t m n s) = regs_free L"
  by (simp add: regs_free_def offs_def)

lemma init_linktype_regs:
  assumes "init_linktype dl sw (init_regs L0) = Some L" shows "regs_free L"
proof -
  have "regs_free (init_base dl sw (init_regs L0))" by (simp add: regs_free_def init_base_def init_regs_def)
  then show ?thesis
    using assms unfolding init_linktype_def init_linktype_1_def init_linktype_2_def init_linktype_3_def
      init_linktype_4_def init_linktype_5_def Let_def
    by (auto simp: regs_free_def offs_def split: if_splits)
qed

text \<open>Ethernet, as an example of a layout.\<close>

lemma init_linktype_ethernet:
  "init_linktype DLT_EN10MB sw L = Some (offs (init_base DLT_EN10MB sw L) 12 14 0 3)"
  by (simp add: init_linktype_def init_linktype_1_def)

end
