(* ===== verification/Gen_Cmp.thy ===== *)
theory Gen_Cmp
  imports Gen_Triple Gen_Layout
begin

text \<open>
  The comparisons of the filter code generator (\<^verbatim>\<open>gencode.c\<close>): loads relative to a header
  (\<open>gen_load_a\<close>), masked comparisons (\<open>gen_ncmp\<close> and its instances), comparisons of byte
  strings (\<open>gen_bcmp\<close>), constant tests (\<open>gen_uncond\<close>) and the fragment test. For each the
  predicate it decides is stated in terms of what the machine reads at the offset.

  Link layers with a variable-length header, for which the generator first computes lengths into
  scratch registers, are outside the model; \<open>gen_llprefixlen\<close> and \<open>gen_off_macpl\<close> are null.
\<close>

section \<open>Loads\<close>

datatype offrel = OR_PACKET | OR_LINK | OR_MACPL | OR_NET | OR_NET_NOSNAP | OR_TRAN_IPV4 | OR_TRAN_IPV6

definition gen_load_llrel :: "layout \<Rightarrow> u32 \<Rightarrow> bsize \<Rightarrow> stmt list" where
  "gen_load_llrel L offset sz = [new_stmt (BPF_LD OR BPF_ABS OR size_bits sz) (offset + off_ll L)]"

definition gen_load_macplrel :: "layout \<Rightarrow> u32 \<Rightarrow> bsize \<Rightarrow> stmt list" where
  "gen_load_macplrel L offset sz = [new_stmt (BPF_LD OR BPF_ABS OR size_bits sz) (off_macpl L + offset)]"

definition gen_loadx_iphdrlen :: "layout \<Rightarrow> stmt list" where
  "gen_loadx_iphdrlen L = [new_stmt (BPF_LDX OR BPF_MSH OR BPF_B) (off_macpl L + off_nl L)]"

fun gen_load_a :: "layout \<Rightarrow> offrel \<Rightarrow> u32 \<Rightarrow> bsize \<Rightarrow> stmt list" where
  "gen_load_a L OR_PACKET offset sz = [new_stmt (BPF_LD OR BPF_ABS OR size_bits sz) offset]"
| "gen_load_a L OR_LINK offset sz = gen_load_llrel L offset sz"
| "gen_load_a L OR_MACPL offset sz = gen_load_macplrel L offset sz"
| "gen_load_a L OR_NET offset sz = gen_load_macplrel L (off_nl L + offset) sz"
| "gen_load_a L OR_NET_NOSNAP offset sz = gen_load_macplrel L (off_nl_nosnap L + offset) sz"
| "gen_load_a L OR_TRAN_IPV4 offset sz =
     gen_loadx_iphdrlen L @
     [new_stmt (BPF_LD OR BPF_IND OR size_bits sz) (off_macpl L + off_nl L + offset)]"
| "gen_load_a L OR_TRAN_IPV6 offset sz = gen_load_macplrel L (off_nl L + 40 + offset) sz"

section \<open>Comparisons\<close>

definition JMP :: "jmp_op \<Rightarrow> int" where
  "JMP c = jmp_bits c OR BPF_JMP OR BPF_K"

definition gen_ncmp :: "layout \<Rightarrow> offrel \<Rightarrow> u32 \<Rightarrow> bsize \<Rightarrow> u32 \<Rightarrow> jmp_op \<Rightarrow> bool \<Rightarrow> u32 \<Rightarrow> nat gm" where
  "gen_ncmp L offrel offset sz msk jtype reverse v =
     (let s = gen_load_a L offrel offset sz;
          s' = (if msk \<noteq> 0xffffffff then s @ [new_stmt (BPF_ALU OR BPF_AND OR BPF_K) msk] else s)
      in gbind (new_block (JMP jtype)) (\<lambda>b.
         gbind (set_stmts b s') (\<lambda>_.
         gbind (set_k b v) (\<lambda>_.
         gbind (if reverse \<and> (jtype = JGT \<or> jtype = JGE) then gen_not b else gret ()) (\<lambda>_.
         gret b)))))"

definition gen_cmp :: "layout \<Rightarrow> offrel \<Rightarrow> u32 \<Rightarrow> bsize \<Rightarrow> u32 \<Rightarrow> nat gm" where
  "gen_cmp L offrel offset sz v = gen_ncmp L offrel offset sz 0xffffffff JEQ False v"

definition gen_cmp_gt :: "layout \<Rightarrow> offrel \<Rightarrow> u32 \<Rightarrow> bsize \<Rightarrow> u32 \<Rightarrow> nat gm" where
  "gen_cmp_gt L offrel offset sz v = gen_ncmp L offrel offset sz 0xffffffff JGT False v"

definition gen_cmp_ge :: "layout \<Rightarrow> offrel \<Rightarrow> u32 \<Rightarrow> bsize \<Rightarrow> u32 \<Rightarrow> nat gm" where
  "gen_cmp_ge L offrel offset sz v = gen_ncmp L offrel offset sz 0xffffffff JGE False v"

definition gen_cmp_lt :: "layout \<Rightarrow> offrel \<Rightarrow> u32 \<Rightarrow> bsize \<Rightarrow> u32 \<Rightarrow> nat gm" where
  "gen_cmp_lt L offrel offset sz v = gen_ncmp L offrel offset sz 0xffffffff JGE True v"

definition gen_cmp_le :: "layout \<Rightarrow> offrel \<Rightarrow> u32 \<Rightarrow> bsize \<Rightarrow> u32 \<Rightarrow> nat gm" where
  "gen_cmp_le L offrel offset sz v = gen_ncmp L offrel offset sz 0xffffffff JGT True v"

definition gen_mcmp :: "layout \<Rightarrow> offrel \<Rightarrow> u32 \<Rightarrow> bsize \<Rightarrow> u32 \<Rightarrow> u32 \<Rightarrow> nat gm" where
  "gen_mcmp L offrel offset sz v msk = gen_ncmp L offrel offset sz msk JEQ False v"

text \<open>\<open>gen_bcmp\<close>: words from the end of the string, then a halfword, then a byte. \<open>b\<close> is \<open>NULL\<close>
  at first, and for an empty string to the end.\<close>

definition and_opt :: "nat option \<Rightarrow> nat \<Rightarrow> unit gm" where
  "and_opt b tmp = (case b of None \<Rightarrow> gret () | Some x \<Rightarrow> gen_and x tmp)"

fun gen_bcmp2 :: "layout \<Rightarrow> offrel \<Rightarrow> u32 \<Rightarrow> nat \<Rightarrow> u8 list \<Rightarrow> nat option \<Rightarrow> nat option gm" where
  "gen_bcmp2 L offrel offset n v b =
     (if n \<ge> 2 then
        gbind (gen_cmp L offrel (offset + of_nat n - 2) SzH (be16 (v ! (n - 2)) (v ! (n - 1)))) (\<lambda>tmp.
        gbind (and_opt b tmp) (\<lambda>_. gen_bcmp2 L offrel offset (n - 2) v (Some tmp)))
      else if n > 0 then
        gbind (gen_cmp L offrel offset SzB (ucast (v ! 0))) (\<lambda>tmp.
        gbind (and_opt b tmp) (\<lambda>_. gret (Some tmp)))
      else gret b)"

fun gen_bcmp4 :: "layout \<Rightarrow> offrel \<Rightarrow> u32 \<Rightarrow> nat \<Rightarrow> u8 list \<Rightarrow> nat option \<Rightarrow> nat option gm" where
  "gen_bcmp4 L offrel offset n v b =
     (if n \<ge> 4 then
        gbind (gen_cmp L offrel (offset + of_nat n - 4) SzW
                 (be32 (v ! (n - 4)) (v ! (n - 3)) (v ! (n - 2)) (v ! (n - 1)))) (\<lambda>tmp.
        gbind (and_opt b tmp) (\<lambda>_. gen_bcmp4 L offrel offset (n - 4) v (Some tmp)))
      else gen_bcmp2 L offrel offset n v b)"

declare gen_bcmp2.simps [simp del] gen_bcmp4.simps [simp del]

text \<open>Its callers pass a string that is not empty.\<close>

definition gen_bcmp :: "layout \<Rightarrow> offrel \<Rightarrow> u32 \<Rightarrow> nat \<Rightarrow> u8 list \<Rightarrow> nat gm" where
  "gen_bcmp L offrel offset n v =
     gbind (gen_bcmp4 L offrel offset n v None) (\<lambda>b. case b of None \<Rightarrow> gfail GenAbort | Some x \<Rightarrow> gret x)"

definition gen_uncond :: "bool \<Rightarrow> nat gm" where
  "gen_uncond rsense =
     gbind (new_block (JMP JEQ)) (\<lambda>b.
     gbind (set_stmts b [new_stmt (BPF_LD OR BPF_IMM) (if rsense then 0 else 1)]) (\<lambda>_. gret b))"

definition gen_true :: "nat gm" where "gen_true = gen_uncond True"
definition gen_false :: "nat gm" where "gen_false = gen_uncond False"

definition gen_ipfrag :: "layout \<Rightarrow> nat gm" where
  "gen_ipfrag L =
     gbind (new_block (JMP JSET)) (\<lambda>b.
     gbind (set_k b 0x1fff) (\<lambda>_.
     gbind (set_stmts b (gen_load_a L OR_NET 6 SzH)) (\<lambda>_.
     gbind (gen_not b) (\<lambda>_. gret b))))"

section \<open>What a load reads\<close>

fun field :: "layout \<Rightarrow> offrel \<Rightarrow> u32 \<Rightarrow> bsize \<Rightarrow> packet \<Rightarrow> u32 outcome" where
  "field L OR_PACKET offset sz pk = fetch pk sz offset"
| "field L OR_LINK offset sz pk = fetch pk sz (offset + off_ll L)"
| "field L OR_MACPL offset sz pk = fetch pk sz (off_macpl L + offset)"
| "field L OR_NET offset sz pk = fetch pk sz (off_macpl L + (off_nl L + offset))"
| "field L OR_NET_NOSNAP offset sz pk = fetch pk sz (off_macpl L + (off_nl_nosnap L + offset))"
| "field L OR_TRAN_IPV4 offset sz pk =
     and_then (fetch pk SzB (off_macpl L + off_nl L)) (\<lambda>v.
       fetch pk sz (push_bit 2 (v AND 0xf) + (off_macpl L + off_nl L + offset)))"
| "field L OR_TRAN_IPV6 offset sz pk = fetch pk sz (off_macpl L + (off_nl L + 40 + offset))"

text \<open>Statements that leave in \<open>A\<close> a value that does not depend on the registers.\<close>

definition computes :: "stmt list \<Rightarrow> (packet \<Rightarrow> u32 outcome) \<Rightarrow> bool" where
  "computes s f \<longleftrightarrow> list_all plain_stmt s \<and>
     (\<forall>pk r. and_then (exec_stmts pk s r) (\<lambda>r'. Next (rA r')) = f pk)"

lemma decode_load [simp]:
  "decode (BPF_LD OR BPF_ABS OR size_bits z) = Some (LdAbs z)"
  "decode (BPF_LD OR BPF_IND OR size_bits z) = Some (LdInd z)"
  by (cases z; simp add: decode_Some_iff)+

lemma decode_msh_and_imm [simp]:
  "decode (BPF_LDX OR BPF_MSH OR BPF_B) = Some LdxMsh"
  "decode (BPF_ALU OR BPF_AND OR BPF_K) = Some (Alu AAnd SrcK)"
  "decode (BPF_LD OR BPF_IMM) = Some LdImm"
  by (simp_all add: decode_Some_iff)

lemma decode_JMP [simp]: "decode (JMP j) = Some (Jmp j SrcK)"
  by (cases j) (simp_all add: decode_Some_iff JMP_def)

lemma exec_new_stmt:
  "decode c = Some i \<Longrightarrow> \<not> is_ctl i \<Longrightarrow> exec_stmt pk (new_stmt c k) r = exec_op pk i k r"
  using exec_stmt_op [of "new_stmt c k" i] by (simp add: new_stmt_def decode_Some_iff)

lemma wf_new_stmt:
  "decode c = Some i \<Longrightarrow> simple_op i \<Longrightarrow> (uses_mem i \<Longrightarrow> unat k < BPF_MEMWORDS) \<Longrightarrow> plain_stmt (new_stmt c k)"
  by (simp add: plain_stmt_def new_stmt_def)

lemma regs_upd: "rA (r\<lparr>rA := v\<rparr>) = v" "rX (r\<lparr>rX := v\<rparr>) = v" "rA (r\<lparr>rX := v\<rparr>) = rA r"
  by simp_all

lemmas gen_exec = exec_stmts.simps exec_stmts_append and_then.simps regs_upd list.pred_inject list_all_append simp_thms

lemma computes_load: "computes (gen_load_a L rel off z) (field L rel off z)"
proof -
  have a: "exec_stmt pk (new_stmt (BPF_LD OR BPF_ABS OR size_bits z) k) r =
      and_then (fetch pk z k) (\<lambda>v. Next (r\<lparr>rA := v\<rparr>))" for pk k r
    by (subst exec_new_stmt [OF decode_load(1)]) simp_all
  have i: "exec_stmt pk (new_stmt (BPF_LD OR BPF_IND OR size_bits z) k) r =
      and_then (fetch pk z (rX r + k)) (\<lambda>v. Next (r\<lparr>rA := v\<rparr>))" for pk k r
    by (subst exec_new_stmt [OF decode_load(2)]) simp_all
  have m: "exec_stmt pk (new_stmt (BPF_LDX OR BPF_MSH OR BPF_B) k) r =
      and_then (fetch pk SzB k) (\<lambda>v. Next (r\<lparr>rX := push_bit 2 (v AND 0xf)\<rparr>))" for pk k r
    by (subst exec_new_stmt [OF decode_msh_and_imm(1)]) simp_all
  have w: "plain_stmt (new_stmt (BPF_LD OR BPF_ABS OR size_bits z) k)"
    "plain_stmt (new_stmt (BPF_LD OR BPF_IND OR size_bits z) k)" "plain_stmt (new_stmt (BPF_LDX OR BPF_MSH OR BPF_B) k)" for k
    by (rule wf_new_stmt [OF decode_load(1)] wf_new_stmt [OF decode_load(2)] wf_new_stmt [OF decode_msh_and_imm(1)];
        simp)+
  have abs: "computes [new_stmt (BPF_LD OR BPF_ABS OR size_bits z) k] (\<lambda>pk. fetch pk z k)" for k
    unfolding computes_def
  proof (intro conjI allI)
    show "and_then (exec_stmts pk [new_stmt (BPF_LD OR BPF_ABS OR size_bits z) k] r) (\<lambda>r'. Next (rA r')) = fetch pk z k" for pk r
      by (cases "fetch pk z k") (simp_all only: gen_exec a)
  qed (simp only: gen_exec w)
  show ?thesis
  proof (cases rel)
    case OR_TRAN_IPV4
    show ?thesis
      unfolding computes_def OR_TRAN_IPV4
    proof (intro conjI allI)
      fix pk r
      show "and_then (exec_stmts pk (gen_load_a L OR_TRAN_IPV4 off z) r) (\<lambda>r'. Next (rA r')) = field L OR_TRAN_IPV4 off z pk"
      proof (cases "fetch pk SzB (off_macpl L + off_nl L)")
        case (Next v)
        then show ?thesis
          by (cases "fetch pk z (push_bit 2 (v AND 0xf) + (off_macpl L + off_nl L + off))")
            (simp_all only: gen_load_a.simps gen_loadx_iphdrlen_def append.simps m i gen_exec field.simps)
      qed (simp_all only: gen_load_a.simps gen_loadx_iphdrlen_def append.simps m i gen_exec field.simps)
    qed (simp only: gen_load_a.simps gen_loadx_iphdrlen_def append.simps gen_exec w)
  qed (use abs in \<open>simp_all add: gen_load_llrel_def gen_load_macplrel_def field.simps [abs_def]\<close>)
qed

lemma computes_and:
  assumes "computes s f"
  shows "computes (s @ [new_stmt (BPF_ALU OR BPF_AND OR BPF_K) k]) (\<lambda>pk. and_then (f pk) (\<lambda>a. Next (a AND k)))"
proof -
  have e: "exec_stmt pk (new_stmt (BPF_ALU OR BPF_AND OR BPF_K) k) r = Next (r\<lparr>rA := rA r AND k\<rparr>)" for pk r
    by (subst exec_new_stmt [OF decode_msh_and_imm(2)]) simp_all
  have w: "plain_stmt (new_stmt (BPF_ALU OR BPF_AND OR BPF_K) k)"
    by (rule wf_new_stmt [OF decode_msh_and_imm(2)]) simp_all
  show ?thesis
    unfolding computes_def
  proof (intro conjI allI)
    show "list_all plain_stmt (s @ [new_stmt (BPF_ALU OR BPF_AND OR BPF_K) k])"
      using assms w unfolding computes_def by (simp only: gen_exec)
    fix pk r
    have "f pk = and_then (exec_stmts pk s r) (\<lambda>r'. Next (rA r'))" using assms unfolding computes_def by simp
    then show "and_then (exec_stmts pk (s @ [new_stmt (BPF_ALU OR BPF_AND OR BPF_K) k]) r) (\<lambda>r'. Next (rA r')) =
        and_then (f pk) (\<lambda>a. Next (a AND k))"
      by (cases "exec_stmts pk s r") (simp_all only: gen_exec e)
  qed
qed

lemma computes_imm: "computes [new_stmt (BPF_LD OR BPF_IMM) k] (\<lambda>pk. Next k)"
proof -
  have "exec_stmt pk (new_stmt (BPF_LD OR BPF_IMM) k) r = Next (r\<lparr>rA := k\<rparr>)" for pk r
    by (subst exec_new_stmt [OF decode_msh_and_imm(3)]) simp_all
  moreover have "plain_stmt (new_stmt (BPF_LD OR BPF_IMM) k)"
    by (rule wf_new_stmt [OF decode_msh_and_imm(3)]) simp_all
  ultimately show ?thesis
    unfolding computes_def by (simp only: gen_exec)
qed

section \<open>What a test block decides\<close>

definition test_pred :: "(packet \<Rightarrow> u32 outcome) \<Rightarrow> jmp_op \<Rightarrow> u32 \<Rightarrow> pred" where
  "test_pred f j v = (\<lambda>pk. and_then (f pk) (\<lambda>a. Next (jump_taken j a v)))"

text \<open>A block whose statements and branch decide \<open>P\<close>, whatever the registers are.\<close>

definition decides :: "stmt list \<Rightarrow> stmt \<Rightarrow> pred \<Rightarrow> bool" where
  "decides s br P \<longleftrightarrow> list_all plain_stmt s \<and>
     (\<exists>j x. decode (s_code br) = Some (Jmp j x) \<and>
        (\<forall>pk r. length (rM r) = BPF_MEMWORDS \<longrightarrow>
           and_then (exec_stmts pk s r) (\<lambda>r'. Next (jump_taken j (rA r') (src_val x (s_k br) r'))) = P pk))"

definition branch_heap :: "stmt list \<Rightarrow> stmt \<Rightarrow> gen \<Rightarrow> gen" where
  "branch_heap s br g = (let n = length (gn_blocks g) in
     \<lparr>gn_blocks = gn_blocks g @ [\<lparr>b_stmts = s, b_s = br, b_jt = None, b_jf = None\<rparr>],
      gn_sense = (gn_sense g)(n := False), gn_head = (gn_head g)(n := n)\<rparr>)"

abbreviation test_heap :: "jmp_op \<Rightarrow> stmt list \<Rightarrow> u32 \<Rightarrow> gen \<Rightarrow> gen" where
  "test_heap j s v \<equiv> branch_heap s (new_stmt (JMP j) v)"

lemma branch_heap_expr:
  assumes c: "decides s br P"
  shows "expr_at (branch_heap s br g) (length (gn_blocks g)) {length (gn_blocks g)} [] [] (\<lambda>_. 0) P"
proof -
  let ?n = "length (gn_blocks g)" and ?g = "branch_heap s br g"
  let ?x = "\<lparr>b_stmts = s, b_s = br, b_jt = None, b_jf = None\<rparr>"
  have b: "gn_blocks ?g ! ?n = ?x" "length (gn_blocks ?g) = ?n + 1" "gn_sense ?g ?n = False" "gn_head ?g ?n = ?n"
    by (simp_all add: branch_heap_def Let_def)
  have h: "hside ?g ?n" by (simp add: hside_def b)
  have t: "target (gn_blocks ?g) ?n sd = None" for sd by (simp add: target_def JT_def JF_def b)
  have ex: "true_exits ?g ?n [] = {(?n, True)}" "false_exits ?g ?n [] = {(?n, False)}"
    using h by (simp_all add: true_exits_def false_exits_def holes_def)
  obtain j x where dj: "decode (s_code br) = Some (Jmp j x)"
    and P: "\<And>pk r. length (rM r) = BPF_MEMWORDS \<Longrightarrow>
      and_then (exec_stmts pk s r) (\<lambda>r'. Next (jump_taken j (rA r') (src_val x (s_k br) r'))) = P pk"
    using c by (auto simp: decides_def)
  have tb: "test_block (gn_blocks ?g) pk ?n r =
      and_then (exec_stmts pk s r) (\<lambda>r'. Next (jump_taken j (rA r') (src_val x (s_k br) r'), r'))" for pk r
    unfolding test_block_def b(1) using dj by simp
  have "gen_block_ok ?x" using c dj by (auto simp: gen_block_ok_def decides_def)
  moreover have "\<exists>z. runs (gn_blocks ?g) {(?n, True), (?n, False)} {?n} pk ?n r z \<and> verdict {(?n, True)} z = P pk"
    if r: "length (rM r) = BPF_MEMWORDS" for pk r
  proof (cases "test_block (gn_blocks ?g) pk ?n r")
    case (Next y)
    obtain v r' where y: "y = (v, r')" by (cases y)
    have "P pk = Next v" using P [OF r, of pk] Next y tb [of pk r] by (cases "exec_stmts pk s r") auto
    moreover have "runs (gn_blocks ?g) {(?n, True), (?n, False)} {?n} pk ?n r (Next (?n, v, r'))"
      using Next y by (intro runs.runs_leave) auto
    ultimately show ?thesis by (intro exI [of _ "Next (?n, v, r')"]) (simp add: verdict_def)
  next
    case (Ret u)
    from runs_stop [OF _ Ret] have "runs (gn_blocks ?g) {(?n, True), (?n, False)} {?n} pk ?n r (Ret u)" by simp
    moreover have "P pk = Ret u" using P [OF r, of pk] Ret tb [of pk r] by (cases "exec_stmts pk s r") auto
    ultimately show ?thesis by (intro exI [of _ "Ret u"]) (simp add: verdict_def)
  next
    case Abort
    from runs_stop [OF _ Abort] have "runs (gn_blocks ?g) {(?n, True), (?n, False)} {?n} pk ?n r Abort" by simp
    moreover have "P pk = Abort" using P [OF r, of pk] Abort tb [of pk r] by (cases "exec_stmts pk s r") auto
    ultimately show ?thesis by (intro exI [of _ Abort]) (simp add: verdict_def)
  next
    case (Fault u)
    from runs_stop [OF _ Fault] have "runs (gn_blocks ?g) {(?n, True), (?n, False)} {?n} pk ?n r (Fault u)" by simp
    moreover have "P pk = Fault u" using P [OF r, of pk] Fault tb [of pk r] by (cases "exec_stmts pk s r") auto
    ultimately show ?thesis by (intro exI [of _ "Fault u"]) (simp add: verdict_def)
  qed
  ultimately show ?thesis
    unfolding expr_at_def ex b(4) hole_target t using b(1,2) h by (auto simp: ex insert_commute t)
qed

lemma makes_branch:
  assumes "decides s br P" and "\<And>g. m g = Inr (length (gn_blocks g), branch_heap s br g)"
  shows "makes m P"
proof (rule makesI, rule hoareI)
  fix g A assume "owns g [] A"
  then have A: "A \<subseteq> {..<length (gn_blocks g)}" by simp
  let ?n = "length (gn_blocks g)" and ?g = "branch_heap s br g"
  have l: "length (gn_blocks ?g) = ?n + 1" by (simp add: branch_heap_def Let_def)
  have s: "same_on {..<?n} g ?g"
    by (auto simp: same_on_def branch_heap_def Let_def nth_append)
  have n: "{?n..<length (gn_blocks ?g)} = {?n}" using l by auto
  have "owns ?g [] (A \<union> {?n} - {?n})" using A l by auto
  then have o: "owns ?g [(?n, P)] (A \<union> {?n})"
    using branch_heap_expr [OF assms(1)] by (intro owns_ConsI [where D = "{?n}"]) auto
  show "\<exists>b g'. m g = Inr (b, g') \<and> length (gn_blocks g) \<le> length (gn_blocks g') \<and>
      same_on ({..<length (gn_blocks g)} - A) g g' \<and>
      owns g' [(b, P)] (A \<union> {length (gn_blocks g)..<length (gn_blocks g')})"
    using assms(2) [of g] same_on_mono [OF s, of "{..<?n} - A"] o l n by auto
qed

lemma computes_decides: "computes s f \<Longrightarrow> decides s (new_stmt (JMP j) v) (test_pred f j v)"
  unfolding decides_def
proof (intro conjI exI allI impI)
  assume c: "computes s f"
  then show "list_all plain_stmt s" by (simp add: computes_def)
  show "decode (s_code (new_stmt (JMP j) v)) = Some (Jmp j SrcK)" by (simp add: new_stmt_def)
  fix pk r
  have "f pk = and_then (exec_stmts pk s r) (\<lambda>r'. Next (rA r'))" using c by (simp add: computes_def)
  then show "and_then (exec_stmts pk s r) (\<lambda>r'. Next (jump_taken j (rA r') (src_val SrcK (s_k (new_stmt (JMP j) v)) r'))) =
      test_pred f j v pk"
    by (cases "exec_stmts pk s r") (simp_all add: test_pred_def new_stmt_def)
qed

lemma makes_test:
  assumes "computes s f" and "\<And>g. m g = Inr (length (gn_blocks g), test_heap j s v g)"
  shows "makes m (test_pred f j v)"
  by (rule makes_branch [OF computes_decides [OF assms(1)] assms(2)])

lemma test_block_runs:
  "gbind (new_block (JMP j)) (\<lambda>b. gbind (set_stmts b s) (\<lambda>_. gbind (set_k b v) (\<lambda>_. gret b))) g =
     Inr (length (gn_blocks g), test_heap j s v g)"
  "gbind (new_block (JMP j)) (\<lambda>b. gbind (set_k b v) (\<lambda>_. gbind (set_stmts b s) (\<lambda>_. gret b))) g =
     Inr (length (gn_blocks g), test_heap j s v g)"
  "gbind (new_block (JMP j)) (\<lambda>b. gbind (set_stmts b s) (\<lambda>_. gret b)) g =
     Inr (length (gn_blocks g), test_heap j s 0 g)"
  by (simp_all add: new_block_def set_stmts_def set_k_def gret_def upd_block_def branch_heap_def new_stmt_def Let_def)

section \<open>Deriving what a generator makes\<close>

lemma gbind_assoc: "gbind (gbind m f) h = gbind m (\<lambda>x. gbind (f x) h)"
  by (rule ext) (auto split: sum.splits)

lemma gbind_gret: "gbind (gret x) f = f x"
  by (rule ext) (simp add: gret_def)

text \<open>A generator's code is a sequence of calls; each rule handles the first.\<close>

lemmas gen_rules = hoare_bind hoare_not hoare_and hoare_and' hoare_or hoare_or'

lemma hoare_gret: "hoare [(b, P)] (gret b) (\<lambda>b. [(b, P)])"
  by (rule hoare_ret [where Q = "\<lambda>b. [(b, P)]"])

lemma makes_not_last: "makes m P \<Longrightarrow> makes (gbind m (\<lambda>b. gbind (gen_not b) (\<lambda>_. gret b))) (p_not P)"
  by (rule makesI, rule hoare_bind, erule hoare_makes, rule hoare_bind, rule hoare_not, rule hoare_gret)

definition ncmp_pred :: "layout \<Rightarrow> offrel \<Rightarrow> u32 \<Rightarrow> bsize \<Rightarrow> u32 \<Rightarrow> jmp_op \<Rightarrow> bool \<Rightarrow> u32 \<Rightarrow> pred" where
  "ncmp_pred L rel off z msk j rv v = (\<lambda>pk. and_then (field L rel off z pk) (\<lambda>a.
     Next (jump_taken j (a AND msk) v \<noteq> (rv \<and> (j = JGT \<or> j = JGE)))))"

lemma makes_ncmp: "makes (gen_ncmp L rel off z msk j rv v) (ncmp_pred L rel off z msk j rv v)"
proof -
  let ?s = "if msk \<noteq> 0xffffffff then gen_load_a L rel off z @ [new_stmt (BPF_ALU OR BPF_AND OR BPF_K) msk]
      else gen_load_a L rel off z"
  let ?f = "\<lambda>pk. and_then (field L rel off z pk) (\<lambda>a. Next (a AND msk))"
  let ?m = "gbind (new_block (JMP j)) (\<lambda>b. gbind (set_stmts b ?s) (\<lambda>_. gbind (set_k b v) (\<lambda>_. gret b)))"
  have "computes ?s ?f"
  proof (cases "msk = 0xffffffff")
    case True
    have "msk = - 1" using True by simp
    then have "?f = field L rel off z" by (simp add: fun_eq_iff)
    then show ?thesis using computes_load [of L rel off z] True by simp
  next
    case False
    then show ?thesis using computes_and [OF computes_load, of L rel off z msk] by simp
  qed
  then have t: "makes ?m (test_pred ?f j v)"
    by (rule makes_test) (rule test_block_runs(1))
  have e: "gen_ncmp L rel off z msk j rv v =
      gbind ?m (\<lambda>b. gbind (if rv \<and> (j = JGT \<or> j = JGE) then gen_not b else gret ()) (\<lambda>_. gret b))"
    by (simp only: gen_ncmp_def Let_def gbind_assoc gbind_gret)
  have p: "ncmp_pred L rel off z msk j rv v =
      (if rv \<and> (j = JGT \<or> j = JGE) then p_not (test_pred ?f j v) else test_pred ?f j v)"
  proof
    fix pk show "ncmp_pred L rel off z msk j rv v pk =
      (if rv \<and> (j = JGT \<or> j = JGE) then p_not (test_pred ?f j v) else test_pred ?f j v) pk"
      by (cases "field L rel off z pk") (auto simp: ncmp_pred_def p_not_def test_pred_def)
  qed
  show ?thesis
  proof (cases "rv \<and> (j = JGT \<or> j = JGE)")
    case True
    then show ?thesis using makes_not_last [OF t] unfolding e p by simp
  next
    case False
    have "gbind ?m gret = ?m" by (simp only: gbind_assoc gbind_gret)
    then show ?thesis using t False unfolding e p by (simp only: if_False gbind_gret)
  qed
qed

text \<open>The comparison predicates.\<close>

definition is_eq :: "layout \<Rightarrow> offrel \<Rightarrow> u32 \<Rightarrow> bsize \<Rightarrow> u32 \<Rightarrow> u32 \<Rightarrow> pred" where
  "is_eq L rel off z msk v = (\<lambda>pk. and_then (field L rel off z pk) (\<lambda>a. Next (a AND msk = v)))"

definition is_rel :: "(u32 \<Rightarrow> u32 \<Rightarrow> bool) \<Rightarrow> layout \<Rightarrow> offrel \<Rightarrow> u32 \<Rightarrow> bsize \<Rightarrow> u32 \<Rightarrow> pred" where
  "is_rel R L rel off z v = (\<lambda>pk. and_then (field L rel off z pk) (\<lambda>a. Next (R a v)))"

lemma full_mask [simp]: "(a :: u32) AND 0xffffffff = a"
proof -
  have "(0xffffffff :: u32) = - 1" by simp
  then show ?thesis by (simp only: and.right_neutral)
qed

lemma makes_cmp: "makes (gen_cmp L rel off z v) (is_eq L rel off z 0xffffffff v)"
  and makes_mcmp: "makes (gen_mcmp L rel off z v msk) (is_eq L rel off z msk v)"
  and makes_cmp_gt: "makes (gen_cmp_gt L rel off z v) (is_rel (>) L rel off z v)"
  and makes_cmp_ge: "makes (gen_cmp_ge L rel off z v) (is_rel (\<ge>) L rel off z v)"
  and makes_cmp_lt: "makes (gen_cmp_lt L rel off z v) (is_rel (<) L rel off z v)"
  and makes_cmp_le: "makes (gen_cmp_le L rel off z v) (is_rel (\<le>) L rel off z v)"
  using makes_ncmp [of L rel off z "0xffffffff" JEQ False v] makes_ncmp [of L rel off z msk JEQ False v]
    makes_ncmp [of L rel off z "0xffffffff" JGT False v] makes_ncmp [of L rel off z "0xffffffff" JGE False v]
    makes_ncmp [of L rel off z "0xffffffff" JGE True v] makes_ncmp [of L rel off z "0xffffffff" JGT True v]
  by (simp_all add: gen_cmp_def gen_mcmp_def gen_cmp_gt_def gen_cmp_ge_def gen_cmp_lt_def gen_cmp_le_def
      ncmp_pred_def is_eq_def is_rel_def not_le not_less)

definition p_const :: "bool \<Rightarrow> pred" where "p_const b = (\<lambda>pk. Next b)"

lemma makes_true: "makes gen_true (p_const True)"
  and makes_false: "makes gen_false (p_const False)"
proof -
  have "makes (gen_uncond b) (test_pred (\<lambda>pk. Next (if b then 0 else 1)) JEQ 0)" for b
    unfolding gen_uncond_def by (rule makes_test [OF computes_imm test_block_runs(3)])
  from this [of True] this [of False] show "makes gen_true (p_const True)" "makes gen_false (p_const False)"
    by (simp_all add: gen_true_def gen_false_def test_pred_def p_const_def)
qed

text \<open>The packet is no later fragment: the offset field of the IPv4 header is zero.\<close>

lemma makes_ipfrag: "makes (gen_ipfrag L) (\<lambda>pk. and_then (field L OR_NET 6 SzH pk) (\<lambda>a. Next (a AND 0x1fff = 0)))"
proof -
  let ?m = "gbind (new_block (JMP JSET)) (\<lambda>b. gbind (set_k b 0x1fff) (\<lambda>_.
      gbind (set_stmts b (gen_load_a L OR_NET 6 SzH)) (\<lambda>_. gret b)))"
  have "makes ?m (test_pred (field L OR_NET 6 SzH) JSET 0x1fff)"
    by (rule makes_test [OF computes_load test_block_runs(2)])
  from makes_not_last [OF this]
  have "makes (gen_ipfrag L) (p_not (test_pred (field L OR_NET 6 SzH) JSET 0x1fff))"
    by (simp only: gen_ipfrag_def gbind_assoc gbind_gret)
  moreover have "p_not (test_pred (field L OR_NET 6 SzH) JSET 0x1fff) =
      (\<lambda>pk. and_then (field L OR_NET 6 SzH pk) (\<lambda>a. Next (a AND 0x1fff = 0)))"
  proof
    fix pk show "p_not (test_pred (field L OR_NET 6 SzH) JSET 0x1fff) pk =
        and_then (field L OR_NET 6 SzH pk) (\<lambda>a. Next (a AND 0x1fff = 0))"
      by (cases "field L OR_NET 6 SzH pk") (simp_all add: p_not_def test_pred_def)
  qed
  ultimately show ?thesis by simp
qed

text \<open>\<open>gen_bcmp\<close>: the conjunction of its comparisons, in the order generated. The new comparison is
  tested after those before it.\<close>

definition p_and_opt :: "pred option \<Rightarrow> pred \<Rightarrow> pred" where
  "p_and_opt P Q = (case P of None \<Rightarrow> Q | Some P' \<Rightarrow> p_and P' Q)"

fun bcmp2_pred :: "layout \<Rightarrow> offrel \<Rightarrow> u32 \<Rightarrow> nat \<Rightarrow> u8 list \<Rightarrow> pred option \<Rightarrow> pred option" where
  "bcmp2_pred L rel off n v P =
     (if n \<ge> 2 then bcmp2_pred L rel off (n - 2) v
        (Some (p_and_opt P (is_eq L rel (off + of_nat n - 2) SzH 0xffffffff (be16 (v ! (n - 2)) (v ! (n - 1))))))
      else if n > 0 then Some (p_and_opt P (is_eq L rel off SzB 0xffffffff (ucast (v ! 0))))
      else P)"

fun bcmp4_pred :: "layout \<Rightarrow> offrel \<Rightarrow> u32 \<Rightarrow> nat \<Rightarrow> u8 list \<Rightarrow> pred option \<Rightarrow> pred option" where
  "bcmp4_pred L rel off n v P =
     (if n \<ge> 4 then bcmp4_pred L rel off (n - 4) v
        (Some (p_and_opt P (is_eq L rel (off + of_nat n - 4) SzW 0xffffffff
           (be32 (v ! (n - 4)) (v ! (n - 3)) (v ! (n - 2)) (v ! (n - 1))))))
      else bcmp2_pred L rel off n v P)"

declare bcmp2_pred.simps [simp del] bcmp4_pred.simps [simp del]

fun opt_expr :: "nat option \<Rightarrow> pred option \<Rightarrow> (nat \<times> pred) list" where
  "opt_expr (Some b) (Some P) = [(b, P)]"
| "opt_expr _ _ = []"

lemma hoare_and_opt:
  assumes "b = None \<longleftrightarrow> P = None"
  shows "hoare ((tmp, Q) # opt_expr b P) (and_opt b tmp) (\<lambda>_. [(tmp, p_and_opt P Q)])"
proof (cases b)
  case None
  then show ?thesis using assms hoare_ret [where Q = "\<lambda>_. [(tmp, Q)]" and v = "()"]
    by (simp add: and_opt_def p_and_opt_def)
next
  case (Some x)
  then obtain P' where "P = Some P'" using assms by auto
  then show ?thesis using Some hoare_and' [of tmp Q x P' "[]"] by (simp add: and_opt_def p_and_opt_def)
qed

text \<open>What is known of a result that may be null.\<close>

definition makes_opt :: "nat option \<Rightarrow> pred option \<Rightarrow> nat option gm \<Rightarrow> pred option \<Rightarrow> bool" where
  "makes_opt b P m Q \<longleftrightarrow> (b = None \<longleftrightarrow> P = None) \<longrightarrow>
     (\<forall>g A. owns g (opt_expr b P) A \<longrightarrow>
       (\<exists>c g'. m g = Inr (c, g') \<and> (c = None \<longleftrightarrow> Q = None) \<and> length (gn_blocks g) \<le> length (gn_blocks g') \<and>
          same_on ({..<length (gn_blocks g)} - A) g g' \<and>
          owns g' (opt_expr c Q) (A \<union> {length (gn_blocks g)..<length (gn_blocks g')})))"

lemma makes_optD:
  assumes "makes_opt b P m Q" and "b = None \<longleftrightarrow> P = None" and "owns g (opt_expr b P) A"
  shows "\<exists>c g'. m g = Inr (c, g') \<and> (c = None \<longleftrightarrow> Q = None) \<and> length (gn_blocks g) \<le> length (gn_blocks g') \<and>
     same_on ({..<length (gn_blocks g)} - A) g g' \<and>
     owns g' (opt_expr c Q) (A \<union> {length (gn_blocks g)..<length (gn_blocks g')})"
  using assms unfolding makes_opt_def by blast

lemma makes_opt_step:
  assumes m: "makes m R" and rest: "\<And>tmp. makes_opt (Some tmp) (Some (p_and_opt P R)) (f tmp) Q"
  shows "makes_opt b P (gbind m (\<lambda>tmp. gbind (and_opt b tmp) (\<lambda>_. f tmp))) Q"
  unfolding makes_opt_def
proof (intro impI allI)
  fix g A assume n: "b = None \<longleftrightarrow> P = None" and o: "owns g (opt_expr b P) A"
  have h: "hoare (opt_expr b P) (gbind m (\<lambda>tmp. gbind (and_opt b tmp) (\<lambda>_. gret tmp)))
      (\<lambda>tmp. [(tmp, p_and_opt P R)])"
    by (rule hoare_bind [OF hoare_makes [OF m]], rule hoare_bind [OF hoare_and_opt [OF n]], rule hoare_gret)
  let ?m = "gbind m (\<lambda>tmp. gbind (and_opt b tmp) (\<lambda>_. gret tmp))"
  obtain tmp g1 where g1: "?m g = Inr (tmp, g1)" "length (gn_blocks g) \<le> length (gn_blocks g1)"
    "same_on ({..<length (gn_blocks g)} - A) g g1"
    "owns g1 [(tmp, p_and_opt P R)] (A \<union> {length (gn_blocks g)..<length (gn_blocks g1)})"
    using h o unfolding hoare_def by blast
  let ?A = "A \<union> {length (gn_blocks g)..<length (gn_blocks g1)}"
  obtain c g2 where g2: "f tmp g1 = Inr (c, g2)" "c = None \<longleftrightarrow> Q = None" "length (gn_blocks g1) \<le> length (gn_blocks g2)"
    "same_on ({..<length (gn_blocks g1)} - ?A) g1 g2"
    "owns g2 (opt_expr c Q) (?A \<union> {length (gn_blocks g1)..<length (gn_blocks g2)})"
    using makes_optD [OF rest [of tmp], of g1 ?A] g1(4) by auto
  have e: "gbind m (\<lambda>tmp. gbind (and_opt b tmp) (\<lambda>_. f tmp)) = gbind ?m f"
    by (simp only: gbind_assoc gbind_gret)
  have "{..<length (gn_blocks g1)} - ?A = {..<length (gn_blocks g)} - A" using g1(2) by auto
  then have "same_on ({..<length (gn_blocks g)} - A) g g2" using same_on_trans [OF g1(3)] g2(4) by simp
  moreover have "?A \<union> {length (gn_blocks g1)..<length (gn_blocks g2)} =
      A \<union> {length (gn_blocks g)..<length (gn_blocks g2)}" using g1(2) g2(3) by auto
  moreover have "gbind ?m f g = Inr (c, g2)" using g1(1) g2(1) by (simp only: gbind_run sum.case prod.case)
  ultimately show "\<exists>c g'. gbind m (\<lambda>tmp. gbind (and_opt b tmp) (\<lambda>_. f tmp)) g = Inr (c, g') \<and>
      (c = None \<longleftrightarrow> Q = None) \<and> length (gn_blocks g) \<le> length (gn_blocks g') \<and>
      same_on ({..<length (gn_blocks g)} - A) g g' \<and>
      owns g' (opt_expr c Q) (A \<union> {length (gn_blocks g)..<length (gn_blocks g')})"
    unfolding e using g1(2) g2(2,3,5) by auto
qed

lemma makes_opt_ret: "makes_opt b P (gret b) P"
  unfolding makes_opt_def by (auto simp: gret_def same_on_refl)

lemma makes_bcmp2: "makes_opt b P (gen_bcmp2 L rel off n v b) (bcmp2_pred L rel off n v P)"
proof (induction L rel off n v P arbitrary: b rule: bcmp2_pred.induct)
  case (1 L rel off n v P)
  consider "n \<ge> 2" | "n = 1" | "n = 0" by linarith
  then show ?case
  proof cases
    case 1
    show ?thesis
      unfolding gen_bcmp2.simps [of L rel off n] bcmp2_pred.simps [of L rel off n]
      using 1 by (simp only: if_True) (rule makes_opt_step [OF makes_cmp], rule "1.IH"(1); simp)
  next
    case 2
    then have "\<not> n \<ge> 2" "n > 0" by simp_all
    then show ?thesis
      unfolding gen_bcmp2.simps [of L rel off n] bcmp2_pred.simps [of L rel off n]
      by (simp only: if_True if_False) (rule makes_opt_step [OF makes_cmp makes_opt_ret])
  next
    case 3
    then show ?thesis
      unfolding gen_bcmp2.simps [of L rel off n] bcmp2_pred.simps [of L rel off n]
      using makes_opt_ret by simp
  qed
qed

lemma makes_bcmp4: "makes_opt b P (gen_bcmp4 L rel off n v b) (bcmp4_pred L rel off n v P)"
proof (induction L rel off n v P arbitrary: b rule: bcmp4_pred.induct)
  case (1 L rel off n v P)
  show ?case
  proof (cases "n \<ge> 4")
    case True
    show ?thesis
      unfolding gen_bcmp4.simps [of L rel off n] bcmp4_pred.simps [of L rel off n]
      using True by (simp only: if_True) (rule makes_opt_step [OF makes_cmp], rule "1.IH"; simp)
  next
    case False
    then show ?thesis
      unfolding gen_bcmp4.simps [of L rel off n] bcmp4_pred.simps [of L rel off n]
      using makes_bcmp2 by simp
  qed
qed

lemma makes_bcmp:
  assumes "bcmp4_pred L rel off n v None = Some P"
  shows "makes (gen_bcmp L rel off n v) P"
proof (rule makesI, rule hoareI)
  fix g A assume "owns g [] A"
  then obtain c g' where "gen_bcmp4 L rel off n v None g = Inr (c, g')" "c \<noteq> None"
    "length (gn_blocks g) \<le> length (gn_blocks g')" "same_on ({..<length (gn_blocks g)} - A) g g'"
    "owns g' (opt_expr c (Some P)) (A \<union> {length (gn_blocks g)..<length (gn_blocks g')})"
    using makes_optD [OF makes_bcmp4 [of None None L rel off n v], of g A] unfolding assms by auto
  moreover from this obtain x where "c = Some x" by auto
  ultimately show "\<exists>b g'. gen_bcmp L rel off n v g = Inr (b, g') \<and> length (gn_blocks g) \<le> length (gn_blocks g') \<and>
      same_on ({..<length (gn_blocks g)} - A) g g' \<and>
      owns g' [(b, P)] (A \<union> {length (gn_blocks g)..<length (gn_blocks g')})"
    by (simp add: gen_bcmp_def gret_def)
qed

text \<open>A comparison that starts from no expression and a string that is not empty gives one.\<close>

definition bcmp_pred :: "layout \<Rightarrow> offrel \<Rightarrow> u32 \<Rightarrow> nat \<Rightarrow> u8 list \<Rightarrow> pred" where
  "bcmp_pred L rel off n v = the (bcmp4_pred L rel off n v None)"

lemma bcmp2_pred_some: "n > 0 \<or> P \<noteq> None \<Longrightarrow> \<exists>Q. bcmp2_pred L rel off n v P = Some Q"
  by (induction L rel off n v P rule: bcmp2_pred.induct) (auto simp: bcmp2_pred.simps)

lemma bcmp4_pred_some: "n > 0 \<or> P \<noteq> None \<Longrightarrow> \<exists>Q. bcmp4_pred L rel off n v P = Some Q"
  by (induction L rel off n v P rule: bcmp4_pred.induct) (auto simp: bcmp4_pred.simps bcmp2_pred_some)

lemma makes_bcmp_pred: "n > 0 \<Longrightarrow> makes (gen_bcmp L rel off n v) (bcmp_pred L rel off n v)"
  using bcmp4_pred_some [of n None L rel off v] makes_bcmp [of L rel off n v] by (auto simp: bcmp_pred_def)

end
