(* ===== verification/Gen_Rules.thy ===== *)
theory Gen_Rules
  imports Gen_Cmp
begin

text \<open>
  How the functions of \<^verbatim>\<open>gencode.c\<close> that compose tests are specified: such a function either
  fails to compile (\<open>bpf_error\<close>, \<open>abort\<close>) or leaves one new expression in the heap that decides a
  predicate on packets. \<open>gives m r\<close> says which; the rules \<open>tri_*\<close> follow the code call by call and
  carry the pending expressions.
\<close>

section \<open>Triples that may fail\<close>

type_synonym meaning = "gen_error + pred"

definition tri :: "(nat \<times> pred) list \<Rightarrow> nat gm \<Rightarrow> meaning \<Rightarrow> bool" where
  "tri xs m r \<longleftrightarrow> (case r of Inl e \<Rightarrow> \<forall>g A. owns g xs A \<longrightarrow> m g = Inl e
     | Inr P \<Rightarrow> hoare xs m (\<lambda>b. [(b, P)]))"

abbreviation gives :: "nat gm \<Rightarrow> meaning \<Rightarrow> bool" where
  "gives m r \<equiv> tri [] m r"

lemma gives_makes: "gives m (Inr P) \<longleftrightarrow> makes m P"
  unfolding tri_def sum.case using makesI hoare_makes [of m P "[]"] by auto

lemma gives_error: "gives m (Inl e) \<Longrightarrow> m g = Inl e"
  by (auto simp: tri_def)

named_theorems tri_intros \<open>the triples of the calls a generator makes\<close>

lemma tri_ret [tri_intros]: "tri [(b, P)] (gret b) (Inr P)"
  unfolding tri_def sum.case by (rule hoare_gret)

lemma tri_fail [tri_intros]: "tri xs (gfail e) (Inl e)"
  by (simp add: tri_def gfail_def)

lemma tri_if [tri_intros]:
  "(c \<Longrightarrow> tri xs m r) \<Longrightarrow> (\<not> c \<Longrightarrow> tri xs m' r') \<Longrightarrow> tri xs (if c then m else m') (if c then r else r')"
  by simp

lemma tri_bind:
  assumes m: "hoare xs m Q" and k: "\<And>v. tri (Q v) (k v) r"
  shows "tri xs (gbind m k) r"
proof (cases r)
  case (Inl e)
  show ?thesis
    unfolding tri_def Inl sum.case
  proof (intro allI impI)
    fix g A assume "owns g xs A"
    then obtain v g1 where "m g = Inr (v, g1)" "owns g1 (Q v) (A \<union> {length (gn_blocks g)..<length (gn_blocks g1)})"
      using m unfolding hoare_def by blast
    then show "gbind m k g = Inl e" using k [of v] unfolding Inl tri_def by auto
  qed
next
  case (Inr P)
  then show ?thesis using m k unfolding tri_def by (auto intro: hoare_bind)
qed

lemma tri_makes: "makes m P \<Longrightarrow> (\<And>b. tri ((b, P) # xs) (k b) r) \<Longrightarrow> tri xs (gbind m k) r"
  by (rule tri_bind [OF hoare_makes])

lemma tri_tail: "makes m P \<Longrightarrow> gives m (Inr P)"
  by (simp add: gives_makes)

lemma tri_call:
  assumes m: "gives m r1" and k: "\<And>b P. tri ((b, P) # xs) (k b) (r2 P)"
  shows "tri xs (gbind m k) (rbind r1 r2)"
proof (cases r1)
  case (Inl e)
  then show ?thesis using gives_error [of m e] m by (simp add: tri_def)
next
  case (Inr P)
  then show ?thesis using tri_makes [of m P xs k "r2 P"] m k by (simp add: gives_makes)
qed

lemma tri_not [tri_intros]:
  "tri ((b, p_not P) # xs) (k ()) r \<Longrightarrow> tri ((b, P) # xs) (gbind (gen_not b) k) r"
  by (rule tri_bind [OF hoare_not]) simp

lemma tri_and [tri_intros]:
  "tri ((b1, p_and P Q) # xs) (k ()) r \<Longrightarrow> tri ((b0, P) # (b1, Q) # xs) (gbind (gen_and b0 b1) k) r"
  "tri ((b1, p_and P Q) # xs) (k ()) r \<Longrightarrow> tri ((b1, Q) # (b0, P) # xs) (gbind (gen_and b0 b1) k) r"
  by (rule tri_bind [OF hoare_and] tri_bind [OF hoare_and'], simp)+

lemma tri_or [tri_intros]:
  "tri ((b1, p_or P Q) # xs) (k ()) r \<Longrightarrow> tri ((b0, P) # (b1, Q) # xs) (gbind (gen_or b0 b1) k) r"
  "tri ((b1, p_or P Q) # xs) (k ()) r \<Longrightarrow> tri ((b1, Q) # (b0, P) # xs) (gbind (gen_or b0 b1) k) r"
  by (rule tri_bind [OF hoare_or] tri_bind [OF hoare_or'], simp)+

text \<open>Choices that cannot fail.\<close>

lemma tri_if_pred [tri_intros]:
  "(c \<Longrightarrow> tri xs m (Inr P)) \<Longrightarrow> (\<not> c \<Longrightarrow> tri xs m' (Inr P')) \<Longrightarrow>
   tri xs (if c then m else m') (Inr (if c then P else P'))"
  by simp

lemma tri_if_bind [tri_intros]:
  "makes m P \<Longrightarrow> makes m' P' \<Longrightarrow> (\<And>b. tri ((b, if c then P else P') # xs) (k b) r) \<Longrightarrow>
   tri xs (gbind (if c then m else m') k) r"
  by (cases c) (auto intro: tri_makes)

text \<open>Choices the arguments decide.\<close>

lemma tri_if_refl: "tri xs m r \<Longrightarrow> tri xs (if (x :: int) = x then m else m') r"
  by simp

lemma tri_if_skip: "(x :: int) \<noteq> y \<Longrightarrow> tri xs m' r \<Longrightarrow> tri xs (if x = y then m else m') r"
  by simp

lemmas bcmp_ones = makes_bcmp_pred [OF zero_less_numeral] makes_bcmp_pred [OF zero_less_one]

lemmas comparisons = makes_cmp makes_mcmp makes_cmp_gt makes_cmp_ge makes_cmp_lt makes_cmp_le makes_true makes_false
  makes_ipfrag makes_ncmp bcmp_ones

lemmas [tri_intros] = comparisons comparisons [THEN tri_makes] comparisons [THEN tri_tail]

section \<open>Compiling\<close>

text \<open>The graph of a filter. A filter for which the generator fails has none; the others accept, with
  \<open>snaplen\<close>, the packets for which the predicate holds.\<close>

lemma compile_meaning:
  assumes "gives m r"
  shows "case r of
      Inl e \<Rightarrow> gbind m (finish_parse snaplen) empty_gen = Inl e
    | Inr P \<Rightarrow> \<exists>root g h. gbind m (finish_parse snaplen) empty_gen = Inr (root, g) \<and>
        compiled_graph snaplen P (gn_blocks g) root h"
proof (cases r)
  case (Inl e)
  then show ?thesis using gives_error [of m e empty_gen] assms by simp
next
  case (Inr P)
  then show ?thesis using compile_graph [of m P snaplen] assms unfolding gives_makes Inr sum.case by blast
qed

end
