(* ===== verification/Gen_Link.thy ===== *)
theory Gen_Link
  imports Gen_Rules
begin

text \<open>
  The link-layer type tests of \<^verbatim>\<open>gencode.c\<close>: \<open>gen_linktype\<close> and the functions it dispatches
  to by link type. A protocol is an Ethernet type when it is larger than \<open>ETHERMTU\<close>, an LLC SAP
  otherwise.
\<close>

section \<open>Protocol numbers\<close>

abbreviation (input) ETHERMTU :: int where "ETHERMTU \<equiv> 1500"

abbreviation (input) LLCSAP_IP :: int where "LLCSAP_IP \<equiv> 0x06"
abbreviation (input) LLCSAP_8021D :: int where "LLCSAP_8021D \<equiv> 0x42"
abbreviation (input) LLCSAP_SNAP :: u8 where "LLCSAP_SNAP \<equiv> 0xaa"
abbreviation (input) LLCSAP_IPX :: int where "LLCSAP_IPX \<equiv> 0xe0"
abbreviation (input) LLCSAP_NETBEUI :: int where "LLCSAP_NETBEUI \<equiv> 0xf0"
abbreviation (input) LLCSAP_ISONS :: int where "LLCSAP_ISONS \<equiv> 0xfe"

abbreviation (input) ETHERTYPE_NS :: int where "ETHERTYPE_NS \<equiv> 0x0600"
abbreviation (input) ETHERTYPE_IP :: int where "ETHERTYPE_IP \<equiv> 0x0800"
abbreviation (input) ETHERTYPE_ARP :: int where "ETHERTYPE_ARP \<equiv> 0x0806"
abbreviation (input) ETHERTYPE_DN :: int where "ETHERTYPE_DN \<equiv> 0x6003"
abbreviation (input) ETHERTYPE_REVARP :: int where "ETHERTYPE_REVARP \<equiv> 0x8035"
abbreviation (input) ETHERTYPE_ATALK :: int where "ETHERTYPE_ATALK \<equiv> 0x809b"
abbreviation (input) ETHERTYPE_AARP :: int where "ETHERTYPE_AARP \<equiv> 0x80f3"
abbreviation (input) ETHERTYPE_IPX :: int where "ETHERTYPE_IPX \<equiv> 0x8137"
abbreviation (input) ETHERTYPE_IPV6 :: int where "ETHERTYPE_IPV6 \<equiv> 0x86dd"

section \<open>SNAP and LLC headers\<close>

definition gen_snap :: "layout \<Rightarrow> u32 \<Rightarrow> u32 \<Rightarrow> nat gm" where
  "gen_snap L orgcode ptype =
     gen_bcmp L OR_MACPL 0 8
       [LLCSAP_SNAP, LLCSAP_SNAP, 0x03,
        ucast (drop_bit 16 orgcode), ucast (drop_bit 8 orgcode), ucast orgcode,
        ucast (drop_bit 8 ptype), ucast ptype]"

definition gen_llc_linktype :: "layout \<Rightarrow> int \<Rightarrow> nat gm" where
  "gen_llc_linktype L proto =
     (if proto \<in> {LLCSAP_IP, LLCSAP_ISONS, LLCSAP_NETBEUI} then
        gen_cmp L OR_MACPL 0 SzH (word_of_int (push_bit 8 proto OR proto))
      else if proto = LLCSAP_IPX then gen_cmp L OR_MACPL 0 SzB (word_of_int LLCSAP_IPX)
      else if proto = ETHERTYPE_ATALK then gen_snap L 0x080007 (word_of_int ETHERTYPE_ATALK)
      else if proto \<le> ETHERMTU then gen_cmp L OR_MACPL 0 SzB (word_of_int proto)
      else gen_cmp L OR_MACPL 6 SzH (word_of_int proto))"

section \<open>Ethernet\<close>

definition gen_ether_linktype :: "layout \<Rightarrow> int \<Rightarrow> nat gm" where
  "gen_ether_linktype L proto =
     (if proto \<in> {LLCSAP_ISONS, LLCSAP_IP, LLCSAP_NETBEUI} then
        gbind (gen_cmp_gt L OR_LINK (off_linktype L) SzH (word_of_int ETHERMTU)) (\<lambda>b0.
        gbind (gen_not b0) (\<lambda>_.
        gbind (gen_cmp L OR_MACPL 0 SzH (word_of_int (push_bit 8 proto OR proto))) (\<lambda>b1.
        gbind (gen_and b0 b1) (\<lambda>_. gret b1))))
      else if proto = LLCSAP_IPX then
        gbind (gen_cmp L OR_MACPL 0 SzB (word_of_int LLCSAP_IPX)) (\<lambda>b0.
        gbind (gen_cmp L OR_MACPL 0 SzH 0xFFFF) (\<lambda>b1.
        gbind (gen_or b0 b1) (\<lambda>_.
        gbind (gen_snap L 0x000000 (word_of_int ETHERTYPE_IPX)) (\<lambda>b0.
        gbind (gen_or b0 b1) (\<lambda>_.
        gbind (gen_cmp_gt L OR_LINK (off_linktype L) SzH (word_of_int ETHERMTU)) (\<lambda>b0.
        gbind (gen_not b0) (\<lambda>_.
        gbind (gen_and b0 b1) (\<lambda>_.
        gbind (gen_cmp L OR_LINK (off_linktype L) SzH (word_of_int ETHERTYPE_IPX)) (\<lambda>b0.
        gbind (gen_or b0 b1) (\<lambda>_. gret b1))))))))))
      else if proto \<in> {ETHERTYPE_ATALK, ETHERTYPE_AARP} then
        gbind (gen_cmp_gt L OR_LINK (off_linktype L) SzH (word_of_int ETHERMTU)) (\<lambda>b0.
        gbind (gen_not b0) (\<lambda>_.
        gbind (if proto = ETHERTYPE_ATALK then gen_snap L 0x080007 (word_of_int ETHERTYPE_ATALK)
               else gen_snap L 0x000000 (word_of_int ETHERTYPE_AARP)) (\<lambda>b1.
        gbind (gen_and b0 b1) (\<lambda>_.
        gbind (gen_cmp L OR_LINK (off_linktype L) SzH (word_of_int proto)) (\<lambda>b0.
        gbind (gen_or b0 b1) (\<lambda>_. gret b1))))))
      else if proto \<le> ETHERMTU then
        gbind (gen_cmp_gt L OR_LINK (off_linktype L) SzH (word_of_int ETHERMTU)) (\<lambda>b0.
        gbind (gen_not b0) (\<lambda>_.
        gbind (gen_cmp L OR_LINK (off_linktype L + 2) SzB (word_of_int proto)) (\<lambda>b1.
        gbind (gen_and b0 b1) (\<lambda>_. gret b1))))
      else gen_cmp L OR_LINK (off_linktype L) SzH (word_of_int proto))"


definition gen_ipnet_linktype :: "layout \<Rightarrow> int \<Rightarrow> nat gm" where
  "gen_ipnet_linktype L proto =
     (if proto = ETHERTYPE_IP then gen_cmp L OR_LINK (off_linktype L) SzB 2
      else if proto = ETHERTYPE_IPV6 then gen_cmp L OR_LINK (off_linktype L) SzB 26
      else gen_false)"

section \<open>Linux cooked sockets\<close>

abbreviation (input) LINUX_SLL_P_802_3 :: u32 where "LINUX_SLL_P_802_3 \<equiv> 1"
abbreviation (input) LINUX_SLL_P_802_2 :: u32 where "LINUX_SLL_P_802_2 \<equiv> 4"

definition gen_linux_sll_linktype :: "layout \<Rightarrow> int \<Rightarrow> nat gm" where
  "gen_linux_sll_linktype L proto =
     (if proto \<in> {LLCSAP_ISONS, LLCSAP_IP, LLCSAP_NETBEUI} then
        gbind (gen_cmp L OR_LINK (off_linktype L) SzH LINUX_SLL_P_802_2) (\<lambda>b0.
        gbind (gen_cmp L OR_MACPL 0 SzH (word_of_int (push_bit 8 proto OR proto))) (\<lambda>b1.
        gbind (gen_and b0 b1) (\<lambda>_. gret b1)))
      else if proto = LLCSAP_IPX then
        gbind (gen_cmp L OR_MACPL 0 SzB (word_of_int LLCSAP_IPX)) (\<lambda>b0.
        gbind (gen_snap L 0x000000 (word_of_int ETHERTYPE_IPX)) (\<lambda>b1.
        gbind (gen_or b0 b1) (\<lambda>_.
        gbind (gen_cmp L OR_LINK (off_linktype L) SzH LINUX_SLL_P_802_2) (\<lambda>b0.
        gbind (gen_and b0 b1) (\<lambda>_.
        gbind (gen_cmp L OR_LINK (off_linktype L) SzH LINUX_SLL_P_802_3) (\<lambda>b0.
        gbind (gen_or b0 b1) (\<lambda>_.
        gbind (gen_cmp L OR_LINK (off_linktype L) SzH (word_of_int ETHERTYPE_IPX)) (\<lambda>b0.
        gbind (gen_or b0 b1) (\<lambda>_. gret b1)))))))))
      else if proto \<in> {ETHERTYPE_ATALK, ETHERTYPE_AARP} then
        gbind (gen_cmp L OR_LINK (off_linktype L) SzH LINUX_SLL_P_802_2) (\<lambda>b0.
        gbind (if proto = ETHERTYPE_ATALK then gen_snap L 0x080007 (word_of_int ETHERTYPE_ATALK)
               else gen_snap L 0x000000 (word_of_int ETHERTYPE_AARP)) (\<lambda>b1.
        gbind (gen_and b0 b1) (\<lambda>_.
        gbind (gen_cmp L OR_LINK (off_linktype L) SzH (word_of_int proto)) (\<lambda>b0.
        gbind (gen_or b0 b1) (\<lambda>_. gret b1)))))
      else if proto \<le> ETHERMTU then
        gbind (gen_cmp L OR_LINK (off_linktype L) SzH LINUX_SLL_P_802_2) (\<lambda>b0.
        gbind (gen_cmp L OR_LINK (off_macpl L) SzB (word_of_int proto)) (\<lambda>b1.
        gbind (gen_and b0 b1) (\<lambda>_. gret b1)))
      else gen_cmp L OR_LINK (off_linktype L) SzH (word_of_int proto))"

section \<open>PPP and MPLS\<close>

abbreviation (input) PPP_IP :: int where "PPP_IP \<equiv> 0x21"
abbreviation (input) PPP_OSI :: int where "PPP_OSI \<equiv> 0x23"
abbreviation (input) PPP_NS :: int where "PPP_NS \<equiv> 0x25"
abbreviation (input) PPP_DECNET :: int where "PPP_DECNET \<equiv> 0x27"
abbreviation (input) PPP_APPLE :: int where "PPP_APPLE \<equiv> 0x29"
abbreviation (input) PPP_IPX :: int where "PPP_IPX \<equiv> 0x2b"
abbreviation (input) PPP_VJC :: int where "PPP_VJC \<equiv> 0x2d"
abbreviation (input) PPP_VJNC :: int where "PPP_VJNC \<equiv> 0x2f"
abbreviation (input) PPP_BRPDU :: int where "PPP_BRPDU \<equiv> 0x31"
abbreviation (input) PPP_IPV6 :: int where "PPP_IPV6 \<equiv> 0x57"

definition ethertype_to_ppptype :: "int \<Rightarrow> int" where
  "ethertype_to_ppptype proto =
     (if proto = ETHERTYPE_IP then PPP_IP
      else if proto = ETHERTYPE_IPV6 then PPP_IPV6
      else if proto = ETHERTYPE_DN then PPP_DECNET
      else if proto = ETHERTYPE_ATALK then PPP_APPLE
      else if proto = ETHERTYPE_NS then PPP_NS
      else if proto = LLCSAP_ISONS then PPP_OSI
      else if proto = LLCSAP_8021D then PPP_BRPDU
      else if proto = LLCSAP_IPX then PPP_IPX
      else proto)"

abbreviation (input) Q_IP :: int where "Q_IP \<equiv> 2"
abbreviation (input) Q_IPV6 :: int where "Q_IPV6 \<equiv> 17"

definition gen_mpls_linktype :: "layout \<Rightarrow> int \<Rightarrow> nat gm" where
  "gen_mpls_linktype L proto =
     (if proto = Q_IP then
        gbind (gen_mcmp L OR_NET (- 2) SzB 0x01 0x01) (\<lambda>b0.
        gbind (gen_mcmp L OR_NET 0 SzB 0x40 0xf0) (\<lambda>b1.
        gbind (gen_and b0 b1) (\<lambda>_. gret b1)))
      else if proto = Q_IPV6 then
        gbind (gen_mcmp L OR_NET (- 2) SzB 0x01 0x01) (\<lambda>b0.
        gbind (gen_mcmp L OR_NET 0 SzB 0x60 0xf0) (\<lambda>b1.
        gbind (gen_and b0 b1) (\<lambda>_. gret b1)))
      else gfail GenAbort)"

section \<open>What they decide\<close>

text \<open>The type field holds \<open>v\<close>; it is the length of an 802.3 frame.\<close>

abbreviation type_is :: "layout \<Rightarrow> u32 \<Rightarrow> pred" where
  "type_is L v \<equiv> is_eq L OR_LINK (off_linktype L) SzH 0xffffffff v"

abbreviation payload_is :: "layout \<Rightarrow> u32 \<Rightarrow> bsize \<Rightarrow> u32 \<Rightarrow> pred" where
  "payload_is L off z v \<equiv> is_eq L OR_MACPL off z 0xffffffff v"

abbreviation frame_802_3 :: "layout \<Rightarrow> pred" where
  "frame_802_3 L \<equiv> p_not (is_rel (>) L OR_LINK (off_linktype L) SzH (word_of_int ETHERMTU))"

definition snap_pred :: "layout \<Rightarrow> u32 \<Rightarrow> u32 \<Rightarrow> pred" where
  "snap_pred L orgcode ptype = bcmp_pred L OR_MACPL 0 8
     [LLCSAP_SNAP, LLCSAP_SNAP, 0x03,
      ucast (drop_bit 16 orgcode), ucast (drop_bit 8 orgcode), ucast orgcode,
      ucast (drop_bit 8 ptype), ucast ptype]"

lemma makes_snap: "makes (gen_snap L orgcode ptype) (snap_pred L orgcode ptype)"
  unfolding gen_snap_def snap_pred_def by (rule bcmp_ones)

lemmas [tri_intros] = makes_snap makes_snap [THEN tri_makes] makes_snap [THEN tri_tail]

definition llc_pred :: "layout \<Rightarrow> int \<Rightarrow> pred" where
  "llc_pred L proto =
     (if proto \<in> {LLCSAP_IP, LLCSAP_ISONS, LLCSAP_NETBEUI} then
        payload_is L 0 SzH (word_of_int (push_bit 8 proto OR proto))
      else if proto = LLCSAP_IPX then payload_is L 0 SzB (word_of_int LLCSAP_IPX)
      else if proto = ETHERTYPE_ATALK then snap_pred L 0x080007 (word_of_int ETHERTYPE_ATALK)
      else if proto \<le> ETHERMTU then payload_is L 0 SzB (word_of_int proto)
      else payload_is L 6 SzH (word_of_int proto))"

lemma makes_llc: "makes (gen_llc_linktype L proto) (llc_pred L proto)"
  unfolding gives_makes [symmetric] gen_llc_linktype_def llc_pred_def by (rule tri_intros)+

definition ether_pred :: "layout \<Rightarrow> int \<Rightarrow> pred" where
  "ether_pred L proto =
     (if proto \<in> {LLCSAP_ISONS, LLCSAP_IP, LLCSAP_NETBEUI} then
        p_and (frame_802_3 L) (payload_is L 0 SzH (word_of_int (push_bit 8 proto OR proto)))
      else if proto = LLCSAP_IPX then
        p_or (type_is L (word_of_int ETHERTYPE_IPX))
          (p_and (frame_802_3 L)
             (p_or (snap_pred L 0x000000 (word_of_int ETHERTYPE_IPX))
                (p_or (payload_is L 0 SzB (word_of_int LLCSAP_IPX)) (payload_is L 0 SzH 0xFFFF))))
      else if proto \<in> {ETHERTYPE_ATALK, ETHERTYPE_AARP} then
        p_or (type_is L (word_of_int proto))
          (p_and (frame_802_3 L)
             (if proto = ETHERTYPE_ATALK then snap_pred L 0x080007 (word_of_int ETHERTYPE_ATALK)
              else snap_pred L 0x000000 (word_of_int ETHERTYPE_AARP)))
      else if proto \<le> ETHERMTU then
        p_and (frame_802_3 L) (is_eq L OR_LINK (off_linktype L + 2) SzB 0xffffffff (word_of_int proto))
      else type_is L (word_of_int proto))"

lemma makes_ether: "makes (gen_ether_linktype L proto) (ether_pred L proto)"
  unfolding gives_makes [symmetric] gen_ether_linktype_def ether_pred_def by (rule tri_intros)+

lemma makes_ipnet: "makes (gen_ipnet_linktype L proto)
   (if proto = ETHERTYPE_IP then is_eq L OR_LINK (off_linktype L) SzB 0xffffffff 2
    else if proto = ETHERTYPE_IPV6 then is_eq L OR_LINK (off_linktype L) SzB 0xffffffff 26
    else p_const False)"
  unfolding gives_makes [symmetric] gen_ipnet_linktype_def by (rule tri_intros)+

definition sll_pred :: "layout \<Rightarrow> int \<Rightarrow> pred" where
  "sll_pred L proto =
     (if proto \<in> {LLCSAP_ISONS, LLCSAP_IP, LLCSAP_NETBEUI} then
        p_and (type_is L LINUX_SLL_P_802_2) (payload_is L 0 SzH (word_of_int (push_bit 8 proto OR proto)))
      else if proto = LLCSAP_IPX then
        p_or (type_is L (word_of_int ETHERTYPE_IPX))
          (p_or (type_is L LINUX_SLL_P_802_3)
             (p_and (type_is L LINUX_SLL_P_802_2)
                (p_or (payload_is L 0 SzB (word_of_int LLCSAP_IPX)) (snap_pred L 0x000000 (word_of_int ETHERTYPE_IPX)))))
      else if proto \<in> {ETHERTYPE_ATALK, ETHERTYPE_AARP} then
        p_or (type_is L (word_of_int proto))
          (p_and (type_is L LINUX_SLL_P_802_2)
             (if proto = ETHERTYPE_ATALK then snap_pred L 0x080007 (word_of_int ETHERTYPE_ATALK)
              else snap_pred L 0x000000 (word_of_int ETHERTYPE_AARP)))
      else if proto \<le> ETHERMTU then
        p_and (type_is L LINUX_SLL_P_802_2) (is_eq L OR_LINK (off_macpl L) SzB 0xffffffff (word_of_int proto))
      else type_is L (word_of_int proto))"

lemma makes_sll: "makes (gen_linux_sll_linktype L proto) (sll_pred L proto)"
  unfolding gives_makes [symmetric] gen_linux_sll_linktype_def sll_pred_def by (rule tri_intros)+

definition mpls_meaning :: "layout \<Rightarrow> int \<Rightarrow> meaning" where
  "mpls_meaning L proto =
     (if proto = Q_IP then
        Inr (p_and (is_eq L OR_NET (- 2) SzB 0x01 0x01) (is_eq L OR_NET 0 SzB 0xf0 0x40))
      else if proto = Q_IPV6 then
        Inr (p_and (is_eq L OR_NET (- 2) SzB 0x01 0x01) (is_eq L OR_NET 0 SzB 0xf0 0x60))
      else Inl GenAbort)"

lemma gives_mpls_linktype: "gives (gen_mpls_linktype L proto) (mpls_meaning L proto)"
  unfolding gen_mpls_linktype_def mpls_meaning_def by (rule tri_intros)+

lemmas link_makes = makes_llc makes_ether makes_ipnet makes_sll
lemmas [tri_intros] = link_makes link_makes [THEN tri_makes] link_makes [THEN tri_tail]
lemmas [tri_intros] = gives_mpls_linktype gives_mpls_linktype [THEN tri_call]

end
