(* ===== verification/Sf_Bytes.thy ===== *)
theory Sf_Bytes
  imports Prelude
begin

text \<open>
  Integers in capture files: their bytes in the order of the host that wrote the file, and the byte
  swapping macros of \<^verbatim>\<open>pcap-common.h\<close> and \<^verbatim>\<open>pcap-int.h\<close>. The reading host is
  little-endian; swapping a word is reading it from its bytes in the other order.
\<close>

type_synonym u64 = "64 word"

section \<open>Byte swapping\<close>

definition SWAPSHORT :: "u16 \<Rightarrow> u16" where
  "SWAPSHORT y = push_bit 8 (y AND 0xff) OR drop_bit 8 (y AND 0xff00)"

definition SWAPLONG :: "u32 \<Rightarrow> u32" where
  "SWAPLONG y = push_bit 24 (y AND 0xff) OR push_bit 8 (y AND 0xff00) OR
     drop_bit 8 (y AND 0xff0000) OR (drop_bit 24 y AND 0xff)"

definition SWAPLL :: "u64 \<Rightarrow> u64" where
  "SWAPLL ull =
     drop_bit 56 (ull AND 0xff00000000000000) OR drop_bit 40 (ull AND 0x00ff000000000000) OR
     drop_bit 24 (ull AND 0x0000ff0000000000) OR drop_bit 8 (ull AND 0x000000ff00000000) OR
     push_bit 8 (ull AND 0x00000000ff000000) OR push_bit 24 (ull AND 0x0000000000ff0000) OR
     push_bit 40 (ull AND 0x000000000000ff00) OR push_bit 56 (ull AND 0x00000000000000ff)"

section \<open>Bytes of an integer\<close>

text \<open>The bytes of an integer in the memory of the little-endian host, and the integer they make.\<close>

fun bytes :: "nat \<Rightarrow> 'a :: len word \<Rightarrow> u8 list" where
  "bytes 0 w = []"
| "bytes (Suc n) w = ucast w # bytes n (drop_bit 8 w)"

fun word_at :: "u8 list \<Rightarrow> 'a :: len word" where
  "word_at [] = 0"
| "word_at (b # bs) = ucast b OR push_bit 8 (word_at bs)"

definition get16 :: "nat \<Rightarrow> u8 list \<Rightarrow> u16" where "get16 i d = word_at (take 2 (drop i d))"
definition get32 :: "nat \<Rightarrow> u8 list \<Rightarrow> u32" where "get32 i d = word_at (take 4 (drop i d))"
definition get64 :: "nat \<Rightarrow> u8 list \<Rightarrow> u64" where "get64 i d = word_at (take 8 (drop i d))"

text \<open>An assignment to the bytes from an address on.\<close>

definition put :: "nat \<Rightarrow> u8 list \<Rightarrow> u8 list \<Rightarrow> u8 list" where
  "put i bs d = take i d @ bs @ drop (i + length bs) d"

lemma length_put [simp]: "i + length bs \<le> length d \<Longrightarrow> length (put i bs d) = length d"
  by (simp add: put_def)

lemma length_bytes [simp]: "length (bytes n w) = n"
  by (induction n w rule: bytes.induct) simp_all

section \<open>Reading what was written\<close>

lemma u8_high [simp]: "8 \<le> n \<Longrightarrow> \<not> bit (b :: u8) n"
  by (auto dest: bit_imp_le_length)

lemma bit_word_at:
  "bit (word_at bs :: 'a :: len word) n \<longleftrightarrow> n < LENGTH('a) \<and> n div 8 < length bs \<and> bit (bs ! (n div 8)) (n mod 8)"
proof (induction bs arbitrary: n)
  case (Cons b bs)
  show ?case
  proof (cases "n < 8")
    case True
    then show ?thesis by (auto simp: bit_simps)
  next
    case False
    then have "n div 8 = Suc ((n - 8) div 8)" "(n - 8) mod 8 = n mod 8"
      by (simp_all add: le_div_geq le_mod_geq)
    then show ?thesis using False Cons.IH [of "n - 8"] by (auto simp: bit_simps)
  qed
qed simp

lemma nth_bytes: "i < n \<Longrightarrow> bytes n w ! i = ucast (drop_bit (8 * i) w)"
proof (induction n w arbitrary: i rule: bytes.induct)
  case (2 n w)
  then show ?case by (cases i) (simp_all add: drop_bit_drop_bit add.commute)
qed simp

lemma word_at_bytes [simp]: "LENGTH('a) \<le> 8 * n \<Longrightarrow> word_at (bytes n w) = (w :: 'a :: len word)"
  by (rule bit_word_eqI) (auto simp: bit_word_at nth_bytes bit_simps)

lemma bytes_word_at [simp]: "8 * length bs \<le> LENGTH('a) \<Longrightarrow> bytes (length bs) (word_at bs :: 'a :: len word) = bs"
proof (rule nth_equalityI)
  fix i assume a: "8 * length bs \<le> LENGTH('a)" and "i < length (bytes (length bs) (word_at bs :: 'a word))"
  then have i: "i < length bs" by simp
  show "bytes (length bs) (word_at bs :: 'a word) ! i = bs ! i"
    unfolding nth_bytes [OF i]
  proof (rule bit_word_eqI)
    fix n assume "n < LENGTH(8)"
    then have n: "n < 8" by simp
    then have "8 * i + n < LENGTH('a)" using a i by linarith
    moreover have "(8 * i + n) div 8 = i" "(8 * i + n) mod 8 = n" using n by simp_all
    ultimately show "bit (ucast (drop_bit (8 * i) (word_at bs :: 'a word)) :: u8) n = bit (bs ! i) n"
      using n i by (simp add: bit_simps bit_word_at)
  qed
qed simp

lemma get_bytes [simp]:
  "get16 0 (bytes 2 a) = a" "get32 0 (bytes 4 b) = b" "get64 0 (bytes 8 c) = c"
  by (simp_all add: get16_def get32_def get64_def)

section \<open>Swapping is reading in the other order\<close>

lemma bit_rev_bytes:
  assumes "LENGTH('a) = 8 * k" and "i < k" and "m < 8"
  shows "bit (word_at (rev (bytes k w)) :: 'a :: len word) (m + 8 * i) \<longleftrightarrow> bit (w :: 'a word) (8 * (k - 1 - i) + m)"
  using assms by (simp add: bit_word_at rev_nth nth_bytes bit_simps)

lemma bit_eq_bytewise:
  assumes "LENGTH('a) = 8 * k" and "\<And>i m. i < k \<Longrightarrow> m < 8 \<Longrightarrow> bit (v :: 'a :: len word) (m + 8 * i) = bit w (m + 8 * i)"
  shows "v = w"
proof (rule bit_word_eqI)
  fix n assume "n < LENGTH('a)"
  then have "n div 8 < k" using assms(1) by (simp add: less_mult_imp_div_less mult.commute)
  then show "bit v n = bit w n" using assms(2) [of "n div 8" "n mod 8"] by simp
qed

lemma byte_masks:
  "(0xff :: 'a :: len word) = mask 8" "(0xff00 :: 'a word) = push_bit 8 (mask 8)"
  "(0xff0000 :: 'a word) = push_bit 16 (mask 8)" "(0xff000000 :: 'a word) = push_bit 24 (mask 8)"
  "(0xff00000000 :: 'a word) = push_bit 32 (mask 8)" "(0xff0000000000 :: 'a word) = push_bit 40 (mask 8)"
  "(0xff000000000000 :: 'a word) = push_bit 48 (mask 8)" "(0xff00000000000000 :: 'a word) = push_bit 56 (mask 8)"
  by (simp_all add: mask_eq_exp_minus_1 push_bit_eq_mult)

lemma SWAPSHORT_eq: "SWAPSHORT w = word_at (rev (bytes 2 w))"
proof (rule bit_eq_bytewise [of 2])
  fix i m :: nat assume i: "i < 2" and m: "m < 8"
  from i have "i = 0 \<or> i = 1" by auto
  then show "bit (SWAPSHORT w) (m + 8 * i) = bit (word_at (rev (bytes 2 w)) :: u16) (m + 8 * i)"
    using m by (subst bit_rev_bytes [OF _ i m], simp, elim disjE) (simp_all add: SWAPSHORT_def byte_masks bit_simps add.commute)
qed simp

lemma SWAPLONG_eq: "SWAPLONG w = word_at (rev (bytes 4 w))"
proof (rule bit_eq_bytewise [of 4])
  fix i m :: nat assume i: "i < 4" and m: "m < 8"
  from i have "i = 0 \<or> i = 1 \<or> i = 2 \<or> i = 3" by auto
  then show "bit (SWAPLONG w) (m + 8 * i) = bit (word_at (rev (bytes 4 w)) :: u32) (m + 8 * i)"
    using m by (subst bit_rev_bytes [OF _ i m], simp, elim disjE) (simp_all add: SWAPLONG_def byte_masks bit_simps add.commute)
qed simp

lemma SWAPLL_eq: "SWAPLL w = word_at (rev (bytes 8 w))"
proof (rule bit_eq_bytewise [of 8])
  fix i m :: nat assume i: "i < 8" and m: "m < 8"
  from i have "i = 0 \<or> i = 1 \<or> i = 2 \<or> i = 3 \<or> i = 4 \<or> i = 5 \<or> i = 6 \<or> i = 7" by auto
  then show "bit (SWAPLL w) (m + 8 * i) = bit (word_at (rev (bytes 8 w)) :: u64) (m + 8 * i)"
    using m by (subst bit_rev_bytes [OF _ i m], simp, elim disjE) (simp_all add: SWAPLL_def byte_masks bit_simps add.commute)
qed simp

text \<open>What the other host wrote, swapped, is what it meant; swapping twice changes nothing.\<close>

lemma rev_bytes_word_at:
  "LENGTH('a) = 8 * k \<Longrightarrow> bytes k (word_at (rev (bytes k w)) :: 'a word) = rev (bytes k (w :: 'a :: len word))"
  using bytes_word_at [of "rev (bytes k w)", where 'a = 'a] by simp

lemma swap_other [simp]:
  "SWAPSHORT (word_at (rev (bytes 2 a))) = a" "SWAPLONG (word_at (rev (bytes 4 b))) = b"
  "SWAPLL (word_at (rev (bytes 8 c))) = c"
  by (simp_all add: SWAPSHORT_eq SWAPLONG_eq SWAPLL_eq rev_bytes_word_at)

lemma swap_swap [simp]: "SWAPSHORT (SWAPSHORT a) = a" "SWAPLONG (SWAPLONG b) = b" "SWAPLL (SWAPLL c) = c"
  using swap_other by (simp_all only: SWAPSHORT_eq SWAPLONG_eq SWAPLL_eq)

text \<open>The bytes of an integer as a host with the same, or the other, byte order stores it.\<close>

definition host_bytes :: "bool \<Rightarrow> nat \<Rightarrow> 'a :: len word \<Rightarrow> u8 list" where
  "host_bytes other n w = (if other then rev (bytes n w) else bytes n w)"

lemma length_host_bytes [simp]: "length (host_bytes other n w) = n"
  by (simp add: host_bytes_def)

lemma read_host_bytes [simp]:
  "(if other then SWAPSHORT else id) (word_at (host_bytes other 2 a)) = a"
  "(if other then SWAPLONG else id) (word_at (host_bytes other 4 b)) = b"
  "(if other then SWAPLL else id) (word_at (host_bytes other 8 c)) = c"
  by (simp_all add: host_bytes_def)

end
