(* ===== verification/Gen_Linktype.thy ===== *)
theory Gen_Linktype
  imports Gen_Link Sf_Bytes
begin

text \<open>
  \<open>gen_linktype\<close> of \<^verbatim>\<open>gencode.c\<close>: the test that a packet of the link type of the layout
  carries a protocol. The switch over the link types is split in the order of the code; \<open>None\<close> is
  a link type no case of a part handles. Link types with a header of variable length (802.11 and
  the radio headers) give \<open>GenOutside\<close>.
\<close>

section \<open>ATM pseudo-header fields\<close>

abbreviation (input) A_VPI :: int where "A_VPI \<equiv> 51"
abbreviation (input) A_VCI :: int where "A_VCI \<equiv> 52"
abbreviation (input) A_PROTOTYPE :: int where "A_PROTOTYPE \<equiv> 53"
abbreviation (input) A_MSGTYPE :: int where "A_MSGTYPE \<equiv> 54"
abbreviation (input) A_CALLREFTYPE :: int where "A_CALLREFTYPE \<equiv> 55"

abbreviation (input) MSG_TYPE_POS :: u32 where "MSG_TYPE_POS \<equiv> 5"
abbreviation (input) PT_LANE :: u32 where "PT_LANE \<equiv> 1"
abbreviation (input) PT_LLC :: u32 where "PT_LLC \<equiv> 2"
abbreviation (input) SUNATM_PKT_BEGIN_POS :: u32 where "SUNATM_PKT_BEGIN_POS \<equiv> 4"

definition gen_atmfield_code :: "layout \<Rightarrow> int \<Rightarrow> u32 \<Rightarrow> jmp_op \<Rightarrow> bool \<Rightarrow> nat gm" where
  "gen_atmfield_code L atmfield jvalue jtype reverse =
     (if atmfield = A_VPI then
        (if \<not> is_atm L then gfail BpfError else if off_vpi L = - 1 then gfail GenAbort
         else gen_ncmp L OR_LINK (off_vpi L) SzB 0xffffffff jtype reverse jvalue)
      else if atmfield = A_VCI then
        (if \<not> is_atm L then gfail BpfError else if off_vci L = - 1 then gfail GenAbort
         else gen_ncmp L OR_LINK (off_vci L) SzH 0xffffffff jtype reverse jvalue)
      else if atmfield = A_PROTOTYPE then
        (if off_proto L = - 1 then gfail GenAbort
         else gen_ncmp L OR_LINK (off_proto L) SzB 0x0f jtype reverse jvalue)
      else if atmfield = A_MSGTYPE then
        (if off_payload L = - 1 then gfail GenAbort
         else gen_ncmp L OR_LINK (off_payload L + MSG_TYPE_POS) SzB 0xffffffff jtype reverse jvalue)
      else if atmfield = A_CALLREFTYPE then
        (if \<not> is_atm L then gfail BpfError else if off_proto L = - 1 then gfail GenAbort
         else gen_ncmp L OR_LINK (off_proto L) SzB 0xffffffff jtype reverse jvalue)
      else gfail GenAbort)"

definition atmfield_meaning :: "layout \<Rightarrow> int \<Rightarrow> u32 \<Rightarrow> jmp_op \<Rightarrow> bool \<Rightarrow> meaning" where
  "atmfield_meaning L fld v j rv =
     (if fld = A_VPI then
        (if \<not> is_atm L then Inl BpfError else if off_vpi L = - 1 then Inl GenAbort
         else Inr (ncmp_pred L OR_LINK (off_vpi L) SzB 0xffffffff j rv v))
      else if fld = A_VCI then
        (if \<not> is_atm L then Inl BpfError else if off_vci L = - 1 then Inl GenAbort
         else Inr (ncmp_pred L OR_LINK (off_vci L) SzH 0xffffffff j rv v))
      else if fld = A_PROTOTYPE then
        (if off_proto L = - 1 then Inl GenAbort
         else Inr (ncmp_pred L OR_LINK (off_proto L) SzB 0x0f j rv v))
      else if fld = A_MSGTYPE then
        (if off_payload L = - 1 then Inl GenAbort
         else Inr (ncmp_pred L OR_LINK (off_payload L + MSG_TYPE_POS) SzB 0xffffffff j rv v))
      else if fld = A_CALLREFTYPE then
        (if \<not> is_atm L then Inl BpfError else if off_proto L = - 1 then Inl GenAbort
         else Inr (ncmp_pred L OR_LINK (off_proto L) SzB 0xffffffff j rv v))
      else Inl GenAbort)"

lemma gives_atmfield: "gives (gen_atmfield_code L fld v j rv) (atmfield_meaning L fld v j rv)"
  unfolding gen_atmfield_code_def atmfield_meaning_def by (rule tri_intros)+

lemmas [tri_intros] = gives_atmfield gives_atmfield [THEN tri_call]

section \<open>The cases\<close>

definition linktype_hdlc :: "layout \<Rightarrow> int \<Rightarrow> nat gm" where
  "linktype_hdlc L proto =
     (if proto = LLCSAP_ISONS then
        gen_cmp L OR_LINK (off_linktype L) SzH (word_of_int (push_bit 8 proto OR LLCSAP_ISONS))
      else gen_cmp L OR_LINK (off_linktype L) SzH (word_of_int proto))"

definition linktype_sunatm :: "layout \<Rightarrow> int \<Rightarrow> nat gm" where
  "linktype_sunatm L proto =
     (if is_lane L then
        gbind (gen_cmp L OR_LINK SUNATM_PKT_BEGIN_POS SzH 0xFF00) (\<lambda>b0.
        gbind (gen_not b0) (\<lambda>_.
        gbind (gen_ether_linktype L proto) (\<lambda>b1.
        gbind (gen_and b0 b1) (\<lambda>_. gret b1))))
      else
        gbind (gen_atmfield_code L A_PROTOTYPE PT_LLC JEQ False) (\<lambda>b0.
        gbind (gen_llc_linktype L proto) (\<lambda>b1.
        gbind (gen_and b0 b1) (\<lambda>_. gret b1))))"

definition linktype_raw :: "layout \<Rightarrow> int \<Rightarrow> nat gm" where
  "linktype_raw L proto =
     (if proto = ETHERTYPE_IP then gen_mcmp L OR_LINK 0 SzB 0x40 0xF0
      else if proto = ETHERTYPE_IPV6 then gen_mcmp L OR_LINK 0 SzB 0x60 0xF0
      else gen_false)"

definition linktype_ppp_bsdos :: "layout \<Rightarrow> int \<Rightarrow> nat gm" where
  "linktype_ppp_bsdos L proto =
     (if proto = ETHERTYPE_IP then
        gbind (gen_cmp L OR_LINK (off_linktype L) SzH (word_of_int PPP_IP)) (\<lambda>b0.
        gbind (gen_cmp L OR_LINK (off_linktype L) SzH (word_of_int PPP_VJC)) (\<lambda>b1.
        gbind (gen_or b0 b1) (\<lambda>_.
        gbind (gen_cmp L OR_LINK (off_linktype L) SzH (word_of_int PPP_VJNC)) (\<lambda>b0.
        gbind (gen_or b1 b0) (\<lambda>_. gret b0)))))
      else gen_cmp L OR_LINK (off_linktype L) SzH (word_of_int (ethertype_to_ppptype proto)))"

abbreviation (input) AF_INET :: u32 where "AF_INET \<equiv> 2"
abbreviation (input) AF_INET6 :: u32 where "AF_INET6 \<equiv> 10"

text \<open>\<open>htonl\<close> swaps the bytes on this target.\<close>

definition linktype_null :: "layout \<Rightarrow> int \<Rightarrow> nat gm" where
  "linktype_null L proto =
     (let host = (\<lambda>p. if linktype L \<in> {DLT_NULL, DLT_ENC} then
                    SWAPLONG (if file_swapped L then SWAPLONG p else p)
                  else p)
      in if proto = ETHERTYPE_IP then gen_cmp L OR_LINK 0 SzW (host AF_INET)
         else if proto = ETHERTYPE_IPV6 then gen_cmp L OR_LINK 0 SzW (host AF_INET6)
         else gen_false)"

abbreviation (input) ARCTYPE_IP_OLD :: u32 where "ARCTYPE_IP_OLD \<equiv> 240"
abbreviation (input) ARCTYPE_ARP_OLD :: u32 where "ARCTYPE_ARP_OLD \<equiv> 241"
abbreviation (input) ARCTYPE_IP :: u32 where "ARCTYPE_IP \<equiv> 212"
abbreviation (input) ARCTYPE_ARP :: u32 where "ARCTYPE_ARP \<equiv> 213"
abbreviation (input) ARCTYPE_REVARP :: u32 where "ARCTYPE_REVARP \<equiv> 214"
abbreviation (input) ARCTYPE_ATALK :: u32 where "ARCTYPE_ATALK \<equiv> 221"
abbreviation (input) ARCTYPE_INET6 :: u32 where "ARCTYPE_INET6 \<equiv> 0xc4"

definition linktype_arcnet :: "layout \<Rightarrow> int \<Rightarrow> nat gm" where
  "linktype_arcnet L proto =
     (if proto = ETHERTYPE_IPV6 then gen_cmp L OR_LINK (off_linktype L) SzB ARCTYPE_INET6
      else if proto = ETHERTYPE_IP then
        gbind (gen_cmp L OR_LINK (off_linktype L) SzB ARCTYPE_IP) (\<lambda>b0.
        gbind (gen_cmp L OR_LINK (off_linktype L) SzB ARCTYPE_IP_OLD) (\<lambda>b1.
        gbind (gen_or b0 b1) (\<lambda>_. gret b1)))
      else if proto = ETHERTYPE_ARP then
        gbind (gen_cmp L OR_LINK (off_linktype L) SzB ARCTYPE_ARP) (\<lambda>b0.
        gbind (gen_cmp L OR_LINK (off_linktype L) SzB ARCTYPE_ARP_OLD) (\<lambda>b1.
        gbind (gen_or b0 b1) (\<lambda>_. gret b1)))
      else if proto = ETHERTYPE_REVARP then gen_cmp L OR_LINK (off_linktype L) SzB ARCTYPE_REVARP
      else if proto = ETHERTYPE_ATALK then gen_cmp L OR_LINK (off_linktype L) SzB ARCTYPE_ATALK
      else gen_false)"

abbreviation (input) ISO8473_CLNP :: int where "ISO8473_CLNP \<equiv> 0x81"
abbreviation (input) ISO9542_ESIS :: int where "ISO9542_ESIS \<equiv> 0x82"
abbreviation (input) ISO10589_ISIS :: int where "ISO10589_ISIS \<equiv> 0x83"

definition linktype_frelay :: "layout \<Rightarrow> int \<Rightarrow> nat gm" where
  "linktype_frelay L proto =
     (if proto = ETHERTYPE_IP then gen_cmp L OR_LINK 2 SzH (word_of_int (push_bit 8 0x03 OR 0xcc))
      else if proto = ETHERTYPE_IPV6 then gen_cmp L OR_LINK 2 SzH (word_of_int (push_bit 8 0x03 OR 0x8e))
      else if proto = LLCSAP_ISONS then
        gbind (gen_cmp L OR_LINK 2 SzH (word_of_int (push_bit 8 0x03 OR ISO8473_CLNP))) (\<lambda>b0.
        gbind (gen_cmp L OR_LINK 2 SzH (word_of_int (push_bit 8 0x03 OR ISO9542_ESIS))) (\<lambda>b1.
        gbind (gen_cmp L OR_LINK 2 SzH (word_of_int (push_bit 8 0x03 OR ISO10589_ISIS))) (\<lambda>b2.
        gbind (gen_or b1 b2) (\<lambda>_.
        gbind (gen_or b0 b2) (\<lambda>_. gret b2)))))
      else gen_false)"

section \<open>The switch\<close>

definition gen_linktype_1 :: "layout \<Rightarrow> int \<Rightarrow> nat gm option" where
  "gen_linktype_1 L proto =
     (if linktype L = DLT_EN10MB then Some (gen_ether_linktype L proto)
      else if linktype L = DLT_C_HDLC then Some (linktype_hdlc L proto)
      else if linktype L \<in> {DLT_IEEE802_11, DLT_PRISM_HEADER, DLT_IEEE802_11_RADIO_AVS, DLT_IEEE802_11_RADIO, DLT_PPI}
        then Some (gfail GenOutside)
      else if linktype L \<in> {DLT_FDDI, DLT_IEEE802} then Some (gen_llc_linktype L proto)
      else if linktype L \<in> {DLT_ATM_RFC1483, DLT_ATM_CLIP, DLT_IP_OVER_FC} then Some (gen_llc_linktype L proto)
      else if linktype L = DLT_SUNATM then Some (linktype_sunatm L proto)
      else if linktype L = DLT_LINUX_SLL then Some (gen_linux_sll_linktype L proto)
      else if linktype L \<in> {DLT_SLIP, DLT_SLIP_BSDOS, DLT_RAW} then Some (linktype_raw L proto)
      else None)"

definition gen_linktype_2 :: "layout \<Rightarrow> int \<Rightarrow> nat gm option" where
  "gen_linktype_2 L proto =
     (if linktype L = DLT_IPV4 then Some (if proto = ETHERTYPE_IP then gen_true else gen_false)
      else if linktype L = DLT_IPV6 then Some (if proto = ETHERTYPE_IPV6 then gen_true else gen_false)
      else if linktype L \<in> {DLT_PPP, DLT_PPP_PPPD, DLT_PPP_SERIAL, DLT_PPP_ETHER} then
        Some (gen_cmp L OR_LINK (off_linktype L) SzH (word_of_int (ethertype_to_ppptype proto)))
      else if linktype L = DLT_PPP_BSDOS then Some (linktype_ppp_bsdos L proto)
      else if linktype L \<in> {DLT_NULL, DLT_LOOP, DLT_ENC} then Some (linktype_null L proto)
      else if linktype L \<in> {DLT_ARCNET, DLT_ARCNET_LINUX} then Some (linktype_arcnet L proto)
      else if linktype L = DLT_LTALK then Some (if proto = ETHERTYPE_ATALK then gen_true else gen_false)
      else if linktype L = DLT_FRELAY then Some (linktype_frelay L proto)
      else None)"

definition gen_linktype_3 :: "layout \<Rightarrow> int \<Rightarrow> nat gm option" where
  "gen_linktype_3 L proto =
     (if linktype L = DLT_MFR then Some (gfail BpfError)
      else if linktype L \<in> {DLT_JUNIPER_MFR, DLT_JUNIPER_MLFR, DLT_JUNIPER_MLPPP, DLT_JUNIPER_ATM1, DLT_JUNIPER_ATM2,
          DLT_JUNIPER_PPPOE, DLT_JUNIPER_PPPOE_ATM, DLT_JUNIPER_GGSN, DLT_JUNIPER_ES, DLT_JUNIPER_MONITOR,
          DLT_JUNIPER_SERVICES, DLT_JUNIPER_ETHER, DLT_JUNIPER_PPP, DLT_JUNIPER_FRELAY, DLT_JUNIPER_CHDLC,
          DLT_JUNIPER_VP, DLT_JUNIPER_ST, DLT_JUNIPER_ISM}
        then Some (gen_mcmp L OR_LINK 0 SzW 0x4d474300 0xffffff00)
      else if linktype L = DLT_IPNET then Some (gen_ipnet_linktype L proto)
      else if linktype L \<in> {DLT_LINUX_IRDA, DLT_DOCSIS, DLT_MTP2, DLT_MTP2_WITH_PHDR, DLT_ERF, DLT_LINUX_LAPD,
          DLT_USB, DLT_USB_LINUX, DLT_USB_LINUX_MMAPPED, DLT_BLUETOOTH_HCI_H4, DLT_BLUETOOTH_HCI_H4_WITH_PHDR,
          DLT_CAN20B, DLT_CAN_SOCKETCAN, DLT_IEEE802_15_4, DLT_IEEE802_15_4_LINUX, DLT_IEEE802_15_4_NONASK_PHY,
          DLT_IEEE802_16_MAC_CPS_RADIO, DLT_SITA, DLT_RAIF1, DLT_IPMB, DLT_AX25_KISS}
        then Some (gfail BpfError)
      else None)"

definition gen_linktype :: "layout \<Rightarrow> int \<Rightarrow> nat gm" where
  "gen_linktype L proto =
     (if label_stack_depth L > 0 then
        (if proto \<in> {ETHERTYPE_IP, PPP_IP} then gen_mpls_linktype L Q_IP
         else if proto \<in> {ETHERTYPE_IPV6, PPP_IPV6} then gen_mpls_linktype L Q_IPV6
         else gfail BpfError)
      else if is_pppoes L then
        gen_cmp L OR_MACPL (off_linktype L) SzH (word_of_int (ethertype_to_ppptype proto))
      else case gen_linktype_1 L proto of Some m \<Rightarrow> m | None \<Rightarrow>
        (case gen_linktype_2 L proto of Some m \<Rightarrow> m | None \<Rightarrow>
        (case gen_linktype_3 L proto of Some m \<Rightarrow> m | None \<Rightarrow>
           if off_linktype L = - 1 then gfail GenAbort
           else gen_cmp L OR_LINK (off_linktype L) SzH (word_of_int proto))))"

section \<open>What they decide\<close>

abbreviation link_is :: "layout \<Rightarrow> u32 \<Rightarrow> bsize \<Rightarrow> u32 \<Rightarrow> pred" where
  "link_is L off z v \<equiv> is_eq L OR_LINK off z 0xffffffff v"

definition hdlc_pred :: "layout \<Rightarrow> int \<Rightarrow> pred" where
  "hdlc_pred L proto = (if proto = LLCSAP_ISONS then type_is L (word_of_int (push_bit 8 proto OR LLCSAP_ISONS))
     else type_is L (word_of_int proto))"

lemma makes_hdlc: "makes (linktype_hdlc L proto) (hdlc_pred L proto)"
  unfolding gives_makes [symmetric] linktype_hdlc_def hdlc_pred_def by (rule tri_intros)+

definition sunatm_meaning :: "layout \<Rightarrow> int \<Rightarrow> meaning" where
  "sunatm_meaning L proto =
     (if is_lane L then Inr (p_and (p_not (link_is L SUNATM_PKT_BEGIN_POS SzH 0xFF00)) (ether_pred L proto))
      else rbind (atmfield_meaning L A_PROTOTYPE PT_LLC JEQ False) (\<lambda>P. Inr (p_and P (llc_pred L proto))))"

lemma gives_sunatm: "gives (linktype_sunatm L proto) (sunatm_meaning L proto)"
  unfolding linktype_sunatm_def sunatm_meaning_def by (rule tri_intros)+

definition raw_pred :: "layout \<Rightarrow> int \<Rightarrow> pred" where
  "raw_pred L proto =
     (if proto = ETHERTYPE_IP then is_eq L OR_LINK 0 SzB 0xF0 0x40
      else if proto = ETHERTYPE_IPV6 then is_eq L OR_LINK 0 SzB 0xF0 0x60
      else p_const False)"

lemma makes_raw: "makes (linktype_raw L proto) (raw_pred L proto)"
  unfolding gives_makes [symmetric] linktype_raw_def raw_pred_def by (rule tri_intros)+

definition ppp_bsdos_pred :: "layout \<Rightarrow> int \<Rightarrow> pred" where
  "ppp_bsdos_pred L proto =
     (if proto = ETHERTYPE_IP then
        p_or (p_or (type_is L (word_of_int PPP_IP)) (type_is L (word_of_int PPP_VJC))) (type_is L (word_of_int PPP_VJNC))
      else type_is L (word_of_int (ethertype_to_ppptype proto)))"

lemma makes_ppp_bsdos: "makes (linktype_ppp_bsdos L proto) (ppp_bsdos_pred L proto)"
  unfolding gives_makes [symmetric] linktype_ppp_bsdos_def ppp_bsdos_pred_def by (rule tri_intros)+

text \<open>The address family as the machine reads it: in network order for \<open>DLT_LOOP\<close>, else in the order
  of the host that wrote the capture.\<close>

definition family_word :: "layout \<Rightarrow> u32 \<Rightarrow> u32" where
  "family_word L af = (if linktype L \<in> {DLT_NULL, DLT_ENC} then
       SWAPLONG (if file_swapped L then SWAPLONG af else af) else af)"

definition null_pred :: "layout \<Rightarrow> int \<Rightarrow> pred" where
  "null_pred L proto =
     (if proto = ETHERTYPE_IP then link_is L 0 SzW (family_word L AF_INET)
      else if proto = ETHERTYPE_IPV6 then link_is L 0 SzW (family_word L AF_INET6)
      else p_const False)"

lemma makes_null: "makes (linktype_null L proto) (null_pred L proto)"
  unfolding gives_makes [symmetric] linktype_null_def null_pred_def Let_def family_word_def by (rule tri_intros)+

definition arcnet_pred :: "layout \<Rightarrow> int \<Rightarrow> pred" where
  "arcnet_pred L proto =
     (let is = link_is L (off_linktype L) SzB in
      if proto = ETHERTYPE_IPV6 then is ARCTYPE_INET6
      else if proto = ETHERTYPE_IP then p_or (is ARCTYPE_IP) (is ARCTYPE_IP_OLD)
      else if proto = ETHERTYPE_ARP then p_or (is ARCTYPE_ARP) (is ARCTYPE_ARP_OLD)
      else if proto = ETHERTYPE_REVARP then is ARCTYPE_REVARP
      else if proto = ETHERTYPE_ATALK then is ARCTYPE_ATALK
      else p_const False)"

lemma makes_arcnet: "makes (linktype_arcnet L proto) (arcnet_pred L proto)"
  unfolding gives_makes [symmetric] linktype_arcnet_def arcnet_pred_def Let_def by (rule tri_intros)+

definition frelay_pred :: "layout \<Rightarrow> int \<Rightarrow> pred" where
  "frelay_pred L proto =
     (let ui = (\<lambda>nlpid :: int. link_is L 2 SzH (word_of_int (push_bit 8 0x03 OR nlpid))) in
      if proto = ETHERTYPE_IP then ui 0xcc
      else if proto = ETHERTYPE_IPV6 then ui 0x8e
      else if proto = LLCSAP_ISONS then p_or (ui ISO8473_CLNP) (p_or (ui ISO9542_ESIS) (ui ISO10589_ISIS))
      else p_const False)"

lemma makes_frelay: "makes (linktype_frelay L proto) (frelay_pred L proto)"
  unfolding gives_makes [symmetric] linktype_frelay_def frelay_pred_def Let_def by (rule tri_intros)+

lemmas case_makes = makes_hdlc makes_raw makes_ppp_bsdos makes_null makes_arcnet makes_frelay
lemmas [tri_intros] = case_makes [THEN tri_tail] gives_sunatm

text \<open>The switch; \<open>None\<close> where the generator has no case.\<close>

definition linktype_meaning_1 :: "layout \<Rightarrow> int \<Rightarrow> meaning option" where
  "linktype_meaning_1 L proto =
     (if linktype L = DLT_EN10MB then Some (Inr (ether_pred L proto))
      else if linktype L = DLT_C_HDLC then Some (Inr (hdlc_pred L proto))
      else if linktype L \<in> {DLT_IEEE802_11, DLT_PRISM_HEADER, DLT_IEEE802_11_RADIO_AVS, DLT_IEEE802_11_RADIO, DLT_PPI}
        then Some (Inl GenOutside)
      else if linktype L \<in> {DLT_FDDI, DLT_IEEE802} then Some (Inr (llc_pred L proto))
      else if linktype L \<in> {DLT_ATM_RFC1483, DLT_ATM_CLIP, DLT_IP_OVER_FC} then Some (Inr (llc_pred L proto))
      else if linktype L = DLT_SUNATM then Some (sunatm_meaning L proto)
      else if linktype L = DLT_LINUX_SLL then Some (Inr (sll_pred L proto))
      else if linktype L \<in> {DLT_SLIP, DLT_SLIP_BSDOS, DLT_RAW} then Some (Inr (raw_pred L proto))
      else None)"

definition linktype_meaning_2 :: "layout \<Rightarrow> int \<Rightarrow> meaning option" where
  "linktype_meaning_2 L proto =
     (if linktype L = DLT_IPV4 then Some (Inr (p_const (proto = ETHERTYPE_IP)))
      else if linktype L = DLT_IPV6 then Some (Inr (p_const (proto = ETHERTYPE_IPV6)))
      else if linktype L \<in> {DLT_PPP, DLT_PPP_PPPD, DLT_PPP_SERIAL, DLT_PPP_ETHER} then
        Some (Inr (type_is L (word_of_int (ethertype_to_ppptype proto))))
      else if linktype L = DLT_PPP_BSDOS then Some (Inr (ppp_bsdos_pred L proto))
      else if linktype L \<in> {DLT_NULL, DLT_LOOP, DLT_ENC} then Some (Inr (null_pred L proto))
      else if linktype L \<in> {DLT_ARCNET, DLT_ARCNET_LINUX} then Some (Inr (arcnet_pred L proto))
      else if linktype L = DLT_LTALK then Some (Inr (p_const (proto = ETHERTYPE_ATALK)))
      else if linktype L = DLT_FRELAY then Some (Inr (frelay_pred L proto))
      else None)"

definition linktype_meaning_3 :: "layout \<Rightarrow> int \<Rightarrow> meaning option" where
  "linktype_meaning_3 L proto =
     (if linktype L = DLT_MFR then Some (Inl BpfError)
      else if linktype L \<in> {DLT_JUNIPER_MFR, DLT_JUNIPER_MLFR, DLT_JUNIPER_MLPPP, DLT_JUNIPER_ATM1, DLT_JUNIPER_ATM2,
          DLT_JUNIPER_PPPOE, DLT_JUNIPER_PPPOE_ATM, DLT_JUNIPER_GGSN, DLT_JUNIPER_ES, DLT_JUNIPER_MONITOR,
          DLT_JUNIPER_SERVICES, DLT_JUNIPER_ETHER, DLT_JUNIPER_PPP, DLT_JUNIPER_FRELAY, DLT_JUNIPER_CHDLC,
          DLT_JUNIPER_VP, DLT_JUNIPER_ST, DLT_JUNIPER_ISM}
        then Some (Inr (is_eq L OR_LINK 0 SzW 0xffffff00 0x4d474300))
      else if linktype L = DLT_IPNET then
        Some (Inr (if proto = ETHERTYPE_IP then link_is L (off_linktype L) SzB 2
          else if proto = ETHERTYPE_IPV6 then link_is L (off_linktype L) SzB 26 else p_const False))
      else if linktype L \<in> {DLT_LINUX_IRDA, DLT_DOCSIS, DLT_MTP2, DLT_MTP2_WITH_PHDR, DLT_ERF, DLT_LINUX_LAPD,
          DLT_USB, DLT_USB_LINUX, DLT_USB_LINUX_MMAPPED, DLT_BLUETOOTH_HCI_H4, DLT_BLUETOOTH_HCI_H4_WITH_PHDR,
          DLT_CAN20B, DLT_CAN_SOCKETCAN, DLT_IEEE802_15_4, DLT_IEEE802_15_4_LINUX, DLT_IEEE802_15_4_NONASK_PHY,
          DLT_IEEE802_16_MAC_CPS_RADIO, DLT_SITA, DLT_RAIF1, DLT_IPMB, DLT_AX25_KISS}
        then Some (Inl BpfError)
      else None)"

lemma opt_if: "(c \<Longrightarrow> rel_option R a b) \<Longrightarrow> (\<not> c \<Longrightarrow> rel_option R a' b') \<Longrightarrow>
    rel_option R (if c then a else a') (if c then b else b')"
  by simp

lemma opt_Some: "R a b \<Longrightarrow> rel_option R (Some a) (Some b)"
  by simp

lemma makes_const_if: "makes (if c then gen_true else gen_false) (p_const c)"
  using makes_true makes_false by (cases c) auto

lemma gives_linktype_parts:
  "rel_option gives (gen_linktype_1 L proto) (linktype_meaning_1 L proto)"
  "rel_option gives (gen_linktype_2 L proto) (linktype_meaning_2 L proto)"
  "rel_option gives (gen_linktype_3 L proto) (linktype_meaning_3 L proto)"
  unfolding gen_linktype_1_def gen_linktype_2_def gen_linktype_3_def
    linktype_meaning_1_def linktype_meaning_2_def linktype_meaning_3_def
  by (rule opt_if opt_Some option.rel_intros tri_tail [OF makes_const_if] tri_intros)+

definition linktype_meaning :: "layout \<Rightarrow> int \<Rightarrow> meaning" where
  "linktype_meaning L proto =
     (if label_stack_depth L > 0 then
        (if proto \<in> {ETHERTYPE_IP, PPP_IP} then mpls_meaning L Q_IP
         else if proto \<in> {ETHERTYPE_IPV6, PPP_IPV6} then mpls_meaning L Q_IPV6
         else Inl BpfError)
      else if is_pppoes L then Inr (payload_is L (off_linktype L) SzH (word_of_int (ethertype_to_ppptype proto)))
      else case linktype_meaning_1 L proto of Some r \<Rightarrow> r | None \<Rightarrow>
        (case linktype_meaning_2 L proto of Some r \<Rightarrow> r | None \<Rightarrow>
        (case linktype_meaning_3 L proto of Some r \<Rightarrow> r | None \<Rightarrow>
           if off_linktype L = - 1 then Inl GenAbort else Inr (type_is L (word_of_int proto)))))"

lemma gives_case:
  "rel_option gives x y \<Longrightarrow> gives m r \<Longrightarrow>
   gives (case x of Some m' \<Rightarrow> m' | None \<Rightarrow> m) (case y of Some r' \<Rightarrow> r' | None \<Rightarrow> r)"
  by (auto elim!: option.rel_cases)

lemma gives_linktype: "gives (gen_linktype L proto) (linktype_meaning L proto)"
  unfolding gen_linktype_def linktype_meaning_def
  by (rule gives_case gives_linktype_parts tri_intros)+

lemmas [tri_intros] = gives_linktype gives_linktype [THEN tri_call]

end
