(* ===== verification/Gen_Host.thy ===== *)
theory Gen_Host
  imports Gen_Linktype
begin

text \<open>
  The address tests of \<^verbatim>\<open>gencode.c\<close>: link-layer addresses (\<open>gen_ehostop\<close> and its kin), IPv4,
  IPv6 and DECnet addresses (\<open>gen_hostop\<close>, \<open>gen_hostop6\<close>, \<open>gen_dnhostop\<close>), and \<open>gen_host\<close>,
  \<open>gen_host6\<close>, which pick one from the protocol qualifier.

  What all of the \<open>*hostop\<close> functions share - how a direction combines the test of the source with
  the test of the destination - is the locale \<open>direction_op\<close>.
\<close>

section \<open>Qualifiers\<close>

abbreviation (input) Q_DEFAULT :: int where "Q_DEFAULT \<equiv> 0"
abbreviation (input) Q_SRC :: int where "Q_SRC \<equiv> 1"
abbreviation (input) Q_DST :: int where "Q_DST \<equiv> 2"
abbreviation (input) Q_OR :: int where "Q_OR \<equiv> 3"
abbreviation (input) Q_AND :: int where "Q_AND \<equiv> 4"

abbreviation (input) Q_LINK :: int where "Q_LINK \<equiv> 1"
abbreviation (input) Q_ARP :: int where "Q_ARP \<equiv> 3"
abbreviation (input) Q_RARP :: int where "Q_RARP \<equiv> 4"
abbreviation (input) Q_SCTP :: int where "Q_SCTP \<equiv> 5"
abbreviation (input) Q_TCP :: int where "Q_TCP \<equiv> 6"
abbreviation (input) Q_UDP :: int where "Q_UDP \<equiv> 7"
abbreviation (input) Q_ICMP :: int where "Q_ICMP \<equiv> 8"
abbreviation (input) Q_IGMP :: int where "Q_IGMP \<equiv> 9"
abbreviation (input) Q_IGRP :: int where "Q_IGRP \<equiv> 10"
abbreviation (input) Q_ATALK :: int where "Q_ATALK \<equiv> 11"
abbreviation (input) Q_DECNET :: int where "Q_DECNET \<equiv> 12"
abbreviation (input) Q_LAT :: int where "Q_LAT \<equiv> 13"
abbreviation (input) Q_SCA :: int where "Q_SCA \<equiv> 14"
abbreviation (input) Q_MOPRC :: int where "Q_MOPRC \<equiv> 15"
abbreviation (input) Q_MOPDL :: int where "Q_MOPDL \<equiv> 16"
abbreviation (input) Q_ICMPV6 :: int where "Q_ICMPV6 \<equiv> 18"
abbreviation (input) Q_AH :: int where "Q_AH \<equiv> 19"
abbreviation (input) Q_ESP :: int where "Q_ESP \<equiv> 20"
abbreviation (input) Q_PIM :: int where "Q_PIM \<equiv> 21"
abbreviation (input) Q_VRRP :: int where "Q_VRRP \<equiv> 22"
abbreviation (input) Q_AARP :: int where "Q_AARP \<equiv> 23"
abbreviation (input) Q_ISO :: int where "Q_ISO \<equiv> 24"
abbreviation (input) Q_ESIS :: int where "Q_ESIS \<equiv> 25"
abbreviation (input) Q_ISIS :: int where "Q_ISIS \<equiv> 26"
abbreviation (input) Q_CLNP :: int where "Q_CLNP \<equiv> 27"
abbreviation (input) Q_STP :: int where "Q_STP \<equiv> 28"
abbreviation (input) Q_IPX :: int where "Q_IPX \<equiv> 29"
abbreviation (input) Q_NETBEUI :: int where "Q_NETBEUI \<equiv> 30"
abbreviation (input) Q_ISIS_L1 :: int where "Q_ISIS_L1 \<equiv> 31"
abbreviation (input) Q_ISIS_L2 :: int where "Q_ISIS_L2 \<equiv> 32"
abbreviation (input) Q_ISIS_IIH :: int where "Q_ISIS_IIH \<equiv> 33"
abbreviation (input) Q_ISIS_SNP :: int where "Q_ISIS_SNP \<equiv> 36"
abbreviation (input) Q_ISIS_CSNP :: int where "Q_ISIS_CSNP \<equiv> 37"
abbreviation (input) Q_ISIS_PSNP :: int where "Q_ISIS_PSNP \<equiv> 38"
abbreviation (input) Q_ISIS_LSP :: int where "Q_ISIS_LSP \<equiv> 39"
abbreviation (input) Q_RADIO :: int where "Q_RADIO \<equiv> 40"

section \<open>Directions\<close>

definition dir_meaning :: "int \<Rightarrow> int set \<Rightarrow> meaning \<Rightarrow> meaning \<Rightarrow> meaning" where
  "dir_meaning dir bad s d =
     (if dir = Q_SRC then s else if dir = Q_DST then d
      else if dir = Q_AND then rbind s (\<lambda>P. rbind d (\<lambda>Q. Inr (p_and P Q)))
      else if dir \<in> {Q_OR, Q_DEFAULT} then rbind s (\<lambda>P. rbind d (\<lambda>Q. Inr (p_or P Q)))
      else if dir \<in> bad then Inl BpfError
      else Inl GenAbort)"

text \<open>A test of an address in one direction, closed under the combinations; \<open>bad\<close> are the
  directions it reports instead of aborting.\<close>

locale direction_op =
  fixes op leaf :: "int \<Rightarrow> nat gm" and src dst :: meaning and bad :: "int set"
  assumes op_step: "op dir =
      (if dir \<in> {Q_SRC, Q_DST} then leaf dir
       else if dir = Q_AND then
         gbind (op Q_SRC) (\<lambda>b0. gbind (op Q_DST) (\<lambda>b1. gbind (gen_and b0 b1) (\<lambda>_. gret b1)))
       else if dir \<in> {Q_OR, Q_DEFAULT} then
         gbind (op Q_SRC) (\<lambda>b0. gbind (op Q_DST) (\<lambda>b1. gbind (gen_or b0 b1) (\<lambda>_. gret b1)))
       else if dir \<in> bad then gfail BpfError
       else gfail GenAbort)"
    and leaf_src: "gives (leaf Q_SRC) src"
    and leaf_dst: "gives (leaf Q_DST) dst"
begin

lemma op_leaf: "dir \<in> {Q_SRC, Q_DST} \<Longrightarrow> op dir = leaf dir"
  by (subst op_step) simp

lemma gives_op: "gives (op dir) (dir_meaning dir bad src dst)"
proof -
  have "gives (op Q_SRC) src" "gives (op Q_DST) dst" using leaf_src leaf_dst by (simp_all add: op_leaf)
  note calls = this [THEN tri_call]
  have "gives (gbind (op Q_SRC) (\<lambda>b0. gbind (op Q_DST) (\<lambda>b1. gbind (gen_and b0 b1) (\<lambda>_. gret b1))))
      (rbind src (\<lambda>P. rbind dst (\<lambda>Q. Inr (p_and P Q))))"
    by (rule calls tri_intros)+
  moreover have "gives (gbind (op Q_SRC) (\<lambda>b0. gbind (op Q_DST) (\<lambda>b1. gbind (gen_or b0 b1) (\<lambda>_. gret b1))))
      (rbind src (\<lambda>P. rbind dst (\<lambda>Q. Inr (p_or P Q))))"
    by (rule calls tri_intros)+
  ultimately show ?thesis
    using leaf_src leaf_dst tri_fail [of "[]" BpfError] tri_fail [of "[]" GenAbort]
    by (subst op_step) (auto simp: dir_meaning_def)
qed

end

section \<open>Link-layer addresses\<close>

function gen_ehostop :: "layout \<Rightarrow> u8 list \<Rightarrow> int \<Rightarrow> nat gm" where
  "gen_ehostop L eaddr dir =
     (if dir = Q_SRC then gen_bcmp L OR_LINK (off_mac L + 6) 6 eaddr
      else if dir = Q_DST then gen_bcmp L OR_LINK (off_mac L + 0) 6 eaddr
      else if dir = Q_AND then
        gbind (gen_ehostop L eaddr Q_SRC) (\<lambda>b0.
        gbind (gen_ehostop L eaddr Q_DST) (\<lambda>b1.
        gbind (gen_and b0 b1) (\<lambda>_. gret b1)))
      else if dir \<in> {Q_DEFAULT, Q_OR} then
        gbind (gen_ehostop L eaddr Q_SRC) (\<lambda>b0.
        gbind (gen_ehostop L eaddr Q_DST) (\<lambda>b1.
        gbind (gen_or b0 b1) (\<lambda>_. gret b1)))
      else gfail GenAbort)"
  by pat_completeness auto
termination by (relation "measure (\<lambda>(L, a, dir). if dir \<in> {Q_SRC, Q_DST} then 0 else 1)") auto

declare gen_ehostop.simps [simp del]

function gen_fhostop :: "layout \<Rightarrow> u8 list \<Rightarrow> int \<Rightarrow> nat gm" where
  "gen_fhostop L eaddr dir =
     (if dir = Q_SRC then gen_bcmp L OR_LINK (6 + 1) 6 eaddr
      else if dir = Q_DST then gen_bcmp L OR_LINK (0 + 1) 6 eaddr
      else if dir = Q_AND then
        gbind (gen_fhostop L eaddr Q_SRC) (\<lambda>b0.
        gbind (gen_fhostop L eaddr Q_DST) (\<lambda>b1.
        gbind (gen_and b0 b1) (\<lambda>_. gret b1)))
      else if dir \<in> {Q_DEFAULT, Q_OR} then
        gbind (gen_fhostop L eaddr Q_SRC) (\<lambda>b0.
        gbind (gen_fhostop L eaddr Q_DST) (\<lambda>b1.
        gbind (gen_or b0 b1) (\<lambda>_. gret b1)))
      else gfail GenAbort)"
  by pat_completeness auto
termination by (relation "measure (\<lambda>(L, a, dir). if dir \<in> {Q_SRC, Q_DST} then 0 else 1)") auto

declare gen_fhostop.simps [simp del]

function gen_thostop :: "layout \<Rightarrow> u8 list \<Rightarrow> int \<Rightarrow> nat gm" where
  "gen_thostop L eaddr dir =
     (if dir = Q_SRC then gen_bcmp L OR_LINK (8) 6 eaddr
      else if dir = Q_DST then gen_bcmp L OR_LINK (2) 6 eaddr
      else if dir = Q_AND then
        gbind (gen_thostop L eaddr Q_SRC) (\<lambda>b0.
        gbind (gen_thostop L eaddr Q_DST) (\<lambda>b1.
        gbind (gen_and b0 b1) (\<lambda>_. gret b1)))
      else if dir \<in> {Q_DEFAULT, Q_OR} then
        gbind (gen_thostop L eaddr Q_SRC) (\<lambda>b0.
        gbind (gen_thostop L eaddr Q_DST) (\<lambda>b1.
        gbind (gen_or b0 b1) (\<lambda>_. gret b1)))
      else gfail GenAbort)"
  by pat_completeness auto
termination by (relation "measure (\<lambda>(L, a, dir). if dir \<in> {Q_SRC, Q_DST} then 0 else 1)") auto

declare gen_thostop.simps [simp del]

function gen_ipfchostop :: "layout \<Rightarrow> u8 list \<Rightarrow> int \<Rightarrow> nat gm" where
  "gen_ipfchostop L eaddr dir =
     (if dir = Q_SRC then gen_bcmp L OR_LINK (10) 6 eaddr
      else if dir = Q_DST then gen_bcmp L OR_LINK (2) 6 eaddr
      else if dir = Q_AND then
        gbind (gen_ipfchostop L eaddr Q_SRC) (\<lambda>b0.
        gbind (gen_ipfchostop L eaddr Q_DST) (\<lambda>b1.
        gbind (gen_and b0 b1) (\<lambda>_. gret b1)))
      else if dir \<in> {Q_DEFAULT, Q_OR} then
        gbind (gen_ipfchostop L eaddr Q_SRC) (\<lambda>b0.
        gbind (gen_ipfchostop L eaddr Q_DST) (\<lambda>b1.
        gbind (gen_or b0 b1) (\<lambda>_. gret b1)))
      else gfail GenAbort)"
  by pat_completeness auto
termination by (relation "measure (\<lambda>(L, a, dir). if dir \<in> {Q_SRC, Q_DST} then 0 else 1)") auto

declare gen_ipfchostop.simps [simp del]

function gen_ahostop :: "layout \<Rightarrow> u8 list \<Rightarrow> int \<Rightarrow> nat gm" where
  "gen_ahostop L eaddr dir =
     (if dir = Q_SRC then gen_bcmp L OR_LINK (0) 1 eaddr
      else if dir = Q_DST then gen_bcmp L OR_LINK (1) 1 eaddr
      else if dir = Q_AND then
        gbind (gen_ahostop L eaddr Q_SRC) (\<lambda>b0.
        gbind (gen_ahostop L eaddr Q_DST) (\<lambda>b1.
        gbind (gen_and b0 b1) (\<lambda>_. gret b1)))
      else if dir \<in> {Q_DEFAULT, Q_OR} then
        gbind (gen_ahostop L eaddr Q_SRC) (\<lambda>b0.
        gbind (gen_ahostop L eaddr Q_DST) (\<lambda>b1.
        gbind (gen_or b0 b1) (\<lambda>_. gret b1)))
      else gfail GenAbort)"
  by pat_completeness auto
termination by (relation "measure (\<lambda>(L, a, dir). if dir \<in> {Q_SRC, Q_DST} then 0 else 1)") auto

declare gen_ahostop.simps [simp del]

lemma gives_addr_leaf:
  "gives (gen_bcmp L OR_LINK off 6 a) (Inr (bcmp_pred L OR_LINK off 6 a))"
  "gives (gen_bcmp L OR_LINK off (Suc 0) a) (Inr (bcmp_pred L OR_LINK off (Suc 0) a))"
  by (auto intro!: tri_tail makes_bcmp_pred)

interpretation eh: direction_op "gen_ehostop L eaddr"
    "\<lambda>dir. gen_bcmp L OR_LINK (if dir = Q_SRC then off_mac L + 6 else off_mac L + 0) 6 eaddr"
    "Inr (bcmp_pred L OR_LINK (off_mac L + 6) 6 eaddr)" "Inr (bcmp_pred L OR_LINK (off_mac L + 0) 6 eaddr)" "{}" for L eaddr
  by (rule direction_op.intro, subst gen_ehostop.simps) (auto intro!: gives_addr_leaf)

interpretation fh: direction_op "gen_fhostop L eaddr"
    "\<lambda>dir. gen_bcmp L OR_LINK (if dir = Q_SRC then 6 + 1 else 0 + 1) 6 eaddr"
    "Inr (bcmp_pred L OR_LINK (6 + 1) 6 eaddr)" "Inr (bcmp_pred L OR_LINK (0 + 1) 6 eaddr)" "{}" for L eaddr
  by (rule direction_op.intro, subst gen_fhostop.simps) (auto intro!: gives_addr_leaf)

interpretation th: direction_op "gen_thostop L eaddr"
    "\<lambda>dir. gen_bcmp L OR_LINK (if dir = Q_SRC then 8 else 2) 6 eaddr"
    "Inr (bcmp_pred L OR_LINK (8) 6 eaddr)" "Inr (bcmp_pred L OR_LINK (2) 6 eaddr)" "{}" for L eaddr
  by (rule direction_op.intro, subst gen_thostop.simps) (auto intro!: gives_addr_leaf)

interpretation ipfc: direction_op "gen_ipfchostop L eaddr"
    "\<lambda>dir. gen_bcmp L OR_LINK (if dir = Q_SRC then 10 else 2) 6 eaddr"
    "Inr (bcmp_pred L OR_LINK (10) 6 eaddr)" "Inr (bcmp_pred L OR_LINK (2) 6 eaddr)" "{}" for L eaddr
  by (rule direction_op.intro, subst gen_ipfchostop.simps) (auto intro!: gives_addr_leaf)

interpretation ah: direction_op "gen_ahostop L eaddr"
    "\<lambda>dir. gen_bcmp L OR_LINK (if dir = Q_SRC then 0 else 1) 1 eaddr"
    "Inr (bcmp_pred L OR_LINK (0) 1 eaddr)" "Inr (bcmp_pred L OR_LINK (1) 1 eaddr)" "{}" for L eaddr
  by (rule direction_op.intro, subst gen_ahostop.simps) (auto intro!: gives_addr_leaf)

section \<open>Network addresses\<close>

definition hostop_leaf :: "layout \<Rightarrow> u32 \<Rightarrow> u32 \<Rightarrow> int \<Rightarrow> u32 \<Rightarrow> nat gm" where
  "hostop_leaf L addr msk proto offset =
     gbind (gen_linktype L proto) (\<lambda>b0.
     gbind (gen_mcmp L OR_NET offset SzW addr msk) (\<lambda>b1.
     gbind (gen_and b0 b1) (\<lambda>_. gret b1)))"

function gen_hostop :: "layout \<Rightarrow> u32 \<Rightarrow> u32 \<Rightarrow> int \<Rightarrow> int \<Rightarrow> u32 \<Rightarrow> u32 \<Rightarrow> nat gm" where
  "gen_hostop L addr msk dir proto src_off dst_off =
     (if dir \<in> {Q_SRC, Q_DST} then
        hostop_leaf L addr msk proto (if dir = Q_SRC then src_off else dst_off)
      else if dir = Q_AND then
        gbind (gen_hostop L addr msk Q_SRC proto src_off dst_off) (\<lambda>b0.
        gbind (gen_hostop L addr msk Q_DST proto src_off dst_off) (\<lambda>b1.
        gbind (gen_and b0 b1) (\<lambda>_. gret b1)))
      else if dir \<in> {Q_OR, Q_DEFAULT} then
        gbind (gen_hostop L addr msk Q_SRC proto src_off dst_off) (\<lambda>b0.
        gbind (gen_hostop L addr msk Q_DST proto src_off dst_off) (\<lambda>b1.
        gbind (gen_or b0 b1) (\<lambda>_. gret b1)))
      else gfail GenAbort)"
  by pat_completeness auto
termination by (relation "measure (\<lambda>(L, a, m, dir, p, s, d). if dir \<in> {Q_SRC, Q_DST} then 0 else 1)") auto

declare gen_hostop.simps [simp del]

text \<open>\<open>ntohl(a[i])\<close> of an IPv6 address.\<close>

definition addr_word :: "u8 list \<Rightarrow> nat \<Rightarrow> u32" where
  "addr_word a i = be32 (a ! (4 * i)) (a ! (4 * i + 1)) (a ! (4 * i + 2)) (a ! (4 * i + 3))"

definition hostop6_leaf :: "layout \<Rightarrow> u8 list \<Rightarrow> u8 list \<Rightarrow> int \<Rightarrow> u32 \<Rightarrow> nat gm" where
  "hostop6_leaf L addr msk proto offset =
     gbind (gen_mcmp L OR_NET (offset + 12) SzW (addr_word addr 3) (addr_word msk 3)) (\<lambda>b1.
     gbind (gen_mcmp L OR_NET (offset + 8) SzW (addr_word addr 2) (addr_word msk 2)) (\<lambda>b0.
     gbind (gen_and b0 b1) (\<lambda>_.
     gbind (gen_mcmp L OR_NET (offset + 4) SzW (addr_word addr 1) (addr_word msk 1)) (\<lambda>b0.
     gbind (gen_and b0 b1) (\<lambda>_.
     gbind (gen_mcmp L OR_NET (offset + 0) SzW (addr_word addr 0) (addr_word msk 0)) (\<lambda>b0.
     gbind (gen_and b0 b1) (\<lambda>_.
     gbind (gen_linktype L proto) (\<lambda>b0.
     gbind (gen_and b0 b1) (\<lambda>_. gret b1)))))))))"

function gen_hostop6 :: "layout \<Rightarrow> u8 list \<Rightarrow> u8 list \<Rightarrow> int \<Rightarrow> int \<Rightarrow> u32 \<Rightarrow> u32 \<Rightarrow> nat gm" where
  "gen_hostop6 L addr msk dir proto src_off dst_off =
     (if dir \<in> {Q_SRC, Q_DST} then
        hostop6_leaf L addr msk proto (if dir = Q_SRC then src_off else dst_off)
      else if dir = Q_AND then
        gbind (gen_hostop6 L addr msk Q_SRC proto src_off dst_off) (\<lambda>b0.
        gbind (gen_hostop6 L addr msk Q_DST proto src_off dst_off) (\<lambda>b1.
        gbind (gen_and b0 b1) (\<lambda>_. gret b1)))
      else if dir \<in> {Q_OR, Q_DEFAULT} then
        gbind (gen_hostop6 L addr msk Q_SRC proto src_off dst_off) (\<lambda>b0.
        gbind (gen_hostop6 L addr msk Q_DST proto src_off dst_off) (\<lambda>b1.
        gbind (gen_or b0 b1) (\<lambda>_. gret b1)))
      else gfail GenAbort)"
  by pat_completeness auto
termination by (relation "measure (\<lambda>(L, a, m, dir, p, s, d). if dir \<in> {Q_SRC, Q_DST} then 0 else 1)") auto

declare gen_hostop6.simps [simp del]

text \<open>\<open>ntohs\<close> swaps the two low bytes on this target.\<close>

definition ntohs :: "u32 \<Rightarrow> u32" where
  "ntohs x = push_bit 8 (x AND 0xff) OR (drop_bit 8 x AND 0xff)"

definition dnhostop_leaf :: "layout \<Rightarrow> u32 \<Rightarrow> u32 \<Rightarrow> u32 \<Rightarrow> nat gm" where
  "dnhostop_leaf L addr offset_sh offset_lh =
     gbind (gen_linktype L ETHERTYPE_DN) (\<lambda>b0.
     gbind (gen_mcmp L OR_NET 2 SzH (ntohs 0x0681) (ntohs 0x07FF)) (\<lambda>tmp.
     gbind (gen_cmp L OR_NET (2 + 1 + offset_lh) SzH (ntohs addr)) (\<lambda>b1.
     gbind (gen_and tmp b1) (\<lambda>_.
     gbind (gen_mcmp L OR_NET 2 SzB 0x06 0x7) (\<lambda>tmp.
     gbind (gen_cmp L OR_NET (2 + offset_lh) SzH (ntohs addr)) (\<lambda>b2.
     gbind (gen_and tmp b2) (\<lambda>_.
     gbind (gen_or b2 b1) (\<lambda>_.
     gbind (gen_mcmp L OR_NET 2 SzH (ntohs 0x0281) (ntohs 0x07FF)) (\<lambda>tmp.
     gbind (gen_cmp L OR_NET (2 + 1 + offset_sh) SzH (ntohs addr)) (\<lambda>b2.
     gbind (gen_and tmp b2) (\<lambda>_.
     gbind (gen_or b2 b1) (\<lambda>_.
     gbind (gen_mcmp L OR_NET 2 SzB 0x02 0x7) (\<lambda>tmp.
     gbind (gen_cmp L OR_NET (2 + offset_sh) SzH (ntohs addr)) (\<lambda>b2.
     gbind (gen_and tmp b2) (\<lambda>_.
     gbind (gen_or b2 b1) (\<lambda>_.
     gbind (gen_and b0 b1) (\<lambda>_. gret b1)))))))))))))))))"

function gen_dnhostop :: "layout \<Rightarrow> u32 \<Rightarrow> int \<Rightarrow> nat gm" where
  "gen_dnhostop L addr dir =
     (if dir \<in> {Q_SRC, Q_DST} then
        (if dir = Q_DST then dnhostop_leaf L addr 1 7 else dnhostop_leaf L addr 3 15)
      else if dir = Q_AND then
        gbind (gen_dnhostop L addr Q_SRC) (\<lambda>b0.
        gbind (gen_dnhostop L addr Q_DST) (\<lambda>b1.
        gbind (gen_and b0 b1) (\<lambda>_. gret b1)))
      else if dir \<in> {Q_OR, Q_DEFAULT} then
        gbind (gen_dnhostop L addr Q_SRC) (\<lambda>b0.
        gbind (gen_dnhostop L addr Q_DST) (\<lambda>b1.
        gbind (gen_or b0 b1) (\<lambda>_. gret b1)))
      else if dir = Q_ISO then gfail BpfError
      else gfail GenAbort)"
  by pat_completeness auto
termination by (relation "measure (\<lambda>(L, a, dir). if dir \<in> {Q_SRC, Q_DST} then 0 else 1)") auto

declare gen_dnhostop.simps [simp del]

definition host_meaning :: "layout \<Rightarrow> u32 \<Rightarrow> u32 \<Rightarrow> int \<Rightarrow> u32 \<Rightarrow> meaning" where
  "host_meaning L addr msk proto off =
     rbind (linktype_meaning L proto) (\<lambda>P. Inr (p_and P (is_eq L OR_NET off SzW msk addr)))"

lemma gives_hostop_leaf: "gives (hostop_leaf L addr msk proto off) (host_meaning L addr msk proto off)"
  unfolding hostop_leaf_def host_meaning_def by (rule tri_intros)+

interpretation host: direction_op "\<lambda>dir. gen_hostop L addr msk dir proto src_off dst_off"
    "\<lambda>dir. hostop_leaf L addr msk proto (if dir = Q_SRC then src_off else dst_off)"
    "host_meaning L addr msk proto src_off" "host_meaning L addr msk proto dst_off" "{}"
    for L addr msk proto src_off dst_off
  by (rule direction_op.intro, subst gen_hostop.simps) (auto simp: gives_hostop_leaf)

definition host6_meaning :: "layout \<Rightarrow> u8 list \<Rightarrow> u8 list \<Rightarrow> int \<Rightarrow> u32 \<Rightarrow> meaning" where
  "host6_meaning L addr msk proto off =
     (let w = (\<lambda>k i. is_eq L OR_NET (off + k) SzW (addr_word msk i) (addr_word addr i)) in
      rbind (linktype_meaning L proto) (\<lambda>P. Inr (p_and P (p_and (w 0 0) (p_and (w 4 1) (p_and (w 8 2) (w 12 3)))))))"

lemma gives_hostop6_leaf: "gives (hostop6_leaf L addr msk proto off) (host6_meaning L addr msk proto off)"
  unfolding hostop6_leaf_def host6_meaning_def Let_def by (rule tri_intros)+

interpretation host6: direction_op "\<lambda>dir. gen_hostop6 L addr msk dir proto src_off dst_off"
    "\<lambda>dir. hostop6_leaf L addr msk proto (if dir = Q_SRC then src_off else dst_off)"
    "host6_meaning L addr msk proto src_off" "host6_meaning L addr msk proto dst_off" "{}"
    for L addr msk proto src_off dst_off
  by (rule direction_op.intro, subst gen_hostop6.simps) (auto simp: gives_hostop6_leaf)

definition dn_meaning :: "layout \<Rightarrow> u32 \<Rightarrow> u32 \<Rightarrow> u32 \<Rightarrow> meaning" where
  "dn_meaning L addr sh lh =
     (let pad1 = (\<lambda>v off. p_and (is_eq L OR_NET 2 SzH (ntohs 0x07FF) (ntohs v))
                    (is_eq L OR_NET (2 + 1 + off) SzH 0xffffffff (ntohs addr)));
          pad0 = (\<lambda>v off. p_and (is_eq L OR_NET 2 SzB 0x7 v)
                    (is_eq L OR_NET (2 + off) SzH 0xffffffff (ntohs addr)))
      in rbind (linktype_meaning L ETHERTYPE_DN) (\<lambda>P.
           Inr (p_and P (p_or (pad0 0x02 sh) (p_or (pad1 0x0281 sh) (p_or (pad0 0x06 lh) (pad1 0x0681 lh)))))))"

lemma gives_dnhostop_leaf: "gives (dnhostop_leaf L addr sh lh) (dn_meaning L addr sh lh)"
  unfolding dnhostop_leaf_def dn_meaning_def Let_def by (rule tri_intros)+

interpretation dn: direction_op "gen_dnhostop L addr"
    "\<lambda>dir. if dir = Q_DST then dnhostop_leaf L addr 1 7 else dnhostop_leaf L addr 3 15"
    "dn_meaning L addr 3 15" "dn_meaning L addr 1 7" "{Q_ISO}" for L addr
  by (rule direction_op.intro, subst gen_dnhostop.simps) (auto simp: gives_dnhostop_leaf)

lemmas host_gives = host.gives_op host6.gives_op dn.gives_op eh.gives_op fh.gives_op th.gives_op ipfc.gives_op ah.gives_op
lemmas [tri_intros] = host_gives host_gives [THEN tri_call]

section \<open>Hosts and networks\<close>

text \<open>The argument \<open>type\<close>, used in the messages only, is left out.\<close>

function gen_host :: "layout \<Rightarrow> u32 \<Rightarrow> u32 \<Rightarrow> int \<Rightarrow> int \<Rightarrow> nat gm" where
  "gen_host L addr msk proto dir =
     (if proto = Q_DEFAULT then
        gbind (gen_host L addr msk Q_IP dir) (\<lambda>b0.
        if label_stack_depth L = 0 then
          gbind (gen_host L addr msk Q_ARP dir) (\<lambda>b1.
          gbind (gen_or b0 b1) (\<lambda>_.
          gbind (gen_host L addr msk Q_RARP dir) (\<lambda>b0.
          gbind (gen_or b1 b0) (\<lambda>_. gret b0))))
        else gret b0)
      else if proto = Q_IP then gen_hostop L addr msk dir ETHERTYPE_IP 12 16
      else if proto = Q_RARP then gen_hostop L addr msk dir ETHERTYPE_REVARP 14 24
      else if proto = Q_ARP then gen_hostop L addr msk dir ETHERTYPE_ARP 14 24
      else if proto \<in> {Q_TCP, Q_SCTP, Q_UDP, Q_ICMP, Q_IGMP, Q_IGRP, Q_PIM, Q_VRRP, Q_ATALK, Q_AARP} then gfail BpfError
      else if proto = Q_DECNET then gen_dnhostop L addr dir
      else if proto \<in> {Q_SCA, Q_LAT, Q_MOPDL, Q_MOPRC, Q_IPV6, Q_ICMPV6, Q_AH, Q_ESP, Q_ISO, Q_ESIS, Q_ISIS, Q_CLNP,
          Q_STP, Q_IPX, Q_NETBEUI, Q_RADIO} then gfail BpfError
      else gfail GenAbort)"
  by pat_completeness auto
termination by (relation "measure (\<lambda>(L, a, m, proto, d). if proto = Q_DEFAULT then 1 else 0)") auto

declare gen_host.simps [simp del]

function gen_host6 :: "layout \<Rightarrow> u8 list \<Rightarrow> u8 list \<Rightarrow> int \<Rightarrow> int \<Rightarrow> nat gm" where
  "gen_host6 L addr msk proto dir =
     (if proto = Q_DEFAULT then gen_host6 L addr msk Q_IPV6 dir
      else if proto \<in> {Q_IP, Q_RARP, Q_ARP, Q_SCTP, Q_TCP, Q_UDP, Q_ICMP, Q_IGMP, Q_IGRP, Q_PIM, Q_VRRP, Q_ATALK,
          Q_AARP, Q_DECNET, Q_SCA, Q_LAT, Q_MOPDL, Q_MOPRC} then gfail BpfError
      else if proto = Q_IPV6 then gen_hostop6 L addr msk dir ETHERTYPE_IPV6 8 24
      else if proto \<in> {Q_ICMPV6, Q_AH, Q_ESP, Q_ISO, Q_ESIS, Q_ISIS, Q_CLNP, Q_STP, Q_IPX, Q_NETBEUI, Q_RADIO} then
        gfail BpfError
      else gfail GenAbort)"
  by pat_completeness auto
termination by (relation "measure (\<lambda>(L, a, m, proto, d). if proto = Q_DEFAULT then 1 else 0)") auto

declare gen_host6.simps [simp del]

definition host_dir :: "layout \<Rightarrow> u32 \<Rightarrow> u32 \<Rightarrow> int \<Rightarrow> u32 \<Rightarrow> u32 \<Rightarrow> int \<Rightarrow> meaning" where
  "host_dir L addr msk dir s d proto =
     dir_meaning dir {} (host_meaning L addr msk proto s) (host_meaning L addr msk proto d)"

lemma gives_host_ip: "gives (gen_host L addr msk Q_IP dir) (host_dir L addr msk dir 12 16 ETHERTYPE_IP)"
  and gives_host_arp: "gives (gen_host L addr msk Q_ARP dir) (host_dir L addr msk dir 14 24 ETHERTYPE_ARP)"
  and gives_host_rarp: "gives (gen_host L addr msk Q_RARP dir) (host_dir L addr msk dir 14 24 ETHERTYPE_REVARP)"
  by (subst gen_host.simps, simp add: host_dir_def host.gives_op)+

lemma gives_host_decnet: "gives (gen_host L addr msk Q_DECNET dir)
    (dir_meaning dir {Q_ISO} (dn_meaning L addr 3 15) (dn_meaning L addr 1 7))"
  by (subst gen_host.simps, simp add: dn.gives_op)

text \<open>Without a protocol: an IPv4 host, or one an ARP or a RARP packet speaks of - under an MPLS
  header, IPv4 only.\<close>

lemmas host_calls = gives_host_ip [THEN tri_call] gives_host_arp [THEN tri_call] gives_host_rarp [THEN tri_call]

definition host_any_meaning :: "layout \<Rightarrow> u32 \<Rightarrow> u32 \<Rightarrow> int \<Rightarrow> meaning" where
  "host_any_meaning L addr msk dir =
     rbind (host_dir L addr msk dir 12 16 ETHERTYPE_IP) (\<lambda>P.
       if label_stack_depth L = 0 then
         rbind (host_dir L addr msk dir 14 24 ETHERTYPE_ARP) (\<lambda>Q.
         rbind (host_dir L addr msk dir 14 24 ETHERTYPE_REVARP) (\<lambda>R. Inr (p_or (p_or P Q) R)))
       else Inr P)"

definition gen_host_meaning :: "layout \<Rightarrow> u32 \<Rightarrow> u32 \<Rightarrow> int \<Rightarrow> int \<Rightarrow> meaning" where
  "gen_host_meaning L addr msk proto dir =
     (if proto = Q_DEFAULT then host_any_meaning L addr msk dir
      else if proto = Q_IP then host_dir L addr msk dir 12 16 ETHERTYPE_IP
      else if proto = Q_RARP then host_dir L addr msk dir 14 24 ETHERTYPE_REVARP
      else if proto = Q_ARP then host_dir L addr msk dir 14 24 ETHERTYPE_ARP
      else if proto \<in> {Q_TCP, Q_SCTP, Q_UDP, Q_ICMP, Q_IGMP, Q_IGRP, Q_PIM, Q_VRRP, Q_ATALK, Q_AARP} then Inl BpfError
      else if proto = Q_DECNET then dir_meaning dir {Q_ISO} (dn_meaning L addr 3 15) (dn_meaning L addr 1 7)
      else if proto \<in> {Q_SCA, Q_LAT, Q_MOPDL, Q_MOPRC, Q_IPV6, Q_ICMPV6, Q_AH, Q_ESP, Q_ISO, Q_ESIS, Q_ISIS, Q_CLNP,
          Q_STP, Q_IPX, Q_NETBEUI, Q_RADIO} then Inl BpfError
      else Inl GenAbort)"

lemma gives_host: "gives (gen_host L addr msk proto dir) (gen_host_meaning L addr msk proto dir)"
  unfolding gen_host_meaning_def
  by (subst gen_host.simps)
    (rule host_calls | rule host.gives_op [folded host_dir_def] | rule tri_intros | simp only: host_any_meaning_def)+

lemma gives_host6: "gives (gen_host6 L addr msk Q_IPV6 dir)
    (dir_meaning dir {} (host6_meaning L addr msk ETHERTYPE_IPV6 8) (host6_meaning L addr msk ETHERTYPE_IPV6 24))"
  by (subst gen_host6.simps) (simp add: host6.gives_op)

lemma gen_host6_default: "gen_host6 L addr msk Q_DEFAULT dir = gen_host6 L addr msk Q_IPV6 dir"
  by (subst gen_host6.simps) simp

lemmas [tri_intros] = gives_host gives_host [THEN tri_call]

end
