(* ===== verification/Gen_Port.thy ===== *)
theory Gen_Port
  imports Gen_Host
begin

text \<open>
  The port tests of \<^verbatim>\<open>gencode.c\<close>: \<open>gen_port\<close>, \<open>gen_port6\<close>, \<open>gen_portrange\<close>,
  \<open>gen_portrange6\<close>. The four \<open>*op\<close> functions hold the same switch over the direction
  (\<open>port_switch\<close>), and the four functions above them the same switch over the transport protocol
  (\<open>proto_switch\<close>).
\<close>

abbreviation (input) IPPROTO_TCP :: int where "IPPROTO_TCP \<equiv> 6"
abbreviation (input) IPPROTO_UDP :: int where "IPPROTO_UDP \<equiv> 17"
abbreviation (input) IPPROTO_SCTP :: int where "IPPROTO_SCTP \<equiv> 132"
abbreviation (input) PROTO_UNDEF :: int where "PROTO_UNDEF \<equiv> - 1"

section \<open>The two switches\<close>

definition port_switch :: "(u32 \<Rightarrow> nat gm) \<Rightarrow> int \<Rightarrow> nat gm" where
  "port_switch atom dir =
     (if dir = Q_SRC then atom 0
      else if dir = Q_DST then atom 2
      else if dir \<in> {Q_OR, Q_DEFAULT} then
        gbind (atom 0) (\<lambda>tmp. gbind (atom 2) (\<lambda>b1. gbind (gen_or tmp b1) (\<lambda>_. gret b1)))
      else if dir = Q_AND then
        gbind (atom 0) (\<lambda>tmp. gbind (atom 2) (\<lambda>b1. gbind (gen_and tmp b1) (\<lambda>_. gret b1)))
      else gfail GenAbort)"

definition proto_switch :: "(int \<Rightarrow> nat gm) \<Rightarrow> int \<Rightarrow> nat gm" where
  "proto_switch op ip_proto =
     (if ip_proto \<in> {IPPROTO_UDP, IPPROTO_TCP, IPPROTO_SCTP} then op ip_proto
      else if ip_proto = PROTO_UNDEF then
        gbind (op IPPROTO_TCP) (\<lambda>tmp.
        gbind (op IPPROTO_UDP) (\<lambda>b1.
        gbind (gen_or tmp b1) (\<lambda>_.
        gbind (op IPPROTO_SCTP) (\<lambda>tmp.
        gbind (gen_or tmp b1) (\<lambda>_. gret b1)))))
      else gfail GenAbort)"

section \<open>Ports over IPv4\<close>

definition gen_portatom :: "layout \<Rightarrow> u32 \<Rightarrow> int \<Rightarrow> nat gm" where
  "gen_portatom L off v = gen_cmp L OR_TRAN_IPV4 off SzH (word_of_int v)"

definition gen_portop :: "layout \<Rightarrow> int \<Rightarrow> int \<Rightarrow> int \<Rightarrow> nat gm" where
  "gen_portop L port proto dir =
     gbind (gen_cmp L OR_NET 9 SzB (word_of_int proto)) (\<lambda>tmp.
     gbind (gen_ipfrag L) (\<lambda>b0.
     gbind (gen_and tmp b0) (\<lambda>_.
     gbind (port_switch (\<lambda>off. gen_portatom L off port) dir) (\<lambda>b1.
     gbind (gen_and b0 b1) (\<lambda>_. gret b1)))))"

definition gen_port :: "layout \<Rightarrow> int \<Rightarrow> int \<Rightarrow> int \<Rightarrow> nat gm" where
  "gen_port L port ip_proto dir =
     gbind (gen_linktype L ETHERTYPE_IP) (\<lambda>b0.
     gbind (proto_switch (\<lambda>p. gen_portop L port p dir) ip_proto) (\<lambda>b1.
     gbind (gen_and b0 b1) (\<lambda>_. gret b1)))"

definition gen_portrangeatom :: "layout \<Rightarrow> u32 \<Rightarrow> int \<Rightarrow> int \<Rightarrow> nat gm" where
  "gen_portrangeatom L off v1 v2 =
     (let (v1, v2) = (if v1 > v2 then (v2, v1) else (v1, v2)) in
      gbind (gen_cmp_ge L OR_TRAN_IPV4 off SzH (word_of_int v1)) (\<lambda>b1.
      gbind (gen_cmp_le L OR_TRAN_IPV4 off SzH (word_of_int v2)) (\<lambda>b2.
      gbind (gen_and b1 b2) (\<lambda>_. gret b2))))"

definition gen_portrangeop :: "layout \<Rightarrow> int \<Rightarrow> int \<Rightarrow> int \<Rightarrow> int \<Rightarrow> nat gm" where
  "gen_portrangeop L port1 port2 proto dir =
     gbind (gen_cmp L OR_NET 9 SzB (word_of_int proto)) (\<lambda>tmp.
     gbind (gen_ipfrag L) (\<lambda>b0.
     gbind (gen_and tmp b0) (\<lambda>_.
     gbind (port_switch (\<lambda>off. gen_portrangeatom L off port1 port2) dir) (\<lambda>b1.
     gbind (gen_and b0 b1) (\<lambda>_. gret b1)))))"

definition gen_portrange :: "layout \<Rightarrow> int \<Rightarrow> int \<Rightarrow> int \<Rightarrow> int \<Rightarrow> nat gm" where
  "gen_portrange L port1 port2 ip_proto dir =
     gbind (gen_linktype L ETHERTYPE_IP) (\<lambda>b0.
     gbind (proto_switch (\<lambda>p. gen_portrangeop L port1 port2 p dir) ip_proto) (\<lambda>b1.
     gbind (gen_and b0 b1) (\<lambda>_. gret b1)))"

section \<open>Ports over IPv6\<close>

definition gen_portatom6 :: "layout \<Rightarrow> u32 \<Rightarrow> int \<Rightarrow> nat gm" where
  "gen_portatom6 L off v = gen_cmp L OR_TRAN_IPV6 off SzH (word_of_int v)"

definition gen_portop6 :: "layout \<Rightarrow> int \<Rightarrow> int \<Rightarrow> int \<Rightarrow> nat gm" where
  "gen_portop6 L port proto dir =
     gbind (gen_cmp L OR_NET 6 SzB (word_of_int proto)) (\<lambda>b0.
     gbind (port_switch (\<lambda>off. gen_portatom6 L off port) dir) (\<lambda>b1.
     gbind (gen_and b0 b1) (\<lambda>_. gret b1)))"

definition gen_port6 :: "layout \<Rightarrow> int \<Rightarrow> int \<Rightarrow> int \<Rightarrow> nat gm" where
  "gen_port6 L port ip_proto dir =
     gbind (gen_linktype L ETHERTYPE_IPV6) (\<lambda>b0.
     gbind (proto_switch (\<lambda>p. gen_portop6 L port p dir) ip_proto) (\<lambda>b1.
     gbind (gen_and b0 b1) (\<lambda>_. gret b1)))"

definition gen_portrangeatom6 :: "layout \<Rightarrow> u32 \<Rightarrow> int \<Rightarrow> int \<Rightarrow> nat gm" where
  "gen_portrangeatom6 L off v1 v2 =
     (let (v1, v2) = (if v1 > v2 then (v2, v1) else (v1, v2)) in
      gbind (gen_cmp_ge L OR_TRAN_IPV6 off SzH (word_of_int v1)) (\<lambda>b1.
      gbind (gen_cmp_le L OR_TRAN_IPV6 off SzH (word_of_int v2)) (\<lambda>b2.
      gbind (gen_and b1 b2) (\<lambda>_. gret b2))))"

definition gen_portrangeop6 :: "layout \<Rightarrow> int \<Rightarrow> int \<Rightarrow> int \<Rightarrow> int \<Rightarrow> nat gm" where
  "gen_portrangeop6 L port1 port2 proto dir =
     gbind (gen_cmp L OR_NET 6 SzB (word_of_int proto)) (\<lambda>b0.
     gbind (port_switch (\<lambda>off. gen_portrangeatom6 L off port1 port2) dir) (\<lambda>b1.
     gbind (gen_and b0 b1) (\<lambda>_. gret b1)))"

definition gen_portrange6 :: "layout \<Rightarrow> int \<Rightarrow> int \<Rightarrow> int \<Rightarrow> int \<Rightarrow> nat gm" where
  "gen_portrange6 L port1 port2 ip_proto dir =
     gbind (gen_linktype L ETHERTYPE_IPV6) (\<lambda>b0.
     gbind (proto_switch (\<lambda>p. gen_portrangeop6 L port1 port2 p dir) ip_proto) (\<lambda>b1.
     gbind (gen_and b0 b1) (\<lambda>_. gret b1)))"

section \<open>What they decide\<close>

text \<open>A test of one port field, at offset 0 (source) or 2 (destination) of the transport header.\<close>

lemma gives_port_switch:
  assumes "\<And>off. makes (atom off) (A off)"
  shows "gives (port_switch atom dir) (dir_meaning dir {} (Inr (A 0)) (Inr (A 2)))"
proof -
  have d: "direction_op (port_switch atom) (\<lambda>dir. atom (if dir = Q_SRC then 0 else 2)) (Inr (A 0)) (Inr (A 2)) {}"
    using assms by (intro direction_op.intro) (auto simp: port_switch_def gives_makes)
  show ?thesis by (rule direction_op.gives_op [OF d])
qed

definition proto_meaning :: "(int \<Rightarrow> meaning) \<Rightarrow> int \<Rightarrow> meaning" where
  "proto_meaning M ip_proto =
     (if ip_proto \<in> {IPPROTO_UDP, IPPROTO_TCP, IPPROTO_SCTP} then M ip_proto
      else if ip_proto = PROTO_UNDEF then
        rbind (M IPPROTO_TCP) (\<lambda>T. rbind (M IPPROTO_UDP) (\<lambda>U. rbind (M IPPROTO_SCTP) (\<lambda>S.
          Inr (p_or S (p_or T U)))))
      else Inl GenAbort)"

lemma gives_proto_switch:
  assumes "\<And>p. gives (op p) (M p)"
  shows "gives (proto_switch op ip_proto) (proto_meaning M ip_proto)"
  unfolding proto_switch_def proto_meaning_def by (rule assms assms [THEN tri_call] tri_intros)+

text \<open>The IPv4 packet carries the protocol and is no later fragment; the IPv6 packet has it as its next
  header.\<close>

definition ip_payload :: "layout \<Rightarrow> int \<Rightarrow> pred" where
  "ip_payload L proto = p_and (is_eq L OR_NET 9 SzB 0xffffffff (word_of_int proto))
     (\<lambda>pk. and_then (field L OR_NET 6 SzH pk) (\<lambda>a. Next (a AND 0x1fff = 0)))"

definition ip6_payload :: "layout \<Rightarrow> int \<Rightarrow> pred" where
  "ip6_payload L proto = is_eq L OR_NET 6 SzB 0xffffffff (word_of_int proto)"

definition port_pred :: "layout \<Rightarrow> offrel \<Rightarrow> int \<Rightarrow> u32 \<Rightarrow> pred" where
  "port_pred L rel port off = is_eq L rel off SzH 0xffffffff (word_of_int port)"

definition range_pred :: "layout \<Rightarrow> offrel \<Rightarrow> int \<Rightarrow> int \<Rightarrow> u32 \<Rightarrow> pred" where
  "range_pred L rel v1 v2 off =
     p_and (is_rel (\<ge>) L rel off SzH (word_of_int (min v1 v2))) (is_rel (\<le>) L rel off SzH (word_of_int (max v1 v2)))"

definition ports_meaning :: "pred \<Rightarrow> (u32 \<Rightarrow> pred) \<Rightarrow> int \<Rightarrow> meaning" where
  "ports_meaning payload at dir =
     rbind (dir_meaning dir {} (Inr (at 0)) (Inr (at 2))) (\<lambda>Q. Inr (p_and payload Q))"

definition port_meaning :: "layout \<Rightarrow> int \<Rightarrow> (int \<Rightarrow> meaning) \<Rightarrow> int \<Rightarrow> meaning" where
  "port_meaning L ethertype M ip_proto =
     rbind (linktype_meaning L ethertype) (\<lambda>P. rbind (proto_meaning M ip_proto) (\<lambda>Q. Inr (p_and P Q)))"

lemma makes_portatom: "makes (gen_portatom L off v) (port_pred L OR_TRAN_IPV4 v off)"
  "makes (gen_portatom6 L off v) (port_pred L OR_TRAN_IPV6 v off)"
  unfolding gen_portatom_def gen_portatom6_def port_pred_def by (rule makes_cmp)+

lemma makes_portrangeatom: "makes (gen_portrangeatom L off v1 v2) (range_pred L OR_TRAN_IPV4 v1 v2 off)"
  "makes (gen_portrangeatom6 L off v1 v2) (range_pred L OR_TRAN_IPV6 v1 v2 off)"
proof -
  have m: "(if v1 > v2 then (v2, v1) else (v1, v2)) = (min v1 v2, max v1 v2)" by auto
  show "makes (gen_portrangeatom L off v1 v2) (range_pred L OR_TRAN_IPV4 v1 v2 off)"
    "makes (gen_portrangeatom6 L off v1 v2) (range_pred L OR_TRAN_IPV6 v1 v2 off)"
    unfolding gen_portrangeatom_def gen_portrangeatom6_def range_pred_def m Let_def prod.case gives_makes [symmetric]
    by (rule tri_intros)+
qed

lemmas port_switches =
  makes_portatom [THEN gives_port_switch] makes_portrangeatom [THEN gives_port_switch]

lemma gives_portop: "gives (gen_portop L port proto dir)
    (ports_meaning (ip_payload L proto) (port_pred L OR_TRAN_IPV4 port) dir)"
  and gives_portrangeop: "gives (gen_portrangeop L port1 port2 proto dir)
    (ports_meaning (ip_payload L proto) (range_pred L OR_TRAN_IPV4 port1 port2) dir)"
  and gives_portop6: "gives (gen_portop6 L port proto dir)
    (ports_meaning (ip6_payload L proto) (port_pred L OR_TRAN_IPV6 port) dir)"
  and gives_portrangeop6: "gives (gen_portrangeop6 L port1 port2 proto dir)
    (ports_meaning (ip6_payload L proto) (range_pred L OR_TRAN_IPV6 port1 port2) dir)"
  unfolding gen_portop_def gen_portrangeop_def gen_portop6_def gen_portrangeop6_def
    ports_meaning_def ip_payload_def ip6_payload_def
  by (rule port_switches [THEN tri_call] tri_intros)+

lemma gives_port: "gives (gen_port L port ip_proto dir) (port_meaning L ETHERTYPE_IP
    (\<lambda>p. ports_meaning (ip_payload L p) (port_pred L OR_TRAN_IPV4 port) dir) ip_proto)"
  and gives_portrange: "gives (gen_portrange L port1 port2 ip_proto dir) (port_meaning L ETHERTYPE_IP
    (\<lambda>p. ports_meaning (ip_payload L p) (range_pred L OR_TRAN_IPV4 port1 port2) dir) ip_proto)"
  and gives_port6: "gives (gen_port6 L port ip_proto dir) (port_meaning L ETHERTYPE_IPV6
    (\<lambda>p. ports_meaning (ip6_payload L p) (port_pred L OR_TRAN_IPV6 port) dir) ip_proto)"
  and gives_portrange6: "gives (gen_portrange6 L port1 port2 ip_proto dir) (port_meaning L ETHERTYPE_IPV6
    (\<lambda>p. ports_meaning (ip6_payload L p) (range_pred L OR_TRAN_IPV6 port1 port2) dir) ip_proto)"
  unfolding gen_port_def gen_portrange_def gen_port6_def gen_portrange6_def port_meaning_def
  by (rule gives_proto_switch [THEN tri_call] gives_portop gives_portrangeop gives_portop6 gives_portrangeop6
      tri_intros)+

lemmas port_gives = gives_port gives_portrange gives_port6 gives_portrange6
lemmas [tri_intros] = port_gives port_gives [THEN tri_call]

end
