(* ===== verification/Gen_Proto.thy ===== *)
theory Gen_Proto
  imports Gen_Port
begin

text \<open>
  The protocol tests of \<^verbatim>\<open>gencode.c\<close>: \<open>gen_proto\<close> (a protocol inside another one) and
  \<open>gen_proto_abbrev\<close> (the keywords \<open>tcp\<close>, \<open>ip\<close>, \<open>isis\<close>, ...).
\<close>

section \<open>A protocol inside another\<close>

definition iso_proto :: "layout \<Rightarrow> int \<Rightarrow> nat gm" where
  "iso_proto L v =
     (if linktype L = DLT_FRELAY then gen_cmp L OR_LINK 2 SzH (word_of_int (push_bit 8 0x03 OR v))
      else if linktype L = DLT_C_HDLC then
        gbind (gen_linktype L (push_bit 8 LLCSAP_ISONS OR LLCSAP_ISONS)) (\<lambda>b0.
        gbind (gen_cmp L OR_NET_NOSNAP 1 SzB (word_of_int v)) (\<lambda>b1.
        gbind (gen_and b0 b1) (\<lambda>_. gret b1)))
      else
        gbind (gen_linktype L LLCSAP_ISONS) (\<lambda>b0.
        gbind (gen_cmp L OR_NET_NOSNAP 0 SzB (word_of_int v)) (\<lambda>b1.
        gbind (gen_and b0 b1) (\<lambda>_. gret b1))))"

function gen_proto :: "layout \<Rightarrow> int \<Rightarrow> int \<Rightarrow> int \<Rightarrow> nat gm" where
  "gen_proto L v proto dir =
     (if dir \<noteq> Q_DEFAULT then gfail BpfError
      else if proto = Q_DEFAULT then
        gbind (gen_proto L v Q_IP dir) (\<lambda>b0.
        gbind (gen_proto L v Q_IPV6 dir) (\<lambda>b1.
        gbind (gen_or b0 b1) (\<lambda>_. gret b1)))
      else if proto = Q_IP then
        gbind (gen_linktype L ETHERTYPE_IP) (\<lambda>b0.
        gbind (gen_cmp L OR_NET 9 SzB (word_of_int v)) (\<lambda>b1.
        gbind (gen_and b0 b1) (\<lambda>_. gret b1)))
      else if proto = Q_ISO then iso_proto L v
      else if proto = Q_ISIS then
        gbind (gen_proto L ISO10589_ISIS Q_ISO Q_DEFAULT) (\<lambda>b0.
        gbind (gen_cmp L OR_NET_NOSNAP 4 SzB (word_of_int v)) (\<lambda>b1.
        gbind (gen_and b0 b1) (\<lambda>_. gret b1)))
      else if proto \<in> {Q_ARP, Q_RARP, Q_ATALK, Q_DECNET, Q_SCA, Q_LAT, Q_MOPRC, Q_MOPDL} then gfail BpfError
      else if proto = Q_LINK then gen_linktype L v
      else if proto \<in> {Q_UDP, Q_TCP, Q_SCTP, Q_ICMP, Q_IGMP, Q_IGRP, Q_PIM, Q_VRRP} then gfail BpfError
      else if proto = Q_IPV6 then
        gbind (gen_linktype L ETHERTYPE_IPV6) (\<lambda>b0.
        gbind (gen_cmp L OR_NET 6 SzB (word_of_int v)) (\<lambda>b1.
        gbind (gen_and b0 b1) (\<lambda>_. gret b1)))
      else if proto \<in> {Q_ICMPV6, Q_AH, Q_ESP, Q_STP, Q_IPX, Q_NETBEUI, Q_RADIO} then gfail BpfError
      else gfail GenAbort)"
  by pat_completeness auto
termination by (relation "measure (\<lambda>(L, v, proto, d). if proto \<in> {Q_DEFAULT, Q_ISIS} then 1 else 0)") auto

declare gen_proto.simps [simp del]

section \<open>Protocol keywords\<close>

abbreviation (input) ETHERTYPE_MOPDL :: int where "ETHERTYPE_MOPDL \<equiv> 0x6001"
abbreviation (input) ETHERTYPE_MOPRC :: int where "ETHERTYPE_MOPRC \<equiv> 0x6002"
abbreviation (input) ETHERTYPE_LAT :: int where "ETHERTYPE_LAT \<equiv> 0x6004"
abbreviation (input) ETHERTYPE_SCA :: int where "ETHERTYPE_SCA \<equiv> 0x6007"

abbreviation (input) IPPROTO_ICMP :: int where "IPPROTO_ICMP \<equiv> 1"
abbreviation (input) IPPROTO_IGMP :: int where "IPPROTO_IGMP \<equiv> 2"
abbreviation (input) IPPROTO_IGRP :: int where "IPPROTO_IGRP \<equiv> 9"
abbreviation (input) IPPROTO_ESP :: int where "IPPROTO_ESP \<equiv> 50"
abbreviation (input) IPPROTO_AH :: int where "IPPROTO_AH \<equiv> 51"
abbreviation (input) IPPROTO_ICMPV6 :: int where "IPPROTO_ICMPV6 \<equiv> 58"
abbreviation (input) IPPROTO_PIM :: int where "IPPROTO_PIM \<equiv> 103"
abbreviation (input) IPPROTO_VRRP :: int where "IPPROTO_VRRP \<equiv> 112"

abbreviation (input) ISIS_L1_LAN_IIH :: int where "ISIS_L1_LAN_IIH \<equiv> 15"
abbreviation (input) ISIS_L2_LAN_IIH :: int where "ISIS_L2_LAN_IIH \<equiv> 16"
abbreviation (input) ISIS_PTP_IIH :: int where "ISIS_PTP_IIH \<equiv> 17"
abbreviation (input) ISIS_L1_LSP :: int where "ISIS_L1_LSP \<equiv> 18"
abbreviation (input) ISIS_L2_LSP :: int where "ISIS_L2_LSP \<equiv> 20"
abbreviation (input) ISIS_L1_CSNP :: int where "ISIS_L1_CSNP \<equiv> 24"
abbreviation (input) ISIS_L2_CSNP :: int where "ISIS_L2_CSNP \<equiv> 25"
abbreviation (input) ISIS_L1_PSNP :: int where "ISIS_L1_PSNP \<equiv> 26"
abbreviation (input) ISIS_L2_PSNP :: int where "ISIS_L2_PSNP \<equiv> 27"

text \<open>The keywords for a protocol over IPv4 and, for some, IPv6; the link-layer types.\<close>

definition abbrev_ip :: "layout \<Rightarrow> int \<Rightarrow> nat gm" where
  "abbrev_ip L v = gen_proto L v Q_IP Q_DEFAULT"

definition abbrev_ip_ip6 :: "layout \<Rightarrow> int \<Rightarrow> nat gm" where
  "abbrev_ip_ip6 L v =
     gbind (gen_proto L v Q_IP Q_DEFAULT) (\<lambda>b1.
     gbind (gen_proto L v Q_IPV6 Q_DEFAULT) (\<lambda>b0.
     gbind (gen_or b0 b1) (\<lambda>_. gret b1)))"

definition proto_abbrev_1 :: "layout \<Rightarrow> int \<Rightarrow> nat gm option" where
  "proto_abbrev_1 L proto =
     (if proto = Q_SCTP then Some (abbrev_ip_ip6 L IPPROTO_SCTP)
      else if proto = Q_TCP then Some (abbrev_ip_ip6 L IPPROTO_TCP)
      else if proto = Q_UDP then Some (abbrev_ip_ip6 L IPPROTO_UDP)
      else if proto = Q_ICMP then Some (abbrev_ip L IPPROTO_ICMP)
      else if proto = Q_IGMP then Some (abbrev_ip L IPPROTO_IGMP)
      else if proto = Q_IGRP then Some (abbrev_ip L IPPROTO_IGRP)
      else if proto = Q_PIM then Some (abbrev_ip_ip6 L IPPROTO_PIM)
      else if proto = Q_VRRP then Some (abbrev_ip L IPPROTO_VRRP)
      else if proto = Q_IP then Some (gen_linktype L ETHERTYPE_IP)
      else if proto = Q_ARP then Some (gen_linktype L ETHERTYPE_ARP)
      else if proto = Q_RARP then Some (gen_linktype L ETHERTYPE_REVARP)
      else if proto = Q_LINK then Some (gfail BpfError)
      else if proto = Q_ATALK then Some (gen_linktype L ETHERTYPE_ATALK)
      else if proto = Q_AARP then Some (gen_linktype L ETHERTYPE_AARP)
      else if proto = Q_DECNET then Some (gen_linktype L ETHERTYPE_DN)
      else if proto = Q_SCA then Some (gen_linktype L ETHERTYPE_SCA)
      else if proto = Q_LAT then Some (gen_linktype L ETHERTYPE_LAT)
      else if proto = Q_MOPDL then Some (gen_linktype L ETHERTYPE_MOPDL)
      else if proto = Q_MOPRC then Some (gen_linktype L ETHERTYPE_MOPRC)
      else if proto = Q_IPV6 then Some (gen_linktype L ETHERTYPE_IPV6)
      else if proto = Q_ICMPV6 then Some (gen_proto L IPPROTO_ICMPV6 Q_IPV6 Q_DEFAULT)
      else if proto = Q_AH then Some (abbrev_ip_ip6 L IPPROTO_AH)
      else if proto = Q_ESP then Some (abbrev_ip_ip6 L IPPROTO_ESP)
      else if proto = Q_ISO then Some (gen_linktype L LLCSAP_ISONS)
      else if proto = Q_ESIS then Some (gen_proto L ISO9542_ESIS Q_ISO Q_DEFAULT)
      else if proto = Q_ISIS then Some (gen_proto L ISO10589_ISIS Q_ISO Q_DEFAULT)
      else None)"

text \<open>Several IS-IS packet types: each is or-ed to those before it.\<close>

fun isis_more :: "layout \<Rightarrow> nat \<Rightarrow> int list \<Rightarrow> nat gm" where
  "isis_more L b1 [] = gret b1"
| "isis_more L b1 (t # ts) =
     gbind (gen_proto L t Q_ISIS Q_DEFAULT) (\<lambda>b0. gbind (gen_or b0 b1) (\<lambda>_. isis_more L b1 ts))"

definition isis_types :: "layout \<Rightarrow> int \<Rightarrow> int \<Rightarrow> int list \<Rightarrow> nat gm" where
  "isis_types L t0 t1 ts =
     gbind (gen_proto L t0 Q_ISIS Q_DEFAULT) (\<lambda>b0.
     gbind (gen_proto L t1 Q_ISIS Q_DEFAULT) (\<lambda>b1.
     gbind (gen_or b0 b1) (\<lambda>_. isis_more L b1 ts)))"

definition proto_abbrev_2 :: "layout \<Rightarrow> int \<Rightarrow> nat gm option" where
  "proto_abbrev_2 L proto =
     (if proto = Q_ISIS_L1 then
        Some (isis_types L ISIS_L1_LAN_IIH ISIS_PTP_IIH [ISIS_L1_LSP, ISIS_L1_CSNP, ISIS_L1_PSNP])
      else if proto = Q_ISIS_L2 then
        Some (isis_types L ISIS_L2_LAN_IIH ISIS_PTP_IIH [ISIS_L2_LSP, ISIS_L2_CSNP, ISIS_L2_PSNP])
      else if proto = Q_ISIS_IIH then Some (isis_types L ISIS_L1_LAN_IIH ISIS_L2_LAN_IIH [ISIS_PTP_IIH])
      else if proto = Q_ISIS_LSP then Some (isis_types L ISIS_L1_LSP ISIS_L2_LSP [])
      else if proto = Q_ISIS_SNP then
        Some (isis_types L ISIS_L1_CSNP ISIS_L2_CSNP [ISIS_L1_PSNP, ISIS_L2_PSNP])
      else if proto = Q_ISIS_CSNP then Some (isis_types L ISIS_L1_CSNP ISIS_L2_CSNP [])
      else if proto = Q_ISIS_PSNP then Some (isis_types L ISIS_L1_PSNP ISIS_L2_PSNP [])
      else if proto = Q_CLNP then Some (gen_proto L ISO8473_CLNP Q_ISO Q_DEFAULT)
      else if proto = Q_STP then Some (gen_linktype L LLCSAP_8021D)
      else if proto = Q_IPX then Some (gen_linktype L LLCSAP_IPX)
      else if proto = Q_NETBEUI then Some (gen_linktype L LLCSAP_NETBEUI)
      else if proto = Q_RADIO then Some (gfail BpfError)
      else None)"

definition gen_proto_abbrev :: "layout \<Rightarrow> int \<Rightarrow> nat gm" where
  "gen_proto_abbrev L proto =
     (case proto_abbrev_1 L proto of Some m \<Rightarrow> m | None \<Rightarrow>
     (case proto_abbrev_2 L proto of Some m \<Rightarrow> m | None \<Rightarrow> gfail GenAbort))"

section \<open>What they decide\<close>

text \<open>A test of a byte under a link-layer type.\<close>

definition under :: "layout \<Rightarrow> int \<Rightarrow> offrel \<Rightarrow> u32 \<Rightarrow> int \<Rightarrow> meaning" where
  "under L ethertype rel off v =
     rbind (linktype_meaning L ethertype) (\<lambda>P. Inr (p_and P (is_eq L rel off SzB 0xffffffff (word_of_int v))))"

definition iso_meaning :: "layout \<Rightarrow> int \<Rightarrow> meaning" where
  "iso_meaning L v =
     (if linktype L = DLT_FRELAY then Inr (link_is L 2 SzH (word_of_int (push_bit 8 0x03 OR v)))
      else if linktype L = DLT_C_HDLC then under L (push_bit 8 LLCSAP_ISONS OR LLCSAP_ISONS) OR_NET_NOSNAP 1 v
      else under L LLCSAP_ISONS OR_NET_NOSNAP 0 v)"

lemma gives_iso: "gives (iso_proto L v) (iso_meaning L v)"
  unfolding iso_proto_def iso_meaning_def under_def by (rule tri_intros)+

definition isis_meaning :: "layout \<Rightarrow> int \<Rightarrow> meaning" where
  "isis_meaning L v =
     rbind (iso_meaning L ISO10589_ISIS) (\<lambda>P. Inr (p_and P (is_eq L OR_NET_NOSNAP 4 SzB 0xffffffff (word_of_int v))))"

definition ip_proto_meaning :: "layout \<Rightarrow> int \<Rightarrow> meaning" where
  "ip_proto_meaning L v = under L ETHERTYPE_IP OR_NET 9 v"

definition ip6_proto_meaning :: "layout \<Rightarrow> int \<Rightarrow> meaning" where
  "ip6_proto_meaning L v = under L ETHERTYPE_IPV6 OR_NET 6 v"

lemma gives_proto_ip: "gives (gen_proto L v Q_IP Q_DEFAULT) (ip_proto_meaning L v)"
  and gives_proto_ip6: "gives (gen_proto L v Q_IPV6 Q_DEFAULT) (ip6_proto_meaning L v)"
  unfolding ip_proto_meaning_def ip6_proto_meaning_def under_def
  by (subst gen_proto.simps, simp, (rule tri_intros)+)+

lemma gives_proto_iso: "gives (gen_proto L v Q_ISO Q_DEFAULT) (iso_meaning L v)"
  by (subst gen_proto.simps) (simp add: gives_iso)

lemma gives_proto_isis: "gives (gen_proto L v Q_ISIS Q_DEFAULT) (isis_meaning L v)"
  unfolding isis_meaning_def
  by (subst gen_proto.simps, simp, (rule gives_proto_iso [THEN tri_call] tri_intros)+)

lemmas proto_gives = gives_proto_ip gives_proto_ip6 gives_proto_iso gives_proto_isis
lemmas [tri_intros] = proto_gives proto_gives [THEN tri_call]

lemma gives_proto_default: "gives (gen_proto L v Q_DEFAULT Q_DEFAULT)
    (rbind (ip_proto_meaning L v) (\<lambda>P. rbind (ip6_proto_meaning L v) (\<lambda>Q. Inr (p_or P Q))))"
  by (subst gen_proto.simps, simp, (rule tri_intros)+)

lemma gives_proto_dir: "dir \<noteq> Q_DEFAULT \<Longrightarrow> gives (gen_proto L v proto dir) (Inl BpfError)"
  by (subst gen_proto.simps) (simp add: tri_fail)

definition gen_proto_meaning :: "layout \<Rightarrow> int \<Rightarrow> int \<Rightarrow> int \<Rightarrow> meaning" where
  "gen_proto_meaning L v proto dir =
     (if dir \<noteq> Q_DEFAULT then Inl BpfError
      else if proto = Q_DEFAULT then
        rbind (ip_proto_meaning L v) (\<lambda>P. rbind (ip6_proto_meaning L v) (\<lambda>Q. Inr (p_or P Q)))
      else if proto = Q_IP then ip_proto_meaning L v
      else if proto = Q_ISO then iso_meaning L v
      else if proto = Q_ISIS then isis_meaning L v
      else if proto \<in> {Q_ARP, Q_RARP, Q_ATALK, Q_DECNET, Q_SCA, Q_LAT, Q_MOPRC, Q_MOPDL} then Inl BpfError
      else if proto = Q_LINK then linktype_meaning L v
      else if proto \<in> {Q_UDP, Q_TCP, Q_SCTP, Q_ICMP, Q_IGMP, Q_IGRP, Q_PIM, Q_VRRP} then Inl BpfError
      else if proto = Q_IPV6 then ip6_proto_meaning L v
      else if proto \<in> {Q_ICMPV6, Q_AH, Q_ESP, Q_STP, Q_IPX, Q_NETBEUI, Q_RADIO} then Inl BpfError
      else Inl GenAbort)"

lemma gives_proto: "gives (gen_proto L v proto dir) (gen_proto_meaning L v proto dir)"
proof (cases "dir = Q_DEFAULT")
  case True
  consider "proto = Q_DEFAULT" | "proto = Q_IP" | "proto = Q_ISO" | "proto = Q_ISIS" | "proto = Q_IPV6"
    | "proto \<notin> {Q_DEFAULT, Q_IP, Q_ISO, Q_ISIS, Q_IPV6}" by blast
  then show ?thesis
  proof cases
    case 6
    then show ?thesis
      unfolding gen_proto_meaning_def True
      by (subst gen_proto.simps) (auto intro!: tri_fail gives_linktype)
  qed (simp_all add: True gen_proto_meaning_def gives_proto_default proto_gives)
next
  case False
  then show ?thesis using gives_proto_dir [OF False] by (simp add: gen_proto_meaning_def)
qed

lemmas [tri_intros] = gives_proto gives_proto [THEN tri_call]

definition ip_ip6_meaning :: "layout \<Rightarrow> int \<Rightarrow> meaning" where
  "ip_ip6_meaning L v = rbind (ip_proto_meaning L v) (\<lambda>P. rbind (ip6_proto_meaning L v) (\<lambda>Q. Inr (p_or Q P)))"

lemma gives_abbrev_ip: "gives (abbrev_ip L v) (ip_proto_meaning L v)"
  "gives (abbrev_ip_ip6 L v) (ip_ip6_meaning L v)"
  unfolding abbrev_ip_def abbrev_ip_ip6_def ip_ip6_meaning_def by (rule tri_intros)+

fun isis_or :: "layout \<Rightarrow> pred \<Rightarrow> int list \<Rightarrow> meaning" where
  "isis_or L P [] = Inr P"
| "isis_or L P (t # ts) = rbind (isis_meaning L t) (\<lambda>Q. isis_or L (p_or Q P) ts)"

definition isis_types_meaning :: "layout \<Rightarrow> int \<Rightarrow> int \<Rightarrow> int list \<Rightarrow> meaning" where
  "isis_types_meaning L t0 t1 ts =
     rbind (isis_meaning L t0) (\<lambda>P. rbind (isis_meaning L t1) (\<lambda>Q. isis_or L (p_or P Q) ts))"

lemma tri_isis_more: "tri [(b, P)] (isis_more L b ts) (isis_or L P ts)"
proof (induction ts arbitrary: P)
  case Nil
  show ?case by (simp add: tri_ret)
next
  case (Cons t ts)
  show ?case unfolding isis_more.simps isis_or.simps by (rule tri_intros Cons.IH)+
qed

lemma gives_isis_types: "gives (isis_types L t0 t1 ts) (isis_types_meaning L t0 t1 ts)"
  unfolding isis_types_def isis_types_meaning_def by (rule tri_intros tri_isis_more)+

definition abbrev_meaning_1 :: "layout \<Rightarrow> int \<Rightarrow> meaning option" where
  "abbrev_meaning_1 L proto =
     (if proto = Q_SCTP then Some (ip_ip6_meaning L IPPROTO_SCTP)
      else if proto = Q_TCP then Some (ip_ip6_meaning L IPPROTO_TCP)
      else if proto = Q_UDP then Some (ip_ip6_meaning L IPPROTO_UDP)
      else if proto = Q_ICMP then Some (ip_proto_meaning L IPPROTO_ICMP)
      else if proto = Q_IGMP then Some (ip_proto_meaning L IPPROTO_IGMP)
      else if proto = Q_IGRP then Some (ip_proto_meaning L IPPROTO_IGRP)
      else if proto = Q_PIM then Some (ip_ip6_meaning L IPPROTO_PIM)
      else if proto = Q_VRRP then Some (ip_proto_meaning L IPPROTO_VRRP)
      else if proto = Q_IP then Some (linktype_meaning L ETHERTYPE_IP)
      else if proto = Q_ARP then Some (linktype_meaning L ETHERTYPE_ARP)
      else if proto = Q_RARP then Some (linktype_meaning L ETHERTYPE_REVARP)
      else if proto = Q_LINK then Some (Inl BpfError)
      else if proto = Q_ATALK then Some (linktype_meaning L ETHERTYPE_ATALK)
      else if proto = Q_AARP then Some (linktype_meaning L ETHERTYPE_AARP)
      else if proto = Q_DECNET then Some (linktype_meaning L ETHERTYPE_DN)
      else if proto = Q_SCA then Some (linktype_meaning L ETHERTYPE_SCA)
      else if proto = Q_LAT then Some (linktype_meaning L ETHERTYPE_LAT)
      else if proto = Q_MOPDL then Some (linktype_meaning L ETHERTYPE_MOPDL)
      else if proto = Q_MOPRC then Some (linktype_meaning L ETHERTYPE_MOPRC)
      else if proto = Q_IPV6 then Some (linktype_meaning L ETHERTYPE_IPV6)
      else if proto = Q_ICMPV6 then Some (ip6_proto_meaning L IPPROTO_ICMPV6)
      else if proto = Q_AH then Some (ip_ip6_meaning L IPPROTO_AH)
      else if proto = Q_ESP then Some (ip_ip6_meaning L IPPROTO_ESP)
      else if proto = Q_ISO then Some (linktype_meaning L LLCSAP_ISONS)
      else if proto = Q_ESIS then Some (iso_meaning L ISO9542_ESIS)
      else if proto = Q_ISIS then Some (iso_meaning L ISO10589_ISIS)
      else None)"

definition abbrev_meaning_2 :: "layout \<Rightarrow> int \<Rightarrow> meaning option" where
  "abbrev_meaning_2 L proto =
     (if proto = Q_ISIS_L1 then
        Some (isis_types_meaning L ISIS_L1_LAN_IIH ISIS_PTP_IIH [ISIS_L1_LSP, ISIS_L1_CSNP, ISIS_L1_PSNP])
      else if proto = Q_ISIS_L2 then
        Some (isis_types_meaning L ISIS_L2_LAN_IIH ISIS_PTP_IIH [ISIS_L2_LSP, ISIS_L2_CSNP, ISIS_L2_PSNP])
      else if proto = Q_ISIS_IIH then Some (isis_types_meaning L ISIS_L1_LAN_IIH ISIS_L2_LAN_IIH [ISIS_PTP_IIH])
      else if proto = Q_ISIS_LSP then Some (isis_types_meaning L ISIS_L1_LSP ISIS_L2_LSP [])
      else if proto = Q_ISIS_SNP then
        Some (isis_types_meaning L ISIS_L1_CSNP ISIS_L2_CSNP [ISIS_L1_PSNP, ISIS_L2_PSNP])
      else if proto = Q_ISIS_CSNP then Some (isis_types_meaning L ISIS_L1_CSNP ISIS_L2_CSNP [])
      else if proto = Q_ISIS_PSNP then Some (isis_types_meaning L ISIS_L1_PSNP ISIS_L2_PSNP [])
      else if proto = Q_CLNP then Some (iso_meaning L ISO8473_CLNP)
      else if proto = Q_STP then Some (linktype_meaning L LLCSAP_8021D)
      else if proto = Q_IPX then Some (linktype_meaning L LLCSAP_IPX)
      else if proto = Q_NETBEUI then Some (linktype_meaning L LLCSAP_NETBEUI)
      else if proto = Q_RADIO then Some (Inl BpfError)
      else None)"

definition abbrev_meaning :: "layout \<Rightarrow> int \<Rightarrow> meaning" where
  "abbrev_meaning L proto =
     (case abbrev_meaning_1 L proto of Some r \<Rightarrow> r | None \<Rightarrow>
     (case abbrev_meaning_2 L proto of Some r \<Rightarrow> r | None \<Rightarrow> Inl GenAbort))"

lemma gives_abbrev_parts:
  "rel_option gives (proto_abbrev_1 L proto) (abbrev_meaning_1 L proto)"
  "rel_option gives (proto_abbrev_2 L proto) (abbrev_meaning_2 L proto)"
  unfolding proto_abbrev_1_def abbrev_meaning_1_def proto_abbrev_2_def abbrev_meaning_2_def
  by (rule opt_if opt_Some option.rel_intros gives_abbrev_ip gives_isis_types tri_intros)+

lemma gives_proto_abbrev: "gives (gen_proto_abbrev L proto) (abbrev_meaning L proto)"
  unfolding gen_proto_abbrev_def abbrev_meaning_def
  by (rule gives_case gives_abbrev_parts tri_intros)+

lemmas [tri_intros] = gives_proto_abbrev gives_proto_abbrev [THEN tri_call]

end
