(* ===== verification/Gen_Misc.thy ===== *)
theory Gen_Misc
  imports Gen_Proto
begin

text \<open>
  The primitives of \<^verbatim>\<open>gencode.c\<close> that test the packet itself: its length (\<open>gen_greater\<close>,
  \<open>gen_less\<close>), a byte (\<open>gen_byteop\<close>), broadcast and multicast destinations, and link-layer addresses
  given as such (\<open>gen_ecode\<close>, \<open>gen_acode\<close>).
\<close>

section \<open>Length\<close>

definition gen_len :: "jmp_op \<Rightarrow> int \<Rightarrow> nat gm" where
  "gen_len jmp n =
     gbind (new_block (JMP jmp)) (\<lambda>b.
     gbind (set_stmts b [new_stmt (BPF_LD OR BPF_LEN) 0]) (\<lambda>_.
     gbind (set_k b (word_of_int n)) (\<lambda>_. gret b)))"

definition gen_greater :: "int \<Rightarrow> nat gm" where
  "gen_greater n = gen_len JGE n"

definition gen_less :: "int \<Rightarrow> nat gm" where
  "gen_less n = gbind (gen_len JGT n) (\<lambda>b. gbind (gen_not b) (\<lambda>_. gret b))"

lemma decode_len [simp]: "decode (BPF_LD OR BPF_LEN) = Some LdLen"
  by (simp add: decode_Some_iff)

lemma computes_len: "computes [new_stmt (BPF_LD OR BPF_LEN) k] (\<lambda>pk. Next (pk_wirelen pk))"
proof -
  have "exec_stmt pk (new_stmt (BPF_LD OR BPF_LEN) k) r = Next (r\<lparr>rA := pk_wirelen pk\<rparr>)" for pk r
    by (subst exec_new_stmt [OF decode_len]) simp_all
  moreover have "plain_stmt (new_stmt (BPF_LD OR BPF_LEN) k)"
    by (rule wf_new_stmt [OF decode_len]) simp_all
  ultimately show ?thesis unfolding computes_def by (simp only: gen_exec)
qed

definition len_pred :: "(u32 \<Rightarrow> u32 \<Rightarrow> bool) \<Rightarrow> int \<Rightarrow> pred" where
  "len_pred R n = (\<lambda>pk. Next (R (pk_wirelen pk) (word_of_int n)))"

lemma makes_len: "makes (gen_len j n) (\<lambda>pk. Next (jump_taken j (pk_wirelen pk) (word_of_int n)))"
proof -
  have "makes (gen_len j n) (test_pred (\<lambda>pk. Next (pk_wirelen pk)) j (word_of_int n))"
    unfolding gen_len_def by (rule makes_test [OF computes_len test_block_runs(1)])
  then show ?thesis by (simp add: test_pred_def)
qed

lemma makes_greater: "makes (gen_greater n) (len_pred (\<ge>) n)"
  using makes_len [of JGE n] unfolding gen_greater_def len_pred_def by simp

lemma makes_less: "makes (gen_less n) (len_pred (\<le>) n)"
  using makes_not_last [OF makes_len [of JGT n]] unfolding gen_less_def len_pred_def p_not_def
  by (simp add: not_less)

section \<open>A byte\<close>

text \<open>\<open>op\<close> is a character.\<close>

definition gen_byteop :: "layout \<Rightarrow> char \<Rightarrow> int \<Rightarrow> int \<Rightarrow> nat gm" where
  "gen_byteop L op idx val =
     (if op = CHR ''='' then gen_cmp L OR_LINK (word_of_int idx) SzB (word_of_int val)
      else if op = CHR ''<'' then gen_cmp_lt L OR_LINK (word_of_int idx) SzB (word_of_int val)
      else if op = CHR ''>'' then gen_cmp_gt L OR_LINK (word_of_int idx) SzB (word_of_int val)
      else if op \<in> {CHR ''|'', CHR ''&''} then
        (let s = new_stmt (if op = CHR ''|'' then BPF_ALU OR BPF_OR OR BPF_K else BPF_ALU OR BPF_AND OR BPF_K)
                   (word_of_int val)
         in gbind (new_block (JMP JEQ)) (\<lambda>b.
            gbind (set_stmts b [s]) (\<lambda>_.
            gbind (gen_not b) (\<lambda>_. gret b))))
      else gfail GenAbort)"

lemma gives_byteop:
  "gives (gen_byteop L CHR ''='' idx val) (Inr (is_eq L OR_LINK (word_of_int idx) SzB 0xffffffff (word_of_int val)))"
  "gives (gen_byteop L CHR ''<'' idx val) (Inr (is_rel (<) L OR_LINK (word_of_int idx) SzB (word_of_int val)))"
  "gives (gen_byteop L CHR ''>'' idx val) (Inr (is_rel (>) L OR_LINK (word_of_int idx) SzB (word_of_int val)))"
  unfolding gen_byteop_def by (simp, rule tri_intros)+

section \<open>Broadcast and multicast\<close>

definition abroadcast :: "u8 list" where "abroadcast = [0x0]"
definition ebroadcast :: "u8 list" where "ebroadcast = [0xff, 0xff, 0xff, 0xff, 0xff, 0xff]"

text \<open>A test on an Ethernet frame inside ATM LANE, which must not begin with an LE Control marker.\<close>

definition lane_frame :: "layout \<Rightarrow> nat gm \<Rightarrow> nat gm" where
  "lane_frame L m =
     gbind (gen_cmp L OR_LINK SUNATM_PKT_BEGIN_POS SzH 0xFF00) (\<lambda>b1.
     gbind (gen_not b1) (\<lambda>_.
     gbind m (\<lambda>b0.
     gbind (gen_and b1 b0) (\<lambda>_. gret b0))))"

definition lane_meaning :: "layout \<Rightarrow> meaning \<Rightarrow> meaning" where
  "lane_meaning L r = rbind r (\<lambda>P. Inr (p_and (p_not (link_is L SUNATM_PKT_BEGIN_POS SzH 0xFF00)) P))"

lemma tri_lane_frame: "gives m r \<Longrightarrow> gives (lane_frame L m) (lane_meaning L r)"
  unfolding lane_frame_def lane_meaning_def by (rule tri_intros tri_call | assumption)+

definition gen_broadcast :: "layout \<Rightarrow> u32 \<Rightarrow> int \<Rightarrow> nat gm" where
  "gen_broadcast L netmask proto =
     (if proto \<in> {Q_DEFAULT, Q_LINK} then
        (if linktype L \<in> {DLT_ARCNET, DLT_ARCNET_LINUX} then gen_ahostop L abroadcast Q_DST
         else if linktype L = DLT_EN10MB then gen_ehostop L ebroadcast Q_DST
         else if linktype L = DLT_FDDI then gen_fhostop L ebroadcast Q_DST
         else if linktype L = DLT_IEEE802 then gen_thostop L ebroadcast Q_DST
         else if linktype L \<in> {DLT_IEEE802_11, DLT_PRISM_HEADER, DLT_IEEE802_11_RADIO_AVS, DLT_IEEE802_11_RADIO, DLT_PPI}
           then gfail GenOutside
         else if linktype L = DLT_IP_OVER_FC then gen_ipfchostop L ebroadcast Q_DST
         else if linktype L = DLT_SUNATM then
           (if is_lane L then lane_frame L (gen_ehostop L ebroadcast Q_DST) else gfail BpfError)
         else gfail BpfError)
      else if proto = Q_IP then
        (if netmask = 0xffffffff then gfail BpfError
         else
           gbind (gen_linktype L ETHERTYPE_IP) (\<lambda>b0.
           gbind (gen_mcmp L OR_NET 16 SzW 0 (NOT netmask)) (\<lambda>b1.
           gbind (gen_mcmp L OR_NET 16 SzW (NOT 0 AND NOT netmask) (NOT netmask)) (\<lambda>b2.
           gbind (gen_or b1 b2) (\<lambda>_.
           gbind (gen_and b0 b2) (\<lambda>_. gret b2))))))
      else gfail BpfError)"

definition gen_mac_multicast :: "layout \<Rightarrow> u32 \<Rightarrow> nat gm" where
  "gen_mac_multicast L offset =
     gbind (new_block (JMP JSET)) (\<lambda>b0.
     gbind (set_k b0 1) (\<lambda>_.
     gbind (set_stmts b0 (gen_load_a L OR_LINK offset SzB)) (\<lambda>_. gret b0)))"

definition gen_multicast :: "layout \<Rightarrow> int \<Rightarrow> nat gm" where
  "gen_multicast L proto =
     (if proto \<in> {Q_DEFAULT, Q_LINK} then
        (if linktype L \<in> {DLT_ARCNET, DLT_ARCNET_LINUX} then gen_ahostop L abroadcast Q_DST
         else if linktype L = DLT_EN10MB then gen_mac_multicast L 0
         else if linktype L = DLT_FDDI then gen_mac_multicast L 1
         else if linktype L = DLT_IEEE802 then gen_mac_multicast L 2
         else if linktype L \<in> {DLT_IEEE802_11, DLT_PRISM_HEADER, DLT_IEEE802_11_RADIO_AVS, DLT_IEEE802_11_RADIO, DLT_PPI}
           then gfail GenOutside
         else if linktype L = DLT_IP_OVER_FC then gen_mac_multicast L 2
         else if linktype L = DLT_SUNATM then
           (if is_lane L then lane_frame L (gen_mac_multicast L (off_mac L)) else gfail BpfError)
         else gfail BpfError)
      else if proto = Q_IP then
        gbind (gen_linktype L ETHERTYPE_IP) (\<lambda>b0.
        gbind (gen_cmp_ge L OR_NET 16 SzB 224) (\<lambda>b1.
        gbind (gen_and b0 b1) (\<lambda>_. gret b1)))
      else if proto = Q_IPV6 then
        gbind (gen_linktype L ETHERTYPE_IPV6) (\<lambda>b0.
        gbind (gen_cmp L OR_NET 24 SzB 255) (\<lambda>b1.
        gbind (gen_and b0 b1) (\<lambda>_. gret b1)))
      else gfail BpfError)"

definition mac_dst_meaning :: "layout \<Rightarrow> u32 \<Rightarrow> meaning" where
  "mac_dst_meaning L off = Inr (bcmp_pred L OR_LINK off 6 ebroadcast)"

definition broadcast_meaning :: "layout \<Rightarrow> u32 \<Rightarrow> int \<Rightarrow> meaning" where
  "broadcast_meaning L netmask proto =
     (if proto \<in> {Q_DEFAULT, Q_LINK} then
        (if linktype L \<in> {DLT_ARCNET, DLT_ARCNET_LINUX} then Inr (bcmp_pred L OR_LINK 1 1 abroadcast)
         else if linktype L = DLT_EN10MB then mac_dst_meaning L (off_mac L + 0)
         else if linktype L = DLT_FDDI then mac_dst_meaning L (0 + 1)
         else if linktype L = DLT_IEEE802 then mac_dst_meaning L 2
         else if linktype L \<in> {DLT_IEEE802_11, DLT_PRISM_HEADER, DLT_IEEE802_11_RADIO_AVS, DLT_IEEE802_11_RADIO, DLT_PPI}
           then Inl GenOutside
         else if linktype L = DLT_IP_OVER_FC then mac_dst_meaning L 2
         else if linktype L = DLT_SUNATM then
           (if is_lane L then lane_meaning L (mac_dst_meaning L (off_mac L + 0)) else Inl BpfError)
         else Inl BpfError)
      else if proto = Q_IP then
        (if netmask = 0xffffffff then Inl BpfError
         else rbind (linktype_meaning L ETHERTYPE_IP) (\<lambda>P. Inr (p_and P
           (p_or (is_eq L OR_NET 16 SzW (NOT netmask) 0)
              (is_eq L OR_NET 16 SzW (NOT netmask) (NOT 0 AND NOT netmask))))))
      else Inl BpfError)"

lemma gives_dst:
  "gives (gen_ahostop L a Q_DST) (Inr (bcmp_pred L OR_LINK 1 1 a))"
  "gives (gen_ehostop L ebroadcast Q_DST) (mac_dst_meaning L (off_mac L + 0))"
  "gives (gen_fhostop L ebroadcast Q_DST) (mac_dst_meaning L (0 + 1))"
  "gives (gen_thostop L ebroadcast Q_DST) (mac_dst_meaning L 2)"
  "gives (gen_ipfchostop L ebroadcast Q_DST) (mac_dst_meaning L 2)"
  using ah.gives_op [of L a Q_DST] eh.gives_op [of L ebroadcast Q_DST] fh.gives_op [of L ebroadcast Q_DST]
    th.gives_op [of L ebroadcast Q_DST] ipfc.gives_op [of L ebroadcast Q_DST]
  by (simp_all add: dir_meaning_def mac_dst_meaning_def)

lemma gives_broadcast: "gives (gen_broadcast L netmask proto) (broadcast_meaning L netmask proto)"
  unfolding gen_broadcast_def broadcast_meaning_def by (rule gives_dst tri_lane_frame tri_intros)+

definition group_bit :: "layout \<Rightarrow> u32 \<Rightarrow> pred" where
  "group_bit L off = test_pred (field L OR_LINK off SzB) JSET 1"

lemma gives_mac_multicast: "gives (gen_mac_multicast L off) (Inr (group_bit L off))"
  unfolding gen_mac_multicast_def group_bit_def
  by (rule tri_tail, rule makes_test [OF computes_load test_block_runs(2)])

definition multicast_meaning :: "layout \<Rightarrow> int \<Rightarrow> meaning" where
  "multicast_meaning L proto =
     (if proto \<in> {Q_DEFAULT, Q_LINK} then
        (if linktype L \<in> {DLT_ARCNET, DLT_ARCNET_LINUX} then Inr (bcmp_pred L OR_LINK 1 1 abroadcast)
         else if linktype L = DLT_EN10MB then Inr (group_bit L 0)
         else if linktype L = DLT_FDDI then Inr (group_bit L 1)
         else if linktype L = DLT_IEEE802 then Inr (group_bit L 2)
         else if linktype L \<in> {DLT_IEEE802_11, DLT_PRISM_HEADER, DLT_IEEE802_11_RADIO_AVS, DLT_IEEE802_11_RADIO, DLT_PPI}
           then Inl GenOutside
         else if linktype L = DLT_IP_OVER_FC then Inr (group_bit L 2)
         else if linktype L = DLT_SUNATM then
           (if is_lane L then lane_meaning L (Inr (group_bit L (off_mac L))) else Inl BpfError)
         else Inl BpfError)
      else if proto = Q_IP then
        rbind (linktype_meaning L ETHERTYPE_IP) (\<lambda>P. Inr (p_and P (is_rel (\<ge>) L OR_NET 16 SzB 224)))
      else if proto = Q_IPV6 then
        rbind (linktype_meaning L ETHERTYPE_IPV6) (\<lambda>P. Inr (p_and P (is_eq L OR_NET 24 SzB 0xffffffff 255)))
      else Inl BpfError)"

lemma gives_multicast: "gives (gen_multicast L proto) (multicast_meaning L proto)"
  unfolding gen_multicast_def multicast_meaning_def
  by (rule gives_dst gives_mac_multicast tri_lane_frame tri_intros)+

section \<open>Addresses\<close>

record qual =
  q_addr :: int
  q_proto :: int
  q_dir :: int

abbreviation (input) Q_HOST :: int where "Q_HOST \<equiv> 1"
abbreviation (input) Q_NET :: int where "Q_NET \<equiv> 2"
abbreviation (input) Q_PORT :: int where "Q_PORT \<equiv> 3"
abbreviation (input) Q_GATEWAY :: int where "Q_GATEWAY \<equiv> 4"
abbreviation (input) Q_PROTO :: int where "Q_PROTO \<equiv> 5"
abbreviation (input) Q_PROTOCHAIN :: int where "Q_PROTOCHAIN \<equiv> 6"
abbreviation (input) Q_PORTRANGE :: int where "Q_PORTRANGE \<equiv> 7"
abbreviation (input) Q_UNDEF :: int where "Q_UNDEF \<equiv> 255"

definition gen_ecode :: "layout \<Rightarrow> u8 list \<Rightarrow> qual \<Rightarrow> nat gm" where
  "gen_ecode L eaddr q =
     (if q_addr q \<in> {Q_HOST, Q_DEFAULT} \<and> q_proto q = Q_LINK then
        (if linktype L = DLT_EN10MB then gen_ehostop L eaddr (q_dir q)
         else if linktype L = DLT_FDDI then gen_fhostop L eaddr (q_dir q)
         else if linktype L = DLT_IEEE802 then gen_thostop L eaddr (q_dir q)
         else if linktype L \<in> {DLT_IEEE802_11, DLT_PRISM_HEADER, DLT_IEEE802_11_RADIO_AVS, DLT_IEEE802_11_RADIO, DLT_PPI}
           then gfail GenOutside
         else if linktype L = DLT_SUNATM then
           (if is_lane L then lane_frame L (gen_ehostop L eaddr (q_dir q)) else gfail BpfError)
         else if linktype L = DLT_IP_OVER_FC then gen_ipfchostop L eaddr (q_dir q)
         else gfail BpfError)
      else gfail BpfError)"

definition gen_acode :: "layout \<Rightarrow> u8 list \<Rightarrow> qual \<Rightarrow> nat gm" where
  "gen_acode L eaddr q =
     (if linktype L \<in> {DLT_ARCNET, DLT_ARCNET_LINUX} then
        (if q_addr q \<in> {Q_HOST, Q_DEFAULT} \<and> q_proto q = Q_LINK then gen_ahostop L eaddr (q_dir q)
         else gfail BpfError)
      else gfail BpfError)"

definition mac_dir :: "layout \<Rightarrow> u32 \<Rightarrow> u32 \<Rightarrow> nat \<Rightarrow> u8 list \<Rightarrow> int \<Rightarrow> meaning" where
  "mac_dir L s d n a dir = dir_meaning dir {} (Inr (bcmp_pred L OR_LINK s n a)) (Inr (bcmp_pred L OR_LINK d n a))"

definition ecode_meaning :: "layout \<Rightarrow> u8 list \<Rightarrow> qual \<Rightarrow> meaning" where
  "ecode_meaning L a q =
     (if q_addr q \<in> {Q_HOST, Q_DEFAULT} \<and> q_proto q = Q_LINK then
        (if linktype L = DLT_EN10MB then mac_dir L (off_mac L + 6) (off_mac L + 0) 6 a (q_dir q)
         else if linktype L = DLT_FDDI then mac_dir L (6 + 1) (0 + 1) 6 a (q_dir q)
         else if linktype L = DLT_IEEE802 then mac_dir L 8 2 6 a (q_dir q)
         else if linktype L \<in> {DLT_IEEE802_11, DLT_PRISM_HEADER, DLT_IEEE802_11_RADIO_AVS, DLT_IEEE802_11_RADIO, DLT_PPI}
           then Inl GenOutside
         else if linktype L = DLT_SUNATM then
           (if is_lane L then lane_meaning L (mac_dir L (off_mac L + 6) (off_mac L + 0) 6 a (q_dir q)) else Inl BpfError)
         else if linktype L = DLT_IP_OVER_FC then mac_dir L 10 2 6 a (q_dir q)
         else Inl BpfError)
      else Inl BpfError)"

lemma gives_ecode: "gives (gen_ecode L a q) (ecode_meaning L a q)"
  unfolding gen_ecode_def ecode_meaning_def mac_dir_def by (rule tri_lane_frame tri_intros)+

lemma gives_acode: "gives (gen_acode L a q)
    (if linktype L \<in> {DLT_ARCNET, DLT_ARCNET_LINUX} then
       (if q_addr q \<in> {Q_HOST, Q_DEFAULT} \<and> q_proto q = Q_LINK then mac_dir L 0 1 1 a (q_dir q) else Inl BpfError)
     else Inl BpfError)"
  unfolding gen_acode_def mac_dir_def by (rule tri_intros)+

end
