(* ===== verification/Gen_Encap.thy ===== *)
theory Gen_Encap
  imports Gen_Misc
begin

text \<open>
  The primitives of \<^verbatim>\<open>gencode.c\<close> for encapsulations and signalling: \<open>gen_vlan\<close>,
  \<open>gen_mpls\<close>, \<open>gen_pppoes\<close>, the ATM and the SS7 keywords. Some of them change the layout variables
  for every test generated after them; they return the layout with the block.
\<close>

section \<open>Generators that change the layout\<close>

text \<open>As \<open>gives\<close>, and the layout afterwards is \<open>L'\<close>.\<close>

definition gives_at :: "(nat \<times> layout) gm \<Rightarrow> meaning \<Rightarrow> layout \<Rightarrow> bool" where
  "gives_at m r L' \<longleftrightarrow> (\<exists>m0. gives m0 r \<and> m = gbind m0 (\<lambda>b. gret (b, L')))"

lemma gives_atI: "gives m r \<Longrightarrow> gives_at (gbind m (\<lambda>b. gret (b, L'))) r L'"
  by (auto simp: gives_at_def)

lemma gbind_gfail: "gbind (gfail e) k = gfail e"
  by (rule ext) (simp add: gfail_def)

lemma gives_at_fail: "gives_at (gfail e) (Inl e) L'"
  unfolding gives_at_def by (rule exI [of _ "gfail e"]) (simp only: tri_fail gbind_gfail simp_thms)

lemma tri_call_at:
  assumes "gives_at m r L'" and k: "\<And>b P. tri ((b, P) # xs) (k (b, L')) (r2 P)"
  shows "tri xs (gbind m k) (rbind r r2)"
proof -
  obtain m0 where "gives m0 r" "m = gbind m0 (\<lambda>b. gret (b, L'))" using assms(1) by (auto simp: gives_at_def)
  then show ?thesis using tri_call [of m0 r xs "\<lambda>b. k (b, L')" r2] k by (simp only: gbind_assoc gbind_gret)
qed

section \<open>VLAN, MPLS, PPPoE\<close>

abbreviation (input) ETHERTYPE_8021Q :: int where "ETHERTYPE_8021Q \<equiv> 0x8100"
abbreviation (input) ETHERTYPE_MPLS :: int where "ETHERTYPE_MPLS \<equiv> 0x8847"
abbreviation (input) ETHERTYPE_PPPOED :: int where "ETHERTYPE_PPPOED \<equiv> 0x8863"
abbreviation (input) ETHERTYPE_PPPOES :: int where "ETHERTYPE_PPPOES \<equiv> 0x8864"
abbreviation (input) PPP_MPLS_UCAST :: int where "PPP_MPLS_UCAST \<equiv> 0x0281"

definition gen_vlan :: "layout \<Rightarrow> int \<Rightarrow> (nat \<times> layout) gm" where
  "gen_vlan L vlan_num =
     (if label_stack_depth L > 0 then gfail BpfError
      else let L1 = L\<lparr>orig_nl := off_nl L\<rparr> in
        if linktype L1 = DLT_EN10MB then
          gbind
            (gbind (gen_cmp L1 OR_LINK (off_linktype L1) SzH (word_of_int ETHERTYPE_8021Q)) (\<lambda>b0.
             if vlan_num \<ge> 0 then
               gbind (gen_mcmp L1 OR_MACPL 0 SzH (word_of_int vlan_num) 0x0fff) (\<lambda>b1.
               gbind (gen_and b0 b1) (\<lambda>_. gret b1))
             else gret b0))
            (\<lambda>b. gret (b, L1\<lparr>off_macpl := off_macpl L1 + 4, off_linktype := off_linktype L1 + 4\<rparr>))
        else gfail BpfError)"

definition gen_mpls :: "layout \<Rightarrow> int \<Rightarrow> (nat \<times> layout) gm" where
  "gen_mpls L label_num =
     (let L1 = L\<lparr>orig_nl := off_nl L\<rparr> in
      gbind
        (gbind
          (if label_stack_depth L1 > 0 then gen_mcmp L1 OR_MACPL (orig_nl L1 - 2) SzB 0 0x01
           else if linktype L1 \<in> {DLT_C_HDLC, DLT_EN10MB} then gen_linktype L1 ETHERTYPE_MPLS
           else if linktype L1 = DLT_PPP then gen_linktype L1 PPP_MPLS_UCAST
           else gfail BpfError) (\<lambda>b0.
         if label_num \<ge> 0 then
           gbind (gen_mcmp L1 OR_MACPL (orig_nl L1) SzW (word_of_int (push_bit 12 label_num)) 0xfffff000) (\<lambda>b1.
           gbind (gen_and b0 b1) (\<lambda>_. gret b1))
         else gret b0))
        (\<lambda>b. gret (b, L1\<lparr>off_nl_nosnap := off_nl_nosnap L1 + 4, off_nl := off_nl L1 + 4,
                         label_stack_depth := label_stack_depth L1 + 1\<rparr>)))"

definition gen_pppoed :: "layout \<Rightarrow> nat gm" where
  "gen_pppoed L = gen_linktype L ETHERTYPE_PPPOED"

definition gen_pppoes :: "layout \<Rightarrow> (nat \<times> layout) gm" where
  "gen_pppoes L =
     gbind (gen_linktype L ETHERTYPE_PPPOES)
       (\<lambda>b. gret (b, L\<lparr>orig_linktype := off_linktype L, orig_nl := off_nl L, is_pppoes := True,
                       off_linktype := off_nl L + 6, off_nl := 6 + 2, off_nl_nosnap := 6 + 2\<rparr>))"

definition vlan_layout :: "layout \<Rightarrow> layout" where
  "vlan_layout L = L\<lparr>orig_nl := off_nl L, off_macpl := off_macpl L + 4, off_linktype := off_linktype L + 4\<rparr>"

definition vlan_meaning :: "layout \<Rightarrow> int \<Rightarrow> meaning" where
  "vlan_meaning L n =
     (let L1 = L\<lparr>orig_nl := off_nl L\<rparr> in
      if label_stack_depth L > 0 then Inl BpfError
      else if linktype L1 = DLT_EN10MB then
        (if n \<ge> 0 then Inr (p_and (type_is L1 (word_of_int ETHERTYPE_8021Q)) (is_eq L1 OR_MACPL 0 SzH 0x0fff (word_of_int n)))
         else Inr (type_is L1 (word_of_int ETHERTYPE_8021Q)))
      else Inl BpfError)"

lemma at_if: "(c \<Longrightarrow> gives_at m r L') \<Longrightarrow> (\<not> c \<Longrightarrow> gives_at m' r' L') \<Longrightarrow>
    gives_at (if c then m else m') (if c then r else r') L'"
  by simp

lemma gives_vlan: "gives_at (gen_vlan L n) (vlan_meaning L n) (vlan_layout L)"
proof -
  have e: "L\<lparr>orig_nl := off_nl L\<rparr>\<lparr>off_macpl := off_macpl (L\<lparr>orig_nl := off_nl L\<rparr>) + 4,
      off_linktype := off_linktype (L\<lparr>orig_nl := off_nl L\<rparr>) + 4\<rparr> = vlan_layout L"
    by (simp add: vlan_layout_def)
  show ?thesis
    unfolding gen_vlan_def vlan_meaning_def Let_def e
    by (rule at_if gives_at_fail gives_atI tri_intros)+
qed

definition mpls_layout :: "layout \<Rightarrow> layout" where
  "mpls_layout L = L\<lparr>orig_nl := off_nl L, off_nl_nosnap := off_nl_nosnap L + 4, off_nl := off_nl L + 4,
     label_stack_depth := label_stack_depth L + 1\<rparr>"

definition mpls_stack_meaning :: "layout \<Rightarrow> int \<Rightarrow> meaning" where
  "mpls_stack_meaning L n =
     (let L1 = L\<lparr>orig_nl := off_nl L\<rparr> in
      rbind
        (if label_stack_depth L1 > 0 then Inr (is_eq L1 OR_MACPL (orig_nl L1 - 2) SzB 0x01 0)
         else if linktype L1 \<in> {DLT_C_HDLC, DLT_EN10MB} then linktype_meaning L1 ETHERTYPE_MPLS
         else if linktype L1 = DLT_PPP then linktype_meaning L1 PPP_MPLS_UCAST
         else Inl BpfError)
        (\<lambda>P. if n \<ge> 0 then Inr (p_and P (is_eq L1 OR_MACPL (orig_nl L1) SzW 0xfffff000 (word_of_int (push_bit 12 n))))
             else Inr P))"

lemma gives_mpls: "gives_at (gen_mpls L n) (mpls_stack_meaning L n) (mpls_layout L)"
proof -
  let ?L = "L\<lparr>orig_nl := off_nl L\<rparr>"
  have e: "?L\<lparr>off_nl_nosnap := off_nl_nosnap ?L + 4, off_nl := off_nl ?L + 4,
      label_stack_depth := label_stack_depth ?L + 1\<rparr> = mpls_layout L"
    by (simp add: mpls_layout_def)
  show ?thesis
    unfolding gen_mpls_def mpls_stack_meaning_def Let_def e
    by (rule gives_atI tri_call tri_intros)+
qed

definition pppoes_layout :: "layout \<Rightarrow> layout" where
  "pppoes_layout L = L\<lparr>orig_linktype := off_linktype L, orig_nl := off_nl L, is_pppoes := True,
     off_linktype := off_nl L + 6, off_nl := 8, off_nl_nosnap := 8\<rparr>"

lemma gives_pppoe:
  "gives (gen_pppoed L) (linktype_meaning L ETHERTYPE_PPPOED)"
  "gives_at (gen_pppoes L) (linktype_meaning L ETHERTYPE_PPPOES) (pppoes_layout L)"
  unfolding gen_pppoed_def gen_pppoes_def pppoes_layout_def
  by (rule gives_linktype, simp, rule gives_atI, rule gives_linktype)

end
