(* ===== verification/Gen_Signal.thy ===== *)
theory Gen_Signal
  imports Gen_Encap
begin

text \<open>
  The ATM and SS7 keywords of \<^verbatim>\<open>gencode.c\<close>: \<open>gen_atmtype_abbrev\<close>,
  \<open>gen_atmmulti_abbrev\<close>, \<open>gen_msg_abbrev\<close>, \<open>gen_mtp2type_abbrev\<close> and \<open>gen_mtp3field_code\<close>.
\<close>

section \<open>ATM circuits and messages\<close>

abbreviation (input) A_METAC :: int where "A_METAC \<equiv> 22"
abbreviation (input) A_BCC :: int where "A_BCC \<equiv> 23"
abbreviation (input) A_OAMF4SC :: int where "A_OAMF4SC \<equiv> 24"
abbreviation (input) A_OAMF4EC :: int where "A_OAMF4EC \<equiv> 25"
abbreviation (input) A_SC :: int where "A_SC \<equiv> 26"
abbreviation (input) A_ILMIC :: int where "A_ILMIC \<equiv> 27"
abbreviation (input) A_OAM :: int where "A_OAM \<equiv> 28"
abbreviation (input) A_OAMF4 :: int where "A_OAMF4 \<equiv> 29"
abbreviation (input) A_LANE :: int where "A_LANE \<equiv> 30"
abbreviation (input) A_LLC :: int where "A_LLC \<equiv> 31"
abbreviation (input) A_SETUP :: int where "A_SETUP \<equiv> 41"
abbreviation (input) A_CALLPROCEED :: int where "A_CALLPROCEED \<equiv> 42"
abbreviation (input) A_CONNECT :: int where "A_CONNECT \<equiv> 43"
abbreviation (input) A_CONNECTACK :: int where "A_CONNECTACK \<equiv> 44"
abbreviation (input) A_RELEASE :: int where "A_RELEASE \<equiv> 45"
abbreviation (input) A_RELEASE_DONE :: int where "A_RELEASE_DONE \<equiv> 46"
abbreviation (input) A_CONNECTMSG :: int where "A_CONNECTMSG \<equiv> 70"
abbreviation (input) A_METACONNECT :: int where "A_METACONNECT \<equiv> 71"

text \<open>The cases of one virtual circuit: VPI 0 and a VCI.\<close>

definition atm_circuit :: "layout \<Rightarrow> u32 \<Rightarrow> nat gm" where
  "atm_circuit L vci =
     (if \<not> is_atm L then gfail BpfError
      else
        gbind (gen_atmfield_code L A_VPI 0 JEQ False) (\<lambda>b0.
        gbind (gen_atmfield_code L A_VCI vci JEQ False) (\<lambda>b1.
        gbind (gen_and b0 b1) (\<lambda>_. gret b1))))"

definition gen_atmtype_abbrev :: "layout \<Rightarrow> int \<Rightarrow> (nat \<times> layout) gm" where
  "gen_atmtype_abbrev L type =
     (if type = A_METAC then gbind (atm_circuit L 1) (\<lambda>b. gret (b, L))
      else if type = A_BCC then gbind (atm_circuit L 2) (\<lambda>b. gret (b, L))
      else if type = A_OAMF4SC then gbind (atm_circuit L 3) (\<lambda>b. gret (b, L))
      else if type = A_OAMF4EC then gbind (atm_circuit L 4) (\<lambda>b. gret (b, L))
      else if type = A_SC then gbind (atm_circuit L 5) (\<lambda>b. gret (b, L))
      else if type = A_ILMIC then gbind (atm_circuit L 16) (\<lambda>b. gret (b, L))
      else if type = A_LANE then
        (if \<not> is_atm L then gfail BpfError
         else gbind (gen_atmfield_code L A_PROTOTYPE PT_LANE JEQ False)
           (\<lambda>b. gret (b, L\<lparr>is_lane := True, off_mac := off_payload L + 2, off_linktype := off_payload L + 2 + 12,
                          off_macpl := off_payload L + 2 + 14, off_nl := 0, off_nl_nosnap := 3\<rparr>)))
      else if type = A_LLC then
        (if \<not> is_atm L then gfail BpfError
         else gbind (gen_atmfield_code L A_PROTOTYPE PT_LLC JEQ False) (\<lambda>b. gret (b, L\<lparr>is_lane := False\<rparr>)))
      else gfail GenAbort)"

definition gen_msg_abbrev :: "layout \<Rightarrow> int \<Rightarrow> nat gm" where
  "gen_msg_abbrev L type =
     (if type = A_SETUP then gen_atmfield_code L A_MSGTYPE 0x05 JEQ False
      else if type = A_CALLPROCEED then gen_atmfield_code L A_MSGTYPE 0x02 JEQ False
      else if type = A_CONNECT then gen_atmfield_code L A_MSGTYPE 0x07 JEQ False
      else if type = A_CONNECTACK then gen_atmfield_code L A_MSGTYPE 0x0f JEQ False
      else if type = A_RELEASE then gen_atmfield_code L A_MSGTYPE 0x4d JEQ False
      else if type = A_RELEASE_DONE then gen_atmfield_code L A_MSGTYPE 0x5a JEQ False
      else gfail GenAbort)"

function gen_atmmulti_abbrev :: "layout \<Rightarrow> int \<Rightarrow> nat gm" where
  "gen_atmmulti_abbrev L type =
     (if type = A_OAM then
        (if \<not> is_atm L then gfail BpfError else gen_atmmulti_abbrev L A_OAMF4)
      else if type = A_OAMF4 then
        (if \<not> is_atm L then gfail BpfError
         else
           gbind (gen_atmfield_code L A_VCI 3 JEQ False) (\<lambda>b0.
           gbind (gen_atmfield_code L A_VCI 4 JEQ False) (\<lambda>b1.
           gbind (gen_or b0 b1) (\<lambda>_.
           gbind (gen_atmfield_code L A_VPI 0 JEQ False) (\<lambda>b0.
           gbind (gen_and b0 b1) (\<lambda>_. gret b1))))))
      else if type = A_CONNECTMSG then
        (if \<not> is_atm L then gfail BpfError
         else
           gbind (gen_msg_abbrev L A_SETUP) (\<lambda>b0.
           gbind (gen_msg_abbrev L A_CALLPROCEED) (\<lambda>b1.
           gbind (gen_or b0 b1) (\<lambda>_.
           gbind (gen_msg_abbrev L A_CONNECT) (\<lambda>b0.
           gbind (gen_or b0 b1) (\<lambda>_.
           gbind (gen_msg_abbrev L A_CONNECTACK) (\<lambda>b0.
           gbind (gen_or b0 b1) (\<lambda>_.
           gbind (gen_msg_abbrev L A_RELEASE) (\<lambda>b0.
           gbind (gen_or b0 b1) (\<lambda>_.
           gbind (gen_msg_abbrev L A_RELEASE_DONE) (\<lambda>b0.
           gbind (gen_or b0 b1) (\<lambda>_.
           gbind (gen_atmtype_abbrev L A_SC) (\<lambda>x.
           gbind (gen_and (fst x) b1) (\<lambda>_. gret b1))))))))))))))
      else if type = A_METACONNECT then
        (if \<not> is_atm L then gfail BpfError
         else
           gbind (gen_msg_abbrev L A_SETUP) (\<lambda>b0.
           gbind (gen_msg_abbrev L A_CALLPROCEED) (\<lambda>b1.
           gbind (gen_or b0 b1) (\<lambda>_.
           gbind (gen_msg_abbrev L A_CONNECT) (\<lambda>b0.
           gbind (gen_or b0 b1) (\<lambda>_.
           gbind (gen_msg_abbrev L A_RELEASE) (\<lambda>b0.
           gbind (gen_or b0 b1) (\<lambda>_.
           gbind (gen_msg_abbrev L A_RELEASE_DONE) (\<lambda>b0.
           gbind (gen_or b0 b1) (\<lambda>_.
           gbind (gen_atmtype_abbrev L A_METAC) (\<lambda>x.
           gbind (gen_and (fst x) b1) (\<lambda>_. gret b1))))))))))))
      else gfail GenAbort)"
  by pat_completeness auto
termination by (relation "measure (\<lambda>(L, t). if t = A_OAM then 1 else 0)") auto

declare gen_atmmulti_abbrev.simps [simp del]

section \<open>SS7\<close>

abbreviation (input) M_FISU :: int where "M_FISU \<equiv> 22"
abbreviation (input) M_LSSU :: int where "M_LSSU \<equiv> 23"
abbreviation (input) M_MSU :: int where "M_MSU \<equiv> 24"
abbreviation (input) M_SIO :: int where "M_SIO \<equiv> 1"
abbreviation (input) M_OPC :: int where "M_OPC \<equiv> 2"
abbreviation (input) M_DPC :: int where "M_DPC \<equiv> 3"
abbreviation (input) M_SLS :: int where "M_SLS \<equiv> 4"

definition not_mtp2 :: "layout \<Rightarrow> bool" where
  "not_mtp2 L \<longleftrightarrow> linktype L \<noteq> DLT_MTP2 \<and> linktype L \<noteq> DLT_ERF \<and> linktype L \<noteq> DLT_MTP2_WITH_PHDR"

definition gen_mtp2type_abbrev :: "layout \<Rightarrow> int \<Rightarrow> nat gm" where
  "gen_mtp2type_abbrev L type =
     (if type = M_FISU then
        (if not_mtp2 L then gfail BpfError
         else gen_ncmp L OR_PACKET (off_li L) SzB 0x3f JEQ False 0)
      else if type = M_LSSU then
        (if not_mtp2 L then gfail BpfError
         else
           gbind (gen_ncmp L OR_PACKET (off_li L) SzB 0x3f JGT True 2) (\<lambda>b0.
           gbind (gen_ncmp L OR_PACKET (off_li L) SzB 0x3f JGT False 0) (\<lambda>b1.
           gbind (gen_and b1 b0) (\<lambda>_. gret b0))))
      else if type = M_MSU then
        (if not_mtp2 L then gfail BpfError
         else gen_ncmp L OR_PACKET (off_li L) SzB 0x3f JGT False 2)
      else gfail GenAbort)"

text \<open>The point codes as they are laid out in a message.\<close>

definition mtp3_opc :: "u32 \<Rightarrow> u32" where
  "mtp3_opc jvalue =
     drop_bit 10 (jvalue AND 0x00003c00) + push_bit 6 (jvalue AND 0x000003fc) + push_bit 22 (jvalue AND 0x00000003)"

definition mtp3_dpc :: "u32 \<Rightarrow> u32" where
  "mtp3_dpc jvalue = push_bit 24 (jvalue AND 0x000000ff) + push_bit 8 (jvalue AND 0x00003f00)"

definition gen_mtp3field_code :: "layout \<Rightarrow> int \<Rightarrow> u32 \<Rightarrow> jmp_op \<Rightarrow> bool \<Rightarrow> nat gm" where
  "gen_mtp3field_code L mtp3field jvalue jtype reverse =
     (if mtp3field = M_SIO then
        (if off_sio L = - 1 \<or> jvalue > 255 then gfail BpfError
         else gen_ncmp L OR_PACKET (off_sio L) SzB 0xffffffff jtype reverse jvalue)
      else if mtp3field = M_OPC then
        (if off_opc L = - 1 \<or> jvalue > 16383 then gfail BpfError
         else gen_ncmp L OR_PACKET (off_opc L) SzW 0x00c0ff0f jtype reverse (mtp3_opc jvalue))
      else if mtp3field = M_DPC then
        (if off_dpc L = - 1 \<or> jvalue > 16383 then gfail BpfError
         else gen_ncmp L OR_PACKET (off_dpc L) SzW 0xff3f0000 jtype reverse (mtp3_dpc jvalue))
      else if mtp3field = M_SLS then
        (if off_sls L = - 1 \<or> jvalue > 15 then gfail BpfError
         else gen_ncmp L OR_PACKET (off_sls L) SzB 0xf0 jtype reverse (push_bit 4 jvalue))
      else gfail GenAbort)"

section \<open>What they decide\<close>

definition circuit_meaning :: "layout \<Rightarrow> u32 \<Rightarrow> meaning" where
  "circuit_meaning L vci =
     (if \<not> is_atm L then Inl BpfError
      else rbind (atmfield_meaning L A_VPI 0 JEQ False) (\<lambda>P.
        rbind (atmfield_meaning L A_VCI vci JEQ False) (\<lambda>Q. Inr (p_and P Q))))"

lemma gives_circuit: "gives (atm_circuit L vci) (circuit_meaning L vci)"
  unfolding atm_circuit_def circuit_meaning_def by (rule tri_intros)+

definition lane_layout :: "layout \<Rightarrow> layout" where
  "lane_layout L = L\<lparr>is_lane := True, off_mac := off_payload L + 2, off_linktype := off_payload L + 2 + 12,
     off_macpl := off_payload L + 2 + 14, off_nl := 0, off_nl_nosnap := 3\<rparr>"

lemma gives_atmtype:
  "gives_at (gen_atmtype_abbrev L A_METAC) (circuit_meaning L 1) L"
  "gives_at (gen_atmtype_abbrev L A_BCC) (circuit_meaning L 2) L"
  "gives_at (gen_atmtype_abbrev L A_OAMF4SC) (circuit_meaning L 3) L"
  "gives_at (gen_atmtype_abbrev L A_OAMF4EC) (circuit_meaning L 4) L"
  "gives_at (gen_atmtype_abbrev L A_SC) (circuit_meaning L 5) L"
  "gives_at (gen_atmtype_abbrev L A_ILMIC) (circuit_meaning L 16) L"
  by (simp_all add: gen_atmtype_abbrev_def gives_atI [OF gives_circuit])

lemma gives_lane:
  "gives_at (gen_atmtype_abbrev L A_LANE)
     (if \<not> is_atm L then Inl BpfError else atmfield_meaning L A_PROTOTYPE PT_LANE JEQ False) (lane_layout L)"
  "gives_at (gen_atmtype_abbrev L A_LLC)
     (if \<not> is_atm L then Inl BpfError else atmfield_meaning L A_PROTOTYPE PT_LLC JEQ False) (L\<lparr>is_lane := False\<rparr>)"
  by (simp_all add: gen_atmtype_abbrev_def gives_atI [OF gives_atmfield] gives_at_fail lane_layout_def)

definition msg_meaning :: "layout \<Rightarrow> int \<Rightarrow> meaning" where
  "msg_meaning L type =
     (let msg = (\<lambda>v. atmfield_meaning L A_MSGTYPE v JEQ False) in
      if type = A_SETUP then msg 0x05
      else if type = A_CALLPROCEED then msg 0x02
      else if type = A_CONNECT then msg 0x07
      else if type = A_CONNECTACK then msg 0x0f
      else if type = A_RELEASE then msg 0x4d
      else if type = A_RELEASE_DONE then msg 0x5a
      else Inl GenAbort)"

lemma gives_msg: "gives (gen_msg_abbrev L type) (msg_meaning L type)"
  unfolding gen_msg_abbrev_def msg_meaning_def Let_def by (rule tri_intros)+

text \<open>A message of a signalling circuit.\<close>

fun msgs_or :: "layout \<Rightarrow> pred \<Rightarrow> int list \<Rightarrow> meaning \<Rightarrow> meaning" where
  "msgs_or L P [] C = rbind C (\<lambda>Q. Inr (p_and Q P))"
| "msgs_or L P (t # ts) C = rbind (msg_meaning L t) (\<lambda>Q. msgs_or L (p_or Q P) ts C)"

definition messages_meaning :: "layout \<Rightarrow> int list \<Rightarrow> meaning \<Rightarrow> meaning" where
  "messages_meaning L ts C =
     (if \<not> is_atm L then Inl BpfError
      else rbind (msg_meaning L A_SETUP) (\<lambda>P. rbind (msg_meaning L A_CALLPROCEED) (\<lambda>Q. msgs_or L (p_or P Q) ts C)))"

lemma gives_atmmulti:
  "gives (gen_atmmulti_abbrev L A_OAMF4)
     (if \<not> is_atm L then Inl BpfError
      else rbind (atmfield_meaning L A_VCI 3 JEQ False) (\<lambda>P.
        rbind (atmfield_meaning L A_VCI 4 JEQ False) (\<lambda>Q.
        rbind (atmfield_meaning L A_VPI 0 JEQ False) (\<lambda>R. Inr (p_and R (p_or P Q))))))"
  "gives (gen_atmmulti_abbrev L A_CONNECTMSG)
     (messages_meaning L [A_CONNECT, A_CONNECTACK, A_RELEASE, A_RELEASE_DONE] (circuit_meaning L 5))"
  "gives (gen_atmmulti_abbrev L A_METACONNECT)
     (messages_meaning L [A_CONNECT, A_RELEASE, A_RELEASE_DONE] (circuit_meaning L 1))"
proof -
  note rules = gives_msg [THEN tri_call] gives_atmtype [THEN tri_call_at] tri_intros
  show "gives (gen_atmmulti_abbrev L A_OAMF4)
     (if \<not> is_atm L then Inl BpfError
      else rbind (atmfield_meaning L A_VCI 3 JEQ False) (\<lambda>P.
        rbind (atmfield_meaning L A_VCI 4 JEQ False) (\<lambda>Q.
        rbind (atmfield_meaning L A_VPI 0 JEQ False) (\<lambda>R. Inr (p_and R (p_or P Q))))))"
    by (subst gen_atmmulti_abbrev.simps) (rule tri_if_refl rules | (rule tri_if_skip, simp))+
  show "gives (gen_atmmulti_abbrev L A_CONNECTMSG)
     (messages_meaning L [A_CONNECT, A_CONNECTACK, A_RELEASE, A_RELEASE_DONE] (circuit_meaning L 5))"
    unfolding messages_meaning_def msgs_or.simps
    by (subst gen_atmmulti_abbrev.simps) (rule tri_if_refl rules | (rule tri_if_skip, simp) | simp only: fst_conv)+
  show "gives (gen_atmmulti_abbrev L A_METACONNECT)
     (messages_meaning L [A_CONNECT, A_RELEASE, A_RELEASE_DONE] (circuit_meaning L 1))"
    unfolding messages_meaning_def msgs_or.simps
    by (subst gen_atmmulti_abbrev.simps) (rule tri_if_refl rules | (rule tri_if_skip, simp) | simp only: fst_conv)+
qed

lemma gives_oam: "gives (gen_atmmulti_abbrev L A_OAM) r \<longleftrightarrow>
    gives (if \<not> is_atm L then gfail BpfError else gen_atmmulti_abbrev L A_OAMF4) r"
  by (subst gen_atmmulti_abbrev.simps) simp

definition li_pred :: "layout \<Rightarrow> (u32 \<Rightarrow> bool) \<Rightarrow> pred" where
  "li_pred L R = (\<lambda>pk. and_then (field L OR_PACKET (off_li L) SzB pk) (\<lambda>a. Next (R (a AND 0x3f))))"

lemma ncmp_li:
  "ncmp_pred L OR_PACKET (off_li L) SzB 0x3f JEQ False v = li_pred L (\<lambda>a. a = v)"
  "ncmp_pred L OR_PACKET (off_li L) SzB 0x3f JGT False v = li_pred L (\<lambda>a. a > v)"
  "ncmp_pred L OR_PACKET (off_li L) SzB 0x3f JGT True v = li_pred L (\<lambda>a. \<not> a > v)"
  unfolding ncmp_pred_def li_pred_def by simp_all

text \<open>Fill-in, link status and message signal units, by their length indicator.\<close>

lemma gives_mtp2:
  "gives (gen_mtp2type_abbrev L M_FISU) (if not_mtp2 L then Inl BpfError else Inr (li_pred L (\<lambda>a. a = 0)))"
  "gives (gen_mtp2type_abbrev L M_LSSU) (if not_mtp2 L then Inl BpfError
     else Inr (p_and (li_pred L (\<lambda>a. a > 0)) (li_pred L (\<lambda>a. \<not> a > 2))))"
  "gives (gen_mtp2type_abbrev L M_MSU) (if not_mtp2 L then Inl BpfError else Inr (li_pred L (\<lambda>a. a > 2)))"
  unfolding gen_mtp2type_abbrev_def ncmp_li [symmetric] by (rule tri_if_refl tri_intros | (rule tri_if_skip, simp))+

definition mtp3_meaning :: "layout \<Rightarrow> int \<Rightarrow> u32 \<Rightarrow> jmp_op \<Rightarrow> bool \<Rightarrow> meaning" where
  "mtp3_meaning L fld v j rv =
     (if fld = M_SIO then
        (if off_sio L = - 1 \<or> v > 255 then Inl BpfError else Inr (ncmp_pred L OR_PACKET (off_sio L) SzB 0xffffffff j rv v))
      else if fld = M_OPC then
        (if off_opc L = - 1 \<or> v > 16383 then Inl BpfError
         else Inr (ncmp_pred L OR_PACKET (off_opc L) SzW 0x00c0ff0f j rv (mtp3_opc v)))
      else if fld = M_DPC then
        (if off_dpc L = - 1 \<or> v > 16383 then Inl BpfError
         else Inr (ncmp_pred L OR_PACKET (off_dpc L) SzW 0xff3f0000 j rv (mtp3_dpc v)))
      else if fld = M_SLS then
        (if off_sls L = - 1 \<or> v > 15 then Inl BpfError
         else Inr (ncmp_pred L OR_PACKET (off_sls L) SzB 0xf0 j rv (push_bit 4 v)))
      else Inl GenAbort)"

lemma gives_mtp3: "gives (gen_mtp3field_code L fld v j rv) (mtp3_meaning L fld v j rv)"
  unfolding gen_mtp3field_code_def mtp3_meaning_def by (rule tri_intros)+

end
