(* ===== verification/Gen_Ncode.thy ===== *)
theory Gen_Ncode
  imports Gen_Signal
begin

text \<open>
  Numeric operands of a filter: the parsers of \<^verbatim>\<open>nametoaddr.c\<close> for dotted numbers, DECnet and
  Ethernet addresses, and \<open>gen_ncode\<close>, \<open>gen_mcode\<close> of \<^verbatim>\<open>gencode.c\<close>, which turn
  \<open>host 10.1\<close>, \<open>net 10/8\<close>, \<open>port 80\<close> into tests. Names (\<open>gen_scode\<close>) need the resolver and are not
  modelled.
\<close>

section \<open>Numbers and addresses\<close>

definition char_val :: "char \<Rightarrow> u32" where
  "char_val c = word_of_nat (of_char c)"

definition isdigit :: "char \<Rightarrow> bool" where
  "isdigit c \<longleftrightarrow> (48 :: nat) \<le> of_char c \<and> (of_char c :: nat) \<le> 57"

definition islower :: "char \<Rightarrow> bool" where
  "islower c \<longleftrightarrow> (97 :: nat) \<le> of_char c \<and> (of_char c :: nat) \<le> 122"

definition isxdigit :: "char \<Rightarrow> bool" where
  "isxdigit c \<longleftrightarrow> isdigit c \<or> (65 :: nat) \<le> of_char c \<and> (of_char c :: nat) \<le> 70 \<or>
     (97 :: nat) \<le> of_char c \<and> (of_char c :: nat) \<le> 102"

definition xdtoi :: "char \<Rightarrow> u32" where
  "xdtoi c =
     (if isdigit c then char_val c - char_val CHR ''0''
      else if islower c then char_val c - char_val CHR ''a'' + 10
      else char_val c - char_val CHR ''A'' + 10)"

text \<open>\<open>__pcap_atoin\<close>: the inner loop reads a number up to a dot or the end, the outer one shifts it in.
  The result is the number of bits and the address.\<close>

fun atoin_num :: "string \<Rightarrow> u32 \<Rightarrow> u32 \<times> string" where
  "atoin_num [] n = (n, [])"
| "atoin_num (c # s) n =
     (if c = CHR ''.'' then (n, c # s) else atoin_num s (n * 10 + char_val c - char_val CHR ''0''))"

lemma atoin_num_length: "length (snd (atoin_num s n)) \<le> length s"
  by (induction s n rule: atoin_num.induct) (auto simp: le_Suc_eq)

function pcap_atoin_from :: "string \<Rightarrow> u32 \<Rightarrow> nat \<Rightarrow> nat \<times> u32" where
  "pcap_atoin_from s addr len =
     (let (n, s') = atoin_num s 0; addr' = push_bit 8 addr OR (n AND 0xff)
      in case s' of [] \<Rightarrow> (len + 8, addr') | _ # s'' \<Rightarrow> pcap_atoin_from s'' addr' (len + 8))"
  by pat_completeness auto
termination
proof (relation "measure (\<lambda>(s, a, l). length s)", goal_cases)
  case (2 s addr len p n s' a' c s'')
  then have "atoin_num s 0 = (n, c # s'')" by simp
  then show ?case using atoin_num_length [of s 0] by simp
qed simp

declare pcap_atoin_from.simps [simp del]

definition pcap_atoin :: "string \<Rightarrow> nat \<times> u32" where
  "pcap_atoin s = pcap_atoin_from s 0 0"

text \<open>\<open>sscanf(s, "%d.%d", ..)\<close> on the digits and dots the scanner passes.\<close>

definition scan_dd :: "string \<Rightarrow> (u32 \<times> u32) option" where
  "scan_dd s =
     (let a = takeWhile isdigit s; s' = dropWhile isdigit s; b = takeWhile isdigit (tl s')
      in if a \<noteq> [] \<and> s' \<noteq> [] \<and> hd s' = CHR ''.'' \<and> b \<noteq> []
         then Some (fst (atoin_num a 0), fst (atoin_num b 0)) else None)"

definition pcap_atodn :: "string \<Rightarrow> (nat \<times> u32) option" where
  "pcap_atodn s = map_option (\<lambda>(area, node).
     (32, (push_bit 10 area AND 0xfc00) OR (node AND 0x3ff))) (scan_dd s)"

text \<open>\<open>pcap_ether_aton\<close>: at most two digits per byte, one separator before a digit. A seventh byte is
  written behind the buffer, and so is a read behind the end of a string that ends in a separator:
  both are \<open>None\<close>.\<close>

function ether_aton :: "string \<Rightarrow> u8 list \<Rightarrow> u8 list option" where
  "ether_aton s ep =
     (if s = [] then Some ep
      else let s1 = (if hd s \<in> {CHR '':'', CHR ''.'', CHR ''-''} then tl s else s) in
        if s1 = [] \<or> length ep \<ge> 6 then None
        else let d = xdtoi (hd s1); s2 = tl s1 in
          if s2 \<noteq> [] \<and> isxdigit (hd s2)
          then ether_aton (tl s2) (ep @ [ucast (push_bit 4 d OR xdtoi (hd s2))])
          else ether_aton s2 (ep @ [ucast d]))"
  by pat_completeness auto
termination
proof (relation "measure (\<lambda>(s, ep). length s)", goal_cases)
  case (2 s ep x xa xb)
  then have "length x \<le> length s" "x \<noteq> []" by auto
  then show ?case using 2(5,6) by (cases x; cases xb) auto
next
  case (3 s ep x xa xb)
  then have "length x \<le> length s" "x \<noteq> []" by auto
  then show ?case using 3(5) by (cases x) auto
qed simp

declare ether_aton.simps [simp del]

definition pcap_ether_aton :: "string \<Rightarrow> u8 list option" where
  "pcap_ether_aton s = ether_aton s []"

section \<open>Numeric operands\<close>

lemma high_byte_zero: "v AND 0xff000000 = 0 \<Longrightarrow> unat (v :: u32) < 16777216"
proof (rule ccontr)
  assume a: "v AND 0xff000000 = 0" and "\<not> unat v < 16777216"
  have m: "(0xff000000 :: u32) = push_bit 24 (Bit_Operations.mask 8)" by (simp add: mask_eq_exp_minus_1 push_bit_eq_mult)
  have "drop_bit 24 (v AND 0xff000000) = drop_bit 24 v AND Bit_Operations.mask 8"
    unfolding m by (rule bit_word_eqI) (auto simp: bit_simps)
  also have "\<dots> = drop_bit 24 v"
    by (rule bit_word_eqI) (auto simp: bit_simps dest: bit_imp_le_length)
  finally have "drop_bit 24 v = 0" using a by (simp only: drop_bit_of_0)
  moreover have "unat (drop_bit 24 v) = unat v div 16777216"
    by (simp add: drop_bit_eq_div unat_div)
  ultimately have "unat v div 16777216 = 0" by simp
  then show False using \<open>\<not> unat v < 16777216\<close> by simp
qed

text \<open>"Promote short net number": shift address and mask until the first byte is not zero.\<close>

function promote :: "u32 \<Rightarrow> u32 \<Rightarrow> u32 \<times> u32" where
  "promote v msk =
     (if v \<noteq> 0 \<and> v AND 0xff000000 = 0 then promote (push_bit 8 v) (push_bit 8 msk) else (v, msk))"
  by pat_completeness auto
termination
proof (relation "measure (\<lambda>(v, m). 4294967296 - unat v)", goal_cases)
  case (2 v msk)
  then have "unat v < 16777216" "0 < unat v" using high_byte_zero [of v] by (auto simp: unat_gt_0)
  moreover from this have "unat (push_bit 8 v) = 256 * unat v"
    by (simp add: push_bit_eq_mult unat_word_ariths)
  ultimately show ?case using unat_u32_lt [of "push_bit 8 v"] by simp
qed simp

declare promote.simps [simp del]

definition ip_proto_of :: "int \<Rightarrow> int option" where
  "ip_proto_of proto =
     (if proto = Q_UDP then Some IPPROTO_UDP
      else if proto = Q_TCP then Some IPPROTO_TCP
      else if proto = Q_SCTP then Some IPPROTO_SCTP
      else if proto = Q_DEFAULT then Some PROTO_UNDEF
      else None)"

text \<open>\<open>s\<close> is \<open>NULL\<close> for a plain number \<open>v\<close>. A shift by \<open>32 - vlen\<close> is undefined for more than four
  parts, which the scanner does not pass.\<close>

definition ncode_value :: "string option \<Rightarrow> u32 \<Rightarrow> int \<Rightarrow> (nat \<times> u32) option" where
  "ncode_value s v proto =
     (case s of None \<Rightarrow> Some (32, v)
      | Some s \<Rightarrow> if proto = Q_DECNET then pcap_atodn s else Some (pcap_atoin s))"

definition gen_ncode :: "layout \<Rightarrow> string option \<Rightarrow> u32 \<Rightarrow> qual \<Rightarrow> nat gm" where
  "gen_ncode L s v q =
     (case ncode_value s v (q_proto q) of None \<Rightarrow> gfail BpfError | Some (vlen, v) \<Rightarrow>
      let proto = q_proto q; dir = q_dir q in
      if q_addr q \<in> {Q_DEFAULT, Q_HOST, Q_NET} then
        (if proto = Q_DECNET then gen_host L v 0 proto dir
         else if proto = Q_LINK then gfail BpfError
         else if s = None \<and> q_addr q = Q_NET then
           (let (v, msk) = promote v 0xffffffff in gen_host L v msk proto dir)
         else if vlen > 32 then gfail GenUndef
         else gen_host L (push_bit (32 - vlen) v) (push_bit (32 - vlen) 0xffffffff) proto dir)
      else if q_addr q = Q_PORT then
        (case ip_proto_of proto of None \<Rightarrow> gfail BpfError | Some p \<Rightarrow>
           gbind (gen_port L (sint v) p dir) (\<lambda>b.
           gbind (gen_port6 L (sint v) p dir) (\<lambda>b6.
           gbind (gen_or b6 b) (\<lambda>_. gret b))))
      else if q_addr q = Q_PORTRANGE then
        (case ip_proto_of proto of None \<Rightarrow> gfail BpfError | Some p \<Rightarrow>
           gbind (gen_portrange L (sint v) (sint v) p dir) (\<lambda>b.
           gbind (gen_portrange6 L (sint v) (sint v) p dir) (\<lambda>b6.
           gbind (gen_or b6 b) (\<lambda>_. gret b))))
      else if q_addr q = Q_GATEWAY then gfail BpfError
      else if q_addr q = Q_PROTO then gen_proto L (sint v) proto dir
      else if q_addr q = Q_PROTOCHAIN then gfail GenOutside
      else if q_addr q = Q_UNDEF then gfail BpfError
      else gfail GenAbort)"

definition mcode_mask :: "string option \<Rightarrow> int \<Rightarrow> gen_error + u32" where
  "mcode_mask s2 masklen =
     (case s2 of
        Some s2 \<Rightarrow> (let (mlen, m) = pcap_atoin s2 in if mlen > 32 then Inl GenUndef else Inr (push_bit (32 - mlen) m))
      | None \<Rightarrow>
          if masklen > 32 then Inl BpfError
          else if masklen = 0 then Inr 0
          else if masklen < 0 then Inl GenUndef
          else Inr (push_bit (nat (32 - masklen)) 0xffffffff))"

definition gen_mcode :: "layout \<Rightarrow> string \<Rightarrow> string option \<Rightarrow> int \<Rightarrow> qual \<Rightarrow> nat gm" where
  "gen_mcode L s1 s2 masklen q =
     (let (nlen, n) = pcap_atoin s1 in
      if nlen > 32 then gfail GenUndef
      else let n = push_bit (32 - nlen) n in
        case mcode_mask s2 masklen of Inl e \<Rightarrow> gfail e | Inr m \<Rightarrow>
          if n AND NOT m \<noteq> 0 then gfail BpfError
          else if q_addr q = Q_NET then gen_host L n m (q_proto q) (q_dir q)
          else gfail BpfError)"

text \<open>Dotted numbers of one to four parts, as examples.\<close>

lemma pcap_atoin_examples:
  "pcap_atoin ''10'' = (8, 10)" "pcap_atoin ''192.168'' = (16, 0xc0a8)"
  "pcap_atoin ''10.1.2.3'' = (32, 0x0a010203)" "pcap_atoin ''300.0.0.1'' = (32, 0x2c000001)"
  by (simp_all add: pcap_atoin_def pcap_atoin_from.simps char_val_def)

section \<open>What numeric operands decide\<close>

lemma tri_option:
  "(x = None \<Longrightarrow> tri xs m r) \<Longrightarrow> (\<And>y. x = Some y \<Longrightarrow> tri xs (f y) (h y)) \<Longrightarrow>
   tri xs (case x of None \<Rightarrow> m | Some y \<Rightarrow> f y) (case x of None \<Rightarrow> r | Some y \<Rightarrow> h y)"
  by (cases x) auto

lemma tri_sum:
  "(\<And>e. x = Inl e \<Longrightarrow> tri xs (m e) (r e)) \<Longrightarrow> (\<And>y. x = Inr y \<Longrightarrow> tri xs (f y) (h y)) \<Longrightarrow>
   tri xs (case x of Inl e \<Rightarrow> m e | Inr y \<Rightarrow> f y) (case x of Inl e \<Rightarrow> r e | Inr y \<Rightarrow> h y)"
  by (cases x) auto

lemma tri_prod:
  "(\<And>y z. tri xs (f y z) (h y z)) \<Longrightarrow> tri xs (case x of (y, z) \<Rightarrow> f y z) (case x of (y, z) \<Rightarrow> h y z)"
  by (cases x) auto

definition both_families :: "meaning \<Rightarrow> meaning \<Rightarrow> meaning" where
  "both_families r r6 = rbind r (\<lambda>P. rbind r6 (\<lambda>Q. Inr (p_or Q P)))"

definition ports_num :: "layout \<Rightarrow> (offrel \<Rightarrow> u32 \<Rightarrow> pred) \<Rightarrow> int \<Rightarrow> int \<Rightarrow> meaning" where
  "ports_num L at p dir = both_families
     (port_meaning L ETHERTYPE_IP (\<lambda>p. ports_meaning (ip_payload L p) (at OR_TRAN_IPV4) dir) p)
     (port_meaning L ETHERTYPE_IPV6 (\<lambda>p. ports_meaning (ip6_payload L p) (at OR_TRAN_IPV6) dir) p)"

definition ncode_meaning :: "layout \<Rightarrow> string option \<Rightarrow> u32 \<Rightarrow> qual \<Rightarrow> meaning" where
  "ncode_meaning L s v q =
     (case ncode_value s v (q_proto q) of None \<Rightarrow> Inl BpfError | Some x \<Rightarrow> (case x of (vlen, v) \<Rightarrow>
      let proto = q_proto q; dir = q_dir q in
      if q_addr q \<in> {Q_DEFAULT, Q_HOST, Q_NET} then
        (if proto = Q_DECNET then gen_host_meaning L v 0 proto dir
         else if proto = Q_LINK then Inl BpfError
         else if s = None \<and> q_addr q = Q_NET then
           (case promote v 0xffffffff of (v, msk) \<Rightarrow> gen_host_meaning L v msk proto dir)
         else if vlen > 32 then Inl GenUndef
         else gen_host_meaning L (push_bit (32 - vlen) v) (push_bit (32 - vlen) 0xffffffff) proto dir)
      else if q_addr q = Q_PORT then
        (case ip_proto_of proto of None \<Rightarrow> Inl BpfError | Some p \<Rightarrow>
           ports_num L (\<lambda>rel. port_pred L rel (sint v)) p dir)
      else if q_addr q = Q_PORTRANGE then
        (case ip_proto_of proto of None \<Rightarrow> Inl BpfError | Some p \<Rightarrow>
           ports_num L (\<lambda>rel. range_pred L rel (sint v) (sint v)) p dir)
      else if q_addr q = Q_GATEWAY then Inl BpfError
      else if q_addr q = Q_PROTO then gen_proto_meaning L (sint v) proto dir
      else if q_addr q = Q_PROTOCHAIN then Inl GenOutside
      else if q_addr q = Q_UNDEF then Inl BpfError
      else Inl GenAbort))"

lemma gives_ncode: "gives (gen_ncode L s v q) (ncode_meaning L s v q)"
  unfolding gen_ncode_def ncode_meaning_def Let_def ports_num_def both_families_def
  by (rule tri_option tri_prod tri_intros)+

definition mcode_meaning :: "layout \<Rightarrow> string \<Rightarrow> string option \<Rightarrow> int \<Rightarrow> qual \<Rightarrow> meaning" where
  "mcode_meaning L s1 s2 masklen q =
     (case pcap_atoin s1 of (nlen, n) \<Rightarrow>
      if nlen > 32 then Inl GenUndef
      else case mcode_mask s2 masklen of Inl e \<Rightarrow> Inl e | Inr m \<Rightarrow>
          if push_bit (32 - nlen) n AND NOT m \<noteq> 0 then Inl BpfError
          else if q_addr q = Q_NET then gen_host_meaning L (push_bit (32 - nlen) n) m (q_proto q) (q_dir q)
          else Inl BpfError)"

lemma gives_mcode: "gives (gen_mcode L s1 s2 masklen q) (mcode_meaning L s1 s2 masklen q)"
  unfolding gen_mcode_def mcode_meaning_def Let_def
  by (rule tri_option tri_prod tri_sum tri_intros)+

end
