(* ===== verification/Gen_Arith.thy ===== *)
theory Gen_Arith
  imports Gen_Ncode
begin

text \<open>
  Arithmetic on packet data (\<^verbatim>\<open>tcp[13] & 2 != 0\<close>): \<open>gen_loadi\<close>, \<open>gen_loadlen\<close>, \<open>gen_load\<close>, \<open>gen_neg\<close>,
  \<open>gen_arth\<close>, \<open>gen_relation\<close> of \<^verbatim>\<open>gencode.c\<close> and the allocation of scratch registers. A subexpression
  is the statements that leave its value in a register, and a block that tests whether the packet has the headers
  they read. The layout of the packet does not change on the way; the registers are handed on.

  \<open>leaves\<close> says what the statements do; \<open>aexp_meaning\<close> gives every expression its value on a packet and
  the test that guards it, or the error.
\<close>

section \<open>Registers\<close>

fun find_reg :: "nat \<Rightarrow> nat set \<Rightarrow> nat \<Rightarrow> nat option" where
  "find_reg 0 U cur = None"
| "find_reg (Suc n) U cur = (if cur \<in> U then find_reg n U ((cur + 1) mod BPF_MEMWORDS) else Some cur)"

definition alloc_reg :: "regfile \<Rightarrow> gen_error + nat \<times> regfile" where
  "alloc_reg R = (case find_reg BPF_MEMWORDS (regused R) (curreg R) of
       None \<Rightarrow> Inl BpfError
     | Some r \<Rightarrow> Inr (r, R\<lparr>regused := insert r (regused R), curreg := r\<rparr>))"

definition free_reg :: "nat \<Rightarrow> regfile \<Rightarrow> regfile" where
  "free_reg n R = R\<lparr>regused := regused R - {n}\<rparr>"

section \<open>Expressions\<close>

record arth =
  a_s :: "stmt list"
  a_b :: "nat option"
  a_regno :: nat

definition reg_stmt :: "int \<Rightarrow> nat \<Rightarrow> stmt" where
  "reg_stmt code r = new_stmt code (of_nat r)"

definition xfer_to_x :: "arth \<Rightarrow> stmt list" where
  "xfer_to_x a = [reg_stmt (BPF_LDX OR BPF_MEM) (a_regno a)]"

definition xfer_to_a :: "arth \<Rightarrow> stmt list" where
  "xfer_to_a a = [reg_stmt (BPF_LD OR BPF_MEM) (a_regno a)]"

definition glift :: "gen_error + 'a \<Rightarrow> 'a gm" where
  "glift r = (case r of Inl e \<Rightarrow> gfail e | Inr x \<Rightarrow> gret x)"

definition gen_loadi :: "int \<Rightarrow> regfile \<Rightarrow> (arth \<times> regfile) gm" where
  "gen_loadi v R =
     gbind (glift (alloc_reg R)) (\<lambda>(reg, R1).
     gret (\<lparr>a_s = [new_stmt (BPF_LD OR BPF_IMM) (word_of_int v), reg_stmt BPF_ST reg], a_b = None, a_regno = reg\<rparr>, R1))"

definition gen_loadlen :: "regfile \<Rightarrow> (arth \<times> regfile) gm" where
  "gen_loadlen R =
     gbind (glift (alloc_reg R)) (\<lambda>(reg, R1).
     gret (\<lparr>a_s = [new_stmt (BPF_LD OR BPF_LEN) 0, reg_stmt BPF_ST reg], a_b = None, a_regno = reg\<rparr>, R1))"

text \<open>\<open>gen_load\<close>: the item of a size at an offset into the header of a protocol. With link headers of fixed length
  \<open>gen_llprefixlen\<close> and \<open>gen_off_macpl\<close> have no code.\<close>

definition load_size :: "int \<Rightarrow> bsize option" where
  "load_size n = (if n = 1 then Some SzB else if n = 2 then Some SzH else if n = 4 then Some SzW else None)"

definition net_protos :: "int list" where
  "net_protos = [Q_IP, Q_ARP, Q_RARP, Q_ATALK, Q_DECNET, Q_SCA, Q_LAT, Q_MOPRC, Q_MOPDL, Q_IPV6]"

definition tran_protos :: "int list" where
  "tran_protos = [Q_SCTP, Q_TCP, Q_UDP, Q_ICMP, Q_IGMP, Q_IGRP, Q_PIM, Q_VRRP]"

definition load_item :: "layout \<Rightarrow> int \<Rightarrow> arth \<Rightarrow> bsize \<Rightarrow> (stmt list \<times> nat option) gm" where
  "load_item L proto inst z =
     (let item = (\<lambda>k. new_stmt (BPF_LD OR BPF_IND OR size_bits z) k) in
      if proto = Q_RADIO then
        (if linktype L \<notin> {DLT_IEEE802_11_RADIO_AVS, DLT_IEEE802_11_RADIO, DLT_PRISM_HEADER} then gfail BpfError
         else gret (xfer_to_x inst @ [item 0], a_b inst))
      else if proto \<in> set (Q_LINK # net_protos @ tran_protos) \<and> \<not> fixed_headers L then gfail GenOutside
      else if proto = Q_LINK then gret (xfer_to_x inst @ [item (off_ll L)], a_b inst)
      else if proto \<in> set net_protos then
        gbind (gen_proto_abbrev L proto) (\<lambda>b.
        gbind (and_opt (a_b inst) b) (\<lambda>_.
        gret (xfer_to_x inst @ [item (off_macpl L + off_nl L)], Some b)))
      else if proto \<in> set tran_protos then
        gbind (gen_proto_abbrev L proto) (\<lambda>p.
        gbind (gen_ipfrag L) (\<lambda>b.
        gbind (gen_and p b) (\<lambda>_.
        gbind (and_opt (a_b inst) b) (\<lambda>_.
        gbind (gen_proto_abbrev L Q_IP) (\<lambda>i.
        gbind (gen_and i b) (\<lambda>_.
        gret (gen_loadx_iphdrlen L @ xfer_to_a inst @
          [new_stmt (BPF_ALU OR BPF_ADD OR BPF_X) 0, new_stmt (BPF_MISC OR BPF_TAX) 0, item (off_macpl L + off_nl L)],
          Some b)))))))
      else gfail BpfError)"

definition gen_load :: "layout \<Rightarrow> int \<Rightarrow> arth \<Rightarrow> int \<Rightarrow> regfile \<Rightarrow> (arth \<times> regfile) gm" where
  "gen_load L proto inst sz R =
     gbind (glift (alloc_reg R)) (\<lambda>(regno, R1).
     let R2 = free_reg (a_regno inst) R1 in
     case load_size sz of None \<Rightarrow> gfail BpfError
     | Some z \<Rightarrow>
         gbind (load_item L proto inst z) (\<lambda>(s, b).
         gret (\<lparr>a_s = a_s inst @ s @ [reg_stmt BPF_ST regno], a_b = b, a_regno = regno\<rparr>, R2)))"

definition gen_neg :: "arth \<Rightarrow> arth" where
  "gen_neg a = a\<lparr>a_s := a_s a @ xfer_to_a a @ [new_stmt (BPF_ALU OR BPF_NEG) 0, reg_stmt BPF_ST (a_regno a)]\<rparr>"

text \<open>The block of the second operand is not kept.\<close>

definition gen_arth :: "alu_op \<Rightarrow> arth \<Rightarrow> arth \<Rightarrow> regfile \<Rightarrow> (arth \<times> regfile) gm" where
  "gen_arth op a0 a1 R =
     (let s = a_s a0 @ a_s a1 @ xfer_to_x a1 @ xfer_to_a a0 @ [new_stmt (BPF_ALU OR BPF_X OR alu_bits op) 0]
      in gbind (glift (alloc_reg (free_reg (a_regno a1) (free_reg (a_regno a0) R)))) (\<lambda>(reg, R1).
         gret (a0\<lparr>a_s := s @ [reg_stmt BPF_ST reg], a_regno := reg\<rparr>, R1)))"

definition gen_relation :: "jmp_op \<Rightarrow> arth \<Rightarrow> arth \<Rightarrow> bool \<Rightarrow> regfile \<Rightarrow> (nat \<times> regfile) gm" where
  "gen_relation code a0 a1 reversed R =
     (let s0 = xfer_to_x a1;
          s1 = xfer_to_a a0 @ (if code = JEQ then [new_stmt (BPF_ALU OR BPF_SUB OR BPF_X) 0] else [])
      in gbind (new_block (if code = JEQ then JMP code else BPF_JMP OR jmp_bits code OR BPF_X)) (\<lambda>b.
         gbind (if reversed then gen_not b else gret ()) (\<lambda>_.
         gbind (set_stmts b (a_s a0 @ a_s a1 @ s0 @ s1)) (\<lambda>_.
         gbind (case (a_b a0, a_b a1) of
                  (Some x, Some y) \<Rightarrow> gbind (gen_and x y) (\<lambda>_. gret (Some y))
                | (Some x, None) \<Rightarrow> gret (Some x)
                | (None, y) \<Rightarrow> gret y) (\<lambda>tmp.
         gbind (and_opt tmp b) (\<lambda>_.
         gret (b, free_reg (a_regno a1) (free_reg (a_regno a0) R))))))))"

text \<open>The rules \<open>arth\<close> and \<open>narth\<close> of \<^verbatim>\<open>grammar.y\<close>.\<close>

datatype aexp = ANum int | ALen | ALoad int aexp int | ANeg aexp | ABin alu_op aexp aexp

fun gen_aexp :: "layout \<Rightarrow> aexp \<Rightarrow> regfile \<Rightarrow> (arth \<times> regfile) gm" where
  "gen_aexp L (ANum v) R = gen_loadi v R"
| "gen_aexp L ALen R = gen_loadlen R"
| "gen_aexp L (ALoad p i n) R = gbind (gen_aexp L i R) (\<lambda>(a, R1). gen_load L p a n R1)"
| "gen_aexp L (ANeg e) R = gbind (gen_aexp L e R) (\<lambda>(a, R1). gret (gen_neg a, R1))"
| "gen_aexp L (ABin op e0 e1) R =
     gbind (gen_aexp L e0 R) (\<lambda>(a0, R1).
     gbind (gen_aexp L e1 R1) (\<lambda>(a1, R2). gen_arth op a0 a1 R2))"

definition gen_rel :: "layout \<Rightarrow> jmp_op \<Rightarrow> bool \<Rightarrow> aexp \<Rightarrow> aexp \<Rightarrow> (nat \<times> layout) gm" where
  "gen_rel L code reversed e0 e1 =
     gbind (gen_aexp L e0 (lay_regs L)) (\<lambda>(a0, R1).
     gbind (gen_aexp L e1 R1) (\<lambda>(a1, R2).
     gbind (gen_relation code a0 a1 reversed R2) (\<lambda>(b, R3). gret (b, L\<lparr>lay_regs := R3\<rparr>))))"

section \<open>Allocation\<close>

definition regs_ok :: "regfile \<Rightarrow> bool" where
  "regs_ok R \<longleftrightarrow> regused R \<subseteq> {..<BPF_MEMWORDS} \<and> curreg R < BPF_MEMWORDS"

lemma find_reg_None:
  "find_reg n U cur = None \<Longrightarrow> k < n \<Longrightarrow> cur < BPF_MEMWORDS \<Longrightarrow> (cur + k) mod BPF_MEMWORDS \<in> U"
proof (induction n arbitrary: cur k)
  case (Suc n)
  then have c: "cur \<in> U" "find_reg n U ((cur + 1) mod BPF_MEMWORDS) = None" by (auto split: if_splits)
  show ?case
  proof (cases k)
    case 0
    then show ?thesis using c Suc.prems by simp
  next
    case (Suc m)
    then have "((cur + 1) mod BPF_MEMWORDS + m) mod BPF_MEMWORDS \<in> U"
      using Suc.IH [OF c(2), of m] Suc.prems(2) by simp
    then show ?thesis using Suc by (simp add: mod_simps)
  qed
qed simp

lemma find_reg_Some:
  "find_reg n U cur = Some r \<Longrightarrow> cur < BPF_MEMWORDS \<Longrightarrow> r \<notin> U \<and> r < BPF_MEMWORDS"
  by (induction n arbitrary: cur) (auto split: if_splits)

lemma find_reg_full: "cur < BPF_MEMWORDS \<Longrightarrow> find_reg n {..<BPF_MEMWORDS} cur = None"
  by (induction n arbitrary: cur) auto

text \<open>A register is found unless all sixteen are in use.\<close>

lemma alloc_reg_cases:
  assumes "regs_ok R"
  shows "if card (regused R) < BPF_MEMWORDS
    then \<exists>r R'. alloc_reg R = Inr (r, R') \<and> r < BPF_MEMWORDS \<and> r \<notin> regused R \<and> regused R' = insert r (regused R) \<and> regs_ok R'
    else alloc_reg R = Inl BpfError"
proof (cases "find_reg BPF_MEMWORDS (regused R) (curreg R)")
  case None
  have "k \<in> regused R" if "k < BPF_MEMWORDS" for k
  proof -
    have c: "curreg R < BPF_MEMWORDS" using assms by (simp add: regs_ok_def)
    have "(curreg R + (k + BPF_MEMWORDS - curreg R) mod BPF_MEMWORDS) mod BPF_MEMWORDS \<in> regused R"
      by (rule find_reg_None [OF None _ c]) simp
    moreover have "(curreg R + (k + BPF_MEMWORDS - curreg R) mod BPF_MEMWORDS) mod BPF_MEMWORDS = k"
      using that c by (simp add: mod_simps)
    ultimately show ?thesis by simp
  qed
  then have "regused R = {..<BPF_MEMWORDS}" using assms by (auto simp: regs_ok_def)
  then show ?thesis using None by (simp add: alloc_reg_def)
next
  case (Some r)
  then have r: "r \<notin> regused R" "r < BPF_MEMWORDS" using find_reg_Some [OF Some] assms by (auto simp: regs_ok_def)
  have "regused R \<subset> {..<BPF_MEMWORDS}" using r assms by (auto simp: regs_ok_def)
  then have "card (regused R) < BPF_MEMWORDS" using psubset_card_mono [of "{..<BPF_MEMWORDS}" "regused R"] by simp
  then show ?thesis using Some r assms by (auto simp: alloc_reg_def regs_ok_def)
qed

section \<open>What the statements do\<close>

text \<open>\<open>w\<close> ends as \<open>z\<close> does, with a state in which \<open>R\<close> holds of the value.\<close>

definition ends :: "'a outcome \<Rightarrow> ('a \<Rightarrow> 'b \<Rightarrow> bool) \<Rightarrow> 'b outcome \<Rightarrow> bool" where
  "ends z R w \<longleftrightarrow> (case z of Next v \<Rightarrow> \<exists>x. w = Next x \<and> R v x
     | Ret u \<Rightarrow> w = Ret u | Abort \<Rightarrow> w = Abort | Fault e \<Rightarrow> w = Fault e)"

lemma ends_Next [simp]: "ends (Next v) R (Next x) \<longleftrightarrow> R v x" "ends (Ret u) R (Ret u')\<longleftrightarrow> u = u'"
  by (auto simp: ends_def)

lemma ends_and_then:
  "ends z R w \<Longrightarrow> (\<And>v x. R v x \<Longrightarrow> ends (f v) S (h x)) \<Longrightarrow> ends (and_then z f) S (and_then w h)"
proof (cases z)
  case (Next v)
  assume "ends z R w" and f: "\<And>v x. R v x \<Longrightarrow> ends (f v) S (h x)"
  then obtain x where "w = Next x" "R v x" using Next by (auto simp: ends_def)
  then show ?thesis using Next f by simp
qed (auto simp: ends_def)

lemma ends_id: "(\<And>v. R v (h v)) \<Longrightarrow> ends z R (and_then z (\<lambda>v. Next (h v)))"
  by (cases z) (auto simp: ends_def)

lemma ends_mono: "ends z R w \<Longrightarrow> (\<And>v x. R v x \<Longrightarrow> S v x) \<Longrightarrow> ends z S w"
  by (cases z) (auto simp: ends_def)

abbreviation kept :: "nat set \<Rightarrow> regs \<Rightarrow> regs \<Rightarrow> bool" where
  "kept U r r' \<equiv> length (rM r') = BPF_MEMWORDS \<and> (\<forall>i \<in> U. rM r' ! i = rM r ! i)"

text \<open>\<open>s\<close> computes \<open>f\<close> of the packet, shown by \<open>R\<close> in the scratch memory, and does not touch the
  registers \<open>U\<close>; \<open>leaves\<close>: the value is in register \<open>q\<close>.\<close>

definition runs_to :: "nat set \<Rightarrow> stmt list \<Rightarrow> ('v \<Rightarrow> u32 list \<Rightarrow> bool) \<Rightarrow> (packet \<Rightarrow> 'v outcome) \<Rightarrow> bool" where
  "runs_to U s R f \<longleftrightarrow> list_all plain_stmt s \<and> (\<forall>pk r. length (rM r) = BPF_MEMWORDS \<longrightarrow>
     ends (f pk) (\<lambda>v r'. kept U r r' \<and> R v (rM r')) (exec_stmts pk s r))"

definition leaves :: "nat set \<Rightarrow> stmt list \<Rightarrow> nat \<Rightarrow> (packet \<Rightarrow> u32 outcome) \<Rightarrow> bool" where
  "leaves U s q f \<longleftrightarrow> q < BPF_MEMWORDS \<and> q \<notin> U \<and> runs_to U s (\<lambda>v m. m ! q = v) f"

lemma runs_toD:
  "runs_to U s R f \<Longrightarrow> length (rM r) = BPF_MEMWORDS \<Longrightarrow>
    ends (f pk) (\<lambda>v r'. kept U r r' \<and> R v (rM r')) (exec_stmts pk s r)"
  by (simp add: runs_to_def)

lemma runs_to_both:
  assumes s0: "leaves U s0 q0 f0" and s1: "leaves (insert q0 U) s1 q1 f1"
  shows "runs_to U (s0 @ s1) (\<lambda>(v0, v1) m. m ! q0 = v0 \<and> m ! q1 = v1)
    (\<lambda>pk. and_then (f0 pk) (\<lambda>v0. and_then (f1 pk) (\<lambda>v1. Next (v0, v1))))"
  unfolding runs_to_def
proof (intro conjI allI impI)
  show "list_all plain_stmt (s0 @ s1)" using s0 s1 by (simp add: leaves_def runs_to_def)
  fix pk and r :: regs
  assume r: "length (rM r) = BPF_MEMWORDS"
  show "ends (and_then (f0 pk) (\<lambda>v0. and_then (f1 pk) (\<lambda>v1. Next (v0, v1))))
      (\<lambda>v r'. kept U r r' \<and> (case v of (v0, v1) \<Rightarrow> \<lambda>m. m ! q0 = v0 \<and> m ! q1 = v1) (rM r')) (exec_stmts pk (s0 @ s1) r)"
    unfolding exec_stmts_append
  proof (rule ends_and_then)
    show "ends (f0 pk) (\<lambda>v r'. kept U r r' \<and> rM r' ! q0 = v) (exec_stmts pk s0 r)"
      using s0 r by (simp add: leaves_def runs_to_def)
    fix v0 r1 assume r1: "kept U r r1 \<and> rM r1 ! q0 = v0"
    have m: "runs_to (insert q0 U) s1 (\<lambda>v m. m ! q1 = v) f1" using s1 by (simp add: leaves_def)
    have "ends (f1 pk) (\<lambda>v r'. kept (insert q0 U) r1 r' \<and> rM r' ! q1 = v) (exec_stmts pk s1 r1)"
      by (rule runs_toD [OF m]) (use r1 in simp)
    moreover have "and_then w Next = w" for w :: "regs outcome" by (cases w) simp_all
    moreover have "ends (and_then (f1 pk) (\<lambda>v1. Next (v0, v1)))
      (\<lambda>v r'. kept U r r' \<and> (case v of (v0, v1) \<Rightarrow> \<lambda>m. m ! q0 = v0 \<and> m ! q1 = v1) (rM r'))
      (and_then (exec_stmts pk s1 r1) Next)"
      by (rule ends_and_then [OF calculation(1)]) (use r1 in auto)
    ultimately show "ends (and_then (f1 pk) (\<lambda>v1. Next (v0, v1)))
      (\<lambda>v r'. kept U r r' \<and> (case v of (v0, v1) \<Rightarrow> \<lambda>m. m ! q0 = v0 \<and> m ! q1 = v1) (rM r'))
      (exec_stmts pk s1 r1)" by simp
  qed
qed

text \<open>\<open>t\<close> computes \<open>h\<close> in the accumulator from the scratch memory.\<close>

definition puts :: "stmt list \<Rightarrow> (packet \<Rightarrow> u32 list \<Rightarrow> u32 outcome) \<Rightarrow> bool" where
  "puts t h \<longleftrightarrow> list_all plain_stmt t \<and>
     (\<forall>pk r. length (rM r) = BPF_MEMWORDS \<longrightarrow>
        ends (h pk (rM r)) (\<lambda>v r'. rA r' = v \<and> rM r' = rM r) (exec_stmts pk t r))"

lemma putsD:
  "puts t h \<Longrightarrow> length (rM r) = BPF_MEMWORDS \<Longrightarrow>
    ends (h pk (rM r)) (\<lambda>v r'. rA r' = v \<and> rM r' = rM r) (exec_stmts pk t r)"
  by (simp add: puts_def)

lemma decode_arith [simp]:
  "decode (BPF_LD OR BPF_MEM) = Some LdMem" "decode (BPF_LDX OR BPF_MEM) = Some LdxMem" "decode BPF_ST = Some St"
  "decode (BPF_MISC OR BPF_TAX) = Some Tax" "decode (BPF_ALU OR BPF_NEG) = Some AluNeg"
  "decode (BPF_ALU OR BPF_ADD OR BPF_X) = Some (Alu AAdd SrcX)" "decode (BPF_ALU OR BPF_SUB OR BPF_X) = Some (Alu ASub SrcX)"
  "decode (BPF_ALU OR BPF_X OR alu_bits op) = Some (Alu op SrcX)"
  "decode (BPF_JMP OR jmp_bits j OR BPF_X) = Some (Jmp j SrcX)"
  by (simp_all add: decode_Some_iff) (cases op; simp)

lemma unat_reg: "q < BPF_MEMWORDS \<Longrightarrow> unat (of_nat q :: u32) = q"
  by simp

lemma exec_reg:
  assumes "q < BPF_MEMWORDS" and "length (rM r) = BPF_MEMWORDS"
  shows "exec_stmt pk (reg_stmt (BPF_LD OR BPF_MEM) q) r = Next (r\<lparr>rA := rM r ! q\<rparr>)"
    and "exec_stmt pk (reg_stmt (BPF_LDX OR BPF_MEM) q) r = Next (r\<lparr>rX := rM r ! q\<rparr>)"
    and "exec_stmt pk (reg_stmt BPF_ST q) r = Next (r\<lparr>rM := (rM r)[q := rA r]\<rparr>)"
  unfolding reg_stmt_def
  by (subst exec_new_stmt [OF decode_arith(1)] exec_new_stmt [OF decode_arith(2)] exec_new_stmt [OF decode_arith(3)];
      use assms unat_reg [OF assms(1)] in \<open>simp add: mem_read_def mem_write_def\<close>)+

lemma exec_arith:
  "exec_stmt pk (new_stmt (BPF_MISC OR BPF_TAX) k) r = Next (r\<lparr>rX := rA r\<rparr>)"
  "exec_stmt pk (new_stmt (BPF_ALU OR BPF_NEG) k) r = Next (r\<lparr>rA := - rA r\<rparr>)"
  "exec_stmt pk (new_stmt (BPF_ALU OR BPF_ADD OR BPF_X) k) r = Next (r\<lparr>rA := rA r + rX r\<rparr>)"
  "exec_stmt pk (new_stmt (BPF_ALU OR BPF_SUB OR BPF_X) k) r = Next (r\<lparr>rA := rA r - rX r\<rparr>)"
  "exec_stmt pk (new_stmt (BPF_LD OR BPF_IMM) k) r = Next (r\<lparr>rA := k\<rparr>)"
  "exec_stmt pk (new_stmt (BPF_LD OR BPF_LEN) k) r = Next (r\<lparr>rA := pk_wirelen pk\<rparr>)"
  "exec_stmt pk (new_stmt (BPF_LD OR BPF_IND OR size_bits z) k) r = and_then (fetch pk z (rX r + k)) (\<lambda>v. Next (r\<lparr>rA := v\<rparr>))"
  "exec_stmt pk (new_stmt (BPF_LDX OR BPF_MSH OR BPF_B) k) r =
     and_then (fetch pk SzB k) (\<lambda>v. Next (r\<lparr>rX := push_bit 2 (v AND 0xf)\<rparr>))"
  "exec_stmt pk (new_stmt (BPF_ALU OR BPF_X OR alu_bits op) k) r =
     (if op = ADiv \<and> rX r = 0 then Ret 0 else and_then (alu_val op (rA r) (rX r)) (\<lambda>v. Next (r\<lparr>rA := v\<rparr>)))"
  by (subst exec_new_stmt [OF decode_arith(4)] exec_new_stmt [OF decode_arith(5)] exec_new_stmt [OF decode_arith(6)]
      exec_new_stmt [OF decode_arith(7)] exec_new_stmt [OF decode_msh_and_imm(3)] exec_new_stmt [OF decode_len]
      exec_new_stmt [OF decode_load(2)] exec_new_stmt [OF decode_msh_and_imm(1)] exec_new_stmt [OF decode_arith(8)];
      simp)+

lemma plain_arith:
  "q < BPF_MEMWORDS \<Longrightarrow> plain_stmt (reg_stmt (BPF_LD OR BPF_MEM) q)" "q < BPF_MEMWORDS \<Longrightarrow> plain_stmt (reg_stmt (BPF_LDX OR BPF_MEM) q)"
  "q < BPF_MEMWORDS \<Longrightarrow> plain_stmt (reg_stmt BPF_ST q)"
  "plain_stmt (new_stmt (BPF_MISC OR BPF_TAX) k)" "plain_stmt (new_stmt (BPF_ALU OR BPF_NEG) k)"
  "plain_stmt (new_stmt (BPF_ALU OR BPF_ADD OR BPF_X) k)" "plain_stmt (new_stmt (BPF_ALU OR BPF_SUB OR BPF_X) k)"
  "plain_stmt (new_stmt (BPF_LD OR BPF_IMM) k)" "plain_stmt (new_stmt (BPF_LD OR BPF_LEN) k)"
  "plain_stmt (new_stmt (BPF_LD OR BPF_IND OR size_bits z) k)" "plain_stmt (new_stmt (BPF_LDX OR BPF_MSH OR BPF_B) k)"
  "plain_stmt (new_stmt (BPF_ALU OR BPF_X OR alu_bits op) k)"
  unfolding reg_stmt_def
  by (rule wf_new_stmt [OF decode_arith(1)] wf_new_stmt [OF decode_arith(2)] wf_new_stmt [OF decode_arith(3)]
      wf_new_stmt [OF decode_arith(4)] wf_new_stmt [OF decode_arith(5)] wf_new_stmt [OF decode_arith(6)]
      wf_new_stmt [OF decode_arith(7)] wf_new_stmt [OF decode_msh_and_imm(3)] wf_new_stmt [OF decode_len]
      wf_new_stmt [OF decode_load(2)] wf_new_stmt [OF decode_msh_and_imm(1)] wf_new_stmt [OF decode_arith(8)];
      simp add: unat_reg)+

lemma leaves_append:
  assumes s: "runs_to U s R f" and t: "puts t h" and U: "U' \<subseteq> U" and q: "q' < BPF_MEMWORDS" "q' \<notin> U'"
    and h: "\<And>pk v m. R v m \<Longrightarrow> h pk m = k pk v"
  shows "leaves U' (s @ t @ [reg_stmt BPF_ST q']) q' (\<lambda>pk. and_then (f pk) (k pk))"
  unfolding leaves_def runs_to_def
proof (intro conjI allI impI)
  show "list_all plain_stmt (s @ t @ [reg_stmt BPF_ST q'])" using s t q by (simp add: runs_to_def puts_def plain_arith)
  fix pk and r :: regs
  assume r: "length (rM r) = BPF_MEMWORDS"
  have "exec_stmts pk (t @ [reg_stmt BPF_ST q']) = (\<lambda>r1. and_then (exec_stmts pk t r1) (exec_stmts pk [reg_stmt BPF_ST q']))"
    by (rule ext) (simp only: exec_stmts_append)
  then have st: "exec_stmts pk (s @ t @ [reg_stmt BPF_ST q']) r =
      and_then (exec_stmts pk s r) (\<lambda>r1. and_then (exec_stmts pk t r1) (exec_stmts pk [reg_stmt BPF_ST q']))"
    by (simp only: exec_stmts_append)
  have id: "and_then (k pk v) Next = k pk v" for v by (cases "k pk v") simp_all
  have "ends (and_then (f pk) (\<lambda>v. and_then (k pk v) Next)) (\<lambda>v r'. kept U' r r' \<and> rM r' ! q' = v)
      (exec_stmts pk (s @ t @ [reg_stmt BPF_ST q']) r)"
    unfolding st
  proof (rule ends_and_then)
    show "ends (f pk) (\<lambda>v r'. kept U r r' \<and> R v (rM r')) (exec_stmts pk s r)" using s r by (simp add: runs_to_def)
    fix v r1 assume r1: "kept U r r1 \<and> R v (rM r1)"
    show "ends (and_then (k pk v) Next) (\<lambda>v r'. kept U' r r' \<and> rM r' ! q' = v)
        (and_then (exec_stmts pk t r1) (exec_stmts pk [reg_stmt BPF_ST q']))"
    proof (rule ends_and_then)
      show "ends (k pk v) (\<lambda>v r'. rA r' = v \<and> rM r' = rM r1) (exec_stmts pk t r1)"
        using putsD [OF t, of r1 pk] r1 h [of v "rM r1" pk] by simp
      fix w and r2 :: regs
      assume r2: "rA r2 = w \<and> rM r2 = rM r1"
      then have "exec_stmts pk [reg_stmt BPF_ST q'] r2 = Next (r2\<lparr>rM := (rM r2)[q' := rA r2]\<rparr>)"
        using exec_reg(3) [OF q(1), of r2 pk] r1 by simp
      then show "ends (Next w) (\<lambda>v r'. kept U' r r' \<and> rM r' ! q' = v) (exec_stmts pk [reg_stmt BPF_ST q'] r2)"
        using r1 r2 q U by (auto simp: nth_list_update)
    qed
  qed
  then show "ends (and_then (f pk) (k pk)) (\<lambda>v r'. kept U' r r' \<and> rM r' ! q' = v)
      (exec_stmts pk (s @ t @ [reg_stmt BPF_ST q']) r)"
    by (simp only: id)
qed (use q in auto)

text \<open>The statements of the operations. The simplifier computes the codes.\<close>

lemmas arith_steps = plain_arith [simplified] exec_arith [simplified] exec_reg [simplified]

definition arith :: "alu_op \<Rightarrow> u32 \<Rightarrow> u32 \<Rightarrow> u32 outcome" where
  "arith op a x = (if op = ADiv \<and> x = 0 then Ret 0 else alu_val op a x)"

lemma putsI:
  assumes "list_all plain_stmt t"
    and "\<And>pk r. length (rM r) = BPF_MEMWORDS \<Longrightarrow>
      ends (h pk (rM r)) (\<lambda>v r'. rA r' = v \<and> rM r' = rM r) (exec_stmts pk t r)"
  shows "puts t h"
  using assms by (simp add: puts_def)

lemma puts_const:
  "puts [new_stmt (BPF_LD OR BPF_IMM) k] (\<lambda>pk m. Next k)"
  "puts [new_stmt (BPF_LD OR BPF_LEN) k] (\<lambda>pk m. Next (pk_wirelen pk))"
  by (rule putsI; simp add: arith_steps)+

lemma puts_neg: "q < BPF_MEMWORDS \<Longrightarrow>
    puts [reg_stmt (BPF_LD OR BPF_MEM) q, new_stmt (BPF_ALU OR BPF_NEG) k] (\<lambda>pk m. Next (- (m ! q)))"
  by (rule putsI) (simp_all add: arith_steps)

lemma puts_item: "q < BPF_MEMWORDS \<Longrightarrow>
    puts [reg_stmt (BPF_LDX OR BPF_MEM) q, new_stmt (BPF_LD OR BPF_IND OR size_bits z) k]
      (\<lambda>pk m. fetch pk z (m ! q + k))"
  by (rule putsI) (simp_all add: arith_steps, simp add: ends_def split: outcome.splits)

lemma puts_tran: "q < BPF_MEMWORDS \<Longrightarrow>
    puts [new_stmt (BPF_LDX OR BPF_MSH OR BPF_B) n, reg_stmt (BPF_LD OR BPF_MEM) q, new_stmt (BPF_ALU OR BPF_ADD OR BPF_X) 0,
        new_stmt (BPF_MISC OR BPF_TAX) 0, new_stmt (BPF_LD OR BPF_IND OR size_bits z) k]
      (\<lambda>pk m. and_then (fetch pk SzB n) (\<lambda>v. fetch pk z (m ! q + push_bit 2 (v AND 0xf) + k)))"
proof (rule putsI)
  assume q: "q < BPF_MEMWORDS"
  show "list_all plain_stmt [new_stmt (BPF_LDX OR BPF_MSH OR BPF_B) n, reg_stmt (BPF_LD OR BPF_MEM) q,
      new_stmt (BPF_ALU OR BPF_ADD OR BPF_X) 0, new_stmt (BPF_MISC OR BPF_TAX) 0, new_stmt (BPF_LD OR BPF_IND OR size_bits z) k]"
    using q by (simp add: arith_steps)
  fix pk and r :: regs
  assume r: "length (rM r) = BPF_MEMWORDS"
  show "ends (and_then (fetch pk SzB n) (\<lambda>v. fetch pk z (rM r ! q + push_bit 2 (v AND 0xf) + k)))
      (\<lambda>v r'. rA r' = v \<and> rM r' = rM r)
      (exec_stmts pk [new_stmt (BPF_LDX OR BPF_MSH OR BPF_B) n, reg_stmt (BPF_LD OR BPF_MEM) q,
        new_stmt (BPF_ALU OR BPF_ADD OR BPF_X) 0, new_stmt (BPF_MISC OR BPF_TAX) 0, new_stmt (BPF_LD OR BPF_IND OR size_bits z) k] r)"
  proof (cases "fetch pk SzB n")
    case (Next v)
    then show ?thesis using q r
      by (cases "fetch pk z (rM r ! q + push_bit 2 (v AND 0xf) + k)") (simp_all add: arith_steps ends_def)
  qed (simp_all add: arith_steps ends_def)
qed

lemma puts_arith: "q0 < BPF_MEMWORDS \<Longrightarrow> q1 < BPF_MEMWORDS \<Longrightarrow>
    puts [reg_stmt (BPF_LDX OR BPF_MEM) q1, reg_stmt (BPF_LD OR BPF_MEM) q0, new_stmt (BPF_ALU OR BPF_X OR alu_bits op) 0]
      (\<lambda>pk m. arith op (m ! q0) (m ! q1))"
proof (rule putsI)
  assume q: "q0 < BPF_MEMWORDS" "q1 < BPF_MEMWORDS"
  show "list_all plain_stmt [reg_stmt (BPF_LDX OR BPF_MEM) q1, reg_stmt (BPF_LD OR BPF_MEM) q0,
      new_stmt (BPF_ALU OR BPF_X OR alu_bits op) 0]"
    using q by (simp add: arith_steps)
  fix pk and r :: regs
  assume r: "length (rM r) = BPF_MEMWORDS"
  show "ends (arith op (rM r ! q0) (rM r ! q1)) (\<lambda>v r'. rA r' = v \<and> rM r' = rM r)
      (exec_stmts pk [reg_stmt (BPF_LDX OR BPF_MEM) q1, reg_stmt (BPF_LD OR BPF_MEM) q0,
        new_stmt (BPF_ALU OR BPF_X OR alu_bits op) 0] r)"
    using q r by (cases "alu_val op (rM r ! q0) (rM r ! q1)") (simp_all add: arith_steps arith_def ends_def)
qed

lemma ends_eq: "ends z R w \<Longrightarrow> (\<And>v x. R v x \<Longrightarrow> h x = k v) \<Longrightarrow> and_then w h = and_then z k"
  by (cases z) (auto simp: ends_def)

section \<open>The tests that guard a value\<close>

text \<open>\<open>m\<close> makes the test \<open>G\<close>, or none.\<close>

definition guards :: "nat option gm \<Rightarrow> pred option \<Rightarrow> bool" where
  "guards m G \<longleftrightarrow> (case G of
       None \<Rightarrow> \<exists>m0 :: unit gm. m = gbind m0 (\<lambda>_. gret None) \<and> hoare [] m0 (\<lambda>_. [])
     | Some P \<Rightarrow> \<exists>m0. m = gbind m0 (\<lambda>b. gret (Some b)) \<and> makes m0 P)"

lemma guards_none: "guards (gret None) None"
proof -
  have "hoare [] (gret ()) (\<lambda>_. [])" using hoare_ret [where Q = "\<lambda>_. []" and v = "()"] by simp
  then show ?thesis unfolding guards_def option.case by (intro exI [of _ "gret ()"]) (simp add: gbind_gret)
qed

lemma guards_some: "makes m P \<Longrightarrow> guards (gbind m (\<lambda>b. gret (Some b))) (Some P)"
  by (auto simp: guards_def)

lemma tri_drop: "tri xs m r \<Longrightarrow> tri ((b, P) # xs) m r"
proof -
  have o: "owns g xs A" if a: "owns g ((b, P) # xs) A" for g A
  proof -
    obtain D ts fs rk where "D \<subseteq> A" "expr_at g b D ts fs rk P" "owns g xs (A - D)" using a by auto
    then show ?thesis using owns_mono owns_sub [OF a] by blast
  qed
  show "tri xs m r \<Longrightarrow> tri ((b, P) # xs) m r"
  proof (cases r)
    case (Inl e)
    assume "tri xs m r"
    then show ?thesis unfolding tri_def Inl sum.case using o by blast
  next
    case (Inr Q)
    assume "tri xs m r"
    then show ?thesis unfolding tri_def Inr sum.case by (rule hoare_pre) (rule o)
  qed
qed

lemma tri_guard:
  assumes m: "guards m G" and n: "G = None \<Longrightarrow> tri xs (k None) r"
    and s: "\<And>b P. G = Some P \<Longrightarrow> tri ((b, P) # xs) (k (Some b)) r"
  shows "tri xs (gbind m k) r"
proof (cases G)
  case None
  then obtain m0 :: "unit gm" where m0: "m = gbind m0 (\<lambda>_. gret None)" "hoare [] m0 (\<lambda>_. [])"
    using m by (auto simp: guards_def)
  have "hoare xs m0 (\<lambda>_. xs)" using hoare_frame [OF m0(2), of xs] by simp
  then have "tri xs (gbind m0 (\<lambda>_. k None)) r" by (rule tri_bind) (rule n [OF None])
  then show ?thesis unfolding m0(1) by (simp only: gbind_assoc gbind_gret)
next
  case (Some P)
  then obtain m0 where m0: "m = gbind m0 (\<lambda>b. gret (Some b))" "makes m0 P" using m by (auto simp: guards_def)
  have "tri xs (gbind m0 (\<lambda>b. k (Some b))) r" by (rule tri_makes [OF m0(2)]) (rule s [OF Some])
  then show ?thesis unfolding m0(1) by (simp only: gbind_assoc gbind_gret)
qed

lemma tri_guard_drop: "guards m G \<Longrightarrow> (\<And>b. tri xs (k b) r) \<Longrightarrow> tri xs (gbind m k) r"
  by (rule tri_guard) (auto intro: tri_drop)

lemma gives_failD: "gives m (Inl e) \<Longrightarrow> m = gfail e"
  by (rule ext) (use gives_error [of m e] in \<open>simp add: gfail_def\<close>)

lemma guards_fail: "guards m G \<Longrightarrow> gbind m (\<lambda>_. gfail e) = gfail e"
proof -
  assume m: "guards m G"
  have f: "gbind m (\<lambda>_. gfail e) = (gfail e :: nat gm)" for e
    by (rule gives_failD, rule tri_guard_drop [OF m], rule tri_fail)
  have "\<exists>v g'. m g = Inr (v, g')" for g
    using fun_cong [OF f [of BpfError], of g] fun_cong [OF f [of GenAbort], of g]
    by (cases "m g") (auto simp: gfail_def)
  then show ?thesis by (auto simp: fun_eq_iff gfail_def split: sum.splits) (metis Inl_Inr_False)
qed

text \<open>The second guard is dropped.\<close>

lemma guards_first:
  assumes m: "guards m G" and n: "guards n H"
  shows "guards (gbind m (\<lambda>b. gbind n (\<lambda>_. gret b))) G"
proof (cases G)
  case None
  then obtain m0 :: "unit gm" where m0: "m = gbind m0 (\<lambda>_. gret None)" "hoare [] m0 (\<lambda>_. [])"
    using m by (auto simp: guards_def)
  have "\<exists>n0 :: unit gm. (\<forall>k :: nat option gm. gbind n (\<lambda>_. k) = gbind n0 (\<lambda>_. k)) \<and> hoare [] n0 (\<lambda>_. [])"
  proof (cases H)
    case None
    then obtain n0 :: "unit gm" where n0: "n = gbind n0 (\<lambda>_. gret None)" "hoare [] n0 (\<lambda>_. [])"
      using n by (auto simp: guards_def)
    then show ?thesis by (intro exI [of _ n0]) (simp add: gbind_assoc gbind_gret)
  next
    case (Some P)
    then obtain n0 where n0: "n = gbind n0 (\<lambda>b. gret (Some b))" "makes n0 P" using n by (auto simp: guards_def)
    have "hoare [] (gbind n0 (\<lambda>_. gret ())) (\<lambda>_. [])"
    proof (rule hoare_bind)
      show "hoare [] n0 (\<lambda>b. [(b, P)])" using n0(2) by (simp add: makes_def)
      show "hoare [(b, P)] (gret ()) (\<lambda>_. [])" for b
        by (rule hoare_pre [OF hoare_ret [where Q = "\<lambda>_. []"]]) (use owns_sub in \<open>auto simp del: owns.simps(2)\<close>)
    qed
    then show ?thesis using n0(1) by (intro exI [of _ "gbind n0 (\<lambda>_. gret ())"]) (simp add: gbind_assoc gbind_gret)
  qed
  then obtain n0 :: "unit gm" where n0: "\<And>k :: nat option gm. gbind n (\<lambda>_. k) = gbind n0 (\<lambda>_. k)" "hoare [] n0 (\<lambda>_. [])"
    by blast
  have "gbind m (\<lambda>b. gbind n (\<lambda>_. gret b)) = gbind (gbind m0 (\<lambda>_. n0)) (\<lambda>_. gret None)"
    unfolding m0(1) by (simp only: gbind_assoc gbind_gret n0(1))
  moreover have "hoare [] (gbind m0 (\<lambda>_. n0)) (\<lambda>_. [])" by (rule hoare_bind [OF m0(2) n0(2)])
  ultimately show ?thesis unfolding guards_def None option.case by blast
next
  case (Some P)
  then obtain m0 where m0: "m = gbind m0 (\<lambda>b. gret (Some b))" "makes m0 P" using m by (auto simp: guards_def)
  have "gives (gbind m0 (\<lambda>b. gbind n (\<lambda>_. gret b))) (Inr P)"
    by (rule tri_makes [OF m0(2)], rule tri_guard_drop [OF n], rule tri_ret)
  then have "makes (gbind m0 (\<lambda>b. gbind n (\<lambda>_. gret b))) P" by (simp add: gives_makes)
  moreover have "gbind m (\<lambda>b. gbind n (\<lambda>_. gret b)) =
      gbind (gbind m0 (\<lambda>b. gbind n (\<lambda>_. gret b))) (\<lambda>b. gret (Some b))"
    unfolding m0(1) by (simp only: gbind_assoc gbind_gret)
  ultimately show ?thesis unfolding guards_def Some option.case by blast
qed

section \<open>The value of an expression\<close>

text \<open>The value of an item, and the test that its headers are there: the protocol, and for a transport protocol that
  the packet is IPv4 and no later fragment.\<close>

abbreviation first_fragment :: "layout \<Rightarrow> pred" where
  "first_fragment L \<equiv> \<lambda>pk. and_then (field L OR_NET 6 SzH pk) (\<lambda>a. Next (a AND 0x1fff = 0))"

definition load_value :: "layout \<Rightarrow> int \<Rightarrow> bsize \<Rightarrow> packet \<Rightarrow> u32 \<Rightarrow> u32 outcome" where
  "load_value L p z pk v =
     (if p = Q_RADIO then fetch pk z v
      else if p = Q_LINK then fetch pk z (v + off_ll L)
      else if p \<in> set net_protos then fetch pk z (v + (off_macpl L + off_nl L))
      else and_then (fetch pk SzB (off_macpl L + off_nl L)) (\<lambda>b.
        fetch pk z (v + push_bit 2 (b AND 0xf) + (off_macpl L + off_nl L))))"

definition load_guard :: "layout \<Rightarrow> int \<Rightarrow> pred option \<Rightarrow> gen_error + pred option" where
  "load_guard L p G =
     (if p = Q_RADIO then
        (if linktype L \<notin> {DLT_IEEE802_11_RADIO_AVS, DLT_IEEE802_11_RADIO, DLT_PRISM_HEADER} then Inl BpfError else Inr G)
      else if p \<in> set (Q_LINK # net_protos @ tran_protos) \<and> \<not> fixed_headers L then Inl GenOutside
      else if p = Q_LINK then Inr G
      else if p \<in> set net_protos then
        rbind (rbind (abbrev_meaning L p) (\<lambda>P. Inr (p_and_opt G P))) (\<lambda>P. Inr (Some P))
      else if p \<in> set tran_protos then
        rbind (rbind (abbrev_meaning L p) (\<lambda>P.
          rbind (abbrev_meaning L Q_IP) (\<lambda>I. Inr (p_and I (p_and_opt G (p_and P (first_fragment L))))))) (\<lambda>P. Inr (Some P))
      else Inl BpfError)"

type_synonym ameaning = "gen_error + pred option \<times> (packet \<Rightarrow> u32 outcome)"

text \<open>\<open>n\<close> registers are in use. Of the operands of an operation only the first is guarded.\<close>

fun aexp_meaning :: "layout \<Rightarrow> nat \<Rightarrow> aexp \<Rightarrow> ameaning" where
  "aexp_meaning L n (ANum v) = (if n < BPF_MEMWORDS then Inr (None, \<lambda>pk. Next (word_of_int v)) else Inl BpfError)"
| "aexp_meaning L n ALen = (if n < BPF_MEMWORDS then Inr (None, \<lambda>pk. Next (pk_wirelen pk)) else Inl BpfError)"
| "aexp_meaning L n (ALoad p i sz) =
     rbind (aexp_meaning L n i) (\<lambda>(G, f).
       if Suc n < BPF_MEMWORDS then
         (case load_size sz of None \<Rightarrow> Inl BpfError
          | Some z \<Rightarrow> rbind (load_guard L p G) (\<lambda>G'. Inr (G', \<lambda>pk. and_then (f pk) (load_value L p z pk))))
       else Inl BpfError)"
| "aexp_meaning L n (ANeg e) = rbind (aexp_meaning L n e) (\<lambda>(G, f). Inr (G, \<lambda>pk. and_then (f pk) (\<lambda>v. Next (- v))))"
| "aexp_meaning L n (ABin op e0 e1) =
     rbind (aexp_meaning L n e0) (\<lambda>(G0, f0).
     rbind (aexp_meaning L (Suc n) e1) (\<lambda>(G1, f1).
     Inr (G0, \<lambda>pk. and_then (f0 pk) (\<lambda>v0. and_then (f1 pk) (\<lambda>v1. arith op v0 v1)))))"

lemma item_made:
  assumes "gives m0 r" and "M = gbind m0 (\<lambda>b. gret (t, Some b))" and "puts t h"
  shows "case rbind r (\<lambda>P. Inr (Some P)) of Inl e \<Rightarrow> M = gfail e
    | Inr G \<Rightarrow> \<exists>m' t'. M = gbind m' (\<lambda>b. gret (t', b)) \<and> guards m' G \<and> puts t' h"
proof (cases r)
  case (Inl e)
  then show ?thesis using gives_failD [of m0 e] assms by (simp add: gbind_gfail)
next
  case (Inr P)
  have "M = gbind (gbind m0 (\<lambda>b. gret (Some b))) (\<lambda>b. gret (t, b))" unfolding assms(2) by (simp only: gbind_assoc gbind_gret)
  moreover have "guards (gbind m0 (\<lambda>b. gret (Some b))) (Some P)"
    by (rule guards_some) (use assms(1) Inr in \<open>simp add: gives_makes\<close>)
  ultimately show ?thesis using assms(3) unfolding Inr rbind.simps sum.case by blast
qed

lemma load_item_made:
  assumes m: "guards m G" and q: "q < BPF_MEMWORDS"
  shows "case load_guard L p G of
      Inl e \<Rightarrow> gbind m (\<lambda>b. load_item L p \<lparr>a_s = S, a_b = b, a_regno = q\<rparr> z) = gfail e
    | Inr G' \<Rightarrow> \<exists>m' t. gbind m (\<lambda>b. load_item L p \<lparr>a_s = S, a_b = b, a_regno = q\<rparr> z) = gbind m' (\<lambda>b. gret (t, b)) \<and>
        guards m' G' \<and> puts t (\<lambda>pk mem. load_value L p z pk (mem ! q))"
proof -
  have loads: "p \<in> set (Q_LINK # net_protos @ tran_protos) \<longleftrightarrow> p = Q_LINK \<or> p \<in> set net_protos \<or> p \<in> set tran_protos" by simp
  consider "p = Q_RADIO" "linktype L \<notin> {DLT_IEEE802_11_RADIO_AVS, DLT_IEEE802_11_RADIO, DLT_PRISM_HEADER}"
    | "p = Q_RADIO" "linktype L \<in> {DLT_IEEE802_11_RADIO_AVS, DLT_IEEE802_11_RADIO, DLT_PRISM_HEADER}"
    | "p \<noteq> Q_RADIO" "p \<in> set (Q_LINK # net_protos @ tran_protos)" "\<not> fixed_headers L"
    | "p = Q_LINK" "fixed_headers L" | "p \<in> set net_protos" "fixed_headers L" | "p \<in> set tran_protos" "fixed_headers L"
    | "p \<noteq> Q_RADIO" "p \<noteq> Q_LINK" "p \<notin> set net_protos" "p \<notin> set tran_protos" using loads by blast
  then show ?thesis
  proof cases
    case 1
    then show ?thesis using guards_fail [OF m] by (simp add: load_guard_def load_item_def)
  next
    case 2
    then show ?thesis using m puts_item [OF q, of z 0]
      by (auto simp: load_guard_def load_item_def load_value_def xfer_to_x_def)
  next
    case 3
    then show ?thesis using guards_fail [OF m] by (simp add: load_guard_def load_item_def)
  next
    case 4
    then show ?thesis using m puts_item [OF q, of z "off_ll L"]
      by (auto simp: load_guard_def load_item_def load_value_def xfer_to_x_def)
  next
    case 5
    then have p: "p \<noteq> Q_RADIO" "p \<noteq> Q_LINK" by (auto simp: net_protos_def)
    let ?k = "\<lambda>b. gbind (gen_proto_abbrev L p) (\<lambda>c. gbind (and_opt b c) (\<lambda>_. gret c))"
    have "gives (gbind m ?k) (rbind (abbrev_meaning L p) (\<lambda>P. Inr (p_and_opt G P)))"
      by (rule tri_guard [OF m]; simp only: and_opt_def p_and_opt_def option.case gbind_gret;
          (rule tri_call [OF gives_proto_abbrev] tri_intros)+)
    moreover have "gbind m (\<lambda>b. load_item L p \<lparr>a_s = S, a_b = b, a_regno = q\<rparr> z) = gbind (gbind m ?k)
        (\<lambda>b. gret ([reg_stmt (BPF_LDX OR BPF_MEM) q, new_stmt (BPF_LD OR BPF_IND OR size_bits z) (off_macpl L + off_nl L)], Some b))"
      using p 5 by (simp only: load_item_def simp_thms Let_def gbind_assoc gbind_gret if_True if_False xfer_to_x_def arth.simps append.simps)
    moreover have "puts [reg_stmt (BPF_LDX OR BPF_MEM) q, new_stmt (BPF_LD OR BPF_IND OR size_bits z) (off_macpl L + off_nl L)]
        (\<lambda>pk mem. load_value L p z pk (mem ! q))"
      using puts_item [OF q] p 5 by (simp only: load_value_def if_True if_False)
    ultimately have "case rbind (rbind (abbrev_meaning L p) (\<lambda>P. Inr (p_and_opt G P))) (\<lambda>P. Inr (Some P)) of
        Inl e \<Rightarrow> gbind m (\<lambda>b. load_item L p \<lparr>a_s = S, a_b = b, a_regno = q\<rparr> z) = gfail e
      | Inr G' \<Rightarrow> \<exists>m' t. gbind m (\<lambda>b. load_item L p \<lparr>a_s = S, a_b = b, a_regno = q\<rparr> z) = gbind m' (\<lambda>b. gret (t, b)) \<and>
          guards m' G' \<and> puts t (\<lambda>pk mem. load_value L p z pk (mem ! q))"
      by (rule item_made)
    then show ?thesis using p 5 by (simp only: load_guard_def simp_thms if_True if_False)
  next
    case 6
    then have p: "p \<noteq> Q_RADIO" "p \<noteq> Q_LINK" "p \<notin> set net_protos" by (auto simp: net_protos_def tran_protos_def)
    let ?t = "gen_loadx_iphdrlen L @ [reg_stmt (BPF_LD OR BPF_MEM) q, new_stmt (BPF_ALU OR BPF_ADD OR BPF_X) 0,
        new_stmt (BPF_MISC OR BPF_TAX) 0, new_stmt (BPF_LD OR BPF_IND OR size_bits z) (off_macpl L + off_nl L)]"
    let ?k = "\<lambda>b. gbind (gen_proto_abbrev L p) (\<lambda>c. gbind (gen_ipfrag L) (\<lambda>d. gbind (gen_and c d) (\<lambda>_.
        gbind (and_opt b d) (\<lambda>_. gbind (gen_proto_abbrev L Q_IP) (\<lambda>i. gbind (gen_and i d) (\<lambda>_. gret d))))))"
    let ?r = "rbind (abbrev_meaning L p) (\<lambda>P. rbind (abbrev_meaning L Q_IP) (\<lambda>I.
        Inr (p_and I (p_and_opt G (p_and P (first_fragment L))))))"
    have "gives (gbind m ?k) ?r"
      by (rule tri_guard [OF m]; simp only: and_opt_def p_and_opt_def option.case gbind_gret;
          (rule tri_call [OF gives_proto_abbrev] tri_intros)+)
    moreover have "gbind m (\<lambda>b. load_item L p \<lparr>a_s = S, a_b = b, a_regno = q\<rparr> z) = gbind (gbind m ?k) (\<lambda>b. gret (?t, Some b))"
      using p 6 by (simp only: load_item_def simp_thms Let_def gbind_assoc gbind_gret if_True if_False xfer_to_a_def arth.simps append.simps)
    moreover have "puts ?t (\<lambda>pk mem. load_value L p z pk (mem ! q))"
      using puts_tran [OF q] p 6 by (simp only: load_value_def if_True if_False gen_loadx_iphdrlen_def append.simps)
    ultimately have "case rbind ?r (\<lambda>P. Inr (Some P)) of
        Inl e \<Rightarrow> gbind m (\<lambda>b. load_item L p \<lparr>a_s = S, a_b = b, a_regno = q\<rparr> z) = gfail e
      | Inr G' \<Rightarrow> \<exists>m' t. gbind m (\<lambda>b. load_item L p \<lparr>a_s = S, a_b = b, a_regno = q\<rparr> z) = gbind m' (\<lambda>b. gret (t, b)) \<and>
          guards m' G' \<and> puts t (\<lambda>pk mem. load_value L p z pk (mem ! q))"
      by (rule item_made)
    then show ?thesis using p 6 by (simp only: load_guard_def simp_thms if_True if_False)
  next
    case 7
    then show ?thesis using guards_fail [OF m] by (simp add: load_guard_def load_item_def)
  qed
qed

text \<open>The code of an expression, or its error.\<close>

definition arith_made :: "regfile \<Rightarrow> (arth \<times> regfile) gm \<Rightarrow> ameaning \<Rightarrow> bool" where
  "arith_made R M r \<longleftrightarrow> (case r of Inl e \<Rightarrow> M = gfail e
     | Inr (G, f) \<Rightarrow> \<exists>m s q R'. M = gbind m (\<lambda>b. gret (\<lparr>a_s = s, a_b = b, a_regno = q\<rparr>, R')) \<and>
         guards m G \<and> leaves (regused R) s q f \<and> regused R' = insert q (regused R) \<and> regs_ok R')"

lemma arith_made_const:
  assumes "regs_ok R" and "puts t (\<lambda>pk m. f pk)"
  shows "arith_made R
      (gbind (glift (alloc_reg R)) (\<lambda>(reg, R1). gret (\<lparr>a_s = t @ [reg_stmt BPF_ST reg], a_b = None, a_regno = reg\<rparr>, R1)))
      (if card (regused R) < BPF_MEMWORDS then Inr (None, f) else Inl BpfError)"
proof (cases "card (regused R) < BPF_MEMWORDS")
  case True
  then obtain r R' where r: "alloc_reg R = Inr (r, R')" "r < BPF_MEMWORDS" "r \<notin> regused R"
    "regused R' = insert r (regused R)" "regs_ok R'"
    using alloc_reg_cases [OF assms(1)] by auto
  have z: "runs_to (regused R) [] (\<lambda>v m. True) (\<lambda>pk. Next ())" by (simp add: runs_to_def)
  have "leaves (regused R) ([] @ t @ [reg_stmt BPF_ST r]) r (\<lambda>pk. and_then (Next ()) (\<lambda>_. f pk))"
    by (rule leaves_append [OF z assms(2)]) (use r in simp_all)
  then have "leaves (regused R) (t @ [reg_stmt BPF_ST r]) r f" by simp
  moreover have "gbind (glift (alloc_reg R)) (\<lambda>(reg, R1). gret (\<lparr>a_s = t @ [reg_stmt BPF_ST reg], a_b = None, a_regno = reg\<rparr>, R1)) =
      gbind (gret None) (\<lambda>b. gret (\<lparr>a_s = t @ [reg_stmt BPF_ST r], a_b = b, a_regno = r\<rparr>, R'))"
    by (simp only: glift_def r(1) sum.case gbind_gret prod.case)
  ultimately show ?thesis
    unfolding arith_made_def using True r guards_none by (simp only: if_True sum.case prod.case) blast
next
  case False
  then have "alloc_reg R = Inl BpfError" using alloc_reg_cases [OF assms(1)] by simp
  then show ?thesis using False by (simp add: arith_made_def glift_def gbind_gfail)
qed

lemma arith_made_neg:
  assumes "arith_made R M r"
  shows "arith_made R (gbind M (\<lambda>(a, R1). gret (gen_neg a, R1)))
    (rbind r (\<lambda>(G, f). Inr (G, \<lambda>pk. and_then (f pk) (\<lambda>v. Next (- v)))))"
proof (cases r)
  case (Inl e)
  then show ?thesis using assms by (simp add: arith_made_def gbind_gfail)
next
  case (Inr x)
  obtain G f where x: "r = Inr (G, f)" using Inr by (cases x) auto
  then obtain m s q R' where m: "M = gbind m (\<lambda>b. gret (\<lparr>a_s = s, a_b = b, a_regno = q\<rparr>, R'))"
    "guards m G" "leaves (regused R) s q f" "regused R' = insert q (regused R)" "regs_ok R'"
    using assms unfolding arith_made_def by auto
  let ?s = "s @ [reg_stmt (BPF_LD OR BPF_MEM) q, new_stmt (BPF_ALU OR BPF_NEG) 0] @ [reg_stmt BPF_ST q]"
  have q: "q < BPF_MEMWORDS" "q \<notin> regused R" "runs_to (regused R) s (\<lambda>v m. m ! q = v) f" using m(3) by (auto simp: leaves_def)
  have "leaves (regused R) ?s q (\<lambda>pk. and_then (f pk) (\<lambda>v. Next (- v)))"
    by (rule leaves_append [OF q(3) puts_neg [OF q(1)]]) (use q in simp_all)
  moreover have "gbind M (\<lambda>(a, R1). gret (gen_neg a, R1)) = gbind m (\<lambda>b. gret (\<lparr>a_s = ?s, a_b = b, a_regno = q\<rparr>, R'))"
    unfolding m(1) by (simp only: gbind_assoc gbind_gret prod.case gen_neg_def xfer_to_a_def arth.simps append.simps)
  ultimately show ?thesis
    unfolding arith_made_def x rbind.simps sum.case prod.case using m(2,4,5) by blast
qed

lemma arith_made_bin:
  assumes e0: "arith_made R M0 r0"
    and e1: "\<And>R1. regs_ok R1 \<Longrightarrow> card (regused R1) = Suc (card (regused R)) \<Longrightarrow> arith_made R1 (M1 R1) r1"
    and R: "regs_ok R"
  shows "arith_made R (gbind M0 (\<lambda>(a0, R1). gbind (M1 R1) (\<lambda>(a1, R2). gen_arth op a0 a1 R2)))
    (rbind r0 (\<lambda>(G0, f0). rbind r1 (\<lambda>(G1, f1).
       Inr (G0, \<lambda>pk. and_then (f0 pk) (\<lambda>v0. and_then (f1 pk) (\<lambda>v1. arith op v0 v1))))))"
proof (cases r0)
  case (Inl e)
  then show ?thesis using e0 by (simp add: arith_made_def gbind_gfail)
next
  case (Inr x)
  obtain G0 f0 where x: "r0 = Inr (G0, f0)" using Inr by (cases x) auto
  then obtain m s q R1 where m: "M0 = gbind m (\<lambda>b. gret (\<lparr>a_s = s, a_b = b, a_regno = q\<rparr>, R1))"
    "guards m G0" "leaves (regused R) s q f0" "regused R1 = insert q (regused R)" "regs_ok R1"
    using e0 unfolding arith_made_def by auto
  have fin: "finite (regused R)" using R by (auto simp: regs_ok_def intro: finite_subset)
  have q: "q < BPF_MEMWORDS" "q \<notin> regused R" using m(3) by (auto simp: leaves_def)
  have n: "card (regused R1) = Suc (card (regused R))" using m(4) q fin by simp
  have M: "gbind M0 (\<lambda>(a0, R1). gbind (M1 R1) (\<lambda>(a1, R2). gen_arth op a0 a1 R2)) =
      gbind m (\<lambda>b. gbind (M1 R1) (\<lambda>(a1, R2). gen_arth op \<lparr>a_s = s, a_b = b, a_regno = q\<rparr> a1 R2))"
    unfolding m(1) by (simp only: gbind_assoc gbind_gret prod.case)
  show ?thesis
  proof (cases r1)
    case (Inl e)
    then have "M1 R1 = gfail e" using e1 [OF m(5) n] by (simp add: arith_made_def)
    then show ?thesis using Inl x guards_fail [OF m(2)] unfolding M by (simp add: arith_made_def gbind_gfail)
  next
    case (Inr y)
    obtain G1 f1 where y: "r1 = Inr (G1, f1)" using Inr by (cases y) auto
    then obtain m' s' q' R2 where m': "M1 R1 = gbind m' (\<lambda>b. gret (\<lparr>a_s = s', a_b = b, a_regno = q'\<rparr>, R2))"
      "guards m' G1" "leaves (regused R1) s' q' f1" "regused R2 = insert q' (regused R1)" "regs_ok R2"
      using e1 [OF m(5) n] unfolding arith_made_def by auto
    have q': "q' < BPF_MEMWORDS" "q' \<noteq> q" "q' \<notin> regused R" using m'(3) m(4) by (auto simp: leaves_def)
    let ?R = "free_reg q' (free_reg q R2)"
    have U: "regused ?R = regused R" using m(4) m'(4) q q' by (auto simp: free_reg_def)
    have ok: "regs_ok ?R" using m'(5) by (auto simp: regs_ok_def free_reg_def)
    have "regused R \<subset> {..<BPF_MEMWORDS}" using R q by (auto simp: regs_ok_def)
    then have "card (regused ?R) < BPF_MEMWORDS"
      using psubset_card_mono [of "{..<BPF_MEMWORDS}" "regused R"] unfolding U by simp
    then obtain r R3 where r: "alloc_reg ?R = Inr (r, R3)" "r < BPF_MEMWORDS" "r \<notin> regused R"
      "regused R3 = insert r (regused R)" "regs_ok R3"
      using alloc_reg_cases [OF ok] U by auto
    let ?t = "[reg_stmt (BPF_LDX OR BPF_MEM) q', reg_stmt (BPF_LD OR BPF_MEM) q, new_stmt (BPF_ALU OR BPF_X OR alu_bits op) 0]"
    have "leaves (insert q (regused R)) s' q' f1" using m'(3) m(4) by simp
    note both = runs_to_both [OF m(3) this]
    have "leaves (regused R) ((s @ s') @ ?t @ [reg_stmt BPF_ST r]) r
        (\<lambda>pk. and_then (and_then (f0 pk) (\<lambda>v0. and_then (f1 pk) (\<lambda>v1. Next (v0, v1)))) (\<lambda>(v0, v1). arith op v0 v1))"
      by (rule leaves_append [OF both puts_arith [OF q(1) q'(1)]]) (use r in auto)
    moreover have "and_then (and_then z (\<lambda>v0. and_then w (\<lambda>v1. Next (v0, v1)))) (\<lambda>(v0, v1). arith op v0 v1) =
        and_then z (\<lambda>v0. and_then w (\<lambda>v1. arith op v0 v1))" for z w :: "u32 outcome"
      by (cases z; cases w) simp_all
    ultimately have l: "leaves (regused R) ((s @ s') @ ?t @ [reg_stmt BPF_ST r]) r
        (\<lambda>pk. and_then (f0 pk) (\<lambda>v0. and_then (f1 pk) (\<lambda>v1. arith op v0 v1)))" by simp
    have "gbind m (\<lambda>b. gbind (M1 R1) (\<lambda>(a1, R2). gen_arth op \<lparr>a_s = s, a_b = b, a_regno = q\<rparr> a1 R2)) =
        gbind (gbind m (\<lambda>b. gbind m' (\<lambda>_. gret b)))
          (\<lambda>b. gret (\<lparr>a_s = (s @ s') @ ?t @ [reg_stmt BPF_ST r], a_b = b, a_regno = r\<rparr>, R3))"
      unfolding m'(1)
      by (simp only: gbind_assoc gbind_gret prod.case gen_arth_def Let_def arth.simps glift_def r(1) sum.case
          xfer_to_x_def xfer_to_a_def append.simps append_assoc)
    then show ?thesis
      unfolding M arith_made_def x y rbind.simps sum.case prod.case
      using guards_first [OF m(2) m'(2)] l r(4,5) by blast
  qed
qed

lemma arith_made_load:
  assumes "arith_made R M r" and R: "regs_ok R"
  shows "arith_made R (gbind M (\<lambda>(a, R1). gen_load L p a sz R1))
    (rbind r (\<lambda>(G, f).
       if Suc (card (regused R)) < BPF_MEMWORDS then
         (case load_size sz of None \<Rightarrow> Inl BpfError
          | Some z \<Rightarrow> rbind (load_guard L p G) (\<lambda>G'. Inr (G', \<lambda>pk. and_then (f pk) (load_value L p z pk))))
       else Inl BpfError))"
proof (cases r)
  case (Inl e)
  then show ?thesis using assms(1) by (simp add: arith_made_def gbind_gfail)
next
  case (Inr x)
  obtain G f where x: "r = Inr (G, f)" using Inr by (cases x) auto
  then obtain m s q R1 where m: "M = gbind m (\<lambda>b. gret (\<lparr>a_s = s, a_b = b, a_regno = q\<rparr>, R1))"
    "guards m G" "leaves (regused R) s q f" "regused R1 = insert q (regused R)" "regs_ok R1"
    using assms(1) unfolding arith_made_def by auto
  have fin: "finite (regused R)" using R by (auto simp: regs_ok_def intro: finite_subset)
  have q: "q < BPF_MEMWORDS" "q \<notin> regused R" "runs_to (regused R) s (\<lambda>v m. m ! q = v) f" using m(3) by (auto simp: leaves_def)
  have n: "card (regused R1) = Suc (card (regused R))" using m(4) q fin by simp
  have M: "gbind M (\<lambda>(a, R1). gen_load L p a sz R1) =
      gbind m (\<lambda>b. gen_load L p \<lparr>a_s = s, a_b = b, a_regno = q\<rparr> sz R1)"
    unfolding m(1) by (simp only: gbind_assoc gbind_gret prod.case)
  show ?thesis
  proof (cases "Suc (card (regused R)) < BPF_MEMWORDS")
    case False
    then have "alloc_reg R1 = Inl BpfError" using alloc_reg_cases [OF m(5)] n by simp
    then show ?thesis using False x guards_fail [OF m(2), of BpfError] unfolding M
      by (simp add: arith_made_def gen_load_def glift_def gbind_gfail)
  next
    case True
    then obtain r0 R2 where r0: "alloc_reg R1 = Inr (r0, R2)" "r0 < BPF_MEMWORDS" "r0 \<notin> regused R1"
      "regused R2 = insert r0 (regused R1)" "regs_ok R2"
      using alloc_reg_cases [OF m(5)] n by auto
    show ?thesis
    proof (cases "load_size sz")
      case None
      then show ?thesis using True x guards_fail [OF m(2), of BpfError] unfolding M
        by (simp add: arith_made_def gen_load_def glift_def r0(1) gbind_gret)
    next
      case (Some z)
      let ?K = "\<lambda>b. load_item L p \<lparr>a_s = s, a_b = b, a_regno = q\<rparr> z"
      let ?R = "free_reg q R2"
      have L: "gbind m (\<lambda>b. gen_load L p \<lparr>a_s = s, a_b = b, a_regno = q\<rparr> sz R1) =
          gbind (gbind m ?K) (\<lambda>(t, b). gret (\<lparr>a_s = s @ t @ [reg_stmt BPF_ST r0], a_b = b, a_regno = r0\<rparr>, ?R))"
        by (simp only: gen_load_def glift_def r0(1) sum.case gbind_gret prod.case Let_def Some option.case arth.simps gbind_assoc)
      show ?thesis
      proof (cases "load_guard L p G")
        case (Inl e)
        then have "gbind m ?K = gfail e" using load_item_made [OF m(2) q(1), where L = L and p = p and S = s and z = z] by simp
        then show ?thesis using True Some Inl x unfolding M L by (simp add: arith_made_def gbind_gfail)
      next
        case (Inr G')
        then obtain m' t where t: "gbind m ?K = gbind m' (\<lambda>b. gret (t, b))" "guards m' G'"
          "puts t (\<lambda>pk mem. load_value L p z pk (mem ! q))"
          using load_item_made [OF m(2) q(1), where L = L and p = p and S = s and z = z] by auto
        have "leaves (regused R) (s @ t @ [reg_stmt BPF_ST r0]) r0 (\<lambda>pk. and_then (f pk) (load_value L p z pk))"
          by (rule leaves_append [OF q(3) t(3)]) (use r0 m(4) in auto)
        moreover have "gbind M (\<lambda>(a, R1). gen_load L p a sz R1) =
            gbind m' (\<lambda>b. gret (\<lparr>a_s = s @ t @ [reg_stmt BPF_ST r0], a_b = b, a_regno = r0\<rparr>, ?R))"
          unfolding M L t(1) by (simp only: gbind_assoc gbind_gret prod.case)
        moreover have "regused ?R = insert r0 (regused R)" "regs_ok ?R"
          using r0 m(4) q by (auto simp: free_reg_def regs_ok_def)
        ultimately show ?thesis
          unfolding arith_made_def x rbind.simps sum.case prod.case using True Some Inr t(2)
          by (simp only: if_True option.case rbind.simps sum.case prod.case) blast
      qed
    qed
  qed
qed

lemma gen_aexp_made: "regs_ok R \<Longrightarrow> arith_made R (gen_aexp L e R) (aexp_meaning L (card (regused R)) e)"
proof (induction e arbitrary: R)
  case (ANum v)
  show ?case using arith_made_const [OF ANum puts_const(1), of "word_of_int v"]
    by (simp only: gen_aexp.simps aexp_meaning.simps gen_loadi_def append.simps)
next
  case ALen
  show ?case using arith_made_const [OF ALen puts_const(2)]
    by (simp only: gen_aexp.simps aexp_meaning.simps gen_loadlen_def append.simps)
next
  case (ALoad p i sz)
  then show ?case unfolding gen_aexp.simps aexp_meaning.simps by (intro arith_made_load) blast+
next
  case (ANeg e)
  then show ?case unfolding gen_aexp.simps aexp_meaning.simps by (intro arith_made_neg) blast
next
  case (ABin op e0 e1)
  have "arith_made R1 (gen_aexp L e1 R1) (aexp_meaning L (Suc (card (regused R))) e1)"
    if "regs_ok R1" "card (regused R1) = Suc (card (regused R))" for R1
    using ABin.IH(2) [OF that(1)] that(2) by simp
  then show ?case unfolding gen_aexp.simps aexp_meaning.simps
    by (intro arith_made_bin ABin.IH(1) ABin.prems)
qed

section \<open>Relations\<close>

definition both_guards :: "pred option \<Rightarrow> pred option \<Rightarrow> pred option" where
  "both_guards G0 G1 = (case G0 of None \<Rightarrow> G1 | Some P \<Rightarrow> (case G1 of None \<Rightarrow> Some P | Some Q \<Rightarrow> Some (p_and P Q)))"

definition rel_pred :: "jmp_op \<Rightarrow> bool \<Rightarrow> (packet \<Rightarrow> u32 outcome) \<Rightarrow> (packet \<Rightarrow> u32 outcome) \<Rightarrow> pred" where
  "rel_pred j reversed f0 f1 = (\<lambda>pk. and_then (f0 pk) (\<lambda>v0. and_then (f1 pk) (\<lambda>v1. Next (jump_taken j v0 v1 \<noteq> reversed))))"

definition rel_meaning :: "layout \<Rightarrow> jmp_op \<Rightarrow> bool \<Rightarrow> aexp \<Rightarrow> aexp \<Rightarrow> meaning" where
  "rel_meaning L j reversed e0 e1 =
     rbind (aexp_meaning L 0 e0) (\<lambda>(G0, f0).
     rbind (aexp_meaning L 1 e1) (\<lambda>(G1, f1).
     Inr (p_and_opt (both_guards G0 G1) (rel_pred j reversed f0 f1))))"

definition rel_code :: "jmp_op \<Rightarrow> int" where
  "rel_code j = (if j = JEQ then JMP j else BPF_JMP OR jmp_bits j OR BPF_X)"

definition rel_stmts :: "jmp_op \<Rightarrow> nat \<Rightarrow> nat \<Rightarrow> stmt list" where
  "rel_stmts j q0 q1 = [reg_stmt (BPF_LDX OR BPF_MEM) q1, reg_stmt (BPF_LD OR BPF_MEM) q0] @
     (if j = JEQ then [new_stmt (BPF_ALU OR BPF_SUB OR BPF_X) 0] else [])"

lemma rel_decides:
  assumes s0: "leaves U s0 q0 f0" and s1: "leaves (insert q0 U) s1 q1 f1"
  shows "decides (s0 @ s1 @ rel_stmts j q0 q1) (new_stmt (rel_code j) 0) (rel_pred j False f0 f1)"
  unfolding decides_def
proof (intro conjI exI allI impI)
  have q: "q0 < BPF_MEMWORDS" "q1 < BPF_MEMWORDS" using s0 s1 by (auto simp: leaves_def)
  note both = runs_to_both [OF s0 s1]
  show "list_all plain_stmt (s0 @ s1 @ rel_stmts j q0 q1)"
    using both q by (simp add: runs_to_def rel_stmts_def arith_steps)
  show "decode (s_code (new_stmt (rel_code j) 0)) = Some (Jmp j (if j = JEQ then SrcK else SrcX))"
    by (cases j) (simp_all add: new_stmt_def rel_code_def decode_Some_iff JMP_def)
  fix pk and r :: regs
  assume r: "length (rM r) = BPF_MEMWORDS"
  let ?x = "if j = JEQ then SrcK else SrcX"
  let ?h = "\<lambda>r'. Next (jump_taken j (rA r') (src_val ?x (s_k (new_stmt (rel_code j) 0)) r'))"
  have t: "and_then (exec_stmts pk (rel_stmts j q0 q1) r1) ?h = Next (jump_taken j (rM r1 ! q0) (rM r1 ! q1))"
    if "length (rM r1) = BPF_MEMWORDS" for r1
  proof -
    have "s_k (new_stmt c k) = k" for c k by (simp add: new_stmt_def)
    then show ?thesis using that q by (cases "j = JEQ") (simp_all add: rel_stmts_def arith_steps)
  qed
  have a: "and_then (exec_stmts pk (s0 @ s1 @ rel_stmts j q0 q1) r) ?h =
      and_then (exec_stmts pk (s0 @ s1) r) (\<lambda>r1. and_then (exec_stmts pk (rel_stmts j q0 q1) r1) ?h)"
    by (cases "exec_stmts pk (s0 @ s1) r") (simp_all only: append_assoc [symmetric] exec_stmts_append and_then.simps)
  have "and_then (exec_stmts pk (s0 @ s1) r) (\<lambda>r1. and_then (exec_stmts pk (rel_stmts j q0 q1) r1) ?h) =
      and_then (and_then (f0 pk) (\<lambda>v0. and_then (f1 pk) (\<lambda>v1. Next (v0, v1)))) (\<lambda>(v0, v1). Next (jump_taken j v0 v1))"
    by (rule ends_eq [OF runs_toD [OF both r]]) (auto simp: t)
  also have "\<dots> = rel_pred j False f0 f1 pk"
    by (cases "f0 pk"; cases "f1 pk") (simp_all add: rel_pred_def)
  finally show "and_then (exec_stmts pk (s0 @ s1 @ rel_stmts j q0 q1) r) ?h = rel_pred j False f0 f1 pk"
    unfolding a .
qed

lemma rel_pred_not: "p_not (rel_pred j False f0 f1) = rel_pred j True f0 f1"
proof
  fix pk show "p_not (rel_pred j False f0 f1) pk = rel_pred j True f0 f1 pk"
    by (cases "f0 pk"; cases "f1 pk") (simp_all add: p_not_def rel_pred_def)
qed

lemma tri_rotate:
  assumes "tri [y, z, x] m r"
  shows "tri [x, y, z] m r"
proof -
  have o: "owns g [y, z, x] A" if a: "owns g [x, y, z] A" for g A
  proof -
    obtain b P where y: "y = (b, P)" by (cases y)
    obtain D ts fs rk where D: "D \<subseteq> A" "expr_at g b D ts fs rk P" "owns g [x, z] (A - D)"
      using owns_swap [OF a] unfolding y owns.simps(2) by (elim exE conjE) (rule that)
    then show ?thesis using owns_ConsI [OF D(2,1) owns_swap [OF D(3)]] y by simp
  qed
  show ?thesis
  proof (cases r)
    case (Inl e)
    then show ?thesis using assms o unfolding tri_def Inl sum.case by blast
  next
    case (Inr Q)
    have "hoare [y, z, x] m (\<lambda>b. [(b, Q)])" using assms unfolding tri_def Inr sum.case .
    then show ?thesis unfolding tri_def Inr sum.case by (rule hoare_pre) (rule o)
  qed
qed

text \<open>The block of a relation.\<close>

lemma makes_relation_block:
  assumes "leaves U s0 q0 f0" and "leaves (insert q0 U) s1 q1 f1"
  shows "makes (gbind (new_block (rel_code j)) (\<lambda>b. gbind (if reversed then gen_not b else gret ()) (\<lambda>_.
      gbind (set_stmts b (s0 @ s1 @ rel_stmts j q0 q1)) (\<lambda>_. gret b)))) (rel_pred j reversed f0 f1)"
proof -
  let ?s = "s0 @ s1 @ rel_stmts j q0 q1"
  let ?m = "gbind (new_block (rel_code j)) (\<lambda>b. gbind (set_stmts b ?s) (\<lambda>_. gret b))"
  have m: "makes ?m (rel_pred j False f0 f1)"
    by (rule makes_branch [OF rel_decides [OF assms]])
      (simp add: new_block_def set_stmts_def gret_def upd_block_def branch_heap_def Let_def)
  show ?thesis
  proof (cases reversed)
    case True
    have "gbind (new_block (rel_code j)) (\<lambda>b. gbind (gen_not b) (\<lambda>_. gbind (set_stmts b ?s) (\<lambda>_. gret b))) =
        gbind ?m (\<lambda>b. gbind (gen_not b) (\<lambda>_. gret b))"
      by (rule ext) (simp add: new_block_def set_stmts_def gret_def upd_block_def gen_not_def flip_sense_def Let_def)
    then show ?thesis using makes_not_last [OF m] True by (simp only: if_True rel_pred_not)
  next
    case False
    then show ?thesis using m by (simp only: if_False gbind_gret)
  qed
qed

lemma gives_relation:
  assumes m: "guards m G0" "guards m' G1" and s: "leaves U s0 q0 f0" "leaves (insert q0 U) s1 q1 f1"
  shows "\<exists>m0. makes m0 (p_and_opt (both_guards G0 G1) (rel_pred j reversed f0 f1)) \<and>
    gbind m (\<lambda>b0. gbind m' (\<lambda>b1. gen_relation j \<lparr>a_s = s0, a_b = b0, a_regno = q0\<rparr> \<lparr>a_s = s1, a_b = b1, a_regno = q1\<rparr> reversed R)) =
      gbind m0 (\<lambda>b. gret (b, free_reg q1 (free_reg q0 R)))"
proof -
  let ?m = "gbind (new_block (rel_code j)) (\<lambda>b. gbind (if reversed then gen_not b else gret ()) (\<lambda>_.
      gbind (set_stmts b (s0 @ s1 @ rel_stmts j q0 q1)) (\<lambda>_. gret b)))"
  let ?g = "\<lambda>b0 b1. case (b0, b1) of (Some x, Some y) \<Rightarrow> gbind (gen_and x y) (\<lambda>_. gret (Some y))
      | (Some x, None) \<Rightarrow> gret (Some x) | (None, y) \<Rightarrow> gret y"
  let ?m0 = "gbind m (\<lambda>b0. gbind m' (\<lambda>b1. gbind ?m (\<lambda>b. gbind (?g b0 b1) (\<lambda>tmp. gbind (and_opt tmp b) (\<lambda>_. gret b)))))"
  note blk = makes_relation_block [OF s, of j reversed]
  have "gives ?m0 (Inr (p_and_opt (both_guards G0 G1) (rel_pred j reversed f0 f1)))"
    by (rule tri_guard [OF m(1)]; rule tri_guard [OF m(2)]; rule tri_makes [OF blk];
        simp only: option.case prod.case gbind_assoc gbind_gret and_opt_def p_and_opt_def both_guards_def;
        (rule tri_intros | rule tri_rotate)+)
  moreover have "gbind m (\<lambda>b0. gbind m' (\<lambda>b1. gen_relation j \<lparr>a_s = s0, a_b = b0, a_regno = q0\<rparr> \<lparr>a_s = s1, a_b = b1, a_regno = q1\<rparr> reversed R)) =
      gbind ?m0 (\<lambda>b. gret (b, free_reg q1 (free_reg q0 R)))"
    by (simp only: gen_relation_def rel_code_def rel_stmts_def Let_def arth.simps xfer_to_x_def xfer_to_a_def gbind_assoc
        gbind_gret append.simps append_assoc)
  ultimately show ?thesis unfolding gives_makes by blast
qed

text \<open>What a relation leaves of the layout: the registers are free again.\<close>

definition rel_layout :: "layout \<Rightarrow> jmp_op \<Rightarrow> bool \<Rightarrow> aexp \<Rightarrow> aexp \<Rightarrow> layout" where
  "rel_layout L j reversed e0 e1 = (case gen_rel L j reversed e0 e1 empty_gen of Inr ((b, L'), g) \<Rightarrow> L' | Inl e \<Rightarrow> L)"

lemma gen_rel_made:
  assumes L: "regs_free L"
  shows "case rel_meaning L j reversed e0 e1 of Inl e \<Rightarrow> gen_rel L j reversed e0 e1 = gfail e
    | Inr P \<Rightarrow> \<exists>m0 R. makes m0 P \<and> gen_rel L j reversed e0 e1 = gbind m0 (\<lambda>b. gret (b, L\<lparr>lay_regs := R\<rparr>)) \<and>
        regused R = {} \<and> curreg R < BPF_MEMWORDS"
proof -
  have U: "regused (lay_regs L) = {}" and ok: "regs_ok (lay_regs L)" using L by (auto simp: regs_free_def regs_ok_def)
  have e0: "arith_made (lay_regs L) (gen_aexp L e0 (lay_regs L)) (aexp_meaning L 0 e0)"
    using gen_aexp_made [OF ok, of L e0] by (simp add: U)
  show ?thesis
  proof (cases "aexp_meaning L 0 e0")
    case (Inl e)
    then show ?thesis using e0 by (simp add: rel_meaning_def gen_rel_def arith_made_def gbind_gfail)
  next
    case (Inr x)
    obtain G0 f0 where x: "aexp_meaning L 0 e0 = Inr (G0, f0)" using Inr by (cases x) auto
    then obtain m s q R1 where m: "gen_aexp L e0 (lay_regs L) = gbind m (\<lambda>b. gret (\<lparr>a_s = s, a_b = b, a_regno = q\<rparr>, R1))"
      "guards m G0" "leaves {} s q f0" "regused R1 = {q}" "regs_ok R1"
      using e0 U unfolding arith_made_def by auto
    have e1: "arith_made R1 (gen_aexp L e1 R1) (aexp_meaning L 1 e1)"
      using gen_aexp_made [OF m(5), of L e1] by (simp add: m(4))
    have M: "gen_rel L j reversed e0 e1 = gbind m (\<lambda>b. gbind (gen_aexp L e1 R1) (\<lambda>(a1, R2).
        gbind (gen_relation j \<lparr>a_s = s, a_b = b, a_regno = q\<rparr> a1 reversed R2) (\<lambda>(c, R3). gret (c, L\<lparr>lay_regs := R3\<rparr>))))"
      by (simp only: gen_rel_def m(1) gbind_assoc gbind_gret prod.case)
    show ?thesis
    proof (cases "aexp_meaning L 1 e1")
      case (Inl e)
      then have "gen_aexp L e1 R1 = gfail e" using e1 by (simp add: arith_made_def)
      then show ?thesis using Inl x guards_fail [OF m(2)] unfolding M by (simp add: rel_meaning_def gbind_gfail)
    next
      case (Inr y)
      obtain G1 f1 where y: "aexp_meaning L 1 e1 = Inr (G1, f1)" using Inr by (cases y) auto
      then obtain m' s' q' R2 where m': "gen_aexp L e1 R1 = gbind m' (\<lambda>b. gret (\<lparr>a_s = s', a_b = b, a_regno = q'\<rparr>, R2))"
        "guards m' G1" "leaves {q} s' q' f1" "regused R2 = {q', q}" "regs_ok R2"
        using e1 m(4) unfolding arith_made_def by auto
      let ?R = "free_reg q' (free_reg q R2)"
      obtain m0 where m0: "makes m0 (p_and_opt (both_guards G0 G1) (rel_pred j reversed f0 f1))"
        "gbind m (\<lambda>b0. gbind m' (\<lambda>b1. gen_relation j \<lparr>a_s = s, a_b = b0, a_regno = q\<rparr> \<lparr>a_s = s', a_b = b1, a_regno = q'\<rparr> reversed R2)) =
          gbind m0 (\<lambda>b. gret (b, ?R))"
        using gives_relation [OF m(2) m'(2) m(3) m'(3), of j reversed R2] by auto
      have "gen_rel L j reversed e0 e1 =
          gbind (gbind m (\<lambda>b0. gbind m' (\<lambda>b1. gen_relation j \<lparr>a_s = s, a_b = b0, a_regno = q\<rparr>
            \<lparr>a_s = s', a_b = b1, a_regno = q'\<rparr> reversed R2))) (\<lambda>(c, R3). gret (c, L\<lparr>lay_regs := R3\<rparr>))"
        unfolding M m'(1) by (simp only: gbind_assoc gbind_gret prod.case)
      also have "\<dots> = gbind m0 (\<lambda>b. gret (b, L\<lparr>lay_regs := ?R\<rparr>))"
        unfolding m0(2) by (simp only: gbind_assoc gbind_gret prod.case)
      finally have g: "gen_rel L j reversed e0 e1 = gbind m0 (\<lambda>b. gret (b, L\<lparr>lay_regs := ?R\<rparr>))" .
      have "regused ?R = {}" "curreg ?R < BPF_MEMWORDS" using m'(4,5) by (auto simp: free_reg_def regs_ok_def)
      then show ?thesis using g m0(1) x y by (auto simp: rel_meaning_def)
    qed
  qed
qed

lemma gives_rel:
  assumes "regs_free L"
  shows "gives_at (gen_rel L j reversed e0 e1) (rel_meaning L j reversed e0 e1) (rel_layout L j reversed e0 e1)"
    and "regs_free (rel_layout L j reversed e0 e1)"
proof -
  have "gives_at (gen_rel L j reversed e0 e1) (rel_meaning L j reversed e0 e1) (rel_layout L j reversed e0 e1) \<and>
      regs_free (rel_layout L j reversed e0 e1)"
  proof (cases "rel_meaning L j reversed e0 e1")
    case (Inl e)
    then have "gen_rel L j reversed e0 e1 = gfail e" using gen_rel_made [OF assms, of j reversed e0 e1] by simp
    then show ?thesis using Inl assms gives_at_fail by (simp add: rel_layout_def gfail_def)
  next
    case (Inr P)
    then obtain m0 R where m0: "makes m0 P" "gen_rel L j reversed e0 e1 = gbind m0 (\<lambda>b. gret (b, L\<lparr>lay_regs := R\<rparr>))"
      "regused R = {}" "curreg R < BPF_MEMWORDS"
      using gen_rel_made [OF assms, of j reversed e0 e1] by auto
    have "owns empty_gen [] {}" by simp
    then obtain b g where "m0 empty_gen = Inr (b, g)" using m0(1) unfolding makes_def hoare_def by blast
    then have l: "rel_layout L j reversed e0 e1 = L\<lparr>lay_regs := R\<rparr>" by (simp add: rel_layout_def m0(2) gret_def)
    show ?thesis unfolding l Inr using m0 by (simp add: gives_at_def gives_makes regs_free_def) blast
  qed
  then show "gives_at (gen_rel L j reversed e0 e1) (rel_meaning L j reversed e0 e1) (rel_layout L j reversed e0 e1)"
    "regs_free (rel_layout L j reversed e0 e1)" by blast+
qed

end
