(* ===== verification/Gen_Filter.thy ===== *)
theory Gen_Filter
  imports Gen_Arith
begin

text \<open>
  Filters as the parser builds them (the actions of \<^verbatim>\<open>grammar.y\<close>) and \<open>pcap_compile\<close> of
  \<^verbatim>\<open>gencode.c\<close> without the optimizer. The scanner and the parser tables are generated code; an
  expression is given as its syntax tree. Not covered: names that need the resolver, 802.11
  and pf primitives, \<open>inbound\<close>.
\<close>

section \<open>Expressions\<close>

datatype prim =
  Abbrev int                              \<comment> \<open>\<open>pname\<close>\<close>
| Num "string option" u32 qual            \<comment> \<open>\<open>pnum\<close>, \<open>HID\<close>\<close>
| Masked string "string option" int qual  \<comment> \<open>\<open>HID / NUM\<close>, \<open>HID NETMASK HID\<close>\<close>
| Ether "u8 list" qual                    \<comment> \<open>\<open>EID\<close>\<close>
| Arcnet "u8 list" qual                   \<comment> \<open>\<open>AID\<close>\<close>
| Broadcast int | Multicast int
| Less int | Greater int
| Byte char int int
| Vlan int | Mpls int | Pppoed | Pppoes
| AtmType int | AtmMulti int | AtmField int u32 jmp_op bool
| Mtp2 int | Mtp3 int u32 jmp_op bool
| Relation jmp_op bool aexp aexp          \<comment> \<open>\<open>arth relop arth\<close>, and reversed \<open>irelop\<close>\<close>

datatype fexp = Prim prim | Not fexp | And fexp fexp | Or fexp fexp

definition keeping :: "layout \<Rightarrow> nat gm \<Rightarrow> (nat \<times> layout) gm" where
  "keeping L m = gbind m (\<lambda>b. gret (b, L))"

text \<open>\<open>HID\<close>: qualifiers that do not go with an address are refused before \<open>gen_ncode\<close>.\<close>

definition num_action :: "layout \<Rightarrow> string option \<Rightarrow> u32 \<Rightarrow> qual \<Rightarrow> nat gm" where
  "num_action L s v q =
     (if s \<noteq> None \<and> q_addr q \<in> {Q_PORT, Q_PORTRANGE, Q_PROTO, Q_PROTOCHAIN} then gfail BpfError
      else gen_ncode L s v q)"

fun gen_prim :: "u32 \<Rightarrow> prim \<Rightarrow> layout \<Rightarrow> (nat \<times> layout) gm" where
  "gen_prim netmask (Abbrev p) L = keeping L (gen_proto_abbrev L p)"
| "gen_prim netmask (Num s v q) L = keeping L (num_action L s v q)"
| "gen_prim netmask (Masked s1 s2 n q) L = keeping L (gen_mcode L s1 s2 n q)"
| "gen_prim netmask (Ether a q) L = keeping L (gen_ecode L a q)"
| "gen_prim netmask (Arcnet a q) L = keeping L (gen_acode L a q)"
| "gen_prim netmask (Broadcast p) L = keeping L (gen_broadcast L netmask p)"
| "gen_prim netmask (Multicast p) L = keeping L (gen_multicast L p)"
| "gen_prim netmask (Less n) L = keeping L (gen_less n)"
| "gen_prim netmask (Greater n) L = keeping L (gen_greater n)"
| "gen_prim netmask (Byte op idx val) L = keeping L (gen_byteop L op idx val)"
| "gen_prim netmask (Vlan n) L = gen_vlan L n"
| "gen_prim netmask (Mpls n) L = gen_mpls L n"
| "gen_prim netmask Pppoed L = keeping L (gen_pppoed L)"
| "gen_prim netmask Pppoes L = gen_pppoes L"
| "gen_prim netmask (AtmType t) L = gen_atmtype_abbrev L t"
| "gen_prim netmask (AtmMulti t) L = keeping L (gen_atmmulti_abbrev L t)"
| "gen_prim netmask (AtmField f v j r) L = keeping L (gen_atmfield_code L f v j r)"
| "gen_prim netmask (Mtp2 t) L = keeping L (gen_mtp2type_abbrev L t)"
| "gen_prim netmask (Mtp3 f v j r) L = keeping L (gen_mtp3field_code L f v j r)"
| "gen_prim netmask (Relation j r e0 e1) L = gen_rel L j r e0 e1"

text \<open>The actions run as the parser reduces, left to right.\<close>

fun gen_fexp :: "u32 \<Rightarrow> fexp \<Rightarrow> layout \<Rightarrow> (nat \<times> layout) gm" where
  "gen_fexp netmask (Prim p) L = gen_prim netmask p L"
| "gen_fexp netmask (Not e) L =
     gbind (gen_fexp netmask e L) (\<lambda>(b, L1). gbind (gen_not b) (\<lambda>_. gret (b, L1)))"
| "gen_fexp netmask (And e f) L =
     gbind (gen_fexp netmask e L) (\<lambda>(b0, L1).
     gbind (gen_fexp netmask f L1) (\<lambda>(b1, L2).
     gbind (gen_and b0 b1) (\<lambda>_. gret (b1, L2))))"
| "gen_fexp netmask (Or e f) L =
     gbind (gen_fexp netmask e L) (\<lambda>(b0, L1).
     gbind (gen_fexp netmask f L1) (\<lambda>(b1, L2).
     gbind (gen_or b0 b1) (\<lambda>_. gret (b1, L2))))"

section \<open>\<open>pcap_compile\<close>\<close>

datatype compile_error = CompileError gen_error | SnaplenZero | ConvError

text \<open>The root of a filter; without an expression, a block that accepts. Where the link-layer header
  varies in length (802.11 and its radio headers), the loads first compute offsets into registers, which
  is outside the model.\<close>

definition filter_root :: "u32 \<Rightarrow> u32 \<Rightarrow> fexp option \<Rightarrow> layout \<Rightarrow> nat gm" where
  "filter_root snaplen netmask eo L =
     (case eo of None \<Rightarrow> gen_retblk snaplen
      | Some e \<Rightarrow>
          if off_macpl_is_variable L then gfail GenOutside
          else gbind (gen_fexp netmask e L) (\<lambda>(b, _). finish_parse snaplen b))"

text \<open>The passes of the optimizer are not composed here: a call that asks for them has no result in the
  model.\<close>

definition pcap_compile ::
  "int \<Rightarrow> bool \<Rightarrow> u32 \<Rightarrow> u32 \<Rightarrow> bool \<Rightarrow> fexp option \<Rightarrow> layout \<Rightarrow> compile_error + bpf_insn list" where
  "pcap_compile dl swapped snaplen netmask optimize eo L =
     (if snaplen = 0 then Inl SnaplenZero
      else case init_linktype dl swapped (init_regs L) of None \<Rightarrow> Inl (CompileError BpfError)
      | Some L' \<Rightarrow>
        (case filter_root snaplen netmask eo L' empty_gen of Inl e \<Rightarrow> Inl (CompileError e)
         | Inr (root, g) \<Rightarrow>
           if optimize then Inl (CompileError GenOutside)
           else (case icode_to_fcode (gn_blocks g) root of Inl _ \<Rightarrow> Inl ConvError | Inr f \<Rightarrow> Inr f)))"

section \<open>What an expression means\<close>

definition atmtype_meaning :: "layout \<Rightarrow> int \<Rightarrow> meaning" where
  "atmtype_meaning L t =
     (if t = A_METAC then circuit_meaning L 1
      else if t = A_BCC then circuit_meaning L 2
      else if t = A_OAMF4SC then circuit_meaning L 3
      else if t = A_OAMF4EC then circuit_meaning L 4
      else if t = A_SC then circuit_meaning L 5
      else if t = A_ILMIC then circuit_meaning L 16
      else if t = A_LANE then
        (if \<not> is_atm L then Inl BpfError else atmfield_meaning L A_PROTOTYPE PT_LANE JEQ False)
      else if t = A_LLC then
        (if \<not> is_atm L then Inl BpfError else atmfield_meaning L A_PROTOTYPE PT_LLC JEQ False)
      else Inl GenAbort)"

definition atmtype_layout :: "layout \<Rightarrow> int \<Rightarrow> layout" where
  "atmtype_layout L t = (if t = A_LANE then lane_layout L else if t = A_LLC then L\<lparr>is_lane := False\<rparr> else L)"

lemma gives_atmtype_all: "gives_at (gen_atmtype_abbrev L t) (atmtype_meaning L t) (atmtype_layout L t)"
proof -
  consider "t \<in> {A_METAC, A_BCC, A_OAMF4SC, A_OAMF4EC, A_SC, A_ILMIC}" | "t \<in> {A_LANE, A_LLC}"
    | "t \<notin> {A_METAC, A_BCC, A_OAMF4SC, A_OAMF4EC, A_SC, A_ILMIC, A_LANE, A_LLC}" by blast
  then show ?thesis
  proof cases
    case 1
    then show ?thesis using gives_atmtype by (auto simp: atmtype_meaning_def atmtype_layout_def)
  next
    case 2
    then show ?thesis using gives_lane [of L] by (auto simp: atmtype_meaning_def atmtype_layout_def)
  next
    case 3
    then show ?thesis
      by (simp add: gen_atmtype_abbrev_def atmtype_meaning_def atmtype_layout_def gives_at_fail)
  qed
qed

definition atmmulti_meaning :: "layout \<Rightarrow> int \<Rightarrow> meaning" where
  "atmmulti_meaning L t =
     (if t \<in> {A_OAM, A_OAMF4} then
        (if \<not> is_atm L then Inl BpfError
         else rbind (atmfield_meaning L A_VCI 3 JEQ False) (\<lambda>P.
           rbind (atmfield_meaning L A_VCI 4 JEQ False) (\<lambda>Q.
           rbind (atmfield_meaning L A_VPI 0 JEQ False) (\<lambda>R. Inr (p_and R (p_or P Q))))))
      else if t = A_CONNECTMSG then
        messages_meaning L [A_CONNECT, A_CONNECTACK, A_RELEASE, A_RELEASE_DONE] (circuit_meaning L 5)
      else if t = A_METACONNECT then messages_meaning L [A_CONNECT, A_RELEASE, A_RELEASE_DONE] (circuit_meaning L 1)
      else Inl GenAbort)"

lemma gives_atmmulti_all: "gives (gen_atmmulti_abbrev L t) (atmmulti_meaning L t)"
proof -
  consider "t = A_OAM" | "t = A_OAMF4" | "t = A_CONNECTMSG" | "t = A_METACONNECT"
    | "t \<notin> {A_OAM, A_OAMF4, A_CONNECTMSG, A_METACONNECT}" by blast
  then show ?thesis
  proof cases
    case 1
    show ?thesis
      unfolding 1 gives_oam
      using gives_atmmulti(1) [of L] tri_fail [of "[]" BpfError] by (cases "is_atm L") (simp_all add: atmmulti_meaning_def)
  next
    case 5
    then show ?thesis
      by (subst gen_atmmulti_abbrev.simps) (simp add: atmmulti_meaning_def tri_fail)
  qed (use gives_atmmulti [of L] in \<open>simp_all add: atmmulti_meaning_def\<close>)
qed

definition mtp2_meaning :: "layout \<Rightarrow> int \<Rightarrow> meaning" where
  "mtp2_meaning L t =
     (if t = M_FISU then (if not_mtp2 L then Inl BpfError else Inr (li_pred L (\<lambda>a. a = 0)))
      else if t = M_LSSU then (if not_mtp2 L then Inl BpfError
        else Inr (p_and (li_pred L (\<lambda>a. a > 0)) (li_pred L (\<lambda>a. \<not> a > 2))))
      else if t = M_MSU then (if not_mtp2 L then Inl BpfError else Inr (li_pred L (\<lambda>a. a > 2)))
      else Inl GenAbort)"

lemma gives_mtp2_all: "gives (gen_mtp2type_abbrev L t) (mtp2_meaning L t)"
proof -
  consider "t = M_FISU" | "t = M_LSSU" | "t = M_MSU" | "t \<notin> {M_FISU, M_LSSU, M_MSU}" by blast
  then show ?thesis
    using gives_mtp2 [of L] by cases (simp_all add: mtp2_meaning_def gen_mtp2type_abbrev_def tri_fail)
qed

text \<open>The bit tests of \<open>byte\<close> have no meaning as a predicate on the packet.\<close>

fun prim_meaning :: "u32 \<Rightarrow> prim \<Rightarrow> layout \<Rightarrow> meaning" where
  "prim_meaning netmask (Abbrev p) L = abbrev_meaning L p"
| "prim_meaning netmask (Num s v q) L =
     (if s \<noteq> None \<and> q_addr q \<in> {Q_PORT, Q_PORTRANGE, Q_PROTO, Q_PROTOCHAIN} then Inl BpfError
      else ncode_meaning L s v q)"
| "prim_meaning netmask (Masked s1 s2 n q) L = mcode_meaning L s1 s2 n q"
| "prim_meaning netmask (Ether a q) L = ecode_meaning L a q"
| "prim_meaning netmask (Arcnet a q) L =
     (if linktype L \<in> {DLT_ARCNET, DLT_ARCNET_LINUX} then
       (if q_addr q \<in> {Q_HOST, Q_DEFAULT} \<and> q_proto q = Q_LINK then mac_dir L 0 1 1 a (q_dir q) else Inl BpfError)
      else Inl BpfError)"
| "prim_meaning netmask (Broadcast p) L = broadcast_meaning L netmask p"
| "prim_meaning netmask (Multicast p) L = multicast_meaning L p"
| "prim_meaning netmask (Less n) L = Inr (len_pred (\<le>) n)"
| "prim_meaning netmask (Greater n) L = Inr (len_pred (\<ge>) n)"
| "prim_meaning netmask (Byte op idx val) L =
     (if op = CHR ''='' then Inr (is_eq L OR_LINK (word_of_int idx) SzB 0xffffffff (word_of_int val))
      else if op = CHR ''<'' then Inr (is_rel (<) L OR_LINK (word_of_int idx) SzB (word_of_int val))
      else if op = CHR ''>'' then Inr (is_rel (>) L OR_LINK (word_of_int idx) SzB (word_of_int val))
      else Inl GenAbort)"
| "prim_meaning netmask (Vlan n) L = vlan_meaning L n"
| "prim_meaning netmask (Mpls n) L = mpls_stack_meaning L n"
| "prim_meaning netmask Pppoed L = linktype_meaning L ETHERTYPE_PPPOED"
| "prim_meaning netmask Pppoes L = linktype_meaning L ETHERTYPE_PPPOES"
| "prim_meaning netmask (AtmType t) L = atmtype_meaning L t"
| "prim_meaning netmask (AtmMulti t) L = atmmulti_meaning L t"
| "prim_meaning netmask (AtmField f v j r) L = atmfield_meaning L f v j r"
| "prim_meaning netmask (Mtp2 t) L = mtp2_meaning L t"
| "prim_meaning netmask (Mtp3 f v j r) L = mtp3_meaning L f v j r"
| "prim_meaning netmask (Relation j r e0 e1) L = rel_meaning L j r e0 e1"

fun prim_layout :: "prim \<Rightarrow> layout \<Rightarrow> layout" where
  "prim_layout (Vlan n) L = vlan_layout L"
| "prim_layout (Mpls n) L = mpls_layout L"
| "prim_layout Pppoes L = pppoes_layout L"
| "prim_layout (AtmType t) L = atmtype_layout L t"
| "prim_layout (Relation j r e0 e1) L = rel_layout L j r e0 e1"
| "prim_layout p L = L"

fun fexp_layout :: "fexp \<Rightarrow> layout \<Rightarrow> layout" where
  "fexp_layout (Prim p) L = prim_layout p L"
| "fexp_layout (Not e) L = fexp_layout e L"
| "fexp_layout (And e f) L = fexp_layout f (fexp_layout e L)"
| "fexp_layout (Or e f) L = fexp_layout f (fexp_layout e L)"

fun fexp_meaning :: "u32 \<Rightarrow> fexp \<Rightarrow> layout \<Rightarrow> meaning" where
  "fexp_meaning netmask (Prim p) L = prim_meaning netmask p L"
| "fexp_meaning netmask (Not e) L = rbind (fexp_meaning netmask e L) (\<lambda>P. Inr (p_not P))"
| "fexp_meaning netmask (And e f) L =
     rbind (fexp_meaning netmask e L) (\<lambda>P.
     rbind (fexp_meaning netmask f (fexp_layout e L)) (\<lambda>Q. Inr (p_and P Q)))"
| "fexp_meaning netmask (Or e f) L =
     rbind (fexp_meaning netmask e L) (\<lambda>P.
     rbind (fexp_meaning netmask f (fexp_layout e L)) (\<lambda>Q. Inr (p_or P Q)))"

fun no_bit_test :: "fexp \<Rightarrow> bool" where
  "no_bit_test (Prim (Byte op idx val)) \<longleftrightarrow> op \<notin> {CHR ''|'', CHR ''&''}"
| "no_bit_test (Prim p) \<longleftrightarrow> True"
| "no_bit_test (Not e) \<longleftrightarrow> no_bit_test e"
| "no_bit_test (And e f) \<longleftrightarrow> no_bit_test e \<and> no_bit_test f"
| "no_bit_test (Or e f) \<longleftrightarrow> no_bit_test e \<and> no_bit_test f"

lemma gives_keeping: "gives m r \<Longrightarrow> gives_at (keeping L m) r L"
  unfolding keeping_def by (rule gives_atI)

lemma gives_num_action: "gives (num_action L s v q)
    (if s \<noteq> None \<and> q_addr q \<in> {Q_PORT, Q_PORTRANGE, Q_PROTO, Q_PROTOCHAIN} then Inl BpfError
     else ncode_meaning L s v q)"
  unfolding num_action_def by (rule gives_ncode tri_intros)+

lemma gives_byte: "op \<notin> {CHR ''|'', CHR ''&''} \<Longrightarrow> gives (gen_byteop L op idx val) (prim_meaning nm (Byte op idx val) L)"
  using gives_byteop [of L idx val] by (auto simp: gen_byteop_def tri_fail)

lemma gives_prim:
  assumes "no_bit_test (Prim p)" and "regs_free L"
  shows "gives_at (gen_prim netmask p L) (prim_meaning netmask p L) (prim_layout p L)"
proof (cases p)
  case (Byte op idx val)
  then have "op \<notin> {CHR ''|'', CHR ''&''}" using assms by simp
  from gives_keeping [OF gives_byte [OF this]] show ?thesis
    unfolding Byte gen_prim.simps prim_layout.simps .
next
  case (Relation j r e0 e1)
  show ?thesis unfolding Relation gen_prim.simps prim_meaning.simps prim_layout.simps by (rule gives_rel(1) [OF assms(2)])
qed (simp_all only: gen_prim.simps prim_meaning.simps prim_layout.simps gives_keeping gives_proto_abbrev gives_num_action
    gives_mcode gives_ecode gives_acode gives_broadcast gives_multicast tri_tail [OF makes_less] tri_tail [OF makes_greater]
    gives_vlan gives_mpls gives_pppoe gives_atmtype_all gives_atmmulti_all gives_atmfield gives_mtp2_all gives_mtp3)

lemma regs_free_layouts:
  "regs_free L \<Longrightarrow> regs_free (vlan_layout L)" "regs_free L \<Longrightarrow> regs_free (mpls_layout L)"
  "regs_free L \<Longrightarrow> regs_free (pppoes_layout L)" "regs_free L \<Longrightarrow> regs_free (atmtype_layout L t)"
  by (simp_all add: regs_free_def vlan_layout_def mpls_layout_def pppoes_layout_def atmtype_layout_def lane_layout_def)

lemma regs_free_prim: "regs_free L \<Longrightarrow> regs_free (prim_layout p L)"
  by (cases p) (simp_all add: gives_rel(2) regs_free_layouts)

lemma regs_free_fexp: "regs_free L \<Longrightarrow> regs_free (fexp_layout e L)"
  by (induction e arbitrary: L) (simp_all add: regs_free_prim)

text \<open>The composition.\<close>

lemma gives_at_not:
  assumes "gives_at m r L1"
  shows "gives_at (gbind m (\<lambda>(b, L1). gbind (gen_not b) (\<lambda>_. gret (b, L1)))) (rbind r (\<lambda>P. Inr (p_not P))) L1"
proof -
  obtain m0 where m: "gives m0 r" "m = gbind m0 (\<lambda>b. gret (b, L1))" using assms by (auto simp: gives_at_def)
  have "gbind m (\<lambda>(b, L1). gbind (gen_not b) (\<lambda>_. gret (b, L1))) =
      gbind (gbind m0 (\<lambda>b. gbind (gen_not b) (\<lambda>_. gret b))) (\<lambda>b. gret (b, L1))"
    unfolding m(2) by (simp only: gbind_assoc gbind_gret prod.case)
  moreover have "gives (gbind m0 (\<lambda>b. gbind (gen_not b) (\<lambda>_. gret b))) (rbind r (\<lambda>P. Inr (p_not P)))"
    by (rule m(1) [THEN tri_call] tri_intros)+
  ultimately show ?thesis by (simp only: gives_atI)
qed

lemma gives_at_both:
  assumes op: "\<And>b0 b1 P Q. tri [(b1, Q), (b0, P)] (gbind (op b0 b1) (\<lambda>_. gret b1)) (Inr (R P Q))"
    and e: "gives_at m r L1" and f: "gives_at (n L1) s L2"
  shows "gives_at (gbind m (\<lambda>(b0, L1). gbind (n L1) (\<lambda>(b1, L2). gbind (op b0 b1) (\<lambda>_. gret (b1, L2)))))
     (rbind r (\<lambda>P. rbind s (\<lambda>Q. Inr (R P Q)))) L2"
proof -
  obtain m0 where m: "gives m0 r" "m = gbind m0 (\<lambda>b. gret (b, L1))" using e by (auto simp: gives_at_def)
  obtain n0 where n: "gives n0 s" "n L1 = gbind n0 (\<lambda>b. gret (b, L2))" using f by (auto simp: gives_at_def)
  let ?k = "gbind m0 (\<lambda>b0. gbind n0 (\<lambda>b1. gbind (op b0 b1) (\<lambda>_. gret b1)))"
  have "gbind m (\<lambda>(b0, L1). gbind (n L1) (\<lambda>(b1, L2). gbind (op b0 b1) (\<lambda>_. gret (b1, L2)))) =
      gbind ?k (\<lambda>b. gret (b, L2))"
    unfolding m(2) by (simp only: gbind_assoc gbind_gret prod.case n(2))
  moreover have "tri [(b0, P)] (gbind n0 (\<lambda>b1. gbind (op b0 b1) (\<lambda>_. gret b1))) (rbind s (\<lambda>Q. Inr (R P Q)))" for b0 P
    by (rule tri_call [OF n(1)]) (rule op)
  then have "gives ?k (rbind r (\<lambda>P. rbind s (\<lambda>Q. Inr (R P Q))))"
    by (rule tri_call [OF m(1)])
  ultimately show ?thesis by (simp only: gives_atI)
qed

lemma gives_fexp:
  "no_bit_test e \<Longrightarrow> regs_free L \<Longrightarrow> gives_at (gen_fexp netmask e L) (fexp_meaning netmask e L) (fexp_layout e L)"
proof (induction e arbitrary: L)
  case (Prim p)
  then show ?case using gives_prim by simp
next
  case (Not e)
  then have "gives_at (gen_fexp netmask e L) (fexp_meaning netmask e L) (fexp_layout e L)" by simp
  from gives_at_not [OF this] show ?case
    unfolding gen_fexp.simps fexp_meaning.simps fexp_layout.simps .
next
  case (And e f)
  then have "gives_at (gen_fexp netmask e L) (fexp_meaning netmask e L) (fexp_layout e L)"
    "gives_at (gen_fexp netmask f (fexp_layout e L)) (fexp_meaning netmask f (fexp_layout e L))
      (fexp_layout f (fexp_layout e L))"
    using regs_free_fexp [OF And.prems(2), of e] by simp_all
  then show ?case
    unfolding gen_fexp.simps fexp_meaning.simps fexp_layout.simps
    by (rule gives_at_both [rotated]) (rule tri_intros)+
next
  case (Or e f)
  then have "gives_at (gen_fexp netmask e L) (fexp_meaning netmask e L) (fexp_layout e L)"
    "gives_at (gen_fexp netmask f (fexp_layout e L)) (fexp_meaning netmask f (fexp_layout e L))
      (fexp_layout f (fexp_layout e L))"
    using regs_free_fexp [OF Or.prems(2), of e] by simp_all
  then show ?case
    unfolding gen_fexp.simps fexp_meaning.simps fexp_layout.simps
    by (rule gives_at_both [rotated]) (rule tri_intros)+
qed

section \<open>Compiled filters\<close>

text \<open>The graph of an expression without a bit test.\<close>

lemma filter_root_meaning:
  assumes "no_bit_test e" and "\<not> off_macpl_is_variable L" and "regs_free L"
  shows "case fexp_meaning netmask e L of
      Inl err \<Rightarrow> filter_root snaplen netmask (Some e) L empty_gen = Inl err
    | Inr P \<Rightarrow> \<exists>root g h. filter_root snaplen netmask (Some e) L empty_gen = Inr (root, g) \<and>
        compiled_graph snaplen P (gn_blocks g) root h"
proof -
  obtain m0 where m: "gives m0 (fexp_meaning netmask e L)"
    "gen_fexp netmask e L = gbind m0 (\<lambda>b. gret (b, fexp_layout e L))"
    using gives_fexp [OF assms(1,3)] by (auto simp: gives_at_def)
  have "filter_root snaplen netmask (Some e) L = gbind m0 (finish_parse snaplen)"
    using assms(2) unfolding filter_root_def option.case m(2) by (simp only: gbind_assoc gbind_gret prod.case if_False)
  then show ?thesis using compile_meaning [OF m(1), of snaplen] by (simp only:)
qed

text \<open>A bound on the length of the program: each block has its statements, a branch and two jumps.\<close>

definition filter_size :: "u32 \<Rightarrow> u32 \<Rightarrow> fexp \<Rightarrow> layout \<Rightarrow> nat" where
  "filter_size snaplen netmask e L =
     (case filter_root snaplen netmask (Some e) L empty_gen of Inl _ \<Rightarrow> 0
      | Inr (root, g) \<Rightarrow> (\<Sum>b \<leftarrow> gn_blocks g. slength (b_stmts b) + 3))"

lemma reach_size:
  assumes "graph_ok h" and "root < length h" and "length h = length g"
    and "\<forall>c < length g. slength (b_stmts (h ! c)) \<le> slength (b_stmts (g ! c))"
  shows "(\<Sum>b \<in> reach_set h root. slength (b_stmts (h ! b)) + 3) \<le> (\<Sum>b \<leftarrow> g. slength (b_stmts b) + 3)"
proof -
  have "reach_set h root \<subseteq> {..<length g}" using reach_in [OF _ assms(1,2)] assms(3) by (auto simp: reach_set_def)
  then have "(\<Sum>b \<in> reach_set h root. slength (b_stmts (h ! b)) + 3) \<le>
      (\<Sum>b < length g. slength (b_stmts (h ! b)) + 3)" by (intro sum_mono2) auto
  also have "\<dots> \<le> (\<Sum>b < length g. slength (b_stmts (g ! b)) + 3)" using assms(4) by (intro sum_mono) simp
  finally show ?thesis by (simp add: sum_list_sum_nth atLeast0LessThan)
qed

lemma pcap_compile_meaning:
  assumes "no_bit_test e" and "init_linktype dl sw (init_regs L0) = Some L" and "snaplen \<noteq> 0" and "\<not> off_macpl_is_variable L"
    and "filter_size snaplen netmask e L < 4294967296"
  shows "case fexp_meaning netmask e L of
      Inl err \<Rightarrow> pcap_compile dl sw snaplen netmask False (Some e) L0 = Inl (CompileError err)
    | Inr P \<Rightarrow> \<exists>f. pcap_compile dl sw snaplen netmask False (Some e) L0 = Inr f \<and>
        bpf_validate f \<and> forward_jumps f \<and> length f < 4294967296 \<and>
        (\<forall>pk mem. length mem = BPF_MEMWORDS \<longrightarrow>
           bpf_filter (Some f) mem pk = Some (filter_result snaplen (P pk)) \<and>
           verdict_of snaplen (filter_result snaplen (P pk)))"
proof (cases "fexp_meaning netmask e L")
  case (Inl err)
  then show ?thesis using filter_root_meaning [OF assms(1,4) init_linktype_regs [OF assms(2)], where netmask = netmask and snaplen = snaplen] assms(2,3)
    by (simp add: pcap_compile_def)
next
  case (Inr P)
  obtain root g h where r: "filter_root snaplen netmask (Some e) L empty_gen = Inr (root, g)"
    and c: "compiled_graph snaplen P (gn_blocks g) root h"
    using filter_root_meaning [OF assms(1,4) init_linktype_regs [OF assms(2)], where netmask = netmask and snaplen = snaplen] unfolding Inr sum.case by blast
  obtain rk where g: "graph_wf h" "plain_graph snaplen h" "ranked rk h" "root < length h"
    and w: "\<And>pk r. length (rM r) = BPF_MEMWORDS \<Longrightarrow> graph_loop h pk (root, r) = Some (filter_result snaplen (P pk))"
    using c unfolding compiled_graph_def by blast
  have "(\<Sum>b \<leftarrow> gn_blocks g. slength (b_stmts b) + 3) < 4294967296" using assms(5) r by (simp add: filter_size_def)
  moreover have "(\<Sum>b \<in> reach_set h root. slength (b_stmts (h ! b)) + 3) \<le> (\<Sum>b \<leftarrow> gn_blocks g. slength (b_stmts b) + 3)"
    by (rule reach_size) (use c g in \<open>auto simp: compiled_graph_def graph_wf_def\<close>)
  ultimately have n: "(\<Sum>b \<in> reach_set h root. slength (b_stmts (h ! b)) + 3) < 4294967296" by simp
  obtain f where f: "icode_to_fcode h root = Inr f"
    "\<And>pk mem. bpf_filter (Some f) mem pk = graph_loop h pk (root, \<lparr>rA = 0, rX = 0, rM = mem\<rparr>)"
    using icode_graph [OF g(1,3,4) n] by blast
  have "bpf_validate f \<and> forward_jumps f" by (rule icode_valid [OF g(1,3,4) plain_graph_divs [OF g(2)] n f(1)])
  moreover have "length f < 4294967296"
    using icode_graph [OF g(1,3,4) n] f(1) n by auto
  moreover have "pcap_compile dl sw snaplen netmask False (Some e) L0 = Inr f"
  proof -
    have "icode_to_fcode (gn_blocks g) root = Inr f" using c f(1) by (simp add: compiled_graph_def)
    then show ?thesis using r assms(2,3) by (simp add: pcap_compile_def)
  qed
  moreover have "verdict_of snaplen (filter_result snaplen (P pk))" for pk
  proof -
    let ?r = "\<lparr>rA = 0, rX = 0, rM = replicate BPF_MEMWORDS 0\<rparr>"
    obtain z where "graph_loop h pk (root, ?r) = Some z" "verdict_of snaplen z"
      using plain_graph_returns [OF g(2,1,3,4), of ?r pk] by auto
    then show ?thesis using w [of ?r pk] by simp
  qed
  ultimately show ?thesis using f(2) w Inr by simp
qed

end
