(* ===== verification/Gen_Packets.thy ===== *)
theory Gen_Packets
  imports Gen_Filter Bpf_Validate
begin

text \<open>
  Compiled filters on the bytes of packets: what the predicates of the generator say of a packet
  that lies whole in its buffer, for the filters users write, and what happens on short packets.
\<close>

section \<open>Loads from a whole packet\<close>

definition whole :: "packet \<Rightarrow> bool" where
  "whole pk \<longleftrightarrow> pk_buflen pk = of_nat (length (pk_data pk)) \<and> length (pk_data pk) < 2147483648"

fun value_at :: "bsize \<Rightarrow> u8 list \<Rightarrow> nat \<Rightarrow> u32" where
  "value_at SzB d i = ucast (d ! i)"
| "value_at SzH d i = be16 (d ! i) (d ! (i + 1))"
| "value_at SzW d i = be32 (d ! i) (d ! (i + 1)) (d ! (i + 2)) (d ! (i + 3))"

lemma whole_buflen: "whole pk \<Longrightarrow> unat (pk_buflen pk) = length (pk_data pk)"
  by (simp add: whole_def)

lemma out_of_buffer_whole:
  assumes "whole pk" and "unat k < 2147483648"
  shows "out_of_buffer z k (pk_buflen pk) \<longleftrightarrow> length (pk_data pk) < unat k + size_bytes z"
proof -
  have "unat (k + 4) = unat k + 4" "unat (k + 2) = unat k + 2" using assms(2) by (simp_all add: unat_u32_plus_small)
  then show ?thesis using whole_buflen [OF assms(1)] by (cases z) (auto simp: u32_less_iff u32_le_iff)
qed

lemma fetch_inside:
  assumes "whole pk" and "unat k + size_bytes z \<le> length (pk_data pk)"
  shows "fetch pk z k = Next (value_at z (pk_data pk) (unat k))"
proof -
  have k: "unat k < 2147483648" using assms by (auto simp: whole_def)
  then have s: "sint k = int (unat k)" by (simp add: sint_u32)
  have "extract_sz z (pk_data pk) (unat k) = Some (value_at z (pk_data pk) (unat k))"
    using assms(2) by (cases z) (simp_all add: get_u8_def get_be16_def get_be32_def)
  then show ?thesis using out_of_buffer_whole [OF assms(1) k, of z] assms(2) s by (simp add: fetch_def)
qed

lemma fetch_outside:
  assumes "whole pk" and "length (pk_data pk) < unat k + size_bytes z" and "unat k < 2147483648"
  shows "fetch pk z k = Ret 0"
  using out_of_buffer_whole [OF assms(1,3), of z] assms(2) by (simp add: fetch_def)

section \<open>Predicates whose loads all succeed\<close>

lemma pred_Next:
  "P pk = Next a \<Longrightarrow> p_not P pk = Next (\<not> a)"
  "P pk = Next a \<Longrightarrow> Q pk = Next b \<Longrightarrow> p_and P Q pk = Next (a \<and> b)"
  "P pk = Next a \<Longrightarrow> Q pk = Next b \<Longrightarrow> p_or P Q pk = Next (a \<or> b)"
  by (simp_all add: p_not_def p_and_def p_or_def)

lemma cmp_Next:
  "field L rel off z pk = Next x \<Longrightarrow> is_eq L rel off z m v pk = Next (x AND m = v)"
  "field L rel off z pk = Next x \<Longrightarrow> is_rel R L rel off z v pk = Next (R x v)"
  by (simp_all add: is_eq_def is_rel_def)

definition run_filter :: "u32 \<Rightarrow> u32 \<Rightarrow> fexp \<Rightarrow> layout \<Rightarrow> packet \<Rightarrow> u32 list \<Rightarrow> unit outcome option" where
  "run_filter snaplen netmask e L pk mem =
     (case filter_root snaplen netmask (Some e) L empty_gen of Inl _ \<Rightarrow> None
      | Inr (root, g) \<Rightarrow> graph_loop (gn_blocks g) pk (root, \<lparr>rA = 0, rX = 0, rM = mem\<rparr>))"

lemma run_filter_meaning:
  assumes "no_bit_test e" and "\<not> off_macpl_is_variable L" and "fexp_meaning netmask e L = Inr P"
    and "length mem = BPF_MEMWORDS" and "regs_free L"
  shows "run_filter snaplen netmask e L pk mem = Some (filter_result snaplen (P pk))"
  using filter_root_meaning [OF assms(1,2,5), where netmask = netmask and snaplen = snaplen] assms(3,4)
  by (auto simp: run_filter_def compiled_graph_def)

lemma filter_result_Next: "filter_result snaplen (Next b) = Ret (if b then snaplen else 0)"
  by (simp add: filter_result_def)

section \<open>Ethernet\<close>

definition eth :: "layout \<Rightarrow> layout" where
  "eth L = offs (init_base DLT_EN10MB False (init_regs L)) 12 14 0 3"

lemma init_eth: "init_linktype DLT_EN10MB False (init_regs L) = Some (eth L)"
  by (simp add: eth_def init_linktype_ethernet)

lemma regs_free_eth [simp]: "regs_free (eth L)"
  by (rule init_linktype_regs [OF init_eth])

lemma eth_fields [simp]:
  "linktype (eth L) = DLT_EN10MB" "\<not> off_macpl_is_variable (eth L)" "off_ll (eth L) = 0" "off_mac (eth L) = 0" "off_macpl (eth L) = 14"
  "off_linktype (eth L) = 12" "off_nl (eth L) = 0" "off_nl_nosnap (eth L) = 3" "label_stack_depth (eth L) = 0"
  "is_pppoes (eth L) = False" "is_lane (eth L) = False"
  by (simp_all add: eth_def offs_def init_base_def)

lemma fixed_eth [simp]: "fixed_headers (eth L)"
  by (simp add: fixed_headers_def)

lemma linktype_eth: "linktype_meaning (eth L) proto = Inr (ether_pred (eth L) proto)"
  by (simp add: linktype_meaning_def linktype_meaning_1_def)

lemma ether_type_pred:
  "proto > ETHERMTU \<Longrightarrow> proto \<notin> {ETHERTYPE_ATALK, ETHERTYPE_AARP} \<Longrightarrow>
   ether_pred L proto = type_is L (word_of_int proto)"
  by (auto simp: ether_pred_def)

text \<open>The fields of an Ethernet packet of sufficient length.\<close>

lemma eth_link: "whole pk \<Longrightarrow> unat off + size_bytes z \<le> length (pk_data pk) \<Longrightarrow>
    field (eth L) OR_LINK off z pk = Next (value_at z (pk_data pk) (unat off))"
  by (simp add: fetch_inside)

lemma eth_net: "whole pk \<Longrightarrow> unat (14 + off) + size_bytes z \<le> length (pk_data pk) \<Longrightarrow>
    field (eth L) OR_NET off z pk = Next (value_at z (pk_data pk) (unat (14 + off)))"
  by (simp add: fetch_inside)

definition ip_end :: "u8 list \<Rightarrow> nat" where
  "ip_end d = 14 + 4 * (unat (d ! 14) mod 16)"

lemma hdr_len: "unat (push_bit 2 (ucast (b :: u8) AND 0xf) :: u32) = 4 * (unat b mod 16)"
proof -
  have "(0xf :: u32) = Bit_Operations.mask 4" by (simp add: mask_eq_exp_minus_1)
  then have "(ucast b AND 0xf :: u32) = take_bit 4 (ucast b)" by (simp only: take_bit_eq_mask)
  moreover have "unat (take_bit 4 (ucast b :: u32)) = take_bit 4 (unat b)" by (simp only: unsigned_take_bit_eq unat_ucast_u8_u32)
  ultimately have "unat (ucast b AND 0xf :: u32) = unat b mod 16" by (simp only: take_bit_eq_mod) simp
  moreover have "unat b mod 16 < 16" by simp
  ultimately show ?thesis by (simp add: push_bit_eq_mult unat_word_ariths)
qed

lemma eth_tran:
  assumes "whole pk" and "unat off < 1000" and "ip_end (pk_data pk) + unat off + size_bytes z \<le> length (pk_data pk)"
  shows "field (eth L) OR_TRAN_IPV4 off z pk = Next (value_at z (pk_data pk) (ip_end (pk_data pk) + unat off))"
proof -
  let ?d = "pk_data pk" and ?h = "push_bit 2 (ucast (pk_data pk ! 14) AND 0xf) :: u32"
  have m: "unat (?d ! 14) mod 16 < 16" by simp
  have "unat (?h + (14 + off)) = unat ?h + unat (14 + off)"
    using m assms(2) hdr_len [of "?d ! 14"] by (intro unat_u32_plus_small) (simp add: unat_u32_plus)
  also have "\<dots> = ip_end ?d + unat off"
    using m assms(2) hdr_len [of "?d ! 14"] by (simp add: ip_end_def unat_u32_plus_small)
  finally have h: "unat (?h + (14 + off)) = ip_end ?d + unat off" .
  have "fetch pk SzB 14 = Next (ucast (?d ! 14))"
    using fetch_inside [OF assms(1), of 14 SzB] assms(3) by (cases z) (simp_all add: ip_end_def)
  moreover have "fetch pk z (?h + (14 + off)) = Next (value_at z ?d (ip_end ?d + unat off))"
    using fetch_inside [OF assms(1), of "?h + (14 + off)" z] assms(3) h by simp
  ultimately show ?thesis by simp
qed

lemma eth_tran6: "whole pk \<Longrightarrow> unat off < 1000 \<Longrightarrow> 54 + unat off + size_bytes z \<le> length (pk_data pk) \<Longrightarrow>
    field (eth L) OR_TRAN_IPV6 off z pk = Next (value_at z (pk_data pk) (54 + unat off))"
  using fetch_inside [of pk "14 + (40 + off)" z] by (simp add: unat_u32_plus_small)

section \<open>Meanings at a packet\<close>

text \<open>The expression has a meaning, and at the packet it is \<open>b\<close>.\<close>

definition holds_at :: "meaning \<Rightarrow> packet \<Rightarrow> bool \<Rightarrow> bool" where
  "holds_at r pk b \<longleftrightarrow> (\<exists>P. r = Inr P \<and> P pk = Next b)"

lemma holds_Inr: "P pk = Next b \<Longrightarrow> holds_at (Inr P) pk b"
  by (simp add: holds_at_def)

lemma holds_both:
  "holds_at r pk a \<Longrightarrow> holds_at s pk b \<Longrightarrow> holds_at (rbind r (\<lambda>P. rbind s (\<lambda>Q. Inr (p_and P Q)))) pk (a \<and> b)"
  "holds_at r pk a \<Longrightarrow> holds_at s pk b \<Longrightarrow> holds_at (rbind r (\<lambda>P. rbind s (\<lambda>Q. Inr (p_or P Q)))) pk (a \<or> b)"
  by (auto simp: holds_at_def intro: pred_Next)

lemma holds_either:
  "holds_at r pk a \<Longrightarrow> holds_at s pk b \<Longrightarrow> holds_at (rbind r (\<lambda>P. rbind s (\<lambda>Q. Inr (p_or Q P)))) pk (b \<or> a)"
  by (auto simp: holds_at_def intro: pred_Next)

lemma holds_guard:
  "P pk = Next a \<Longrightarrow> holds_at s pk b \<Longrightarrow> holds_at (rbind s (\<lambda>Q. Inr (p_and P Q))) pk (a \<and> b)"
  "Q pk = Next b \<Longrightarrow> holds_at r pk a \<Longrightarrow> holds_at (rbind r (\<lambda>P. Inr (p_and P Q))) pk (a \<and> b)"
  by (auto simp: holds_at_def intro: pred_Next)

lemma run_filter_holds:
  assumes "holds_at (fexp_meaning netmask e L) pk b" and "no_bit_test e" and "\<not> off_macpl_is_variable L"
    and "length mem = BPF_MEMWORDS" and "regs_free L"
  shows "run_filter snaplen netmask e L pk mem = Some (Ret (if b then snaplen else 0))"
  using run_filter_meaning [OF assms(2,3) _ assms(4,5)] assms(1) by (auto simp: holds_at_def filter_result_Next)

text \<open>The directions of a primitive.\<close>

fun dir_holds :: "int \<Rightarrow> bool \<Rightarrow> bool \<Rightarrow> bool" where
  "dir_holds dir s d = (if dir = Q_SRC then s else if dir = Q_DST then d else if dir = Q_AND then s \<and> d else s \<or> d)"

abbreviation directions :: "int set" where
  "directions \<equiv> {Q_SRC, Q_DST, Q_AND, Q_OR, Q_DEFAULT}"

lemma holds_dir:
  assumes "dir \<in> directions" and "holds_at r pk a" and "holds_at s pk b"
  shows "holds_at (dir_meaning dir bad r s) pk (dir_holds dir a b)"
  using assms(1) holds_both [OF assms(2,3)] assms(2,3) by (auto simp: dir_meaning_def)

lemma linktype_eth_at:
  assumes "whole pk" and "14 \<le> length (pk_data pk)" and "proto > ETHERMTU" and "proto \<notin> {ETHERTYPE_ATALK, ETHERTYPE_AARP}"
  shows "holds_at (linktype_meaning (eth L) proto) pk (value_at SzH (pk_data pk) 12 = word_of_int proto)"
proof -
  have "field (eth L) OR_LINK 12 SzH pk = Next (value_at SzH (pk_data pk) 12)"
    using eth_link [OF assms(1), of 12 SzH] assms(2) by simp
  from cmp_Next(1) [OF this, of "0xffffffff"] show ?thesis
    using ether_type_pred [OF assms(3,4), of "eth L"] by (simp add: linktype_eth holds_Inr)
qed

section \<open>Ports\<close>

text \<open>The payload of the IP header begins with the two ports; a later fragment of an IPv4 packet has
  none. \<open>R\<close> is what is asked of a port.\<close>

definition ipv4_ports :: "u8 list \<Rightarrow> int \<Rightarrow> int \<Rightarrow> (u32 \<Rightarrow> bool) \<Rightarrow> bool" where
  "ipv4_ports d proto dir R \<longleftrightarrow> value_at SzH d 12 = 0x800 \<and> 
     (value_at SzB d 23 = word_of_int proto \<and> value_at SzH d 20 AND 0x1fff = 0) \<and>
     dir_holds dir (R (value_at SzH d (ip_end d))) (R (value_at SzH d (ip_end d + 2)))"

definition ipv6_ports :: "u8 list \<Rightarrow> int \<Rightarrow> int \<Rightarrow> (u32 \<Rightarrow> bool) \<Rightarrow> bool" where
  "ipv6_ports d proto dir R \<longleftrightarrow> value_at SzH d 12 = 0x86dd \<and> value_at SzB d 20 = word_of_int proto \<and>
     dir_holds dir (R (value_at SzH d 54)) (R (value_at SzH d 56))"

definition tests_field :: "layout \<Rightarrow> (offrel \<Rightarrow> u32 \<Rightarrow> pred) \<Rightarrow> (u32 \<Rightarrow> bool) \<Rightarrow> bool" where
  "tests_field L at R \<longleftrightarrow> (\<forall>rel off pk x. field L rel off SzH pk = Next x \<longrightarrow> at rel off pk = Next (R x))"

lemma tests_port: "tests_field L (\<lambda>rel. port_pred L rel v) (\<lambda>p. p = word_of_int v)"
  using cmp_Next(1) [where m = "0xffffffff"] by (simp add: tests_field_def port_pred_def)

lemma tests_range: "tests_field L (\<lambda>rel. range_pred L rel v w)
    (\<lambda>p. word_of_int (min v w) \<le> p \<and> p \<le> word_of_int (max v w))"
  unfolding tests_field_def range_pred_def by (auto intro!: pred_Next cmp_Next)

lemma ports_eth:
  assumes w: "whole pk" "78 \<le> length (pk_data pk)" and t: "tests_field (eth L) at R"
    and p: "proto \<in> {IPPROTO_TCP, IPPROTO_UDP, IPPROTO_SCTP}" and d: "dir \<in> directions"
  shows "holds_at (ports_num (eth L) at proto dir) pk
     (ipv6_ports (pk_data pk) proto dir R \<or> ipv4_ports (pk_data pk) proto dir R)"
proof -
  let ?d = "pk_data pk" and ?L = "eth L"
  have "unat (?d ! 14) mod 16 < 16" by simp
  then have e: "ip_end ?d + 4 \<le> length ?d" using w(2) by (simp add: ip_end_def)
  have at: "at rel off pk = Next (R x)" if "field ?L rel off SzH pk = Next x" for rel off x
    using t that unfolding tests_field_def by blast
  have a4: "at OR_TRAN_IPV4 0 pk = Next (R (value_at SzH ?d (ip_end ?d)))"
    "at OR_TRAN_IPV4 2 pk = Next (R (value_at SzH ?d (ip_end ?d + 2)))"
    using eth_tran [OF w(1), of 0 SzH L] eth_tran [OF w(1), of 2 SzH L] e by (auto intro: at)
  have a6: "at OR_TRAN_IPV6 0 pk = Next (R (value_at SzH ?d 54))" "at OR_TRAN_IPV6 2 pk = Next (R (value_at SzH ?d 56))"
    using eth_tran6 [OF w(1), of 0 SzH L] eth_tran6 [OF w(1), of 2 SzH L] w(2) by (auto intro: at)
  have n: "field ?L OR_NET 9 SzB pk = Next (value_at SzB ?d 23)" "field ?L OR_NET 6 SzH pk = Next (value_at SzH ?d 20)"
    "field ?L OR_NET 6 SzB pk = Next (value_at SzB ?d 20)"
    using eth_net [OF w(1), of 9 SzB L] eth_net [OF w(1), of 6 SzH L] eth_net [OF w(1), of 6 SzB L] w(2) by simp_all
  have i4: "ip_payload ?L proto pk = Next (value_at SzB ?d 23 = word_of_int proto \<and> value_at SzH ?d 20 AND 0x1fff = 0)"
    using cmp_Next(1) [OF n(1), of "0xffffffff"] n(2) by (auto simp: ip_payload_def intro!: pred_Next)
  have i6: "ip6_payload ?L proto pk = Next (value_at SzB ?d 20 = word_of_int proto)"
    using cmp_Next(1) [OF n(3), of "0xffffffff"] by (simp add: ip6_payload_def)
  have m: "proto_meaning M proto = M proto" for M using p by (auto simp: proto_meaning_def)
  have l: "holds_at (linktype_meaning ?L ETHERTYPE_IP) pk (value_at SzH ?d 12 = 0x800)"
    "holds_at (linktype_meaning ?L ETHERTYPE_IPV6) pk (value_at SzH ?d 12 = 0x86dd)"
    using linktype_eth_at [OF w(1), of ETHERTYPE_IP L] linktype_eth_at [OF w(1), of ETHERTYPE_IPV6 L] w(2) by simp_all
  show ?thesis
    unfolding ports_num_def both_families_def port_meaning_def m ports_meaning_def ipv4_ports_def ipv6_ports_def
    by (rule holds_either holds_both(1) holds_guard(1) holds_dir d holds_Inr a4 a6 i4 i6 l)+
qed

end
