(* ===== verification/Gen_Bytes.thy ===== *)
theory Gen_Bytes
  imports Gen_Packets
begin

text \<open>
  Word comparisons are byte comparisons: \<open>gen_bcmp\<close> against the bytes of the packet, and the
  Ethernet and IP address filters built on it.
\<close>

section \<open>Big-endian words\<close>

lemma u8_bit [simp]: "\<not> bit (b :: u8) (8 + n)"
  by (auto dest: bit_imp_le_length)

lemma be16_parts: "ucast (be16 a b) = b" "ucast (drop_bit 8 (be16 a b)) = a"
  by (rule bit_word_eqI; auto simp: be16_def bit_simps dest: bit_imp_le_length)+

lemma be16_eq: "be16 a b = be16 c d \<longleftrightarrow> a = c \<and> b = d"
  using be16_parts [of a b] be16_parts [of c d] by metis

lemma be32_parts: "ucast (be32 a b c d) = d" "ucast (drop_bit 8 (be32 a b c d)) = c"
  "ucast (drop_bit 16 (be32 a b c d)) = b" "ucast (drop_bit 24 (be32 a b c d)) = a"
  by (rule bit_word_eqI; auto simp: be32_def bit_simps dest: bit_imp_le_length)+

lemma be32_eq: "be32 a b c d = be32 a' b' c' d' \<longleftrightarrow> a = a' \<and> b = b' \<and> c = c' \<and> d = d'"
  using be32_parts [of a b c d] be32_parts [of a' b' c' d'] by metis

lemma ucast_u8_eq: "(ucast (a :: u8) :: u32) = ucast b \<longleftrightarrow> a = b"
  by (metis unat_ucast_u8_u32 word_unat_eq_iff)

section \<open>\<open>gen_bcmp\<close>\<close>

definition bytes_at :: "u8 list \<Rightarrow> nat \<Rightarrow> nat \<Rightarrow> u8 list \<Rightarrow> bool" where
  "bytes_at d i n v \<longleftrightarrow> (\<forall>j < n. d ! (i + j) = v ! j)"

lemma bytes_at_0 [simp]: "bytes_at d i 0 v"
  by (simp add: bytes_at_def)

lemma bytes_at_Suc: "bytes_at d i (Suc n) v \<longleftrightarrow> bytes_at d i n v \<and> d ! (i + n) = v ! n"
  by (auto simp: bytes_at_def less_Suc_eq)

lemma bytes_at_take:
  assumes "i + n \<le> length d" and "n \<le> length v"
  shows "bytes_at d i n v \<longleftrightarrow> take n (drop i d) = take n v"
  using assms by (auto simp: bytes_at_def list_eq_iff_nth_eq)

definition opt_holds :: "pred option \<Rightarrow> packet \<Rightarrow> bool \<Rightarrow> bool" where
  "opt_holds P pk b \<longleftrightarrow> (case P of None \<Rightarrow> b | Some Q \<Rightarrow> Q pk = Next b)"

lemma p_and_opt_holds: "opt_holds P pk a \<Longrightarrow> Q pk = Next b \<Longrightarrow> p_and_opt P Q pk = Next (a \<and> b)"
  by (cases P) (simp_all add: opt_holds_def p_and_opt_def pred_Next)

text \<open>A comparison of the last bytes of \<open>n\<close>.\<close>

lemma tail_field:
  assumes "whole pk" and "off_ll L = 0" and "unat off + n \<le> length (pk_data pk)" and "size_bytes z \<le> n"
  shows "field L OR_LINK (off + of_nat n - of_nat (size_bytes z)) z pk =
     Next (value_at z (pk_data pk) (unat off + (n - size_bytes z)))"
proof -
  let ?k = "n - size_bytes z"
  have "off + of_nat n - of_nat (size_bytes z) = off + (of_nat ?k :: u32)"
    using assms(4) by (simp add: of_nat_diff)
  moreover have k: "unat (of_nat ?k :: u32) = ?k"
    using assms(1,3) by (auto simp: whole_def unat_of_nat intro!: mod_less)
  moreover have "unat (off + of_nat ?k) = unat off + ?k"
    using assms(1,3) k unat_u32_plus_small [of off "of_nat ?k"] by (auto simp: whole_def)
  ultimately have e: "unat (off + of_nat n - of_nat (size_bytes z)) = unat off + ?k" by (simp only:)
  then have "fetch pk z (off + of_nat n - of_nat (size_bytes z)) = Next (value_at z (pk_data pk) (unat off + ?k))"
    using fetch_inside [OF assms(1), of "off + of_nat n - of_nat (size_bytes z)" z] assms(3,4) by simp
  then show ?thesis using assms(2) by simp
qed

lemma bcmp2_holds:
  assumes "whole pk" and "off_ll L = 0"
  shows "unat off + n \<le> length (pk_data pk) \<Longrightarrow> opt_holds P pk a \<Longrightarrow>
    opt_holds (bcmp2_pred L OR_LINK off n v P) pk (a \<and> bytes_at (pk_data pk) (unat off) n v)"
proof (induction n arbitrary: P a rule: less_induct)
  case (less n)
  let ?d = "pk_data pk" and ?o = "unat off"
  consider "n = 0" | "n = 1" | k where "n = Suc (Suc k)" by (metis One_nat_def not0_implies_Suc)
  then show ?case
  proof cases
    case 1
    then show ?thesis using less.prems by (simp add: bcmp2_pred.simps)
  next
    case 2
    have "field L OR_LINK off SzB pk = Next (value_at SzB ?d ?o)"
      using tail_field [OF assms, of off 1 SzB] less.prems 2 by simp
    from cmp_Next(1) [OF this, of "0xffffffff"] p_and_opt_holds [OF less.prems(2)]
    show ?thesis using 2 by (simp add: bcmp2_pred.simps opt_holds_def bytes_at_def ucast_u8_eq)
  next
    case (3 k)
    let ?Q = "is_eq L OR_LINK (off + of_nat n - 2) SzH 0xffffffff (be16 (v ! (n - 2)) (v ! (n - 1)))"
    have "field L OR_LINK (off + of_nat n - 2) SzH pk = Next (value_at SzH ?d (?o + k))"
      using tail_field [OF assms, of off n SzH] less.prems 3 by simp
    from cmp_Next(1) [OF this, of "0xffffffff"]
    have "?Q pk = Next (?d ! (?o + k) = v ! k \<and> ?d ! (?o + Suc k) = v ! Suc k)"
      using 3 by (simp add: be16_eq)
    then have "opt_holds (Some (p_and_opt P ?Q)) pk (a \<and> ?d ! (?o + k) = v ! k \<and> ?d ! (?o + Suc k) = v ! Suc k)"
      using p_and_opt_holds [OF less.prems(2)] by (simp add: opt_holds_def)
    from less.IH [OF _ _ this, of k] less.prems 3
    have "opt_holds (bcmp2_pred L OR_LINK off n v P) pk
        ((a \<and> ?d ! (?o + k) = v ! k \<and> ?d ! (?o + Suc k) = v ! Suc k) \<and> bytes_at ?d ?o k v)"
      by (subst bcmp2_pred.simps) simp
    moreover have "((a \<and> ?d ! (?o + k) = v ! k \<and> ?d ! (?o + Suc k) = v ! Suc k) \<and> bytes_at ?d ?o k v) \<longleftrightarrow>
        a \<and> bytes_at ?d ?o n v"
      using 3 by (auto simp: bytes_at_Suc)
    ultimately show ?thesis by (simp only:)
  qed
qed

lemma bcmp4_holds:
  assumes "whole pk" and "off_ll L = 0"
  shows "unat off + n \<le> length (pk_data pk) \<Longrightarrow> opt_holds P pk a \<Longrightarrow>
    opt_holds (bcmp4_pred L OR_LINK off n v P) pk (a \<and> bytes_at (pk_data pk) (unat off) n v)"
proof (induction n arbitrary: P a rule: less_induct)
  case (less n)
  let ?d = "pk_data pk" and ?o = "unat off"
  show ?case
  proof (cases "n \<ge> 4")
    case False
    then show ?thesis using bcmp2_holds [OF assms less.prems] by (simp add: bcmp4_pred.simps)
  next
    case True
    define k where "k = n - 4"
    let ?B = "?d ! (?o + k) = v ! k \<and> ?d ! (?o + Suc k) = v ! Suc k \<and>
      ?d ! (?o + Suc (Suc k)) = v ! Suc (Suc k) \<and> ?d ! (?o + Suc (Suc (Suc k))) = v ! Suc (Suc (Suc k))"
    have n: "n = Suc (Suc (Suc (Suc k)))" using True by (simp add: k_def)
    let ?Q = "is_eq L OR_LINK (off + of_nat n - 4) SzW 0xffffffff
      (be32 (v ! (n - 4)) (v ! (n - 3)) (v ! (n - 2)) (v ! (n - 1)))"
    have "field L OR_LINK (off + of_nat n - 4) SzW pk = Next (value_at SzW ?d (?o + k))"
      using tail_field [OF assms, of off n SzW] less.prems n by simp
    from cmp_Next(1) [OF this, of "0xffffffff"]
    have "?Q pk = Next ?B" using n by (simp add: be32_eq numeral_2_eq_2 numeral_3_eq_3)
    then have "opt_holds (Some (p_and_opt P ?Q)) pk (a \<and> ?B)"
      using p_and_opt_holds [OF less.prems(2)] by (simp add: opt_holds_def)
    then have "opt_holds (bcmp4_pred L OR_LINK off k v (Some (p_and_opt P ?Q))) pk ((a \<and> ?B) \<and> bytes_at ?d ?o k v)"
      by (rule less.IH [rotated 2]) (use less.prems(1) n in simp_all)
    then have "opt_holds (bcmp4_pred L OR_LINK off n v P) pk ((a \<and> ?B) \<and> bytes_at ?d ?o k v)"
      using True by (subst bcmp4_pred.simps) (simp only: k_def if_True)
    moreover have "(a \<and> ?B) \<and> bytes_at ?d ?o k v \<longleftrightarrow> a \<and> bytes_at ?d ?o n v"
      using n by (auto simp: bytes_at_Suc)
    ultimately show ?thesis by (simp only:)
  qed
qed

lemma bcmp_holds:
  assumes "whole pk" and "off_ll L = 0" and "unat off + n \<le> length (pk_data pk)" and "0 < n"
  shows "bcmp_pred L OR_LINK off n v pk = Next (bytes_at (pk_data pk) (unat off) n v)"
  using bcmp4_holds [OF assms(1-3), of None True v] bcmp4_pred_some [of n None L OR_LINK off v] assms(4)
  by (auto simp: opt_holds_def bcmp_pred_def)

section \<open>Address filters\<close>

lemma ether_host_eth:
  assumes "whole pk" and "14 \<le> length (pk_data pk)" and "length a = 6" and "dir \<in> directions"
    and "addr \<in> {Q_HOST, Q_DEFAULT}"
  shows "holds_at (ecode_meaning (eth L) a \<lparr>q_addr = addr, q_proto = Q_LINK, q_dir = dir\<rparr>) pk
     (dir_holds dir (take 6 (drop 6 (pk_data pk)) = a) (take 6 (pk_data pk) = a))"
proof -
  let ?d = "pk_data pk"
  have "bcmp_pred (eth L) OR_LINK 6 6 a pk = Next (take 6 (drop 6 ?d) = a)"
    "bcmp_pred (eth L) OR_LINK 0 6 a pk = Next (take 6 ?d = a)"
    using bcmp_holds [OF assms(1), of "eth L" 6 6 a] bcmp_holds [OF assms(1), of "eth L" 0 6 a] assms(2,3)
      bytes_at_take [of 6 6 ?d a] bytes_at_take [of 0 6 ?d a] by simp_all
  then show ?thesis using assms(4,5) holds_dir by (auto simp: ecode_meaning_def mac_dir_def holds_at_def)
qed

lemma ip_host_eth:
  assumes w: "whole pk" "34 \<le> length (pk_data pk)" and d: "dir \<in> directions"
  shows "holds_at (gen_host_meaning (eth L) addr msk Q_IP dir) pk
     (dir_holds dir (value_at SzH (pk_data pk) 12 = 0x800 \<and> value_at SzW (pk_data pk) 26 AND msk = addr)
        (value_at SzH (pk_data pk) 12 = 0x800 \<and> value_at SzW (pk_data pk) 30 AND msk = addr))"
proof -
  let ?d = "pk_data pk" and ?L = "eth L"
  have n: "field ?L OR_NET 12 SzW pk = Next (value_at SzW ?d 26)" "field ?L OR_NET 16 SzW pk = Next (value_at SzW ?d 30)"
    using eth_net [OF w(1), of 12 SzW L] eth_net [OF w(1), of 16 SzW L] w(2) by simp_all
  have l: "holds_at (linktype_meaning ?L ETHERTYPE_IP) pk (value_at SzH ?d 12 = 0x800)"
    using linktype_eth_at [OF w(1), of ETHERTYPE_IP L] w(2) by simp
  have e: "gen_host_meaning ?L addr msk Q_IP dir = host_dir ?L addr msk dir 12 16 ETHERTYPE_IP"
    by (simp add: gen_host_meaning_def)
  show ?thesis
    unfolding e host_dir_def host_meaning_def by (rule holds_dir d holds_guard(2) cmp_Next n l)+
qed

end
