(* ===== verification/Gen_Tagged.thy ===== *)
theory Gen_Tagged
  imports Gen_Bytes
begin

text \<open>
  The filter after \<open>vlan\<close>: the layout shifted by four bytes reads in a tagged packet what the layout
  before reads in the packet without its tag.
\<close>

section \<open>A tagged packet\<close>

definition tagged :: "u8 \<Rightarrow> u8 \<Rightarrow> u8 list \<Rightarrow> u8 list" where
  "tagged t1 t2 d = take 12 d @ [0x81, 0x00, t1, t2] @ drop 12 d"

lemma length_tagged: "12 \<le> length d \<Longrightarrow> length (tagged t1 t2 d) = length d + 4"
  by (simp add: tagged_def)

lemma nth_tagged: "12 \<le> i \<Longrightarrow> i < length d \<Longrightarrow> tagged t1 t2 d ! (i + 4) = d ! i"
  by (simp add: tagged_def nth_append min_def nth_Cons')

lemma value_tagged:
  assumes "12 \<le> i" and "i + size_bytes z \<le> length d"
  shows "value_at z (tagged t1 t2 d) (i + 4) = value_at z d i"
proof -
  have n: "tagged t1 t2 d ! (i + 4 + k) = d ! (i + k)" if "i + k < length d" for k
    using nth_tagged [of "i + k" d t1 t2] assms(1) that by (simp add: ac_simps)
  show ?thesis using assms(2) n [of 0] n [of 1] n [of 2] n [of 3] by (cases z) simp_all
qed

lemma fetch_tagged:
  assumes "whole pk" and "whole pk'" and t: "pk_data pk' = tagged t1 t2 (pk_data pk)" and "12 \<le> length (pk_data pk)"
    and k: "12 \<le> unat k" "unat k < 1073741824" and k': "unat k' = unat k + 4"
  shows "fetch pk' z k' = fetch pk z k"
proof (cases "unat k + size_bytes z \<le> length (pk_data pk)")
  case True
  then show ?thesis
    using fetch_inside [OF assms(1) True] fetch_inside [OF assms(2), of k' z] value_tagged [OF k(1) True] k' t
      length_tagged [OF assms(4)] by simp
next
  case False
  then show ?thesis
    using fetch_outside [OF assms(1), of k z] fetch_outside [OF assms(2), of k' z] k k' t length_tagged [OF assms(4)] by simp
qed

section \<open>The same outcome at two packets\<close>

definition same_at :: "meaning \<Rightarrow> packet \<Rightarrow> meaning \<Rightarrow> packet \<Rightarrow> bool" where
  "same_at r pk r' pk' \<longleftrightarrow> (\<exists>P P'. r = Inr P \<and> r' = Inr P' \<and> P pk = P' pk')"

lemma same_Inr: "P pk = P' pk' \<Longrightarrow> same_at (Inr P) pk (Inr P') pk'"
  by (simp add: same_at_def)

lemma same_ops:
  "P pk = P' pk' \<Longrightarrow> Q pk = Q' pk' \<Longrightarrow> p_and P Q pk = p_and P' Q' pk'"
  "P pk = P' pk' \<Longrightarrow> Q pk = Q' pk' \<Longrightarrow> p_or P Q pk = p_or P' Q' pk'"
  by (simp_all add: p_and_def p_or_def cong: if_cong)

lemma same_both:
  "same_at r pk r' pk' \<Longrightarrow> same_at s pk s' pk' \<Longrightarrow>
   same_at (rbind r (\<lambda>P. rbind s (\<lambda>Q. Inr (p_and P Q)))) pk (rbind r' (\<lambda>P. rbind s' (\<lambda>Q. Inr (p_and P Q)))) pk'"
  "same_at r pk r' pk' \<Longrightarrow> same_at s pk s' pk' \<Longrightarrow>
   same_at (rbind r (\<lambda>P. rbind s (\<lambda>Q. Inr (p_or P Q)))) pk (rbind r' (\<lambda>P. rbind s' (\<lambda>Q. Inr (p_or P Q)))) pk'"
  "same_at r pk r' pk' \<Longrightarrow> same_at s pk s' pk' \<Longrightarrow>
   same_at (rbind r (\<lambda>P. rbind s (\<lambda>Q. Inr (p_or Q P)))) pk (rbind r' (\<lambda>P. rbind s' (\<lambda>Q. Inr (p_or Q P)))) pk'"
  "Q pk = Q' pk' \<Longrightarrow> same_at r pk r' pk' \<Longrightarrow>
   same_at (rbind r (\<lambda>P. Inr (p_and P Q))) pk (rbind r' (\<lambda>P. Inr (p_and P Q'))) pk'"
  "P pk = P' pk' \<Longrightarrow> same_at s pk s' pk' \<Longrightarrow>
   same_at (rbind s (\<lambda>Q. Inr (p_and P Q))) pk (rbind s' (\<lambda>Q. Inr (p_and P' Q))) pk'"
  by (auto simp: same_at_def intro: same_ops)

lemma same_dir:
  assumes "dir \<in> directions" and "same_at r pk r' pk'" and "same_at s pk s' pk'"
  shows "same_at (dir_meaning dir bad r s) pk (dir_meaning dir bad r' s') pk'"
  using assms(1) same_both(1,2) [OF assms(2,3)] assms(2,3) by (auto simp: dir_meaning_def)

section \<open>The shifted layout\<close>

lemma vlan_fields [simp]:
  "linktype (vlan_layout L) = linktype L" "off_ll (vlan_layout L) = off_ll L" "off_macpl (vlan_layout L) = off_macpl L + 4"
  "off_linktype (vlan_layout L) = off_linktype L + 4" "off_nl (vlan_layout L) = off_nl L"
  "label_stack_depth (vlan_layout L) = label_stack_depth L" "is_pppoes (vlan_layout L) = is_pppoes L"
  by (simp_all add: vlan_layout_def)

definition tag_pair :: "packet \<Rightarrow> packet \<Rightarrow> bool" where
  "tag_pair pk pk' \<longleftrightarrow> whole pk \<and> whole pk' \<and> 12 \<le> length (pk_data pk) \<and>
     (\<exists>t1 t2. pk_data pk' = tagged t1 t2 (pk_data pk))"

lemma fetch_pair:
  "tag_pair pk pk' \<Longrightarrow> 12 \<le> unat k \<Longrightarrow> unat k < 1073741824 \<Longrightarrow> unat k' = unat k + 4 \<Longrightarrow> fetch pk' z k' = fetch pk z k"
  unfolding tag_pair_def using fetch_tagged by blast

lemma tran_offset:
  fixes b :: u8
  assumes "unat off < 1000" and "unat c < 100"
  shows "unat (push_bit 2 (ucast b AND 0xf) + (c + off) :: u32) = 4 * (unat b mod 16) + unat c + unat off"
proof -
  have "unat b mod 16 < 16" "unat (c + off) = unat c + unat off" using assms by (simp_all add: unat_u32_plus_small)
  then show ?thesis
    using unat_u32_plus_small [of "push_bit 2 (ucast b AND 0xf)" "c + off"] hdr_len [of b] assms by simp
qed

lemma pair_fields:
  assumes p: "tag_pair pk pk'" and off: "unat off < 1000"
  shows "field (vlan_layout (eth L)) OR_LINK 16 SzH pk' = field (eth L) OR_LINK 12 SzH pk"
    and "field (vlan_layout (eth L)) OR_NET off z pk' = field (eth L) OR_NET off z pk"
    and "field (vlan_layout (eth L)) OR_TRAN_IPV6 off z pk' = field (eth L) OR_TRAN_IPV6 off z pk"
    and "field (vlan_layout (eth L)) OR_TRAN_IPV4 off z pk' = field (eth L) OR_TRAN_IPV4 off z pk"
proof -
  have u: "unat (14 + off) = 14 + unat off" "unat (18 + off) = 18 + unat off"
    "unat (54 + off) = 54 + unat off" "unat (58 + off) = 58 + unat off"
    using off by (simp_all add: unat_u32_plus_small)
  show "field (vlan_layout (eth L)) OR_LINK 16 SzH pk' = field (eth L) OR_LINK 12 SzH pk"
    by (simp, rule fetch_pair [OF p]) simp_all
  show "field (vlan_layout (eth L)) OR_NET off z pk' = field (eth L) OR_NET off z pk"
    by (simp, rule fetch_pair [OF p]) (use off u in simp_all)
  show "field (vlan_layout (eth L)) OR_TRAN_IPV6 off z pk' = field (eth L) OR_TRAN_IPV6 off z pk"
    by (simp, rule fetch_pair [OF p]) (use off u in \<open>simp_all add: add.assoc [symmetric]\<close>)
  have f: "fetch pk' SzB 18 = fetch pk SzB 14" by (rule fetch_pair [OF p]) simp_all
  show "field (vlan_layout (eth L)) OR_TRAN_IPV4 off z pk' = field (eth L) OR_TRAN_IPV4 off z pk"
  proof (cases "fetch pk SzB 14")
    case (Next v)
    have "whole pk" using p by (simp add: tag_pair_def)
    then have l: "15 \<le> length (pk_data pk)" using Next fetch_outside [of pk 14 SzB] by (cases "15 \<le> length (pk_data pk)") auto
    then have v: "v = ucast (pk_data pk ! 14)" using Next fetch_inside [OF \<open>whole pk\<close>, of 14 SzB] by simp
    have b: "unat (pk_data pk ! 14) mod 16 < 16" by simp
    have o: "unat (push_bit 2 (v AND 0xf) + (14 + off)) = 4 * (unat (pk_data pk ! 14) mod 16) + 14 + unat off"
      "unat (push_bit 2 (v AND 0xf) + (18 + off)) = 4 * (unat (pk_data pk ! 14) mod 16) + 18 + unat off"
      unfolding v using tran_offset [OF off, of 14] tran_offset [OF off, of 18] by simp_all
    have "fetch pk' z (push_bit 2 (v AND 0xf) + (18 + off)) = fetch pk z (push_bit 2 (v AND 0xf) + (14 + off))"
      by (rule fetch_pair [OF p]) (use o b off in linarith)+
    then show ?thesis using f Next by simp
  qed (use f in simp_all)
qed

lemma pair_linktype:
  assumes "tag_pair pk pk'" and "proto > ETHERMTU" and "proto \<notin> {ETHERTYPE_ATALK, ETHERTYPE_AARP}"
  shows "same_at (linktype_meaning (vlan_layout (eth L)) proto) pk' (linktype_meaning (eth L) proto) pk"
proof -
  have "linktype_meaning (vlan_layout (eth L)) proto = Inr (type_is (vlan_layout (eth L)) (word_of_int proto))"
    "linktype_meaning (eth L) proto = Inr (type_is (eth L) (word_of_int proto))"
    using ether_type_pred [OF assms(2,3)] by (simp_all add: linktype_meaning_def linktype_meaning_1_def)
  then show ?thesis using pair_fields(1) [OF assms(1), of 0 L] by (simp add: same_at_def is_eq_def)
qed

lemma pair_ports:
  assumes p: "tag_pair pk pk'" and d: "dir \<in> directions" and pr: "proto \<in> {IPPROTO_TCP, IPPROTO_UDP, IPPROTO_SCTP}"
  shows "same_at (ports_num (vlan_layout (eth L)) (\<lambda>rel. port_pred (vlan_layout (eth L)) rel v) proto dir) pk'
     (ports_num (eth L) (\<lambda>rel. port_pred (eth L) rel v) proto dir) pk"
proof -
  let ?V = "vlan_layout (eth L)"
  have f: "unat (0 :: u32) < 1000" "unat (2 :: u32) < 1000" "unat (6 :: u32) < 1000" "unat (9 :: u32) < 1000" by simp_all
  note fs = pair_fields(2-4) [OF p f(1)] pair_fields(2-4) [OF p f(2)] pair_fields(2-4) [OF p f(3)] pair_fields(2-4) [OF p f(4)]
  have at: "port_pred ?V OR_TRAN_IPV4 u off pk' = port_pred (eth L) OR_TRAN_IPV4 u off pk"
    "port_pred ?V OR_TRAN_IPV6 u off pk' = port_pred (eth L) OR_TRAN_IPV6 u off pk" if "off = 0 \<or> off = 2" for u off
    using that by (auto simp only: port_pred_def is_eq_def fs)
  have ip: "ip_payload ?V q pk' = ip_payload (eth L) q pk" "ip6_payload ?V q pk' = ip6_payload (eth L) q pk" for q
    by (simp_all only: ip_payload_def ip6_payload_def is_eq_def p_and_def fs)
  have m: "proto_meaning M proto = M proto" for M using pr by (auto simp: proto_meaning_def)
  note l = pair_linktype [OF p, of ETHERTYPE_IP L] pair_linktype [OF p, of ETHERTYPE_IPV6 L]
  show ?thesis
    unfolding ports_num_def both_families_def port_meaning_def m ports_meaning_def
    by (rule same_both(3) same_both(1) same_both(5) same_dir d same_Inr ip at l | simp)+
qed


lemma vlan_test:
  assumes "tag_pair pk pk'" and "pk_data pk' = tagged t1 t2 (pk_data pk)" and "0 \<le> n"
  shows "\<exists>P. vlan_meaning (eth L) n = Inr P \<and> P pk' = Next (be16 t1 t2 AND 0xfff = word_of_int n)"
proof -
  let ?L = "eth L\<lparr>orig_nl := 0\<rparr>"
  have w: "whole pk'" "16 \<le> length (pk_data pk')" "12 \<le> length (pk_data pk)"
    using assms(1,2) length_tagged by (auto simp: tag_pair_def)
  have d: "pk_data pk' ! 12 = 0x81" "pk_data pk' ! 13 = 0" "pk_data pk' ! 14 = t1" "pk_data pk' ! 15 = t2"
    using assms(2) w(3) by (simp_all add: tagged_def nth_append min_def)
  have "field ?L OR_LINK 12 SzH pk' = Next 0x8100" "field ?L OR_MACPL 0 SzH pk' = Next (be16 t1 t2)"
    using fetch_inside [OF w(1), of 12 SzH] fetch_inside [OF w(1), of 14 SzH] w(2) d by (simp_all add: be16_def)
  then have "p_and (is_eq ?L OR_LINK 12 SzH 0xffffffff 0x8100) (is_eq ?L OR_MACPL 0 SzH 0xfff (word_of_int n)) pk' =
      Next (be16 t1 t2 AND 0xfff = word_of_int n)"
    by (simp add: is_eq_def p_and_def)
  then show ?thesis using assms(3) by (simp add: vlan_meaning_def Let_def)
qed

end
