(* ===== verification/Gen_Correct.thy ===== *)
theory Gen_Correct
  imports Gen_Tagged
begin

text \<open>
  What the filter compiler promises: the properties of \<open>pcap_compile\<close>, of the block combinators and
  of the layouts, and for the filters users write what they accept on the bytes of a packet.
\<close>

section \<open>The compiler\<close>

text \<open>The layout variables before anything was compiled.\<close>

definition blank :: layout where
  "blank = \<lparr>linktype = 0, off_ll = 0, off_mac = 0, off_macpl = 0, off_macpl_is_variable = False, off_linktype = 0,
     off_nl = 0, off_nl_nosnap = 0, is_pppoes = False, is_atm = False, is_lane = False, off_vpi = 0, off_vci = 0,
     off_proto = 0, off_payload = 0, off_li = 0, off_sio = 0, off_opc = 0, off_dpc = 0, off_sls = 0,
     orig_linktype = 0, orig_nl = 0, label_stack_depth = 0, reg_off_ll = 0, reg_off_macpl = 0, file_swapped = False,
     lay_regs = \<lparr>regused = {}, curreg = 0\<rparr>\<rparr>"

lemmas gen_run = filter_size_def filter_root_def keeping_def gen_proto_abbrev_def proto_abbrev_1_def gen_linktype_def
  gen_linktype_1_def gen_ether_linktype_def gen_cmp_def gen_ncmp_def gen_load_llrel_def gret_def finish_parse_def Let_def
  slength.simps new_block_def set_stmts_def set_k_def upd_block_def gen_retblk_def backpatch_def flip_sense_def get_head_def
  hole_def set_hole_def empty_gen_def JT_def JF_def new_stmt_def set_head_def merge_def gen_and_def gen_or_def gen_not_def

lemma size_arp: "filter_size 96 0 (Prim (Abbrev Q_ARP)) (eth blank) < 4294967296"
  by (simp add: gen_run)


lemma init_blank: "init_linktype DLT_EN10MB False (init_regs blank) = Some (eth blank)"
  by (rule init_eth)

lemma arp_meaning: "fexp_meaning netmask (Prim (Abbrev Q_ARP)) (eth L) = Inr (type_is (eth L) 0x806)"
  by (simp add: abbrev_meaning_def abbrev_meaning_1_def linktype_eth ether_type_pred)

text \<open>C1: \<open>pcap_compile\<close> without optimisation is correct. For every filter expression of the grammar in numbers and addresses but bit tests on a byte
  (\<open>gen_byteop\<close> with \<open>&\<close> or \<open>|\<close>, which never load the byte) and \<open>protochain\<close>, every link layer with a header of fixed length and
  programs shorter than 2 to the 32, the compilation fails with the error the
  expression has, or the program it returns gives, run on any packet with any scratch memory, exactly the
  verdict the expression's meaning has on the packet: \<open>snaplen\<close>, or 0.\<close>

theorem pcap_compile_correct:
  assumes "no_bit_test e" and "init_linktype dl sw (init_regs L0) = Some L" and "snaplen \<noteq> 0" and "\<not> off_macpl_is_variable L"
    and "filter_size snaplen netmask e L < 4294967296"
  shows "case fexp_meaning netmask e L of
      Inl err \<Rightarrow> pcap_compile dl sw snaplen netmask False (Some e) L0 = Inl (CompileError err)
    | Inr P \<Rightarrow> \<exists>f. pcap_compile dl sw snaplen netmask False (Some e) L0 = Inr f \<and>
        (\<forall>pk mem. length mem = BPF_MEMWORDS \<longrightarrow>
           bpf_filter (Some f) mem pk = Some (filter_result snaplen (P pk)))"
  using pcap_compile_meaning [OF assms] by (auto split: sum.splits)

theorem pcap_compile_correct_witness:
  "\<exists>f. pcap_compile DLT_EN10MB False 96 0 False (Some (Prim (Abbrev Q_ARP))) blank = Inr f \<and>
     (\<forall>pk mem. length mem = BPF_MEMWORDS \<longrightarrow>
        bpf_filter (Some f) mem pk = Some (filter_result 96 (type_is (eth blank) 0x806 pk)))"
  using pcap_compile_correct [OF _ init_blank _ _ size_arp] unfolding arp_meaning by simp

text \<open>C25: the filter compiler without optimisation only emits programs the validator accepts: what \<open>pcap_compile\<close>
  returns for an expression without bit tests on a byte and without \<open>protochain\<close> (its loop jumps backwards), on a link layer with a
  header of fixed length, passes \<open>bpf_validate\<close>, has no jump backwards and an index of 32 bits.\<close>

theorem compiled_filter_valid:
  assumes "no_bit_test e" and "init_linktype dl sw (init_regs L0) = Some L" and "snaplen \<noteq> 0" and "\<not> off_macpl_is_variable L"
    and "filter_size snaplen netmask e L < 4294967296"
    and "pcap_compile dl sw snaplen netmask False (Some e) L0 = Inr f"
  shows "bpf_validate f \<and> forward_jumps f \<and> length f < 4294967296"
  using pcap_compile_meaning [OF assms(1-5)] assms(6) by (auto split: sum.splits)

lemma arp_compiles: "\<exists>f. pcap_compile DLT_EN10MB False 96 0 False (Some (Prim (Abbrev Q_ARP))) blank = Inr f"
  using pcap_compile_meaning [OF _ init_blank _ _ size_arp] unfolding arp_meaning by auto

theorem compiled_filter_valid_witness:
  "\<exists>f. pcap_compile DLT_EN10MB False 96 0 False (Some (Prim (Abbrev Q_ARP))) blank = Inr f \<and> bpf_validate f"
  using arp_compiles compiled_filter_valid [OF _ init_blank _ _ size_arp] by auto

text \<open>Every compiled filter answers on every packet: its run ends, and it accepts with \<open>snaplen\<close>,
  rejects with 0, reads outside the packet buffer, or shifts a word by 32 or more, which C leaves open; it never
  aborts, divides by 0 or touches scratch memory that does not exist.\<close>

theorem compiled_filter_returns:
  assumes "no_bit_test e" and "init_linktype dl sw (init_regs L0) = Some L" and "snaplen \<noteq> 0" and "\<not> off_macpl_is_variable L"
    and "filter_size snaplen netmask e L < 4294967296"
    and "pcap_compile dl sw snaplen netmask False (Some e) L0 = Inr f" and "length mem = BPF_MEMWORDS"
  shows "\<exists>z. bpf_filter (Some f) mem pk = Some z \<and> (z = Ret snaplen \<or> z = Ret 0 \<or> z = Fault BadPacketRead \<or> z = Fault ShiftWidth)"
  using pcap_compile_meaning [OF assms(1-5)] assms(6,7) by (auto simp: verdict_of_def split: sum.splits)

theorem compiled_filter_returns_witness:
  "\<exists>f z. pcap_compile DLT_EN10MB False 96 0 False (Some (Prim (Abbrev Q_ARP))) blank = Inr f \<and>
     bpf_filter (Some f) (replicate BPF_MEMWORDS 7) \<lparr>pk_data = [1, 2], pk_wirelen = 60, pk_buflen = 2\<rparr> = Some z"
proof -
  obtain f where f: "pcap_compile DLT_EN10MB False 96 0 False (Some (Prim (Abbrev Q_ARP))) blank = Inr f"
    using arp_compiles by blast
  have "length (replicate BPF_MEMWORDS (7 :: u32)) = BPF_MEMWORDS" by (rule length_replicate)
  from compiled_filter_returns [OF _ init_blank _ _ size_arp f this] f show ?thesis by simp blast
qed

text \<open>A compilation does not depend on the one before: \<open>init_linktype\<close> leaves nothing in the layout
  variables (the offsets, the label stack, the encapsulations \<open>vlan\<close>, \<open>mpls\<close> and \<open>pppoes\<close> shift them by) of
  what earlier filters put there.\<close>

theorem compile_independent_of_history:
  "pcap_compile dl sw snaplen netmask opt eo L = pcap_compile dl sw snaplen netmask opt eo L'"
  unfolding pcap_compile_def using init_linktype_fresh [of dl sw L L'] by simp

text \<open>C3: the combinators keep the lists of unresolved branches and combine what they decide. From a heap
  in which \<open>b0\<close> and \<open>b1\<close> are pending expressions for \<open>P\<close> and \<open>Q\<close> on disjoint blocks, \<open>gen_and\<close> and
  \<open>gen_or\<close> succeed and leave in \<open>b1\<close> one for the conjunction, the disjunction, evaluated left to right;
  \<open>gen_not\<close> negates; other expressions are untouched.\<close>

theorem block_combinators:
  "hoare ((b0, P) # (b1, Q) # xs) (gen_and b0 b1) (\<lambda>_. (b1, p_and P Q) # xs) \<and>
   hoare ((b0, P) # (b1, Q) # xs) (gen_or b0 b1) (\<lambda>_. (b1, p_or P Q) # xs) \<and>
   hoare ((b0, P) # xs) (gen_not b0) (\<lambda>_. (b0, p_not P) # xs)"
  using hoare_and hoare_or hoare_not by blast


section \<open>Filters on the bytes of an Ethernet packet\<close>

abbreviation port_filter :: "int \<Rightarrow> int \<Rightarrow> u32 \<Rightarrow> fexp" where
  "port_filter proto dir v \<equiv> Prim (Num None v \<lparr>q_addr = Q_PORT, q_proto = proto, q_dir = dir\<rparr>)"

lemma port_filter_meaning:
  assumes "ip_proto_of proto = Some p"
  shows "fexp_meaning netmask (port_filter proto dir v) L = ports_num L (\<lambda>rel. port_pred L rel (sint v)) p dir"
  using assms by (auto simp: ncode_meaning_def ncode_value_def ip_proto_of_def split: if_splits)

text \<open>C4: \<open>tcp src port 80\<close> and its kin, on the bytes of an Ethernet packet. The compiled graph accepts
  exactly the IPv6 packets whose next header is the protocol and the IPv4 packets that carry it and are no
  later fragment, in which the asked port - the source port at the end of the IP header, as its length
  field says, the destination port 2 bytes on, both, or either - is the number.\<close>

theorem port_filter_accepts:
  assumes "whole pk" and "78 \<le> length (pk_data pk)" and "length mem = BPF_MEMWORDS"
    and "ip_proto_of proto = Some p" and "p \<in> {IPPROTO_TCP, IPPROTO_UDP, IPPROTO_SCTP}" and "dir \<in> directions"
  shows "run_filter snaplen netmask (port_filter proto dir v) (eth L) pk mem =
     Some (Ret (if ipv6_ports (pk_data pk) p dir (\<lambda>q. q = v) \<or> ipv4_ports (pk_data pk) p dir (\<lambda>q. q = v)
       then snaplen else 0))"
proof (rule run_filter_holds [OF _ _ _ assms(3)])
  have t: "tests_field (eth L) (\<lambda>rel. port_pred (eth L) rel (sint v)) (\<lambda>q. q = v)"
    using tests_port [of "eth L" "sint v"] by simp
  show "holds_at (fexp_meaning netmask (port_filter proto dir v) (eth L)) pk
     (ipv6_ports (pk_data pk) p dir (\<lambda>q. q = v) \<or> ipv4_ports (pk_data pk) p dir (\<lambda>q. q = v))"
    unfolding port_filter_meaning [OF assms(4)] by (rule ports_eth [OF assms(1,2) t assms(5,6)])
qed simp_all

text \<open>A TCP segment from port 80 to port 22, padded.\<close>

definition http_packet :: packet where
  "http_packet = \<lparr>pk_data = replicate 12 0 @ [8, 0, 0x45] @ replicate 8 0 @ [6] @ replicate 10 0 @ [0, 80, 0, 22] @ replicate 40 0,
     pk_wirelen = 78, pk_buflen = 78\<rparr>"

lemma http_fields:
  "whole http_packet" "length (pk_data http_packet) = 78"
  "ipv4_ports (pk_data http_packet) IPPROTO_TCP Q_SRC (\<lambda>q. q = 80)"
  "\<not> ipv4_ports (pk_data http_packet) IPPROTO_TCP Q_DST (\<lambda>q. q = 80)"
  "\<not> ipv6_ports (pk_data http_packet) IPPROTO_TCP dir R"
  by (simp_all add: http_packet_def whole_def ipv4_ports_def ipv6_ports_def ip_end_def nth_append be16_def)

theorem port_filter_accepts_witness:
  "run_filter 96 0 (port_filter Q_TCP Q_SRC 80) (eth blank) http_packet (replicate BPF_MEMWORDS 0) = Some (Ret 96) \<and>
   run_filter 96 0 (port_filter Q_TCP Q_DST 80) (eth blank) http_packet (replicate BPF_MEMWORDS 0) = Some (Ret 0)"
  using port_filter_accepts [OF http_fields(1) _ length_replicate, of Q_TCP IPPROTO_TCP] http_fields
  by (simp add: ip_proto_of_def del: replicate.simps)


text \<open>C6: \<open>ip net 10.1\<close> and \<open>ip host 10.1.2.3\<close> on Ethernet, from the text of the address to the bytes. With \<open>n\<close> bits
  read as the number \<open>a\<close>, the graph accepts exactly the IPv4 packets whose source, destination, either or
  both agree with \<open>a\<close> on the first \<open>n\<close> bits. (Without \<open>ip\<close> the addresses of ARP and RARP packets count as well.)\<close>

theorem net_filter_accepts:
  assumes "whole pk" and "34 \<le> length (pk_data pk)" and "length mem = BPF_MEMWORDS"
    and "pcap_atoin s = (n, a)" and "n \<le> 32" and "addr \<in> {Q_DEFAULT, Q_HOST, Q_NET}" and "dir \<in> directions"
  shows "run_filter snaplen netmask (Prim (Num (Some s) 0 \<lparr>q_addr = addr, q_proto = Q_IP, q_dir = dir\<rparr>)) (eth L) pk mem =
     Some (Ret (let agrees = \<lambda>i. value_at SzH (pk_data pk) 12 = 0x800 \<and>
         value_at SzW (pk_data pk) i AND push_bit (32 - n) 0xffffffff = push_bit (32 - n) a
       in if dir_holds dir (agrees 26) (agrees 30) then snaplen else 0))"
proof -
  have m: "fexp_meaning netmask (Prim (Num (Some s) 0 \<lparr>q_addr = addr, q_proto = Q_IP, q_dir = dir\<rparr>)) (eth L) =
      gen_host_meaning (eth L) (push_bit (32 - n) a) (push_bit (32 - n) 0xffffffff) Q_IP dir"
    using assms(4-6) by (auto simp: ncode_meaning_def ncode_value_def Let_def)
  show ?thesis
    unfolding Let_def
    by (rule run_filter_holds [OF _ _ _ assms(3)]) (use ip_host_eth [OF assms(1,2,7)] m in simp_all)
qed

definition ip_packet :: packet where
  "ip_packet = \<lparr>pk_data = replicate 12 0 @ [8, 0] @ replicate 12 0 @ [10, 1, 2, 3, 10, 9, 2, 3], pk_wirelen = 34, pk_buflen = 34\<rparr>"

theorem net_filter_accepts_witness:
  "run_filter 96 0 (Prim (Num (Some ''10.1'') 0 \<lparr>q_addr = Q_NET, q_proto = Q_IP, q_dir = Q_SRC\<rparr>)) (eth blank) ip_packet
     (replicate BPF_MEMWORDS 0) = Some (Ret 96) \<and>
   run_filter 96 0 (Prim (Num (Some ''10.1'') 0 \<lparr>q_addr = Q_NET, q_proto = Q_IP, q_dir = Q_DST\<rparr>)) (eth blank) ip_packet
     (replicate BPF_MEMWORDS 0) = Some (Ret 0)"
proof -
  have p: "pcap_atoin ''10.1'' = (16, 0x0a01)"
    by (simp add: pcap_atoin_def pcap_atoin_from.simps char_val_def of_char_def)
  have w: "whole ip_packet" "34 \<le> length (pk_data ip_packet)" by (simp_all add: ip_packet_def whole_def)
  show ?thesis
    using net_filter_accepts [OF w length_replicate p, of Q_NET Q_SRC 96 0 blank]
      net_filter_accepts [OF w length_replicate p, of Q_NET Q_DST 96 0 blank]
    by (simp add: ip_packet_def nth_append be16_def be32_def del: replicate.simps)
qed

text \<open>C8: \<open>ether host\<close> compares the six bytes of the address with the destination at offset 0 and the source
  at offset 6 of the frame.\<close>

theorem ether_filter_accepts:
  assumes "whole pk" and "14 \<le> length (pk_data pk)" and "length mem = BPF_MEMWORDS" and "length a = 6"
    and "dir \<in> directions" and "addr \<in> {Q_HOST, Q_DEFAULT}"
  shows "run_filter snaplen netmask (Prim (Ether a \<lparr>q_addr = addr, q_proto = Q_LINK, q_dir = dir\<rparr>)) (eth L) pk mem =
     Some (Ret (if dir_holds dir (take 6 (drop 6 (pk_data pk)) = a) (take 6 (pk_data pk) = a) then snaplen else 0))"
  by (rule run_filter_holds [OF _ _ _ assms(3)]) (use ether_host_eth [OF assms(1,2,4-6)] in simp_all)

theorem ether_filter_accepts_witness:
  "run_filter 96 0 (Prim (Ether [0, 0, 0, 0, 0, 0] \<lparr>q_addr = Q_HOST, q_proto = Q_LINK, q_dir = Q_AND\<rparr>)) (eth blank)
     http_packet (replicate BPF_MEMWORDS 0) = Some (Ret 96)"
  using ether_filter_accepts [OF http_fields(1) _ length_replicate, of "[0, 0, 0, 0, 0, 0]" Q_AND Q_HOST 96 0 blank] http_fields(2)
  by (simp add: http_packet_def numeral_eq_Suc)

text \<open>C7: \<open>gen_bcmp\<close> compares words from the end, then a halfword, then a byte; together the tests
  are the comparison of the byte strings, for a string of any length at any offset in the packet.\<close>

theorem bcmp_is_byte_comparison:
  assumes "0 < n" and "n \<le> length v" and "off_ll L = 0"
  shows "\<exists>P. makes (gen_bcmp L OR_LINK off n v) P \<and>
     (\<forall>pk. whole pk \<and> unat off + n \<le> length (pk_data pk) \<longrightarrow>
        P pk = Next (take n (drop (unat off) (pk_data pk)) = take n v))"
proof (intro exI conjI allI impI)
  show "makes (gen_bcmp L OR_LINK off n v) (bcmp_pred L OR_LINK off n v)" by (rule makes_bcmp_pred [OF assms(1)])
  fix pk assume "whole pk \<and> unat off + n \<le> length (pk_data pk)"
  then show "bcmp_pred L OR_LINK off n v pk = Next (take n (drop (unat off) (pk_data pk)) = take n v)"
    using bcmp_holds [of pk L off n v] bytes_at_take assms by simp
qed

theorem bcmp_is_byte_comparison_witness:
  "\<exists>P. makes (gen_bcmp (eth blank) OR_LINK 5 7 [1, 2, 3, 4, 5, 6, 7]) P \<and>
     P \<lparr>pk_data = [9, 9, 9, 9, 9, 1, 2, 3, 4, 5, 6, 7, 9], pk_wirelen = 13, pk_buflen = 13\<rparr> = Next True"
proof -
  let ?pk = "\<lparr>pk_data = [9, 9, 9, 9, 9, 1, 2, 3, 4, 5, 6, 7, 9], pk_wirelen = 13, pk_buflen = 13\<rparr> :: packet"
  obtain P where P: "makes (gen_bcmp (eth blank) OR_LINK 5 7 [1, 2, 3, 4, 5, 6, 7]) P"
    "\<forall>pk. whole pk \<and> unat (5 :: u32) + 7 \<le> length (pk_data pk) \<longrightarrow>
        P pk = Next (take 7 (drop (unat (5 :: u32)) (pk_data pk)) = take 7 [1, 2, 3, 4, 5, 6, 7])"
    using bcmp_is_byte_comparison [of 7 "[1, 2, 3, 4, 5, 6, 7]" "eth blank" 5] by auto
  have "P ?pk = Next True" using P(2) [rule_format, of ?pk] by (simp add: whole_def)
  then show ?thesis using P(1) by blast
qed

text \<open>Asked for IPv4, \<open>gen_linktype\<close> tests on each link layer the field that says so: the Ethernet
  type, the cooked-capture protocol, the PPP protocol, the version nibble of raw IP, for BSD loopback the
  address family as a word in the byte order of the capturing host - reversed on a little-endian one, and
  once more when the capture file is byte-swapped - and in network order on OpenBSD.\<close>

definition asks_ip :: "int \<Rightarrow> bool \<Rightarrow> layout \<Rightarrow> nat gm" where
  "asks_ip dl sw L0 = gen_linktype (the (init_linktype dl sw L0)) ETHERTYPE_IP"

definition bytes_are :: "u32 \<Rightarrow> bsize \<Rightarrow> u32 \<Rightarrow> u32 \<Rightarrow> pred" where
  "bytes_are off z msk v = (\<lambda>pk. and_then (fetch pk z off) (\<lambda>a. Next (a AND msk = v)))"

theorem ip_on_link_layers:
  "makes (asks_ip DLT_EN10MB sw L0) (bytes_are 12 SzH 0xffffffff 0x0800) \<and>
   makes (asks_ip DLT_LINUX_SLL sw L0) (bytes_are 14 SzH 0xffffffff 0x0800) \<and>
   makes (asks_ip DLT_PPP sw L0) (bytes_are 2 SzH 0xffffffff 0x0021) \<and>
   makes (asks_ip DLT_RAW sw L0) (bytes_are 0 SzB 0xf0 0x40) \<and>
   makes (asks_ip DLT_NULL False L0) (bytes_are 0 SzW 0xffffffff 0x02000000) \<and>
   makes (asks_ip DLT_NULL True L0) (bytes_are 0 SzW 0xffffffff 2) \<and>
   makes (asks_ip DLT_LOOP sw L0) (bytes_are 0 SzW 0xffffffff 2)"
proof -
  have m: "makes (asks_ip dl sw L0) (bytes_are off z msk v)"
    if "linktype_meaning (the (init_linktype dl sw L0)) ETHERTYPE_IP = Inr (bytes_are off z msk v)" for dl sw off z msk v
    using gives_linktype [of "the (init_linktype dl sw L0)" ETHERTYPE_IP] that by (simp add: asks_ip_def gives_makes)
  note defs = init_linktype_def Let_def init_linktype_1_def init_linktype_2_def linktype_meaning_def linktype_meaning_1_def
    linktype_meaning_2_def offs_def init_base_def ether_pred_def sll_pred_def raw_pred_def null_pred_def family_word_def
    ethertype_to_ppptype_def SWAPLONG_def is_eq_def bytes_are_def
  show ?thesis
    by (intro conjI; rule m) (simp_all add: defs)
qed


text \<open>C5: \<open>vlan n and tcp port 80\<close>, and the other port filters on Ethernet. On a packet with an 802.1Q tag after the addresses, the
  filter does what the port filter without \<open>vlan\<close> does on the packet without the tag - also when it is too short -
  if the tag has the number, and rejects it otherwise: the offsets \<open>gen_vlan\<close> shifts are the right ones. (Filters that look at the
  length or at fixed bytes of the frame see the tag.)\<close>

theorem vlan_filter_untags:
  assumes "whole pk" and "whole pk'" and "12 \<le> length (pk_data pk)" and "pk_data pk' = tagged t1 t2 (pk_data pk)"
    and "ip_proto_of proto = Some p" and "p \<in> {IPPROTO_TCP, IPPROTO_UDP, IPPROTO_SCTP}" and "dir \<in> directions"
    and "0 \<le> n" and "length mem = BPF_MEMWORDS"
  shows "run_filter snaplen netmask (And (Prim (Vlan n)) (port_filter proto dir v)) (eth L) pk' mem =
     (if be16 t1 t2 AND 0xfff = word_of_int n then run_filter snaplen netmask (port_filter proto dir v) (eth L) pk mem
      else Some (Ret 0))"
proof -
  let ?f = "port_filter proto dir v" and ?V = "vlan_layout (eth L)"
  have t: "tag_pair pk pk'" using assms(1-4) by (auto simp: tag_pair_def)
  obtain P where P: "vlan_meaning (eth L) n = Inr P" "P pk' = Next (be16 t1 t2 AND 0xfff = word_of_int n)"
    using vlan_test [OF t assms(4,8)] by blast
  obtain Q Q' where Q: "fexp_meaning netmask ?f ?V = Inr Q'" "fexp_meaning netmask ?f (eth L) = Inr Q" "Q' pk' = Q pk"
    using pair_ports [OF t assms(7,6)] unfolding port_filter_meaning [OF assms(5)] same_at_def by blast
  have m: "fexp_meaning netmask (And (Prim (Vlan n)) ?f) (eth L) = Inr (p_and P Q')"
    using P(1) Q(1) by simp
  show ?thesis
    using run_filter_meaning [OF _ _ m assms(9)] run_filter_meaning [OF _ _ Q(2) assms(9)] P(2) Q(3)
    by (simp add: p_and_def filter_result_def)
qed

theorem vlan_filter_untags_witness:
  "run_filter 96 0 (And (Prim (Vlan 5)) (port_filter Q_TCP Q_SRC 80)) (eth blank)
     \<lparr>pk_data = tagged 0x20 5 (pk_data http_packet), pk_wirelen = 82, pk_buflen = 82\<rparr> (replicate BPF_MEMWORDS 0) =
   run_filter 96 0 (port_filter Q_TCP Q_SRC 80) (eth blank) http_packet (replicate BPF_MEMWORDS 0)"
proof -
  let ?pk = "\<lparr>pk_data = tagged 0x20 5 (pk_data http_packet), pk_wirelen = 82, pk_buflen = 82\<rparr> :: packet"
  have "whole ?pk" using http_fields(2) length_tagged [of "pk_data http_packet" "0x20" 5] by (simp add: whole_def)
  then show ?thesis
    using vlan_filter_untags [OF http_fields(1), of ?pk "0x20" 5 Q_TCP IPPROTO_TCP Q_SRC 5 "replicate BPF_MEMWORDS 0" 96 0 80 blank]
      http_fields(2) by (simp add: ip_proto_of_def be16_def del: replicate.simps)
qed

text \<open>A packet too short for the test of its type is rejected, and so is it by the negated filter: a
  load beyond the end of the packet ends the program with 0 wherever it stands.\<close>

theorem short_packet_rejected_negated:
  assumes "whole pk" and "length (pk_data pk) < 14" and "length mem = BPF_MEMWORDS"
    and "ip_proto_of proto = Some p" and "p \<in> {IPPROTO_TCP, IPPROTO_UDP, IPPROTO_SCTP}" and "dir \<in> directions"
  shows "run_filter snaplen netmask (port_filter proto dir v) (eth L) pk mem = Some (Ret 0) \<and>
     run_filter snaplen netmask (Not (port_filter proto dir v)) (eth L) pk mem = Some (Ret 0)"
proof -
  have l: "field (eth L) OR_LINK 12 SzH pk = Ret 0" using fetch_outside [OF assms(1), of 12 SzH] assms(2) by simp
  have m: "proto_meaning M p = M p" for M using assms(5) by (auto simp: proto_meaning_def)
  have "\<exists>P. fexp_meaning netmask (port_filter proto dir v) (eth L) = Inr P \<and> P pk = Ret 0"
    unfolding port_filter_meaning [OF assms(4)] ports_num_def both_families_def port_meaning_def m ports_meaning_def
    using assms(6) l by (auto simp: dir_meaning_def linktype_eth ether_type_pred is_eq_def p_and_def p_or_def)
  then obtain P where P: "fexp_meaning netmask (port_filter proto dir v) (eth L) = Inr P" "P pk = Ret 0" by blast
  then have n: "fexp_meaning netmask (Not (port_filter proto dir v)) (eth L) = Inr (p_not P)" by simp
  show ?thesis
    using run_filter_meaning [OF _ _ P(1) assms(3)] run_filter_meaning [OF _ _ n assms(3)] P(2)
    by (simp add: p_not_def filter_result_def)
qed

theorem short_packet_rejected_negated_witness:
  "run_filter 96 0 (Not (port_filter Q_UDP Q_DST 53)) (eth blank) \<lparr>pk_data = [1, 2, 3], pk_wirelen = 60, pk_buflen = 3\<rparr>
     (replicate BPF_MEMWORDS 0) = Some (Ret 0)"
  using short_packet_rejected_negated [of "\<lparr>pk_data = [1, 2, 3], pk_wirelen = 60, pk_buflen = 3\<rparr>"
      "replicate BPF_MEMWORDS 0" Q_UDP IPPROTO_UDP Q_DST 96 0 53 blank]
  by (simp add: ip_proto_of_def whole_def del: replicate.simps)

text \<open>The graph of a bit test.\<close>

definition bit_graph :: "u32 \<Rightarrow> bpf_op \<Rightarrow> u32 \<Rightarrow> graph" where
  "bit_graph snaplen i v =
     [\<lparr>b_stmts = [new_stmt (opcode i) v], b_s = new_stmt (JMP JEQ) 0, b_jt = Some 2, b_jf = Some 1\<rparr>,
      ret_block snaplen, ret_block 0]"

lemma bit_graph_run:
  "graph_loop (bit_graph snaplen (Alu AAnd SrcK) v) pk (0, \<lparr>rA = 0, rX = x, rM = m\<rparr>) = Some (Ret 0)"
  "graph_loop (bit_graph snaplen (Alu AOr SrcK) v) pk (0, \<lparr>rA = 0, rX = x, rM = m\<rparr>) =
     Some (Ret (if v \<noteq> 0 then snaplen else 0))"
proof -
  have d: "decode (opcode i) = Some i" for i by (rule decode_opcode)
  have n: "opcode (Alu a SrcK) \<noteq> - 1" for a by (cases a) simp_all
  have e: "exec_block (bit_graph snaplen (Alu a SrcK) v) pk (0, r) =
      and_then (exec_op pk (Alu a SrcK) v r)
        (\<lambda>r'. Next (if rA r' = 0 then 2 else 1, r'))" for a r
    unfolding exec_block_def exec_branch_def bit_graph_def
    by (cases "exec_op pk (Alu a SrcK) v r") (simp_all add: exec_stmt_def new_stmt_def d n JT_def JF_def Let_def del: opcode.simps)
  have r: "graph_loop (bit_graph snaplen i v) pk (Suc 0, r) = Some (Ret snaplen)"
    "graph_loop (bit_graph snaplen i v) pk (2, r) = Some (Ret 0)" for i v r
    by (rule graph_loop_ret, simp add: bit_graph_def)+
  show "graph_loop (bit_graph snaplen (Alu AAnd SrcK) v) pk (0, \<lparr>rA = 0, rX = x, rM = m\<rparr>) = Some (Ret 0)"
    "graph_loop (bit_graph snaplen (Alu AOr SrcK) v) pk (0, \<lparr>rA = 0, rX = x, rM = m\<rparr>) =
       Some (Ret (if v \<noteq> 0 then snaplen else 0))"
    by (subst graph_loop.simps, simp add: e r)+
qed

text \<open>The bit tests \<open>byte[i] & v\<close> and \<open>byte[i] | v\<close> never look at the packet. \<open>gen_byteop\<close> combines \<open>v\<close>
  with whatever the accumulator holds and loads no byte, so that such a filter rejects, or accepts, every
  packet alike.\<close>

theorem byte_bit_test_ignores_packet:
  "run_filter snaplen netmask (Prim (Byte (CHR ''&'') idx val)) (eth L) pk mem = Some (Ret 0) \<and>
   run_filter snaplen netmask (Prim (Byte (CHR ''|'') idx val)) (eth L) pk mem =
     Some (Ret (if (word_of_int val :: u32) \<noteq> 0 then snaplen else 0))"
proof -
  have "\<exists>g. filter_root snaplen netmask (Some (Prim (Byte (CHR ''&'') idx val))) (eth L) empty_gen = Inr (0, g) \<and>
      gn_blocks g = bit_graph snaplen (Alu AAnd SrcK) (word_of_int val)"
    "\<exists>g. filter_root snaplen netmask (Some (Prim (Byte (CHR ''|'') idx val))) (eth L) empty_gen = Inr (0, g) \<and>
      gn_blocks g = bit_graph snaplen (Alu AOr SrcK) (word_of_int val)"
    by (simp_all add: gen_run gen_byteop_def bit_graph_def ret_block_def numeral_2_eq_2)
  then show ?thesis using bit_graph_run by (auto simp: run_filter_def)
qed

end
