(* ===== verification/Gen_Relation.thy ===== *)
theory Gen_Relation
  imports Gen_Correct
begin

text \<open>
  Properties of arithmetic filters: what \<^verbatim>\<open>tcp[13] & 2 != 0\<close> accepts on the bytes of a packet, how many registers an
  expression needs, and the check that is missing for a second operand.
\<close>

section \<open>Items of a transport header\<close>

definition tran_numbers :: "(int \<times> int) set" where
  "tran_numbers = {(Q_TCP, IPPROTO_TCP), (Q_UDP, IPPROTO_UDP), (Q_SCTP, IPPROTO_SCTP), (Q_ICMP, IPPROTO_ICMP)}"

text \<open>The meanings of the protocol names on an Ethernet packet.\<close>

lemma under_eth_at:
  assumes w: "whole pk" "14 \<le> length (pk_data pk)" "unat (14 + off) < length (pk_data pk)"
    and t: "ty > ETHERMTU" "ty \<notin> {ETHERTYPE_ATALK, ETHERTYPE_AARP}"
  shows "holds_at (under (eth L) ty OR_NET off v) pk
    (value_at SzH (pk_data pk) 12 = word_of_int ty \<and> value_at SzB (pk_data pk) (unat (14 + off)) = word_of_int v)"
proof -
  have "field (eth L) OR_NET off SzB pk = Next (value_at SzB (pk_data pk) (unat (14 + off)))"
    using eth_net [OF w(1), of off SzB L] w(3) by simp
  from cmp_Next(1) [OF this, of "0xffffffff" "word_of_int v"]
  have e: "is_eq (eth L) OR_NET off SzB 0xffffffff (word_of_int v) pk =
      Next (value_at SzB (pk_data pk) (unat (14 + off)) = word_of_int v)" by (simp only: full_mask)
  show ?thesis
    unfolding under_def by (rule holds_guard(2) [where Q = "is_eq (eth L) OR_NET off SzB 0xffffffff (word_of_int v)",
      OF e linktype_eth_at [OF w(1,2) t]])
qed

lemma tran_eth_at:
  assumes w: "whole pk" "34 \<le> length (pk_data pk)" and p: "(p, n) \<in> tran_numbers"
  shows "holds_at (abbrev_meaning (eth L) p) pk
      (value_at SzH (pk_data pk) 12 = 0x800 \<and> value_at SzB (pk_data pk) 23 = word_of_int n \<or>
       p \<noteq> Q_ICMP \<and> value_at SzH (pk_data pk) 12 = 0x86dd \<and> value_at SzB (pk_data pk) 20 = word_of_int n)"
    and "holds_at (abbrev_meaning (eth L) Q_IP) pk (value_at SzH (pk_data pk) 12 = 0x800)"
proof -
  let ?d = "pk_data pk"
  have i4: "holds_at (ip_proto_meaning (eth L) n) pk (value_at SzH ?d 12 = 0x800 \<and> value_at SzB ?d 23 = word_of_int n)" for n
    using under_eth_at [OF w(1), of 9 ETHERTYPE_IP L n] w(2) by (simp add: ip_proto_meaning_def)
  have i6: "holds_at (ip6_proto_meaning (eth L) n) pk (value_at SzH ?d 12 = 0x86dd \<and> value_at SzB ?d 20 = word_of_int n)" for n
    using under_eth_at [OF w(1), of 6 ETHERTYPE_IPV6 L n] w(2) by (simp add: ip6_proto_meaning_def)
  have both: "holds_at (ip_ip6_meaning (eth L) n) pk
      ((value_at SzH ?d 12 = 0x86dd \<and> value_at SzB ?d 20 = word_of_int n) \<or>
       (value_at SzH ?d 12 = 0x800 \<and> value_at SzB ?d 23 = word_of_int n))" for n
    unfolding ip_ip6_meaning_def by (rule holds_either [OF i4 i6])
  show "holds_at (abbrev_meaning (eth L) p) pk
      (value_at SzH ?d 12 = 0x800 \<and> value_at SzB ?d 23 = word_of_int n \<or>
       p \<noteq> Q_ICMP \<and> value_at SzH ?d 12 = 0x86dd \<and> value_at SzB ?d 20 = word_of_int n)"
    using p both [of n] i4 [of n] by (auto simp: tran_numbers_def abbrev_meaning_def abbrev_meaning_1_def disj_commute)
  show "holds_at (abbrev_meaning (eth L) Q_IP) pk (value_at SzH ?d 12 = 0x800)"
    using linktype_eth_at [OF w(1), of ETHERTYPE_IP L] w(2) by (simp add: abbrev_meaning_def abbrev_meaning_1_def)
qed

text \<open>An item in the payload of the IPv4 header.\<close>

lemma tran_item_at:
  assumes "whole pk" and "(p, n) \<in> tran_numbers" and "0 \<le> i" and "i < 1000"
    and "ip_end (pk_data pk) + nat i + size_bytes z \<le> length (pk_data pk)"
  shows "load_value (eth L) p z pk (word_of_int i) = Next (value_at z (pk_data pk) (ip_end (pk_data pk) + nat i))"
proof -
  have u: "unat (word_of_int i :: u32) = nat i" using assms(3,4) by (simp add: unat_eq_nat_uint uint_word_of_int)
  have "p \<noteq> Q_RADIO" "p \<noteq> Q_LINK" "p \<notin> set net_protos" using assms(2) by (auto simp: tran_numbers_def net_protos_def)
  then have "load_value (eth L) p z pk (word_of_int i) = field (eth L) OR_TRAN_IPV4 (word_of_int i) z pk"
    by (simp add: load_value_def ac_simps)
  then show ?thesis using eth_tran [OF assms(1), of "word_of_int i" z L] assms(4,5) u by simp
qed

text \<open>C22: \<open>tcp[i:sz] & m relop v\<close> and its kin, on the bytes of an Ethernet packet: the compiled graph accepts
  exactly the IPv4 packets that carry the protocol and are no later fragment, in which the item of 1, 2 or 4 bytes at
  offset \<open>i\<close> of the payload of the IP header, as its length field says, has the relation to \<open>v\<close> on the bits of \<open>m\<close>.\<close>

theorem transport_item_filter_accepts:
  assumes "whole pk" and "34 \<le> length (pk_data pk)" and "length mem = BPF_MEMWORDS" and "(p, n) \<in> tran_numbers"
    and "load_size sz = Some z" and "0 \<le> i" and "i < 1000"
    and "ip_end (pk_data pk) + nat i + size_bytes z \<le> length (pk_data pk)"
  shows "run_filter snaplen netmask (Prim (Relation j rv (ABin AAnd (ALoad p (ANum i) sz) (ANum m)) (ANum v))) (eth L) pk mem =
     Some (Ret (if value_at SzH (pk_data pk) 12 = 0x800 \<and> value_at SzB (pk_data pk) 23 = word_of_int n \<and>
         value_at SzH (pk_data pk) 20 AND 0x1fff = 0 \<and>
         jump_taken j (value_at z (pk_data pk) (ip_end (pk_data pk) + nat i) AND word_of_int m) (word_of_int v) \<noteq> rv
       then snaplen else 0))"
proof -
  let ?d = "pk_data pk" and ?L = "eth L"
  let ?t = "value_at SzH ?d 12 = 0x800 \<and> value_at SzB ?d 23 = word_of_int n \<or>
       p \<noteq> Q_ICMP \<and> value_at SzH ?d 12 = 0x86dd \<and> value_at SzB ?d 20 = word_of_int n"
  obtain T I where T: "abbrev_meaning ?L p = Inr T" "T pk = Next ?t"
    and I: "abbrev_meaning ?L Q_IP = Inr I" "I pk = Next (value_at SzH ?d 12 = 0x800)"
    using tran_eth_at [OF assms(1,2,4), of L] by (auto simp: holds_at_def)
  have p: "p \<noteq> Q_RADIO" "p \<noteq> Q_LINK" "p \<notin> set net_protos" "p \<in> set tran_protos"
    using assms(4) by (auto simp: tran_numbers_def net_protos_def tran_protos_def)
  let ?G = "p_and I (p_and T (first_fragment ?L))"
  let ?f = "\<lambda>pk. and_then (load_value ?L p z pk (word_of_int i)) (\<lambda>a. arith AAnd a (word_of_int m))"
  have g: "load_guard ?L p None = Inr (Some ?G)"
    using p T(1) I(1) by (simp add: load_guard_def p_and_opt_def)
  have m: "fexp_meaning netmask (Prim (Relation j rv (ABin AAnd (ALoad p (ANum i) sz) (ANum m)) (ANum v))) ?L =
      Inr (p_and ?G (rel_pred j rv ?f (\<lambda>pk. Next (word_of_int v))))"
    by (simp add: rel_meaning_def assms(5) g both_guards_def p_and_opt_def)
  have "field ?L OR_NET 6 SzH pk = Next (value_at SzH ?d 20)" using eth_net [OF assms(1), of 6 SzH L] assms(2) by simp
  then have "?G pk = Next (value_at SzH ?d 12 = 0x800 \<and> ?t \<and> value_at SzH ?d 20 AND 0x1fff = 0)"
    by (intro pred_Next I T) simp
  moreover have "rel_pred j rv ?f (\<lambda>pk. Next (word_of_int v)) pk =
      Next (jump_taken j (value_at z ?d (ip_end ?d + nat i) AND word_of_int m) (word_of_int v) \<noteq> rv)"
    using tran_item_at [OF assms(1,4,6-8)] by (simp add: rel_pred_def arith_def)
  ultimately have "p_and ?G (rel_pred j rv ?f (\<lambda>pk. Next (word_of_int v))) pk =
      Next ((value_at SzH ?d 12 = 0x800 \<and> ?t \<and> value_at SzH ?d 20 AND 0x1fff = 0) \<and>
        jump_taken j (value_at z ?d (ip_end ?d + nat i) AND word_of_int m) (word_of_int v) \<noteq> rv)"
    by (rule pred_Next)
  then have "holds_at (fexp_meaning netmask (Prim (Relation j rv (ABin AAnd (ALoad p (ANum i) sz) (ANum m)) (ANum v))) ?L) pk
      (value_at SzH ?d 12 = 0x800 \<and> value_at SzB ?d 23 = word_of_int n \<and> value_at SzH ?d 20 AND 0x1fff = 0 \<and>
        jump_taken j (value_at z ?d (ip_end ?d + nat i) AND word_of_int m) (word_of_int v) \<noteq> rv)"
    unfolding m holds_at_def by (auto simp del: full_mask)
  then show ?thesis by (rule run_filter_holds) (simp_all add: assms(3))
qed

theorem transport_item_filter_accepts_witness:
  "run_filter 96 0 (Prim (Relation JEQ False (ABin AAnd (ALoad Q_TCP (ANum 0) 2) (ANum 0xffff)) (ANum 80))) (eth blank)
     http_packet (replicate BPF_MEMWORDS 0) = Some (Ret 96)"
proof -
  have d: "ip_end (pk_data http_packet) = 34" "value_at SzH (pk_data http_packet) 34 = 80"
    "value_at SzH (pk_data http_packet) 12 = 0x800" "value_at SzB (pk_data http_packet) 23 = 6"
    "value_at SzH (pk_data http_packet) 20 = 0"
    by (simp_all add: http_packet_def ip_end_def nth_append be16_def)
  show ?thesis
    using transport_item_filter_accepts [OF http_fields(1) _ length_replicate, of Q_TCP IPPROTO_TCP 2 SzH 0 96 0 JEQ False "0xffff" 80 blank]
      http_fields(2) d by (simp add: tran_numbers_def load_size_def del: replicate.simps)
qed

section \<open>The second operand\<close>

text \<open>C24: The protocol of a second operand is not tested: \<open>0 + tcp[i:sz] relop v\<close> looks at the bytes of any packet
  whatever, of ARP as well, where \<open>tcp[i:sz] + 0\<close> looks at those of TCP segments only.\<close>

theorem second_operand_unguarded:
  assumes "whole pk" and "length mem = BPF_MEMWORDS" and "(p, n) \<in> tran_numbers" and "load_size sz = Some z" and "0 \<le> i" and "i < 1000"
    and "ip_end (pk_data pk) + nat i + size_bytes z \<le> length (pk_data pk)" and "34 \<le> length (pk_data pk)"
  shows "run_filter snaplen netmask (Prim (Relation j rv (ABin AAdd (ANum 0) (ALoad p (ANum i) sz)) (ANum v))) (eth L) pk mem =
     Some (Ret (if jump_taken j (value_at z (pk_data pk) (ip_end (pk_data pk) + nat i)) (word_of_int v) \<noteq> rv then snaplen else 0))"
proof -
  let ?L = "eth L"
  obtain T I where T: "abbrev_meaning ?L p = Inr T" and I: "abbrev_meaning ?L Q_IP = Inr I"
    using tran_eth_at [OF assms(1,8,3), of L] by (auto simp: holds_at_def)
  have p: "p \<noteq> Q_RADIO" "p \<noteq> Q_LINK" "p \<notin> set net_protos" "p \<in> set tran_protos"
    using assms(3) by (auto simp: tran_numbers_def net_protos_def tran_protos_def)
  have g: "load_guard ?L p None = Inr (Some (p_and I (p_and T (first_fragment ?L))))"
    using p T I by (simp add: load_guard_def p_and_opt_def)
  let ?f = "\<lambda>pk. and_then (load_value ?L p z pk (word_of_int i)) (\<lambda>a. arith AAdd 0 a)"
  have m: "fexp_meaning netmask (Prim (Relation j rv (ABin AAdd (ANum 0) (ALoad p (ANum i) sz)) (ANum v))) ?L =
      Inr (rel_pred j rv ?f (\<lambda>pk. Next (word_of_int v)))"
    by (simp add: rel_meaning_def assms(4) g both_guards_def p_and_opt_def)
  have "rel_pred j rv ?f (\<lambda>pk. Next (word_of_int v)) pk =
      Next (jump_taken j (value_at z (pk_data pk) (ip_end (pk_data pk) + nat i)) (word_of_int v) \<noteq> rv)"
    using tran_item_at [OF assms(1,3,5-7)] by (simp add: rel_pred_def arith_def)
  then have "holds_at (fexp_meaning netmask (Prim (Relation j rv (ABin AAdd (ANum 0) (ALoad p (ANum i) sz)) (ANum v))) ?L) pk
      (jump_taken j (value_at z (pk_data pk) (ip_end (pk_data pk) + nat i)) (word_of_int v) \<noteq> rv)"
    unfolding m holds_at_def by auto
  then show ?thesis by (rule run_filter_holds) (simp_all add: assms(2))
qed

text \<open>An ARP packet.\<close>

definition arp_packet :: packet where
  "arp_packet = \<lparr>pk_data = replicate 12 0 @ [8, 6, 0, 1, 8, 0] @ replicate 24 0, pk_wirelen = 42, pk_buflen = 42\<rparr>"

theorem second_operand_unguarded_witness:
  "run_filter 96 0 (Prim (Relation JEQ False (ABin AAdd (ANum 0) (ALoad Q_TCP (ANum 2) 1)) (ANum 8))) (eth blank)
     arp_packet (replicate BPF_MEMWORDS 0) = Some (Ret 96)"
proof -
  have d: "whole arp_packet" "length (pk_data arp_packet) = 42" "ip_end (pk_data arp_packet) = 14"
    "value_at SzB (pk_data arp_packet) 16 = 8"
    by (simp_all add: arp_packet_def whole_def ip_end_def nth_append)
  show ?thesis
    using second_operand_unguarded [OF d(1) length_replicate, of Q_TCP IPPROTO_TCP 1 SzB 2 96 0 JEQ False 8 blank] d
    by (simp add: tran_numbers_def load_size_def del: replicate.simps)
qed

section \<open>Registers\<close>

text \<open>Every load has a size and a protocol the code knows.\<close>

fun loads_ok :: "layout \<Rightarrow> aexp \<Rightarrow> bool" where
  "loads_ok L (ALoad p i sz) \<longleftrightarrow> loads_ok L i \<and> load_size sz \<noteq> None \<and> \<not> isl (load_guard L p None)"
| "loads_ok L (ANeg e) \<longleftrightarrow> loads_ok L e"
| "loads_ok L (ABin op e0 e1) \<longleftrightarrow> loads_ok L e0 \<and> loads_ok L e1"
| "loads_ok L e \<longleftrightarrow> True"

text \<open>The registers an expression takes: a load holds its index while it asks for a second one, an operation its first
  operand while the second is computed.\<close>

fun regs_needed :: "aexp \<Rightarrow> nat" where
  "regs_needed (ALoad p i sz) = max (regs_needed i) 2"
| "regs_needed (ANeg e) = regs_needed e"
| "regs_needed (ABin op e0 e1) = max (regs_needed e0) (Suc (regs_needed e1))"
| "regs_needed e = 1"

lemma load_guard_ok: "\<not> isl (load_guard L p None) \<Longrightarrow> \<exists>G'. load_guard L p G = Inr G'"
  unfolding load_guard_def
  by (cases "abbrev_meaning L p"; cases "abbrev_meaning L Q_IP") (simp_all split: if_splits)

lemma aexp_registers:
  "loads_ok L e \<Longrightarrow> if n + regs_needed e \<le> BPF_MEMWORDS then \<exists>G f. aexp_meaning L n e = Inr (G, f)
     else aexp_meaning L n e = Inl BpfError"
proof (induction e arbitrary: n)
  case (ALoad p i sz)
  then obtain z where z: "load_size sz = Some z" by auto
  show ?case
  proof (cases "n + regs_needed i \<le> BPF_MEMWORDS")
    case True
    then obtain G f where i: "aexp_meaning L n i = Inr (G, f)" using ALoad.IH [of n] ALoad.prems by auto
    have "\<not> isl (load_guard L p None)" using ALoad.prems by simp
    from load_guard_ok [OF this, of G] obtain G' where "load_guard L p G = Inr G'" by blast
    then show ?thesis using i z True by auto
  next
    case False
    then show ?thesis using ALoad.IH [of n] ALoad.prems by auto
  qed
next
  case (ANeg e)
  then have "if n + regs_needed e \<le> BPF_MEMWORDS then \<exists>G f. aexp_meaning L n e = Inr (G, f)
      else aexp_meaning L n e = Inl BpfError" using ANeg.IH [of n] by simp
  then show ?case by (auto split: if_splits)
next
  case (ABin op e0 e1)
  show ?case
  proof (cases "n + regs_needed e0 \<le> BPF_MEMWORDS")
    case True
    then obtain G f where "aexp_meaning L n e0 = Inr (G, f)" using ABin.IH(1) [of n] ABin.prems by auto
    then show ?thesis using ABin.IH(2) [of "Suc n"] ABin.prems True by (auto split: if_splits)
  next
    case False
    then show ?thesis using ABin.IH(1) [of n] ABin.prems by auto
  qed
qed auto

text \<open>C23: sixteen registers bound the expressions that compile, exactly. On a link layer with headers of fixed length,
  a relation whose loads are valid compiles if its operands fit, the second with one register taken, and leaves all
  registers free again; otherwise it fails with an error. (Where a header varies in length, its length is kept in a register of its own for
  the rest of the compilation.)\<close>

theorem relation_registers:
  assumes "fixed_headers L" and "regs_free L" and "loads_ok L e0" and "loads_ok L e1"
  shows "if max (regs_needed e0) (Suc (regs_needed e1)) \<le> BPF_MEMWORDS
    then \<exists>b L' g. gen_rel L j reversed e0 e1 empty_gen = Inr ((b, L'), g) \<and> regs_free L'
    else gen_rel L j reversed e0 e1 empty_gen = Inl BpfError"
proof -
  note e0 = aexp_registers [OF assms(3), of 0] and e1 = aexp_registers [OF assms(4), of 1]
  note made = gen_rel_made [OF assms(2), of j reversed e0 e1]
  show ?thesis
  proof (cases "max (regs_needed e0) (Suc (regs_needed e1)) \<le> BPF_MEMWORDS")
    case True
    then have "\<exists>P. rel_meaning L j reversed e0 e1 = Inr P" using e0 e1 by (auto simp: rel_meaning_def)
    then obtain P m0 R where m0: "makes m0 P" "gen_rel L j reversed e0 e1 = gbind m0 (\<lambda>b. gret (b, L\<lparr>lay_regs := R\<rparr>))"
      "regused R = {}" "curreg R < BPF_MEMWORDS"
      using made by auto
    have "owns empty_gen [] {}" by simp
    then obtain b g where "m0 empty_gen = Inr (b, g)" using m0(1) unfolding makes_def hoare_def by blast
    then show ?thesis using m0 True by (auto simp: gret_def regs_free_def)
  next
    case False
    then have "rel_meaning L j reversed e0 e1 = Inl BpfError"
      using e0 e1 by (auto simp: rel_meaning_def split: if_splits)
    then show ?thesis using made False by (auto simp: gfail_def)
  qed
qed

theorem relation_registers_witness:
  "(\<exists>r. gen_rel (eth blank) JEQ False ((ABin AAdd (ANum 1) ^^ 15) (ANum 1)) (ALoad Q_LINK (ANum 0) 1) empty_gen = Inr r) \<and>
   gen_rel (eth blank) JEQ False (ANum 1) ((ABin AAdd (ANum 1) ^^ 15) (ANum 1)) empty_gen = Inl BpfError"
proof -
  let ?s = "(ABin AAdd (ANum 1) ^^ 15) (ANum 1)" and ?b = "ALoad Q_LINK (ANum 0) 1"
  have "loads_ok L ((ABin AAdd (ANum 1) ^^ k) (ANum 1)) \<and> regs_needed ((ABin AAdd (ANum 1) ^^ k) (ANum 1)) = Suc k" for L k
    by (induction k) simp_all
  from this [of "eth blank" 15] have s: "loads_ok (eth blank) ?s" "regs_needed ?s = 16" by simp_all
  have b: "loads_ok (eth blank) ?b" by (simp add: load_size_def load_guard_def)
  show ?thesis
    using relation_registers [OF fixed_eth regs_free_eth s(1) b, of JEQ False] relation_registers [OF fixed_eth regs_free_eth _ s(1), of "ANum 1" JEQ False]
      s(2) by auto
qed

end
