(* ===== verification/Gen_Text.thy ===== *)
theory Gen_Text
  imports Gen_Ncode Text_Print
begin

text \<open>
  The address parsers of \<^verbatim>\<open>nametoaddr.c\<close> against a printer of the notation they read.
\<close>

section \<open>Dotted numbers\<close>

fun dotted :: "nat list \<Rightarrow> string" where
  "dotted [] = []"
| "dotted [n] = decimal n"
| "dotted (n # ns) = decimal n @ CHR ''.'' # dotted ns"

lemma digit_val:
  assumes "d < 10"
  shows "digit d \<noteq> CHR ''.''" and "char_val (digit d) - char_val CHR ''0'' = of_nat d"
proof -
  have "(of_char (digit d) :: nat) = 48 + d" using assms by (simp add: digit_def)
  then show "digit d \<noteq> CHR ''.''" and "char_val (digit d) - char_val CHR ''0'' = of_nat d"
    using assms by (auto simp: char_val_def)
qed

lemma atoin_num_decimal: "atoin_num (decimal n @ rest) 0 = atoin_num rest (of_nat n)"
proof (induction n arbitrary: rest rule: decimal.induct)
  case (1 n)
  have step: "atoin_num (digit d # rest) a = atoin_num rest (a * 10 + of_nat d)" if "d < 10" for d a
    using digit_val [OF that] by (simp add: add_diff_eq [symmetric])
  show ?case
  proof (cases "n < 10")
    case True
    then show ?thesis using step [OF True, of 0] by (simp add: decimal.simps [of n])
  next
    case False
    have "n mod 10 < 10" by simp
    from step [OF this, of "of_nat (n div 10)"]
    have "atoin_num (decimal n @ rest) 0 = atoin_num rest (of_nat (n div 10) * 10 + of_nat (n mod 10))"
      using False "1.IH" by (simp add: decimal.simps [of n])
    also have "of_nat (n div 10) * 10 + of_nat (n mod 10) = (of_nat (n div 10 * 10 + n mod 10) :: u32)"
      by (simp only: of_nat_add of_nat_mult of_nat_numeral)
    also have "n div 10 * 10 + n mod 10 = n" by (rule div_mult_mod_eq)
    finally show ?thesis .
  qed
qed

definition shift_in :: "u32 \<Rightarrow> nat \<Rightarrow> u32" where
  "shift_in a n = push_bit 8 a OR (of_nat n AND 0xff)"

lemma atoin_dotted:
  "ns \<noteq> [] \<Longrightarrow> pcap_atoin_from (dotted ns) a len = (len + 8 * length ns, foldl shift_in a ns)"
proof (induction ns arbitrary: a len rule: dotted.induct)
  case (2 n)
  then show ?case using atoin_num_decimal [of n "[]"] by (subst pcap_atoin_from.simps) (simp add: shift_in_def)
next
  case (3 n m ns)
  have "atoin_num (decimal n @ CHR ''.'' # dotted (m # ns)) 0 = (of_nat n, CHR ''.'' # dotted (m # ns))"
    using atoin_num_decimal [of n "CHR ''.'' # dotted (m # ns)"] by simp
  then have "pcap_atoin_from (dotted (n # m # ns)) a len = pcap_atoin_from (dotted (m # ns)) (shift_in a n) (len + 8)"
    by (subst pcap_atoin_from.simps) (simp add: shift_in_def)
  then show ?case using 3 by simp
qed simp

lemma octet: "(of_nat n :: u32) AND 0xff = ucast (of_nat n :: u8)"
proof -
  have "(0xff :: u32) = Bit_Operations.mask 8" by (simp add: mask_eq_exp_minus_1)
  then have "(of_nat n :: u32) AND 0xff = take_bit 8 (of_nat n)" by (simp only: take_bit_eq_mask)
  moreover have "take_bit 8 (of_nat n :: u32) = ucast (of_nat n :: u8)" by (rule bit_word_eqI) (auto simp: bit_simps)
  ultimately show ?thesis by simp
qed

lemma shift_in_be32: "foldl shift_in 0 [a, b, c, d] = be32 (of_nat a) (of_nat b) (of_nat c) (of_nat d)"
  by (simp add: shift_in_def octet be32_def push_bit_or or.assoc)

section \<open>Ethernet addresses\<close>

definition xdigit :: "nat \<Rightarrow> char" where
  "xdigit d = char_of (if d < 10 then 48 + d else 87 + d)"

definition xbyte :: "u8 \<Rightarrow> string" where
  "xbyte b = [xdigit (unat b div 16), xdigit (unat b mod 16)]"

fun ether_text :: "char \<Rightarrow> u8 list \<Rightarrow> string" where
  "ether_text c [] = []"
| "ether_text c [b] = xbyte b"
| "ether_text c (b # bs) = xbyte b @ c # ether_text c bs"

lemma xdigit_val:
  assumes "d < 16"
  shows "xdigit d \<notin> {CHR '':'', CHR ''.'', CHR ''-''}" and "isxdigit (xdigit d)" and "xdtoi (xdigit d) = of_nat d"
proof -
  have c: "(of_char (xdigit d) :: nat) = (if d < 10 then 48 + d else 87 + d)" using assms by (simp add: xdigit_def)
  then show "xdigit d \<notin> {CHR '':'', CHR ''.'', CHR ''-''}" "isxdigit (xdigit d)"
    using assms by (auto simp: isxdigit_def isdigit_def split: if_splits)
  show "xdtoi (xdigit d) = of_nat d"
    using c assms by (auto simp: xdtoi_def isdigit_def islower_def char_val_def split: if_splits)
qed

lemma nibbles: "ucast (push_bit 4 (of_nat (unat (b :: u8) div 16)) OR of_nat (unat b mod 16) :: u32) = b"
proof -
  let ?n = "unat b div 16" and ?m = "unat b mod 16"
  have b: "unat b < 256" by (rule unat_u8_lt)
  have "push_bit 4 (of_nat ?n) OR of_nat ?m = (push_bit 4 (of_nat ?n) + of_nat ?m :: u32)"
  proof (rule disjunctive_add [symmetric])
    show "\<not> bit (push_bit 4 (of_nat ?n) :: u32) i \<or> \<not> bit (of_nat ?m :: u32) i" for i
    proof -
      have "take_bit 4 (of_nat ?m) = (of_nat (take_bit 4 ?m) :: u32)" by (rule take_bit_of_nat)
      then have "(of_nat ?m :: u32) = take_bit 4 (of_nat ?m)" by (simp add: take_bit_nat_def)
      then have "bit (of_nat ?m :: u32) i \<Longrightarrow> i < 4" by (metis bit_take_bit_iff)
      then show ?thesis by (auto simp: bit_simps)
    qed
  qed
  also have "\<dots> = of_nat (16 * ?n + ?m)" by (simp only: of_nat_add of_nat_mult push_bit_eq_mult) simp
  also have "16 * ?n + ?m = unat b" by simp
  finally have "push_bit 4 (of_nat ?n) OR of_nat ?m = (ucast b :: u32)"
    by (simp only: of_nat_unat)
  then have "ucast (push_bit 4 (of_nat ?n) OR of_nat ?m :: u32) = (ucast (ucast b :: u32) :: u8)" by (rule arg_cong)
  also have "\<dots> = b" by (rule bit_word_eqI) (auto simp: bit_simps)
  finally show ?thesis .
qed

text \<open>A byte, after a separator or not.\<close>

lemma ether_byte:
  assumes "length ep < 6" and "c \<in> {CHR '':'', CHR ''.'', CHR ''-''}"
  shows "ether_aton (xbyte b @ rest) ep = ether_aton rest (ep @ [b])"
    and "ether_aton (c # xbyte b @ rest) ep = ether_aton rest (ep @ [b])"
proof -
  have d: "unat b div 16 < 16" "unat b mod 16 < 16" using unat_u8_lt [of b] by (simp_all add: less_mult_imp_div_less)
  note x = xdigit_val [OF d(1)] xdigit_val [OF d(2)]
  show "ether_aton (xbyte b @ rest) ep = ether_aton rest (ep @ [b])"
    using x nibbles [of b] assms(1) by (subst ether_aton.simps) (simp add: xbyte_def Let_def)
  show "ether_aton (c # xbyte b @ rest) ep = ether_aton rest (ep @ [b])"
    using x nibbles [of b] assms by (subst ether_aton.simps) (auto simp: xbyte_def Let_def)
qed

lemma ether_full:
  assumes "6 \<le> length ep" and "s \<noteq> []"
  shows "ether_aton s ep = None"
  using assms by (subst ether_aton.simps) (simp add: Let_def)

lemma ether_text_from:
  assumes c: "c \<in> {CHR '':'', CHR ''.'', CHR ''-''}"
  shows "length ep \<le> 6 \<Longrightarrow> bs \<noteq> [] \<Longrightarrow> s = ether_text c bs \<or> s = c # ether_text c bs \<Longrightarrow>
    ether_aton s ep = (if length ep + length bs \<le> 6 then Some (ep @ bs) else None)"
proof (induction bs arbitrary: ep s)
  case (Cons b bs)
  show ?case
  proof (cases "length ep < 6")
    case False
    then show ?thesis using Cons.prems ether_full [of ep s] by (cases bs) (auto simp: xbyte_def)
  next
    case True
    have e: "ether_aton s ep = ether_aton (if bs = [] then [] else c # ether_text c bs) (ep @ [b])"
      using Cons.prems(3) ether_byte [OF True c, of b "if bs = [] then [] else c # ether_text c bs"] by (cases bs) auto
    show ?thesis
    proof (cases "bs = []")
      case True
      then show ?thesis using e \<open>length ep < 6\<close> by (simp add: ether_aton.simps [of "[]"])
    next
      case False
      then show ?thesis using e True Cons.IH [of "ep @ [b]" "c # ether_text c bs"] by simp
    qed
  qed
qed simp

section \<open>Round trips\<close>

text \<open>\<open>__pcap_atoin\<close> reads back what is printed in dotted notation. Four decimal numbers give 32 bits
  and the address with those octets, in network order; a number above 255 is not refused but taken
  modulo 256. Fewer numbers give 8 bits each.\<close>

theorem dotted_roundtrip:
  "pcap_atoin (dotted [a, b, c, d]) = (32, be32 (of_nat a) (of_nat b) (of_nat c) (of_nat d)) \<and>
   fst (pcap_atoin (dotted (n # ns))) = 8 * Suc (length ns)"
  using atoin_dotted [of "[a, b, c, d]" 0 0] atoin_dotted [of "n # ns" 0 0] shift_in_be32 [of a b c d]
  by (simp add: pcap_atoin_def del: foldl_Cons)

text \<open>C26: \<open>pcap_ether_aton\<close> reads back the bytes of an address printed with two hexadecimal digits each and
  any of the three separators; the buffer it allocates is exactly large enough for six of them, and a
  longer text is written past its end.\<close>

theorem ether_roundtrip:
  assumes "c \<in> {CHR '':'', CHR ''.'', CHR ''-''}" and "bs \<noteq> []"
  shows "pcap_ether_aton (ether_text c bs) = (if length bs \<le> 6 then Some bs else None)"
  using ether_text_from [OF assms(1), of "[]" bs] assms(2) by (simp add: pcap_ether_aton_def)

theorem ether_roundtrip_witness:
  "pcap_ether_aton (ether_text (CHR ''-'') [0, 0x1b, 0xff, 7, 8, 9]) = Some [0, 0x1b, 0xff, 7, 8, 9]"
  using ether_roundtrip [of "CHR ''-''" "[0, 0x1b, 0xff, 7, 8, 9]"] by simp

end
