(* ===== verification/Sf_Linktype.thy ===== *)
theory Sf_Linktype
  imports Main
begin

text \<open>
  Link types in capture files (\<^verbatim>\<open>pcap-common.c\<close>): the table between the codes \<open>DLT_\<close> of the
  library, which differ between systems, and the codes \<open>LINKTYPE_\<close> of files. The values are those of a
  Linux build, where \<open>DLT_FR\<close> is not defined; the entries stand in the order of the source, without the end
  marker.
\<close>

definition link_map :: "(int \<times> int) list" where
  "link_map = [
     (0, 0), \<comment> \<open>NULL\<close>
     (1, 1), \<comment> \<open>EN10MB\<close>
     (2, 2), \<comment> \<open>EN3MB\<close>
     (3, 3), \<comment> \<open>AX25\<close>
     (4, 4), \<comment> \<open>PRONET\<close>
     (5, 5), \<comment> \<open>CHAOS\<close>
     (6, 6), \<comment> \<open>IEEE802\<close>
     (7, 7), \<comment> \<open>ARCNET\<close>
     (8, 8), \<comment> \<open>SLIP\<close>
     (9, 9), \<comment> \<open>PPP\<close>
     (10, 10), \<comment> \<open>FDDI\<close>
     (99, 99), \<comment> \<open>SYMANTEC FIREWALL\<close>
     (11, 100), \<comment> \<open>ATM RFC1483\<close>
     (12, 101), \<comment> \<open>RAW\<close>
     (15, 102), \<comment> \<open>SLIP BSDOS\<close>
     (16, 103), \<comment> \<open>PPP BSDOS\<close>
     (104, 104), \<comment> \<open>C HDLC\<close>
     (19, 106), \<comment> \<open>ATM CLIP\<close>
     (50, 50), \<comment> \<open>PPP SERIAL\<close>
     (51, 51), \<comment> \<open>PPP ETHER\<close>
     (105, 105), \<comment> \<open>IEEE802 11\<close>
     (107, 107), \<comment> \<open>FRELAY\<close>
     (108, 108), \<comment> \<open>LOOP\<close>
     (109, 109), \<comment> \<open>ENC\<close>
     (113, 113), \<comment> \<open>LINUX SLL\<close>
     (114, 114), \<comment> \<open>LTALK\<close>
     (115, 115), \<comment> \<open>ECONET\<close>
     (117, 117), \<comment> \<open>PFLOG\<close>
     (118, 118), \<comment> \<open>CISCO IOS\<close>
     (119, 119), \<comment> \<open>PRISM HEADER\<close>
     (120, 120), \<comment> \<open>AIRONET HEADER\<close>
     (121, 121), \<comment> \<open>HHDLC\<close>
     (122, 122), \<comment> \<open>IP OVER FC\<close>
     (123, 123), \<comment> \<open>SUNATM\<close>
     (124, 124), \<comment> \<open>RIO\<close>
     (125, 125), \<comment> \<open>PCI EXP\<close>
     (126, 126), \<comment> \<open>AURORA\<close>
     (127, 127), \<comment> \<open>IEEE802 11 RADIO\<close>
     (128, 128), \<comment> \<open>TZSP\<close>
     (129, 129), \<comment> \<open>ARCNET LINUX\<close>
     (130, 130), \<comment> \<open>JUNIPER MLPPP\<close>
     (131, 131), \<comment> \<open>JUNIPER MLFR\<close>
     (132, 132), \<comment> \<open>JUNIPER ES\<close>
     (133, 133), \<comment> \<open>JUNIPER GGSN\<close>
     (134, 134), \<comment> \<open>JUNIPER MFR\<close>
     (135, 135), \<comment> \<open>JUNIPER ATM2\<close>
     (136, 136), \<comment> \<open>JUNIPER SERVICES\<close>
     (137, 137), \<comment> \<open>JUNIPER ATM1\<close>
     (138, 138), \<comment> \<open>APPLE IP OVER IEEE1394\<close>
     (139, 139), \<comment> \<open>MTP2 WITH PHDR\<close>
     (140, 140), \<comment> \<open>MTP2\<close>
     (141, 141), \<comment> \<open>MTP3\<close>
     (142, 142), \<comment> \<open>SCCP\<close>
     (143, 143), \<comment> \<open>DOCSIS\<close>
     (144, 144), \<comment> \<open>LINUX IRDA\<close>
     (145, 145), \<comment> \<open>IBM SP\<close>
     (146, 146), \<comment> \<open>IBM SN\<close>
     (163, 163), \<comment> \<open>IEEE802 11 RADIO AVS\<close>
     (164, 164), \<comment> \<open>JUNIPER MONITOR\<close>
     (165, 165), \<comment> \<open>BACNET MS TP\<close>
     (166, 166), \<comment> \<open>PPP PPPD\<close>
     (167, 167), \<comment> \<open>JUNIPER PPPOE\<close>
     (168, 168), \<comment> \<open>JUNIPER PPPOE ATM\<close>
     (169, 169), \<comment> \<open>GPRS LLC\<close>
     (170, 170), \<comment> \<open>GPF T\<close>
     (171, 171), \<comment> \<open>GPF F\<close>
     (172, 172), \<comment> \<open>GCOM T1E1\<close>
     (173, 173), \<comment> \<open>GCOM SERIAL\<close>
     (174, 174), \<comment> \<open>JUNIPER PIC PEER\<close>
     (175, 175), \<comment> \<open>ERF ETH\<close>
     (176, 176), \<comment> \<open>ERF POS\<close>
     (177, 177), \<comment> \<open>LINUX LAPD\<close>
     (178, 178), \<comment> \<open>JUNIPER ETHER\<close>
     (179, 179), \<comment> \<open>JUNIPER PPP\<close>
     (180, 180), \<comment> \<open>JUNIPER FRELAY\<close>
     (181, 181), \<comment> \<open>JUNIPER CHDLC\<close>
     (182, 182), \<comment> \<open>MFR\<close>
     (183, 183), \<comment> \<open>JUNIPER VP\<close>
     (184, 184), \<comment> \<open>A429\<close>
     (185, 185), \<comment> \<open>A653 ICM\<close>
     (186, 186), \<comment> \<open>USB\<close>
     (187, 187), \<comment> \<open>BLUETOOTH HCI H4\<close>
     (188, 188), \<comment> \<open>IEEE802 16 MAC CPS\<close>
     (189, 189), \<comment> \<open>USB LINUX\<close>
     (190, 190), \<comment> \<open>CAN20B\<close>
     (191, 191), \<comment> \<open>IEEE802 15 4 LINUX\<close>
     (192, 192), \<comment> \<open>PPI\<close>
     (193, 193), \<comment> \<open>IEEE802 16 MAC CPS RADIO\<close>
     (194, 194), \<comment> \<open>JUNIPER ISM\<close>
     (195, 195), \<comment> \<open>IEEE802 15 4\<close>
     (196, 196), \<comment> \<open>SITA\<close>
     (197, 197), \<comment> \<open>ERF\<close>
     (198, 198), \<comment> \<open>RAIF1\<close>
     (199, 199), \<comment> \<open>IPMB\<close>
     (200, 200), \<comment> \<open>JUNIPER ST\<close>
     (201, 201), \<comment> \<open>BLUETOOTH HCI H4 WITH PHDR\<close>
     (202, 202), \<comment> \<open>AX25 KISS\<close>
     (203, 203), \<comment> \<open>LAPD\<close>
     (204, 204), \<comment> \<open>PPP WITH DIR\<close>
     (205, 205), \<comment> \<open>C HDLC WITH DIR\<close>
     (206, 206), \<comment> \<open>FRELAY WITH DIR\<close>
     (207, 207), \<comment> \<open>LAPB WITH DIR\<close>
     (209, 209), \<comment> \<open>IPMB LINUX\<close>
     (210, 210), \<comment> \<open>FLEXRAY\<close>
     (211, 211), \<comment> \<open>MOST\<close>
     (212, 212), \<comment> \<open>LIN\<close>
     (213, 213), \<comment> \<open>X2E SERIAL\<close>
     (214, 214), \<comment> \<open>X2E XORAYA\<close>
     (215, 215), \<comment> \<open>IEEE802 15 4 NONASK PHY\<close>
     (216, 216), \<comment> \<open>LINUX EVDEV\<close>
     (217, 217), \<comment> \<open>GSMTAP UM\<close>
     (218, 218), \<comment> \<open>GSMTAP ABIS\<close>
     (219, 219), \<comment> \<open>MPLS\<close>
     (220, 220), \<comment> \<open>USB LINUX MMAPPED\<close>
     (221, 221), \<comment> \<open>DECT\<close>
     (222, 222), \<comment> \<open>AOS\<close>
     (223, 223), \<comment> \<open>WIHART\<close>
     (224, 224), \<comment> \<open>FC 2\<close>
     (225, 225), \<comment> \<open>FC 2 WITH FRAME DELIMS\<close>
     (226, 226), \<comment> \<open>IPNET\<close>
     (227, 227), \<comment> \<open>CAN SOCKETCAN\<close>
     (228, 228), \<comment> \<open>IPV4\<close>
     (229, 229) \<comment> \<open>IPV6\<close>
     ]"

text \<open>Both searches take the first entry that fits.\<close>

definition dlt_to_linktype :: "int \<Rightarrow> int" where
  "dlt_to_linktype dlt = (case find (\<lambda>p. fst p = dlt) link_map of Some p \<Rightarrow> snd p | None \<Rightarrow> - 1)"

definition linktype_to_dlt :: "int \<Rightarrow> int" where
  "linktype_to_dlt linktype = (case find (\<lambda>p. snd p = linktype) link_map of Some p \<Rightarrow> fst p | None \<Rightarrow> linktype)"

lemma link_map_distinct: "distinct (map snd link_map)" "distinct (map fst link_map)"
  by (simp_all add: link_map_def)

lemma link_map_range: "(d, l) \<in> set link_map \<Longrightarrow> 0 \<le> l \<and> l < 230"
proof -
  have "list_all (\<lambda>(d, l). 0 \<le> l \<and> l < (230 :: int)) link_map" by (simp add: link_map_def)
  then show "(d, l) \<in> set link_map \<Longrightarrow> 0 \<le> l \<and> l < 230" by (auto simp: list_all_iff)
qed

lemma find_snd: "distinct (map snd xs) \<Longrightarrow> p \<in> set xs \<Longrightarrow> find (\<lambda>q. snd q = snd p) xs = Some p"
  by (induction xs) (auto simp: image_iff)

lemma dlt_to_linktype_SomeD: "dlt_to_linktype d \<noteq> - 1 \<Longrightarrow> (d, dlt_to_linktype d) \<in> set link_map"
proof -
  assume "dlt_to_linktype d \<noteq> - 1"
  then obtain p where p: "find (\<lambda>p. fst p = d) link_map = Some p" "dlt_to_linktype d = snd p"
    by (cases "find (\<lambda>p. fst p = d) link_map") (simp_all add: dlt_to_linktype_def)
  then have "p \<in> set link_map" "fst p = d" by (auto simp only: find_Some_iff nth_mem)
  then show ?thesis using p(2) by (metis prod.collapse)
qed

lemma dlt_to_linktype_range: "dlt_to_linktype d \<noteq> - 1 \<Longrightarrow> 0 \<le> dlt_to_linktype d \<and> dlt_to_linktype d < 230"
  using dlt_to_linktype_SomeD link_map_range by blast

lemma linktype_roundtrip [simp]:
  assumes "dlt_to_linktype d \<noteq> - 1"
  shows "linktype_to_dlt (dlt_to_linktype d) = d"
  using find_snd [OF link_map_distinct(1) dlt_to_linktype_SomeD [OF assms]]
  by (simp only: linktype_to_dlt_def snd_conv option.case fst_conv)

end
