(* ===== verification/Sf_Pcap.thy ===== *)
theory Sf_Pcap
  imports Sf_Bytes Sf_Linktype Bpf_Machine
begin

text \<open>
  Capture files in the format of \<^verbatim>\<open>sf-pcap.c\<close>: \<open>pcap_check_header\<close> and \<open>pcap_next_packet\<close>
  read them, \<open>sf_write_header\<close> and \<open>pcap_dump\<close> write them; \<open>swap_linux_usb_header\<close> of
  \<^verbatim>\<open>pcap-common.c\<close> turns the pseudo-header of USB captures round.

  A file open for reading is the bytes still to come and whether the device fails at their end
  (\<open>ferror\<close>); \<open>fread\<close> takes what there is. Headers are read into structures whose fields are at the offsets
  of the target's layout. The buffer is the list of the bytes that have been stored in it, its size
  (\<open>p_room\<close>) is what \<open>malloc\<close> was asked for; storing more is the error \<open>SfOverrun\<close>. \<open>malloc\<close> does not fail.
\<close>

section \<open>Files\<close>

record stream =
  f_data :: "u8 list"
  f_err :: bool

definition fread :: "nat \<Rightarrow> stream \<Rightarrow> u8 list \<times> stream" where
  "fread n f = (take n (f_data f), f\<lparr>f_data := drop n (f_data f)\<rparr>)"

section \<open>The handle\<close>

datatype swapped_type = NOT_SWAPPED | SWAPPED | MAYBE_SWAPPED
datatype sf_format = Pcap | Pcap_ng

datatype sf_error =
  SfRead            \<comment> \<open>error reading dump file\<close>
| SfTruncated       \<comment> \<open>truncated dump file\<close>
| SfArchaic         \<comment> \<open>archaic pcap savefile format\<close>
| SfBogus           \<comment> \<open>bogus savefile header\<close>
| SfUnknown         \<comment> \<open>unknown file format\<close>
| SfNotActivated    \<comment> \<open>not-yet-activated pcap_t passed to pcap_dump_open\<close>
| SfBadLinktype     \<comment> \<open>link-layer type isn't supported in savefiles\<close>
| NgTooBig | NgTooSmall | NgShortBlock | NgOption | NgVersion | NgNoInterface | NgByteOrder | NgDiffers
                    \<comment> \<open>the errors of \<open>sf-pcap-ng.c\<close>\<close>
| SfBadProgram      \<comment> \<open>BPF program is not valid\<close>
| SfOverrun         \<comment> \<open>a store behind the end of a buffer\<close>
| SfUndef           \<comment> \<open>what C leaves undefined: signed overflow, a shift by 32 or more\<close>

text \<open>The fields of \<open>pcap_t\<close> and its \<open>struct pcap_sf\<close> that reading a file uses; \<open>p_format\<close> stands for
  \<open>next_packet_op\<close>. \<open>p_snapshot\<close>, \<open>p_tzoff\<close> and \<open>p_bufsize\<close> are \<open>int\<close>s. \<open>p_tsize\<close> is the size of the buffer
  \<open>tp\<close> that \<open>pcap_next_packet\<close> keeps from call to call.\<close>

record pcap =
  p_rfile :: stream
  p_format :: sf_format
  p_swapped :: bool
  p_hdrsize :: nat
  p_lengths_swapped :: swapped_type
  p_version_major :: u16
  p_version_minor :: u16
  p_ifcount :: u32
  p_tsresol :: u32
  p_tsscale :: u32
  p_tsoffset :: u64
  p_snapshot :: u32
  p_linktype :: int
  p_linktype_ext :: u32
  p_tzoff :: u32
  p_activated :: bool
  p_break_loop :: bool
  p_bufsize :: u32
  p_buffer :: "u8 list"
  p_room :: nat
  p_tsize :: nat
  p_fcode :: "bpf_insn list option"
  p_errbuf :: "sf_error option"

record pkthdr =
  h_sec :: u32
  h_usec :: u32
  h_caplen :: u32
  h_len :: u32

text \<open>What a short \<open>fread\<close> means.\<close>

definition short_read :: "stream \<Rightarrow> sf_error" where
  "short_read f = (if f_err f then SfRead else SfTruncated)"

abbreviation (input) BPF_MAXBUFSIZE :: u32 where "BPF_MAXBUFSIZE \<equiv> 0x8000"
abbreviation (input) TCPDUMP_MAGIC :: u32 where "TCPDUMP_MAGIC \<equiv> 0xa1b2c3d4"
abbreviation (input) KUZNETZOV_TCPDUMP_MAGIC :: u32 where "KUZNETZOV_TCPDUMP_MAGIC \<equiv> 0xa1b2cd34"
abbreviation (input) PCAP_VERSION_MAJOR :: u16 where "PCAP_VERSION_MAJOR \<equiv> 2"
abbreviation (input) PCAP_VERSION_MINOR :: u16 where "PCAP_VERSION_MINOR \<equiv> 4"
abbreviation (input) DLT_EN10MB :: int where "DLT_EN10MB \<equiv> 1"
abbreviation (input) DLT_USB_LINUX :: int where "DLT_USB_LINUX \<equiv> 189"
abbreviation (input) DLT_USB_LINUX_MMAPPED :: int where "DLT_USB_LINUX_MMAPPED \<equiv> 220"

definition LT_LINKTYPE :: "u32 \<Rightarrow> u32" where "LT_LINKTYPE x = x AND 0x03FFFFFF"
definition LT_LINKTYPE_EXT :: "u32 \<Rightarrow> u32" where "LT_LINKTYPE_EXT x = x AND 0xFC000000"

section \<open>The file header\<close>

text \<open>Which of the two packet headers a file has: \<open>sizeof(struct pcap_sf_pkthdr)\<close>, or that of the
  patched header.\<close>

definition lengths_order :: "u16 \<Rightarrow> u16 \<Rightarrow> swapped_type" where
  "lengths_order major minor =
     (if major = 2 then (if minor < 3 then SWAPPED else if minor = 3 then MAYBE_SWAPPED else NOT_SWAPPED)
      else if major = 543 then SWAPPED
      else NOT_SWAPPED)"

definition alloc_buffer :: "pcap \<Rightarrow> pcap" where
  "alloc_buffer p =
     (let size = (if sint (p_snapshot p) \<le> 0 then BPF_MAXBUFSIZE else p_snapshot p)
      in p\<lparr>p_bufsize := size, p_buffer := [], p_room := unat size\<rparr>)"

text \<open>\<open>None\<close> is the result 0, "not this format"; an error is the result -1. The 20 bytes that follow the
  magic number are the version, the zone, \<open>sigfigs\<close>, the snapshot length and the link type.\<close>

definition pcap_check_header :: "pcap \<Rightarrow> u32 \<Rightarrow> stream \<Rightarrow> sf_error + pcap option" where
  "pcap_check_header p magic fp =
     (let right = (magic = TCPDUMP_MAGIC \<or> magic = KUZNETZOV_TCPDUMP_MAGIC);
          magic1 = (if right then magic else SWAPLONG magic);
          p1 = (if right then p else p\<lparr>p_swapped := True\<rparr>)
      in
      if magic1 \<noteq> TCPDUMP_MAGIC \<and> magic1 \<noteq> KUZNETZOV_TCPDUMP_MAGIC then Inr None
      else case fread 20 fp of (hdr, fp1) \<Rightarrow>
        if length hdr \<noteq> 20 then Inl (short_read fp1)
        else
          let sw16 = (if p_swapped p1 then SWAPSHORT else id); sw32 = (if p_swapped p1 then SWAPLONG else id);
              major = sw16 (get16 0 hdr); minor = sw16 (get16 2 hdr);
              thiszone = sw32 (get32 4 hdr); snaplen = sw32 (get32 12 hdr); lt = sw32 (get32 16 hdr)
          in
          if major < PCAP_VERSION_MAJOR then Inl SfArchaic
          else
            let p2 = p1\<lparr>p_rfile := fp1, p_version_major := major, p_version_minor := minor, p_tzoff := thiszone,
                  p_snapshot := snaplen, p_linktype := linktype_to_dlt (uint (LT_LINKTYPE lt)),
                  p_linktype_ext := LT_LINKTYPE_EXT lt, p_format := Pcap,
                  p_lengths_swapped := lengths_order major minor\<rparr>
            in
            if magic1 = KUZNETZOV_TCPDUMP_MAGIC then
              if p_linktype p2 = DLT_EN10MB then
                if sint (p_snapshot p2) > 2147483647 - 14 then Inl SfUndef
                else Inr (Some (alloc_buffer (p2\<lparr>p_hdrsize := 24, p_snapshot := p_snapshot p2 + 14\<rparr>)))
              else Inr (Some (alloc_buffer (p2\<lparr>p_hdrsize := 24\<rparr>)))
            else Inr (Some (alloc_buffer (p2\<lparr>p_hdrsize := 16\<rparr>))))"

section \<open>USB pseudo-headers\<close>

text \<open>The fields of \<open>struct _usb_header_mmapped\<close> are at the offsets of the target's layout; a field is
  turned round in place.\<close>

definition swap_at :: "nat \<Rightarrow> nat \<Rightarrow> u8 list \<Rightarrow> u8 list" where
  "swap_at i n d =
     put i (if n = 2 then bytes 2 (SWAPSHORT (get16 i d)) else if n = 4 then bytes 4 (SWAPLONG (get32 i d))
       else bytes 8 (SWAPLL (get64 i d))) d"

text \<open>One step, with a bound, and the offset and the size of a field: return if the captured length is
  smaller than the bound, turn the field round otherwise.\<close>

fun swap_fields :: "nat \<Rightarrow> (nat \<times> nat \<times> nat) list \<Rightarrow> u8 list \<Rightarrow> u8 list" where
  "swap_fields caplen [] buf = buf"
| "swap_fields caplen ((bound, i, n) # steps) buf =
     (if caplen < bound then buf else swap_fields caplen steps (swap_at i n buf))"

definition usb_fields :: "bool \<Rightarrow> (nat \<times> nat \<times> nat) list" where
  "usb_fields header_len_64_bytes =
     [(8, 0, 8),       \<comment> \<open>\<open>id\<close>\<close>
      (14, 12, 2),     \<comment> \<open>\<open>bus_id\<close>\<close>
      (24, 16, 8),     \<comment> \<open>\<open>ts_sec\<close>\<close>
      (28, 24, 4),     \<comment> \<open>\<open>ts_usec\<close>\<close>
      (32, 28, 4),     \<comment> \<open>\<open>status\<close>\<close>
      (36, 32, 4),     \<comment> \<open>\<open>urb_len\<close>\<close>
      (40, 36, 4)] @   \<comment> \<open>\<open>data_len\<close>\<close>
     (if header_len_64_bytes then
       [(52, 48, 4),   \<comment> \<open>\<open>interval\<close>\<close>
        (56, 52, 4),   \<comment> \<open>\<open>start_frame\<close>\<close>
        (60, 56, 4),   \<comment> \<open>\<open>xfer_flags\<close>\<close>
        (64, 60, 4)]   \<comment> \<open>\<open>ndesc\<close>\<close>
      else [])"

definition swap_linux_usb_header :: "u32 \<Rightarrow> u8 list \<Rightarrow> bool \<Rightarrow> u8 list" where
  "swap_linux_usb_header caplen buf header_len_64_bytes =
     swap_fields (unat caplen) (usb_fields header_len_64_bytes) buf"

text \<open>The conversion at the end of both readers: \<open>off\<close> is where the packet is in the buffer.\<close>

definition swap_pseudo_header :: "pcap \<Rightarrow> u32 \<Rightarrow> nat \<Rightarrow> pcap" where
  "swap_pseudo_header p caplen off =
     (if p_swapped p \<and> p_linktype p \<in> {DLT_USB_LINUX, DLT_USB_LINUX_MMAPPED}
      then p\<lparr>p_buffer := take off (p_buffer p) @
        swap_linux_usb_header caplen (drop off (p_buffer p)) (p_linktype p = DLT_USB_LINUX_MMAPPED)\<rparr>
      else p)"

section \<open>Reading a packet\<close>

datatype read_result =
  Packet pkthdr nat   \<comment> \<open>the result 0: the header, and where \<open>*data\<close> is in the buffer\<close>
| Eof                 \<comment> \<open>the result 1\<close>
| Fail sf_error       \<comment> \<open>the result -1\<close>

definition swap_lengths :: "pkthdr \<Rightarrow> pkthdr" where
  "swap_lengths h = h\<lparr>h_caplen := h_len h, h_len := h_caplen h\<rparr>"

definition order_lengths :: "swapped_type \<Rightarrow> pkthdr \<Rightarrow> pkthdr" where
  "order_lengths s h =
     (case s of NOT_SWAPPED \<Rightarrow> h
      | MAYBE_SWAPPED \<Rightarrow> if h_caplen h \<le> h_len h then h else swap_lengths h
      | SWAPPED \<Rightarrow> swap_lengths h)"

text \<open>The packet header as it is in the file.\<close>

definition packet_header :: "pcap \<Rightarrow> u8 list \<Rightarrow> pkthdr" where
  "packet_header p b =
     (let sw = (if p_swapped p then SWAPLONG else id)
      in \<lparr>h_sec = sw (get32 0 b), h_usec = sw (get32 4 b), h_caplen = sw (get32 8 b), h_len = sw (get32 12 b)\<rparr>)"

text \<open>The branch for packets that are longer than the buffer: they are read through \<open>tp\<close>, and cut.\<close>

definition salvage :: "pcap \<Rightarrow> pkthdr \<Rightarrow> read_result \<times> pcap" where
  "salvage p h =
     (if h_caplen h > 65535 then (Fail SfBogus, p)
      else
        let p1 = (if p_tsize p < unat (h_caplen h)
                  then p\<lparr>p_tsize := (unat (h_caplen h) + 1023) div 1024 * 1024\<rparr> else p)
        in case fread (unat (h_caplen h)) (p_rfile p1) of (tp, fp) \<Rightarrow>
          let p2 = p1\<lparr>p_rfile := fp\<rparr> in
          if length tp > p_tsize p2 then (Fail SfOverrun, p2)
          else if length tp \<noteq> unat (h_caplen h) then (Fail (short_read fp), p2)
          else if p_room p2 < unat (p_bufsize p2) then (Fail SfOverrun, p2)
          else (Packet (h\<lparr>h_caplen := p_bufsize p2\<rparr>) 0, p2\<lparr>p_buffer := take (unat (p_bufsize p2)) tp\<rparr>))"

definition read_data :: "pcap \<Rightarrow> pkthdr \<Rightarrow> read_result \<times> pcap" where
  "read_data p h =
     (case fread (unat (h_caplen h)) (p_rfile p) of (b, fp) \<Rightarrow>
        if length b > p_room p then (Fail SfOverrun, p)
        else
          let p1 = p\<lparr>p_rfile := fp, p_buffer := b\<rparr> in
          if length b \<noteq> unat (h_caplen h) then (Fail (short_read fp), p1) else (Packet h 0, p1))"

definition pcap_next_packet :: "pcap \<Rightarrow> read_result \<times> pcap" where
  "pcap_next_packet p =
     (case fread (p_hdrsize p) (p_rfile p) of (b, fp) \<Rightarrow>
        let p1 = p\<lparr>p_rfile := fp\<rparr> in
        if length b \<noteq> p_hdrsize p1 then
          (if f_err fp then Fail SfRead else if b \<noteq> [] then Fail SfTruncated else Eof, p1)
        else
          let h = order_lengths (p_lengths_swapped p1) (packet_header p1 b) in
          case (if h_caplen h > p_bufsize p1 then salvage p1 h else read_data p1 h) of
            (Packet h' off, p2) \<Rightarrow> (Packet h' off, swap_pseudo_header p2 (h_caplen h') off)
          | r \<Rightarrow> r)"

section \<open>Writing\<close>

definition sf_write_header :: "u32 \<Rightarrow> u32 \<Rightarrow> u32 \<Rightarrow> u8 list" where
  "sf_write_header linktype thiszone snaplen =
     bytes 4 TCPDUMP_MAGIC @ bytes 2 PCAP_VERSION_MAJOR @ bytes 2 PCAP_VERSION_MINOR @
     bytes 4 thiszone @ bytes 4 (0 :: u32) @ bytes 4 snaplen @ bytes 4 linktype"

text \<open>\<open>pcap_dump\<close> writes \<open>caplen\<close> bytes from \<open>sp\<close> on; \<open>None\<close> if there are not as many.\<close>

definition pcap_dump :: "pkthdr \<Rightarrow> u8 list \<Rightarrow> u8 list option" where
  "pcap_dump h sp =
     (if length sp < unat (h_caplen h) then None
      else Some (bytes 4 (h_sec h) @ bytes 4 (h_usec h) @ bytes 4 (h_caplen h) @ bytes 4 (h_len h) @
        take (unat (h_caplen h)) sp))"

text \<open>What \<open>pcap_dump_open\<close> and \<open>pcap_dump_fopen\<close> put into a file that can be opened and written.\<close>

definition pcap_setup_dump :: "pcap \<Rightarrow> int \<Rightarrow> u8 list" where
  "pcap_setup_dump p linktype = sf_write_header (word_of_int linktype) (p_tzoff p) (p_snapshot p)"

definition pcap_dump_fopen :: "pcap \<Rightarrow> sf_error + u8 list" where
  "pcap_dump_fopen p =
     (let linktype = dlt_to_linktype (p_linktype p) in
      if linktype = - 1 then Inl SfBadLinktype
      else Inr (pcap_setup_dump p (uint (word_of_int linktype OR p_linktype_ext p))))"

definition pcap_dump_open :: "pcap \<Rightarrow> sf_error + u8 list" where
  "pcap_dump_open p = (if \<not> p_activated p then Inl SfNotActivated else pcap_dump_fopen p)"

section \<open>Turning round twice\<close>

definition rev_at :: "nat \<Rightarrow> nat \<Rightarrow> 'a list \<Rightarrow> 'a list" where
  "rev_at i n d = take i d @ rev (take n (drop i d)) @ drop (i + n) d"

lemma length_rev_at [simp]: "length (rev_at i n d) = length d"
  by (auto simp: rev_at_def)

lemma nth_rev_at:
  "i + n \<le> length d \<Longrightarrow> j < length d \<Longrightarrow>
   rev_at i n d ! j = (if i \<le> j \<and> j < i + n then d ! (i + (n - Suc (j - i))) else d ! j)"
proof -
  assume i: "i + n \<le> length d" and j: "j < length d"
  have l: "length (take n (drop i d)) = n" using i by simp
  show ?thesis
  proof (cases "i \<le> j \<and> j < i + n")
    case True
    then have "rev_at i n d ! j = rev (take n (drop i d)) ! (j - i)" using i l by (auto simp: rev_at_def nth_append)
    also have "\<dots> = take n (drop i d) ! (n - Suc (j - i))" using True l rev_nth [of "j - i" "take n (drop i d)"] by auto
    also have "n - Suc (j - i) < n" using True by auto
    then have "take n (drop i d) ! (n - Suc (j - i)) = d ! (i + (n - Suc (j - i)))"
      using i by (subst nth_take, simp, subst nth_drop) simp_all
    finally show ?thesis using True by (simp only: if_True simp_thms)
  next
    case False
    then show ?thesis using i j l by (auto simp: rev_at_def nth_append)
  qed
qed

lemma rev_at_rev_at: "i + n \<le> length d \<Longrightarrow> rev_at i n (rev_at i n d) = d"
  by (rule nth_equalityI) (auto simp: nth_rev_at)

lemma rev_at_commute:
  "i + n \<le> j \<Longrightarrow> j + m \<le> length d \<Longrightarrow> rev_at i n (rev_at j m d) = rev_at j m (rev_at i n d)"
  by (rule nth_equalityI) (auto simp: nth_rev_at)

lemma other_bytes:
  "length bs = n \<Longrightarrow> LENGTH('a) = 8 * n \<Longrightarrow> bytes n (word_at (rev (bytes n (word_at bs :: 'a :: len word))) :: 'a word) = rev bs"
  using rev_bytes_word_at [of n "word_at bs :: 'a word"] bytes_word_at [of bs, where 'a = 'a] by simp

lemma swap_at_rev:
  assumes "i + n \<le> length d" and "n \<in> {2, 4, 8}"
  shows "swap_at i n d = rev_at i n d"
proof -
  have "length (take n (drop i d)) = n" using assms(1) by simp
  then show ?thesis using assms(2) other_bytes [of "take n (drop i d)" n, where 'a = 16]
      other_bytes [of "take n (drop i d)" n, where 'a = 32] other_bytes [of "take n (drop i d)" n, where 'a = 64]
    by (auto simp: swap_at_def rev_at_def put_def SWAPSHORT_eq SWAPLONG_eq SWAPLL_eq get16_def get32_def get64_def)
qed

text \<open>The fields lie one behind the other, each below its bound.\<close>

fun in_order :: "nat \<Rightarrow> (nat \<times> nat \<times> nat) list \<Rightarrow> bool" where
  "in_order lo [] \<longleftrightarrow> True"
| "in_order lo ((bound, i, n) # steps) \<longleftrightarrow> lo \<le> i \<and> i + n \<le> bound \<and> n \<in> {2, 4, 8} \<and> in_order (i + n) steps"

lemma usb_in_order: "in_order 0 (usb_fields b)"
  by (simp add: usb_fields_def)

lemma length_swap_fields [simp]:
  "in_order lo steps \<Longrightarrow> c \<le> length d \<Longrightarrow> length (swap_fields c steps d) = length d"
  by (induction steps arbitrary: lo d rule: list.induct) (auto simp: swap_at_rev)

lemma rev_at_swap_fields:
  "in_order lo steps \<Longrightarrow> i + n \<le> lo \<Longrightarrow> c \<le> length d \<Longrightarrow>
   swap_fields c steps (rev_at i n d) = rev_at i n (swap_fields c steps d)"
proof (induction steps arbitrary: lo d)
  case (Cons s steps)
  obtain b j m where s: "s = (b, j, m)" by (cases s)
  show ?case
  proof (cases "c < b")
    case False
    then have "j + m \<le> length d" using Cons.prems s by auto
    moreover have "swap_fields c steps (rev_at i n (rev_at j m d)) = rev_at i n (swap_fields c steps (rev_at j m d))"
      using Cons.prems s by (intro Cons.IH [of "j + m"]) auto
    moreover have "rev_at j m (rev_at i n d) = rev_at i n (rev_at j m d)"
      using Cons.prems s \<open>j + m \<le> length d\<close> by (intro rev_at_commute [symmetric]) auto
    ultimately show ?thesis using Cons.prems s False by (simp add: swap_at_rev)
  qed (use s in simp)
qed simp

lemma swap_fields_twice:
  "in_order lo steps \<Longrightarrow> c \<le> length d \<Longrightarrow> swap_fields c steps (swap_fields c steps d) = d"
proof (induction steps arbitrary: lo d)
  case (Cons s steps)
  obtain b i n where s: "s = (b, i, n)" by (cases s)
  show ?case
  proof (cases "c < b")
    case False
    have o: "in_order (i + n) steps" "i + n \<le> length d" "n \<in> {2, 4, 8}" using Cons.prems s False by auto
    let ?d = "rev_at i n d"
    have l: "c \<le> length ?d" "i + n \<le> length (swap_fields c steps ?d)"
      using o Cons.prems(2) by simp_all
    have "swap_fields c (s # steps) (swap_fields c (s # steps) d) = swap_fields c steps (rev_at i n (swap_fields c steps ?d))"
      using s False o l by (simp add: swap_at_rev)
    also have "\<dots> = rev_at i n (swap_fields c steps (swap_fields c steps ?d))"
      using o l by (intro rev_at_swap_fields [OF o(1)]) simp_all
    also have "\<dots> = d" using Cons.IH [OF o(1) l(1)] o(2) by (simp add: rev_at_rev_at)
    finally show ?thesis .
  qed (use s in simp)
qed simp

lemma length_swap_usb [simp]:
  "unat c \<le> length d \<Longrightarrow> length (swap_linux_usb_header c d b) = length d"
  unfolding swap_linux_usb_header_def by (rule length_swap_fields [OF usb_in_order])

lemma swap_usb_twice [simp]:
  "unat c \<le> length d \<Longrightarrow> swap_linux_usb_header c (swap_linux_usb_header c d b) b = d"
  unfolding swap_linux_usb_header_def by (rule swap_fields_twice [OF usb_in_order])

section \<open>Invariant\<close>

text \<open>A handle that \<open>pcap_check_header\<close> made: the buffer has the size it is said to have.\<close>

definition sf_inv :: "pcap \<Rightarrow> bool" where
  "sf_inv p \<longleftrightarrow> p_hdrsize p \<in> {16, 24} \<and> p_room p = unat (p_bufsize p) \<and> 0 < unat (p_bufsize p) \<and>
     length (p_buffer p) \<le> p_room p"

lemma alloc_buffer_inv: "p_hdrsize p \<in> {16, 24} \<Longrightarrow> sf_inv (alloc_buffer p)"
proof -
  assume "p_hdrsize p \<in> {16, 24}"
  moreover have "0 < unat (p_snapshot p)" if "\<not> sint (p_snapshot p) \<le> 0"
    using that by (simp add: unat_gt_0) auto
  ultimately show ?thesis by (auto simp: sf_inv_def alloc_buffer_def Let_def)
qed

lemma alloc_buffer_fields [simp]:
  "p_format (alloc_buffer p) = p_format p" "p_fcode (alloc_buffer p) = p_fcode p"
  by (simp_all add: alloc_buffer_def Let_def)

lemma check_header_inv:
  "pcap_check_header p magic fp = Inr (Some q) \<Longrightarrow> sf_inv q \<and> p_format q = Pcap \<and> p_fcode q = p_fcode p"
  by (auto simp: pcap_check_header_def Let_def intro!: alloc_buffer_inv split: if_splits prod.splits)

lemma fread_parts:
  "fread n f = (b, f') \<Longrightarrow> b = take n (f_data f) \<and> f_data f' = drop n (f_data f) \<and> f_err f' = f_err f"
  by (auto simp: fread_def)

lemma round_up: "c \<le> (c + 1023) div 1024 * (1024 :: nat)"
  using div_mult_mod_eq [of "c + 1023" 1024] mod_less_divisor [of 1024 "c + 1023"] by linarith

text \<open>What a call of the reader leaves: no store outside a buffer, a packet that fills the buffer as far as
  its captured length says, and less of the file.\<close>

definition packet_ok :: "nat \<Rightarrow> pcap \<Rightarrow> read_result \<Rightarrow> pcap \<Rightarrow> bool" where
  "packet_ok k p r q \<longleftrightarrow> sf_inv q \<and> r \<noteq> Fail SfOverrun \<and> p_bufsize q = p_bufsize p \<and> p_hdrsize q = p_hdrsize p \<and>
     p_fcode q = p_fcode p \<and>
     (\<exists>n. f_data (p_rfile q) = drop n (f_data (p_rfile p)) \<and>
        (\<forall>h off. r = Packet h off \<longrightarrow> off = 0 \<and> length (p_buffer q) = unat (h_caplen h) \<and> h_caplen h \<le> p_bufsize p \<and>
           k \<le> n \<and> n \<le> length (f_data (p_rfile p))))"

lemma read_data_ok:
  assumes "sf_inv p" and "h_caplen h \<le> p_bufsize p"
  shows "packet_ok 0 p (fst (read_data p h)) (snd (read_data p h))"
proof -
  have "unat (h_caplen h) \<le> p_room p" using assms by (simp add: sf_inv_def u32_le_iff)
  then show ?thesis using assms
    by (auto simp: read_data_def fread_def packet_ok_def sf_inv_def Let_def short_read_def min_def intro!: exI [of _ "unat (h_caplen h)"])
qed

lemma salvage_ok:
  assumes "sf_inv p" and "p_bufsize p < h_caplen h"
  shows "packet_ok 0 p (fst (salvage p h)) (snd (salvage p h))"
proof -
  have l: "unat (p_bufsize p) < unat (h_caplen h)" using assms(2) by (simp add: u32_less_iff)
  define q where "q = (if p_tsize p < unat (h_caplen h) then p\<lparr>p_tsize := (unat (h_caplen h) + 1023) div 1024 * 1024\<rparr> else p)"
  have q: "unat (h_caplen h) \<le> p_tsize q" "p_rfile q = p_rfile p" "p_room q = p_room p" "p_bufsize q = p_bufsize p"
      "p_hdrsize q = p_hdrsize p" "p_buffer q = p_buffer p" "p_fcode q = p_fcode p"
    using round_up [of "unat (h_caplen h)"] by (simp_all add: q_def)
  show ?thesis
  proof (cases "h_caplen h > 65535")
    case True
    then show ?thesis using assms(1) by (auto simp: salvage_def packet_ok_def intro!: exI [of _ 0])
  next
    case False
    then show ?thesis using assms(1) l q unfolding salvage_def q_def [symmetric]
      by (auto simp: fread_def packet_ok_def sf_inv_def Let_def short_read_def min_def intro!: exI [of _ "unat (h_caplen h)"])
  qed
qed

lemma swap_pseudo_fields [simp]:
  "p_rfile (swap_pseudo_header p c off) = p_rfile p" "p_bufsize (swap_pseudo_header p c off) = p_bufsize p"
  "p_hdrsize (swap_pseudo_header p c off) = p_hdrsize p" "p_room (swap_pseudo_header p c off) = p_room p"
  "p_fcode (swap_pseudo_header p c off) = p_fcode p"
  by (simp_all add: swap_pseudo_header_def)

lemma swap_pseudo_length [simp]:
  "off + unat c \<le> length (p_buffer p) \<Longrightarrow> length (p_buffer (swap_pseudo_header p c off)) = length (p_buffer p)"
  by (auto simp: swap_pseudo_header_def)

lemma next_packet_ok:
  assumes "sf_inv p" and "pcap_next_packet p = (r, q)"
  shows "packet_ok (p_hdrsize p) p r q"
proof -
  obtain b fp where f: "fread (p_hdrsize p) (p_rfile p) = (b, fp)" by fastforce
  note b = fread_parts [OF f]
  let ?p = "p\<lparr>p_rfile := fp\<rparr>"
  have i: "sf_inv ?p" using assms(1) by (simp add: sf_inv_def)
  show ?thesis
  proof (cases "length b = p_hdrsize p")
    case False
    then show ?thesis using assms(2) f b i
      by (auto simp: pcap_next_packet_def Let_def packet_ok_def intro!: exI [of _ "p_hdrsize p"] split: if_splits)
  next
    case True
    define h where "h = order_lengths (p_lengths_swapped p) (packet_header ?p b)"
    define m where "m = (if h_caplen h > p_bufsize p then salvage ?p h else read_data ?p h)"
    have m: "packet_ok 0 ?p (fst m) (snd m)"
      using salvage_ok [OF i, of h] read_data_ok [OF i, of h] by (simp add: m_def)
    have n: "pcap_next_packet p = (case m of (Packet h' off, p2) \<Rightarrow> (Packet h' off, swap_pseudo_header p2 (h_caplen h') off) | r \<Rightarrow> r)"
      using f True by (simp add: pcap_next_packet_def Let_def h_def m_def cong: if_cong)
    have k: "p_hdrsize p \<le> length (f_data (p_rfile p))" using True b by auto
    obtain r' p' where rp: "m = (r', p')" by fastforce
    from m obtain k' where k': "f_data (p_rfile p') = drop k' (drop (p_hdrsize p) (f_data (p_rfile p)))"
        "\<And>h off. r' = Packet h off \<Longrightarrow> off = 0 \<and> length (p_buffer p') = unat (h_caplen h) \<and> h_caplen h \<le> p_bufsize p \<and>
           k' \<le> length (f_data (p_rfile p)) - p_hdrsize p"
        "sf_inv p'" "r' \<noteq> Fail SfOverrun" "p_bufsize p' = p_bufsize p" "p_hdrsize p' = p_hdrsize p"
        "p_fcode p' = p_fcode p"
      using b by (auto simp: packet_ok_def rp)
    show ?thesis
    proof (cases r')
      case (Packet h' off)
      then have q: "r = Packet h' off" "q = swap_pseudo_header p' (h_caplen h') off" using assms(2) n rp by simp_all
      then show ?thesis using k' k Packet
        by (auto simp: packet_ok_def sf_inv_def intro!: exI [of _ "k' + p_hdrsize p"])
    next
      case Eof
      then show ?thesis using assms(2) n rp k' by (auto simp: packet_ok_def intro!: exI [of _ "k' + p_hdrsize p"])
    next
      case (Fail e)
      then show ?thesis using assms(2) n rp k' by (auto simp: packet_ok_def intro!: exI [of _ "k' + p_hdrsize p"])
    qed
  qed
qed

lemma next_packet_shorter:
  assumes "sf_inv p" and "pcap_next_packet p = (Packet h off, q)"
  shows "length (f_data (p_rfile q)) < length (f_data (p_rfile p))"
proof -
  have "0 < p_hdrsize p" using assms(1) by (auto simp: sf_inv_def)
  then show ?thesis using next_packet_ok [OF assms] by (auto simp: packet_ok_def)
qed

end
