(* ===== verification/Sf_Png.thy ===== *)
theory Sf_Png
  imports Sf_Pcap
begin

text \<open>
  Capture files in the format of \<^verbatim>\<open>sf-pcap-ng.c\<close>: a sequence of blocks, each read whole into
  the buffer and then taken apart with a cursor. \<open>pcap_ng_check_header\<close> reads up to the first interface
  description, \<open>pcap_ng_next_packet\<close> up to the next packet. Fields the code turns round in place are turned
  round as they are read; nothing reads them again before the buffer is filled anew.
\<close>

section \<open>Blocks\<close>

abbreviation (input) BT_SHB :: u32 where "BT_SHB \<equiv> 0x0A0D0D0A"
abbreviation (input) BT_IDB :: u32 where "BT_IDB \<equiv> 1"
abbreviation (input) BT_PB :: u32 where "BT_PB \<equiv> 2"
abbreviation (input) BT_SPB :: u32 where "BT_SPB \<equiv> 3"
abbreviation (input) BT_EPB :: u32 where "BT_EPB \<equiv> 6"
abbreviation (input) BYTE_ORDER_MAGIC :: u32 where "BYTE_ORDER_MAGIC \<equiv> 0x1A2B3C4D"
abbreviation (input) PCAP_NG_VERSION_MAJOR :: u16 where "PCAP_NG_VERSION_MAJOR \<equiv> 1"
abbreviation (input) OPT_ENDOFOPT :: u16 where "OPT_ENDOFOPT \<equiv> 0"
abbreviation (input) IF_TSRESOL :: u16 where "IF_TSRESOL \<equiv> 9"
abbreviation (input) IF_TSOFFSET :: u16 where "IF_TSOFFSET \<equiv> 14"

text \<open>The cursor: where it is in the buffer, and how much of the block is left.\<close>

record block_cursor =
  c_data :: nat
  c_remaining :: nat
  c_type :: u32

datatype block_read = Block block_cursor | BlockEof | BlockFail sf_error

text \<open>\<open>read_bytes\<close>, for what is wanted whole; the end of the file before the first byte is the end.\<close>

definition read_bytes :: "nat \<Rightarrow> bool \<Rightarrow> stream \<Rightarrow> (sf_error option + u8 list) \<times> stream" where
  "read_bytes n fail_on_eof fp =
     (case fread n fp of (b, fp1) \<Rightarrow>
        (if length b \<noteq> n then
           if f_err fp1 then Inl (Some SfRead)
           else if b = [] \<and> \<not> fail_on_eof then Inl None
           else Inl (Some SfTruncated)
         else Inr b, fp1))"

definition ng16 :: "pcap \<Rightarrow> nat \<Rightarrow> u16" where
  "ng16 p i = (if p_swapped p then SWAPSHORT else id) (get16 i (p_buffer p))"
definition ng32 :: "pcap \<Rightarrow> nat \<Rightarrow> u32" where
  "ng32 p i = (if p_swapped p then SWAPLONG else id) (get32 i (p_buffer p))"
definition ng64 :: "pcap \<Rightarrow> nat \<Rightarrow> u64" where
  "ng64 p i = (if p_swapped p then SWAPLL else id) (get64 i (p_buffer p))"

text \<open>\<open>read_block\<close>, behind the header of the block. The comparison with \<open>p->bufsize\<close> is unsigned; \<open>realloc\<close> changes
  the size of the buffer and not \<open>bufsize\<close>, and may make the buffer smaller. The header is copied to the buffer
  as converted.\<close>

definition block_rest :: "pcap \<Rightarrow> u32 \<Rightarrow> u32 \<Rightarrow> block_read \<times> pcap" where
  "block_rest p block_type total_length =
     (if total_length > 16 * 1024 * 1024 then (BlockFail NgTooBig, p)
      else if total_length < 12 then (BlockFail NgTooSmall, p)
      else
        let p2 = (if p_bufsize p < total_length
                  then p\<lparr>p_room := unat total_length, p_buffer := take (unat total_length) (p_buffer p)\<rparr> else p) in
        case read_bytes (unat total_length - 8) True (p_rfile p) of
          (Inl e, fp2) \<Rightarrow> (BlockFail (case e of None \<Rightarrow> SfTruncated | Some e' \<Rightarrow> e'), p2\<lparr>p_rfile := fp2\<rparr>)
        | (Inr b, fp2) \<Rightarrow>
            if unat total_length > p_room p2 then (BlockFail SfOverrun, p2)
            else (Block \<lparr>c_data = 8, c_remaining = unat total_length - 8 - 4, c_type = block_type\<rparr>,
              p2\<lparr>p_rfile := fp2, p_buffer := bytes 4 block_type @ bytes 4 total_length @ b\<rparr>))"

definition read_block :: "pcap \<Rightarrow> block_read \<times> pcap" where
  "read_block p =
     (case read_bytes 8 False (p_rfile p) of
        (Inl None, fp) \<Rightarrow> (BlockEof, p\<lparr>p_rfile := fp\<rparr>)
      | (Inl (Some e), fp) \<Rightarrow> (BlockFail e, p\<lparr>p_rfile := fp\<rparr>)
      | (Inr bhdr, fp) \<Rightarrow> block_rest (p\<lparr>p_rfile := fp\<rparr>) ((if p_swapped p then SWAPLONG else id) (get32 0 bhdr))
          ((if p_swapped p then SWAPLONG else id) (get32 4 bhdr)))"

text \<open>\<open>get_from_block_data\<close>: the position of the chunk in the buffer.\<close>

definition get_from_block_data :: "block_cursor \<Rightarrow> nat \<Rightarrow> (nat \<times> block_cursor) option" where
  "get_from_block_data c chunk_size =
     (if c_remaining c < chunk_size then None
      else Some (c_data c, c\<lparr>c_data := c_data c + chunk_size, c_remaining := c_remaining c - chunk_size\<rparr>))"

section \<open>Options of an interface\<close>

text \<open>The resolution an option asks for: a power of two, or of ten in 32 bits. \<open>1 << n\<close> is an \<open>int\<close>.\<close>

definition tsresol_value :: "u8 \<Rightarrow> sf_error + u32" where
  "tsresol_value opt =
     (if opt AND 0x80 \<noteq> 0 then
        if unat (opt AND 0x7F) \<ge> 31 then Inl SfUndef else Inr (push_bit (unat (opt AND 0x7F)) 1)
      else if (10 :: u32) ^ unat opt = 0 then Inl NgOption else Inr (10 ^ unat opt))"

text \<open>\<open>get_opthdr_from_block_data\<close> and \<open>get_optvalue_from_block_data\<close>: code, length, position of the value.\<close>

definition get_option :: "pcap \<Rightarrow> block_cursor \<Rightarrow> (u16 \<times> u16 \<times> nat \<times> block_cursor) option" where
  "get_option p c =
     (case get_from_block_data c 4 of None \<Rightarrow> None
      | Some (opthdr, c1) \<Rightarrow>
          let len = ng16 p (opthdr + 2) in
          (case get_from_block_data c1 ((unat len + 3) div 4 * 4) of None \<Rightarrow> None
           | Some (optvalue, c2) \<Rightarrow> Some (ng16 p opthdr, len, optvalue, c2)))"

lemma get_from_remaining: "get_from_block_data c n = Some (i, c') \<Longrightarrow> c_remaining c' = c_remaining c - n \<and> n \<le> c_remaining c"
  by (auto simp: get_from_block_data_def split: if_splits)

lemma get_option_remaining [simp]: "get_option p c = Some (code, len, i, c') \<Longrightarrow> c_remaining c' < c_remaining c"
  by (auto simp: get_option_def Let_def split: option.splits dest!: get_from_remaining)

text \<open>The loop of \<open>process_idb_options\<close>, with \<open>saw_tsresol\<close> and \<open>saw_tsoffset\<close>. The option value is read as an
  \<open>u_int\<close> of which the low byte counts, on this host the first.\<close>

function idb_options ::
  "pcap \<Rightarrow> block_cursor \<Rightarrow> bool \<Rightarrow> bool \<Rightarrow> u32 \<Rightarrow> u64 \<Rightarrow> sf_error + u32 \<times> u64" where
  "idb_options p c saw_tsresol saw_tsoffset tsresol tsoffset =
     (if c_remaining c = 0 then Inr (tsresol, tsoffset)
      else case get_option p c of None \<Rightarrow> Inl NgShortBlock
      | Some (code, len, optvalue, c1) \<Rightarrow>
          if code = OPT_ENDOFOPT then (if len \<noteq> 0 then Inl NgOption else Inr (tsresol, tsoffset))
          else if code = IF_TSRESOL then
            if len \<noteq> 1 \<or> saw_tsresol then Inl NgOption
            else (case tsresol_value (p_buffer p ! optvalue) of Inl e \<Rightarrow> Inl e
                  | Inr r \<Rightarrow> idb_options p c1 True saw_tsoffset r tsoffset)
          else if code = IF_TSOFFSET then
            if len \<noteq> 8 \<or> saw_tsoffset then Inl NgOption
            else idb_options p c1 saw_tsresol True tsresol (ng64 p optvalue)
          else idb_options p c1 saw_tsresol saw_tsoffset tsresol tsoffset)"
  by pat_completeness auto
termination
  by (relation "measure (\<lambda>(p, c, _). c_remaining c)") auto

declare idb_options.simps [simp del]

definition process_idb_options :: "pcap \<Rightarrow> block_cursor \<Rightarrow> u32 \<Rightarrow> u64 \<Rightarrow> sf_error + u32 \<times> u64" where
  "process_idb_options p c tsresol tsoffset = idb_options p c False False tsresol tsoffset"

section \<open>The section header\<close>

definition scale_of :: "u32 \<Rightarrow> u32" where
  "scale_of tsresol = (if tsresol > 1000000 then tsresol div 1000000 else 1000000 div tsresol)"

lemma read_bytes_drop:
  "read_bytes n e fp = (r, fp') \<Longrightarrow> f_data fp' = drop n (f_data fp) \<and>
     (\<forall>b. r = Inr b \<longrightarrow> b = take n (f_data fp) \<and> n \<le> length (f_data fp))"
  by (auto simp: read_bytes_def fread_def min_def split: if_splits)

lemma block_rest_drop:
  assumes "block_rest p ty n = (r, q)"
  shows "length (f_data (p_rfile q)) \<le> length (f_data (p_rfile p))"
proof -
  obtain x fp where rb: "read_bytes (unat n - 8) True (p_rfile p) = (x, fp)" by fastforce
  define p2 where "p2 = (if p_bufsize p < n then p\<lparr>p_room := unat n, p_buffer := take (unat n) (p_buffer p)\<rparr> else p)"
  have "p_rfile p2 = p_rfile p" by (simp add: p2_def)
  then have "p_rfile q = p_rfile p \<or> p_rfile q = fp"
    using assms unfolding block_rest_def Let_def rb p2_def [symmetric] by (cases x) (simp_all split: if_splits, auto)
  then show ?thesis using read_bytes_drop [OF rb] by auto
qed

lemma read_block_parts:
  assumes "read_block p = (r, q)"
  shows "\<exists>x fp. read_bytes 8 False (p_rfile p) = (x, fp) \<and> f_data fp = drop 8 (f_data (p_rfile p)) \<and>
    ((\<exists>e. x = Inl e \<and> (r = BlockEof \<or> (\<exists>e'. e = Some e' \<and> r = BlockFail e')) \<and> q = p\<lparr>p_rfile := fp\<rparr>) \<or>
     (\<exists>ty n b. x = Inr b \<and> 8 \<le> length (f_data (p_rfile p)) \<and> block_rest (p\<lparr>p_rfile := fp\<rparr>) ty n = (r, q)))"
proof -
  obtain x fp where rb: "read_bytes 8 False (p_rfile p) = (x, fp)" by fastforce
  note d = read_bytes_drop [OF rb]
  show ?thesis
  proof (cases x)
    case (Inl e)
    then show ?thesis using assms rb d by (cases e) (auto simp: read_block_def)
  next
    case (Inr b)
    then show ?thesis using assms rb d by (auto simp: read_block_def)
  qed
qed

lemma read_block_drop: "read_block p = (r, q) \<Longrightarrow> length (f_data (p_rfile q)) \<le> length (f_data (p_rfile p))"
  by (drule read_block_parts) (auto dest!: block_rest_drop)

lemma read_block_shorter:
  "read_block p = (Block c, q) \<Longrightarrow> length (f_data (p_rfile q)) < length (f_data (p_rfile p))"
  by (drule read_block_parts) (auto dest!: block_rest_drop)

text \<open>The first interface description makes the handle; blocks before it are passed over.\<close>

function first_interface :: "pcap \<Rightarrow> sf_error + pcap" where
  "first_interface p =
     (case read_block p of
        (BlockEof, q) \<Rightarrow> Inl NgNoInterface
      | (BlockFail e, q) \<Rightarrow> Inl e
      | (Block c, q) \<Rightarrow>
          if c_type c = BT_IDB then
            (case get_from_block_data c 8 of None \<Rightarrow> Inl NgShortBlock
             | Some (idb, c1) \<Rightarrow>
                 let q1 = q\<lparr>p_ifcount := p_ifcount q + 1\<rparr> in
                 (case process_idb_options q1 c1 (p_tsresol q1) (p_tsoffset q1) of Inl e \<Rightarrow> Inl e
                  | Inr (tsresol, tsoffset) \<Rightarrow>
                      Inr (q1\<lparr>p_tsresol := tsresol, p_tsoffset := tsoffset, p_tsscale := scale_of tsresol, p_tzoff := 0,
                        p_snapshot := ng32 q (idb + 4), p_linktype := uint (ng16 q idb), p_linktype_ext := 0,
                        p_format := Pcap_ng\<rparr>)))
          else if c_type c \<in> {BT_EPB, BT_SPB, BT_PB} then Inl NgNoInterface
          else first_interface q)"
  by pat_completeness auto
termination
  by (relation "measure (\<lambda>p. length (f_data (p_rfile p)))") (auto dest: read_block_shorter [OF sym])

declare first_interface.simps [simp del]

text \<open>The section header, from the check of its length on: the buffer has room for it and for a typical
  packet.\<close>

definition open_section :: "pcap \<Rightarrow> u32 \<Rightarrow> u32 \<Rightarrow> stream \<Rightarrow> sf_error + pcap" where
  "open_section p magic total_length fp =
     (if total_length < 28 then Inl NgTooSmall
      else
        let size = (if 2048 < total_length then total_length else 2048) in
        (case read_bytes (unat total_length - 12) True fp of
           (Inl e, fp1) \<Rightarrow> Inl (case e of None \<Rightarrow> SfTruncated | Some e' \<Rightarrow> e')
         | (Inr b, fp1) \<Rightarrow>
             let p1 = p\<lparr>p_rfile := fp1, p_bufsize := size, p_room := unat size,
                   p_buffer := bytes 4 magic @ bytes 4 total_length @ bytes 4 BYTE_ORDER_MAGIC @ b\<rparr> in
             if ng16 p1 12 \<noteq> PCAP_NG_VERSION_MAJOR then Inl NgVersion
             else first_interface (p1\<lparr>p_version_major := ng16 p1 12, p_version_minor := ng16 p1 14,
                    p_tsresol := 1000000, p_tsscale := 1, p_tsoffset := 0\<rparr>)))"

text \<open>A file too short to hold the two words behind the block type is not of this format.\<close>

definition pcap_ng_check_header :: "pcap \<Rightarrow> u32 \<Rightarrow> stream \<Rightarrow> sf_error + pcap option" where
  "pcap_ng_check_header p magic fp =
     (if magic \<noteq> BT_SHB then Inr None
      else case fread 4 fp of (b1, fp1) \<Rightarrow>
        if length b1 < 4 then (if f_err fp1 then Inl SfRead else Inr None)
        else case fread 4 fp1 of (b2, fp2) \<Rightarrow>
          if length b2 < 4 then (if f_err fp2 then Inl SfRead else Inr None)
          else if get32 0 b2 = BYTE_ORDER_MAGIC then map_sum id Some (open_section p magic (get32 0 b1) fp2)
          else if SWAPLONG (get32 0 b2) = BYTE_ORDER_MAGIC then
            map_sum id Some (open_section (p\<lparr>p_swapped := True\<rparr>) magic (SWAPLONG (get32 0 b1)) fp2)
          else Inr None)"

section \<open>The next packet\<close>

text \<open>What the three kinds of packet blocks have in common: interface, lengths, time stamp, and the
  cursor at the data.\<close>

record found =
  fd_interface :: u32
  fd_caplen :: u32
  fd_len :: u32
  fd_time :: u64
  fd_cursor :: block_cursor

definition packet_block :: "pcap \<Rightarrow> block_cursor \<Rightarrow> found option" where
  "packet_block p c =
     (if c_type c = BT_SPB then
        (case get_from_block_data c 4 of None \<Rightarrow> None
         | Some (i, c1) \<Rightarrow>
             let len = ng32 p i in
             Some \<lparr>fd_interface = 0, fd_caplen = (if len > p_snapshot p then p_snapshot p else len), fd_len = len,
               fd_time = 0, fd_cursor = c1\<rparr>)
      else
        (case get_from_block_data c 20 of None \<Rightarrow> None
         | Some (i, c1) \<Rightarrow>
             Some \<lparr>fd_interface = (if c_type c = BT_EPB then ng32 p i else ucast (ng16 p i)),
               fd_caplen = ng32 p (i + 12), fd_len = ng32 p (i + 16),
               fd_time = push_bit 32 (ucast (ng32 p (i + 4))) OR ucast (ng32 p (i + 8)), fd_cursor = c1\<rparr>))"

text \<open>A further interface must be like the first.\<close>

definition next_interface :: "pcap \<Rightarrow> block_cursor \<Rightarrow> sf_error + pcap" where
  "next_interface p c =
     (case get_from_block_data c 8 of None \<Rightarrow> Inl NgShortBlock
      | Some (idb, c1) \<Rightarrow>
          if p_linktype p \<noteq> uint (ng16 p idb) \<or> p_snapshot p \<noteq> ng32 p (idb + 4) then Inl NgDiffers
          else
            let p1 = p\<lparr>p_ifcount := p_ifcount p + 1\<rparr> in
            (case process_idb_options p1 c1 1000000 0 of Inl e \<Rightarrow> Inl e
             | Inr (tsresol, tsoffset) \<Rightarrow>
                 if tsresol \<noteq> p_tsresol p1 \<or> tsoffset \<noteq> p_tsoffset p1 then Inl NgDiffers else Inr p1))"

text \<open>A further section must have the byte order and the version of the first, and starts the count of
  interfaces anew.\<close>

definition next_section :: "pcap \<Rightarrow> block_cursor \<Rightarrow> sf_error + pcap" where
  "next_section p c =
     (case get_from_block_data c 16 of None \<Rightarrow> Inl NgShortBlock
      | Some (shb, c1) \<Rightarrow>
          if ng32 p shb \<noteq> BYTE_ORDER_MAGIC then Inl NgByteOrder
          else if ng16 p (shb + 4) \<noteq> PCAP_NG_VERSION_MAJOR then Inl NgVersion
          else Inr (p\<lparr>p_ifcount := 0\<rparr>))"

lemma next_interface_rfile: "next_interface p c = Inr q \<Longrightarrow> p_rfile q = p_rfile p"
  by (auto simp: next_interface_def Let_def split: option.splits prod.splits sum.splits if_splits)

lemma next_section_rfile: "next_section p c = Inr q \<Longrightarrow> p_rfile q = p_rfile p"
  by (auto simp: next_section_def split: option.splits prod.splits if_splits)

text \<open>Seconds and microseconds of a time stamp; both are stored in 32 bits.\<close>

definition ng_time :: "pcap \<Rightarrow> u64 \<Rightarrow> u32 \<times> u32" where
  "ng_time p t =
     (let sec = t div ucast (p_tsresol p) + p_tsoffset p; frac = t mod ucast (p_tsresol p) in
      (ucast sec, ucast (if p_tsresol p > 1000000 then frac div ucast (p_tsscale p) else frac * ucast (p_tsscale p))))"

definition deliver :: "pcap \<Rightarrow> found \<Rightarrow> read_result \<times> pcap" where
  "deliver p f =
     (if fd_interface f > p_ifcount p then (Fail NgNoInterface, p)
      else if p_tsresol p = 0 \<or> p_tsscale p = 0 then (Fail SfUndef, p)
      else
        let h = \<lparr>h_sec = fst (ng_time p (fd_time f)), h_usec = snd (ng_time p (fd_time f)),
              h_caplen = fd_caplen f, h_len = fd_len f\<rparr> in
        (case get_from_block_data (fd_cursor f) (unat (fd_caplen f)) of
           None \<Rightarrow> (Fail NgShortBlock, p)
         | Some (i, _) \<Rightarrow> (Packet h i, swap_pseudo_header p (fd_caplen f) i)))"

function pcap_ng_next_packet :: "pcap \<Rightarrow> read_result \<times> pcap" where
  "pcap_ng_next_packet p =
     (case read_block p of
        (BlockEof, q) \<Rightarrow> (Eof, q)
      | (BlockFail e, q) \<Rightarrow> (Fail e, q)
      | (Block c, q) \<Rightarrow>
          if c_type c \<in> {BT_EPB, BT_SPB, BT_PB} then
            (case packet_block q c of None \<Rightarrow> (Fail NgShortBlock, q) | Some f \<Rightarrow> deliver q f)
          else if c_type c = BT_IDB then
            (case next_interface q c of Inl e \<Rightarrow> (Fail e, q)
             | Inr q1 \<Rightarrow> pcap_ng_next_packet q1)
          else if c_type c = BT_SHB then
            (case next_section q c of Inl e \<Rightarrow> (Fail e, q)
             | Inr q1 \<Rightarrow> pcap_ng_next_packet q1)
          else pcap_ng_next_packet q)"
  by pat_completeness auto
termination
  by (relation "measure (\<lambda>p. length (f_data (p_rfile p)))")
    (auto dest!: read_block_shorter [OF sym] next_interface_rfile next_section_rfile)

declare pcap_ng_next_packet.simps [simp del]

section \<open>Invariant\<close>

text \<open>The buffer is at least as large as \<open>bufsize\<close> says - \<open>realloc\<close> may have made it larger - and the time
  stamps can be converted.\<close>

definition ng_inv :: "pcap \<Rightarrow> bool" where
  "ng_inv p \<longleftrightarrow> unat (p_bufsize p) \<le> p_room p \<and> length (p_buffer p) \<le> p_room p \<and> p_tsresol p \<noteq> 0 \<and> p_tsscale p \<noteq> 0"

text \<open>A cursor in a block: the trailer is behind what is left.\<close>

definition in_block :: "pcap \<Rightarrow> block_cursor \<Rightarrow> bool" where
  "in_block p c \<longleftrightarrow> c_data c + c_remaining c + 4 = length (p_buffer p)"

definition block_ok :: "pcap \<Rightarrow> block_read \<Rightarrow> pcap \<Rightarrow> bool" where
  "block_ok p r q \<longleftrightarrow> unat (p_bufsize q) \<le> p_room q \<and> (length (p_buffer p) \<le> p_room p \<longrightarrow> length (p_buffer q) \<le> p_room q) \<and>
    p_tsresol q = p_tsresol p \<and> p_tsscale q = p_tsscale p \<and> p_fcode q = p_fcode p \<and> r \<noteq> BlockFail SfOverrun \<and>
    (\<forall>c. r = Block c \<longrightarrow> in_block q c \<and> c_data c = 8)"

lemma read_bytes_error: "read_bytes n e fp = (Inl (Some x), fp') \<Longrightarrow> x \<in> {SfRead, SfTruncated}"
  by (auto simp: read_bytes_def split: if_splits prod.splits)

lemma block_rest_ok:
  assumes "unat (p_bufsize p) \<le> p_room p" and "block_rest p ty n = (r, q)"
  shows "block_ok p r q"
proof -
  obtain x fp where rb: "read_bytes (unat n - 8) True (p_rfile p) = (x, fp)" by fastforce
  define p2 where "p2 = (if p_bufsize p < n then p\<lparr>p_room := unat n, p_buffer := take (unat n) (p_buffer p)\<rparr> else p)"
  have p2: "unat n \<le> p_room p2" "unat (p_bufsize p2) \<le> p_room p2" "length (p_buffer p) \<le> p_room p \<longrightarrow> length (p_buffer p2) \<le> p_room p2"
      "p_tsresol p2 = p_tsresol p" "p_tsscale p2 = p_tsscale p" "p_fcode p2 = p_fcode p"
    using assms(1) by (auto simp: p2_def u32_less_iff)
  have rq: "(r, q) = (if n > 16 * 1024 * 1024 then (BlockFail NgTooBig, p) else if n < 12 then (BlockFail NgTooSmall, p)
      else case x of Inl e \<Rightarrow> (BlockFail (case e of None \<Rightarrow> SfTruncated | Some e' \<Rightarrow> e'), p2\<lparr>p_rfile := fp\<rparr>)
        | Inr b \<Rightarrow> (Block \<lparr>c_data = 8, c_remaining = unat n - 8 - 4, c_type = ty\<rparr>,
              p2\<lparr>p_rfile := fp, p_buffer := bytes 4 ty @ bytes 4 n @ b\<rparr>))"
    using assms(2) p2(1) unfolding block_rest_def Let_def rb p2_def [symmetric] by (auto split: sum.splits)
  show ?thesis
  proof (cases x)
    case (Inl e)
    then have "e \<noteq> Some SfOverrun" using rb read_bytes_error by fastforce
    then show ?thesis using rq Inl p2 assms(1) by (auto simp: block_ok_def split: if_splits option.splits)
  next
    case (Inr b)
    then have "length b = unat n - 8" using read_bytes_drop [OF rb] by auto
    then show ?thesis using rq Inr p2 assms(1)
      by (auto simp: block_ok_def in_block_def u32_less_iff split: if_splits)
  qed
qed

lemma read_block_ok:
  assumes "unat (p_bufsize p) \<le> p_room p" and "read_block p = (r, q)"
  shows "block_ok p r q"
proof -
  obtain x fp where x: "read_bytes 8 False (p_rfile p) = (x, fp)"
    "(\<exists>e. x = Inl e \<and> (r = BlockEof \<or> (\<exists>e'. e = Some e' \<and> r = BlockFail e')) \<and> q = p\<lparr>p_rfile := fp\<rparr>) \<or>
     (\<exists>ty n b. x = Inr b \<and> block_rest (p\<lparr>p_rfile := fp\<rparr>) ty n = (r, q))"
    using read_block_parts [OF assms(2)] by auto
  from x(2) show ?thesis
  proof (elim disjE exE conjE)
    fix e assume e: "x = Inl e" "q = p\<lparr>p_rfile := fp\<rparr>"
    then have ne: "e \<noteq> Some SfOverrun" using x(1) read_bytes_error by fastforce
    { assume "r = BlockEof" then show ?thesis using e assms(1) by (simp add: block_ok_def) }
    fix e' assume "e = Some e'" "r = BlockFail e'"
    then show ?thesis using e ne assms(1) by (simp add: block_ok_def)
  next
    fix ty n b assume "block_rest (p\<lparr>p_rfile := fp\<rparr>) ty n = (r, q)"
    from block_rest_ok [OF _ this] show ?thesis using assms(1) by (simp add: block_ok_def)
  qed
qed

lemma get_from_in_block:
  "get_from_block_data c n = Some (i, c') \<Longrightarrow> in_block p c \<Longrightarrow> in_block p c' \<and> i + n + 4 \<le> length (p_buffer p) \<and> i = c_data c"
  by (auto simp: get_from_block_data_def in_block_def split: if_splits)

lemma tsresol_value_nz: "tsresol_value v = Inr r \<Longrightarrow> r \<noteq> 0"
proof (cases "v AND 0x80 = 0")
  case False
  assume "tsresol_value v = Inr r"
  with False have r: "r = push_bit (unat (v AND 0x7F)) 1" "unat (v AND 0x7F) < 31"
    by (auto simp: tsresol_value_def split: if_splits)
  then have "bit r (unat (v AND 0x7F))" by (simp add: bit_simps)
  then show ?thesis by auto
qed (auto simp: tsresol_value_def split: if_splits)

lemma idb_options_nz:
  "idb_options p c s1 s2 tsresol tsoffset = Inr (r, off) \<Longrightarrow> tsresol \<noteq> 0 \<Longrightarrow> r \<noteq> 0"
proof (induction p c s1 s2 tsresol tsoffset rule: idb_options.induct)
  case (1 p c s1 s2 tsresol tsoffset)
  from 1(4) show ?case
    by (subst (asm) idb_options.simps) (use 1(1-3,5) tsresol_value_nz in
      \<open>auto split: if_splits option.splits prod.splits sum.splits\<close>)
qed

lemma idb_options_error:
  "idb_options p c s1 s2 tsresol tsoffset = Inl e \<Longrightarrow> e \<noteq> SfOverrun"
proof (induction p c s1 s2 tsresol tsoffset rule: idb_options.induct)
  case (1 p c s1 s2 tsresol tsoffset)
  have "e \<noteq> SfOverrun" if "tsresol_value v = Inl e" for v using that by (auto simp: tsresol_value_def split: if_splits)
  with 1(4) show ?case
    by (subst (asm) idb_options.simps) (use 1(1-3) in
      \<open>auto split: if_splits option.splits prod.splits sum.splits\<close>)
qed

lemma scale_of_nz: "r \<noteq> 0 \<Longrightarrow> scale_of r \<noteq> 0"
proof -
  assume r: "r \<noteq> 0"
  then have "unat r \<noteq> 0" by (simp add: unat_eq_0)
  show ?thesis
  proof (cases "r > 1000000")
    case True
    then have "0 < unat r div 1000000" by (simp add: u32_less_iff div_greater_zero_iff)
    then have "unat (r div 1000000) \<noteq> 0" by (simp add: unat_div)
    then show ?thesis using True by (auto simp: scale_of_def)
  next
    case False
    then have "unat r \<le> 1000000" by (simp add: u32_less_iff not_less)
    then have "0 < 1000000 div unat r" using \<open>unat r \<noteq> 0\<close> by (simp add: div_greater_zero_iff)
    then have "unat (1000000 div r) \<noteq> 0" by (simp add: unat_div)
    then show ?thesis using False by (auto simp: scale_of_def)
  qed
qed

lemma next_interface_same: "next_interface p c = Inr q \<Longrightarrow> \<exists>n. q = p\<lparr>p_ifcount := n\<rparr>"
  by (auto simp: next_interface_def Let_def split: option.splits prod.splits sum.splits if_splits)

lemma next_section_same: "next_section p c = Inr q \<Longrightarrow> \<exists>n. q = p\<lparr>p_ifcount := n\<rparr>"
  by (auto simp: next_section_def split: option.splits prod.splits if_splits)

lemma packet_block_ok: "packet_block p c = Some f \<Longrightarrow> in_block p c \<Longrightarrow> in_block p (fd_cursor f)"
  by (auto simp: packet_block_def Let_def dest!: get_from_in_block split: if_splits option.splits)

definition ng_packet_ok :: "pcap \<Rightarrow> read_result \<Rightarrow> pcap \<Rightarrow> bool" where
  "ng_packet_ok p r q \<longleftrightarrow> ng_inv q \<and> r \<noteq> Fail SfOverrun \<and> p_fcode q = p_fcode p \<and>
     length (f_data (p_rfile q)) \<le> length (f_data (p_rfile p)) \<and>
     (\<forall>h i. r = Packet h i \<longrightarrow> i + unat (h_caplen h) \<le> length (p_buffer q))"

lemma deliver_ok:
  assumes "ng_inv p" and "in_block p (fd_cursor f)" and "deliver p f = (r, q)"
  shows "ng_packet_ok p r q"
proof (cases "get_from_block_data (fd_cursor f) (unat (fd_caplen f))")
  case None
  then show ?thesis using assms(1,3) by (auto simp: deliver_def Let_def ng_packet_ok_def split: if_splits)
next
  case (Some ic)
  obtain i c where ic: "ic = (i, c)" by (cases ic)
  have b: "i + unat (fd_caplen f) + 4 \<le> length (p_buffer p)"
    using get_from_in_block [OF Some [unfolded ic] assms(2)] by simp
  have "p_fcode (swap_pseudo_header p (fd_caplen f) i) = p_fcode p" "p_tsresol (swap_pseudo_header p (fd_caplen f) i) = p_tsresol p"
      "p_tsscale (swap_pseudo_header p (fd_caplen f) i) = p_tsscale p"
    by (simp_all add: swap_pseudo_header_def)
  then show ?thesis using assms(1,3) Some ic b
    by (auto simp: deliver_def Let_def ng_packet_ok_def ng_inv_def split: if_splits)
qed

lemma ng_inv_ifcount [simp]: "ng_inv (p\<lparr>p_ifcount := n\<rparr>) = ng_inv p"
  by (simp add: ng_inv_def)

lemma read_block_inv:
  assumes "ng_inv p" and "read_block p = (r, q)"
  shows "ng_inv q" and "p_fcode q = p_fcode p" and "r \<noteq> BlockFail SfOverrun"
    and "r = Block c \<Longrightarrow> in_block q c"
  using read_block_ok [OF _ assms(2)] assms(1) by (auto simp: ng_inv_def block_ok_def)

lemma ng_packet_ok_trans:
  assumes "ng_packet_ok q1 r q'" and "p_fcode q1 = p_fcode p" and "length (f_data (p_rfile q1)) < length (f_data (p_rfile p))"
  shows "ng_packet_ok p r q' \<and> length (f_data (p_rfile q')) < length (f_data (p_rfile p))"
  using assms unfolding ng_packet_ok_def by auto

lemma ng_next_ok:
  "ng_inv p \<Longrightarrow> pcap_ng_next_packet p = (r, q) \<Longrightarrow>
   ng_packet_ok p r q \<and> ((\<exists>h i. r = Packet h i) \<longrightarrow> length (f_data (p_rfile q)) < length (f_data (p_rfile p)))"
proof (induction p rule: pcap_ng_next_packet.induct)
  case (1 p)
  obtain b p' where rb: "read_block p = (b, p')" by fastforce
  note inv = read_block_inv [OF 1(4) rb] and dr = read_block_drop [OF rb]
  show ?case
  proof (cases b)
    case (Block c)
    note ib = inv(4) [OF Block] and lt = read_block_shorter [OF rb [unfolded Block]]
    have step: "pcap_ng_next_packet p =
      (if c_type c \<in> {BT_EPB, BT_SPB, BT_PB} then
         (case packet_block p' c of None \<Rightarrow> (Fail NgShortBlock, p') | Some f \<Rightarrow> deliver p' f)
       else if c_type c = BT_IDB then
         (case next_interface p' c of Inl e \<Rightarrow> (Fail e, p') | Inr q1 \<Rightarrow> pcap_ng_next_packet q1)
       else if c_type c = BT_SHB then
         (case next_section p' c of Inl e \<Rightarrow> (Fail e, p') | Inr q1 \<Rightarrow> pcap_ng_next_packet q1)
       else pcap_ng_next_packet p')"
      by (subst pcap_ng_next_packet.simps) (simp add: rb Block)
    consider (packet) "c_type c \<in> {BT_EPB, BT_SPB, BT_PB}" | (idb) "c_type c = BT_IDB"
      | (shb) "c_type c = BT_SHB" | (other) "c_type c \<notin> {BT_EPB, BT_SPB, BT_PB, BT_IDB, BT_SHB}" by auto
    then show ?thesis
    proof cases
      case packet
      show ?thesis
      proof (cases "packet_block p' c")
        case None
        then show ?thesis using 1(5) step packet inv dr by (auto simp: ng_packet_ok_def)
      next
        case (Some f)
        then have "deliver p' f = (r, q)" using 1(5) step packet by simp
        from deliver_ok [OF inv(1) packet_block_ok [OF Some ib] this] show ?thesis
          using ng_packet_ok_trans inv(2) lt by blast
      qed
    next
      case idb
      show ?thesis
      proof (cases "next_interface p' c")
        case (Inl e)
        then have "e \<noteq> SfOverrun"
          by (auto simp: next_interface_def process_idb_options_def Let_def dest: idb_options_error
              split: option.splits prod.splits if_splits sum.splits)
        then show ?thesis using Inl 1(5) step idb inv dr by (auto simp: ng_packet_ok_def)
      next
        case (Inr q1)
        then have "pcap_ng_next_packet q1 = (r, q)" using 1(5) step idb by simp
        moreover have "ng_inv q1" "p_fcode q1 = p_fcode p'" "p_rfile q1 = p_rfile p'"
          using next_interface_same [OF Inr] inv(1) by auto
        ultimately show ?thesis
          using 1(1) [OF rb [symmetric] Block _ idb Inr] idb inv(2) lt ng_packet_ok_trans [of q1 r q p] by auto
      qed
    next
      case shb
      show ?thesis
      proof (cases "next_section p' c")
        case (Inl e)
        then have "e \<noteq> SfOverrun" by (auto simp: next_section_def split: option.splits prod.splits if_splits)
        then show ?thesis using Inl 1(5) step shb inv dr by (auto simp: ng_packet_ok_def)
      next
        case (Inr q1)
        then have "pcap_ng_next_packet q1 = (r, q)" using 1(5) step shb by simp
        moreover have "ng_inv q1" "p_fcode q1 = p_fcode p'" "p_rfile q1 = p_rfile p'"
          using next_section_same [OF Inr] inv(1) by auto
        ultimately show ?thesis
          using 1(2) [OF rb [symmetric] Block _ _ shb Inr] shb inv(2) lt ng_packet_ok_trans [of q1 r q p] by auto
      qed
    next
      case other
      then have "pcap_ng_next_packet p' = (r, q)" using 1(5) step by simp
      then show ?thesis
        using 1(3) [OF rb [symmetric] Block] other inv lt ng_packet_ok_trans [of p' r q p] by auto
    qed
  next
    case BlockEof
    then show ?thesis using 1(5) rb inv dr by (auto simp: pcap_ng_next_packet.simps [of p] ng_packet_ok_def)
  next
    case (BlockFail e)
    then show ?thesis using 1(5) rb inv dr by (auto simp: pcap_ng_next_packet.simps [of p] ng_packet_ok_def)
  qed
qed

lemma first_interface_inv:
  "first_interface p = Inr q \<Longrightarrow> ng_inv p \<Longrightarrow> ng_inv q \<and> p_format q = Pcap_ng \<and> p_fcode q = p_fcode p"
proof (induction p rule: first_interface.induct)
  case (1 p)
  obtain b p' where rb: "read_block p = (b, p')" by fastforce
  then obtain c where c: "b = Block c" using 1(2) by (cases b) (auto simp: first_interface.simps [of p])
  note inv = read_block_inv [OF 1(3) rb]
  show ?case
  proof (cases "c_type c = BT_IDB")
    case True
    then obtain i c1 tsresol tsoffset where
      o: "process_idb_options (p'\<lparr>p_ifcount := p_ifcount p' + 1\<rparr>) c1 (p_tsresol p') (p_tsoffset p') = Inr (tsresol, tsoffset)"
      and q: "q = p'\<lparr>p_ifcount := p_ifcount p' + 1, p_tsresol := tsresol, p_tsoffset := tsoffset, p_tsscale := scale_of tsresol,
        p_tzoff := 0, p_snapshot := ng32 p' (i + 4), p_linktype := uint (ng16 p' i), p_linktype_ext := 0,
        p_format := Pcap_ng\<rparr>"
      using 1(2) rb c by (auto simp: first_interface.simps [of p] Let_def split: option.splits sum.splits)
    have "p_tsresol p' \<noteq> 0" using inv(1) by (simp add: ng_inv_def)
    then have "tsresol \<noteq> 0" using o unfolding process_idb_options_def by (rule idb_options_nz [rotated])
    then show ?thesis using inv q scale_of_nz by (simp add: ng_inv_def)
  next
    case False
    then have t: "c_type c \<notin> {BT_EPB, BT_SPB, BT_PB}" and f: "first_interface p' = Inr q"
      using 1(2) rb c by (auto simp: first_interface.simps [of p] split: if_splits)
    then show ?thesis using 1(1) [OF rb [symmetric] c False t f inv(1)] inv(2) by simp
  qed
qed

lemma open_section_inv:
  assumes "open_section p magic n fp = Inr q"
  shows "ng_inv q \<and> p_format q = Pcap_ng \<and> p_fcode q = p_fcode p"
proof -
  have n: "\<not> n < 28" using assms by (auto simp: open_section_def)
  define size where "size = (if 2048 < n then n else 2048 :: u32)"
  have size: "unat n \<le> unat size" by (simp add: size_def u32_less_iff)
  obtain x fp1 where rb: "read_bytes (unat n - 12) True fp = (x, fp1)" by fastforce
  then obtain b where b: "x = Inr b" using assms n by (cases x) (auto simp: open_section_def Let_def)
  then have l: "length b = unat n - 12" using read_bytes_drop [OF rb] by auto
  define p1 where "p1 = p\<lparr>p_rfile := fp1, p_bufsize := size, p_room := unat size,
      p_buffer := bytes 4 magic @ bytes 4 n @ bytes 4 BYTE_ORDER_MAGIC @ b\<rparr>"
  define p2 where "p2 = p1\<lparr>p_version_major := ng16 p1 12, p_version_minor := ng16 p1 14,
      p_tsresol := 1000000, p_tsscale := 1, p_tsoffset := 0\<rparr>"
  have "first_interface p2 = Inr q"
    using assms n unfolding open_section_def Let_def rb b size_def [symmetric] p2_def p1_def by (simp split: if_splits)
  moreover have "ng_inv p2" using l size n by (simp add: ng_inv_def p1_def p2_def u32_less_iff)
  ultimately show ?thesis using first_interface_inv [of p2 q] by (simp add: p2_def p1_def)
qed

lemma ng_check_header_inv:
  assumes "pcap_ng_check_header p magic fp = Inr (Some q)"
  shows "ng_inv q \<and> p_format q = Pcap_ng \<and> p_fcode q = p_fcode p"
proof -
  have "\<exists>s n fp'. open_section (p\<lparr>p_swapped := s\<rparr>) magic n fp' = Inr q \<or> open_section p magic n fp' = Inr q"
    using assms by (auto simp: pcap_ng_check_header_def map_sum_def split: if_splits prod.splits sum.splits)
  then show ?thesis using open_section_inv by fastforce
qed

end
