(* ===== verification/Sf_Offline.thy ===== *)
theory Sf_Offline
  imports Sf_Png Bpf_Validate
begin

text \<open>
  Reading a capture file, \<^verbatim>\<open>savefile.c\<close>: \<open>pcap_fopen_offline\<close> finds out the format, and
  \<open>pcap_offline_read\<close> calls the reader of the format for one packet after the other, runs the filter and
  hands what it accepts to the callback. What the loop relies on of a reader is the locale
  \<open>packet_source\<close>, which both readers are shown to satisfy.
\<close>

section \<open>Opening\<close>

text \<open>A handle as \<open>pcap_create_common\<close> leaves it.\<close>

definition new_handle :: "stream \<Rightarrow> pcap" where
  "new_handle fp = \<lparr>p_rfile = fp, p_format = Pcap, p_swapped = False, p_hdrsize = 0, p_lengths_swapped = NOT_SWAPPED,
     p_version_major = 0, p_version_minor = 0, p_ifcount = 0, p_tsresol = 0, p_tsscale = 0, p_tsoffset = 0,
     p_snapshot = 2048, p_linktype = 0, p_linktype_ext = 0, p_tzoff = 0, p_activated = False, p_break_loop = False,
     p_bufsize = 0, p_buffer = [], p_room = 0, p_tsize = 0, p_fcode = None, p_errbuf = None\<rparr>"

text \<open>The formats are tried in the order of \<open>check_headers\<close>.\<close>

definition pcap_fopen_offline :: "stream \<Rightarrow> sf_error + pcap" where
  "pcap_fopen_offline fp =
     (case fread 4 fp of (b, fp1) \<Rightarrow>
        if length b \<noteq> 4 then Inl (short_read fp1)
        else
          let found = (\<lambda>p. Inr (p\<lparr>p_activated := True\<rparr>)) in
          (case pcap_check_header (new_handle fp1) (get32 0 b) fp1 of
             Inl e \<Rightarrow> Inl e
           | Inr (Some p) \<Rightarrow> found p
           | Inr None \<Rightarrow>
               (case pcap_ng_check_header (new_handle fp1) (get32 0 b) fp1 of
                  Inl e \<Rightarrow> Inl e
                | Inr (Some p) \<Rightarrow> found p
                | Inr None \<Rightarrow> Inl SfUnknown)))"

section \<open>Setting a filter\<close>

text \<open>\<open>setfilter_op\<close> of a handle for a file: the handle keeps a copy of a valid program.\<close>

definition install_bpf_program :: "pcap \<Rightarrow> bpf_insn list \<Rightarrow> pcap \<times> int" where
  "install_bpf_program p f =
     (if \<not> bpf_validate f then (p\<lparr>p_errbuf := Some SfBadProgram\<rparr>, - 1) else (p\<lparr>p_fcode := Some f\<rparr>, 0))"

section \<open>The loop\<close>

text \<open>The callback has a state of its own; it may call \<open>pcap_breakloop\<close>, which it says with its second result.\<close>

type_synonym 'u handler = "'u \<Rightarrow> pkthdr \<Rightarrow> u8 list \<Rightarrow> 'u \<times> bool"

datatype 'u offline =
  Returned int 'u pcap   \<comment> \<open>the result; after -1, \<open>p_errbuf\<close> has the reason\<close>
| Crashed                \<comment> \<open>the filter aborted or faulted\<close>

definition run_fcode :: "u32 list \<Rightarrow> pcap \<Rightarrow> pkthdr \<Rightarrow> unit outcome option" where
  "run_fcode mem p h = bpf_filter (p_fcode p) mem \<lparr>pk_data = p_buffer p, pk_wirelen = h_len h, pk_buflen = h_caplen h\<rparr>"

definition handed_over :: "'u handler \<Rightarrow> 'u \<Rightarrow> pcap \<Rightarrow> pkthdr \<Rightarrow> nat \<Rightarrow> 'u \<times> pcap" where
  "handed_over callback user p h off =
     (case callback user h (take (unat (h_caplen h)) (drop off (p_buffer p))) of
        (user', brk) \<Rightarrow> (user', if brk then p\<lparr>p_break_loop := True\<rparr> else p))"

partial_function (option) offline_loop ::
  "(pcap \<Rightarrow> read_result \<times> pcap) \<Rightarrow> u32 list \<Rightarrow> int \<Rightarrow> 'u handler \<Rightarrow> pcap \<Rightarrow> 'u \<Rightarrow> int \<Rightarrow> 'u offline option" where
  "offline_loop next mem cnt callback p user n =
     (if p_break_loop p then
        Some (if n = 0 then Returned (- 2) user (p\<lparr>p_break_loop := False\<rparr>) else Returned n user p)
      else case next p of
        (Eof, q) \<Rightarrow> Some (Returned 0 user q)
      | (Fail e, q) \<Rightarrow> Some (Returned (- 1) user (q\<lparr>p_errbuf := Some e\<rparr>))
      | (Packet h off, q) \<Rightarrow>
          (case run_fcode mem q h of
             None \<Rightarrow> None
           | Some (Ret r) \<Rightarrow>
               if r = 0 then offline_loop next mem cnt callback q user n
               else (case handed_over callback user q h off of
                  (user', q') \<Rightarrow>
                    if n + 1 \<ge> cnt \<and> cnt > 0 then Some (Returned (n + 1) user' q')
                    else offline_loop next mem cnt callback q' user' (n + 1))
           | _ \<Rightarrow> Some Crashed))"

definition next_packet_op :: "pcap \<Rightarrow> pcap \<Rightarrow> read_result \<times> pcap" where
  "next_packet_op p = (case p_format p of Pcap \<Rightarrow> pcap_next_packet | Pcap_ng \<Rightarrow> pcap_ng_next_packet)"

definition pcap_offline_read ::
  "u32 list \<Rightarrow> int \<Rightarrow> 'u handler \<Rightarrow> pcap \<Rightarrow> 'u \<Rightarrow> 'u offline option" where
  "pcap_offline_read mem cnt callback p user = offline_loop (next_packet_op p) mem cnt callback p user 0"

text \<open>The callback that collects what it is given.\<close>

definition collect :: "(pkthdr \<times> u8 list) list handler" where
  "collect u h d = (u @ [(h, d)], False)"

section \<open>What the loop relies on\<close>

text \<open>A filter that answers on every packet: none, or one whose runs end with a verdict.\<close>

definition answers :: "u32 list \<Rightarrow> bpf_insn list option \<Rightarrow> bool" where
  "answers mem fo \<longleftrightarrow> (\<forall>pk. \<exists>r. bpf_filter fo mem pk = Some r)"

text \<open>A reader of a format, with the invariant of its handles: it consumes the file, its packets lie in the
  buffer, it stores nothing outside it and leaves the filter alone.\<close>

locale packet_source =
  fixes get :: "pcap \<Rightarrow> read_result \<times> pcap"
    and inv :: "pcap \<Rightarrow> bool"
  assumes keeps_inv: "inv p \<Longrightarrow> get p = (r, q) \<Longrightarrow> inv q"
    and keeps_fcode: "inv p \<Longrightarrow> get p = (r, q) \<Longrightarrow> p_fcode q = p_fcode p"
    and consumes: "inv p \<Longrightarrow> get p = (Packet h off, q) \<Longrightarrow>
      length (f_data (p_rfile q)) < length (f_data (p_rfile p))"
    and in_buffer: "inv p \<Longrightarrow> get p = (Packet h off, q) \<Longrightarrow> off + unat (h_caplen h) \<le> length (p_buffer q)"
    and no_overrun: "inv p \<Longrightarrow> get p = (Fail e, q) \<Longrightarrow> e \<noteq> SfOverrun"
    and inv_break: "inv p \<Longrightarrow> inv (p\<lparr>p_break_loop := b\<rparr>)"
begin

text \<open>The loop ends on every file; the callback is called with data of the length the header says; if it ends
  with -1, no store outside a buffer was the reason.\<close>

lemma loop_ends:
  assumes "inv p" and "answers mem (p_fcode p)" and "I u"
    and "\<And>u h d. I u \<Longrightarrow> length d = unat (h_caplen h) \<Longrightarrow> I (fst (callback u h d))"
  shows "\<exists>res. offline_loop get mem cnt callback p u n = Some res \<and>
    (\<forall>k u' q. res = Returned k u' q \<longrightarrow> I u' \<and> (k = - 1 \<and> 0 \<le> n \<longrightarrow> p_errbuf q \<noteq> Some SfOverrun))"
  using assms(1-3)
proof (induction "length (f_data (p_rfile p))" arbitrary: p u n rule: less_induct)
  case less
  show ?case
  proof (cases "p_break_loop p")
    case True
    then show ?thesis using less.prems(3) by (subst offline_loop.simps) auto
  next
    case False
    obtain r q where nx: "get p = (r, q)" by fastforce
    have q: "inv q" "p_fcode q = p_fcode p" using keeps_inv keeps_fcode less.prems(1) nx by blast+
    show ?thesis
    proof (cases r)
      case (Packet h off)
      note lt = consumes [OF less.prems(1) nx [unfolded Packet]] and ib = in_buffer [OF less.prems(1) nx [unfolded Packet]]
      obtain v where v: "run_fcode mem q h = Some v"
        using less.prems(2) q(2) unfolding answers_def run_fcode_def by metis
      show ?thesis
      proof (cases "\<exists>k. v = Ret k")
        case True
        then obtain k where k: "v = Ret k" by blast
        show ?thesis
        proof (cases "k = 0")
          case True
          with less.hyps [OF lt q(1) _ less.prems(3), of n] less.prems(2) q(2) show ?thesis
            by (subst offline_loop.simps) (simp add: False nx Packet v k)
        next
          case nz: False
          define d where "d = take (unat (h_caplen h)) (drop off (p_buffer q))"
          obtain u' brk where cb: "callback u h d = (u', brk)" by fastforce
          define q' where "q' = (if brk then q\<lparr>p_break_loop := True\<rparr> else q)"
          have hand: "handed_over callback u q h off = (u', q')" by (simp add: handed_over_def d_def [symmetric] cb q'_def)
          have "length d = unat (h_caplen h)" using ib by (simp add: d_def)
          then have I: "I u'" using assms(4) [OF less.prems(3)] cb by (metis fst_conv)
          have q': "inv q'" "p_fcode q' = p_fcode p" "p_rfile q' = p_rfile q"
            using q inv_break by (auto simp: q'_def)
          have "\<exists>res. offline_loop get mem cnt callback q' u' (n + 1) = Some res \<and>
            (\<forall>k u' q. res = Returned k u' q \<longrightarrow> I u' \<and> (k = - 1 \<and> 0 \<le> n + 1 \<longrightarrow> p_errbuf q \<noteq> Some SfOverrun))"
            using less.hyps [OF _ q'(1) _ I] lt q' less.prems(2) by simp
          then show ?thesis using I
            by (subst offline_loop.simps) (auto simp: False nx Packet v k nz hand)
        qed
      next
        case nr: False
        then show ?thesis by (subst offline_loop.simps, cases v) (auto simp: False nx Packet v)
      qed
    next
      case Eof
      then show ?thesis using less.prems(3) by (subst offline_loop.simps) (auto simp: False nx)
    next
      case (Fail e)
      then have "e \<noteq> SfOverrun" using no_overrun less.prems(1) nx by blast
      then show ?thesis using less.prems(3) by (subst offline_loop.simps) (auto simp: False nx Fail)
    qed
  qed
qed

end

section \<open>Both readers\<close>

interpretation sf: packet_source pcap_next_packet sf_inv
proof unfold_locales
  fix p r q h off e b
  assume i: "sf_inv p"
  show "sf_inv (p\<lparr>p_break_loop := b\<rparr>)" using i by (simp add: sf_inv_def)
  { assume "pcap_next_packet p = (r, q)"
    from next_packet_ok [OF i this] show "sf_inv q" by (simp add: packet_ok_def) }
  { assume "pcap_next_packet p = (r, q)"
    from next_packet_ok [OF i this] show "p_fcode q = p_fcode p" by (simp add: packet_ok_def) }
  { assume a: "pcap_next_packet p = (Packet h off, q)"
    show "length (f_data (p_rfile q)) < length (f_data (p_rfile p))" by (rule next_packet_shorter [OF i a])
    show "off + unat (h_caplen h) \<le> length (p_buffer q)" using next_packet_ok [OF i a] by (auto simp: packet_ok_def) }
  { assume "pcap_next_packet p = (Fail e, q)"
    from next_packet_ok [OF i this] show "e \<noteq> SfOverrun" by (auto simp: packet_ok_def) }
qed

interpretation ng: packet_source pcap_ng_next_packet ng_inv
proof unfold_locales
  fix p r q h off e b
  assume i: "ng_inv p"
  show "ng_inv (p\<lparr>p_break_loop := b\<rparr>)" using i by (simp add: ng_inv_def)
  { assume "pcap_ng_next_packet p = (r, q)"
    from ng_next_ok [OF i this, THEN conjunct1] show "ng_inv q" "p_fcode q = p_fcode p" by (simp_all add: ng_packet_ok_def) }
  { assume a: "pcap_ng_next_packet p = (Packet h off, q)"
    show "length (f_data (p_rfile q)) < length (f_data (p_rfile p))" using ng_next_ok [OF i a] by simp
    show "off + unat (h_caplen h) \<le> length (p_buffer q)" using ng_next_ok [OF i a, THEN conjunct1] by (auto simp: ng_packet_ok_def) }
  { assume "pcap_ng_next_packet p = (Fail e, q)"
    from ng_next_ok [OF i this, THEN conjunct1] show "e \<noteq> SfOverrun" by (auto simp: ng_packet_ok_def) }
qed

section \<open>Files made of records\<close>

text \<open>A format whose files are a sequence of records \<open>'r\<close>: the reader takes one record and gives its packet.
  \<open>enc\<close> is the record in the file, \<open>out\<close> the header and the data handed over, \<open>seen\<close> the content of the buffer,
  which is what the filter is run on.\<close>

locale record_source =
  fixes get :: "pcap \<Rightarrow> read_result \<times> pcap"
    and ready :: "pcap \<Rightarrow> bool"
    and fits :: "'r \<Rightarrow> bool"
    and enc :: "'r \<Rightarrow> u8 list"
    and out :: "'r \<Rightarrow> pkthdr \<times> u8 list"
    and seen :: "'r \<Rightarrow> u8 list"
  assumes get_record: "ready p \<Longrightarrow> fits r \<Longrightarrow> f_data (p_rfile p) = enc r @ rest \<Longrightarrow>
      \<exists>off q. get p = (Packet (fst (out r)) off, q) \<and> ready q \<and> p_fcode q = p_fcode p \<and> p_break_loop q = p_break_loop p \<and>
        f_data (p_rfile q) = rest \<and> p_buffer q = seen r \<and>
        take (unat (h_caplen (fst (out r)))) (drop off (seen r)) = snd (out r)"
    and get_end: "ready p \<Longrightarrow> f_data (p_rfile p) = [] \<Longrightarrow> fst (get p) = Eof"
begin

text \<open>The verdict of the filter on a record.\<close>

definition says :: "bpf_insn list option \<Rightarrow> u32 list \<Rightarrow> ('r \<Rightarrow> u32) \<Rightarrow> 'r \<Rightarrow> bool" where
  "says fo mem v r \<longleftrightarrow> bpf_filter fo mem \<lparr>pk_data = seen r, pk_wirelen = h_len (fst (out r)),
     pk_buflen = h_caplen (fst (out r))\<rparr> = Some (Ret (v r))"

lemma loop_records:
  assumes "ready p" and "\<not> p_break_loop p" and "f_data (p_rfile p) = concat (map enc rs) @ rest"
    and "\<forall>r \<in> set rs. fits r \<and> says (p_fcode p) mem v r"
  shows "\<exists>q m. ready q \<and> \<not> p_break_loop q \<and> f_data (p_rfile q) = rest \<and>
     offline_loop get mem 0 collect p u n =
       offline_loop get mem 0 collect q (u @ map out (filter (\<lambda>r. v r \<noteq> 0) rs)) m"
  using assms
proof (induction rs arbitrary: p u n)
  case Nil
  then show ?case by auto
next
  case (Cons r rs)
  have fr: "fits r" and fd: "f_data (p_rfile p) = enc r @ concat (map enc rs) @ rest" using Cons.prems(3,4) by simp_all
  obtain off q where g: "get p = (Packet (fst (out r)) off, q)" "ready q" "p_fcode q = p_fcode p" "p_break_loop q = p_break_loop p"
      "f_data (p_rfile q) = concat (map enc rs) @ rest" "p_buffer q = seen r"
      "take (unat (h_caplen (fst (out r)))) (drop off (seen r)) = snd (out r)"
    using get_record [OF Cons.prems(1) fr fd] by blast
  have run: "run_fcode mem q (fst (out r)) = Some (Ret (v r))"
    using Cons.prems(4) g(3,6) by (simp add: run_fcode_def says_def)
  have hand: "handed_over collect u q (fst (out r)) off = (u @ [out r], q)"
    using g(6,7) by (simp add: handed_over_def collect_def)
  let ?u = "if v r = 0 then u else u @ [out r]" and ?n = "if v r = 0 then n else n + 1"
  have step: "offline_loop get mem 0 collect p u n = offline_loop get mem 0 collect q ?u ?n"
    by (subst offline_loop.simps) (use Cons.prems(2) g(1) run hand in auto)
  have "\<not> p_break_loop q" "\<forall>r \<in> set rs. fits r \<and> says (p_fcode q) mem v r"
    using g(3,4) Cons.prems(2,4) by simp_all
  from Cons.IH [OF g(2) this(1) g(5) this(2), of ?u ?n]
  obtain q' m where q': "ready q'" "\<not> p_break_loop q'" "f_data (p_rfile q') = rest"
    "offline_loop get mem 0 collect q ?u ?n = offline_loop get mem 0 collect q' (?u @ map out (filter (\<lambda>r. v r \<noteq> 0) rs)) m"
    by blast
  have "?u @ map out (filter (\<lambda>r. v r \<noteq> 0) rs) = u @ map out (filter (\<lambda>r. v r \<noteq> 0) (r # rs))" by simp
  then show ?case using step q' by metis
qed

lemma read_records:
  assumes "ready p" and "\<not> p_break_loop p" and "f_data (p_rfile p) = concat (map enc rs)"
    and "\<forall>r \<in> set rs. fits r \<and> says (p_fcode p) mem v r"
  shows "\<exists>q. offline_loop get mem 0 collect p [] 0 = Some (Returned 0 (map out (filter (\<lambda>r. v r \<noteq> 0) rs)) q)"
proof -
  obtain q m where q: "ready q" "\<not> p_break_loop q" "f_data (p_rfile q) = []"
    "offline_loop get mem 0 collect p [] 0 = offline_loop get mem 0 collect q (map out (filter (\<lambda>r. v r \<noteq> 0) rs)) m"
    using loop_records [OF assms(1,2) _ assms(4), of "[]" "[]" 0] assms(3) by auto
  obtain q' where "get q = (Eof, q')" using get_end [OF q(1,3)] by (cases "get q") auto
  then show ?thesis using q(2,4) by (subst (asm) (2) offline_loop.simps) simp
qed

end

end
