(* ===== verification/Sf_Files.thy ===== *)
theory Sf_Files
  imports Sf_Offline
begin

text \<open>
  What readers make of files: a file is described as what some host wrote (\<open>dialect\<close>: its byte order, its
  version, the order of the two lengths, the patched packet header), and reading it gives back the packets.
\<close>

section \<open>Files as hosts write them\<close>

text \<open>\<open>dl_other\<close>: the host has the other byte order. \<open>dl_len_first\<close>: the length on the wire stands before the
  captured length. \<open>dl_patched\<close>: the packet header has eight more bytes.\<close>

record dialect =
  dl_other :: bool
  dl_minor :: u16
  dl_len_first :: bool
  dl_patched :: bool

definition dialect_ok :: "dialect \<Rightarrow> bool" where
  "dialect_ok a \<longleftrightarrow> (dl_minor a < 3 \<longrightarrow> dl_len_first a) \<and> (dl_minor a > 3 \<longrightarrow> \<not> dl_len_first a)"

abbreviation obytes :: "dialect \<Rightarrow> nat \<Rightarrow> 'a :: len word \<Rightarrow> u8 list" where
  "obytes a \<equiv> host_bytes (dl_other a)"

definition file_header :: "dialect \<Rightarrow> u32 \<Rightarrow> u32 \<Rightarrow> u32 \<Rightarrow> u8 list" where
  "file_header a linktype thiszone snaplen =
     obytes a 4 (if dl_patched a then KUZNETZOV_TCPDUMP_MAGIC else TCPDUMP_MAGIC) @ obytes a 2 (2 :: u16) @
     obytes a 2 (dl_minor a) @ obytes a 4 thiszone @ obytes a 4 (0 :: u32) @ obytes a 4 snaplen @ obytes a 4 linktype"

text \<open>
  USB pseudo-headers are in the order of the host. They are described by the structures of \<^verbatim>\<open>pcap/usb.h\<close>, field by
  field: is it a number, and how many bytes has it. The 16 bytes from \<open>interval\<close> on are in memory-mapped captures only; there the eight
  bytes of the union \<open>s\<close> are two numbers (\<open>iso_rec\<close>) when the transfer is isochronous, and \<open>ndesc\<close> descriptors
  (\<open>usb_isodesc\<close>) follow. A host writes a number in its order; a field that was captured in part is as the
  kernel had it, and is not looked at.
\<close>

abbreviation (input) "URB_ISOCHRONOUS \<equiv> (0 :: u8)"

definition isochronous :: "u8 list \<Rightarrow> bool" where
  "isochronous d \<longleftrightarrow> length d > 9 \<and> d ! 9 = URB_ISOCHRONOUS"

definition usb_struct :: "bool \<Rightarrow> bool \<Rightarrow> u8 list \<Rightarrow> (bool \<times> nat) list" where
  "usb_struct mmapped isoc d =
     [(True, 8),                                          \<comment> \<open>\<open>id\<close>\<close>
      (False, 1), (False, 1), (False, 1), (False, 1),     \<comment> \<open>\<open>event_type\<close> to \<open>device_address\<close>\<close>
      (True, 2), (False, 1), (False, 1),                  \<comment> \<open>\<open>bus_id\<close>, the flags\<close>
      (True, 8), (True, 4), (True, 4), (True, 4), (True, 4)] @   \<comment> \<open>\<open>ts_sec\<close> to \<open>data_len\<close>\<close>
     (if mmapped \<and> isoc then [(True, 4), (True, 4)] else [(False, 8)]) @
     (if mmapped then [(True, 4), (True, 4), (True, 4), (True, 4)] else []) @
     (if mmapped \<and> isoc then concat (replicate (unat (get32 60 d)) [(True, 4), (True, 4), (True, 4), (False, 4)]) else [])"

fun other_order :: "(bool \<times> nat) list \<Rightarrow> u8 list \<Rightarrow> u8 list" where
  "other_order [] d = d"
| "other_order ((number, n) # fs) d =
     (if length d < n then d
      else (if number then rev (take n d) else take n d) @ other_order fs (drop n d))"

definition host_data :: "dialect \<Rightarrow> int \<Rightarrow> u8 list \<Rightarrow> u8 list" where
  "host_data a lt d =
     (if dl_other a \<and> lt \<in> {DLT_USB_LINUX, DLT_USB_LINUX_MMAPPED}
      then other_order (usb_struct (lt = DLT_USB_LINUX_MMAPPED) (isochronous d) d) d else d)"

text \<open>The reader swaps the numbers of a structure, provided it knows them all.\<close>

fun number_fields :: "nat \<Rightarrow> (bool \<times> nat) list \<Rightarrow> (nat \<times> nat \<times> nat) list" where
  "number_fields i [] = []"
| "number_fields i ((number, n) # fs) = (if number then [(i + n, i, n)] else []) @ number_fields (i + n) fs"

lemma swap_fields_short: "c < i \<Longrightarrow> swap_fields c (number_fields i fs) buf = buf"
  by (induction fs arbitrary: i) auto

lemma swap_fields_struct:
  "list_all (\<lambda>(number, n). number \<longrightarrow> n \<in> {2, 4, 8}) fs \<Longrightarrow>
   swap_fields (length pre + length d) (number_fields (length pre) fs) (pre @ d) = pre @ other_order fs d"
proof (induction fs arbitrary: pre d)
  case (Cons f fs)
  obtain num n where f: "f = (num, n)" by (cases f)
  show ?case
  proof (cases "length d < n")
    case True
    then show ?thesis using swap_fields_short [of "length pre + length d" "length pre + n" fs] by (simp add: f)
  next
    case False
    let ?t = "if num then rev (take n d) else take n d"
    have "swap_fields (length (pre @ ?t) + length (drop n d)) (number_fields (length (pre @ ?t)) fs) ((pre @ ?t) @ drop n d) =
        (pre @ ?t) @ other_order fs (drop n d)"
      using Cons.prems by (intro Cons.IH) simp
    moreover have "rev_at (length pre) n (pre @ d) = pre @ rev (take n d) @ drop n d" by (simp add: rev_at_def)
    moreover have "num \<Longrightarrow> swap_at (length pre) n (pre @ d) = rev_at (length pre) n (pre @ d)"
      using Cons.prems False by (intro swap_at_rev) (auto simp: f)
    ultimately show ?thesis using False by (cases num) (simp_all add: f)
  qed
qed simp

lemma usb_fields_struct: "usb_fields mmapped = number_fields 0 (usb_struct mmapped False d)"
  by (simp add: usb_fields_def usb_struct_def)

lemma swap_usb_struct:
  assumes "length d = unat c"
  shows "swap_linux_usb_header c d mmapped = other_order (usb_struct mmapped False d) d"
proof -
  have "list_all (\<lambda>(number, n). number \<longrightarrow> n \<in> {2, 4, 8}) (usb_struct mmapped False d)" by (simp add: usb_struct_def)
  from swap_fields_struct [OF this, of "[]" d] show ?thesis
    using assms by (simp add: swap_linux_usb_header_def usb_fields_struct [of mmapped d])
qed

lemma length_other_order [simp]: "length (other_order fs d) = length d"
  by (induction fs d rule: other_order.induct) auto

lemma host_data_swap:
  assumes "length d = unat c" and "dl_other a \<and> lt = DLT_USB_LINUX_MMAPPED \<longrightarrow> \<not> isochronous d"
  shows "host_data a lt d =
    (if dl_other a \<and> lt \<in> {DLT_USB_LINUX, DLT_USB_LINUX_MMAPPED} then swap_linux_usb_header c d (lt = DLT_USB_LINUX_MMAPPED) else d)"
proof -
  have "usb_struct False (isochronous d) d = usb_struct False False d" by (simp add: usb_struct_def)
  then show ?thesis using assms(2) by (cases "lt = DLT_USB_LINUX_MMAPPED") (auto simp: host_data_def swap_usb_struct [OF assms(1)])
qed

text \<open>An isochronous transfer with error count 1 and no descriptors: its \<open>iso_rec\<close> stays in the order of the other host.\<close>

definition iso_packet :: "u8 list" where
  "iso_packet = replicate 40 0 @ [1] @ replicate 23 0"

lemma isochronous_not_swapped:
  assumes "dl_other a"
  shows "isochronous iso_packet \<and>
    swap_linux_usb_header 64 (host_data a DLT_USB_LINUX_MMAPPED iso_packet) True = replicate 43 0 @ [1] @ replicate 20 0"
proof -
  have i: "isochronous iso_packet" by (simp add: isochronous_def iso_packet_def nth_append)
  have "get32 60 iso_packet = 0" by (simp add: get32_def iso_packet_def numeral_eq_Suc)
  then have u: "usb_struct True True iso_packet = [(True, 8), (False, 1), (False, 1), (False, 1), (False, 1), (True, 2),
      (False, 1), (False, 1), (True, 8), (True, 4), (True, 4), (True, 4), (True, 4), (True, 4), (True, 4),
      (True, 4), (True, 4), (True, 4), (True, 4)]"
    by (simp add: usb_struct_def)
  have o: "other_order (usb_struct True True iso_packet) iso_packet = replicate 43 0 @ [1] @ replicate 20 0"
    unfolding u by (simp add: iso_packet_def numeral_eq_Suc)
  have "swap_linux_usb_header 64 (replicate 43 0 @ [1] @ replicate 20 0) True = replicate 43 0 @ [1] @ replicate 20 0"
    by (simp add: swap_usb_struct usb_struct_def) (simp add: numeral_eq_Suc)
  then show ?thesis using i o assms by (simp add: host_data_def)
qed

type_synonym packet_rec = "u8 list \<times> pkthdr \<times> u8 list"

definition file_packet :: "dialect \<Rightarrow> int \<Rightarrow> packet_rec \<Rightarrow> u8 list" where
  "file_packet a lt r = (case r of (x, h, d) \<Rightarrow>
     obytes a 4 (h_sec h) @ obytes a 4 (h_usec h) @
     obytes a 4 (if dl_len_first a then h_len h else h_caplen h) @ obytes a 4 (if dl_len_first a then h_caplen h else h_len h) @
     (if dl_patched a then x else []) @ host_data a lt d)"

text \<open>A packet that fits the dialect and the reader's buffer. In version 2.3 the order of the lengths is
  told from their sizes. Isochronous transfers of a memory-mapped USB capture by a host of the other order are left out: the reader
  does not turn round their \<open>iso_rec\<close> and descriptors.\<close>

definition packet_fits :: "dialect \<Rightarrow> int \<Rightarrow> u32 \<Rightarrow> packet_rec \<Rightarrow> bool" where
  "packet_fits a lt room r = (case r of (x, h, d) \<Rightarrow>
     length x = 8 \<and> length d = unat (h_caplen h) \<and> h_caplen h \<le> room \<and> (dl_minor a = 3 \<longrightarrow> h_caplen h \<le> h_len h) \<and>
     (dl_other a \<and> lt = DLT_USB_LINUX_MMAPPED \<longrightarrow> \<not> isochronous d))"

lemma length_host_data [simp]: "length (host_data a lt d) = length d"
  by (simp add: host_data_def)

section \<open>Reading one packet\<close>

definition reader :: "dialect \<Rightarrow> int \<Rightarrow> pcap \<Rightarrow> bool" where
  "reader a lt p \<longleftrightarrow> p_swapped p = dl_other a \<and> p_hdrsize p = (if dl_patched a then 24 else 16) \<and>
     p_lengths_swapped p = lengths_order 2 (dl_minor a) \<and> p_linktype p = lt \<and> p_room p = unat (p_bufsize p) \<and>
     p_format p = Pcap \<and> \<not> f_err (p_rfile p)"

text \<open>The 16 bytes before the data, and those of the patched header.\<close>

definition head_bytes :: "dialect \<Rightarrow> packet_rec \<Rightarrow> u8 list" where
  "head_bytes a r = (case r of (x, h, d) \<Rightarrow>
     obytes a 4 (h_sec h) @ obytes a 4 (h_usec h) @
     obytes a 4 (if dl_len_first a then h_len h else h_caplen h) @ obytes a 4 (if dl_len_first a then h_caplen h else h_len h) @
     (if dl_patched a then x else []))"

lemma file_packet_parts: "file_packet a lt (x, h, d) = head_bytes a (x, h, d) @ host_data a lt d"
  by (simp add: file_packet_def head_bytes_def)

lemma length_head: "length x = 8 \<Longrightarrow> length (head_bytes a (x, h, d)) = (if dl_patched a then 24 else 16)"
  by (simp add: head_bytes_def)

lemma header_reads:
  assumes "reader a lt p" and "packet_fits a lt room (x, h, d)" and "dialect_ok a"
  shows "order_lengths (p_lengths_swapped p) (packet_header (p\<lparr>p_rfile := fp\<rparr>) (head_bytes a (x, h, d))) = h"
proof -
  have "packet_header (p\<lparr>p_rfile := fp\<rparr>) (head_bytes a (x, h, d)) = (if dl_len_first a then swap_lengths h else h)"
    using assms(1) by (simp add: packet_header_def head_bytes_def reader_def get32_def swap_lengths_def Let_def)
  moreover have "dl_minor a < 3 \<or> dl_minor a = 3 \<or> dl_minor a > 3" by auto
  ultimately show ?thesis using assms
    by (auto simp: reader_def lengths_order_def order_lengths_def dialect_ok_def packet_fits_def swap_lengths_def
        dest: order_antisym)
qed

lemma pseudo_header_back:
  assumes "p_swapped p = dl_other a" and "p_linktype p = lt" and "length d = unat c"
    and "dl_other a \<and> lt = DLT_USB_LINUX_MMAPPED \<longrightarrow> \<not> isochronous d"
  shows "swap_pseudo_header (p\<lparr>p_rfile := fp, p_buffer := host_data a lt d\<rparr>) c 0 = p\<lparr>p_rfile := fp, p_buffer := d\<rparr>"
proof (cases "dl_other a \<and> lt \<in> {DLT_USB_LINUX, DLT_USB_LINUX_MMAPPED}")
  case True
  then have "host_data a lt d = swap_linux_usb_header c d (lt = DLT_USB_LINUX_MMAPPED)"
    using host_data_swap [OF assms(3,4)] by (simp only: if_True conj_absorb simp_thms)
  moreover have "swap_linux_usb_header c (swap_linux_usb_header c d b) b = d" for b
    using assms(3) by (intro swap_usb_twice) simp
  ultimately show ?thesis using True assms(1,2) unfolding swap_pseudo_header_def by simp
next
  case False
  then have "host_data a lt d = d" by (simp only: host_data_def if_False)
  then show ?thesis using False assms(1,2) unfolding swap_pseudo_header_def by auto
qed

lemma packet_reads:
  assumes r: "reader a lt p" and f: "packet_fits a lt (p_bufsize p) (x, h, d)" and "dialect_ok a"
    and data: "f_data (p_rfile p) = file_packet a lt (x, h, d) @ rest"
  shows "pcap_next_packet p = (Packet h 0, p\<lparr>p_rfile := (p_rfile p)\<lparr>f_data := rest\<rparr>, p_buffer := d\<rparr>)"
proof -
  have l: "length (head_bytes a (x, h, d)) = p_hdrsize p" "length d = unat (h_caplen h)" "h_caplen h \<le> p_bufsize p"
    using r f length_head [of x a h d] by (auto simp: reader_def packet_fits_def)
  let ?fp = "(p_rfile p)\<lparr>f_data := host_data a lt d @ rest\<rparr>"
  have 1: "fread (p_hdrsize p) (p_rfile p) = (head_bytes a (x, h, d), ?fp)"
    using l by (simp add: fread_def data file_packet_parts)
  have room: "unat (h_caplen h) \<le> p_room p" using l(3) r by (simp add: reader_def u32_le_iff)
  have 2: "read_data (p\<lparr>p_rfile := ?fp\<rparr>) h =
      (Packet h 0, p\<lparr>p_rfile := (p_rfile p)\<lparr>f_data := rest\<rparr>, p_buffer := host_data a lt d\<rparr>)"
    using l(2) room by (simp add: read_data_def fread_def Let_def)
  have 3: "swap_pseudo_header (p\<lparr>p_rfile := fp', p_buffer := host_data a lt d\<rparr>) (h_caplen h) 0 =
      p\<lparr>p_rfile := fp', p_buffer := d\<rparr>" for fp'
    using r l(2) f by (intro pseudo_header_back) (auto simp: reader_def packet_fits_def)
  have "\<not> p_bufsize p < h_caplen h" using l(3) by simp
  then show ?thesis
    using l(1) header_reads [OF r f assms(3), of ?fp] by (simp add: pcap_next_packet_def 1 2 3 Let_def)
qed

section \<open>Opening a file\<close>

definition opened_snapshot :: "dialect \<Rightarrow> int \<Rightarrow> u32 \<Rightarrow> u32" where
  "opened_snapshot a lt snaplen = (if dl_patched a \<and> lt = DLT_EN10MB then snaplen + 14 else snaplen)"

definition opened_bufsize :: "dialect \<Rightarrow> int \<Rightarrow> u32 \<Rightarrow> u32" where
  "opened_bufsize a lt snaplen =
     (let s = opened_snapshot a lt snaplen in if sint s \<le> 0 then BPF_MAXBUFSIZE else s)"

abbreviation dlt_of :: "u32 \<Rightarrow> int" where
  "dlt_of linktype \<equiv> linktype_to_dlt (uint (LT_LINKTYPE linktype))"

lemma swapped_magic: "SWAPLONG TCPDUMP_MAGIC = 0xd4c3b2a1" "SWAPLONG KUZNETZOV_TCPDUMP_MAGIC = 0x34cdb2a1"
  "SWAPLONG 0xd4c3b2a1 = TCPDUMP_MAGIC" "SWAPLONG 0x34cdb2a1 = KUZNETZOV_TCPDUMP_MAGIC"
  by (simp_all add: SWAPLONG_def)

lemma magic_bytes:
  "word_at (obytes a 4 (w :: u32)) = (if dl_other a then SWAPLONG w else w)"
  by (simp add: host_bytes_def SWAPLONG_eq)

definition header_tail :: "dialect \<Rightarrow> u32 \<Rightarrow> u32 \<Rightarrow> u32 \<Rightarrow> u8 list" where
  "header_tail a linktype thiszone snaplen =
     obytes a 2 (2 :: u16) @ obytes a 2 (dl_minor a) @ obytes a 4 thiszone @ obytes a 4 (0 :: u32) @
     obytes a 4 snaplen @ obytes a 4 linktype"

lemma check_header_reads:
  assumes "f_data fp = header_tail a linktype thiszone snaplen @ rest" and "\<not> f_err fp"
    and "magic = (if dl_patched a then KUZNETZOV_TCPDUMP_MAGIC else TCPDUMP_MAGIC)"
    and small: "dl_patched a \<and> dlt_of linktype = DLT_EN10MB \<longrightarrow> sint snaplen \<le> 2147483633"
  shows "\<exists>q. pcap_check_header (new_handle fp0) (if dl_other a then SWAPLONG magic else magic) fp = Inr (Some q) \<and>
     reader a (dlt_of linktype) q \<and> p_rfile q = fp\<lparr>f_data := rest\<rparr> \<and>
     p_snapshot q = opened_snapshot a (dlt_of linktype) snaplen \<and> p_bufsize q = opened_bufsize a (dlt_of linktype) snaplen \<and>
     p_tzoff q = thiszone \<and> p_linktype_ext q = LT_LINKTYPE_EXT linktype \<and> p_fcode q = None \<and> \<not> p_break_loop q"
proof -
  let ?h = "header_tail a linktype thiszone snaplen"
  have l: "length ?h = 20" by (simp add: header_tail_def)
  have f: "fread 20 fp = (?h, fp\<lparr>f_data := rest\<rparr>)" using assms(1) l by (simp add: fread_def)
  have g: "(if dl_other a then SWAPSHORT else id) (get16 0 ?h) = 2" "(if dl_other a then SWAPSHORT else id) (get16 2 ?h) = dl_minor a"
    "(if dl_other a then SWAPLONG else id) (get32 4 ?h) = thiszone" "(if dl_other a then SWAPLONG else id) (get32 12 ?h) = snaplen"
    "(if dl_other a then SWAPLONG else id) (get32 16 ?h) = linktype"
    by (simp_all add: header_tail_def get16_def get32_def)
  have m: "magic = TCPDUMP_MAGIC \<or> magic = KUZNETZOV_TCPDUMP_MAGIC" using assms(3) by auto
  show ?thesis
  proof (cases "dl_other a")
    case True
    then show ?thesis using m g assms(2,3) small swapped_magic
      by (auto simp: pcap_check_header_def Let_def f l new_handle_def reader_def alloc_buffer_def opened_bufsize_def
          opened_snapshot_def)
  next
    case False
    then show ?thesis using m g assms(2,3) small
      by (auto simp: pcap_check_header_def Let_def f l new_handle_def reader_def alloc_buffer_def opened_bufsize_def
          opened_snapshot_def)
  qed
qed

lemma open_reads:
  assumes data: "f_data fp = file_header a linktype thiszone snaplen @ rest" and "\<not> f_err fp"
    and small: "dl_patched a \<and> dlt_of linktype = DLT_EN10MB \<longrightarrow> sint snaplen \<le> 2147483633"
  shows "\<exists>q. pcap_fopen_offline fp = Inr q \<and>
     reader a (dlt_of linktype) q \<and> p_rfile q = fp\<lparr>f_data := rest\<rparr> \<and> p_activated q \<and>
     p_snapshot q = opened_snapshot a (dlt_of linktype) snaplen \<and> p_bufsize q = opened_bufsize a (dlt_of linktype) snaplen \<and>
     p_tzoff q = thiszone \<and> p_linktype_ext q = LT_LINKTYPE_EXT linktype \<and> p_fcode q = None \<and> \<not> p_break_loop q"
proof -
  define magic :: u32 where "magic = (if dl_patched a then KUZNETZOV_TCPDUMP_MAGIC else TCPDUMP_MAGIC)"
  let ?fp = "fp\<lparr>f_data := header_tail a linktype thiszone snaplen @ rest\<rparr>"
  have d: "f_data fp = obytes a 4 magic @ header_tail a linktype thiszone snaplen @ rest"
    using data by (simp add: file_header_def header_tail_def magic_def)
  have f: "fread 4 fp = (obytes a 4 magic, ?fp)" by (simp add: fread_def d)
  have g: "get32 0 (obytes a 4 magic) = (if dl_other a then SWAPLONG magic else magic)"
    by (simp add: get32_def magic_bytes)
  obtain q where q: "pcap_check_header (new_handle ?fp) (if dl_other a then SWAPLONG magic else magic) ?fp = Inr (Some q)"
     "reader a (dlt_of linktype) q" "p_rfile q = ?fp\<lparr>f_data := rest\<rparr>"
     "p_snapshot q = opened_snapshot a (dlt_of linktype) snaplen" "p_bufsize q = opened_bufsize a (dlt_of linktype) snaplen"
     "p_tzoff q = thiszone" "p_linktype_ext q = LT_LINKTYPE_EXT linktype" "p_fcode q = None" "\<not> p_break_loop q"
    using check_header_reads [of ?fp a linktype thiszone snaplen rest magic ?fp] assms(2) small magic_def by auto
  then have "pcap_fopen_offline fp = Inr (q\<lparr>p_activated := True\<rparr>)"
    by (simp add: pcap_fopen_offline_def f g)
  then show ?thesis using q by (simp add: reader_def)
qed

section \<open>Reading to the end\<close>

definition file_packets :: "dialect \<Rightarrow> int \<Rightarrow> packet_rec list \<Rightarrow> u8 list" where
  "file_packets a lt rs = concat (map (file_packet a lt) rs)"

definition sf_ready :: "dialect \<Rightarrow> int \<Rightarrow> u32 \<Rightarrow> pcap \<Rightarrow> bool" where
  "sf_ready a lt room p \<longleftrightarrow> dialect_ok a \<and> reader a lt p \<and> p_bufsize p = room"

text \<open>A reader of files of a dialect takes them packet by packet.\<close>

interpretation sf_records: record_source pcap_next_packet "sf_ready a lt room" "packet_fits a lt room" "file_packet a lt"
    snd "\<lambda>r. snd (snd r)" for a lt room
proof unfold_locales
  fix p rest and r :: packet_rec
  assume p: "sf_ready a lt room p" and r: "packet_fits a lt room r" and f: "f_data (p_rfile p) = file_packet a lt r @ rest"
  obtain x h d where xhd: "r = (x, h, d)" by (cases r)
  have "pcap_next_packet p = (Packet h 0, p\<lparr>p_rfile := (p_rfile p)\<lparr>f_data := rest\<rparr>, p_buffer := d\<rparr>)"
    using p r f by (intro packet_reads [of a lt p x h d rest]) (simp_all add: sf_ready_def xhd)
  then show "\<exists>off q. pcap_next_packet p = (Packet (fst (snd r)) off, q) \<and> sf_ready a lt room q \<and> p_fcode q = p_fcode p \<and>
      p_break_loop q = p_break_loop p \<and> f_data (p_rfile q) = rest \<and> p_buffer q = snd (snd r) \<and>
      take (unat (h_caplen (fst (snd r)))) (drop off (snd (snd r))) = snd (snd r)"
    using p r by (auto simp: sf_ready_def reader_def xhd packet_fits_def)
next
  fix p assume p: "sf_ready a lt room p" and e: "f_data (p_rfile p) = []"
  then have "p_hdrsize p \<noteq> 0" by (auto simp: sf_ready_def reader_def)
  then show "fst (pcap_next_packet p) = Eof"
    using p e by (simp add: pcap_next_packet_def fread_def Let_def sf_ready_def reader_def)
qed

text \<open>The filter gives the verdict \<open>v\<close> on the packet as it was captured, no fault.\<close>

definition filter_says :: "bpf_insn list option \<Rightarrow> u32 list \<Rightarrow> (packet_rec \<Rightarrow> u32) \<Rightarrow> packet_rec \<Rightarrow> bool" where
  "filter_says fo mem v r = (case r of (x, h, d) \<Rightarrow>
     bpf_filter fo mem \<lparr>pk_data = d, pk_wirelen = h_len h, pk_buflen = h_caplen h\<rparr> = Some (Ret (v r)))"

definition passed :: "(packet_rec \<Rightarrow> u32) \<Rightarrow> packet_rec list \<Rightarrow> (pkthdr \<times> u8 list) list" where
  "passed v rs = map snd (filter (\<lambda>r. v r \<noteq> 0) rs)"

lemma says_packet: "sf_records.says fo mem v r \<longleftrightarrow> filter_says fo mem v r"
  unfolding sf_records.says_def filter_says_def by (cases r) simp

lemma read_all:
  assumes "dialect_ok a" and "reader a lt q" and "f_data (p_rfile q) = file_packets a lt rs" and "\<not> p_break_loop q"
    and "\<forall>r \<in> set rs. packet_fits a lt (p_bufsize q) r \<and> filter_says (p_fcode q) mem v r"
  shows "\<exists>q'. pcap_offline_read mem 0 collect q [] = Some (Returned 0 (passed v rs) q')"
proof -
  have "sf_ready a lt (p_bufsize q) q" "p_format q = Pcap" using assms(1,2) by (simp_all add: sf_ready_def reader_def)
  then show ?thesis using sf_records.read_records [of a lt "p_bufsize q" q rs mem v] assms(3-5)
    by (simp add: pcap_offline_read_def next_packet_op_def file_packets_def says_packet passed_def)
qed

text \<open>A file that ends inside a packet.\<close>

lemma cut_reads:
  assumes "dialect_ok a" and r: "reader a lt q" and nb: "\<not> p_break_loop q"
    and "f_data (p_rfile q) = take k (file_packet a lt (x, h, d))"
    and f: "packet_fits a lt (p_bufsize q) (x, h, d)" and k: "0 < k" "k < length (file_packet a lt (x, h, d))"
  shows "\<exists>q'. offline_loop pcap_next_packet mem 0 collect q u n = Some (Returned (- 1) u q') \<and> p_errbuf q' = Some SfTruncated"
proof -
  have data: "f_data (p_rfile q) = take k (head_bytes a (x, h, d) @ host_data a lt d)"
    using assms(4) by (simp add: file_packet_parts)
  have l: "length (head_bytes a (x, h, d)) = p_hdrsize q" "length d = unat (h_caplen h)" "h_caplen h \<le> p_bufsize q"
    using r f length_head [of x a h d] by (auto simp: reader_def packet_fits_def)
  have kl: "k < p_hdrsize q + unat (h_caplen h)" using k(2) l by (simp add: file_packet_parts)
  have e: "\<not> f_err (p_rfile q)" and "p_hdrsize q \<noteq> 0" using r by (auto simp: reader_def)
  have "fst (pcap_next_packet q) = Fail SfTruncated"
  proof (cases "k < p_hdrsize q")
    case True
    then have "length (fst (fread (p_hdrsize q) (p_rfile q))) = k" using l(1) by (simp add: fread_def data)
    then show ?thesis using True e k(1) by (auto simp: pcap_next_packet_def fread_def Let_def)
  next
    case False
    let ?fp = "(p_rfile q)\<lparr>f_data := take (k - p_hdrsize q) (host_data a lt d)\<rparr>"
    have 1: "fread (p_hdrsize q) (p_rfile q) = (head_bytes a (x, h, d), ?fp)"
      using False l(1) by (simp add: fread_def data drop_take)
    have room: "unat (h_caplen h) \<le> p_room q" using l(3) r by (simp add: reader_def u32_le_iff)
    have "k - p_hdrsize q < unat (h_caplen h)" using kl False by simp
    then have 2: "fst (read_data (q\<lparr>p_rfile := ?fp\<rparr>) h) = Fail SfTruncated"
      using l(2) room e by (simp add: read_data_def fread_def Let_def short_read_def)
    have "\<not> p_bufsize q < h_caplen h" using l(3) by simp
    then have "pcap_next_packet q = (case read_data (q\<lparr>p_rfile := ?fp\<rparr>) h of
         (Packet h' off, p2) \<Rightarrow> (Packet h' off, swap_pseudo_header p2 (h_caplen h') off) | r \<Rightarrow> r)"
      using l(1) header_reads [OF r _ assms(1), of "p_bufsize q" x h d ?fp] f by (simp add: pcap_next_packet_def 1 Let_def)
    then show ?thesis using 2 by (cases "read_data (q\<lparr>p_rfile := ?fp\<rparr>) h") auto
  qed
  then obtain q' where "pcap_next_packet q = (Fail SfTruncated, q')" by (cases "pcap_next_packet q") auto
  then show ?thesis using nb by (subst offline_loop.simps) simp
qed

end
