(* ===== verification/Sf_Correct.thy ===== *)
theory Sf_Correct
  imports Sf_Files
begin

text \<open>
  The properties of reading and writing capture files in the format of \<^verbatim>\<open>sf-pcap.c\<close>.
\<close>

section \<open>Files of the library's own\<close>

text \<open>The library writes version 2.4 in the order of the host.\<close>

abbreviation own :: dialect where
  "own \<equiv> \<lparr>dl_other = False, dl_minor = 4, dl_len_first = False, dl_patched = False\<rparr>"

lemma dialect_own: "dialect_ok own"
  by (simp add: dialect_ok_def)

lemma header_own: "sf_write_header linktype thiszone snaplen = file_header own linktype thiszone snaplen"
  by (simp add: sf_write_header_def file_header_def host_bytes_def)

definition plain :: "pkthdr \<times> u8 list \<Rightarrow> packet_rec" where
  "plain r = (replicate 8 0, r)"

lemma dump_own: "length d = unat (h_caplen h) \<Longrightarrow> pcap_dump h d = Some (file_packet own lt (plain (h, d)))"
  by (simp add: pcap_dump_def plain_def file_packet_def host_data_def host_bytes_def)

lemma dumps_own:
  "\<forall>(h, d) \<in> set pkts. length d = unat (h_caplen h) \<Longrightarrow>
   those (map (\<lambda>(h, d). pcap_dump h d) pkts) = Some (map (file_packet own lt) (map plain pkts))"
  by (induction pkts) (auto simp: dump_own [of _ _ lt])

lemma passed_all: "passed (\<lambda>_. - 1) (map plain pkts) = pkts"
  by (induction pkts) (simp_all add: passed_def plain_def)

text \<open>Link type and extension share a word.\<close>

lemma linktype_word:
  assumes "0 \<le> l" and "l < 230" and "LT_LINKTYPE ext = 0"
  shows "LT_LINKTYPE (word_of_int l OR ext) = word_of_int l" and "LT_LINKTYPE_EXT (word_of_int l OR ext) = ext"
proof -
  have m: "(0x03FFFFFF :: u32) = mask 26" "(0xFC000000 :: u32) = NOT (mask 26)"
    by (simp_all add: mask_eq_exp_minus_1)
  have "take_bit 8 l = l" using assms(1,2) by (simp add: take_bit_int_eq_self)
  then have l: "\<not> bit l n" if "8 \<le> n" for n using that by (metis bit_take_bit_iff not_less)
  have e: "\<not> bit ext n" if "n < 26" for n
    using arg_cong [OF assms(3), of "\<lambda>w. bit w n"] that by (auto simp: LT_LINKTYPE_def m bit_simps)
  have w: "n < 8" if "bit (word_of_int l :: u32) n" for n
    using that l [of n] by (cases "8 \<le> n") (auto simp: bit_word_of_int_iff)
  show "LT_LINKTYPE (word_of_int l OR ext) = word_of_int l"
    by (rule bit_word_eqI) (auto simp: LT_LINKTYPE_def m bit_or_iff bit_and_iff bit_mask_iff dest: w e)
  show "LT_LINKTYPE_EXT (word_of_int l OR ext) = ext"
    by (rule bit_word_eqI) (auto simp: LT_LINKTYPE_EXT_def m bit_or_iff bit_and_iff bit_mask_iff bit_not_iff dest: w e)
qed

lemma own_header:
  assumes "p_activated p" and "dlt_to_linktype (p_linktype p) \<noteq> - 1" and "LT_LINKTYPE (p_linktype_ext p) = 0"
  shows "\<exists>w. pcap_dump_open p = Inr (file_header own w (p_tzoff p) (p_snapshot p)) \<and>
    dlt_of w = p_linktype p \<and> LT_LINKTYPE_EXT w = p_linktype_ext p"
proof -
  let ?l = "dlt_to_linktype (p_linktype p)" and ?w = "word_of_int (dlt_to_linktype (p_linktype p)) OR p_linktype_ext p :: u32"
  note r = dlt_to_linktype_range [OF assms(2)]
  have "uint (LT_LINKTYPE ?w) = ?l" using linktype_word(1) [OF _ _ assms(3), of ?l] r by (simp add: uint_word_of_int)
  moreover have "LT_LINKTYPE_EXT ?w = p_linktype_ext p" using linktype_word(2) [OF _ _ assms(3), of ?l] r by simp
  moreover have "pcap_dump_open p = Inr (file_header own ?w (p_tzoff p) (p_snapshot p))"
    using assms(1,2) by (simp add: pcap_dump_open_def pcap_dump_fopen_def pcap_setup_dump_def header_own Let_def)
  ultimately show ?thesis using linktype_roundtrip [OF assms(2)] by auto
qed

text \<open>C11: the library reads back what it writes. For a handle with a link type files have a code for, the
  file made by \<open>pcap_dump_open\<close> and one \<open>pcap_dump\<close> for each packet opens as a capture with the same link
  type, extension, snapshot length and zone, and \<open>pcap_offline_read\<close> hands over the same packets and
  returns 0.\<close>

theorem savefile_roundtrip:
  assumes "p_activated p" and "dlt_to_linktype (p_linktype p) \<noteq> - 1" and "LT_LINKTYPE (p_linktype_ext p) = 0"
    and "\<forall>(h, d) \<in> set pkts. length d = unat (h_caplen h) \<and>
      h_caplen h \<le> (if sint (p_snapshot p) \<le> 0 then BPF_MAXBUFSIZE else p_snapshot p)"
  shows "\<exists>hd bs q q'. pcap_dump_open p = Inr hd \<and> those (map (\<lambda>(h, d). pcap_dump h d) pkts) = Some bs \<and>
    pcap_fopen_offline \<lparr>f_data = hd @ concat bs, f_err = False\<rparr> = Inr q \<and>
    p_linktype q = p_linktype p \<and> p_linktype_ext q = p_linktype_ext p \<and> p_snapshot q = p_snapshot p \<and> p_tzoff q = p_tzoff p \<and>
    pcap_offline_read mem 0 collect q [] = Some (Returned 0 pkts q')"
proof -
  let ?lt = "p_linktype p" and ?rs = "map plain pkts"
  obtain w where w: "pcap_dump_open p = Inr (file_header own w (p_tzoff p) (p_snapshot p))"
    "dlt_of w = ?lt" "LT_LINKTYPE_EXT w = p_linktype_ext p"
    using own_header [OF assms(1-3)] by blast
  let ?f = "\<lparr>f_data = file_header own w (p_tzoff p) (p_snapshot p) @ file_packets own ?lt ?rs, f_err = False\<rparr>"
  obtain q where q: "pcap_fopen_offline ?f = Inr q" "reader own ?lt q" "p_rfile q = ?f\<lparr>f_data := file_packets own ?lt ?rs\<rparr>"
    "p_snapshot q = p_snapshot p" "p_bufsize q = opened_bufsize own ?lt (p_snapshot p)" "p_tzoff q = p_tzoff p"
    "p_linktype_ext q = p_linktype_ext p" "p_fcode q = None" "\<not> p_break_loop q"
    using open_reads [of ?f own w "p_tzoff p" "p_snapshot p" "file_packets own ?lt ?rs"] w
    by (auto simp: opened_snapshot_def)
  have "\<forall>r \<in> set ?rs. packet_fits own ?lt (p_bufsize q) r \<and> filter_says (p_fcode q) mem (\<lambda>_. - 1) r"
    using assms(4) q(5,8)
    by (auto simp: plain_def packet_fits_def filter_says_def bpf_filter_def opened_bufsize_def opened_snapshot_def Let_def)
  then have "\<exists>q'. pcap_offline_read mem 0 collect q [] = Some (Returned 0 (passed (\<lambda>_. - 1) ?rs) q')"
    using q by (intro read_all [OF dialect_own q(2)]) auto
  moreover have "those (map (\<lambda>(h, d). pcap_dump h d) pkts) = Some (map (file_packet own ?lt) ?rs)"
    using assms(4) by (intro dumps_own) auto
  ultimately show ?thesis using w q unfolding passed_all
    by (auto simp: file_packets_def reader_def)
qed

text \<open>A handle for Ethernet and two packets, the second cut.\<close>

definition ether_handle :: pcap where
  "ether_handle = (new_handle \<lparr>f_data = [], f_err = False\<rparr>)\<lparr>p_linktype := 1, p_activated := True, p_snapshot := 4\<rparr>"

definition two_packets :: "(pkthdr \<times> u8 list) list" where
  "two_packets =
     [(\<lparr>h_sec = 1, h_usec = 2, h_caplen = 3, h_len = 3\<rparr>, [1, 2, 3]),
      (\<lparr>h_sec = 1, h_usec = 5, h_caplen = 4, h_len = 60\<rparr>, [4, 5, 6, 7])]"

lemma ether_linktype: "dlt_to_linktype 1 = 1"
  by (simp add: dlt_to_linktype_def link_map_def)

theorem savefile_roundtrip_witness:
  "\<exists>hd bs q q'. pcap_dump_open ether_handle = Inr hd \<and> those (map (\<lambda>(h, d). pcap_dump h d) two_packets) = Some bs \<and>
    pcap_fopen_offline \<lparr>f_data = hd @ concat bs, f_err = False\<rparr> = Inr q \<and>
    pcap_offline_read [] 0 collect q [] = Some (Returned 0 two_packets q')"
  using savefile_roundtrip [of ether_handle two_packets "[]"]
  by (auto simp: ether_handle_def new_handle_def ether_linktype LT_LINKTYPE_def two_packets_def)

section \<open>Files of any host\<close>

text \<open>C12: a capture of version 2 reads the same whichever host wrote it. Byte order, the two orders of the lengths
  before version 2.4 and the patched packet header make no difference, nor do the pseudo-headers of USB
  captures, which are in the order of the host - isochronous transfers of memory-mapped captures excepted, of which some numbers
  are not turned round (\<open>isochronous_not_swapped\<close>); the filter sees the packets as they were captured, and the
  callback gets those it accepts, in order.\<close>

theorem any_host_reads:
  assumes "dialect_ok a" and "dl_patched a \<and> dlt_of linktype = DLT_EN10MB \<longrightarrow> sint snaplen \<le> 2147483633"
    and "\<forall>r \<in> set rs. packet_fits a (dlt_of linktype) (opened_bufsize a (dlt_of linktype) snaplen) r \<and> filter_says fo mem v r"
  shows "\<exists>q q'. pcap_fopen_offline
       \<lparr>f_data = file_header a linktype thiszone snaplen @ file_packets a (dlt_of linktype) rs, f_err = False\<rparr> = Inr q \<and>
     p_linktype q = dlt_of linktype \<and>
     pcap_offline_read mem 0 collect (q\<lparr>p_fcode := fo\<rparr>) [] = Some (Returned 0 (passed v rs) q')"
proof -
  let ?f = "\<lparr>f_data = file_header a linktype thiszone snaplen @ file_packets a (dlt_of linktype) rs, f_err = False\<rparr>"
  obtain q where q: "pcap_fopen_offline ?f = Inr q" "reader a (dlt_of linktype) q"
      "p_rfile q = ?f\<lparr>f_data := file_packets a (dlt_of linktype) rs\<rparr>"
      "p_bufsize q = opened_bufsize a (dlt_of linktype) snaplen" "\<not> p_break_loop q"
    using open_reads [of ?f a linktype thiszone snaplen "file_packets a (dlt_of linktype) rs"] assms(2) by auto
  have "\<exists>q'. pcap_offline_read mem 0 collect (q\<lparr>p_fcode := fo\<rparr>) [] = Some (Returned 0 (passed v rs) q')"
    using q assms(3) by (intro read_all [OF assms(1), of "dlt_of linktype"]) (auto simp: reader_def)
  then show ?thesis using q(1,2) by (auto simp: reader_def)
qed

text \<open>A file of a big-endian host, version 2.2: one packet.\<close>

abbreviation old_sun :: dialect where
  "old_sun \<equiv> \<lparr>dl_other = True, dl_minor = 2, dl_len_first = True, dl_patched = False\<rparr>"

abbreviation sun_packet :: packet_rec where
  "sun_packet \<equiv> (replicate 8 0, \<lparr>h_sec = 9, h_usec = 8, h_caplen = 2, h_len = 60\<rparr>, [0xaa, 0xbb])"

lemma dlt_of_1: "dlt_of 1 = 1"
  by (simp add: LT_LINKTYPE_def linktype_to_dlt_def link_map_def)

lemma sun_fits: "packet_fits old_sun (dlt_of 1) (opened_bufsize old_sun (dlt_of 1) 68) sun_packet \<and> filter_says None [] (\<lambda>_. - 1) sun_packet"
  by (simp add: packet_fits_def filter_says_def bpf_filter_def opened_bufsize_def opened_snapshot_def dlt_of_1)

lemma sun_passed: "passed (\<lambda>_. - 1) [sun_packet] = [(\<lparr>h_sec = 9, h_usec = 8, h_caplen = 2, h_len = 60\<rparr>, [0xaa, 0xbb])]"
  by (simp add: passed_def)

theorem any_host_reads_witness:
  "\<exists>q q'. pcap_fopen_offline
       \<lparr>f_data = file_header old_sun 1 0 68 @ file_packets old_sun (dlt_of 1) [sun_packet], f_err = False\<rparr> = Inr q \<and>
     pcap_offline_read [] 0 collect (q\<lparr>p_fcode := None\<rparr>) [] =
       Some (Returned 0 [(\<lparr>h_sec = 9, h_usec = 8, h_caplen = 2, h_len = 60\<rparr>, [0xaa, 0xbb])] q')"
  using any_host_reads [of old_sun 1 68 "[sun_packet]" None "[]" "\<lambda>_. - 1" 0] sun_fits sun_passed
  by (auto simp: dialect_ok_def)

text \<open>C14: a file that was cut inside a packet gives the packets before it, and then an error: the result is -1,
  the message is that of a truncated file. Only a file that ends between packets ends well.\<close>

theorem truncated_file:
  assumes "dialect_ok a" and "dl_patched a \<and> dlt_of linktype = DLT_EN10MB \<longrightarrow> sint snaplen \<le> 2147483633"
    and "\<forall>r \<in> set rs. packet_fits a (dlt_of linktype) (opened_bufsize a (dlt_of linktype) snaplen) r \<and> filter_says fo mem v r"
    and "packet_fits a (dlt_of linktype) (opened_bufsize a (dlt_of linktype) snaplen) r"
    and "0 < k" and "k < length (file_packet a (dlt_of linktype) r)"
  shows "\<exists>q q'. pcap_fopen_offline
       \<lparr>f_data = file_header a linktype thiszone snaplen @ file_packets a (dlt_of linktype) rs @
          take k (file_packet a (dlt_of linktype) r), f_err = False\<rparr> = Inr q \<and>
     pcap_offline_read mem 0 collect (q\<lparr>p_fcode := fo\<rparr>) [] = Some (Returned (- 1) (passed v rs) q') \<and>
     p_errbuf q' = Some SfTruncated"
proof -
  let ?lt = "dlt_of linktype"
  let ?t = "file_packets a ?lt rs @ take k (file_packet a ?lt r)"
  let ?f = "\<lparr>f_data = file_header a linktype thiszone snaplen @ ?t, f_err = False\<rparr>"
  obtain q where q: "pcap_fopen_offline ?f = Inr q" "reader a ?lt q" "p_rfile q = ?f\<lparr>f_data := ?t\<rparr>"
      "p_bufsize q = opened_bufsize a ?lt snaplen" "\<not> p_break_loop q"
    using open_reads [of ?f a linktype thiszone snaplen ?t] assms(2) by auto
  let ?q = "q\<lparr>p_fcode := fo\<rparr>"
  have rd: "sf_ready a ?lt (opened_bufsize a ?lt snaplen) ?q" "p_format ?q = Pcap"
    using q assms(1) by (simp_all add: sf_ready_def reader_def)
  obtain q1 m where q1: "sf_ready a ?lt (opened_bufsize a ?lt snaplen) q1" "\<not> p_break_loop q1"
      "f_data (p_rfile q1) = take k (file_packet a ?lt r)"
      "offline_loop pcap_next_packet mem 0 collect ?q [] 0 = offline_loop pcap_next_packet mem 0 collect q1 (passed v rs) m"
    using sf_records.loop_records [OF rd(1), of rs "take k (file_packet a ?lt r)" mem v "[]" 0] q(3,5) assms(3)
    by (auto simp: says_packet file_packets_def passed_def)
  obtain x h d where r: "r = (x, h, d)" by (cases r)
  show ?thesis
    using cut_reads [of a ?lt q1 k x h d mem "passed v rs" m] q1 assms(4-6) q(1) rd(2)
    by (auto simp: pcap_offline_read_def next_packet_op_def r sf_ready_def)
qed

theorem truncated_file_witness:
  "\<exists>q q'. pcap_fopen_offline
       \<lparr>f_data = file_header old_sun 1 0 68 @ file_packets old_sun (dlt_of 1) [sun_packet] @
          take 17 (file_packet old_sun (dlt_of 1) sun_packet), f_err = False\<rparr> = Inr q \<and>
     pcap_offline_read [] 0 collect (q\<lparr>p_fcode := None\<rparr>) [] = Some (Returned (- 1) (passed (\<lambda>_. - 1) [sun_packet]) q') \<and>
     p_errbuf q' = Some SfTruncated"
proof -
  have "17 < length (file_packet old_sun (dlt_of 1) sun_packet)"
    by (simp add: file_packet_def host_data_def)
  then show ?thesis
    using truncated_file [of old_sun 1 68 "[sun_packet]" None "[]" "\<lambda>_. - 1" sun_packet 17 0] sun_fits
    by (auto simp: dialect_ok_def)
qed

section \<open>Files of any content\<close>

lemma opened_inv:
  assumes "pcap_fopen_offline fp = Inr p"
  shows "(p_format p = Pcap \<and> sf_inv p \<or> p_format p = Pcap_ng \<and> ng_inv p) \<and> p_fcode p = None"
proof -
  obtain b fp1 where f: "fread 4 fp = (b, fp1)" by fastforce
  consider q where "pcap_check_header (new_handle fp1) (get32 0 b) fp1 = Inr (Some q)" "p = q\<lparr>p_activated := True\<rparr>"
    | q where "pcap_ng_check_header (new_handle fp1) (get32 0 b) fp1 = Inr (Some q)" "p = q\<lparr>p_activated := True\<rparr>"
    using assms by (auto simp: pcap_fopen_offline_def f Let_def split: if_splits sum.splits option.splits)
  then show ?thesis
  proof cases
    case (1 q)
    then show ?thesis using check_header_inv [OF 1(1)] by (simp add: sf_inv_def new_handle_def)
  next
    case (2 q)
    then show ?thesis using ng_check_header_inv [OF 2(1)] by (simp add: ng_inv_def new_handle_def)
  qed
qed

text \<open>C10: reading is safe on every file. Whatever bytes a file has, once it has been opened, reading it ends, with any
  callback and any filter that answers; every packet handed over has as many bytes as its header says; no
  byte is stored outside the buffers. (A resolution in an interface block may still make \<open>process_idb_options\<close> shift by more than
  31 bits, which C leaves undefined; reading then ends with the error \<open>SfUndef\<close> of the model.)\<close>

theorem any_file_is_safe:
  assumes "pcap_fopen_offline fp = Inr p" and "answers mem fo" and "I u"
    and "\<And>u h d. I u \<Longrightarrow> length d = unat (h_caplen h) \<Longrightarrow> I (fst (callback u h d))"
  shows "\<exists>res. pcap_offline_read mem cnt callback (p\<lparr>p_fcode := fo\<rparr>) u = Some res \<and>
    (\<forall>k u' q. res = Returned k u' q \<longrightarrow> I u' \<and> (k = - 1 \<longrightarrow> p_errbuf q \<noteq> Some SfOverrun))"
proof -
  have "sf_inv p \<Longrightarrow> sf_inv (p\<lparr>p_fcode := fo\<rparr>)" "ng_inv p \<Longrightarrow> ng_inv (p\<lparr>p_fcode := fo\<rparr>)"
    by (simp_all add: sf_inv_def ng_inv_def)
  then show ?thesis
    using opened_inv [OF assms(1)] sf.loop_ends [of "p\<lparr>p_fcode := fo\<rparr>" mem I u callback cnt 0]
      ng.loop_ends [of "p\<lparr>p_fcode := fo\<rparr>" mem I u callback cnt 0] assms(2-4)
    by (auto simp: pcap_offline_read_def next_packet_op_def)
qed

text \<open>A file with a good header and then five bytes, in the place of a packet header.\<close>

theorem any_file_is_safe_witness:
  "\<exists>p res. pcap_fopen_offline \<lparr>f_data = file_header old_sun 1 0 68 @ [1, 2, 3, 4, 5], f_err = False\<rparr> = Inr p \<and>
     pcap_offline_read [] 3 collect (p\<lparr>p_fcode := None\<rparr>) [] = Some res \<and>
     (\<forall>k u' q. res = Returned k u' q \<longrightarrow> list_all (\<lambda>(h, d). length d = unat (h_caplen h)) u')"
proof -
  obtain p where p: "pcap_fopen_offline \<lparr>f_data = file_header old_sun 1 0 68 @ [1, 2, 3, 4, 5], f_err = False\<rparr> = Inr p"
    using open_reads [of "\<lparr>f_data = file_header old_sun 1 0 68 @ [1, 2, 3, 4, 5], f_err = False\<rparr>" old_sun 1 0 68 "[1, 2, 3, 4, 5]"]
    by auto
  have "answers [] None" by (simp add: answers_def bpf_filter_def)
  from any_file_is_safe [OF p this, of "list_all (\<lambda>(h, d). length d = unat (h_caplen h))" "[]" collect 3] p
  show ?thesis by (auto simp: collect_def)
qed

end
