(* ===== verification/Sf_Ng_Files.thy ===== *)
theory Sf_Ng_Files
  imports Sf_Offline
begin

text \<open>
  Files in the format of \<^verbatim>\<open>sf-pcap-ng.c\<close> as a host writes them - a section, an interface with a
  time stamp resolution, enhanced packet blocks - and what reading them gives: the packets with their times;
  and that the filter is run on the wrong bytes.
\<close>

section \<open>Files as hosts write them\<close>

abbreviation hb :: "bool \<Rightarrow> nat \<Rightarrow> 'a :: len word \<Rightarrow> u8 list" where "hb \<equiv> host_bytes"

definition ng_section :: "bool \<Rightarrow> u8 list" where
  "ng_section sw = hb sw 4 BT_SHB @ hb sw 4 (28 :: u32) @ hb sw 4 BYTE_ORDER_MAGIC @ hb sw 2 (1 :: u16) @ hb sw 2 (0 :: u16) @
     hb sw 8 (- 1 :: u64) @ hb sw 4 (28 :: u32)"

text \<open>One option, \<open>if_tsresol\<close>, and the end of the options.\<close>

definition ng_interface :: "bool \<Rightarrow> u16 \<Rightarrow> u32 \<Rightarrow> u8 \<Rightarrow> u8 list" where
  "ng_interface sw lt snaplen res =
     hb sw 4 BT_IDB @ hb sw 4 (32 :: u32) @ hb sw 2 lt @ hb sw 2 (0 :: u16) @ hb sw 4 snaplen @
     hb sw 2 IF_TSRESOL @ hb sw 2 (1 :: u16) @ [res, 0, 0, 0] @ hb sw 2 OPT_ENDOFOPT @ hb sw 2 (0 :: u16) @ hb sw 4 (32 :: u32)"

text \<open>A packet: its time, in units of the resolution, its length on the wire, its data.\<close>

type_synonym ng_rec = "u64 \<times> u32 \<times> u8 list"

definition pad :: "u8 list \<Rightarrow> u8 list" where
  "pad d = replicate ((4 - length d mod 4) mod 4) 0"

definition epb_length :: "u8 list \<Rightarrow> u32" where
  "epb_length d = of_nat (32 + length d + length (pad d))"

definition epb_rest :: "bool \<Rightarrow> ng_rec \<Rightarrow> u8 list" where
  "epb_rest sw r = (case r of (t, len, d) \<Rightarrow>
     hb sw 4 (0 :: u32) @ hb sw 4 (ucast (drop_bit 32 t) :: u32) @ hb sw 4 (ucast t :: u32) @
     hb sw 4 (of_nat (length d) :: u32) @ hb sw 4 len @ d @ pad d @ hb sw 4 (epb_length d))"

definition ng_packet :: "bool \<Rightarrow> ng_rec \<Rightarrow> u8 list" where
  "ng_packet sw r = hb sw 4 BT_EPB @ hb sw 4 (epb_length (snd (snd r))) @ epb_rest sw r"

text \<open>The buffer after the block was read: the header as converted, the rest as it is in the file.\<close>

definition ng_seen :: "bool \<Rightarrow> ng_rec \<Rightarrow> u8 list" where
  "ng_seen sw r = bytes 4 BT_EPB @ bytes 4 (epb_length (snd (snd r))) @ epb_rest sw r"

definition ng_fits :: "ng_rec \<Rightarrow> bool" where
  "ng_fits r \<longleftrightarrow> length (snd (snd r)) \<le> 16777000"

section \<open>Reading a packet\<close>

definition ng_ready :: "bool \<Rightarrow> int \<Rightarrow> u32 \<Rightarrow> pcap \<Rightarrow> bool" where
  "ng_ready sw lt tsresol p \<longleftrightarrow> ng_inv p \<and> p_swapped p = sw \<and> p_linktype p = lt \<and> lt \<notin> {DLT_USB_LINUX, DLT_USB_LINUX_MMAPPED} \<and>
     p_tsresol p = tsresol \<and> p_tsscale p = scale_of tsresol \<and> p_tsoffset p = 0 \<and> \<not> f_err (p_rfile p)"

text \<open>The packet header: \<open>sec\<close> and \<open>usec\<close> as the code computes them.\<close>

definition ng_out :: "u32 \<Rightarrow> ng_rec \<Rightarrow> pkthdr \<times> u8 list" where
  "ng_out tsresol r = (case r of (t, len, d) \<Rightarrow>
     (\<lparr>h_sec = ucast (t div ucast tsresol),
       h_usec = ucast (if tsresol > 1000000 then t mod ucast tsresol div ucast (scale_of tsresol)
         else t mod ucast tsresol * ucast (scale_of tsresol)),
       h_caplen = of_nat (length d), h_len = len\<rparr>, d))"

lemma length_pad: "length (pad d) < 4"
  by (simp add: pad_def)

lemma epb_length_val:
  assumes "ng_fits r"
  shows "unat (epb_length (snd (snd r))) = 32 + length (snd (snd r)) + length (pad (snd (snd r)))"
  unfolding epb_length_def using assms length_pad [of "snd (snd r)"] by (intro unat_u32_of_nat) (simp add: ng_fits_def)

lemma length_epb_rest: "length (epb_rest sw r) = 24 + length (snd (snd r)) + length (pad (snd (snd r)))"
  by (auto simp: epb_rest_def split: prod.split)

lemma rejoin_time: "push_bit 32 (ucast (ucast (drop_bit 32 t) :: u32)) OR ucast (ucast t :: u32) = (t :: u64)"
  by (rule bit_word_eqI) (auto simp: bit_simps)

lemma block_reads:
  assumes "ng_ready sw lt tsresol p" and "ng_fits r" and data: "f_data (p_rfile p) = ng_packet sw r @ rest"
  shows "\<exists>q. read_block p = (Block \<lparr>c_data = 8, c_remaining = 20 + length (snd (snd r)) + length (pad (snd (snd r))), c_type = BT_EPB\<rparr>, q) \<and>
     ng_ready sw lt tsresol q \<and> p_fcode q = p_fcode p \<and> p_break_loop q = p_break_loop p \<and> p_ifcount q = p_ifcount p \<and>
     f_data (p_rfile q) = rest \<and> p_buffer q = ng_seen sw r"
proof -
  let ?n = "epb_length (snd (snd r))"
  note n = epb_length_val [OF assms(2)]
  have hd: "read_bytes 8 False (p_rfile p) = (Inr (hb sw 4 BT_EPB @ hb sw 4 ?n), (p_rfile p)\<lparr>f_data := epb_rest sw r @ rest\<rparr>)"
    by (simp add: read_bytes_def fread_def data ng_packet_def)
  have sw: "p_swapped p = sw" using assms(1) by (simp add: ng_ready_def)
  have ty: "(if sw then SWAPLONG else id) (get32 0 (hb sw 4 BT_EPB @ hb sw 4 ?n)) = BT_EPB"
    "(if sw then SWAPLONG else id) (get32 4 (hb sw 4 BT_EPB @ hb sw 4 ?n)) = ?n" by (simp_all add: get32_def)
  have rb: "read_block p = block_rest (p\<lparr>p_rfile := (p_rfile p)\<lparr>f_data := epb_rest sw r @ rest\<rparr>\<rparr>) BT_EPB ?n"
    by (simp only: read_block_def hd prod.case sum.case sw ty)
  have le: "\<not> ?n > 16 * 1024 * 1024" "\<not> ?n < 12" using n assms(2) length_pad [of "snd (snd r)"] by (simp_all add: u32_less_iff ng_fits_def)
  have b: "read_bytes (unat ?n - 8) True ((p_rfile p)\<lparr>f_data := epb_rest sw r @ rest\<rparr>) = (Inr (epb_rest sw r), (p_rfile p)\<lparr>f_data := rest\<rparr>)"
    by (simp add: read_bytes_def fread_def n length_epb_rest)
  let ?p = "p\<lparr>p_rfile := (p_rfile p)\<lparr>f_data := epb_rest sw r @ rest\<rparr>\<rparr>"
  define p2 where "p2 = (if p_bufsize ?p < ?n then ?p\<lparr>p_room := unat ?n, p_buffer := take (unat ?n) (p_buffer ?p)\<rparr> else ?p)"
  have room: "unat ?n \<le> p_room p2" "unat (p_bufsize p2) \<le> p_room p2"
    using assms(1) by (auto simp: p2_def u32_less_iff ng_ready_def ng_inv_def)
  have same: "p_swapped p2 = p_swapped p" "p_linktype p2 = p_linktype p" "p_tsresol p2 = p_tsresol p" "p_tsscale p2 = p_tsscale p"
    "p_tsoffset p2 = p_tsoffset p" "p_fcode p2 = p_fcode p" "p_break_loop p2 = p_break_loop p" "p_ifcount p2 = p_ifcount p"
    "f_err (p_rfile p2) = f_err (p_rfile p)"
    by (simp_all add: p2_def)
  let ?q = "p2\<lparr>p_rfile := (p_rfile p)\<lparr>f_data := rest\<rparr>, p_buffer := ng_seen sw r\<rparr>"
  have "block_rest ?p BT_EPB ?n = (Block \<lparr>c_data = 8, c_remaining = unat ?n - 8 - 4, c_type = BT_EPB\<rparr>, ?q)"
    using le room(1) b unfolding block_rest_def p2_def [symmetric] Let_def ng_seen_def by (simp add: not_less)
  moreover have "ng_ready sw lt tsresol ?q"
    using assms(1) same room n by (auto simp: ng_ready_def ng_inv_def ng_seen_def length_epb_rest)
  ultimately show ?thesis using rb same n by auto
qed

text \<open>The fields of the block, and its data at offset 28.\<close>

lemma seen_fields:
  assumes "p_buffer q = ng_seen sw r" and "p_swapped q = sw" and r: "r = (t, len, d)"
  shows "ng32 q 8 = 0" "ng32 q 12 = ucast (drop_bit 32 t)" "ng32 q 16 = ucast t" "ng32 q 20 = of_nat (length d)" "ng32 q 24 = len"
    and "take (length d) (drop 28 (ng_seen sw r)) = d"
  by (simp_all add: ng32_def assms(1,2) ng_seen_def epb_rest_def r get32_def)

lemma ng_packet_reads:
  assumes p: "ng_ready sw lt tsresol p" and r: "ng_fits r" and data: "f_data (p_rfile p) = ng_packet sw r @ rest"
  shows "\<exists>q. pcap_ng_next_packet p = (Packet (fst (ng_out tsresol r)) 28, q) \<and> ng_ready sw lt tsresol q \<and>
     p_fcode q = p_fcode p \<and> p_break_loop q = p_break_loop p \<and> f_data (p_rfile q) = rest \<and> p_buffer q = ng_seen sw r"
proof -
  obtain t len d where tld: "r = (t, len, d)" by (cases r)
  obtain q where q: "read_block p = (Block \<lparr>c_data = 8, c_remaining = 20 + length d + length (pad d), c_type = BT_EPB\<rparr>, q)"
     "ng_ready sw lt tsresol q" "p_fcode q = p_fcode p" "p_break_loop q = p_break_loop p"
     "f_data (p_rfile q) = rest" "p_buffer q = ng_seen sw r"
    using block_reads [OF p r data] tld by auto
  let ?c = "\<lparr>c_data = 8, c_remaining = 20 + length d + length (pad d), c_type = BT_EPB\<rparr>"
  have sw: "p_swapped q = sw" using q(2) by (simp add: ng_ready_def)
  note f = seen_fields [OF q(6) sw tld]
  let ?fd = "\<lparr>fd_interface = 0, fd_caplen = of_nat (length d), fd_len = len, fd_time = t,
      fd_cursor = \<lparr>c_data = 28, c_remaining = length d + length (pad d), c_type = BT_EPB\<rparr>\<rparr>"
  have pb: "packet_block q ?c = Some ?fd"
    by (simp add: packet_block_def get_from_block_data_def f rejoin_time)
  have n: "unat (of_nat (length d) :: u32) = length d" using r by (simp add: ng_fits_def tld)
  have nz: "tsresol \<noteq> 0" "scale_of tsresol \<noteq> 0" using q(2) scale_of_nz by (auto simp: ng_ready_def ng_inv_def)
  have "deliver q ?fd = (Packet (fst (ng_out tsresol r)) 28, q)"
    using q(2) nz by (auto simp: deliver_def get_from_block_data_def n ng_time_def ng_out_def tld ng_ready_def swap_pseudo_header_def Let_def)
  then show ?thesis using q pb by (auto simp: pcap_ng_next_packet.simps [of p])
qed

interpretation ng_records: record_source pcap_ng_next_packet "ng_ready sw lt tsresol" ng_fits "ng_packet sw"
    "ng_out tsresol" "ng_seen sw" for sw lt tsresol
proof unfold_locales
  fix p rest and r :: ng_rec
  assume p: "ng_ready sw lt tsresol p" and r: "ng_fits r" and f: "f_data (p_rfile p) = ng_packet sw r @ rest"
  obtain t len d where tld: "r = (t, len, d)" by (cases r)
  have "unat (of_nat (length d) :: u32) = length d" using r by (simp add: ng_fits_def tld)
  then have "take (unat (h_caplen (fst (ng_out tsresol r)))) (drop 28 (ng_seen sw r)) = snd (ng_out tsresol r)"
    by (simp add: ng_out_def tld ng_seen_def epb_rest_def)
  then show "\<exists>off q. pcap_ng_next_packet p = (Packet (fst (ng_out tsresol r)) off, q) \<and> ng_ready sw lt tsresol q \<and>
      p_fcode q = p_fcode p \<and> p_break_loop q = p_break_loop p \<and> f_data (p_rfile q) = rest \<and> p_buffer q = ng_seen sw r \<and>
      take (unat (h_caplen (fst (ng_out tsresol r)))) (drop off (ng_seen sw r)) = snd (ng_out tsresol r)"
    using ng_packet_reads [OF p r f] by blast
next
  fix p assume p: "ng_ready sw lt tsresol p" and e: "f_data (p_rfile p) = []"
  then have "read_block p = (BlockEof, p\<lparr>p_rfile := (p_rfile p)\<lparr>f_data := []\<rparr>\<rparr>)"
    by (simp add: read_block_def read_bytes_def fread_def ng_ready_def)
  then show "fst (pcap_ng_next_packet p) = Eof" by (simp add: pcap_ng_next_packet.simps [of p])
qed

section \<open>Opening a file\<close>

lemma interface_reads:
  assumes "unat (p_bufsize p) \<le> p_room p" and "p_swapped p = sw" and "\<not> f_err (p_rfile p)"
    and data: "f_data (p_rfile p) = ng_interface sw lt snaplen res @ rest"
  shows "\<exists>q. read_block p = (Block \<lparr>c_data = 8, c_remaining = 20, c_type = BT_IDB\<rparr>, q) \<and>
    p_buffer q = bytes 4 BT_IDB @ bytes 4 (32 :: u32) @ drop 8 (ng_interface sw lt snaplen res) \<and>
    (\<exists>n b. q = p\<lparr>p_rfile := (p_rfile p)\<lparr>f_data := rest\<rparr>, p_room := n, p_buffer := b\<rparr> \<and> unat (p_bufsize p) \<le> n \<and> 32 \<le> n)"
proof -
  let ?i = "ng_interface sw lt snaplen res"
  let ?b = "drop 8 ?i"
  have l: "length ?i = 32" by (simp add: ng_interface_def)
  have i: "?i = hb sw 4 BT_IDB @ hb sw 4 (32 :: u32) @ ?b" by (simp add: ng_interface_def)
  have hd: "read_bytes 8 False (p_rfile p) = (Inr (hb sw 4 BT_IDB @ hb sw 4 (32 :: u32)), (p_rfile p)\<lparr>f_data := ?b @ rest\<rparr>)"
    unfolding read_bytes_def fread_def data by (subst (1 2) i) simp
  have ty: "(if sw then SWAPLONG else id) (get32 0 (hb sw 4 BT_IDB @ hb sw 4 (32 :: u32))) = BT_IDB"
    "(if sw then SWAPLONG else id) (get32 4 (hb sw 4 BT_IDB @ hb sw 4 (32 :: u32))) = 32" by (simp_all add: get32_def)
  let ?p = "p\<lparr>p_rfile := (p_rfile p)\<lparr>f_data := ?b @ rest\<rparr>\<rparr>"
  have rb: "read_block p = block_rest ?p BT_IDB 32"
    by (simp only: read_block_def hd prod.case sum.case assms(2) ty)
  have b: "read_bytes (unat (32 :: u32) - 8) True ((p_rfile p)\<lparr>f_data := ?b @ rest\<rparr>) = (Inr ?b, (p_rfile p)\<lparr>f_data := rest\<rparr>)"
    by (simp add: read_bytes_def fread_def l)
  define p2 where "p2 = (if p_bufsize ?p < 32 then ?p\<lparr>p_room := unat (32 :: u32), p_buffer := take (unat (32 :: u32)) (p_buffer ?p)\<rparr> else ?p)"
  have room: "32 \<le> p_room p2" "unat (p_bufsize p) \<le> p_room p2"
    using assms(1) by (auto simp: p2_def u32_less_iff)
  have p2: "p2 = ?p\<lparr>p_room := p_room p2, p_buffer := p_buffer p2\<rparr>" by (simp add: p2_def)
  let ?q = "p2\<lparr>p_rfile := (p_rfile p)\<lparr>f_data := rest\<rparr>, p_buffer := bytes 4 BT_IDB @ bytes 4 (32 :: u32) @ ?b\<rparr>"
  have "block_rest ?p BT_IDB 32 = (Block \<lparr>c_data = 8, c_remaining = unat (32 :: u32) - 8 - 4, c_type = BT_IDB\<rparr>, ?q)"
    using room(1) b unfolding block_rest_def p2_def [symmetric] Let_def by simp
  moreover have "?q = p\<lparr>p_rfile := (p_rfile p)\<lparr>f_data := rest\<rparr>, p_room := p_room p2,
      p_buffer := bytes 4 BT_IDB @ bytes 4 (32 :: u32) @ ?b\<rparr>"
    by (subst (1) p2) simp
  ultimately show ?thesis using rb room by auto
qed

lemma interface_fields:
  assumes "p_buffer q = bytes 4 BT_IDB @ bytes 4 (32 :: u32) @ drop 8 (ng_interface sw lt snaplen res)" and "p_swapped q = sw"
  shows "ng16 q 8 = lt" "ng32 q 12 = snaplen" "ng16 q 16 = IF_TSRESOL" "ng16 q 18 = 1" "p_buffer q ! 20 = res"
    "ng16 q 24 = OPT_ENDOFOPT" "ng16 q 26 = 0"
  by (simp_all add: ng16_def ng32_def assms get16_def get32_def ng_interface_def nth_append)

lemma options_read:
  assumes "p_buffer q = bytes 4 BT_IDB @ bytes 4 (32 :: u32) @ drop 8 (ng_interface sw lt snaplen res)" and "p_swapped q = sw"
    and "tsresol_value res = Inr tsresol"
  shows "process_idb_options q \<lparr>c_data = 16, c_remaining = 12, c_type = BT_IDB\<rparr> r0 o0 = Inr (tsresol, o0)"
  unfolding process_idb_options_def
  by (simp add: idb_options.simps get_option_def get_from_block_data_def interface_fields [OF assms(1,2)] assms(3) Let_def)

lemma first_interface_reads:
  assumes "unat (p_bufsize p) \<le> p_room p" and "p_swapped p = sw" and "\<not> f_err (p_rfile p)"
    and data: "f_data (p_rfile p) = ng_interface sw lt snaplen res @ rest" and t: "tsresol_value res = Inr tsresol"
    and "p_tsoffset p = 0" and "uint lt \<notin> {DLT_USB_LINUX, DLT_USB_LINUX_MMAPPED}"
  shows "\<exists>q. first_interface p = Inr q \<and> ng_ready sw (uint lt) tsresol q \<and> p_snapshot q = snaplen \<and>
    p_format q = Pcap_ng \<and> f_data (p_rfile q) = rest \<and> p_fcode q = p_fcode p \<and> p_break_loop q = p_break_loop p"
proof -
  let ?c = "\<lparr>c_data = 8, c_remaining = 20, c_type = BT_IDB\<rparr> :: block_cursor"
  obtain q n b where q: "read_block p = (Block ?c, q)"
    "p_buffer q = bytes 4 BT_IDB @ bytes 4 (32 :: u32) @ drop 8 (ng_interface sw lt snaplen res)"
    "q = p\<lparr>p_rfile := (p_rfile p)\<lparr>f_data := rest\<rparr>, p_room := n, p_buffer := b\<rparr>" "unat (p_bufsize p) \<le> n" "32 \<le> n"
    using interface_reads [OF assms(1-3) data] by blast
  have sw: "p_swapped q = sw" using q(3) assms(2) by simp
  let ?q = "q\<lparr>p_ifcount := p_ifcount q + 1\<rparr>"
  have o: "process_idb_options ?q \<lparr>c_data = 16, c_remaining = 12, c_type = BT_IDB\<rparr> (p_tsresol q) (p_tsoffset q) = Inr (tsresol, p_tsoffset q)"
    using q(2) sw by (intro options_read [OF _ _ t]) simp_all
  note f = interface_fields [OF q(2) sw]
  have nz: "tsresol \<noteq> 0" "scale_of tsresol \<noteq> 0" using tsresol_value_nz [OF t] scale_of_nz by auto
  have "first_interface p = Inr (?q\<lparr>p_tsresol := tsresol, p_tsoffset := p_tsoffset q, p_tsscale := scale_of tsresol, p_tzoff := 0,
      p_snapshot := snaplen, p_linktype := uint lt, p_linktype_ext := 0, p_format := Pcap_ng\<rparr>)"
    using o by (simp add: first_interface.simps [of p] q(1) get_from_block_data_def f Let_def)
  moreover have "length b = 32" using arg_cong [OF q(2), of length] q(3) by (simp add: ng_interface_def)
  ultimately show ?thesis using q(3-5) assms(2,3,6,7) nz by (auto simp: ng_ready_def ng_inv_def)
qed

lemma shb_swapped: "SWAPLONG BT_SHB = BT_SHB" and bom_swapped: "SWAPLONG BYTE_ORDER_MAGIC = 0x4D3C2B1A" "SWAPLONG 0x4D3C2B1A = BYTE_ORDER_MAGIC"
  by (simp_all add: SWAPLONG_def)

lemma word_host_bytes: "word_at (hb sw 4 (w :: u32)) = (if sw then SWAPLONG w else w)"
  by (simp add: host_bytes_def SWAPLONG_eq)

lemma no_pcap_magic: "pcap_check_header p BT_SHB fp = Inr None"
  by (simp add: pcap_check_header_def shb_swapped Let_def)

lemma ng_open_reads:
  assumes "tsresol_value res = Inr tsresol" and "uint lt \<notin> {DLT_USB_LINUX, DLT_USB_LINUX_MMAPPED}"
  shows "\<exists>q. pcap_fopen_offline \<lparr>f_data = ng_section sw @ ng_interface sw lt snaplen res @ rest, f_err = False\<rparr> = Inr q \<and>
    ng_ready sw (uint lt) tsresol q \<and> p_snapshot q = snaplen \<and> p_format q = Pcap_ng \<and> f_data (p_rfile q) = rest \<and>
    p_fcode q = None \<and> \<not> p_break_loop q"
proof -
  let ?r = "ng_interface sw lt snaplen res @ rest"
  let ?s4 = "hb sw 2 (1 :: u16) @ hb sw 2 (0 :: u16) @ hb sw 8 (- 1 :: u64) @ hb sw 4 (28 :: u32)"
  let ?f = "\<lambda>d. \<lparr>f_data = d, f_err = False\<rparr>"
  let ?fp = "?f (hb sw 4 (28 :: u32) @ hb sw 4 BYTE_ORDER_MAGIC @ ?s4 @ ?r)"
  have magic: "fread 4 (?f (ng_section sw @ ?r)) = (hb sw 4 BT_SHB, ?fp)" "get32 0 (hb sw 4 BT_SHB) = BT_SHB"
    by (simp_all add: fread_def ng_section_def get32_def word_host_bytes shb_swapped)
  define p0 where "p0 = (if sw then (new_handle ?fp)\<lparr>p_swapped := True\<rparr> else new_handle ?fp)"
  have p0: "p_swapped p0 = sw" "p_fcode p0 = None" "\<not> p_break_loop p0" by (auto simp: p0_def new_handle_def)
  have c: "pcap_ng_check_header (new_handle ?fp) BT_SHB ?fp = map_sum id Some (open_section p0 BT_SHB 28 (?f (?s4 @ ?r)))"
    by (simp add: pcap_ng_check_header_def fread_def get32_def word_host_bytes bom_swapped p0_def)
  have rb: "read_bytes (unat (28 :: u32) - 12) True (?f (?s4 @ ?r)) = (Inr ?s4, ?f ?r)"
    by (simp add: read_bytes_def fread_def)
  define p1 where "p1 = p0\<lparr>p_rfile := ?f ?r, p_bufsize := 2048, p_room := unat (2048 :: u32),
      p_buffer := bytes 4 BT_SHB @ bytes 4 (28 :: u32) @ bytes 4 BYTE_ORDER_MAGIC @ ?s4\<rparr>"
  have v: "ng16 p1 12 = 1" "ng16 p1 14 = 0" using p0(1) by (simp_all add: ng16_def p1_def get16_def)
  let ?p2 = "p1\<lparr>p_version_major := 1, p_version_minor := 0, p_tsresol := 1000000, p_tsscale := 1, p_tsoffset := 0\<rparr>"
  have s: "open_section p0 BT_SHB 28 (?f (?s4 @ ?r)) = first_interface ?p2"
    using v unfolding open_section_def Let_def rb p1_def by simp
  obtain q where "first_interface ?p2 = Inr q" "ng_ready sw (uint lt) tsresol q" "p_snapshot q = snaplen"
      "p_format q = Pcap_ng" "f_data (p_rfile q) = rest" "p_fcode q = None" "\<not> p_break_loop q"
    using first_interface_reads [of ?p2 sw lt snaplen res rest tsresol] assms p0 by (auto simp: p1_def)
  then show ?thesis using magic c s no_pcap_magic by (auto simp: pcap_fopen_offline_def Let_def ng_ready_def ng_inv_def)
qed

text \<open>The time of a packet in a capture whose resolution is ten to the minus \<open>k\<close> seconds.\<close>

definition stamped :: "nat \<Rightarrow> ng_rec \<Rightarrow> pkthdr \<times> u8 list" where
  "stamped k r = (case r of (t, len, d) \<Rightarrow>
     (\<lparr>h_sec = of_nat (unat t div 10 ^ k), h_usec = of_nat (unat t mod 10 ^ k * 1000000 div 10 ^ k),
       h_caplen = of_nat (length d), h_len = len\<rparr>, d))"

lemma ucast_u64: "(ucast (t :: u64) :: u32) = of_nat (unat t)"
  by simp

lemma scale_decimal:
  assumes "k \<le> 9"
  shows "scale_of (10 ^ k) = (if 6 < k then 10 ^ (k - 6) else 10 ^ (6 - k))" "(10 ^ k :: u32) > 1000000 \<longleftrightarrow> 6 < k"
    "unat (ucast (10 ^ k :: u32) :: u64) = 10 ^ k" 
    "unat (ucast (scale_of (10 ^ k)) :: u64) = (if 6 < k then 10 ^ (k - 6) else 10 ^ (6 - k))"
proof -
  have k: "k \<in> {0,1,2,3,4,5,6,7,8,9}" using assms by auto
  show s: "scale_of (10 ^ k) = (if 6 < k then 10 ^ (k - 6) else 10 ^ (6 - k))" "(10 ^ k :: u32) > 1000000 \<longleftrightarrow> 6 < k"
    "unat (ucast (10 ^ k :: u32) :: u64) = 10 ^ k" 
    using k by (auto simp: scale_of_def)
  show "unat (ucast (scale_of (10 ^ k)) :: u64) = (if 6 < k then 10 ^ (k - 6) else 10 ^ (6 - k))"
    unfolding s(1) using k by auto
qed

lemma micros:
  assumes "k \<le> 9"
  shows "(if 6 < k then x div 10 ^ (k - 6) else x * 10 ^ (6 - k)) = x * 1000000 div (10 :: nat) ^ k"
proof -
  have "k \<in> {0,1,2,3,4,5,6,7,8,9}" using assms by auto
  then show ?thesis by auto
qed

lemma out_stamped:
  assumes "k \<le> 9"
  shows "ng_out (10 ^ k) r = stamped k r"
proof -
  obtain t len d where r: "r = (t, len, d)" by (cases r)
  let ?x = "unat t mod 10 ^ k"
  have "?x < 10 ^ k" by simp
  have "?x * 10 ^ (6 - k) < 2 ^ 64" if "k \<le> 6"
  proof -
    have "?x * 10 ^ (6 - k) < 10 ^ k * 10 ^ (6 - k)" by simp
    also have "\<dots> = 10 ^ 6" using that by (simp flip: power_add)
    finally show ?thesis by simp
  qed
  then have m: "unat (t mod ucast (10 ^ k :: u32) * ucast (scale_of (10 ^ k))) = ?x * 10 ^ (6 - k)" if "k \<le> 6"
    using that by (subst unat_mult_lem [THEN iffD1]) (simp_all add: unat_mod scale_decimal(3,4) [OF assms])
  have d: "unat (t mod ucast (10 ^ k :: u32) div ucast (scale_of (10 ^ k))) = ?x div 10 ^ (k - 6)" if "6 < k"
    using that by (simp add: unat_mod unat_div scale_decimal(3,4) [OF assms])
  have "h_sec (fst (ng_out (10 ^ k) r)) = of_nat (unat t div 10 ^ k)"
    unfolding ng_out_def r ucast_u64 by (simp only: prod.case fst_conv pkthdr.simps unat_div scale_decimal [OF assms])
  moreover have "h_usec (fst (ng_out (10 ^ k) r)) = of_nat (?x * 1000000 div 10 ^ k)"
    unfolding ng_out_def r ucast_u64 micros [OF assms, symmetric]
    using m d by (simp only: prod.case fst_conv pkthdr.simps scale_decimal(2) [OF assms] not_less split: if_split) simp
  ultimately show ?thesis by (simp add: stamped_def ng_out_def r)
qed

lemma decimal_resolution:
  assumes "unat res \<le> 9"
  shows "tsresol_value res = Inr (10 ^ unat res)"
proof -
  have "unat res = n \<longleftrightarrow> res = of_nat n" if "n \<le> 9" for n
    using that by (auto simp: unat_of_nat)
  moreover have "unat res \<in> {0,1,2,3,4,5,6,7,8,9}" using assms by auto
  ultimately have "res \<in> {0,1,2,3,4,5,6,7,8,9}" by auto
  then show ?thesis by (auto simp: tsresol_value_def)
qed

section \<open>What reading such a file gives\<close>

lemma ng_read:
  assumes "ng_ready sw lt tsresol q" and "p_format q = Pcap_ng" and "f_data (p_rfile q) = concat (map (ng_packet sw) rs)"
    and "\<not> p_break_loop q" and "\<forall>r \<in> set rs. ng_fits r \<and> ng_records.says tsresol sw (p_fcode q) mem v r"
  shows "\<exists>q'. pcap_offline_read mem 0 collect q [] = Some (Returned 0 (map (ng_out tsresol) (filter (\<lambda>r. v r \<noteq> 0) rs)) q')"
  using ng_records.read_records [of sw lt tsresol q rs mem v] assms
  by (simp add: pcap_offline_read_def next_packet_op_def)

text \<open>C13: capture files of the new format read back. A file with a section in either byte order, one
  interface, of no USB link type, that counts time in units of ten to the minus \<open>k\<close> seconds, \<open>k\<close> up to 9, with no offset, and any
  enhanced packet blocks opens with the link type and snapshot length of the interface, and the callback gets every packet with
  its lengths, its data, and its time in seconds and microseconds, rounded down.\<close>

theorem ng_file_reads:
  assumes "unat res \<le> 9" and "uint lt \<notin> {DLT_USB_LINUX, DLT_USB_LINUX_MMAPPED}" and "\<forall>r \<in> set rs. ng_fits r"
  shows "\<exists>q q'. pcap_fopen_offline
       \<lparr>f_data = ng_section sw @ ng_interface sw lt snaplen res @ concat (map (ng_packet sw) rs), f_err = False\<rparr> = Inr q \<and>
     p_linktype q = uint lt \<and> p_snapshot q = snaplen \<and>
     pcap_offline_read mem 0 collect q [] = Some (Returned 0 (map (stamped (unat res)) rs) q')"
proof -
  obtain q where q: "pcap_fopen_offline
       \<lparr>f_data = ng_section sw @ ng_interface sw lt snaplen res @ concat (map (ng_packet sw) rs), f_err = False\<rparr> = Inr q"
      "ng_ready sw (uint lt) (10 ^ unat res) q" "p_snapshot q = snaplen" "p_format q = Pcap_ng"
      "f_data (p_rfile q) = concat (map (ng_packet sw) rs)" "p_fcode q = None" "\<not> p_break_loop q"
    using ng_open_reads [OF decimal_resolution [OF assms(1)] assms(2)] by blast
  have "\<exists>q'. pcap_offline_read mem 0 collect q [] =
      Some (Returned 0 (map (ng_out (10 ^ unat res)) (filter (\<lambda>r. (- 1 :: u32) \<noteq> 0) rs)) q')"
    using assms(3) q(6) by (intro ng_read [OF q(2,4,5,7)]) (simp add: ng_records.says_def bpf_filter_def)
  then show ?thesis using q(1-3) out_stamped [OF assms(1)] by (auto simp: ng_ready_def)
qed

text \<open>A big-endian host, nanoseconds: 2000 s and 7 ns, then 999999999 ns.\<close>

theorem ng_file_reads_witness:
  "\<exists>q q'. pcap_fopen_offline \<lparr>f_data = ng_section True @ ng_interface True 1 96 9 @
        concat (map (ng_packet True) [(2000000000007, 60, [1, 2, 3]), (999999999, 2, [4, 5])]), f_err = False\<rparr> = Inr q \<and>
     p_linktype q = 1 \<and>
     pcap_offline_read [] 0 collect q [] = Some (Returned 0
       [(\<lparr>h_sec = 2000, h_usec = 0, h_caplen = 3, h_len = 60\<rparr>, [1, 2, 3]),
        (\<lparr>h_sec = 0, h_usec = 999999, h_caplen = 2, h_len = 2\<rparr>, [4, 5])] q')"
  using ng_file_reads [of 9 1 "[(2000000000007, 60, [1, 2, 3]), (999999999, 2, [4, 5])]" True 96 "[]"]
  by (auto simp: ng_fits_def stamped_def)

section \<open>Resolutions the code does not check\<close>

text \<open>\<open>if_tsresol\<close> 10: ten to the 10 is taken modulo 2 to the 32, and accepted. A resolution of two to the 20
  is rounded to one millionth, so there are more than a million microseconds in a second.\<close>

lemma resolution_wraps: "tsresol_value 10 = Inr 1410065408"
  by (simp add: tsresol_value_def)

lemma binary_resolution: "tsresol_value 148 = Inr 1048576" "h_usec (fst (ng_out 1048576 (1048575, len, d))) = 1048575"
  by (simp_all add: tsresol_value_def ng_out_def scale_of_def)

end
