(* ===== verification/Sf_Filtered.thy ===== *)
theory Sf_Filtered
  imports Sf_Files Sf_Ng_Files Gen_Correct
begin

text \<open>
  From the text of a filter to the packets of a file: the filter is compiled for the capture, with its link
  type and byte order, and set; \<open>pcap_offline_read\<close> hands over what it accepts.
\<close>

definition packet_of :: "packet_rec \<Rightarrow> packet" where
  "packet_of r = (case r of (x, h, d) \<Rightarrow> \<lparr>pk_data = d, pk_wirelen = h_len h, pk_buflen = h_caplen h\<rparr>)"

text \<open>The verdict of a filter on the packet, when it does not read outside of it.\<close>

definition accepts :: "pred \<Rightarrow> packet_rec \<Rightarrow> bool" where
  "accepts P r \<longleftrightarrow> P (packet_of r) = Next True"

text \<open>C9: a filter applied to a capture file in the format of \<^verbatim>\<open>sf-pcap.c\<close> gives exactly the packets it means. Open a file of any
  host, compile - without optimisation - a filter expression without bit tests on a byte for its link type, of fixed header length, and byte
  order, set it and read: the compilation succeeds, and the packets handed over are, in order, those on which the meaning of the
  expression is true; those too short for it are not. On every packet the meaning must be an answer or the end of the packet, not a fault.\<close>

theorem filtered_capture:
  assumes "dialect_ok a" and "dl_patched a \<and> dlt_of lt = 1 \<longrightarrow> sint caplimit \<le> 2147483633"
    and "\<forall>r \<in> set rs. packet_fits a (dlt_of lt) (opened_bufsize a (dlt_of lt) caplimit) r"
    and "no_bit_test e" and "init_linktype (dlt_of lt) (dl_other a) (init_regs L0) = Some L" and "\<not> off_macpl_is_variable L"
    and "snaplen \<noteq> 0" and "filter_size snaplen netmask e L < 4294967296" and "length mem = BPF_MEMWORDS"
    and P: "fexp_meaning netmask e L = Inr P" and verdicts: "\<forall>r \<in> set rs. P (packet_of r) = Ret 0 \<or> (\<exists>b. P (packet_of r) = Next b)"
  shows "\<exists>q f q1 q'. pcap_fopen_offline
       \<lparr>f_data = file_header a lt thiszone caplimit @ file_packets a (dlt_of lt) rs, f_err = False\<rparr> = Inr q \<and>
     pcap_compile (p_linktype q) (p_swapped q) snaplen netmask False (Some e) L0 = Inr f \<and>
     install_bpf_program q f = (q1, 0) \<and>
     pcap_offline_read mem 0 collect q1 [] = Some (Returned 0 (map snd (filter (accepts P) rs)) q')"
proof -
  let ?f = "\<lparr>f_data = file_header a lt thiszone caplimit @ file_packets a (dlt_of lt) rs, f_err = False\<rparr>"
  obtain q where q: "pcap_fopen_offline ?f = Inr q" "reader a (dlt_of lt) q"
      "p_rfile q = ?f\<lparr>f_data := file_packets a (dlt_of lt) rs\<rparr>"
      "p_bufsize q = opened_bufsize a (dlt_of lt) caplimit" "\<not> p_break_loop q"
    using open_reads [of ?f a lt thiszone caplimit "file_packets a (dlt_of lt) rs"] assms(2) by auto
  obtain f where f: "pcap_compile (dlt_of lt) (dl_other a) snaplen netmask False (Some e) L0 = Inr f"
      "bpf_validate f" "\<And>pk. bpf_filter (Some f) mem pk = Some (filter_result snaplen (P pk))"
    using pcap_compile_meaning [OF assms(4,5,7,6,8)] assms(9) unfolding P sum.case by blast
  let ?v = "\<lambda>r. if accepts P r then snaplen else 0"
  have v: "filter_says (Some f) mem ?v r" if "r \<in> set rs" for r
  proof -
    obtain x h d where "r = (x, h, d)" by (cases r)
    then show ?thesis using f(3) [of "packet_of r"] verdicts that
      by (auto simp: filter_says_def packet_of_def accepts_def filter_result_def)
  qed
  have "\<exists>q'. pcap_offline_read mem 0 collect (q\<lparr>p_fcode := Some f\<rparr>) [] = Some (Returned 0 (passed ?v rs) q')"
    using q assms(3) v by (intro read_all [OF assms(1), of "dlt_of lt"]) (auto simp: reader_def)
  moreover have "passed ?v rs = map snd (filter (accepts P) rs)" using assms(7) by (simp add: passed_def)
  ultimately show ?thesis using q(1,2) f(1,2) by (auto simp: reader_def install_bpf_program_def)
qed

text \<open>A capture of an ARP request and an IPv4 packet; the filter is \<open>arp\<close>.\<close>

abbreviation le_host :: dialect where
  "le_host \<equiv> \<lparr>dl_other = False, dl_minor = 4, dl_len_first = False, dl_patched = False\<rparr>"

definition frame :: "u8 \<Rightarrow> packet_rec" where
  "frame ty = (replicate 8 0, \<lparr>h_sec = 1, h_usec = 1, h_caplen = 16, h_len = 60\<rparr>,
     [0, 0, 0, 0, 0, 0, 0, 0, 0, 0, 0, 0, 8, ty, 7, 7])"

lemma frame_arp: "is_eq (eth blank) OR_LINK 12 SzH 0xffffffff 0x806 (packet_of (frame ty)) = Next (ty = 6)"
proof -
  have d: "pk_data (packet_of (frame ty)) = [0, 0, 0, 0, 0, 0, 0, 0, 0, 0, 0, 0, 8, ty, 7, 7]"
    by (simp add: packet_of_def frame_def)
  have "whole (packet_of (frame ty))" by (simp add: packet_of_def frame_def whole_def)
  from eth_link [OF this, of 12 SzH] have
    "field (eth blank) OR_LINK 12 SzH (packet_of (frame ty)) = Next (be16 8 ty)"
    by (simp add: d)
  then have "is_eq (eth blank) OR_LINK 12 SzH 0xffffffff 0x806 (packet_of (frame ty)) = Next (be16 8 ty = 0x806)"
    using cmp_Next(1) [of "eth blank" OR_LINK 12 SzH "packet_of (frame ty)" "be16 8 ty" "0xffffffff" "0x806"] by simp
  moreover have "be16 8 ty = 0x806 \<longleftrightarrow> ty = 6"
    using be16_eq [of 8 ty 8 6] by (simp add: be16_def [of 8 6])
  ultimately show ?thesis by (simp only:)
qed

lemma frame_fits: "packet_fits le_host 1 (opened_bufsize le_host 1 68) (frame ty)"
  by (simp add: packet_fits_def frame_def opened_bufsize_def opened_snapshot_def)

theorem filtered_capture_witness:
  "\<exists>q f q1 q'. pcap_fopen_offline
       \<lparr>f_data = file_header le_host 1 0 68 @ file_packets le_host (dlt_of 1) [frame 6, frame 0], f_err = False\<rparr> = Inr q \<and>
     pcap_compile (p_linktype q) (p_swapped q) 96 0 False (Some (Prim (Abbrev Q_ARP))) blank = Inr f \<and>
     install_bpf_program q f = (q1, 0) \<and>
     pcap_offline_read (replicate BPF_MEMWORDS 0) 0 collect q1 [] = Some (Returned 0 [snd (frame 6)] q')"
proof -
  have lt: "dlt_of 1 = 1" by (simp add: LT_LINKTYPE_def linktype_to_dlt_def link_map_def)
  have "filter (accepts (type_is (eth blank) 0x806)) [frame 6, frame 0] = [frame 6]"
    by (simp add: accepts_def frame_arp del: full_mask)
  moreover have "\<exists>q f q1 q'. pcap_fopen_offline
       \<lparr>f_data = file_header le_host 1 0 68 @ file_packets le_host (dlt_of 1) [frame 6, frame 0], f_err = False\<rparr> = Inr q \<and>
     pcap_compile (p_linktype q) (p_swapped q) 96 0 False (Some (Prim (Abbrev Q_ARP))) blank = Inr f \<and>
     install_bpf_program q f = (q1, 0) \<and>
     pcap_offline_read (replicate BPF_MEMWORDS 0) 0 collect q1 [] =
       Some (Returned 0 (map snd (filter (accepts (type_is (eth blank) 0x806)) [frame 6, frame 0])) q')"
    by (rule filtered_capture [OF _ _ _ _ _ _ _ size_arp _ arp_meaning])
      (use frame_fits frame_arp init_blank in \<open>simp_all add: lt dialect_ok_def ex_bool_eq del: full_mask replicate.simps\<close>)
  ultimately show ?thesis by simp
qed

section \<open>The filter and the new format\<close>

text \<open>\<open>pcap_offline_read\<close> runs the filter on \<open>p->buffer\<close>, which for the new format holds the whole block:
  what the filter takes for the type of the frame are two bytes of the time stamp.\<close>

lemma seen_type:
  assumes "14 \<le> length d" and "length d \<le> 16777000"
  shows "field (eth L) OR_LINK 12 SzH \<lparr>pk_data = ng_seen False (t, len, d), pk_wirelen = len, pk_buflen = of_nat (length d)\<rparr> =
    Next (be16 (ucast (drop_bit 32 t)) (ucast (drop_bit 40 t)))"
proof -
  have n: "unat (of_nat (length d) :: u32) = length d" using assms(2) by (intro unat_u32_of_nat) simp
  have "\<not> (14 :: u32) > of_nat (length d)" using assms(1) by (simp add: u32_less_iff n)
  moreover have "ng_seen False (t, len, d) ! 12 = ucast (drop_bit 32 t)" "ng_seen False (t, len, d) ! 13 = ucast (drop_bit 40 t)"
    by (simp_all add: ng_seen_def epb_rest_def nth_append host_bytes_def numeral_eq_Suc)
      (rule bit_word_eqI, simp add: bit_simps)+
  moreover have "13 < length (ng_seen False (t, len, d))" using assms(1) by (simp add: ng_seen_def epb_rest_def)
  ultimately show ?thesis by (simp add: fetch_def get_be16_def get_u8_def)
qed

text \<open>C15: a filter on a capture of the new format is not run on the packets. With the filter \<open>arp\<close>
  compiled for the capture and set, \<open>pcap_offline_read\<close> hands over the packets whose time stamp has 8 and 6
  as its fifth and sixth byte, whatever the packets are.\<close>

theorem ng_filter_sees_time:
  assumes "unat res \<le> 9" and "\<forall>(t, len, d) \<in> set rs. 14 \<le> length d \<and> length d \<le> 16777000" and "length mem = BPF_MEMWORDS"
  shows "\<exists>q f q1 q'. pcap_fopen_offline
       \<lparr>f_data = ng_section False @ ng_interface False 1 snaplen res @ concat (map (ng_packet False) rs), f_err = False\<rparr> = Inr q \<and>
     pcap_compile (p_linktype q) (p_swapped q) 96 0 False (Some (Prim (Abbrev Q_ARP))) blank = Inr f \<and>
     install_bpf_program q f = (q1, 0) \<and>
     pcap_offline_read mem 0 collect q1 [] = Some (Returned 0 (map (stamped (unat res))
       (filter (\<lambda>(t, len, d). (ucast (drop_bit 32 t) :: u8) = 8 \<and> (ucast (drop_bit 40 t) :: u8) = 6) rs)) q')"
proof -
  let ?arp = "type_is (eth blank) 0x806"
  let ?lucky = "\<lambda>(t, len, d). (ucast (drop_bit 32 t) :: u8) = 8 \<and> (ucast (drop_bit 40 t) :: u8) = 6"
  let ?v = "\<lambda>r. if ?lucky r then 96 else 0 :: u32"
  obtain q where q: "pcap_fopen_offline
       \<lparr>f_data = ng_section False @ ng_interface False 1 snaplen res @ concat (map (ng_packet False) rs), f_err = False\<rparr> = Inr q"
      "ng_ready False 1 (10 ^ unat res) q" "p_format q = Pcap_ng"
      "f_data (p_rfile q) = concat (map (ng_packet False) rs)" "\<not> p_break_loop q"
    using ng_open_reads [OF decimal_resolution [OF assms(1)], of 1 False snaplen "concat (map (ng_packet False) rs)"] by auto
  obtain f where f: "pcap_compile DLT_EN10MB False 96 0 False (Some (Prim (Abbrev Q_ARP))) blank = Inr f"
      "bpf_validate f" "\<And>pk. bpf_filter (Some f) mem pk = Some (filter_result 96 (?arp pk))"
    using pcap_compile_meaning [OF _ init_blank _ _ size_arp] assms(3) unfolding arp_meaning by auto
  have "ng_records.says (10 ^ unat res) False (Some f) mem ?v (t, len, d)" if "(t, len, d) \<in> set rs" for t len d
  proof -
    have l: "14 \<le> length d" "length d \<le> 16777000" using assms(2) that by auto
    let ?pk = "\<lparr>pk_data = ng_seen False (t, len, d), pk_wirelen = len, pk_buflen = of_nat (length d)\<rparr>"
    have "?arp ?pk = Next (be16 (ucast (drop_bit 32 t)) (ucast (drop_bit 40 t)) = 0x806)"
      using cmp_Next(1) [of "eth blank" OR_LINK 12 SzH ?pk, OF seen_type [OF l], of "0xffffffff" "0x806"] by simp
    also have "(be16 (ucast (drop_bit 32 t)) (ucast (drop_bit 40 t)) = 0x806) = ?lucky (t, len, d)"
      using be16_eq [of "ucast (drop_bit 32 t)" "ucast (drop_bit 40 t)" 8 6] by (simp add: be16_def [of 8 6])
    finally show ?thesis using f(3) [of ?pk] by (simp add: ng_records.says_def ng_out_def filter_result_def)
  qed
  then have "\<exists>q'. pcap_offline_read mem 0 collect (q\<lparr>p_fcode := Some f\<rparr>) [] =
      Some (Returned 0 (map (ng_out (10 ^ unat res)) (filter (\<lambda>r. ?v r \<noteq> 0) rs)) q')"
    using q assms(2) by (intro ng_read [where v = ?v]) (auto simp: ng_ready_def ng_inv_def ng_fits_def)
  moreover have "(\<lambda>r. ?v r \<noteq> 0) = ?lucky" by auto
  ultimately show ?thesis using q(1,2) f(1,2) out_stamped [OF assms(1)] by (auto simp: ng_ready_def install_bpf_program_def)
qed

text \<open>An ARP frame at time 1 s is not handed over, an IPv4 frame at 0x60800000000 is.\<close>

theorem ng_filter_sees_time_witness:
  "\<exists>q f q1 q'. pcap_fopen_offline
       \<lparr>f_data = ng_section False @ ng_interface False 1 96 0 @ concat (map (ng_packet False)
          [(1, 16, snd (snd (frame 6))), (0x60800000000, 16, snd (snd (frame 0)))]), f_err = False\<rparr> = Inr q \<and>
     pcap_compile (p_linktype q) (p_swapped q) 96 0 False (Some (Prim (Abbrev Q_ARP))) blank = Inr f \<and>
     install_bpf_program q f = (q1, 0) \<and>
     pcap_offline_read (replicate BPF_MEMWORDS 0) 0 collect q1 [] =
       Some (Returned 0 [stamped 0 (0x60800000000, 16, snd (snd (frame 0)))] q')"
  using ng_filter_sees_time [of 0 "[(1, 16, snd (snd (frame 6))), (0x60800000000, 16, snd (snd (frame 0)))]"
      "replicate BPF_MEMWORDS 0" 96]
  by (simp add: frame_def)

end
