(* ===== verification/Aro_Session.thy ===== *)
theory Aro_Session
  imports Main
begin

text \<open>
  How a capture is stopped: the threads of the program and the variable \<open>exitFlag\<close> they share. The main
  thread captures (\<open>tcpdumpstartcapture\<close> of \<^verbatim>\<open>tcpdump.c\<close>, \<open>pcap_loop\<close> of \<^verbatim>\<open>pcap.c\<close>, the wait
  for packets in \<^verbatim>\<open>pcap-linux.c\<close>; packets may be there without a wait, and then \<open>exitFlag\<close> is not looked at), the server waits for the message to stop
  (\<^verbatim>\<open>socket_server.c\<close>), the monitor logs user input (\<^verbatim>\<open>user_input.c\<close>). Nothing orders their
  accesses to \<open>exitFlag\<close>, so each read and each write of it is a step of its own.

  A thread is where it stands in its code; what it waits for (a packet, a connection, an input event)
  may come or not. \<open>exit\<close> ends all threads. Two things are fixed for a session and not decided by this code: which
  of the two readers \<open>pcap_activate\<close> has installed (\<open>s_mmap\<close>: the one with the memory-mapped ring, which waits for
  packets at most a second; else the one that blocks in \<open>recvfrom\<close>), and what \<open>pthread_join\<close> does with a handle that was
  never set (\<open>s_joins\<close>: it returns at once; else it hangs or crashes). The handle of the CPU monitor is never set.
  A read of the ring finds finitely many packets.
\<close>

section \<open>The threads\<close>

text \<open>The main thread. The argument of \<open>MPacket\<close> is the number of packets of a read still to be handed to
  \<open>dump_packet\<close>.\<close>

datatype main_pc =
  MCreate           \<comment> \<open>\<open>tcpdumpstartcapture\<close>: create the monitor\<close>
| MReset            \<comment> \<open>\<open>StartCapture\<close>: \<open>exitFlag = 0\<close>\<close>
| MServe            \<comment> \<open>create the server, or \<open>exit\<close>\<close>
| MOpen             \<comment> \<open>open the device and the capture file, or \<open>exit\<close>\<close>
| MLoop3 | MLoop4   \<comment> \<open>\<open>pcap_loop\<close>: the tests of \<open>exitFlag\<close> before a round\<close>
| MRead3 | MRead4   \<comment> \<open>and before a read\<close>
| MPoll             \<comment> \<open>\<open>pcap_read_linux_mmap\<close>: wait for packets\<close>
| MRecvTest         \<comment> \<open>\<open>pcap_read_packet\<close>: the test for 3\<close>
| MRecv             \<comment> \<open>\<open>recvfrom\<close>\<close>
| MPacket nat       \<comment> \<open>\<open>dump_packet\<close>: the test for 4\<close>
| MPacket3 nat      \<comment> \<open>\<open>dump_packet\<close>: the test for 3\<close>
| MTest4 | MTest3   \<comment> \<open>\<open>pcap_loop\<close> has returned: \<open>exitFlag ==4 || exitFlag==3\<close>\<close>
| MSleep            \<comment> \<open>the bearer has changed\<close>
| MClose            \<comment> \<open>\<open>pcap_dump_close\<close> and \<open>pcap_close\<close>, then \<open>tcpdumpstartcapture (1)\<close>\<close>
| MJoinInput | MJoinCpu | MJoinServer | MTerminate
| MFinish           \<comment> \<open>\<open>TerminateCapture\<close> done: \<open>pcap_dump_close\<close>, \<open>pcap_close\<close>, \<open>exit\<close>\<close>
| MExited
| MKilled           \<comment> \<open>another thread called \<open>exit\<close>\<close>

text \<open>The monitor. The argument is the number of comparisons of an event with a key that are left.\<close>

datatype input_pc =
  INone             \<comment> \<open>not created\<close>
| IHead             \<comment> \<open>\<open>HandleEvents\<close>: the test at the start\<close>
| ISelect
| IEvents nat       \<comment> \<open>the test before a comparison\<close>
| IMatch nat bool   \<comment> \<open>the key fits; is it the release of volume down?\<close>
| IVolume nat       \<comment> \<open>the test for 3\<close>
| ISet3             \<comment> \<open>\<open>exitFlag = 3; return 0\<close>\<close>
| IBack             \<comment> \<open>\<open>CaptureUserInput\<close>: \<open>HandleEvents\<close> has returned 1\<close>
| IStop             \<comment> \<open>\<open>exitFlag = 3; break\<close>\<close>
| IDone

datatype server_pc =
  SNone | SAccept
| SBegin            \<comment> \<open>\<open>dostuff\<close>: \<open>exitFlag = 3\<close>\<close>
| STalk             \<comment> \<open>read the message, answer\<close>
| SEnd              \<comment> \<open>\<open>exitFlag = 4\<close>\<close>
| SDone

text \<open>\<open>s_restarted\<close> is the argument of \<open>tcpdumpstartcapture\<close>: the handles of the threads are local to the call
  that created them. \<open>s_depth\<close> counts the calls of \<open>HandleEvents\<close> by itself, \<open>s_dumped\<close> the packets written;
  \<open>s_open\<close>: the capture file is open.\<close>

record session =
  s_mmap :: bool
  s_joins :: bool
  s_flag :: int
  s_bearer :: nat
  s_main :: main_pc
  s_restarted :: bool
  s_input :: input_pc
  s_depth :: nat
  s_server :: server_pc
  s_dumped :: nat
  s_open :: bool

definition ended :: "session \<Rightarrow> bool" where
  "ended s \<longleftrightarrow> s_main s \<in> {MExited, MKilled}"

definition session_start :: "bool \<Rightarrow> bool \<Rightarrow> session" where
  "session_start mmap joins = \<lparr>s_mmap = mmap, s_joins = joins, s_flag = 0, s_bearer = 0, s_main = MCreate, s_restarted = False,
     s_input = INone, s_depth = 0, s_server = SNone, s_dumped = 0, s_open = False\<rparr>"

section \<open>Steps\<close>

text \<open>\<open>pthread_join\<close>: the thread has ended, or the handle was never set and the library returns.\<close>

definition join_returns :: "session \<Rightarrow> bool \<Rightarrow> bool" where
  "join_returns s over \<longleftrightarrow> (if s_restarted s then s_joins s else over)"

inductive main_step :: "session \<Rightarrow> session \<Rightarrow> bool" where
  create: "s_main s = MCreate \<Longrightarrow>
     main_step s (s\<lparr>s_main := MReset, s_input := (if s_restarted s then s_input s else IHead)\<rparr>)"
| reset: "s_main s = MReset \<Longrightarrow> main_step s (s\<lparr>s_main := MServe, s_flag := 0\<rparr>)"
| serve: "s_main s = MServe \<Longrightarrow>
     main_step s (s\<lparr>s_main := MOpen, s_server := (if s_restarted s then s_server s else SAccept)\<rparr>)"
| serve_exit: "s_main s = MServe \<Longrightarrow> main_step s (s\<lparr>s_main := MKilled\<rparr>)"
| opened: "s_main s = MOpen \<Longrightarrow> main_step s (s\<lparr>s_main := MLoop3, s_open := True\<rparr>)"
| open_exit: "s_main s = MOpen \<Longrightarrow> main_step s (s\<lparr>s_main := MKilled\<rparr>)"
| loop3: "s_main s = MLoop3 \<Longrightarrow> main_step s (s\<lparr>s_main := (if s_flag s = 3 then MTest4 else MLoop4)\<rparr>)"
| loop4: "s_main s = MLoop4 \<Longrightarrow> main_step s (s\<lparr>s_main := (if s_flag s = 4 then MTest4 else MRead3)\<rparr>)"
| read3: "s_main s = MRead3 \<Longrightarrow> main_step s (s\<lparr>s_main := (if s_flag s = 3 then MTest4 else MRead4)\<rparr>)"
| read4: "s_main s = MRead4 \<Longrightarrow> main_step s (s\<lparr>s_main :=
     (if s_flag s = 4 then MTest4 else if s_mmap s then MPoll else MRecvTest)\<rparr>)"
| recv_test: "s_main s = MRecvTest \<Longrightarrow> main_step s (s\<lparr>s_main := (if s_flag s = 3 then MTest4 else MRecv)\<rparr>)"
| recv_waits: "s_main s = MRecv \<Longrightarrow> main_step s s"
| recv_again: "s_main s = MRecv \<Longrightarrow> main_step s (s\<lparr>s_main := MRecvTest\<rparr>)"
| recv_error: "s_main s = MRecv \<Longrightarrow> main_step s (s\<lparr>s_main := MTest4\<rparr>)"
| recv_packet: "s_main s = MRecv \<Longrightarrow> main_step s (s\<lparr>s_main := (if passed then MPacket 1 else MRead3)\<rparr>)"
| poll_stop: "s_main s = MPoll \<Longrightarrow> s_flag s = 3 \<Longrightarrow> main_step s (s\<lparr>s_main := MTest4\<rparr>)"
| poll_error: "s_main s = MPoll \<Longrightarrow> s_flag s \<noteq> 3 \<Longrightarrow> main_step s (s\<lparr>s_main := MTest4\<rparr>)"
| poll_packets: "s_main s = MPoll \<Longrightarrow> main_step s (s\<lparr>s_main := (if n = 0 then MRead3 else MPacket n)\<rparr>)"
| packets_done: "s_main s = MPacket 0 \<Longrightarrow> main_step s (s\<lparr>s_main := MLoop3\<rparr>)"
| packet4: "s_main s = MPacket (Suc n) \<Longrightarrow>
     main_step s (s\<lparr>s_main := (if s_flag s = 4 then MPacket n else MPacket3 n)\<rparr>)"
| packet3: "s_main s = MPacket3 n \<Longrightarrow>
     main_step s (s\<lparr>s_main := MPacket n, s_dumped := (if s_flag s = 3 then s_dumped s else s_dumped s + 1)\<rparr>)"
| test4: "s_main s = MTest4 \<Longrightarrow> main_step s (s\<lparr>s_main := (if s_flag s = 4 then MJoinInput else MTest3)\<rparr>)"
| test3: "s_main s = MTest3 \<Longrightarrow> main_step s
     (if s_flag s = 3 then s\<lparr>s_main := MJoinInput\<rparr> else s\<lparr>s_main := MSleep, s_bearer := s_bearer s + 1\<rparr>)"
| sleep: "s_main s = MSleep \<Longrightarrow> main_step s (s\<lparr>s_main := MClose\<rparr>)"
| close: "s_main s = MClose \<Longrightarrow> main_step s (s\<lparr>s_main := MCreate, s_restarted := True, s_open := False\<rparr>)"
| join_input: "s_main s = MJoinInput \<Longrightarrow> join_returns s (s_input s = IDone) \<Longrightarrow> main_step s (s\<lparr>s_main := MJoinCpu\<rparr>)"
| join_cpu: "s_main s = MJoinCpu \<Longrightarrow> s_joins s \<Longrightarrow> main_step s (s\<lparr>s_main := MJoinServer\<rparr>)"
| join_server: "s_main s = MJoinServer \<Longrightarrow> join_returns s (s_server s = SDone) \<Longrightarrow> main_step s (s\<lparr>s_main := MTerminate\<rparr>)"
| join_hangs: "s_main s = MJoinCpu \<or> s_restarted s \<and> s_main s \<in> {MJoinInput, MJoinServer} \<Longrightarrow> \<not> s_joins s \<Longrightarrow> main_step s s"
| join_crash: "s_main s = MJoinCpu \<or> s_restarted s \<and> s_main s \<in> {MJoinInput, MJoinServer} \<Longrightarrow> \<not> s_joins s \<Longrightarrow>
     main_step s (s\<lparr>s_main := MKilled\<rparr>)"
| terminate: "s_main s = MTerminate \<Longrightarrow> main_step s (s\<lparr>s_main := MFinish\<rparr>)"
| terminate_exit: "s_main s = MTerminate \<Longrightarrow> main_step s (s\<lparr>s_main := MKilled\<rparr>)"
| finish: "s_main s = MFinish \<Longrightarrow> main_step s (s\<lparr>s_main := MExited, s_open := False\<rparr>)"

text \<open>\<open>HandleEvents\<close> returns 1 (\<open>v\<close>) or 0; a call it made itself drops the result, and goes on with the
  events of the descriptors \<open>select\<close> has left.\<close>

inductive handled :: "bool \<Rightarrow> session \<Rightarrow> session \<Rightarrow> bool" where
  outer: "s_depth s = 0 \<Longrightarrow> handled v s (s\<lparr>s_input := (if v then IBack else IStop)\<rparr>)"
| inner: "s_depth s = Suc d \<Longrightarrow> handled v s (s\<lparr>s_depth := d, s_input := IEvents n\<rparr>)"

inductive input_step :: "session \<Rightarrow> session \<Rightarrow> bool" where
  head: "s_input s = IHead \<Longrightarrow> input_step s (s\<lparr>s_input := (if s_flag s = 4 then ISet3 else ISelect)\<rparr>)"
| set3: "s_input s = ISet3 \<Longrightarrow> handled False (s\<lparr>s_flag := 3\<rparr>) t \<Longrightarrow> input_step s t"
| select_timeout: "s_input s = ISelect \<Longrightarrow> handled True s t \<Longrightarrow> input_step s t"
| select_events: "s_input s = ISelect \<Longrightarrow> input_step s (s\<lparr>s_input := IEvents n\<rparr>)"
| select_again: "s_input s = ISelect \<Longrightarrow> s_bearer s > 0 \<Longrightarrow> input_step s (s\<lparr>s_input := IHead, s_depth := s_depth s + 1\<rparr>)"
| select_exit: "s_input s = ISelect \<Longrightarrow> s_bearer s = 0 \<Longrightarrow> input_step s (s\<lparr>s_main := MKilled\<rparr>)"
| events_done: "s_input s = IEvents 0 \<Longrightarrow> handled True s t \<Longrightarrow> input_step s t"
| no_match: "s_input s = IEvents (Suc n) \<Longrightarrow> input_step s (s\<lparr>s_input := (if s_flag s = 4 then ISet3 else IEvents n)\<rparr>)"
| matched: "s_input s = IEvents (Suc n) \<Longrightarrow> input_step s (s\<lparr>s_input := (if s_flag s = 4 then ISet3 else IMatch n v)\<rparr>)"
| logged: "s_input s = IMatch n v \<Longrightarrow>
     input_step s (s\<lparr>s_input := (if s_flag s = 4 then ISet3 else if v then IVolume n else IEvents n)\<rparr>)"
| volume_stop: "s_input s = IVolume n \<Longrightarrow> s_flag s = 3 \<Longrightarrow> handled False s t \<Longrightarrow> input_step s t"
| volume_on: "s_input s = IVolume n \<Longrightarrow> s_flag s \<noteq> 3 \<Longrightarrow> input_step s (s\<lparr>s_input := IEvents n\<rparr>)"
| returned: "s_input s = IBack \<Longrightarrow> input_step s (s\<lparr>s_input := (if s_flag s = 4 then IStop else IHead)\<rparr>)"
| stopped: "s_input s = IStop \<Longrightarrow> input_step s (s\<lparr>s_flag := 3, s_input := IDone\<rparr>)"

inductive server_step :: "session \<Rightarrow> session \<Rightarrow> bool" where
  accept: "s_server s = SAccept \<Longrightarrow> server_step s (s\<lparr>s_server := SBegin\<rparr>)"
| accept_again: "s_server s = SAccept \<Longrightarrow> s_bearer s > 0 \<Longrightarrow> server_step s s"
| accept_exit: "s_server s = SAccept \<Longrightarrow> s_bearer s = 0 \<Longrightarrow> server_step s (s\<lparr>s_main := MKilled\<rparr>)"
| begin3: "s_server s = SBegin \<Longrightarrow> server_step s (s\<lparr>s_flag := 3, s_server := STalk\<rparr>)"
| talk: "s_server s = STalk \<Longrightarrow> server_step s (s\<lparr>s_server := SEnd\<rparr>)"
| talk_exit: "s_server s = STalk \<Longrightarrow> server_step s (s\<lparr>s_main := MKilled\<rparr>)"
| end4: "s_server s = SEnd \<Longrightarrow> server_step s (s\<lparr>s_flag := 4, s_server := SDone\<rparr>)"

text \<open>The scheduler runs any thread.\<close>

inductive session_step :: "session \<Rightarrow> session \<Rightarrow> bool" where
  main: "\<not> ended s \<Longrightarrow> main_step s t \<Longrightarrow> session_step s t"
| input: "\<not> ended s \<Longrightarrow> input_step s t \<Longrightarrow> session_step s t"
| server: "\<not> ended s \<Longrightarrow> server_step s t \<Longrightarrow> session_step s t"

inductive reachable :: "session \<Rightarrow> bool" where
  start: "reachable (session_start mmap joins)"
| step: "reachable s \<Longrightarrow> session_step s t \<Longrightarrow> reachable t"

lemmas session_steps = main_step.simps input_step.simps server_step.simps handled.simps

lemma session_cases:
  assumes "session_step s t"
  shows "\<not> ended s \<and> (main_step s t \<or> input_step s t \<or> server_step s t)"
  using assms by (auto elim: session_step.cases)

text \<open>An invariant is shown thread by thread.\<close>

lemma invariant:
  assumes "\<And>m j. P (session_start m j)"
    and "\<And>s t. reachable s \<Longrightarrow> \<not> ended s \<Longrightarrow> P s \<Longrightarrow> main_step s t \<Longrightarrow> P t"
    and "\<And>s t. reachable s \<Longrightarrow> \<not> ended s \<Longrightarrow> P s \<Longrightarrow> input_step s t \<Longrightarrow> P t"
    and "\<And>s t. reachable s \<Longrightarrow> \<not> ended s \<Longrightarrow> P s \<Longrightarrow> server_step s t \<Longrightarrow> P t"
    and "reachable s"
  shows "P s"
  using assms(5) by (induction rule: reachable.induct) (use assms(1-4) session_cases in blast)+

section \<open>Invariants\<close>

text \<open>Which threads there are, and that the client has connected when \<open>exitFlag\<close> is not 0.\<close>

definition stop_asked :: "session \<Rightarrow> bool" where
  "stop_asked s \<longleftrightarrow> s_server s \<in> {STalk, SEnd, SDone}"

definition first_call :: "session \<Rightarrow> bool" where
  "first_call s \<longleftrightarrow> (s_bearer s = 0 \<longrightarrow> \<not> s_restarted s \<and> s_main s \<noteq> MSleep \<and> s_main s \<noteq> MClose \<and> s_depth s = 0)"

definition threads :: "session \<Rightarrow> bool" where
  "threads s \<longleftrightarrow> s_main s \<noteq> MKilled \<longrightarrow>
     (s_input s = INone \<longleftrightarrow> s_main s = MCreate \<and> \<not> s_restarted s) \<and>
     (s_server s = SNone \<longleftrightarrow> (s_main s = MCreate \<or> s_main s = MReset \<or> s_main s = MServe) \<and> \<not> s_restarted s)"

lemma reachable_first_call: "reachable s \<Longrightarrow> first_call s"
proof (rule invariant [where P = first_call])
  show "first_call t" if "first_call s" "main_step s t" for s t
    using that(2,1) by cases (simp_all add: first_call_def)
  show "first_call t" if "first_call s" "input_step s t" for s t
    using that(2,1) by cases (auto simp: first_call_def handled.simps)
  show "first_call t" if "first_call s" "server_step s t" for s t
    using that(2,1) by cases (simp_all add: first_call_def)
qed (simp_all add: first_call_def session_start_def)

lemma reachable_threads: "reachable s \<Longrightarrow> threads s"
proof (rule invariant [where P = threads])
  show "threads t" if "threads s" "main_step s t" for s t
    using that(2,1) by cases (simp_all add: threads_def)
  show "threads t" if "threads s" "input_step s t" for s t
    using that(2,1) by cases (auto simp: threads_def handled.simps)
  show "threads t" if "threads s" "server_step s t" for s t
    using that(2,1) by cases (simp_all add: threads_def)
qed (simp_all add: threads_def session_start_def)

text \<open>How far the main thread has come with the end of the process.\<close>

fun server_joined :: "main_pc \<Rightarrow> bool" where
  "server_joined MTerminate \<longleftrightarrow> True"
| "server_joined MFinish \<longleftrightarrow> True"
| "server_joined MExited \<longleftrightarrow> True"
| "server_joined _ \<longleftrightarrow> False"

fun input_joined :: "main_pc \<Rightarrow> bool" where
  "input_joined MJoinCpu \<longleftrightarrow> True"
| "input_joined MJoinServer \<longleftrightarrow> True"
| "input_joined m \<longleftrightarrow> server_joined m"

fun after_open :: "main_pc \<Rightarrow> bool" where
  "after_open MCreate \<longleftrightarrow> False"
| "after_open MReset \<longleftrightarrow> False"
| "after_open MServe \<longleftrightarrow> False"
| "after_open MOpen \<longleftrightarrow> False"
| "after_open MExited \<longleftrightarrow> False"
| "after_open _ \<longleftrightarrow> True"

fun ending :: "main_pc \<Rightarrow> bool" where
  "ending MJoinInput \<longleftrightarrow> True"
| "ending m \<longleftrightarrow> input_joined m"

text \<open>A thread has seen \<open>exitFlag\<close> other than 0, or can see it.\<close>

definition stopping :: "session \<Rightarrow> bool" where
  "stopping s \<longleftrightarrow> s_flag s \<noteq> 0 \<or> s_input s = ISet3 \<or> s_input s = IStop \<or> s_input s = IDone \<or>
     ending (s_main s)"

lemma stopping_main: "main_step s t \<Longrightarrow> stopping t \<Longrightarrow> stopping s"
  by (erule main_step.cases; auto simp: stopping_def split: if_splits)

lemma stopping_input: "input_step s t \<Longrightarrow> stop_asked s \<or> \<not> stopping s \<Longrightarrow> stopping t \<Longrightarrow> stopping s"
  by (erule input_step.cases; auto simp: stopping_def handled.simps split: if_splits)

lemma stopping_server: "server_step s t \<Longrightarrow> stopping t \<Longrightarrow> stopping s \<or> stop_asked t"
  by (erule server_step.cases; simp add: stopping_def stop_asked_def; blast)

lemma asked_main: "main_step s t \<Longrightarrow> threads s \<Longrightarrow> stop_asked s \<Longrightarrow> stop_asked t"
  by (erule main_step.cases; simp add: stop_asked_def threads_def; auto)

lemma asked_input: "input_step s t \<Longrightarrow> stop_asked s \<Longrightarrow> stop_asked t"
  by (erule input_step.cases; auto simp: stop_asked_def handled.simps)

lemma asked_server: "server_step s t \<Longrightarrow> stop_asked s \<Longrightarrow> stop_asked t"
  by (erule server_step.cases; simp add: stop_asked_def)

lemma reachable_asked: "reachable s \<Longrightarrow> stopping s \<Longrightarrow> stop_asked s"
proof (induction rule: reachable.induct)
  case start
  then show ?case by (simp add: stopping_def session_start_def)
next
  case (step s t)
  have i: "stopping s \<Longrightarrow> stop_asked s" by (rule step.IH)
  from session_cases [OF step.hyps(2)] consider "main_step s t" | "input_step s t" | "server_step s t" by blast
  then show ?case
  proof cases
    case 1
    show ?thesis
      by (rule asked_main [OF 1 reachable_threads [OF step.hyps(1)] i [OF stopping_main [OF 1 step.prems]]])
  next
    case 2
    then show ?thesis using stopping_input [OF 2 _ step.prems] asked_input [OF 2] i by blast
  next
    case 3
    then show ?thesis using stopping_server [OF 3 step.prems] asked_server [OF 3] i by blast
  qed
qed

text \<open>While the bearer has not changed: what a stop under way has done.\<close>

definition told :: "session \<Rightarrow> bool" where
  "told s \<longleftrightarrow> s_bearer s = 0 \<longrightarrow>
     (s_server s = STalk \<or> s_server s = SEnd \<longrightarrow> s_flag s = 3) \<and>
     (s_server s = SDone \<longrightarrow> s_flag s = 4 \<or> s_flag s = 3 \<and> (s_input s = IStop \<or> s_input s = IDone))"

definition joined :: "session \<Rightarrow> bool" where
  "joined s \<longleftrightarrow> s_bearer s = 0 \<longrightarrow>
     (input_joined (s_main s) \<longrightarrow> s_input s = IDone) \<and> (server_joined (s_main s) \<longrightarrow> s_server s = SDone)"

text \<open>The reader is the one installed; the capture file is open from the start of the loop until it is closed.\<close>

definition reading :: "session \<Rightarrow> bool" where
  "reading s \<longleftrightarrow> (s_main s = MPoll \<longrightarrow> s_mmap s) \<and> (s_main s = MRecvTest \<or> s_main s = MRecv \<longrightarrow> \<not> s_mmap s)"

definition file_open :: "session \<Rightarrow> bool" where
  "file_open s \<longleftrightarrow> s_main s \<noteq> MKilled \<longrightarrow>
     (s_open s \<longleftrightarrow> after_open (s_main s)) \<and> (s_main s = MSleep \<or> s_main s = MClose \<longrightarrow> s_bearer s > 0)"

text \<open>The monitor changes nothing of the main thread's, unless it ends the process.\<close>

lemma input_frame: "input_step s t \<Longrightarrow> (s_main t = s_main s \<or> s_main t = MKilled) \<and> s_open t = s_open s \<and>
    s_bearer t = s_bearer s \<and> s_mmap t = s_mmap s \<and> s_joins t = s_joins s \<and> s_restarted t = s_restarted s \<and>
    s_server t = s_server s \<and> s_dumped t = s_dumped s \<and> (s_flag t = s_flag s \<or> s_flag t = 3)"
  by (erule input_step.cases; auto simp: handled.simps)

lemma reachable_reading: "reachable s \<Longrightarrow> reading s"
proof (rule invariant [where P = reading])
  show "reading t" if "reading s" "main_step s t" for s t
    using that(2,1) by cases (simp_all add: reading_def)
  show "reading t" if "reading s" "input_step s t" for s t
    using input_frame [OF that(2)] that(1) by (auto simp: reading_def)
  show "reading t" if "reading s" "server_step s t" for s t
    using that(2,1) by cases (simp_all add: reading_def)
qed (simp_all add: reading_def session_start_def)

lemma reachable_file_open: "reachable s \<Longrightarrow> file_open s"
proof (rule invariant [where P = file_open])
  show "file_open t" if "file_open s" "main_step s t" for s t
    using that(2,1) by cases (simp_all add: file_open_def)
  show "file_open t" if "file_open s" "input_step s t" for s t
    using input_frame [OF that(2)] that(1) by (auto simp: file_open_def)
  show "file_open t" if "file_open s" "server_step s t" for s t
    using that(2,1) by cases (simp_all add: file_open_def)
qed (simp_all add: file_open_def session_start_def)

lemma told_main: "main_step s t \<Longrightarrow> threads s \<Longrightarrow> first_call s \<Longrightarrow> told s \<Longrightarrow> told t"
  by (erule main_step.cases; simp add: told_def threads_def first_call_def; auto)

lemma told_input: "input_step s t \<Longrightarrow> first_call s \<Longrightarrow> told s \<Longrightarrow> told t"
  by (erule input_step.cases; auto simp: told_def first_call_def handled.simps)

lemma told_server: "server_step s t \<Longrightarrow> told s \<Longrightarrow> told t"
  by (erule server_step.cases; simp add: told_def)

lemma joined_main: "main_step s t \<Longrightarrow> first_call s \<Longrightarrow> joined s \<Longrightarrow> joined t"
  by (erule main_step.cases; simp add: joined_def first_call_def join_returns_def; auto)

lemma joined_input: "input_step s t \<Longrightarrow> \<not> ended s \<Longrightarrow> joined s \<Longrightarrow> joined t"
  by (erule input_step.cases; auto simp: joined_def handled.simps ended_def)

lemma joined_server: "server_step s t \<Longrightarrow> joined s \<Longrightarrow> joined t"
  by (erule server_step.cases; simp add: joined_def)

lemma reachable_told: "reachable s \<Longrightarrow> told s"
proof (rule invariant [where P = told])
  show "told (session_start m j)" for m j by (simp add: told_def session_start_def)
qed (use told_main told_input told_server reachable_threads reachable_first_call in blast)+

lemma reachable_joined: "reachable s \<Longrightarrow> joined s"
proof (rule invariant [where P = joined])
  show "joined (session_start m j)" for m j by (simp add: joined_def session_start_def)
qed (use joined_main joined_input joined_server reachable_first_call in blast)+

section \<open>After the server is done\<close>

text \<open>The states from which the stop is obeyed: the reader does not block, \<open>pthread_join\<close> gets over the handle of the CPU
  monitor, the bearer has not changed, and the main thread is not between its two tests of \<open>exitFlag\<close> after a wrong first
  one.\<close>

definition heard :: "session \<Rightarrow> bool" where
  "heard s \<longleftrightarrow> reachable s \<and> s_mmap s \<and> s_joins s \<and> s_server s = SDone \<and> s_bearer s = 0 \<and> \<not> (s_main s = MTest3 \<and> s_flag s = 4)"

lemma heard_facts:
  assumes "heard s" and "\<not> ended s"
  shows "s_flag s = 4 \<or> s_flag s = 3 \<and> (s_input s = IStop \<or> s_input s = IDone)" and "s_depth s = 0"
    and "\<not> s_restarted s" and "s_input s \<noteq> INone" and "s_main s \<notin> {MCreate, MReset, MServe, MRecvTest, MRecv, MSleep, MClose, MExited, MKilled}"
  using assms reachable_told [of s] reachable_first_call [of s] reachable_threads [of s] reachable_reading [of s]
  by (auto simp: heard_def told_def first_call_def threads_def ended_def reading_def)

text \<open>What decreases: \<open>exitFlag\<close>, then how far the main thread is from the end of its loop, then how far the monitor
  is from the end of its.\<close>

fun main_rank :: "int \<Rightarrow> main_pc \<Rightarrow> nat" where
  "main_rank f MOpen = 16"
| "main_rank f MRead4 = (if f = 4 then 9 else 15)"
| "main_rank f MPoll = 14"
| "main_rank f (MPacket n) = 13"
| "main_rank f (MPacket3 n) = 13"
| "main_rank f MLoop3 = 12"
| "main_rank f MLoop4 = 11"
| "main_rank f MRead3 = 10"
| "main_rank f MTest4 = 8"
| "main_rank f MTest3 = 7"
| "main_rank f MJoinInput = 6"
| "main_rank f MJoinCpu = 5"
| "main_rank f MJoinServer = 4"
| "main_rank f MTerminate = 3"
| "main_rank f MFinish = 2"
| "main_rank f _ = 0"

fun packets_left :: "main_pc \<Rightarrow> nat" where
  "packets_left (MPacket n) = 2 * n"
| "packets_left (MPacket3 n) = 2 * n + 1"
| "packets_left _ = 0"

fun input_rank :: "input_pc \<Rightarrow> nat" where
  "input_rank ISelect = 9"
| "input_rank (IVolume n) = 8"
| "input_rank (IMatch n v) = 7"
| "input_rank (IEvents n) = 7"
| "input_rank IHead = 6"
| "input_rank IBack = 5"
| "input_rank ISet3 = 4"
| "input_rank IStop = 2"
| "input_rank _ = 0"

definition closer :: "(session \<times> session) set" where
  "closer = measures [\<lambda>s. nat (s_flag s), \<lambda>s. main_rank (s_flag s) (s_main s), \<lambda>s. packets_left (s_main s), \<lambda>s. input_rank (s_input s)]"

lemma closer_main: "main_step s t \<Longrightarrow> heard s \<Longrightarrow> \<not> ended s \<Longrightarrow> ended t \<or>
    (t, s) \<in> closer \<and> s_mmap t \<and> s_joins t \<and> s_server t = SDone \<and> s_bearer t = 0 \<and> \<not> (s_main t = MTest3 \<and> s_flag t = 4)"
proof -
  assume m: "main_step s t" and h: "heard s" and e: "\<not> ended s"
  note f = heard_facts [OF h e]
  have o: "s_mmap s" "s_joins s" "s_server s = SDone" "s_bearer s = 0" "s_main s = MTest3 \<Longrightarrow> s_flag s \<noteq> 4" using h by (auto simp: heard_def)
  show ?thesis using f(1)
  proof
    assume "s_flag s = 4"
    with m f(2-5) o show ?thesis by cases (simp_all add: closer_def ended_def)
  next
    assume "s_flag s = 3 \<and> (s_input s = IStop \<or> s_input s = IDone)"
    with m f(2-5) o show ?thesis by cases (simp_all add: closer_def ended_def)
  qed
qed

lemma closer_input: "input_step s t \<Longrightarrow> heard s \<Longrightarrow> \<not> ended s \<Longrightarrow> ended t \<or>
    (t, s) \<in> closer \<and> s_mmap t \<and> s_joins t \<and> s_server t = SDone \<and> s_bearer t = 0 \<and> \<not> (s_main t = MTest3 \<and> s_flag t = 4)"
proof -
  assume m: "input_step s t" and h: "heard s" and e: "\<not> ended s"
  note f = heard_facts [OF h e]
  have o: "s_mmap s" "s_joins s" "s_server s = SDone" "s_bearer s = 0" "s_main s = MTest3 \<Longrightarrow> s_flag s \<noteq> 4" using h by (auto simp: heard_def)
  show ?thesis using f(1)
  proof
    assume "s_flag s = 4"
    with m f(2,4) o show ?thesis by cases (auto simp: closer_def ended_def handled.simps)
  next
    assume "s_flag s = 3 \<and> (s_input s = IStop \<or> s_input s = IDone)"
    with m o show ?thesis by cases (auto simp: closer_def)
  qed
qed

end
