(* ===== verification/Aro_Stop.thy ===== *)
theory Aro_Stop
  imports Aro_Session
begin

text \<open>
  What the threads of a capture do together: a stop is obeyed, no capture ends without one, nothing is logged
  after the files are closed - as long as the bearer does not change; and a stop that is lost.
\<close>

section \<open>A stop is obeyed\<close>

text \<open>On every run the process ends, whatever the scheduler does: it cannot get stuck before, nor go on for
  ever.\<close>

inductive inevitable :: "session \<Rightarrow> bool" where
  ended: "ended s \<Longrightarrow> inevitable s"
| later: "\<exists>t. session_step s t \<Longrightarrow> (\<And>t. session_step s t \<Longrightarrow> inevitable t) \<Longrightarrow> inevitable s"

lemma heard_step:
  assumes "heard s" and "session_step s t"
  shows "ended t \<or> heard t \<and> (t, s) \<in> closer"
proof -
  have e: "\<not> ended s" and "main_step s t \<or> input_step s t \<or> server_step s t" using session_cases [OF assms(2)] by auto
  moreover have "\<not> server_step s t" using assms(1) by (auto simp: heard_def elim: server_step.cases)
  ultimately have "ended t \<or> (t, s) \<in> closer \<and> s_mmap t \<and> s_joins t \<and> s_server t = SDone \<and> s_bearer t = 0 \<and> \<not> (s_main t = MTest3 \<and> s_flag t = 4)"
    using closer_main [OF _ assms(1)] closer_input [OF _ assms(1)] by blast
  moreover have "reachable t" using assms reachable.step by (auto simp: heard_def)
  ultimately show ?thesis by (auto simp: heard_def)
qed

lemma input_moves: "s_depth s = 0 \<Longrightarrow> s_input s \<noteq> INone \<Longrightarrow> s_input s \<noteq> IDone \<Longrightarrow> \<exists>t. input_step s t"
proof (cases "s_input s")
  case (IEvents n)
  then show "s_depth s = 0 \<Longrightarrow> ?thesis"
    by (cases n) (auto intro: input_step.intros handled.intros)
next
  case (IVolume n)
  then show "s_depth s = 0 \<Longrightarrow> ?thesis"
    by (cases "s_flag s = 3") (auto intro: input_step.intros handled.intros)
next
  case ISet3
  then show "s_depth s = 0 \<Longrightarrow> ?thesis" using handled.outer [of "s\<lparr>s_flag := 3\<rparr>" False] by (auto intro: input_step.set3)
qed (auto intro: input_step.intros handled.intros)

lemma main_moves:
  assumes "s_main s \<notin> {MExited, MKilled, MJoinInput, MJoinCpu, MJoinServer}"
  shows "\<exists>t. main_step s t"
proof (cases "s_main s")
  case (MPacket n)
  then show ?thesis by (cases n) (auto intro: main_step.intros)
qed (use assms in \<open>auto intro: main_step.intros\<close>)

lemma heard_moves:
  assumes "heard s" and "\<not> ended s"
  shows "\<exists>t. session_step s t"
proof -
  note f = heard_facts [OF assms]
  have d: "s_server s = SDone" "s_joins s" using assms(1) by (simp_all add: heard_def)
  show ?thesis
  proof (cases "s_main s = MJoinInput \<and> s_input s \<noteq> IDone")
    case True
    then show ?thesis using input_moves [OF f(2,4)] assms(2) session_step.input by blast
  next
    case False
    have "\<exists>t. main_step s t"
    proof (cases "s_main s \<in> {MJoinInput, MJoinCpu, MJoinServer}")
      case True
      then have "join_returns s (s_input s = IDone) \<or> s_main s \<noteq> MJoinInput" "join_returns s (s_server s = SDone)"
        using False d f(3) by (auto simp: join_returns_def)
      then show ?thesis using True d(2) main_step.join_input main_step.join_cpu main_step.join_server by blast
    qed (use f(5) main_moves in auto)
    then show ?thesis using assms(2) session_step.main by blast
  qed
qed

text \<open>C16: a stop ends the capture, if the reader is the one with the memory-mapped ring and \<open>pthread_join\<close> returns for the
  handle of the CPU monitor, which was never set. Once the server has answered the client and set \<open>exitFlag\<close> to 4, and
  unless the bearer has changed or the main thread has just read 3 in the first of its two tests after the loop,
  every run of the threads, however they are scheduled and whatever packets and events arrive, comes to the end
  of the process.\<close>

theorem stop_ends_capture:
  assumes "reachable s" and "s_mmap s" and "s_joins s"
    and "s_server s = SDone" and "s_bearer s = 0" and "\<not> (s_main s = MTest3 \<and> s_flag s = 4)"
  shows "inevitable s"
proof -
  have "wf closer" by (simp add: closer_def)
  moreover have "heard s" using assms by (simp add: heard_def)
  ultimately show ?thesis
  proof (induction s)
    case (less s)
    show ?case
    proof (cases "ended s")
      case False
      then show ?thesis
        using heard_moves [OF less.prems] heard_step [OF less.prems] less.IH by (blast intro: inevitable.intros)
    qed (rule inevitable.ended)
  qed
qed

text \<open>Both conditions are needed: the reader that blocks in \<open>recvfrom\<close> does not end its wait for a stop, and a \<open>pthread_join\<close>
  that hangs on the handle of the CPU monitor keeps the process from its end.\<close>

lemma waits_for_ever:
  assumes "\<not> ended s" and "s_main s = MRecv \<or> s_main s = MJoinCpu \<and> \<not> s_joins s"
  shows "\<not> inevitable s"
proof
  have "session_step s s" using assms main_step.recv_waits main_step.join_hangs session_step.main by blast
  moreover assume "inevitable s"
  then have "session_step s s \<longrightarrow> ended s" by (induction rule: inevitable.induct) blast+
  ultimately show False using assms(1) by blast
qed

section \<open>Nothing else ends it\<close>

text \<open>C17: what ends the writing of files. When the main thread comes to \<open>TerminateCapture\<close> the client has connected; if the
  bearer has not changed, the monitor and the server have ended, so that nothing is written any more to the files it closes. The
  capture file is closed for one of two reasons only: the bearer has changed, and a new one is opened, or \<open>TerminateCapture\<close> is over.
  No packet is written to it while it is closed.\<close>

theorem capture_closed_after_stop:
  assumes "reachable s" and "session_step s t"
  shows "(s_main t = MTerminate \<longrightarrow> s_server t \<in> {STalk, SEnd, SDone} \<and> (s_bearer t = 0 \<longrightarrow> s_input t = IDone \<and> s_server t = SDone)) \<and>
    (s_open s \<and> \<not> s_open t \<longrightarrow> s_main s = MClose \<and> s_bearer s > 0 \<or>
      s_main s = MFinish \<and> s_server s \<in> {STalk, SEnd, SDone} \<and> (s_bearer s = 0 \<longrightarrow> s_input s = IDone \<and> s_server s = SDone)) \<and>
    (s_dumped t \<noteq> s_dumped s \<longrightarrow> s_open s)"
proof -
  have e: "\<not> ended s" and st: "main_step s t \<or> input_step s t \<or> server_step s t" using session_cases [OF assms(2)] by auto
  have t: "reachable t" by (rule reachable.step [OF assms])
  have closing: "s_server u \<in> {STalk, SEnd, SDone} \<and> (s_bearer u = 0 \<longrightarrow> s_input u = IDone \<and> s_server u = SDone)"
    if "reachable u" "s_main u = MTerminate \<or> s_main u = MFinish" for u
    using that reachable_asked [of u] reachable_joined [of u] by (auto simp: stopping_def stop_asked_def joined_def)
  have f: "file_open s" by (rule reachable_file_open [OF assms(1)])
  have "s_main s = MClose \<or> s_main s = MFinish" if "s_open s" "\<not> s_open t"
    using st
  proof (elim disjE)
    assume "main_step s t"
    then show ?thesis using that by cases (simp_all split: if_splits)
  qed (use that in \<open>auto elim: server_step.cases dest: input_frame\<close>)
  moreover have "\<exists>n. s_main s = MPacket3 n" if "s_dumped t \<noteq> s_dumped s"
    using st
  proof (elim disjE)
    assume "main_step s t"
    then show ?thesis using that by cases (simp_all split: if_splits)
  qed (use that in \<open>auto elim: server_step.cases dest: input_frame\<close>)
  moreover have "s_bearer s > 0" if "s_main s = MClose" using f that by (simp add: file_open_def)
  moreover have "s_open s" if "s_main s = MPacket3 n" for n using f that by (simp add: file_open_def)
  ultimately show ?thesis using closing [OF t] closing [OF assms(1)] by blast
qed

text \<open>Packets that can still be written: one, if the main thread has passed the first test of
  \<open>dump_packet\<close>.\<close>

definition to_dump :: "session \<Rightarrow> nat" where
  "to_dump s = s_dumped s + (case s_main s of MPacket3 n \<Rightarrow> (if s_flag s = 4 then 1 else 0) | _ \<Rightarrow> 0)"

lemma to_dump_step:
  assumes "session_step s t" and "heard s"
  shows "to_dump t \<le> to_dump s"
proof -
  have e: "\<not> ended s" and st: "main_step s t \<or> input_step s t" using session_cases [OF assms(1)] assms(2)
    by (auto simp: heard_def elim: server_step.cases)
  note f = heard_facts [OF assms(2) e]
  from f(1) have f4: "s_flag s = 4 \<or> s_flag s = 3" by blast
  from st show ?thesis
  proof
    assume "main_step s t"
    then show ?thesis using f4 f(5) by cases (auto simp: to_dump_def)
  next
    assume "input_step s t"
    then have "s_dumped t = s_dumped s" "s_main t = s_main s \<or> s_main t = MKilled" "s_flag t = s_flag s \<or> s_flag t = 3"
      using input_frame by blast+
    then show ?thesis by (cases "s_main s") (auto simp: to_dump_def)
  qed
qed

text \<open>After a stop at most one more packet is written to the capture file: the one whose first test was
  made before.\<close>

theorem dumped_after_stop:
  assumes "reachable s" and "s_mmap s" and "s_joins s" and "s_server s = SDone" and "s_bearer s = 0"
    and "\<not> (s_main s = MTest3 \<and> s_flag s = 4)"
    and "session_step\<^sup>*\<^sup>* s t"
  shows "s_dumped t \<le> s_dumped s + 1"
proof -
  have h: "heard s" using assms(1-6) by (simp add: heard_def)
  from assms(7) have "to_dump t \<le> to_dump s \<and> (heard t \<or> ended t)"
  proof (induction rule: rtranclp_induct)
    case (step u t)
    then have "heard u" using session_cases [OF step.hyps(2)] by blast
    then show ?case using to_dump_step [OF step.hyps(2)] heard_step [OF _ step.hyps(2)] step.IH by auto
  qed (use h in simp)
  then show ?thesis by (auto simp: to_dump_def split: main_pc.splits if_splits)
qed

section \<open>Runs\<close>

lemma main_run: "reachable s \<Longrightarrow> main_step s t \<Longrightarrow> \<not> ended s \<Longrightarrow> reachable t"
  and input_run: "reachable s \<Longrightarrow> input_step s t \<Longrightarrow> \<not> ended s \<Longrightarrow> reachable t"
  and server_run: "reachable s \<Longrightarrow> server_step s t \<Longrightarrow> \<not> ended s \<Longrightarrow> reachable t"
  by (blast intro: reachable.step session_step.intros)+

abbreviation at :: "int \<Rightarrow> main_pc \<Rightarrow> input_pc \<Rightarrow> server_pc \<Rightarrow> session" where
  "at f m i v \<equiv> \<lparr>s_mmap = True, s_joins = True, s_flag = f, s_bearer = 0, s_main = m, s_restarted = False, s_input = i, s_depth = 0,
     s_server = v, s_dumped = 0, s_open = after_open m\<rparr>"

text \<open>The client connects while the main thread is in its loop.\<close>

lemma run_talk: "reachable (at 3 MLoop3 IHead STalk)"
proof -
  from main_run [OF reachable.start [of True True] main_step.create] have "reachable (at 0 MReset IHead SNone)"
    by (simp add: session_start_def ended_def)
  from main_run [OF this main_step.reset] have "reachable (at 0 MServe IHead SNone)" by (simp add: ended_def)
  from main_run [OF this main_step.serve] have "reachable (at 0 MOpen IHead SAccept)" by (simp add: ended_def)
  from main_run [OF this main_step.opened] have "reachable (at 0 MLoop3 IHead SAccept)" by (simp add: ended_def)
  from server_run [OF this server_step.accept] have "reachable (at 0 MLoop3 IHead SBegin)" by (simp add: ended_def)
  from server_run [OF this server_step.begin3] have "reachable (at 3 MLoop3 IHead STalk)" by (simp add: ended_def)
  then show ?thesis .
qed

lemma run_done: "reachable (at 4 MLoop3 IHead SDone)"
proof -
  note run_talk
  from server_run [OF this server_step.talk] have "reachable (at 3 MLoop3 IHead SEnd)" by (simp add: ended_def)
  from server_run [OF this server_step.end4] have "reachable (at 4 MLoop3 IHead SDone)" by (simp add: ended_def)
  then show ?thesis .
qed

text \<open>The main thread leaves its loop at 3 and reads 3 in its first test, the flag is 4 before the second.\<close>

lemma run_between: "reachable (at 4 MTest3 IHead SDone)"
proof -
  note run_talk
  from main_run [OF this main_step.loop3] have "reachable (at 3 MTest4 IHead STalk)" by (simp add: ended_def)
  from main_run [OF this main_step.test4] have "reachable (at 3 MTest3 IHead STalk)" by (simp add: ended_def)
  from server_run [OF this server_step.talk] have "reachable (at 3 MTest3 IHead SEnd)" by (simp add: ended_def)
  from server_run [OF this server_step.end4] have "reachable (at 4 MTest3 IHead SDone)" by (simp add: ended_def)
  then show ?thesis .
qed

text \<open>The stop is obeyed, and the threads are joined.\<close>

lemma run_closed: "reachable (at 3 MFinish IDone SDone)"
proof -
  note run_done
  from main_run [OF this main_step.loop3] have "reachable (at 4 MLoop4 IHead SDone)" by (simp add: ended_def)
  from main_run [OF this main_step.loop4] have "reachable (at 4 MTest4 IHead SDone)" by (simp add: ended_def)
  from main_run [OF this main_step.test4] have "reachable (at 4 MJoinInput IHead SDone)" by (simp add: ended_def)
  from input_run [OF this input_step.head] have "reachable (at 4 MJoinInput ISet3 SDone)" by (simp add: ended_def)
  from input_run [OF this input_step.set3 [OF _ handled.outer]] have "reachable (at 3 MJoinInput IStop SDone)"
    by (simp add: ended_def)
  from input_run [OF this input_step.stopped] have "reachable (at 3 MJoinInput IDone SDone)" by (simp add: ended_def)
  from main_run [OF this main_step.join_input] have "reachable (at 3 MJoinCpu IDone SDone)"
    by (simp add: ended_def join_returns_def)
  from main_run [OF this main_step.join_cpu] have "reachable (at 3 MJoinServer IDone SDone)" by (simp add: ended_def)
  from main_run [OF this main_step.join_server] have "reachable (at 3 MTerminate IDone SDone)"
    by (simp add: ended_def join_returns_def)
  from main_run [OF this main_step.terminate] have "reachable (at 3 MFinish IDone SDone)" by (simp add: ended_def)
  then show ?thesis .
qed

theorem capture_closed_after_stop_witness:
  "session_step (at 3 MFinish IDone SDone) (at 3 MExited IDone SDone) \<and>
   s_server (at 3 MFinish IDone SDone) \<in> {STalk, SEnd, SDone} \<and> s_input (at 3 MFinish IDone SDone) = IDone"
proof -
  have "session_step (at 3 MFinish IDone SDone) (at 3 MExited IDone SDone)"
    using session_step.main [OF _ main_step.finish, of "at 3 MFinish IDone SDone"] by (simp add: ended_def)
  then show ?thesis using capture_closed_after_stop [OF run_closed] by simp
qed

theorem dumped_after_stop_witness:
  "session_step\<^sup>*\<^sup>* (at 4 MLoop3 IHead SDone) (at 4 MLoop4 IHead SDone) \<and> s_dumped (at 4 MLoop4 IHead SDone) \<le> 1"
proof -
  have "session_step (at 4 MLoop3 IHead SDone) (at 4 MLoop4 IHead SDone)"
    using session_step.main [OF _ main_step.loop3, of "at 4 MLoop3 IHead SDone"] by (simp add: ended_def)
  then have "session_step\<^sup>*\<^sup>* (at 4 MLoop3 IHead SDone) (at 4 MLoop4 IHead SDone)" by blast
  with dumped_after_stop [OF run_done _ _ _ _ _ this] show ?thesis by simp
qed

text \<open>The client of a capture that is still running; every run ends.\<close>

theorem stop_ends_capture_witness: "reachable (at 4 MLoop3 IHead SDone) \<and> inevitable (at 4 MLoop3 IHead SDone)"
  using stop_ends_capture [OF run_done] run_done by simp

section \<open>A stop that is lost\<close>

text \<open>After \<open>exitFlag = 0\<close> of a restart, with the server gone and the monitor not about to write 3: nothing sets the flag again.\<close>

definition deaf :: "session \<Rightarrow> bool" where
  "deaf s \<longleftrightarrow> s_server s = SDone \<and> s_flag s = 0 \<and> s_restarted s \<and> s_bearer s > 0 \<and> s_input s \<notin> {ISet3, IStop} \<and> \<not> ending (s_main s)"

lemma deaf_step:
  assumes "session_step s t" and "deaf s"
  shows "deaf t"
proof -
  from session_cases [OF assms(1)] consider "main_step s t" | "input_step s t" | "server_step s t" by blast
  then show ?thesis
  proof cases
    case 1
    then show ?thesis using assms(2) by cases (simp_all add: deaf_def)
  next
    case 2
    then show ?thesis using assms(2) by cases (auto simp: deaf_def handled.simps)
  qed (use assms(2) in \<open>auto simp: deaf_def elim: server_step.cases\<close>)
qed

lemma deaf_run: "session_step\<^sup>*\<^sup>* s t \<Longrightarrow> deaf s \<Longrightarrow> deaf t"
  by (induction rule: rtranclp_induct) (auto intro: deaf_step)

text \<open>The server is gone and is not created again.\<close>

definition served :: "session \<Rightarrow> bool" where
  "served s \<longleftrightarrow> s_server s = SDone \<and> (s_restarted s \<or> s_main s \<notin> {MCreate, MReset, MServe})"

lemma served_step:
  assumes "session_step s t" and "served s"
  shows "served t"
proof -
  from session_cases [OF assms(1)] consider "main_step s t" | "input_step s t" | "server_step s t" by blast
  then show ?thesis
  proof cases
    case 1
    then show ?thesis using assms(2) by cases (auto simp: served_def)
  next
    case 2
    then show ?thesis using input_frame [OF 2] assms(2) by (auto simp: served_def)
  qed (use assms(2) in \<open>auto simp: served_def elim: server_step.cases\<close>)
qed

lemma main_steps: "session_step\<^sup>*\<^sup>* s t \<Longrightarrow> main_step t u \<Longrightarrow> \<not> ended t \<Longrightarrow> session_step\<^sup>*\<^sup>* s u"
  by (meson rtranclp.rtrancl_into_rtrancl session_step.main)

lemma input_steps: "session_step\<^sup>*\<^sup>* s t \<Longrightarrow> input_step t u \<Longrightarrow> \<not> ended t \<Longrightarrow> session_step\<^sup>*\<^sup>* s u"
  by (meson rtranclp.rtrancl_into_rtrancl session_step.input)

text \<open>One round of the loop with the flag at 0 writes a packet, with either reader.\<close>

lemma deaf_round:
  assumes "s_flag s = 0" and "s_main s = MLoop3"
  shows "session_step\<^sup>*\<^sup>* s (s\<lparr>s_dumped := s_dumped s + 1\<rparr>)"
proof -
  have r: "session_step\<^sup>*\<^sup>* s (s\<lparr>s_main := MRead4\<rparr>)"
    using main_steps [OF main_steps [OF main_steps [OF rtranclp.rtrancl_refl [of session_step s] main_step.loop3] main_step.loop4] main_step.read3]
      assms by (simp add: ended_def)
  have p: "session_step\<^sup>*\<^sup>* s (s\<lparr>s_main := MPacket 1\<rparr>)"
  proof (cases "s_mmap s")
    case True
    then show ?thesis using main_steps [OF main_steps [OF r main_step.read4] main_step.poll_packets [of _ 1]] assms
      by (simp add: ended_def)
  next
    case False
    then show ?thesis
      using main_steps [OF main_steps [OF main_steps [OF r main_step.read4] main_step.recv_test] main_step.recv_packet [of _ True]] assms
      by (simp add: ended_def)
  qed
  have "session_step\<^sup>*\<^sup>* s (s\<lparr>s_dumped := s_dumped s + 1, s_main := MLoop3\<rparr>)"
    using main_steps [OF main_steps [OF main_steps [OF p main_step.packet4 [of _ 0]] main_step.packet3 [of _ 0]] main_step.packets_done] assms
    by (simp add: ended_def)
  moreover have "s\<lparr>s_dumped := s_dumped s + 1, s_main := MLoop3\<rparr> = s\<lparr>s_dumped := s_dumped s + 1\<rparr>"
    using assms(2) by (cases s) simp
  ultimately show ?thesis by simp
qed

lemma deaf_rounds: "s_flag s = 0 \<Longrightarrow> s_main s = MLoop3 \<Longrightarrow> session_step\<^sup>*\<^sup>* s (s\<lparr>s_dumped := s_dumped s + n\<rparr>)"
proof (induction n arbitrary: s)
  case (Suc n)
  have "session_step\<^sup>*\<^sup>* (s\<lparr>s_dumped := s_dumped s + 1\<rparr>) (s\<lparr>s_dumped := s_dumped s + Suc n\<rparr>)"
    using Suc.IH [of "s\<lparr>s_dumped := s_dumped s + 1\<rparr>"] Suc.prems by simp
  then show ?case using deaf_round [OF Suc.prems] by (meson rtranclp_trans)
qed simp

text \<open>From the state between the two tests the main thread comes to a deaf one.\<close>

lemma monitor_ends:
  assumes "s_main s = MSleep"
  shows "\<exists>t. session_step\<^sup>*\<^sup>* s t \<and> s_main t = MSleep \<and> s_server t = s_server s \<and> s_bearer t = s_bearer s \<and> s_dumped t = s_dumped s \<and>
    s_input t \<notin> {ISet3, IStop}"
proof -
  have stop: "\<exists>t. session_step\<^sup>*\<^sup>* u t \<and> s_main t = MSleep \<and> s_server t = s_server u \<and> s_bearer t = s_bearer u \<and>
      s_dumped t = s_dumped u \<and> s_input t \<notin> {ISet3, IStop}"
    if "s_main u = MSleep" "s_input u = IStop" for u
    using input_steps [OF rtranclp.rtrancl_refl [of session_step u] input_step.stopped] that
    by (intro exI [of _ "u\<lparr>s_flag := 3, s_input := IDone\<rparr>"]) (simp add: ended_def)
  show ?thesis
  proof (cases "s_input s")
    case ISet3
    let ?u = "s\<lparr>s_flag := 3\<rparr>"
    show ?thesis
    proof (cases "s_depth s")
      case 0
      then have "session_step\<^sup>*\<^sup>* s (?u\<lparr>s_input := IStop\<rparr>)"
        using input_steps [OF rtranclp.rtrancl_refl [of session_step s] input_step.set3 [OF ISet3 handled.outer [of ?u False]]] assms
        by (simp add: ended_def)
      then show ?thesis using stop [of "?u\<lparr>s_input := IStop\<rparr>"] assms by (auto intro: rtranclp_trans)
    next
      case (Suc d)
      then have "session_step\<^sup>*\<^sup>* s (?u\<lparr>s_depth := d, s_input := IEvents 0\<rparr>)"
        using input_steps [OF rtranclp.rtrancl_refl [of session_step s] input_step.set3 [OF ISet3 handled.inner [of ?u d False 0]]] assms
        by (simp add: ended_def)
      then show ?thesis using assms by (intro exI [of _ "?u\<lparr>s_depth := d, s_input := IEvents 0\<rparr>"]) simp
    qed
  qed (use stop [of s] assms in \<open>auto intro!: exI [of _ s]\<close>)
qed

lemma becomes_deaf:
  assumes "s_main s = MTest3" and "s_flag s = 4" and "s_server s = SDone"
  shows "\<exists>u. session_step\<^sup>*\<^sup>* s u \<and> deaf u \<and> s_main u = MLoop3 \<and> s_dumped u = s_dumped s"
proof -
  let ?t = "s\<lparr>s_main := MSleep, s_bearer := s_bearer s + 1\<rparr>"
  have t: "session_step\<^sup>*\<^sup>* s ?t"
    using main_steps [OF rtranclp.rtrancl_refl [of session_step s] main_step.test3 [OF assms(1)]] assms by (simp add: ended_def)
  obtain u where u: "session_step\<^sup>*\<^sup>* ?t u" "s_main u = MSleep" "s_server u = SDone" "s_bearer u > 0" "s_dumped u = s_dumped s"
    "s_input u \<notin> {ISet3, IStop}"
    using monitor_ends [of ?t] assms(3) by auto
  let ?v = "u\<lparr>s_restarted := True, s_flag := 0, s_main := MLoop3, s_open := True\<rparr>"
  have r: "session_step\<^sup>*\<^sup>* s (u\<lparr>s_restarted := True, s_open := False, s_main := MReset\<rparr>)"
    using main_steps [OF main_steps [OF main_steps [OF rtranclp_trans [OF t u(1)] main_step.sleep] main_step.close] main_step.create] u(2)
    by (simp add: ended_def)
  have "session_step\<^sup>*\<^sup>* s ?v"
    using main_steps [OF main_steps [OF main_steps [OF r main_step.reset] main_step.serve] main_step.opened] u(2)
    by (simp add: ended_def)
  moreover have "deaf ?v" using u by (simp add: deaf_def)
  ultimately show ?thesis using u(5) by (intro exI [of _ ?v]) simp
qed

text \<open>C20: a stop that comes between the two tests of \<open>exitFlag ==4 || exitFlag==3\<close> is taken for a change of the bearer and may be lost. Let the
  server have answered the client, the main thread have read 3 in the test for 4, and the flag now be 4. Then the only step of the
  main thread is the one for a change of the bearer; there is a run on which the main thread is back in its loop with the flag at 0;
  and from each such state - unless the monitor is just about to write 3 - no run of the threads ends the capture, while any
  number of packets can still be written.\<close>

theorem stop_may_be_lost:
  assumes "s_main s = MTest3" and "s_flag s = 4" and "s_server s = SDone"
  shows "(\<forall>t. main_step s t \<longrightarrow> t = s\<lparr>s_main := MSleep, s_bearer := s_bearer s + 1\<rparr>) \<and>
    (\<exists>u. session_step\<^sup>*\<^sup>* s u \<and> s_main u = MLoop3 \<and> s_flag u = 0 \<and> s_restarted u \<and> s_bearer u > 0 \<and> s_input u \<notin> {ISet3, IStop}) \<and>
    (\<forall>u. session_step\<^sup>*\<^sup>* s u \<and> s_main u = MLoop3 \<and> s_flag u = 0 \<and> s_restarted u \<and> s_bearer u > 0 \<and> s_input u \<notin> {ISet3, IStop} \<longrightarrow>
      (\<forall>v. session_step\<^sup>*\<^sup>* u v \<longrightarrow> s_main v \<notin> {MJoinInput, MTerminate, MFinish, MExited}) \<and>
      (\<forall>n. \<exists>v. session_step\<^sup>*\<^sup>* u v \<and> s_dumped v = s_dumped u + n))"
proof (intro conjI allI impI)
  fix t assume "main_step s t"
  then show "t = s\<lparr>s_main := MSleep, s_bearer := s_bearer s + 1\<rparr>" using assms by cases simp_all
next
  show "\<exists>u. session_step\<^sup>*\<^sup>* s u \<and> s_main u = MLoop3 \<and> s_flag u = 0 \<and> s_restarted u \<and> s_bearer u > 0 \<and> s_input u \<notin> {ISet3, IStop}"
    using becomes_deaf [OF assms] by (auto simp: deaf_def)
next
  fix u v
  assume u: "session_step\<^sup>*\<^sup>* s u \<and> s_main u = MLoop3 \<and> s_flag u = 0 \<and> s_restarted u \<and> s_bearer u > 0 \<and> s_input u \<notin> {ISet3, IStop}"
    and v: "session_step\<^sup>*\<^sup>* u v"
  have "served w" if "session_step\<^sup>*\<^sup>* s w" for w
    using that by (induction rule: rtranclp_induct) (use assms served_step in \<open>auto simp: served_def\<close>)
  then have "deaf u" using u by (simp add: deaf_def served_def)
  from deaf_run [OF v this] show "s_main v \<notin> {MJoinInput, MTerminate, MFinish, MExited}" by (auto simp: deaf_def)
next
  fix u n
  assume u: "session_step\<^sup>*\<^sup>* s u \<and> s_main u = MLoop3 \<and> s_flag u = 0 \<and> s_restarted u \<and> s_bearer u > 0 \<and> s_input u \<notin> {ISet3, IStop}"
  then show "\<exists>v. session_step\<^sup>*\<^sup>* u v \<and> s_dumped v = s_dumped u + n"
    using deaf_rounds [of u n] by (intro exI [of _ "u\<lparr>s_dumped := s_dumped u + n\<rparr>"]) simp
qed

text \<open>Such a state is reached: the client connects, the main thread leaves its loop and reads 3, the server ends.\<close>

theorem stop_may_be_lost_witness:
  "reachable (at 4 MTest3 IHead SDone) \<and>
   (\<exists>u. session_step\<^sup>*\<^sup>* (at 4 MTest3 IHead SDone) u \<and> (\<forall>v. session_step\<^sup>*\<^sup>* u v \<longrightarrow> s_main v \<noteq> MExited))"
  using stop_may_be_lost [of "at 4 MTest3 IHead SDone"] run_between by auto

end
