(* ===== verification/Aro_Input.thy ===== *)
theory Aro_Input
  imports Sock_Text Text_Print
begin

text \<open>
  The monitor of user input, \<^verbatim>\<open>user_input.c\<close>: \<open>ReadDeviceKeyDB\<close> reads which events of which input
  device mean which key (\<^verbatim>\<open>key.db\<close>), \<open>HandleEvents\<close> compares the events with them and logs those that
  fit. How the monitor is stopped is in \<^verbatim>\<open>Aro_Session\<close>.

  A file is its characters. The table of keys is one array of rows of \<open>MAX_KEY_ENTRIES\<close>, and the code does not
  check the end of a row: it is modelled flat, as it is in memory, and an access outside the array is an error.
  A local variable that has no value yet is \<open>None\<close>.
\<close>

section \<open>The C library's text functions\<close>

datatype input_error =
  BadIndex    \<comment> \<open>an access outside an array\<close>
| Uninit      \<comment> \<open>a variable is read before it has a value\<close>
| IntRange    \<comment> \<open>a number that is no \<open>int\<close>\<close>

abbreviation newline :: char where "newline \<equiv> CHR 0x0A"

text \<open>\<open>fgets\<close> with room for \<open>n\<close> characters: a line with its end, or what there is room for.\<close>

fun fgets :: "nat \<Rightarrow> string \<Rightarrow> string \<times> string" where
  "fgets 0 s = ([], s)"
| "fgets (Suc n) [] = ([], [])"
| "fgets (Suc n) (c # s) =
     (if c = newline then ([c], s) else case fgets n s of (l, r) \<Rightarrow> (c # l, r))"

lemma fgets_append: "fgets n s = (l, r) \<Longrightarrow> s = l @ r"
  by (induction n s arbitrary: l r rule: fgets.induct) (auto split: if_splits prod.splits)

lemma fgets_shorter:
  assumes "s \<noteq> []" and "fgets n s = (l, r)" and "0 < n" shows "length r < length s"
proof -
  have "l \<noteq> []" using assms by (cases n; cases s) (auto split: if_splits prod.splits)
  then show ?thesis using fgets_append [OF assms(2)] by simp
qed

text \<open>\<open>strtok\<close> with the separator \<open>:\<close> - the token and what later calls go on with.\<close>

definition strtok :: "string \<Rightarrow> (string \<times> string) option" where
  "strtok s =
     (case dropWhile (\<lambda>c. c = CHR '':'') s of
        [] \<Rightarrow> None
      | t \<Rightarrow> Some (takeWhile (\<lambda>c. c \<noteq> CHR '':'') t, drop 1 (dropWhile (\<lambda>c. c \<noteq> CHR '':'') t)))"

text \<open>Is there an occurrence of \<open>p\<close> (\<open>strstr\<close>)?\<close>

fun strstr :: "string \<Rightarrow> string \<Rightarrow> bool" where
  "strstr [] p \<longleftrightarrow> p = []"
| "strstr (c # s) p \<longleftrightarrow> take (length p) (c # s) = p \<or> strstr s p"

definition isspace :: "char \<Rightarrow> bool" where
  "isspace c \<longleftrightarrow> c \<in> {CHR '' '', CHR 0x09, CHR 0x0A, CHR 0x0B, CHR 0x0C, CHR 0x0D}"

text \<open>One \<open>%d\<close> of \<open>sscanf\<close>: \<open>None\<close> if there is no number.\<close>

definition scan_number :: "string \<Rightarrow> (int \<times> string) option" where
  "scan_number s =
     (if s = [] \<or> \<not> is_digit (hd s) then None else Some (digits_val 0 s, dropWhile is_digit s))"

definition scan_int :: "string \<Rightarrow> (int \<times> string) option" where
  "scan_int s =
     (case dropWhile isspace s of
        [] \<Rightarrow> None
      | c # t \<Rightarrow>
          if c = CHR ''-'' then map_option (\<lambda>(v, r). (- v, r)) (scan_number t)
          else if c = CHR ''+'' then scan_number t
          else scan_number (c # t))"

text \<open>\<open>sscanf\<close> with \<open>n\<close> times \<open>%d\<close>: the numbers up to the first that is missing.\<close>

fun sscanf_ints :: "nat \<Rightarrow> string \<Rightarrow> input_error + int list" where
  "sscanf_ints 0 s = Inr []"
| "sscanf_ints (Suc n) s =
     (case scan_int s of
        None \<Rightarrow> Inr []
      | Some (v, r) \<Rightarrow>
          if v < - 2147483648 \<or> v > 2147483647 then Inl IntRange
          else (case sscanf_ints n r of Inl e \<Rightarrow> Inl e | Inr vs \<Rightarrow> Inr (v # vs)))"

section \<open>The tables\<close>

record key_entry =
  k_arg1 :: int
  k_arg2 :: int
  k_arg3 :: int
  k_event :: int
  k_action :: int

record device =
  dv_name :: string
  dv_search :: string
  dv_id :: int

abbreviation (input) MAX_DEVICES :: nat where "MAX_DEVICES \<equiv> 20"
abbreviation (input) MAX_INPUT_FILE_ID :: nat where "MAX_INPUT_FILE_ID \<equiv> 12"
abbreviation (input) MAX_KEY_ENTRIES :: nat where "MAX_KEY_ENTRIES \<equiv> 15"
abbreviation (input) DEVICE_AGNOSTIC :: int where "DEVICE_AGNOSTIC \<equiv> 1"
abbreviation (input) N_ROWS :: nat where "N_ROWS \<equiv> 13"

text \<open>\<open>db_key\<close> is \<open>keyEntries\<close>, \<open>db_count\<close> \<open>nKeyEntries\<close>, \<open>db_devices\<close> the used part of
  \<open>gDeviceKeyArray\<close>, \<open>db_sleep\<close> \<open>sleeptimeforbearerchange\<close>; \<open>db_vars\<close> are the seven variables \<open>sscanf\<close> fills.\<close>

record keydb =
  db_device :: int
  db_key :: "nat \<Rightarrow> key_entry"
  db_count :: "nat \<Rightarrow> nat"
  db_devices :: "device list"
  db_sleep :: int
  db_vars :: "int option list"

text \<open>\<open>keyEntries[input_file][nKeyEntries[input_file]++] = ke\<close>.\<close>

definition put_key :: "int \<Rightarrow> key_entry \<Rightarrow> keydb \<Rightarrow> input_error + keydb" where
  "put_key input_file ke db =
     (if input_file < 0 \<or> input_file > int MAX_INPUT_FILE_ID then Inl BadIndex
      else
        let i = nat input_file; pos = i * MAX_KEY_ENTRIES + db_count db i in
        if pos \<ge> N_ROWS * MAX_KEY_ENTRIES then Inl BadIndex
        else Inr (db\<lparr>db_key := (db_key db)(pos := ke), db_count := (db_count db)(i := db_count db i + 1)\<rparr>))"

section \<open>\<open>ReadDeviceKeyDB\<close>\<close>

text \<open>A line that starts with \<open>DEVICE\<close>: name, search string and number between colons. The device is ours if the
  search string is in \<open>gszDeviceLine\<close>.\<close>

definition found_device :: "string \<Rightarrow> device \<Rightarrow> keydb \<Rightarrow> keydb" where
  "found_device devline d db =
     (if devline \<noteq> [] \<and> strstr devline (dv_search d)
      then db\<lparr>db_device := dv_id d, db_sleep := (if dv_id d = 9 then 8 else db_sleep db)\<rparr>
      else db)"

definition device_line :: "string \<Rightarrow> string \<Rightarrow> keydb \<Rightarrow> keydb" where
  "device_line devline line db =
     (case strtok line of None \<Rightarrow> db
      | Some (_, r1) \<Rightarrow>
        (case strtok r1 of None \<Rightarrow> db
         | Some (name, r2) \<Rightarrow>
             if length (db_devices db) \<ge> MAX_DEVICES then db
             else
               let d0 = \<lparr>dv_name = take 39 name, dv_search = [], dv_id = 0\<rparr> in
               (case strtok r2 of None \<Rightarrow> db\<lparr>db_devices := db_devices db @ [d0]\<rparr>
                | Some (search, r3) \<Rightarrow>
                    let d = d0\<lparr>dv_search := take 39 search,
                          dv_id := (case strtok r3 of None \<Rightarrow> 0 | Some (n, _) \<Rightarrow> atoi n)\<rparr>
                    in found_device devline d (db\<lparr>db_devices := db_devices db @ [d]\<rparr>))))"

text \<open>Any other line: the key is kept if it is for our device, or for all. \<open>True\<close>: the last line.\<close>

definition use_key :: "keydb \<Rightarrow> input_error + keydb \<times> bool" where
  "use_key db =
     (case db_vars db of
        Some dev # vs \<Rightarrow>
          if dev = - 1 then Inr (db, True)
          else if dev \<noteq> db_device db \<and> dev \<noteq> DEVICE_AGNOSTIC then Inr (db, False)
          else (case vs of
             [Some f, Some a1, Some a2, Some a3, Some ev, Some ac] \<Rightarrow>
               map_sum id (\<lambda>db'. (db', False)) (put_key f \<lparr>k_arg1 = a1, k_arg2 = a2, k_arg3 = a3, k_event = ev, k_action = ac\<rparr> db)
           | _ \<Rightarrow> Inl Uninit)
      | _ \<Rightarrow> Inl Uninit)"

definition key_line :: "string \<Rightarrow> keydb \<Rightarrow> input_error + keydb \<times> bool" where
  "key_line line db =
     (case sscanf_ints 7 line of Inl e \<Rightarrow> Inl e
      | Inr vs \<Rightarrow> use_key (db\<lparr>db_vars := map Some vs @ drop (length vs) (db_vars db)\<rparr>))"

definition db_line :: "string \<Rightarrow> string \<Rightarrow> keydb \<Rightarrow> input_error + keydb \<times> bool" where
  "db_line devline line db =
     (if length line \<le> 5 then Inr (db, False)
      else if take 6 line = ''DEVICE'' then Inr (device_line devline line db, False)
      else key_line line db)"

function read_db :: "string \<Rightarrow> string \<Rightarrow> keydb \<Rightarrow> input_error + keydb" where
  "read_db devline file db =
     (if file = [] then Inr db
      else case fgets 254 file of (line, rest) \<Rightarrow>
        (case db_line devline line db of
           Inl e \<Rightarrow> Inl e
         | Inr (db', stop) \<Rightarrow> if stop then Inr db' else read_db devline rest db'))"
  by pat_completeness auto
termination
  by (relation "measure (\<lambda>(_, file, _). length file)") (auto dest: fgets_shorter [OF _ sym])

declare read_db.simps [simp del]

definition empty_db :: keydb where
  "empty_db = \<lparr>db_device = - 1, db_key = (\<lambda>_. \<lparr>k_arg1 = 0, k_arg2 = 0, k_arg3 = 0, k_event = 0, k_action = 0\<rparr>),
     db_count = (\<lambda>_. 0), db_devices = [], db_sleep = 8, db_vars = replicate 7 None\<rparr>"

definition ReadDeviceKeyDB :: "string \<Rightarrow> string \<Rightarrow> input_error + keydb" where
  "ReadDeviceKeyDB devline file = read_db devline file empty_db"

text \<open>\<open>GetMyDeviceType\<close>: \<open>gszDeviceLine\<close> is the first line of the properties with the device.\<close>

function GetMyDeviceType :: "string \<Rightarrow> string" where
  "GetMyDeviceType props =
     (if props = [] then []
      else case fgets 1023 props of (buf, rest) \<Rightarrow>
        if strstr buf ''[ro.product.device]'' then take 255 buf else GetMyDeviceType rest)"
  by pat_completeness auto
termination
  by (relation "measure length") (auto dest: fgets_shorter [OF _ sym])

declare GetMyDeviceType.simps [simp del]

end
