(* ===== verification/Aro_Keys.thy ===== *)
theory Aro_Keys
  imports Aro_Input
begin

text \<open>
  What \<open>ReadDeviceKeyDB\<close> makes of a file of keys that a person would write: lines for the devices, then lines for
  the keys. The first part prints such a file; the second relates reading it to \<open>add_keys\<close>, which goes over the
  keys themselves; the third says what the table is, and what becomes of it when a row is too long.
\<close>

section \<open>Printing\<close>

definition int_text :: "int \<Rightarrow> string" where
  "int_text v = (if v < 0 then CHR ''-'' # decimal (nat (- v)) else decimal (nat v))"

record key_spec =
  ks_device :: int
  ks_file :: int
  ks_entry :: key_entry

definition key_ints :: "key_spec \<Rightarrow> int list" where
  "key_ints k = [ks_device k, ks_file k, k_arg1 (ks_entry k), k_arg2 (ks_entry k), k_arg3 (ks_entry k),
     k_event (ks_entry k), k_action (ks_entry k)]"

fun ints_text :: "int list \<Rightarrow> string" where
  "ints_text [] = []"
| "ints_text [v] = int_text v"
| "ints_text (v # vs) = int_text v @ CHR 0x09 # ints_text vs"

definition key_text :: "key_spec \<Rightarrow> string" where
  "key_text k = ints_text (key_ints k) @ [newline]"

definition device_text :: "device \<Rightarrow> string" where
  "device_text d = ''DEVICE:'' @ dv_name d @ '':'' @ dv_search d @ '':'' @ int_text (dv_id d) @ [newline]"

definition key_db_text :: "device list \<Rightarrow> key_spec list \<Rightarrow> string" where
  "key_db_text ds ks = concat (map device_text ds) @ concat (map key_text ks)"

definition c_int :: "int \<Rightarrow> bool" where
  "c_int v \<longleftrightarrow> - 2147483648 \<le> v \<and> v \<le> 2147483647"

definition plain_name :: "string \<Rightarrow> bool" where
  "plain_name s \<longleftrightarrow> s \<noteq> [] \<and> length s \<le> 39 \<and> CHR '':'' \<notin> set s \<and> newline \<notin> set s"

definition device_fits :: "device \<Rightarrow> bool" where
  "device_fits d \<longleftrightarrow> plain_name (dv_name d) \<and> plain_name (dv_search d) \<and> c_int (dv_id d)"

definition key_fits :: "key_spec \<Rightarrow> bool" where
  "key_fits k \<longleftrightarrow> (\<forall>v \<in> set (key_ints k). c_int v)"

section \<open>Numbers\<close>

definition no_digit_first :: "string \<Rightarrow> bool" where
  "no_digit_first s \<longleftrightarrow> s = [] \<or> \<not> is_digit (hd s)"

lemma no_digit_first_simps [simp]:
  "no_digit_first []" "no_digit_first (c # s) \<longleftrightarrow> \<not> is_digit c"
  by (simp_all add: no_digit_first_def)

lemma is_digit_consts [simp]:
  "\<not> is_digit CHR 0x09" "\<not> is_digit CHR 0x0A" "\<not> is_digit CHR ''-''" "\<not> is_digit CHR '':''" "\<not> is_digit CHR ''+''"
  by (simp_all add: is_digit_def cval_def)

lemma is_digit_digit: "d < 10 \<Longrightarrow> is_digit (digit d)"
  by (simp add: is_digit_def cval_def digit_code)

lemma decimal_is_digit: "c \<in> set (decimal n) \<Longrightarrow> is_digit c"
  using decimal_digits is_digit_digit by blast

lemma digits_val_append:
  "\<forall>c \<in> set s. is_digit c \<Longrightarrow> digits_val r (s @ t) = digits_val (digits_val r s) t"
  by (induction s arbitrary: r) auto

lemma digits_val_stop: "no_digit_first s \<Longrightarrow> digits_val r s = r"
  by (cases s) auto

lemma digits_val_digit: "d < 10 \<Longrightarrow> digits_val r [digit d] = 10 * r + int d"
  by (simp add: is_digit_digit) (simp add: cval_def digit_code)

lemma digits_val_decimal0: "digits_val 0 (decimal n) = int n"
proof (induction n rule: decimal.induct)
  case (1 n)
  show ?case
  proof (cases "n < 10")
    case True
    then show ?thesis using digits_val_digit [of n 0] by (subst decimal.simps) simp
  next
    case False
    have "digits_val 0 (decimal n) = digits_val (digits_val 0 (decimal (n div 10))) [digit (n mod 10)]"
      using False digits_val_append [of "decimal (n div 10)"] decimal_is_digit by (subst decimal.simps) simp
    then show ?thesis using "1.IH" False digits_val_digit [of "n mod 10"] by (simp only:) presburger
  qed
qed

lemma digits_val_decimal: "no_digit_first s \<Longrightarrow> digits_val 0 (decimal n @ s) = int n"
  using digits_val_append [of "decimal n" 0 s] decimal_is_digit
  by (simp add: digits_val_decimal0 digits_val_stop)

lemma dropWhile_decimal: "no_digit_first s \<Longrightarrow> dropWhile is_digit (decimal n @ s) = s"
  using decimal_is_digit by (subst dropWhile_append2) (cases s; auto)+

lemma hd_decimal: "is_digit (hd (decimal n))"
  using decimal_is_digit [of "hd (decimal n)" n] by simp

lemma scan_number_decimal: "no_digit_first s \<Longrightarrow> scan_number (decimal n @ s) = Some (int n, s)"
  by (simp add: scan_number_def digits_val_decimal dropWhile_decimal hd_decimal)

lemma digit_not_space: "is_digit c \<Longrightarrow> \<not> isspace c"
  by (auto simp: is_digit_def isspace_def cval_def)

lemma decimal_Cons: obtains c t where "decimal n = c # t" "is_digit c"
  using hd_decimal [of n] by (cases "decimal n") auto

lemma dropWhile_space_int_text: "dropWhile isspace (int_text v @ s) = int_text v @ s"
  using digit_not_space by (auto simp: int_text_def isspace_def intro: decimal_Cons [of "nat v"])

lemma scan_int_text: "no_digit_first s \<Longrightarrow> scan_int (int_text v @ s) = Some (v, s)"
proof (cases "v < 0")
  case True
  moreover assume "no_digit_first s"
  ultimately show ?thesis
    by (simp add: scan_int_def dropWhile_space_int_text) (simp add: int_text_def scan_number_decimal)
next
  case False
  moreover assume "no_digit_first s"
  moreover obtain c t where "decimal (nat v) = c # t" "is_digit c" by (rule decimal_Cons)
  ultimately show ?thesis using scan_number_decimal [of s "nat v"]
    by (simp add: scan_int_def dropWhile_space_int_text) (auto simp: int_text_def)
qed

lemma scan_int_space [simp]: "isspace c \<Longrightarrow> scan_int (c # s) = scan_int s"
  by (simp add: scan_int_def)

lemma sscanf_ints_text:
  "\<forall>v \<in> set vs. c_int v \<Longrightarrow> no_digit_first s \<Longrightarrow>
   sscanf_ints (length vs) (ints_text vs @ s) = Inr vs"
proof (induction vs rule: ints_text.induct)
  case (2 v)
  then show ?case by (auto simp: scan_int_text c_int_def)
next
  case (3 v w vs)
  have "scan_int (int_text v @ CHR 0x09 # ints_text (w # vs) @ s) = Some (v, CHR 0x09 # ints_text (w # vs) @ s)"
    by (rule scan_int_text) simp
  moreover have "sscanf_ints (length (w # vs)) (CHR 0x09 # ints_text (w # vs) @ s) =
      sscanf_ints (length (w # vs)) (ints_text (w # vs) @ s)"
    by (simp add: isspace_def)
  ultimately show ?case using 3 by (simp del: sscanf_ints.simps add: sscanf_ints.simps(2) [of "Suc (length vs)"] c_int_def)
qed simp

section \<open>Lines\<close>

lemma fgets_line:
  "newline \<notin> set l \<Longrightarrow> length l < n \<Longrightarrow> fgets n (l @ newline # s) = (l @ [newline], s)"
proof (induction l arbitrary: n)
  case Nil
  then show ?case by (cases n) auto
next
  case (Cons c l)
  then show ?case by (cases n) auto
qed

lemma read_db_line:
  assumes "newline \<notin> set l" and "length l < 254"
  shows "read_db dl (l @ newline # s) db =
    (case db_line dl (l @ [newline]) db of Inl e \<Rightarrow> Inl e
     | Inr (db', stop) \<Rightarrow> if stop then Inr db' else read_db dl s db')"
  using fgets_line [OF assms] by (subst read_db.simps) simp

lemma digit_not_newline: "is_digit c \<Longrightarrow> c \<noteq> newline"
  by auto

lemma int_text_chars: "c \<in> set (int_text v) \<Longrightarrow> is_digit c \<or> c = CHR ''-''"
  using decimal_is_digit by (auto simp: int_text_def split: if_splits)

lemma ints_text_chars: "c \<in> set (ints_text vs) \<Longrightarrow> is_digit c \<or> c = CHR ''-'' \<or> c = CHR 0x09"
  using int_text_chars by (induction vs rule: ints_text.induct) auto

lemma newline_ints_text: "newline \<notin> set (ints_text vs)" "newline \<notin> set (int_text v)"
  using ints_text_chars [of newline vs] int_text_chars [of newline v] by auto

lemma length_int_text: "c_int v \<Longrightarrow> length (int_text v) \<le> 11" "int_text v \<noteq> []"
proof -
  assume "c_int v"
  then have "nat (- v) < 10 ^ Suc 9" "nat v < 10 ^ Suc 9" by (auto simp: c_int_def)
  then show "length (int_text v) \<le> 11"
    using length_decimal [of "nat (- v)" 9] length_decimal [of "nat v" 9] by (simp add: int_text_def)
qed (simp add: int_text_def)

lemma length_ints_text:
  "\<forall>v \<in> set vs. c_int v \<Longrightarrow> length (ints_text vs) \<le> 12 * length vs"
  "2 * length vs - 1 \<le> length (ints_text vs)"
proof (induction vs rule: ints_text.induct)
  case (2 v)
  {
    case 1 then show ?case using length_int_text(1) [of v] by simp
  next
    case 2 then show ?case using length_int_text(2) [of v] by (simp add: Suc_leI)
  }
next
  case (3 v w vs)
  {
    case 1 then show ?case using length_int_text(1) [of v] "3.IH"(1) by simp
  next
    case 2 then show ?case using length_int_text(2) [of v] "3.IH"(2) by (cases "int_text v") simp_all
  }
qed simp_all

text \<open>A line for a key is seven numbers.\<close>

lemma length_key_ints [simp]: "length (key_ints k) = 7"
  by (simp add: key_ints_def)

lemma ints_text_hd:
  assumes "vs \<noteq> []" obtains c t where "ints_text vs = c # t" "is_digit c \<or> c = CHR ''-''"
proof -
  obtain v ws where vs: "vs = v # ws" using assms by (cases vs) auto
  obtain c t where c: "int_text v = c # t" using length_int_text(2) [of v] by (cases "int_text v") auto
  then have "\<exists>u. ints_text vs = c # u" using vs by (cases ws) auto
  then show thesis using that int_text_chars [of c v] c by auto
qed

lemma db_line_key:
  assumes "key_fits k"
  shows "db_line dl (key_text k) db = use_key (db\<lparr>db_vars := map Some (key_ints k) @ drop 7 (db_vars db)\<rparr>)"
proof -
  have len: "5 < length (key_text k)" using length_ints_text(2) [of "key_ints k"] by (simp add: key_text_def)
  obtain c t where ct: "ints_text (key_ints k) = c # t" "is_digit c \<or> c = CHR ''-''"
    by (rule ints_text_hd [of "key_ints k"]) (auto simp: key_ints_def)
  have "\<not> is_digit CHR ''D''" by (simp add: is_digit_def cval_def)
  then have "c \<noteq> CHR ''D''" using ct by auto
  then have "take 6 (key_text k) \<noteq> ''DEVICE''" using ct by (simp add: key_text_def)
  moreover have "sscanf_ints 7 (key_text k) = Inr (key_ints k)"
    using sscanf_ints_text [of "key_ints k" "[newline]"] assms by (simp add: key_text_def key_fits_def)
  ultimately show ?thesis using len by (simp add: db_line_def key_line_def)
qed

text \<open>A line for a device.\<close>

lemma takeWhile_colon: "c \<notin> set s \<Longrightarrow> takeWhile (\<lambda>x. x \<noteq> c) (s @ c # t) = s"
  by (induction s) auto

lemma dropWhile_colon: "c \<notin> set s \<Longrightarrow> dropWhile (\<lambda>x. x \<noteq> c) (s @ c # t) = c # t"
  by (induction s) auto

lemma strtok_field:
  "s \<noteq> [] \<Longrightarrow> CHR '':'' \<notin> set s \<Longrightarrow> strtok (s @ CHR '':'' # t) = Some (s, t)"
  by (cases s) (auto simp: strtok_def takeWhile_colon dropWhile_colon)

lemma strtok_last:
  assumes "s \<noteq> []" and "CHR '':'' \<notin> set s" shows "strtok s = Some (s, [])"
proof -
  have "dropWhile (\<lambda>c. c = CHR '':'') s = s" using assms by (cases s) auto
  moreover have "takeWhile (\<lambda>c. c \<noteq> CHR '':'') s = s" "dropWhile (\<lambda>c. c \<noteq> CHR '':'') s = []"
    using assms(2) by (auto simp: takeWhile_eq_all_conv)
  ultimately show ?thesis using assms(1) by (cases s) (simp_all add: strtok_def)
qed

lemma atoi_isspace:
  "atoi s = (case dropWhile isspace s of [] \<Rightarrow> 0
     | c # cs \<Rightarrow>
         (if c = CHR ''-'' then clamp_int (- digits_val 0 cs)
          else if c = CHR ''+'' then clamp_int (digits_val 0 cs)
          else clamp_int (digits_val 0 (c # cs))))"
proof -
  have "isspace = (\<lambda>c. c \<in> {CHR '' '', CHR 0x09, CHR 0x0A, CHR 0x0B, CHR 0x0C, CHR 0x0D})"
    by (simp add: isspace_def fun_eq_iff)
  then show ?thesis by (simp only: atoi_def Let_def) (rule list.case_cong; simp)
qed

lemma atoi_int_text:
  assumes "c_int v" shows "atoi (int_text v @ [newline]) = v"
proof (cases "v < 0")
  case True
  then show ?thesis using assms digits_val_decimal [of "[newline]" "nat (- v)"]
    by (simp add: atoi_isspace dropWhile_space_int_text) (simp add: int_text_def clamp_int_def c_int_def)
next
  case False
  then have i: "int_text v = decimal (nat v)" by (simp add: int_text_def)
  obtain c t where ct: "decimal (nat v) = c # t" "is_digit c" by (rule decimal_Cons)
  have "c \<noteq> CHR ''-''" "c \<noteq> CHR ''+''" using ct(2) by auto
  then have "atoi (int_text v @ [newline]) = clamp_int (digits_val 0 (decimal (nat v) @ [newline]))"
    using ct(1) by (simp add: atoi_isspace dropWhile_space_int_text del: digits_val.simps) (simp add: i del: digits_val.simps)
  then show ?thesis using False assms digits_val_decimal [of "[newline]" "nat v"] by (simp add: clamp_int_def c_int_def)
qed

lemma db_line_device:
  assumes "device_fits d" and "length (db_devices db) < MAX_DEVICES"
  shows "db_line dl (device_text d) db = Inr (found_device dl d (db\<lparr>db_devices := db_devices db @ [d]\<rparr>), False)"
proof -
  have n: "dv_name d \<noteq> []" "CHR '':'' \<notin> set (dv_name d)" "dv_search d \<noteq> []" "CHR '':'' \<notin> set (dv_search d)"
    "take 39 (dv_name d) = dv_name d" "take 39 (dv_search d) = dv_search d" "c_int (dv_id d)"
    using assms(1) by (simp_all add: device_fits_def plain_name_def)
  have "CHR '':'' \<notin> set (int_text (dv_id d) @ [newline])" using int_text_chars [of "CHR '':''" "dv_id d"] by auto
  then have t: "strtok (int_text (dv_id d) @ [newline]) = Some (int_text (dv_id d) @ [newline], [])"
    by (rule strtok_last [rotated]) simp
  have "strtok (device_text d) = Some (''DEVICE'', dv_name d @ '':'' @ dv_search d @ '':'' @ int_text (dv_id d) @ [newline])"
    using strtok_field [of "''DEVICE''"] by (simp add: device_text_def)
  then have "device_line dl (device_text d) db = found_device dl d (db\<lparr>db_devices := db_devices db @ [d]\<rparr>)"
    using assms(2) n t by (cases d) (simp add: device_line_def strtok_field atoi_int_text Let_def)
  then show ?thesis by (simp add: db_line_def) (simp add: device_text_def)
qed

section \<open>Reading the file\<close>

text \<open>What the lines for the keys do, one after the other.\<close>

definition with_key :: "key_spec \<Rightarrow> keydb \<Rightarrow> keydb" where
  "with_key k db = db\<lparr>db_vars := map Some (key_ints k)\<rparr>"

fun add_keys :: "key_spec list \<Rightarrow> keydb \<Rightarrow> input_error + keydb" where
  "add_keys [] db = Inr db"
| "add_keys (k # ks) db =
     (case use_key (with_key k db) of Inl e \<Rightarrow> Inl e
      | Inr (db', stop) \<Rightarrow> if stop then Inr db' else add_keys ks db')"

fun add_devices :: "string \<Rightarrow> device list \<Rightarrow> keydb \<Rightarrow> keydb" where
  "add_devices dl [] db = db"
| "add_devices dl (d # ds) db =
     add_devices dl ds (found_device dl d (db\<lparr>db_devices := db_devices db @ [d]\<rparr>))"

lemma put_key_vars: "put_key f ke db = Inr db' \<Longrightarrow> db_vars db' = db_vars db \<and> db_device db' = db_device db"
  by (auto simp: put_key_def Let_def split: if_splits)

lemma use_key_vars:
  "use_key db = Inr (db', stop) \<Longrightarrow> db_vars db' = db_vars db \<and> db_device db' = db_device db"
  by (auto simp: use_key_def map_sum_def put_key_vars split: list.splits option.splits if_splits sum.splits)

lemma read_db_keys:
  "\<forall>k \<in> set ks. key_fits k \<Longrightarrow> length (db_vars db) = 7 \<Longrightarrow>
   read_db dl (concat (map key_text ks)) db = add_keys ks db"
proof (induction ks arbitrary: db)
  case Nil
  then show ?case by (subst read_db.simps) simp
next
  case (Cons k ks)
  have k: "key_fits k" using Cons.prems by simp
  have len: "length (ints_text (key_ints k)) < 254"
    using length_ints_text(1) [of "key_ints k"] k by (simp add: key_fits_def)
  have line: "db_line dl (key_text k) db = use_key (with_key k db)"
    using db_line_key [OF k, of dl db] Cons.prems(2) by (simp add: with_key_def)
  have "db_vars db' = map Some (key_ints k)" if "use_key (with_key k db) = Inr (db', stop)" for db' stop
    using use_key_vars [OF that] by (simp add: with_key_def)
  then have "length (db_vars db') = 7" if "use_key (with_key k db) = Inr (db', stop)" for db' stop
    using that by fastforce
  then show ?case
    using read_db_line [OF newline_ints_text(1) len, of dl "concat (map key_text ks)" db] line Cons.IH Cons.prems(1)
    by (simp add: key_text_def [abs_def] split: sum.split)
qed

lemma found_device_fields [simp]:
  "db_devices (found_device dl d db) = db_devices db" "db_vars (found_device dl d db) = db_vars db"
  "db_count (found_device dl d db) = db_count db" "db_key (found_device dl d db) = db_key db"
  by (simp_all add: found_device_def)

lemma add_devices_fields [simp]:
  "db_devices (add_devices dl ds db) = db_devices db @ ds" "db_vars (add_devices dl ds db) = db_vars db"
  "db_count (add_devices dl ds db) = db_count db" "db_key (add_devices dl ds db) = db_key db"
  by (induction ds arbitrary: db) simp_all

lemma device_text_line:
  assumes "device_fits d"
  obtains l where "device_text d = l @ [newline]" "newline \<notin> set l" "length l < 254"
proof
  show "device_text d = (''DEVICE:'' @ dv_name d @ '':'' @ dv_search d @ '':'' @ int_text (dv_id d)) @ [newline]"
    by (simp add: device_text_def)
  show "newline \<notin> set (''DEVICE:'' @ dv_name d @ '':'' @ dv_search d @ '':'' @ int_text (dv_id d))"
    using assms newline_ints_text(2) by (simp add: device_fits_def plain_name_def)
  show "length (''DEVICE:'' @ dv_name d @ '':'' @ dv_search d @ '':'' @ int_text (dv_id d)) < 254"
    using assms length_int_text(1) [of "dv_id d"] by (simp add: device_fits_def plain_name_def)
qed

lemma read_db_devices:
  "\<forall>d \<in> set ds. device_fits d \<Longrightarrow> length (db_devices db) + length ds \<le> MAX_DEVICES \<Longrightarrow>
   read_db dl (concat (map device_text ds) @ s) db = read_db dl s (add_devices dl ds db)"
proof (induction ds arbitrary: db)
  case (Cons d ds)
  have d: "device_fits d" "length (db_devices db) < MAX_DEVICES" using Cons.prems by auto
  obtain l where l: "device_text d = l @ [newline]" "newline \<notin> set l" "length l < 254"
    using device_text_line [OF d(1)] .
  show ?case
    using read_db_line [OF l(2,3), of dl "concat (map device_text ds) @ s" db] db_line_device [OF d, of dl] l(1)
      Cons.IH [of "found_device dl d (db\<lparr>db_devices := db_devices db @ [d]\<rparr>)"] Cons.prems
    by simp
qed simp

lemma ReadDeviceKeyDB_text:
  assumes "\<forall>d \<in> set ds. device_fits d" and "length ds \<le> MAX_DEVICES" and "\<forall>k \<in> set ks. key_fits k"
  shows "ReadDeviceKeyDB dl (key_db_text ds ks) = add_keys ks (add_devices dl ds empty_db)"
proof -
  have "read_db dl (key_db_text ds ks) empty_db = read_db dl (concat (map key_text ks)) (add_devices dl ds empty_db)"
    using read_db_devices [OF assms(1), of empty_db dl] assms(2) by (simp add: key_db_text_def empty_db_def)
  also have "\<dots> = add_keys ks (add_devices dl ds empty_db)"
    using assms(3) by (rule read_db_keys) (simp add: empty_db_def)
  finally show ?thesis by (simp add: ReadDeviceKeyDB_def)
qed

section \<open>The table\<close>

definition my_device :: "string \<Rightarrow> device list \<Rightarrow> int" where
  "my_device dl ds =
     (case filter (\<lambda>d. dl \<noteq> [] \<and> strstr dl (dv_search d)) ds of [] \<Rightarrow> - 1 | m \<Rightarrow> dv_id (last m))"

definition keys_of :: "int \<Rightarrow> key_spec list \<Rightarrow> nat \<Rightarrow> key_entry list" where
  "keys_of dev ks i =
     map ks_entry (filter (\<lambda>k. (ks_device k = dev \<or> ks_device k = DEVICE_AGNOSTIC) \<and> ks_file k = int i) ks)"

text \<open>The row of an input file, as \<open>HandleEvents\<close> reads it.\<close>

definition db_row :: "keydb \<Rightarrow> nat \<Rightarrow> key_entry list" where
  "db_row db i = map (\<lambda>k. db_key db (i * MAX_KEY_ENTRIES + k)) [0..<db_count db i]"

lemma add_devices_device:
  "db_device (add_devices dl ds db) =
     (case filter (\<lambda>d. dl \<noteq> [] \<and> strstr dl (dv_search d)) ds of [] \<Rightarrow> db_device db | m \<Rightarrow> dv_id (last m))"
  by (induction ds arbitrary: db) (auto simp: found_device_def split: list.split)

lemma use_key_with_key:
  "use_key (with_key k db) =
     (if ks_device k = - 1 then Inr (with_key k db, True)
      else if ks_device k = db_device db \<or> ks_device k = DEVICE_AGNOSTIC
      then map_sum id (\<lambda>db'. (db', False)) (put_key (ks_file k) (ks_entry k) (with_key k db))
      else Inr (with_key k db, False))"
  by (cases "ks_entry k") (auto simp: use_key_def with_key_def key_ints_def)

lemma put_key_row:
  assumes "i \<le> MAX_INPUT_FILE_ID" and "db_count db i < MAX_KEY_ENTRIES" and "\<forall>j. db_count db j \<le> MAX_KEY_ENTRIES"
  shows "\<exists>db'. put_key (int i) ke db = Inr db' \<and> db_device db' = db_device db \<and> db_devices db' = db_devices db \<and>
    db_count db' = (db_count db)(i := db_count db i + 1) \<and>
    (\<forall>j. db_row db' j = (if j = i then db_row db j @ [ke] else db_row db j))"
proof -
  let ?p = "i * MAX_KEY_ENTRIES + db_count db i"
  let ?db = "db\<lparr>db_key := (db_key db)(?p := ke), db_count := (db_count db)(i := db_count db i + 1)\<rparr>"
  have "?p < N_ROWS * MAX_KEY_ENTRIES" using assms by simp
  then have put: "put_key (int i) ke db = Inr ?db" using assms(1) by (simp add: put_key_def Let_def)
  have other: "j * MAX_KEY_ENTRIES + k \<noteq> ?p" if "j \<noteq> i" "k < db_count db j" for j k
  proof
    assume e: "j * MAX_KEY_ENTRIES + k = ?p"
    have "k < MAX_KEY_ENTRIES" using that(2) assms(3) by (meson less_le_trans)
    then have "(j * MAX_KEY_ENTRIES + k) div MAX_KEY_ENTRIES = j" by simp
    moreover have "?p div MAX_KEY_ENTRIES = i" using assms(2) by simp
    ultimately show False using e that(1) by metis
  qed
  then have "db_row ?db j = (if j = i then db_row db j @ [ke] else db_row db j)" for j
    by (auto simp: db_row_def)
  then show ?thesis using put by auto
qed

lemma db_row_with_key [simp]: "db_row (with_key k db) = db_row db"
  by (simp add: db_row_def with_key_def fun_eq_iff)

lemma with_key_fields [simp]: "db_count (with_key k db) = db_count db" "db_device (with_key k db) = db_device db"
  "db_devices (with_key k db) = db_devices db"
  by (simp_all add: with_key_def)

lemma length_db_row [simp]: "length (db_row db i) = db_count db i"
  by (simp add: db_row_def)

lemma keys_of_Cons:
  "keys_of dev (k # ks) i =
     (if (ks_device k = dev \<or> ks_device k = DEVICE_AGNOSTIC) \<and> ks_file k = int i then [ks_entry k] else []) @ keys_of dev ks i"
  by (simp add: keys_of_def)

lemma add_keys_rows:
  assumes "\<forall>k \<in> set ks. ks_device k \<noteq> - 1 \<and> 0 \<le> ks_file k \<and> ks_file k \<le> int MAX_INPUT_FILE_ID"
    and "\<forall>i. db_count db i + length (keys_of (db_device db) ks i) \<le> MAX_KEY_ENTRIES"
  shows "\<exists>db'. add_keys ks db = Inr db' \<and> db_device db' = db_device db \<and> db_devices db' = db_devices db \<and>
    (\<forall>i. db_row db' i = db_row db i @ keys_of (db_device db) ks i)"
  using assms
proof (induction ks arbitrary: db)
  case (Cons k ks)
  let ?db = "with_key k db"
  have k: "ks_device k \<noteq> - 1" "0 \<le> ks_file k" "ks_file k \<le> int MAX_INPUT_FILE_ID" using Cons.prems(1) by auto
  have rest: "\<forall>k \<in> set ks. ks_device k \<noteq> - 1 \<and> 0 \<le> ks_file k \<and> ks_file k \<le> int MAX_INPUT_FILE_ID"
    using Cons.prems(1) by auto
  show ?case
  proof (cases "ks_device k = db_device db \<or> ks_device k = DEVICE_AGNOSTIC")
    case True
    obtain i where i: "ks_file k = int i" using k(2) nonneg_int_cases by metis
    have le: "db_count db j \<le> MAX_KEY_ENTRIES" for j using Cons.prems(2) by (meson add_leD1)
    have "db_count db i + length (keys_of (db_device db) (k # ks) i) \<le> MAX_KEY_ENTRIES" using Cons.prems(2) by blast
    then have "db_count db i < MAX_KEY_ENTRIES" using True i by (simp add: keys_of_Cons)
    then obtain db1 where db1: "put_key (int i) (ks_entry k) ?db = Inr db1" "db_device db1 = db_device db"
        "db_devices db1 = db_devices db"
        "db_count db1 = (db_count db)(i := db_count db i + 1)"
        "\<And>j. db_row db1 j = (if j = i then db_row db j @ [ks_entry k] else db_row db j)"
      using put_key_row [of i ?db "ks_entry k"] k(3) i le by auto
    have "db_count db1 j + length (keys_of (db_device db1) ks j) \<le> MAX_KEY_ENTRIES" for j
      using Cons.prems(2) [rule_format, of j] True i db1(2,4) by (simp add: keys_of_Cons split: if_splits)
    then obtain db2 where "add_keys ks db1 = Inr db2" "db_device db2 = db_device db1"
        "db_devices db2 = db_devices db1"
        "\<And>i. db_row db2 i = db_row db1 i @ keys_of (db_device db1) ks i"
      using Cons.IH [OF rest] by blast
    then show ?thesis using k(1) True i db1 by (auto simp: use_key_with_key keys_of_Cons)
  next
    case False
    then have none: "keys_of (db_device db) (k # ks) i = keys_of (db_device db) ks i" for i by (simp add: keys_of_Cons)
    then have "\<forall>i. db_count ?db i + length (keys_of (db_device ?db) ks i) \<le> MAX_KEY_ENTRIES" using Cons.prems(2) by simp
    then show ?thesis using Cons.IH [OF rest, of ?db] k(1) False none by (auto simp: use_key_with_key)
  qed
qed (simp add: keys_of_def)

text \<open>C19: \<open>ReadDeviceKeyDB\<close> reads back the table that a \<^verbatim>\<open>key.db\<close> describes: if the file holds at most twenty
  lines for devices and then lines for keys, with numbers that are \<open>int\<close>s, input files 0 to 12 and no device -1, and
  no input file has more than fifteen keys that are for our device or for all, then our device is the last whose search
  string is in the line of the properties (-1 if there is none), and the row of every input file is exactly the keys
  for our device or for all, in the order of the file.\<close>

theorem key_table_read:
  assumes "\<forall>d \<in> set ds. device_fits d" and "length ds \<le> 20" and "\<forall>k \<in> set ks. key_fits k"
    and "\<forall>k \<in> set ks. ks_device k \<noteq> - 1 \<and> 0 \<le> ks_file k \<and> ks_file k \<le> 12"
    and "\<forall>i. length (keys_of (my_device dl ds) ks i) \<le> 15"
  shows "\<exists>db. ReadDeviceKeyDB dl (key_db_text ds ks) = Inr db \<and> db_devices db = ds \<and>
    db_device db = my_device dl ds \<and> (\<forall>i. db_row db i = keys_of (my_device dl ds) ks i)"
proof -
  let ?db = "add_devices dl ds empty_db"
  have dev: "db_device ?db = my_device dl ds" "db_devices ?db = ds" "db_count ?db = (\<lambda>_. 0)"
    by (simp_all add: add_devices_device my_device_def empty_db_def split: list.split)
  then obtain db where "add_keys ks ?db = Inr db" "db_device db = my_device dl ds" "db_devices db = ds"
      "\<And>i. db_row db i = keys_of (my_device dl ds) ks i"
    using add_keys_rows [of ks ?db] assms(4,5) by (auto simp: db_row_def)
  then show ?thesis using ReadDeviceKeyDB_text [OF assms(1,2,3), of dl] by auto
qed

lemma length_keys_of: "length (keys_of dev ks i) \<le> length ks"
  by (simp add: keys_of_def)

lemma key_table_read_witness:
  "\<exists>db. ReadDeviceKeyDB ''[ro.product.device]: [ace]''
      (key_db_text [\<lparr>dv_name = ''Nexus One'', dv_search = ''[passion]'', dv_id = 2\<rparr>,
         \<lparr>dv_name = ''HTC Inspire'', dv_search = ''[ace]'', dv_id = 4\<rparr>]
       [\<lparr>ks_device = 1, ks_file = 1, ks_entry = \<lparr>k_arg1 = 1, k_arg2 = 1, k_arg3 = 1, k_event = 1, k_action = 1\<rparr>\<rparr>,
        \<lparr>ks_device = 2, ks_file = 1, ks_entry = \<lparr>k_arg1 = 1, k_arg2 = 330, k_arg3 = - 1, k_event = 1, k_action = 1\<rparr>\<rparr>,
        \<lparr>ks_device = 4, ks_file = 1, ks_entry = \<lparr>k_arg1 = 3, k_arg2 = 53, k_arg3 = - 1, k_event = 1, k_action = 1\<rparr>\<rparr>]) = Inr db \<and>
     db_device db = 4 \<and>
     db_row db 1 = [\<lparr>k_arg1 = 1, k_arg2 = 1, k_arg3 = 1, k_event = 1, k_action = 1\<rparr>,
       \<lparr>k_arg1 = 3, k_arg2 = 53, k_arg3 = - 1, k_event = 1, k_action = 1\<rparr>]"
  (is "\<exists>db. ReadDeviceKeyDB ?dl (key_db_text ?ds ?ks) = _ \<and> _")
proof -
  have "my_device ?dl ?ds = 4" by (simp add: my_device_def)
  moreover have "length (keys_of (my_device ?dl ?ds) ?ks i) \<le> 15" for i
    using length_keys_of [of "my_device ?dl ?ds" ?ks i] by simp
  ultimately show ?thesis using key_table_read [of ?ds ?ks ?dl]
    by (simp add: device_fits_def plain_name_def key_fits_def key_ints_def c_int_def) (auto simp: keys_of_def)
qed

end
