(* ===== verification/Aro_Events.thy ===== *)
theory Aro_Events
  imports Aro_Keys "HOL-Library.Sublist"
begin

text \<open>
  \<open>HandleEvents\<close> of \<^verbatim>\<open>user_input.c\<close>: what of the events that are read is logged. What \<open>select\<close> and \<open>read\<close> give, the
  clock and the values of \<open>exitFlag\<close> that other threads write are parameters. First the key table that is shipped.
\<close>

section \<open>The shipped table\<close>

definition agnostic :: "int \<Rightarrow> int \<Rightarrow> int \<Rightarrow> int \<Rightarrow> int \<Rightarrow> int \<Rightarrow> key_spec" where
  "agnostic f a1 a2 a3 ev ac =
     \<lparr>ks_device = 1, ks_file = f, ks_entry = \<lparr>k_arg1 = a1, k_arg2 = a2, k_arg3 = a3, k_event = ev, k_action = ac\<rparr>\<rparr>"

text \<open>The lines of \<^verbatim>\<open>android/res/raw/key.db\<close> for all devices.\<close>

definition shipped_keys :: "key_spec list" where
  "shipped_keys = [
     agnostic 1 1 1 1 1 1, agnostic 1 1 1 0 1 2, agnostic 1 3 1 1 1 1,
     agnostic 1 3 1 0 1 2, agnostic 1 3 1 1 1 1, agnostic 1 3 1 0 1 2,
     agnostic 2 1 1 1 1 1, agnostic 1 2 1 1 1 1, agnostic 1 2 1 0 1 2,
     agnostic 2 1 1 0 1 2, agnostic 2 1 1 1 1 1, agnostic 2 1 1 0 1 2,
     agnostic 3 1 1 1 1 1, agnostic 3 1 1 0 1 2, agnostic 3 3 1 1 1 1,
     agnostic 3 3 1 0 1 2, agnostic 4 1 1 1 1 1, agnostic 4 1 1 0 1 2,
     agnostic 4 3 1 1 1 1, agnostic 4 3 1 0 1 2, agnostic 5 1 1 1 1 1,
     agnostic 5 1 1 0 1 2, agnostic 5 3 1 1 1 1, agnostic 5 3 1 0 1 2,
     agnostic 2 3 54 (- 1) 1 1, agnostic 2 3 49 4 1 2, agnostic 1 1 115 1 2 1,
     agnostic 1 1 115 0 2 2, agnostic 1 1 114 1 3 1, agnostic 1 1 114 0 3 2,
     agnostic 1 1 116 1 5 1, agnostic 1 1 116 0 5 2, agnostic 2 3 53 (- 1) 1 1,
     agnostic 2 3 50 4 1 2, agnostic 1 1 115 1 2 1, agnostic 1 1 115 0 2 2,
     agnostic 1 1 114 1 3 1, agnostic 1 1 114 0 3 2, agnostic 1 1 116 1 5 1,
     agnostic 1 1 116 0 5 2, agnostic 6 3 57 (- 1) 1 1, agnostic 6 3 48 12 1 2,
     agnostic 5 1 115 1 2 1, agnostic 5 1 115 0 2 2, agnostic 5 1 114 1 3 1,
     agnostic 5 1 114 0 3 2, agnostic 7 1 116 1 5 1, agnostic 7 1 116 0 5 2]"

text \<open>The table alone, without the rest of the state.\<close>

type_synonym key_table = "(nat \<Rightarrow> key_entry) \<times> (nat \<Rightarrow> nat)"

fun tab_keys :: "key_spec list \<Rightarrow> key_table \<Rightarrow> key_table option" where
  "tab_keys [] t = Some t"
| "tab_keys (k # ks) (e, c) =
     (let i = nat (ks_file k); p = i * 15 + c i in
      if p \<ge> 195 then None else tab_keys ks (e(p := ks_entry k), c(i := c i + 1)))"

lemma add_keys_tab:
  assumes "\<forall>k \<in> set ks. ks_device k = 1 \<and> 0 \<le> ks_file k \<and> ks_file k \<le> 12"
    and "tab_keys ks (db_key db, db_count db) = Some (e, c)"
  shows "\<exists>db'. add_keys ks db = Inr db' \<and> db_key db' = e \<and> db_count db' = c"
  using assms
proof (induction ks arbitrary: db)
  case (Cons k ks)
  have k: "ks_device k = 1" "0 \<le> ks_file k" "ks_file k \<le> 12" using Cons.prems(1) by auto
  let ?i = "nat (ks_file k)" let ?p = "?i * 15 + db_count db ?i"
  let ?db = "(with_key k db)\<lparr>db_key := (db_key db)(?p := ks_entry k), db_count := (db_count db)(?i := db_count db ?i + 1)\<rparr>"
  have p: "?p < 195" using Cons.prems(2) by (auto simp: Let_def split: if_splits)
  have "put_key (ks_file k) (ks_entry k) (with_key k db) = Inr ?db"
    using k p by (simp add: put_key_def Let_def) (simp add: with_key_def)
  then have "add_keys (k # ks) db = add_keys ks ?db" using k by (simp add: use_key_with_key)
  moreover have "tab_keys ks (db_key ?db, db_count ?db) = Some (e, c)" using Cons.prems(2) p by (simp add: Let_def)
  moreover have "\<forall>k \<in> set ks. ks_device k = 1 \<and> 0 \<le> ks_file k \<and> ks_file k \<le> 12" using Cons.prems(1) by simp
  ultimately show ?case using Cons.IH [of ?db] by (simp only:)
qed simp

lemma shipped_table:
  "\<exists>e c. tab_keys shipped_keys (e0, \<lambda>_. 0) = Some (e, c) \<and> c 1 = 20 \<and> c 2 = 8 \<and>
     map e [30..<38] = map ks_entry
      [agnostic 1 1 115 0 2 2, agnostic 1 1 114 1 3 1, agnostic 1 1 114 0 3 2, agnostic 1 1 116 1 5 1, agnostic 1 1 116 0 5 2,
       agnostic 2 3 49 4 1 2, agnostic 2 3 53 (- 1) 1 1, agnostic 2 3 50 4 1 2]"
  by (simp add: shipped_keys_def agnostic_def upt_rec_numeral)

section \<open>\<open>HandleEvents\<close>\<close>

record input_event =
  ie_type :: int
  ie_code :: int
  ie_value :: int
  ie_now :: nat     \<comment> \<open>what \<open>GetTimestamp\<close> answers for it, in milliseconds\<close>

type_synonym event_log = "(nat \<times> string \<times> string) list"

definition event_str :: "string list" where
  "event_str = [[], ''screen'', ''key volup'', ''key voldown'', ''key ball'', ''key power'', ''key menu'', ''key home'',
     ''key back'', ''key search'']"

definition action_str :: "string list" where
  "action_str = [[], ''press'', ''release'']"

definition c_nth :: "'a list \<Rightarrow> int \<Rightarrow> input_error + 'a" where
  "c_nth xs i = (if 0 \<le> i \<and> i < int (length xs) then Inr (xs ! nat i) else Inl BadIndex)"

text \<open>\<open>-1\<close> in the table stands for any positive value.\<close>

definition fits :: "key_entry \<Rightarrow> input_event \<Rightarrow> bool" where
  "fits ke ev \<longleftrightarrow> k_arg1 ke = ie_type ev \<and> k_arg2 ke = ie_code ev \<and>
     (k_arg3 ke = ie_value ev \<or> k_arg3 ke = - 1 \<and> ie_value ev > 0)"

definition log_line :: "key_entry \<Rightarrow> input_event \<Rightarrow> input_error + (nat \<times> string \<times> string)" where
  "log_line ke ev =
     (case c_nth event_str (k_event ke) of Inl e \<Rightarrow> Inl e
      | Inr s \<Rightarrow> (case c_nth action_str (k_action ke) of Inl e \<Rightarrow> Inl e | Inr a \<Rightarrow> Inr (ie_now ev, s, a)))"

text \<open>How far a loop got, with the number of reads of \<open>exitFlag\<close> so far and the log. \<open>Leave\<close>: return 0; its argument tells
  if \<open>exitFlag\<close> was set to 3 first.\<close>

datatype step = Proceed | Leave bool

type_synonym handling = "input_error + step \<times> nat \<times> event_log"

definition key_at :: "keydb \<Rightarrow> nat \<Rightarrow> nat \<Rightarrow> input_error + key_entry" where
  "key_at db i k = (if i * MAX_KEY_ENTRIES + k \<ge> N_ROWS * MAX_KEY_ENTRIES then Inl BadIndex
     else Inr (db_key db (i * MAX_KEY_ENTRIES + k)))"

definition handle_key :: "(nat \<Rightarrow> int) \<Rightarrow> input_event \<Rightarrow> key_entry \<Rightarrow> nat \<Rightarrow> event_log \<Rightarrow> handling" where
  "handle_key flag ev ke n log =
     (if \<not> fits ke ev then Inr (Proceed, n, log)
      else if flag n = 4 then Inr (Leave True, Suc n, log)
      else (case log_line ke ev of Inl e \<Rightarrow> Inl e
        | Inr l \<Rightarrow>
            if k_event ke = 3 \<and> k_action ke = 2
            then Inr (if flag (n + 2) = 3 then Leave False else Proceed, n + 3, log @ [l])
            else Inr (Proceed, Suc n, log @ [l])))"

fun handle_keys :: "(nat \<Rightarrow> int) \<Rightarrow> keydb \<Rightarrow> nat \<Rightarrow> input_event \<Rightarrow> nat list \<Rightarrow> nat \<Rightarrow> event_log \<Rightarrow> handling" where
  "handle_keys flag db i ev [] n log = Inr (Proceed, n, log)"
| "handle_keys flag db i ev (k # ks) n log =
     (if flag n = 4 then Inr (Leave True, Suc n, log)
      else (case key_at db i k of Inl e \<Rightarrow> Inl e
        | Inr ke \<Rightarrow>
          (case handle_key flag ev ke (Suc n) log of
             Inr (Proceed, n', log') \<Rightarrow> handle_keys flag db i ev ks n' log'
           | r \<Rightarrow> r)))"

text \<open>The events of one read: \<open>js\<close> are the indexes up to \<open>nEvents\<close>, \<open>evs\<close> is the array \<open>events\<close>.\<close>

fun handle_events :: "(nat \<Rightarrow> int) \<Rightarrow> keydb \<Rightarrow> nat \<Rightarrow> input_event list \<Rightarrow> nat list \<Rightarrow> nat \<Rightarrow> event_log \<Rightarrow> handling" where
  "handle_events flag db i evs [] n log = Inr (Proceed, n, log)"
| "handle_events flag db i evs (j # js) n log =
     (if j \<ge> length evs then Inl BadIndex
      else (case handle_keys flag db i (evs ! j) [0..<db_count db i] n log of
          Inr (Proceed, n', log') \<Rightarrow> handle_events flag db i evs js n' log'
        | r \<Rightarrow> r))"

text \<open>\<open>int nEvents = rd / sizeof(struct input_event)\<close>: the division is unsigned, and an event has sixteen bytes.\<close>

definition n_events :: "32 word \<Rightarrow> nat" where
  "n_events rd = unat rd div 16"

text \<open>The input files: \<open>None\<close> if the file is not open or has nothing to read, else what \<open>read\<close> returns and what the
  array holds after it.\<close>

type_synonym input_reads = "nat \<Rightarrow> (32 word \<times> input_event list) option"

fun handle_files :: "(nat \<Rightarrow> int) \<Rightarrow> keydb \<Rightarrow> input_reads \<Rightarrow> nat list \<Rightarrow> nat \<Rightarrow> event_log \<Rightarrow> handling" where
  "handle_files flag db rds [] n log = Inr (Proceed, n, log)"
| "handle_files flag db rds (i # is) n log =
     (case rds i of None \<Rightarrow> handle_files flag db rds is n log
      | Some (rd, evs) \<Rightarrow>
        (case handle_events flag db i evs [0..<n_events rd] n log of
           Inr (Proceed, n', log') \<Rightarrow> handle_files flag db rds is n' log'
         | r \<Rightarrow> r))"

text \<open>What \<open>select\<close> answers: nothing within ten seconds, or files that can be read. That it fails is in
  \<^verbatim>\<open>Aro_Session\<close>. The first read of \<open>exitFlag\<close> is for the log of the monitor only.\<close>

definition HandleEvents :: "(nat \<Rightarrow> int) \<Rightarrow> keydb \<Rightarrow> input_reads option \<Rightarrow> event_log \<Rightarrow> handling" where
  "HandleEvents flag db ready log =
     (if flag 1 = 4 then Inr (Leave True, 2, log)
      else (case ready of None \<Rightarrow> Inr (Proceed, 2, log)
        | Some rds \<Rightarrow> handle_files flag db rds [0..<N_ROWS] 2 log))"

section \<open>What is logged\<close>

definition good_entry :: "key_entry \<Rightarrow> bool" where
  "good_entry ke \<longleftrightarrow> 0 \<le> k_event ke \<and> k_event ke \<le> 9 \<and> 0 \<le> k_action ke \<and> k_action ke \<le> 2"

definition entry_log :: "input_event \<Rightarrow> key_entry \<Rightarrow> nat \<times> string \<times> string" where
  "entry_log ev ke = (ie_now ev, event_str ! nat (k_event ke), action_str ! nat (k_action ke))"

definition event_logs :: "key_entry list \<Rightarrow> input_event \<Rightarrow> event_log" where
  "event_logs row ev = map (entry_log ev) (filter (\<lambda>ke. fits ke ev) row)"

definition read_logs :: "keydb \<Rightarrow> input_reads \<Rightarrow> nat \<Rightarrow> event_log" where
  "read_logs db rds i =
     (case rds i of None \<Rightarrow> []
      | Some (rd, evs) \<Rightarrow> concat (map (event_logs (db_row db i)) (take (n_events rd) evs)))"

text \<open>A loop that logs \<open>l\<close>, or stops early and has logged a part of it. With a flag that is never 3 or 4 it does not stop.\<close>

definition logs :: "(nat \<Rightarrow> int) \<Rightarrow> event_log \<Rightarrow> event_log \<Rightarrow> handling \<Rightarrow> bool" where
  "logs flag log l r \<longleftrightarrow>
     (\<exists>s n l'. r = Inr (s, n, log @ l') \<and> prefix l' l \<and> (s = Proceed \<longrightarrow> l' = l) \<and>
        ((\<forall>m. flag m \<noteq> 3 \<and> flag m \<noteq> 4) \<longrightarrow> s = Proceed))"

lemma logs_Nil [simp]: "logs flag log [] (Inr (Proceed, n, log))"
  by (simp add: logs_def)

lemma logs_bind:
  assumes "logs flag log l r" and "\<And>n. logs flag (log @ l) l2 (f n (log @ l))"
  shows "logs flag log (l @ l2) (case r of Inr (Proceed, n, log') \<Rightarrow> f n log' | r \<Rightarrow> r)"
proof -
  obtain s n l' where r: "r = Inr (s, n, log @ l')" "prefix l' l" "s = Proceed \<longrightarrow> l' = l"
      "(\<forall>m. flag m \<noteq> 3 \<and> flag m \<noteq> 4) \<longrightarrow> s = Proceed"
    using assms(1) by (auto simp: logs_def)
  show ?thesis
  proof (cases s)
    case Proceed
    then show ?thesis using r assms(2) [of n] by (fastforce simp: logs_def)
  next
    case (Leave b)
    then show ?thesis using r by (auto simp: logs_def)
  qed
qed

definition good_table :: "keydb \<Rightarrow> bool" where
  "good_table db \<longleftrightarrow> (\<forall>i < N_ROWS. db_count db i \<le> MAX_KEY_ENTRIES \<and> (\<forall>ke \<in> set (db_row db i). good_entry ke))"

lemma log_line_good: "good_entry ke \<Longrightarrow> log_line ke ev = Inr (entry_log ev ke)"
  by (simp add: good_entry_def log_line_def c_nth_def entry_log_def event_str_def action_str_def)

lemma handle_key_logs:
  assumes "good_entry ke"
  shows "logs flag log (event_logs [ke] ev) (handle_key flag ev ke n log)"
  using assms by (auto simp: handle_key_def logs_def event_logs_def log_line_good)

lemma event_logs_Cons: "event_logs (ke # row) ev = event_logs [ke] ev @ event_logs row ev"
  by (simp add: event_logs_def)

lemma logs_Leave: "flag n = 4 \<Longrightarrow> logs flag log l (Inr (Leave b, m, log))"
  by (auto simp: logs_def)

lemma handle_keys_logs:
  assumes "\<forall>k \<in> set ks. key_at db i k = Inr (g k) \<and> good_entry (g k)"
  shows "logs flag log (event_logs (map g ks) ev) (handle_keys flag db i ev ks n log)"
  using assms
proof (induction ks arbitrary: n log)
  case (Cons k ks)
  show ?case
  proof (cases "flag n = 4")
    case False
    have "logs flag log (event_logs [g k] ev @ event_logs (map g ks) ev)
        (case handle_key flag ev (g k) (Suc n) log of Inr (Proceed, n', log') \<Rightarrow> handle_keys flag db i ev ks n' log' | r \<Rightarrow> r)"
      by (rule logs_bind) (use Cons in \<open>simp_all add: handle_key_logs\<close>)
    then show ?thesis using Cons.prems False event_logs_Cons [of "g k" "map g ks"] by simp
  qed (simp add: logs_Leave)
qed (simp add: event_logs_def)

lemma handle_row_logs:
  assumes "good_table db" and "i < N_ROWS"
  shows "logs flag log (event_logs (db_row db i) ev) (handle_keys flag db i ev [0..<db_count db i] n log)"
  unfolding db_row_def using assms
  by (intro handle_keys_logs) (fastforce simp: good_table_def key_at_def db_row_def)

lemma handle_events_logs:
  assumes "good_table db" and "i < N_ROWS" and "\<forall>j \<in> set js. j < length evs"
  shows "logs flag log (concat (map (\<lambda>j. event_logs (db_row db i) (evs ! j)) js)) (handle_events flag db i evs js n log)"
  using assms(3)
proof (induction js arbitrary: n log)
  case (Cons j js)
  have "logs flag log (event_logs (db_row db i) (evs ! j) @ concat (map (\<lambda>j. event_logs (db_row db i) (evs ! j)) js))
      (case handle_keys flag db i (evs ! j) [0..<db_count db i] n log of
         Inr (Proceed, n', log') \<Rightarrow> handle_events flag db i evs js n' log' | r \<Rightarrow> r)"
    by (rule logs_bind) (use Cons assms in \<open>simp_all add: handle_row_logs\<close>)
  then show ?case using Cons.prems by simp
qed simp

lemma map_nth_take: "n \<le> length xs \<Longrightarrow> map ((!) xs) [0..<n] = take n xs"
  by (rule nth_equalityI) simp_all

lemma read_logs_Some:
  "rds i = Some (rd, evs) \<Longrightarrow> n_events rd \<le> length evs \<Longrightarrow>
   read_logs db rds i = concat (map (\<lambda>j. event_logs (db_row db i) (evs ! j)) [0..<n_events rd])"
  using map_nth_take [of "n_events rd" evs]
  by (simp add: read_logs_def flip: map_map [unfolded comp_def])

lemma handle_files_logs:
  assumes "good_table db" and "\<forall>i rd evs. rds i = Some (rd, evs) \<longrightarrow> n_events rd \<le> length evs"
  shows "\<forall>i \<in> set is. i < N_ROWS \<Longrightarrow>
    logs flag log (concat (map (read_logs db rds) is)) (handle_files flag db rds is n log)"
proof (induction "is" arbitrary: n log)
  case (Cons i "is")
  show ?case
  proof (cases "rds i")
    case None
    then show ?thesis using Cons by (simp add: read_logs_def)
  next
    case (Some p)
    obtain rd evs where p: "p = (rd, evs)" by (cases p)
    then have n: "n_events rd \<le> length evs" using assms(2) Some by blast
    have "logs flag log (read_logs db rds i @ concat (map (read_logs db rds) is))
        (case handle_events flag db i evs [0..<n_events rd] n log of
           Inr (Proceed, n', log') \<Rightarrow> handle_files flag db rds is n' log' | r \<Rightarrow> r)"
      by (rule logs_bind)
        (use Cons assms(1) Some p n in \<open>simp_all add: handle_events_logs read_logs_Some\<close>)
    then show ?thesis using Some p by simp
  qed
qed simp

text \<open>C18: \<open>HandleEvents\<close> logs exactly the events that are in the table: if no row is longer than fifteen and every
  read gives no more events than the array holds, then what one call writes to the log is, input file by input file,
  event by event and in the order of the row, a line for every entry that fits the event - or, when the monitor is
  told to stop on the way, the first part of these lines. Without a stop the call goes through all of them; no index is out of
  range in either case.\<close>

theorem events_logged:
  assumes "good_table db" and "\<forall>i rd evs. rds i = Some (rd, evs) \<longrightarrow> n_events rd \<le> length evs"
  shows "\<exists>s n l. HandleEvents flag db (Some rds) log = Inr (s, n, log @ l) \<and>
    prefix l (concat (map (read_logs db rds) [0..<13])) \<and>
    (s = Proceed \<longrightarrow> l = concat (map (read_logs db rds) [0..<13])) \<and>
    ((\<forall>m. flag m \<noteq> 3 \<and> flag m \<noteq> 4) \<longrightarrow> s = Proceed)"
proof (cases "flag 1 = 4")
  case False
  then have "HandleEvents flag db (Some rds) log = handle_files flag db rds [0..<N_ROWS] 2 log"
    by (simp add: HandleEvents_def)
  then show ?thesis using handle_files_logs [OF assms, of "[0..<N_ROWS]" flag log 2] by (simp add: logs_def)
qed (auto simp: HandleEvents_def)

section \<open>When the table or a read is too long\<close>

lemma logs_runs:
  "logs flag log l r \<Longrightarrow> \<forall>m. flag m \<noteq> 3 \<and> flag m \<noteq> 4 \<Longrightarrow> \<exists>n. r = Inr (Proceed, n, log @ l)"
  by (auto simp: logs_def)

lemma handle_events_append:
  "handle_events flag db i evs (js @ js') n log =
     (case handle_events flag db i evs js n log of
        Inr (Proceed, n', log') \<Rightarrow> handle_events flag db i evs js' n' log' | r \<Rightarrow> r)"
  by (induction js arbitrary: n log) (auto split: sum.split step.split)

lemma handle_files_append:
  "handle_files flag db rds (is @ is') n log =
     (case handle_files flag db rds is n log of
        Inr (Proceed, n', log') \<Rightarrow> handle_files flag db rds is' n' log' | r \<Rightarrow> r)"
  by (induction "is" arbitrary: n log) (auto split: sum.split step.split option.split)

lemma handle_events_overrun:
  assumes "good_table db" and "i < N_ROWS" and "length evs < m" and "\<forall>m. flag m \<noteq> 3 \<and> flag m \<noteq> 4"
  shows "handle_events flag db i evs [0..<m] n log = Inl BadIndex"
proof -
  have "[0..<m] = [0..<length evs] @ length evs # [Suc (length evs)..<m]"
    using assms(3) upt_add_eq_append [of 0 "length evs" "m - length evs"] upt_conv_Cons [of "length evs" m] by simp
  moreover obtain n' where "handle_events flag db i evs [0..<length evs] n log =
      Inr (Proceed, n', log @ concat (map (\<lambda>j. event_logs (db_row db i) (evs ! j)) [0..<length evs]))"
    using logs_runs [OF handle_events_logs [OF assms(1,2)] assms(4)] by fastforce
  ultimately show ?thesis by (simp add: handle_events_append)
qed

text \<open>A \<open>read\<close> that fails is taken for a huge number of events: -1 divided by the size of an event is an unsigned
  division, and the loop runs past the end of \<open>events\<close>. This happens on every failed read of any input file, whatever
  the array holds, unless the monitor is being stopped.\<close>

theorem failed_read_overruns:
  assumes "good_table db" and "i < 13" and "rds i = Some (- 1, evs)" and "length evs = 128"
    and "\<forall>j rd evs. j < i \<longrightarrow> rds j = Some (rd, evs) \<longrightarrow> n_events rd \<le> length evs"
    and "\<forall>m. flag m \<noteq> 3 \<and> flag m \<noteq> 4"
  shows "HandleEvents flag db (Some rds) log = Inl BadIndex"
proof -
  define rds0 where "rds0 = (\<lambda>j. if j < i then rds j else None)"
  have same: "handle_files flag db rds is n log = handle_files flag db rds0 is n log" if "\<forall>j \<in> set is. j < i" for "is" n log
    using that by (induction "is" arbitrary: n log) (simp_all add: rds0_def split: option.split sum.split step.split)
  have "logs flag log (concat (map (read_logs db rds0) [0..<i])) (handle_files flag db rds0 [0..<i] 2 log)"
    using assms(1,2,5) by (intro handle_files_logs) (auto simp: rds0_def)
  then obtain n l where first: "handle_files flag db rds [0..<i] 2 log = Inr (Proceed, n, log @ l)"
    using logs_runs [OF _ assms(6)] same [of "[0..<i]"] by fastforce
  have "[0..<N_ROWS] = [0..<i] @ i # [Suc i..<N_ROWS]"
    using assms(2) upt_add_eq_append [of 0 i "N_ROWS - i"] upt_conv_Cons [of i N_ROWS] by simp
  moreover have "n_events (- 1) = 268435455" by (simp add: n_events_def unsigned_minus_1_eq_mask mask_eq_exp_minus_1)
  moreover have "handle_events flag db i evs [0..<268435455] n (log @ l) = Inl BadIndex"
    using assms by (intro handle_events_overrun) simp_all
  ultimately have "handle_files flag db rds [0..<N_ROWS] 2 log = Inl BadIndex"
    using first assms(3) by (simp only: handle_files_append handle_files.simps) simp
  then show ?thesis using assms(6) by (simp add: HandleEvents_def)
qed

definition one_event :: "nat \<Rightarrow> input_event \<Rightarrow> input_reads" where
  "one_event i ev = (\<lambda>j. if j = i then Some (16, [ev]) else None)"

lemma handle_one_event:
  assumes "i < N_ROWS" and "i * MAX_KEY_ENTRIES + db_count db i \<le> N_ROWS * MAX_KEY_ENTRIES"
    and "\<forall>ke \<in> set (db_row db i). good_entry ke" and "\<forall>m. flag m \<noteq> 3 \<and> flag m \<noteq> 4"
  shows "\<exists>n. HandleEvents flag db (Some (one_event i ev)) log = Inr (Proceed, n, log @ event_logs (db_row db i) ev)"
proof -
  have "logs flag log (event_logs (db_row db i) ev) (handle_keys flag db i ev [0..<db_count db i] n log)" for n
    unfolding db_row_def using assms(1-3) by (intro handle_keys_logs) (fastforce simp: key_at_def db_row_def)
  then obtain n where row: "handle_keys flag db i ev [0..<db_count db i] 2 log = Inr (Proceed, n, log @ event_logs (db_row db i) ev)"
    using logs_runs assms(4) by blast
  have none: "handle_files flag db (one_event i ev) is n log = Inr (Proceed, n, log)" if "i \<notin> set is" for "is" n log
    using that by (induction "is") (auto simp: one_event_def)
  have "[0..<N_ROWS] = [0..<i] @ i # [Suc i..<N_ROWS]"
    using assms(1) upt_add_eq_append [of 0 i "N_ROWS - i"] upt_conv_Cons [of i N_ROWS] by simp
  moreover have "one_event i ev i = Some (16, [ev])" "n_events 16 = 1" by (simp_all add: one_event_def n_events_def)
  ultimately have "handle_files flag db (one_event i ev) [0..<N_ROWS] 2 log = Inr (Proceed, n, log @ event_logs (db_row db i) ev)"
    using row none [of "[0..<i]"] none [of "[Suc i..<N_ROWS]"] by (simp only: handle_files_append handle_files.simps) simp
  then show ?thesis using assms(4) by (simp add: HandleEvents_def)
qed

lemma shipped_fits: "\<forall>k \<in> set shipped_keys. key_fits k"
  by (simp add: shipped_keys_def agnostic_def key_fits_def key_ints_def c_int_def)

lemma shipped_rows:
  assumes "\<forall>d \<in> set ds. device_fits d" and "length ds \<le> 20"
  shows "\<exists>db. ReadDeviceKeyDB dl (key_db_text ds shipped_keys) = Inr db \<and> db_count db 1 = 20 \<and> db_count db 2 = 8 \<and>
    db_row db 2 = map ks_entry
      [agnostic 1 1 115 0 2 2, agnostic 1 1 114 1 3 1, agnostic 1 1 114 0 3 2, agnostic 1 1 116 1 5 1, agnostic 1 1 116 0 5 2,
       agnostic 2 3 49 4 1 2, agnostic 2 3 53 (- 1) 1 1, agnostic 2 3 50 4 1 2]"
proof -
  let ?db = "add_devices dl ds empty_db"
  obtain e c where t: "tab_keys shipped_keys (db_key ?db, \<lambda>_. 0) = Some (e, c)" "c 1 = 20" "c 2 = 8"
      "map e [30..<38] = map ks_entry
        [agnostic 1 1 115 0 2 2, agnostic 1 1 114 1 3 1, agnostic 1 1 114 0 3 2, agnostic 1 1 116 1 5 1, agnostic 1 1 116 0 5 2,
         agnostic 2 3 49 4 1 2, agnostic 2 3 53 (- 1) 1 1, agnostic 2 3 50 4 1 2]"
    using shipped_table by blast
  have "\<forall>k \<in> set shipped_keys. ks_device k = 1 \<and> 0 \<le> ks_file k \<and> ks_file k \<le> 12"
    by (simp add: shipped_keys_def agnostic_def)
  moreover have "db_count ?db = (\<lambda>_. 0)" by (simp add: empty_db_def)
  ultimately obtain db where db: "add_keys shipped_keys ?db = Inr db" "db_key db = e" "db_count db = c"
    using add_keys_tab [of shipped_keys ?db] t(1) by metis
  have "map (\<lambda>k. e (2 * 15 + k)) [0..<8] = map e [30..<38]" by (simp add: upt_rec)
  then have "db_row db 2 = map e [30..<38]" using db t(3) by (simp add: db_row_def)
  then show ?thesis using ReadDeviceKeyDB_text [OF assms shipped_fits, of dl] db t by auto
qed

text \<open>C21: The \<^verbatim>\<open>key.db\<close> that is shipped overruns the table: its 48 lines for all devices alone have twenty keys of
  input file 1, and a row has room for fifteen, so the last five are written over the first five keys of input file 2. After these lines
  are read - whichever lines for devices stand before them - a touch that the file lists as a press of the screen is not logged, and an
  event of input file 2 that the file does not list is logged as a press of the power key.\<close>

theorem shipped_key_db_overruns:
  assumes "\<forall>d \<in> set ds. device_fits d" and "length ds \<le> 20" and "\<forall>m. flag m \<noteq> 3 \<and> flag m \<noteq> 4"
  shows "\<exists>db n n'. ReadDeviceKeyDB dl (key_db_text ds shipped_keys) = Inr db \<and> db_count db 1 = 20 \<and>
    agnostic 2 3 54 (- 1) 1 1 \<in> set shipped_keys \<and>
    HandleEvents flag db (Some (one_event 2 \<lparr>ie_type = 3, ie_code = 54, ie_value = 7, ie_now = t\<rparr>)) log =
      Inr (Proceed, n, log) \<and>
    (\<nexists>a3 ev ac. agnostic 2 1 116 a3 ev ac \<in> set shipped_keys) \<and>
    HandleEvents flag db (Some (one_event 2 \<lparr>ie_type = 1, ie_code = 116, ie_value = 1, ie_now = t\<rparr>)) log =
      Inr (Proceed, n', log @ [(t, ''key power'', ''press'')])"
proof -
  obtain db where db: "ReadDeviceKeyDB dl (key_db_text ds shipped_keys) = Inr db" "db_count db 1 = 20" "db_count db 2 = 8"
      "db_row db 2 = map ks_entry
        [agnostic 1 1 115 0 2 2, agnostic 1 1 114 1 3 1, agnostic 1 1 114 0 3 2, agnostic 1 1 116 1 5 1, agnostic 1 1 116 0 5 2,
         agnostic 2 3 49 4 1 2, agnostic 2 3 53 (- 1) 1 1, agnostic 2 3 50 4 1 2]"
    using shipped_rows [OF assms(1,2)] by blast
  have "\<forall>ke \<in> set (db_row db 2). good_entry ke" using db(4) by (simp add: agnostic_def good_entry_def)
  then have "\<exists>n. HandleEvents flag db (Some (one_event 2 ev)) log = Inr (Proceed, n, log @ event_logs (db_row db 2) ev)" for ev
    using handle_one_event [of 2 db flag] db(3) assms(3) by simp
  moreover have "event_logs (db_row db 2) \<lparr>ie_type = 3, ie_code = 54, ie_value = 7, ie_now = t\<rparr> = []"
    using db(4) by (simp add: event_logs_def fits_def agnostic_def)
  moreover have "event_logs (db_row db 2) \<lparr>ie_type = 1, ie_code = 116, ie_value = 1, ie_now = t\<rparr> = [(t, ''key power'', ''press'')]"
    using db(4) by (simp add: event_logs_def fits_def agnostic_def entry_log_def event_str_def action_str_def)
  moreover have "agnostic 2 3 54 (- 1) 1 1 \<in> set shipped_keys" by (simp add: shipped_keys_def)
  moreover have "\<nexists>a3 ev ac. agnostic 2 1 116 a3 ev ac \<in> set shipped_keys" by (simp add: shipped_keys_def agnostic_def)
  ultimately show ?thesis using db(1,2) by (metis append_Nil2)
qed

section \<open>The properties at concrete inputs\<close>

text \<open>A table with one key, the press of \<open>key voldown\<close> at input file 1.\<close>

definition voldown_db :: keydb where
  "voldown_db = empty_db\<lparr>db_count := (\<lambda>_. 0)(1 := 1),
     db_key := (db_key empty_db)(15 := \<lparr>k_arg1 = 1, k_arg2 = 114, k_arg3 = 1, k_event = 3, k_action = 1\<rparr>)\<rparr>"

lemma voldown_row:
  "db_row voldown_db i = (if i = 1 then [\<lparr>k_arg1 = 1, k_arg2 = 114, k_arg3 = 1, k_event = 3, k_action = 1\<rparr>] else [])"
  by (simp add: db_row_def voldown_db_def)

lemma voldown_good: "good_table voldown_db"
  by (simp add: good_table_def voldown_row) (simp add: voldown_db_def good_entry_def)

lemma events_logged_witness:
  "\<exists>s n l. HandleEvents (\<lambda>_. 1) voldown_db (Some (one_event 1 \<lparr>ie_type = 1, ie_code = 114, ie_value = 1, ie_now = 7\<rparr>)) [] =
     Inr (s, n, l) \<and> l = [(7, ''key voldown'', ''press'')]"
proof -
  have "n_events 16 = 1" by (simp add: n_events_def)
  then have "\<forall>i rd evs. one_event 1 \<lparr>ie_type = 1, ie_code = 114, ie_value = 1, ie_now = 7\<rparr> i = Some (rd, evs) \<longrightarrow>
      n_events rd \<le> length evs" by (simp add: one_event_def)
  moreover have "concat (map (read_logs voldown_db (one_event 1 \<lparr>ie_type = 1, ie_code = 114, ie_value = 1, ie_now = 7\<rparr>)) [0..<13])
      = [(7, ''key voldown'', ''press'')]"
    by (simp add: upt_rec read_logs_def one_event_def voldown_row n_events_def event_logs_def fits_def entry_log_def
        event_str_def action_str_def)
  ultimately show ?thesis
    using events_logged [OF voldown_good, of "one_event 1 \<lparr>ie_type = 1, ie_code = 114, ie_value = 1, ie_now = 7\<rparr>" "\<lambda>_. 1" "[]"]
    by auto
qed

lemma failed_read_overruns_witness:
  "HandleEvents (\<lambda>_. 1) voldown_db
     (Some (\<lambda>j. if j = 1 then Some (- 1, replicate 128 \<lparr>ie_type = 0, ie_code = 0, ie_value = 0, ie_now = 0\<rparr>) else None)) [] =
   Inl BadIndex"
  by (rule failed_read_overruns [OF voldown_good, where i = 1
        and evs = "replicate 128 \<lparr>ie_type = 0, ie_code = 0, ie_value = 0, ie_now = 0\<rparr>"]) auto

lemma shipped_key_db_overruns_witness:
  "\<exists>db n. ReadDeviceKeyDB [] (key_db_text [] shipped_keys) = Inr db \<and> db_count db 1 = 20 \<and>
     HandleEvents (\<lambda>_. 1) db (Some (one_event 2 \<lparr>ie_type = 3, ie_code = 54, ie_value = 7, ie_now = 0\<rparr>)) [] =
       Inr (Proceed, n, [])"
  using shipped_key_db_overruns [of "[]" "\<lambda>_. 1" "[]" 0 "[]"] by auto

end
