(* ===== verification/Spec2Isabelle.thy ===== *)
theory Spec2Isabelle
  imports Prelude Bpf_Machine Bpf_Validate Opt_Atoms Opt_Dead Opt_Value
    Icode Opt_Merge Flow_Dom Sock_Packet Icode_Valid Gen_Correct Gen_Relation Gen_Text
    Sf_Correct Sf_Filtered Sf_Ng_Files Aro_Stop Aro_Events
begin

text \<open>
  The native part of MobiPerf (\<^verbatim>\<open>src/android/external\<close>): the packet capture library
  \<^verbatim>\<open>libpcap-1.1.1\<close> as extended by AT&T ARO, on which \<^verbatim>\<open>tcpdump-4.1.1\<close> runs. A
  capture filter is text; \<open>pcap_compile\<close> turns it into a program of a small register machine, which
  \<open>bpf_filter\<close> runs on every packet; a packet that passes is attributed to the application that owns
  its connection.

  The components, in the order a filter passes through them.

  \<^item> Addresses in filters: \<^verbatim>\<open>Gen_Ncode\<close> has the parsers of \<^verbatim>\<open>nametoaddr.c\<close>
    (\<open>__pcap_atoin\<close>, \<open>__pcap_atodn\<close>, \<open>xdtoi\<close>, \<open>pcap_ether_aton\<close>) with \<open>gen_ncode\<close> and \<open>gen_mcode\<close>;
    \<^verbatim>\<open>Gen_Text\<close> proves them right against printers of the notations.
  \<^item> The code generator, \<^verbatim>\<open>gencode.c\<close>. Blocks of statements hang in a heap, and the
    branches that are not resolved yet are threaded through their jump fields: \<^verbatim>\<open>Gen_Block\<close>
    (\<open>gen_and\<close>, \<open>gen_or\<close>, \<open>gen_not\<close>, \<open>backpatch\<close>, \<open>merge\<close>, \<open>finish_parse\<close>). \<^verbatim>\<open>Gen_Expr\<close>
    says what it is for a part of the heap to be a pending expression that decides a predicate on packets,
    \<^verbatim>\<open>Gen_Triple\<close> has one rule per combinator and the theorem that \<open>finish_parse\<close> makes of the
    last expression a graph which decides it, \<^verbatim>\<open>Gen_Rules\<close> the rules used for the generators.
    These follow in the order of the source: \<^verbatim>\<open>Gen_Layout\<close> (\<open>init_linktype\<close>: the header offsets
    of each link layer), \<^verbatim>\<open>Gen_Cmp\<close> (loads and comparisons), \<^verbatim>\<open>Gen_Link\<close> and
    \<^verbatim>\<open>Gen_Linktype\<close> (which protocol a packet carries), \<^verbatim>\<open>Gen_Host\<close>,
    \<^verbatim>\<open>Gen_Port\<close>, \<^verbatim>\<open>Gen_Proto\<close>, \<^verbatim>\<open>Gen_Misc\<close> (lengths, bytes,
    broadcast, Ethernet addresses), \<^verbatim>\<open>Gen_Encap\<close> (VLAN, MPLS, PPPoE) and
    \<^verbatim>\<open>Gen_Signal\<close> (ATM, SS7), and \<^verbatim>\<open>Gen_Arith\<close> (arithmetic on packet data: \<open>gen_load\<close>,
    \<open>gen_arth\<close>, \<open>gen_relation\<close> and the allocation of scratch registers). Each generator comes with its meaning and the proof that what it
    generates decides it. \<^verbatim>\<open>Gen_Filter\<close> has the actions of the parser (\<^verbatim>\<open>grammar.c\<close>)
    and \<open>pcap_compile\<close>; the parser's input is the syntax tree.
  \<^item> The optimizer, \<^verbatim>\<open>optimize.c\<close>: \<^verbatim>\<open>Opt_Atoms\<close> (which registers a statement
    uses and sets), \<^verbatim>\<open>Opt_Dead\<close> (dead stores), \<^verbatim>\<open>Opt_Value\<close> (value numbering);
    \<^verbatim>\<open>Flow_Graph\<close>, \<^verbatim>\<open>Flow_Levels\<close> and \<^verbatim>\<open>Flow_Dom\<close> (traversals of
    the block graph, levels, dominators, closure); \<^verbatim>\<open>Opt_Merge\<close> (\<open>intern_blocks\<close>, which merges equal blocks
    until none are left, and \<open>opt_root\<close>: what they do to the verdicts of the flow graph).
  \<^item> The back end, \<open>icode_to_fcode\<close> of \<^verbatim>\<open>optimize.c\<close>: \<^verbatim>\<open>Icode\<close>, with
    \<^verbatim>\<open>Icode_Valid\<close> for what the validator says of the programs it emits.
  \<^item> The filter machine and its validator, \<^verbatim>\<open>bpf/net/bpf_filter.c\<close>:
    \<^verbatim>\<open>Bpf_Machine\<close>, \<^verbatim>\<open>Bpf_Validate\<close>.
  \<^item> Capture files: \<^verbatim>\<open>Sf_Bytes\<close> and \<^verbatim>\<open>Sf_Linktype\<close> (byte order and the table of link types,
    \<^verbatim>\<open>pcap-common.c\<close>), \<^verbatim>\<open>Sf_Pcap\<close> (\<^verbatim>\<open>sf-pcap.c\<close>: reading and writing),
    \<^verbatim>\<open>Sf_Png\<close> (\<^verbatim>\<open>sf-pcap-ng.c\<close>), \<^verbatim>\<open>Sf_Offline\<close> (\<^verbatim>\<open>savefile.c\<close> and
    \<open>install_bpf_program\<close>: opening, setting a filter, the loop over the packets). Two interfaces, \<open>packet_source\<close> for a
    reader that stays inside its buffers and \<open>record_source\<close> for a file made of records, carry the proofs for both
    formats. \<^verbatim>\<open>Sf_Files\<close> and \<^verbatim>\<open>Sf_Ng_Files\<close> say what files hosts write - the USB pseudo-headers by the structures
    of \<^verbatim>\<open>pcap/usb.h\<close> - and what reading gives,
    \<^verbatim>\<open>Sf_Correct\<close> has the properties and \<^verbatim>\<open>Sf_Filtered\<close> composes reading with the filter compiler.
  \<^item> Application attribution, \<^verbatim>\<open>socket_proc.c\<close>: \<^verbatim>\<open>Sock_Text\<close> (parsers of
    \<^verbatim>\<open>/proc\<close>), \<^verbatim>\<open>Sock_Table\<close> (connections, processes, applications),
    \<^verbatim>\<open>Sock_Packet\<close> (the two indexes and \<open>UpdatePacket\<close>; the indexes are exact from the start or a refresh of the
    table until \<open>StartCapture\<close> empties the table for a new bearer and leaves them as they are); \<^verbatim>\<open>Text_Print\<close> prints the numbers and
    lines whose parsers the round trips are about.
  \<^item> The capture session of ARO (\<^verbatim>\<open>tcpdump.c\<close>, \<open>pcap_loop\<close> of \<^verbatim>\<open>pcap.c\<close>,
    \<^verbatim>\<open>socket_server.c\<close>, \<^verbatim>\<open>user_input.c\<close>): \<^verbatim>\<open>Aro_Session\<close> has the main thread, the
    control socket and the input monitor as \<open>inductive\<close> steps on the variables they share, \<open>exitFlag\<close> and
    \<open>bearerChangedvalue\<close>; a run interleaves their steps in any order. Two things are left open by the state a session starts in:
    whether packets are read from the memory-mapped ring or in \<open>recvfrom\<close>, and whether \<open>pthread_join\<close> returns for the handle of
    the CPU monitor, which is never set. \<^verbatim>\<open>Aro_Stop\<close> shows what a stop does: the
    states the session can reach, when the capture is closed, what is written after the stop, and that with the ring, and if that
    join returns, every run then ends the process - unless the bearer has changed, or the stop is lost.
  \<^item> The input monitor's data, \<^verbatim>\<open>user_input.c\<close>: \<^verbatim>\<open>Aro_Input\<close> (\<open>ReadDeviceKeyDB\<close> and
    \<open>GetMyDeviceType\<close> on the characters of their files, with \<open>fgets\<close>, \<open>strtok\<close> and \<open>sscanf\<close> as used there),
    \<^verbatim>\<open>Aro_Keys\<close> (what a key file describes is what is read) and \<^verbatim>\<open>Aro_Events\<close> (\<open>HandleEvents\<close>: which
    events are logged, and where the tables are overrun).

  How they fit: \<open>fexp_meaning\<close> gives every filter expression a predicate on packets, or the error its
  compilation ends in. \<^verbatim>\<open>Gen_Correct\<close> proves that \<open>pcap_compile\<close>, from the parser's actions
  through \<open>finish_parse\<close>, \<open>icode_to_fcode\<close> and \<open>bpf_filter\<close>, computes exactly that predicate (without the
  optimizer, for expressions without bit tests on a byte, on link layers with headers of fixed length), that its
  output passes \<open>bpf_validate\<close>, and that a run of it ends. \<^verbatim>\<open>Gen_Packets\<close>,
  \<^verbatim>\<open>Gen_Bytes\<close>, \<^verbatim>\<open>Gen_Tagged\<close> and \<^verbatim>\<open>Gen_Relation\<close> carry the predicate down to the bytes of
  a packet for the filters users write.

  State and data. A pointer to a block is its index in the list of all blocks; a pointer that C threads
  through a field is an option. A global variable of a component is a field of its state record
  (\<open>layout\<close> for the offsets and the register table of \<^verbatim>\<open>gencode.c\<close>, \<open>gen\<close> for its heap, \<open>sock\<close> for the tables of
  \<^verbatim>\<open>socket_proc.c\<close>). \<open>bpf_error\<close> and \<open>abort\<close>, as well as what C leaves undefined, are values of
  the error type of the component, so a theorem that says \<open>Inr\<close> rules them out. A capture file is the bytes
  to come and whether the device fails at their end; \<open>malloc\<close>, \<open>fopen\<close> and \<open>fwrite\<close> do not fail. Machine integers keep
  their width (\<open>u8\<close>, \<open>u16\<close>, \<open>u32\<close>); signed ones are \<open>int\<close> where no operation can leave their range.

  Fuel and bounds. The interpreter and the loop of \<open>pcap_offline_read\<close> are \<open>partial_function\<close>s: that they return is a theorem. Traversals of
  the block graph have the number of blocks as fuel, and the theorems show that an acyclic graph needs no
  more; the lists of branches that \<open>backpatch\<close> and \<open>merge\<close> follow have the size of the heap as fuel, and a
  pending expression never runs out of it. \<open>icode_to_fcode\<close> is retried at most twice per block; a round of \<open>intern_blocks\<close> that changes
  anything moves an edge towards the end of \<open>blocks\<close>, so two times the square of their number and one more rounds are enough. Bounds
  such as 2 to the 32 on the length of a program are the width of its counters.

  Not modelled. Of \<^verbatim>\<open>gencode.c\<close>: link headers of variable length (802.11 with radio
  headers, PPI), for which \<open>GenOutside\<close> marks the branch; \<open>gen_protochain\<close>;
  filters with host and service names, which ask the resolver; the PF log and 802.11 keywords. Of
  \<^verbatim>\<open>optimize.c\<close>: the passes that move branches (\<open>opt_j\<close>, \<open>or_pullup\<close>,
  \<open>and_pullup\<close>, \<open>opt_peep\<close>) and the loop around the passes, which rest on value numbers that hold across blocks, hence \<open>pcap_compile\<close> with \<open>optimize\<close> off is what
  the end-to-end theorems are about. The scanner and the parser's tables are generated. Of the capture session: signals and
  \<open>pcap_breakloop\<close>, the option \<open>-c\<close>, failures while the session is set up, and the CPU monitor, whose thread is
  never created; the layout of the packets and connections it writes is not looked at there. Of
  \<^verbatim>\<open>user_input.c\<close>: the opening of the input devices and the debug log. The capture
  devices (\<^verbatim>\<open>pcap-linux.c\<close> and its siblings for other systems), the printers of
  \<^verbatim>\<open>tcpdump-4.1.1\<close> and the Java application are input and output around this core.
\<close>

end
